(* ===== verification/Prelude.thy ===== *)
theory Prelude
  imports "HOL-Library.Word"
begin

text \<open>
  Shared ground of the development: machine integer types, the outcome of a kernel routine
  (it returns, it halts in a panic or in an access C leaves undefined, or it is still asleep),
  sequencing of routines, a small weakest-precondition calculus over outcomes, and the generic
  facts on words, lists and loops that the component theories use.
\<close>

unbundle bit_operations_syntax

section \<open>Machine integers\<close>

type_synonym u8 = "8 word"
type_synonym u16 = "16 word"
type_synonym u32 = "32 word"

text \<open>
  The kernel is compiled for the 80386: \<open>char\<close> is 8 bits and signed, \<open>short\<close> 16 bits,
  \<open>int\<close>, \<open>long\<close> and pointers 32 bits. A C value is a word of its width; where the
  code uses it as a signed number the definitions read it with \<open>sint\<close>. C division truncates
  towards zero.
\<close>

definition cdiv :: "int \<Rightarrow> int \<Rightarrow> int" where
  "cdiv a b = sgn a * sgn b * (\<bar>a\<bar> div \<bar>b\<bar>)"

definition cmod :: "int \<Rightarrow> int \<Rightarrow> int" where
  "cmod a b = a - b * cdiv a b"

named_theorems word_nat "facts that turn word expressions into arithmetic on nat"

lemma unat_and_mask [word_nat]: "unat (x AND mask n) = unat x mod 2 ^ n"
  by (simp only: take_bit_eq_mask [symmetric] unsigned_take_bit_eq)
    (rule take_bit_eq_mod)

lemma mask_literals: "(1023 :: u32) = mask 10" "(0xfff :: u32) = mask 12" "(0x3ff :: u32) = mask 10"
    "(0xff :: u32) = mask 8" "(0x3fffff :: u32) = mask 22" "(8191 :: u32) = mask 13"
  by (simp_all add: mask_eq_exp_minus_1)

lemma unat_and_1023 [word_nat]: "unat ((x :: u32) AND 1023) = unat x mod 1024"
  by (simp add: mask_literals(1) unat_and_mask)

lemma unat_inc_1023 [word_nat]: "unat (((x :: u32) + 1) AND 1023) = (unat x + 1) mod 1024"
  by (simp add: unat_and_1023 unat_word_ariths mod_mod_cancel)

lemma unat_dec_1023 [word_nat]: "unat (((x :: u32) - 1) AND 1023) = (unat x + 1023) mod 1024"
proof (cases "x = 0")
  case True
  then show ?thesis by simp
next
  case False
  then have "0 < unat x" by (simp add: unat_gt_0)
  then obtain k where k: "unat x = Suc k" by (cases "unat x") auto
  from False have "unat (x - 1) = unat x - 1" by (rule unat_minus_one)
  with k have "unat (x - 1) mod 1024 = k mod 1024" by simp
  also have "\<dots> = (k + 1024) mod 1024" by simp
  also have "k + 1024 = unat x + 1023" by (simp add: k)
  finally show ?thesis by (simp only: unat_and_1023)
qed

lemma unat_of_nat_u32: "n < 2 ^ 32 \<Longrightarrow> unat (of_nat n :: u32) = n"
  unfolding unat_of_nat by simp

lemma unat_shiftr: "unat (drop_bit n (x :: 'a::len word)) = unat x div 2 ^ n"
  by (rule trans [OF unat_drop_bit_eq drop_bit_eq_div])

lemma and_shifted_mask: "(x :: 'a::len word) AND push_bit k (mask m) = push_bit k (drop_bit k x AND mask m)"
  by (rule bit_word_eqI) (auto simp: bit_simps)

lemma unat_and_ffc: "unat ((x :: u32) AND 0xffc) = 4 * (unat x div 4 mod 1024)"
proof -
  have "(0xffc :: u32) = push_bit 2 (mask 10)" by (simp add: mask_eq_exp_minus_1)
  moreover have "x AND push_bit 2 (mask 10) = push_bit 2 (drop_bit 2 x AND mask 10)"
    by (rule and_shifted_mask)
  ultimately have "x AND 0xffc = push_bit 2 (drop_bit 2 x AND mask 10)" by (simp only:)
  also have "\<dots> = of_nat (4 * (unat x div 4 mod 1024))"
  proof -
    have "unat (drop_bit 2 x AND mask 10) = unat x div 4 mod 1024"
      by (simp only: unat_and_mask unat_shiftr) simp
    moreover have "drop_bit 2 x AND mask 10 = of_nat (unat (drop_bit 2 x AND mask 10))" by simp
    ultimately have "drop_bit 2 x AND mask 10 = of_nat (unat x div 4 mod 1024)" by (simp only:)
    then show ?thesis by (simp only: push_bit_eq_mult) simp
  qed
  finally show ?thesis by (simp only:) (rule unat_of_nat_u32, simp)
qed

text \<open>Signed arithmetic that does not overflow.\<close>

named_theorems sint_in_range "signed sums and products of words within range"

lemma sint_plus [sint_in_range]:
  "- 2147483648 \<le> sint a + sint b \<Longrightarrow> sint a + sint b < 2147483648 \<Longrightarrow>
     sint ((a :: u32) + b) = sint a + sint b"
  by (simp add: sint_word_ariths signed_take_bit_int_eq_self)

lemma sint_minus [sint_in_range]:
  "- 2147483648 \<le> sint a - sint b \<Longrightarrow> sint a - sint b < 2147483648 \<Longrightarrow>
     sint ((a :: u32) - b) = sint a - sint b"
  by (simp add: sint_word_ariths signed_take_bit_int_eq_self)

lemma sint_times [sint_in_range]:
  "- 2147483648 \<le> sint a * sint b \<Longrightarrow> sint a * sint b < 2147483648 \<Longrightarrow>
     sint ((a :: u32) * b) = sint a * sint b"
  by (simp add: sint_word_ariths signed_take_bit_int_eq_self)

lemma sint_of_int [sint_in_range]:
  "- 2147483648 \<le> k \<Longrightarrow> k < 2147483648 \<Longrightarrow> sint (word_of_int k :: u32) = k"
  by (simp add: sint_sbintrunc' signed_take_bit_int_eq_self)

lemma sint_half [sint_in_range]: "sint (signed_drop_bit 1 (a :: u32)) = sint a div 2"
  by (simp add: sint_signed_drop_bit_eq drop_bit_eq_div)

lemma sint_half_Suc [sint_in_range]: "sint (signed_drop_bit (Suc 0) (a :: u32)) = sint a div 2"
  using sint_half [of a] by simp

lemma sint_range: "- 2147483648 \<le> sint (a :: u32)" "sint (a :: u32) < 2147483648"
  using sint_greater_eq [of a] sint_lt [of a] by simp_all

lemma sint_inj: "sint (a :: 'w::len word) = sint b \<longleftrightarrow> a = b"
  by (auto intro: signed_word_eqI)

lemma cdiv_nonneg: "0 \<le> a \<Longrightarrow> 0 < b \<Longrightarrow> cdiv a b = a div b"
  by (auto simp: cdiv_def sgn_if)

lemma cmod_nonneg: "0 \<le> a \<Longrightarrow> 0 < b \<Longrightarrow> cmod a b = a mod b"
  by (simp add: cmod_def cdiv_nonneg minus_mult_div_eq_mod)

section \<open>Outcomes of a kernel routine\<close>

text \<open>
  \<open>panic(str)\<close> prints and spins for ever, so a call of it never returns: \<open>Panic str\<close>.
  \<open>Undef what\<close> marks an access that C leaves undefined (a null pointer, an index past an
  array). \<open>Blocked\<close> says that the run is not followed any further: the task is asleep and
  no wake-up of the run reaches it, or the routine loops for ever.
\<close>

datatype halt = Panic string | Undef string

datatype ('s, 'a) outcome = Done 'a 's | Halted halt 's | Blocked 's

primrec kbind :: "('s, 'a) outcome \<Rightarrow> ('a \<Rightarrow> 's \<Rightarrow> ('s, 'b) outcome) \<Rightarrow> ('s, 'b) outcome" where
  "kbind (Done x s) f = f x s"
| "kbind (Halted h s) f = Halted h s"
| "kbind (Blocked s) f = Blocked s"

lemma kbind_cong [fundef_cong]:
  "m = m' \<Longrightarrow> (\<And>x s. m' = Done x s \<Longrightarrow> f x s = g x s) \<Longrightarrow> kbind m f = kbind m' g"
  by (cases m') simp_all

lemma kbind_assoc: "kbind (kbind m f) g = kbind m (\<lambda>x s. kbind (f x s) g)"
  by (cases m) simp_all

lemma kbind_Done_iff:
  "kbind m f = Done y t \<longleftrightarrow> (\<exists>x s. m = Done x s \<and> f x s = Done y t)"
  by (cases m) simp_all

lemma kbind_DoneE [elim]:
  assumes "kbind m f = Done y t"
  obtains x s where "m = Done x s" "f x s = Done y t"
  using assms by (auto simp: kbind_Done_iff)

text \<open>The state a routine leaves, however it ends.\<close>

primrec final :: "('s, 'a) outcome \<Rightarrow> 's" where
  "final (Done x s) = s"
| "final (Halted h s) = s"
| "final (Blocked s) = s"

primrec returns :: "('s, 'a) outcome \<Rightarrow> bool" where
  "returns (Done x s) = True"
| "returns (Halted h s) = False"
| "returns (Blocked s) = False"

text \<open>
  \<open>if_done m Q\<close>: should the routine return, its result and state satisfy \<open>Q\<close>.
  \<open>safely m I Q\<close>: in addition it does not halt, and wherever it is cut off \<open>I\<close> holds.
\<close>

primrec if_done :: "('s, 'a) outcome \<Rightarrow> ('a \<Rightarrow> 's \<Rightarrow> bool) \<Rightarrow> bool" where
  "if_done (Done x s) Q = Q x s"
| "if_done (Halted h s) Q = True"
| "if_done (Blocked s) Q = True"

primrec safely :: "('s, 'a) outcome \<Rightarrow> ('s \<Rightarrow> bool) \<Rightarrow> ('a \<Rightarrow> 's \<Rightarrow> bool) \<Rightarrow> bool" where
  "safely (Done x s) I Q = Q x s"
| "safely (Halted h s) I Q = False"
| "safely (Blocked s) I Q = I s"

named_theorems wp "weakest-precondition rules of the kernel routines"

lemma if_done_kbind [wp]: "if_done (kbind m f) Q = if_done m (\<lambda>x s. if_done (f x s) Q)"
  by (cases m) simp_all

lemma safely_kbind [wp]: "safely (kbind m f) I Q = safely m I (\<lambda>x s. safely (f x s) I Q)"
  by (cases m) simp_all

lemma if_done_mono: "if_done m Q \<Longrightarrow> (\<And>x s. Q x s \<Longrightarrow> R x s) \<Longrightarrow> if_done m R"
  by (cases m) simp_all

lemma safely_mono:
  "safely m I Q \<Longrightarrow> (\<And>s. I s \<Longrightarrow> J s) \<Longrightarrow> (\<And>x s. Q x s \<Longrightarrow> R x s) \<Longrightarrow> safely m J R"
  by (cases m) simp_all

lemma if_doneD: "if_done m Q \<Longrightarrow> m = Done x s \<Longrightarrow> Q x s"
  by simp

lemma if_doneI: "(\<And>x s. m = Done x s \<Longrightarrow> Q x s) \<Longrightarrow> if_done m Q"
  by (cases m) simp_all

lemma safely_if_done: "safely m I Q \<Longrightarrow> if_done m Q"
  by (cases m) simp_all

lemma if_done_If [wp]:
  "if_done (if b then m else n) Q = ((b \<longrightarrow> if_done m Q) \<and> (\<not> b \<longrightarrow> if_done n Q))"
  by simp

lemma safely_If [wp]:
  "safely (if b then m else n) I Q = ((b \<longrightarrow> safely m I Q) \<and> (\<not> b \<longrightarrow> safely n I Q))"
  by simp

lemma final_kbindI:
  "P (final m) \<Longrightarrow> (\<And>x s. m = Done x s \<Longrightarrow> P (final (f x s))) \<Longrightarrow> P (final (kbind m f))"
  by (cases m) simp_all

text \<open>An invariant that holds wherever \<open>m\<close> ends is carried on by what follows it.\<close>

lemma kbind_keeps:
  "I (final m) \<Longrightarrow> (\<And>x s. I s \<Longrightarrow> m = Done x s \<Longrightarrow> I (final (f x s))) \<Longrightarrow> I (final (kbind m f))"
  by (cases m) simp_all

text \<open>
  \<open>always m I Q\<close>: \<open>I\<close> holds in the state the routine leaves, however it ends, and when it
  returns, \<open>Q\<close> holds of its result and state.
\<close>

definition always :: "('s, 'a) outcome \<Rightarrow> ('s \<Rightarrow> bool) \<Rightarrow> ('a \<Rightarrow> 's \<Rightarrow> bool) \<Rightarrow> bool" where
  "always m I Q \<longleftrightarrow> I (final m) \<and> if_done m Q"

lemma always_Done [simp]: "always (Done x s) I Q \<longleftrightarrow> I s \<and> Q x s"
  by (simp add: always_def)

lemma always_Halted [simp]: "always (Halted h s) I Q \<longleftrightarrow> I s"
  by (simp add: always_def)

lemma always_Blocked [simp]: "always (Blocked s) I Q \<longleftrightarrow> I s"
  by (simp add: always_def)

lemma always_kbind:
  "always m I P \<Longrightarrow> (\<And>x s. I s \<Longrightarrow> P x s \<Longrightarrow> always (f x s) I Q) \<Longrightarrow> always (kbind m f) I Q"
  by (cases m) (simp_all add: always_def)

lemma always_final: "I (final m) \<Longrightarrow> always m I (\<lambda>x s. True)"
  by (cases m) simp_all

lemma always_mono: "always m I P \<Longrightarrow> (\<And>x s. I s \<Longrightarrow> P x s \<Longrightarrow> Q x s) \<Longrightarrow> always m I Q"
  by (cases m) (auto simp: always_def)

lemma alwaysD: "always m I Q \<Longrightarrow> m = Done x s \<Longrightarrow> I s \<and> Q x s"
  by simp

section \<open>Lists and loops\<close>

text \<open>A loop over an array from its end, as \<open>for (p = &LAST; p > &FIRST; --p)\<close> writes it.\<close>

definition down :: "nat \<Rightarrow> nat \<Rightarrow> nat list" where
  "down lo hi = rev [lo..<hi]"

lemma set_down [simp]: "set (down lo hi) = {lo..<hi}"
  by (simp add: down_def)

lemma down_Suc: "lo \<le> hi \<Longrightarrow> down lo (Suc hi) = hi # down lo hi"
  by (simp add: down_def)

lemma down_empty [simp]: "hi \<le> lo \<Longrightarrow> down lo hi = []"
  by (simp add: down_def)

lemma distinct_down [simp]: "distinct (down lo hi)"
  by (simp add: down_def)

lemma fold_keeps:
  "I s \<Longrightarrow> (\<And>x s. x \<in> set xs \<Longrightarrow> I s \<Longrightarrow> I (f x s)) \<Longrightarrow> I (fold f xs s)"
  by (induction xs arbitrary: s) auto

end
