(* ===== verification/Sched.thy ===== *)
theory Sched
  imports Prelude
begin

text \<open>
  The task structures and the scheduler: \<^verbatim>\<open>include/linux/sched.h\<close>,
  \<^verbatim>\<open>include/signal.h\<close>, \<^verbatim>\<open>kernel/sched.c\<close> and \<^verbatim>\<open>kernel/sys.c\<close>. It holds
  the records of the structures, the scheduler's two passes, the switch to another task,
  \<open>sleep_on\<close>/\<open>wake_up\<close> on wait queues, the clock tick and the alarm calls.

  Pointers to task structures are addresses (\<open>u32\<close>, 0 is NULL) into the store \<open>tmem\<close>;
  the table \<open>task\<close> holds such pointers. A wait queue head, which the code keeps in a field
  of the structure waited for, is a cell of the store \<open>waitq\<close>, named by \<open>wq\<close>.
\<close>

section \<open>Structures\<close>

record sigaction =
  sa_handler :: u32
  sa_mask :: u32
  sa_flags :: u32
  sa_restorer :: u32

record desc_struct =
  desc_a :: u32
  desc_b :: u32

record tss_struct =
  tss_back_link :: u32
  tss_esp0 :: u32
  tss_ss0 :: u32
  tss_esp1 :: u32
  tss_ss1 :: u32
  tss_esp2 :: u32
  tss_ss2 :: u32
  tss_cr3 :: u32
  tss_eip :: u32
  tss_eflags :: u32
  tss_eax :: u32
  tss_ecx :: u32
  tss_edx :: u32
  tss_ebx :: u32
  tss_esp :: u32
  tss_ebp :: u32
  tss_esi :: u32
  tss_edi :: u32
  tss_es :: u32
  tss_cs :: u32
  tss_ss :: u32
  tss_ds :: u32
  tss_fs :: u32
  tss_gs :: u32
  tss_ldt :: u32
  tss_trace_bitmap :: u32
  tss_i387 :: "u32 list"

record task_struct =
  t_state :: u32
  t_counter :: u32
  t_priority :: u32
  t_signal :: u32
  t_sigaction :: "sigaction list"
  t_blocked :: u32
  t_exit_code :: u32
  t_start_code :: u32
  t_end_code :: u32
  t_end_data :: u32
  t_brk :: u32
  t_start_stack :: u32
  t_pid :: u32
  t_father :: u32
  t_pgrp :: u32
  t_session :: u32
  t_leader :: u32
  t_uid :: u16
  t_euid :: u16
  t_suid :: u16
  t_gid :: u16
  t_egid :: u16
  t_sgid :: u16
  t_alarm :: u32
  t_utime :: u32
  t_stime :: u32
  t_cutime :: u32
  t_cstime :: u32
  t_start_time :: u32
  t_used_math :: u16
  t_tty :: u32
  t_umask :: u16
  t_pwd :: "nat option"
  t_root :: "nat option"
  t_executable :: "nat option"
  t_close_on_exec :: u32
  t_filp :: "nat option list"
  t_ldt :: "desc_struct list"
  t_tss :: tss_struct

text \<open>
  \<open>pwd\<close>, \<open>root\<close> and \<open>executable\<close> point into the table \<open>inode_table\<close> and the
  entries of \<open>filp\<close> into \<open>file_table\<close>: \<open>Some i\<close> is the address of entry \<open>i\<close>,
  \<open>None\<close> is NULL.
\<close>

abbreviation (input) NR_TASKS :: nat where "NR_TASKS \<equiv> 64"
abbreviation (input) HZ :: nat where "HZ \<equiv> 100"

abbreviation (input) TASK_RUNNING :: u32 where "TASK_RUNNING \<equiv> 0"
abbreviation (input) TASK_INTERRUPTIBLE :: u32 where "TASK_INTERRUPTIBLE \<equiv> 1"
abbreviation (input) TASK_UNINTERRUPTIBLE :: u32 where "TASK_UNINTERRUPTIBLE \<equiv> 2"
abbreviation (input) TASK_ZOMBIE :: u32 where "TASK_ZOMBIE \<equiv> 3"
abbreviation (input) TASK_STOPPED :: u32 where "TASK_STOPPED \<equiv> 4"

abbreviation (input) SIGKILL :: u32 where "SIGKILL \<equiv> 9"
abbreviation (input) SIGALRM :: u32 where "SIGALRM \<equiv> 14"
abbreviation (input) SIGCHLD :: u32 where "SIGCHLD \<equiv> 17"
abbreviation (input) SIGSTOP :: u32 where "SIGSTOP \<equiv> 19"

text \<open>The cells that hold a wait queue head, one per \<open>struct task_struct *\<close> waited on.\<close>

datatype wq =
    Buffer_wait        \<comment> \<open>\<open>buffer_wait\<close> of fs/buffer.c\<close>
  | B_wait nat         \<comment> \<open>\<open>b_wait\<close> of a buffer head\<close>
  | I_wait nat         \<comment> \<open>\<open>i_wait\<close> of an inode\<close>
  | S_wait nat         \<comment> \<open>\<open>s_wait\<close> of a super block\<close>
  | Wait_for_request   \<comment> \<open>\<open>wait_for_request\<close> of the block driver\<close>
  | Req_waiting nat    \<comment> \<open>\<open>waiting\<close> of a request\<close>
  | Tty_wait nat       \<comment> \<open>\<open>buffer.wait_proc\<close> of a tty\<close>

record sched_state =
  klog :: "(string \<times> u32 list) list"  \<comment> \<open>what \<open>printk\<close> was called with, in order\<close>
  patience :: nat                       \<comment> \<open>how many more calls of \<open>schedule\<close> the run is followed for\<close>
  tmem :: "u32 \<Rightarrow> task_struct"
  task :: "u32 list"
  current :: u32
  init_task :: u32                      \<comment> \<open>the address of \<open>init_task\<close>\<close>
  jiffies :: u32
  startup_time :: u32
  last_pid :: u32
  last_task_used_math :: u32
  waitq :: "wq \<Rightarrow> u32"

text \<open>
  The initial task and the scheduler's variables as the kernel image holds them. Where the
  linker puts \<open>init_task\<close> and \<open>pg_dir\<close> is a parameter.
\<close>

definition LDT_sel :: "u32 \<Rightarrow> u32" where
  "LDT_sel n = push_bit 4 n + push_bit 3 5"

definition TSS_sel :: "u32 \<Rightarrow> u32" where
  "TSS_sel n = push_bit 4 n + push_bit 3 4"

definition INIT_TASK :: "u32 \<Rightarrow> u32 \<Rightarrow> task_struct" where
  "INIT_TASK addr pg_dir =
    \<lparr>t_state = 0, t_counter = 15, t_priority = 15,
     t_signal = 0, t_sigaction = replicate 32 \<lparr>sa_handler = 0, sa_mask = 0, sa_flags = 0, sa_restorer = 0\<rparr>,
     t_blocked = 0,
     t_exit_code = 0, t_start_code = 0, t_end_code = 0, t_end_data = 0, t_brk = 0, t_start_stack = 0,
     t_pid = 0, t_father = -1, t_pgrp = 0, t_session = 0, t_leader = 0,
     t_uid = 0, t_euid = 0, t_suid = 0, t_gid = 0, t_egid = 0, t_sgid = 0,
     t_alarm = 0, t_utime = 0, t_stime = 0, t_cutime = 0, t_cstime = 0, t_start_time = 0,
     t_used_math = 0,
     t_tty = -1, t_umask = 18, t_pwd = None, t_root = None, t_executable = None, t_close_on_exec = 0,
     t_filp = replicate 20 None,
     t_ldt = [\<lparr>desc_a = 0, desc_b = 0\<rparr>, \<lparr>desc_a = 0x9f, desc_b = 0xc0fa00\<rparr>,
              \<lparr>desc_a = 0x9f, desc_b = 0xc0f200\<rparr>],
     t_tss = \<lparr>tss_back_link = 0, tss_esp0 = 4096 + addr, tss_ss0 = 0x10, tss_esp1 = 0, tss_ss1 = 0,
       tss_esp2 = 0, tss_ss2 = 0, tss_cr3 = pg_dir, tss_eip = 0, tss_eflags = 0, tss_eax = 0, tss_ecx = 0,
       tss_edx = 0, tss_ebx = 0, tss_esp = 0, tss_ebp = 0, tss_esi = 0, tss_edi = 0, tss_es = 0x17,
       tss_cs = 0x17, tss_ss = 0x17, tss_ds = 0x17, tss_fs = 0x17, tss_gs = 0x17, tss_ldt = LDT_sel 0,
       tss_trace_bitmap = 0x80000000, tss_i387 = replicate 27 0\<rparr>\<rparr>"

definition sched_boot :: "u32 \<Rightarrow> u32 \<Rightarrow> sched_state" where
  "sched_boot addr pg_dir =
    \<lparr>klog = [], patience = 0, tmem = (\<lambda>_. INIT_TASK addr pg_dir), task = addr # replicate 63 0,
     current = addr, init_task = addr, jiffies = 0, startup_time = 0, last_pid = 0,
     last_task_used_math = 0, waitq = (\<lambda>_. 0)\<rparr>"

text \<open>
  \<open>printk\<close> is a call of the console that no routine of the kernel reads back: the state
  logs its format and its integer arguments.
\<close>

definition printk :: "string \<Rightarrow> u32 list \<Rightarrow> 'a sched_state_scheme \<Rightarrow> 'a sched_state_scheme" where
  "printk fmt args s = s\<lparr>klog := klog s @ [(fmt, args)]\<rparr>"

definition panic :: "string \<Rightarrow> 'a sched_state_scheme \<Rightarrow> ('a sched_state_scheme, 'b) outcome" where
  "panic str s = Halted (Panic str) (printk (''Kernel Panic: '' @ str) [] s)"

text \<open>Assignments through a task pointer.\<close>

definition tupd :: "u32 \<Rightarrow> (task_struct \<Rightarrow> task_struct) \<Rightarrow> 'a sched_state_scheme \<Rightarrow> 'a sched_state_scheme" where
  "tupd p f s = s\<lparr>tmem := (tmem s)(p := f (tmem s p))\<rparr>"

abbreviation cur :: "'a sched_state_scheme \<Rightarrow> task_struct" where
  "cur s \<equiv> tmem s (current s)"

definition CURRENT_TIME :: "'a sched_state_scheme \<Rightarrow> u32" where
  "CURRENT_TIME s = startup_time s + word_of_int (cdiv (sint (jiffies s)) (int HZ))"

section \<open>The scheduler\<close>

definition sig_bit :: "u32 \<Rightarrow> u32" where
  "sig_bit nr = push_bit (unat (nr - 1)) 1"

definition BLOCKABLE :: u32 where
  "BLOCKABLE = NOT (sig_bit SIGKILL OR sig_bit SIGSTOP)"

text \<open>The first pass of \<open>schedule\<close>, on one task: expire its alarm, let a signal wake it.\<close>

definition scan_task :: "u32 \<Rightarrow> task_struct \<Rightarrow> task_struct" where
  "scan_task now t =
    (let t1 = (if t_alarm t \<noteq> 0 \<and> sint (t_alarm t) < sint now
               then t\<lparr>t_signal := t_signal t OR sig_bit SIGALRM, t_alarm := 0\<rparr> else t)
     in if t_signal t1 AND (BLOCKABLE AND NOT (t_blocked t1)) \<noteq> 0
           \<and> t_state t1 = TASK_INTERRUPTIBLE
        then t1\<lparr>t_state := TASK_RUNNING\<rparr> else t1)"

text \<open>\<open>for (p = &LAST_TASK; p > &FIRST_TASK; --p) if (*p) ...\<close>, a loop both passes use.\<close>

definition for_tasks :: "(task_struct \<Rightarrow> task_struct) \<Rightarrow> 'a sched_state_scheme \<Rightarrow> 'a sched_state_scheme" where
  "for_tasks f s =
     fold (\<lambda>i s. if task s ! i = 0 then s else tupd (task s ! i) f s) (down 1 NR_TASKS) s"

definition signal_scan :: "'a sched_state_scheme \<Rightarrow> 'a sched_state_scheme" where
  "signal_scan s = for_tasks (scan_task (jiffies s)) s"

text \<open>The second pass: the runnable task with the largest counter, slot 0 excepted.\<close>

definition pick_step :: "'a sched_state_scheme \<Rightarrow> nat \<Rightarrow> u32 \<times> nat \<Rightarrow> u32 \<times> nat" where
  "pick_step s i cn =
     (let p = task s ! i in
      if p = 0 then cn
      else if t_state (tmem s p) = TASK_RUNNING \<and> sint (t_counter (tmem s p)) > sint (fst cn)
      then (t_counter (tmem s p), i) else cn)"

definition pick :: "'a sched_state_scheme \<Rightarrow> u32 \<times> nat" where
  "pick s = fold (pick_step s) (down 1 NR_TASKS) (-1, 0)"

definition recharge_task :: "task_struct \<Rightarrow> task_struct" where
  "recharge_task t = t\<lparr>t_counter := signed_drop_bit 1 (t_counter t) + t_priority t\<rparr>"

definition recharge :: "'a sched_state_scheme \<Rightarrow> 'a sched_state_scheme" where
  "recharge s = for_tasks recharge_task s"

text \<open>The loop around the second pass; \<open>None\<close> says that it never stops.\<close>

partial_function (option) sched_loop ::
  "'a sched_state_scheme \<Rightarrow> (nat \<times> 'a sched_state_scheme) option" where
  "sched_loop s =
     (let cn = pick s in
      if fst cn \<noteq> 0 then Some (snd cn, s) else sched_loop (recharge s))"

text \<open>
  \<open>switch_to(n)\<close> jumps to the task in slot \<open>n\<close>. From the switching task's point of view the
  other tasks and the interrupts then change the state, which the parameter \<open>env\<close>
  describes, until a task switches back to it: then \<open>current\<close> is this task again.
\<close>

definition switch_to :: "('a sched_state_scheme \<Rightarrow> 'a sched_state_scheme) \<Rightarrow> nat
    \<Rightarrow> 'a sched_state_scheme \<Rightarrow> 'a sched_state_scheme" where
  "switch_to env n s =
     (if task s ! n = current s then s
      else (env (s\<lparr>current := task s ! n\<rparr>))\<lparr>current := current s, patience := patience s\<rparr>)"

definition schedule :: "('a sched_state_scheme \<Rightarrow> 'a sched_state_scheme)
    \<Rightarrow> 'a sched_state_scheme \<Rightarrow> ('a sched_state_scheme, unit) outcome" where
  "schedule env s =
     (if patience s = 0 then Blocked s
      else let s1 = signal_scan (s\<lparr>patience := patience s - 1\<rparr>) in
        (case sched_loop s1 of
           None \<Rightarrow> Blocked s1
         | Some (next, s2) \<Rightarrow> Done () (switch_to env next s2)))"

section \<open>Sleeping and waking\<close>

text \<open>
  What both sleeping calls do when the task runs again: the head becomes the task \<open>tmp\<close> that
  was waiting before, which is woken in turn.
\<close>

definition requeue :: "wq \<Rightarrow> u32 \<Rightarrow> 'a sched_state_scheme \<Rightarrow> 'a sched_state_scheme" where
  "requeue q tmp s =
     (let s1 = s\<lparr>waitq := (waitq s)(q := tmp)\<rparr>
      in if tmp \<noteq> 0 then tupd tmp (\<lambda>t. t\<lparr>t_state := TASK_RUNNING\<rparr>) s1 else s1)"

text \<open>The argument \<open>p\<close> is a \<open>struct task_struct **\<close>: \<open>None\<close> is a null pointer.\<close>

definition sleep_on :: "('a sched_state_scheme \<Rightarrow> 'a sched_state_scheme) \<Rightarrow> wq option
    \<Rightarrow> 'a sched_state_scheme \<Rightarrow> ('a sched_state_scheme, unit) outcome" where
  "sleep_on env p s =
     (case p of
        None \<Rightarrow> Done () s
      | Some q \<Rightarrow>
          if current s = init_task s then panic ''task[0] trying to sleep'' s
          else
            let tmp = waitq s q;
                s1 = s\<lparr>waitq := (waitq s)(q := current s)\<rparr>;
                s2 = tupd (current s1) (\<lambda>t. t\<lparr>t_state := TASK_UNINTERRUPTIBLE\<rparr>) s1
            in kbind (schedule env s2) (\<lambda>_ s3. Done () (requeue q tmp s3)))"

definition wake_up :: "wq option \<Rightarrow> 'a sched_state_scheme \<Rightarrow> 'a sched_state_scheme" where
  "wake_up p s =
     (case p of
        None \<Rightarrow> s
      | Some q \<Rightarrow>
          if waitq s q = 0 then s
          else let s1 = tupd (waitq s q) (\<lambda>t. t\<lparr>t_state := TASK_RUNNING\<rparr>) s
               in s1\<lparr>waitq := (waitq s1)(q := 0)\<rparr>)"

text \<open>
  \<open>interruptible_sleep_on\<close>: the loop at label \<open>repeat\<close>, and the code after it. Every round
  calls \<open>schedule\<close>, which \<open>patience\<close> counts, so \<open>n\<close> rounds are enough when
  \<open>n\<close> is larger than \<open>patience\<close>.
\<close>

fun intr_sleep_loop :: "nat \<Rightarrow> ('a sched_state_scheme \<Rightarrow> 'a sched_state_scheme) \<Rightarrow> wq
    \<Rightarrow> 'a sched_state_scheme \<Rightarrow> ('a sched_state_scheme, unit) outcome" where
  "intr_sleep_loop 0 env q s = Blocked s"
| "intr_sleep_loop (Suc n) env q s =
     kbind (schedule env (tupd (current s) (\<lambda>t. t\<lparr>t_state := TASK_INTERRUPTIBLE\<rparr>) s)) (\<lambda>_ s1.
       if waitq s1 q \<noteq> 0 \<and> waitq s1 q \<noteq> current s1
       then intr_sleep_loop n env q (tupd (waitq s1 q) (\<lambda>t. t\<lparr>t_state := TASK_RUNNING\<rparr>) s1)
       else Done () s1)"

definition interruptible_sleep_on :: "('a sched_state_scheme \<Rightarrow> 'a sched_state_scheme) \<Rightarrow> wq option
    \<Rightarrow> 'a sched_state_scheme \<Rightarrow> ('a sched_state_scheme, unit) outcome" where
  "interruptible_sleep_on env p s =
     (case p of
        None \<Rightarrow> Done () s
      | Some q \<Rightarrow>
          if current s = init_task s then panic ''task[0] trying to sleep'' s
          else
            let tmp = waitq s q; s1 = s\<lparr>waitq := (waitq s)(q := current s)\<rparr>
            in kbind (intr_sleep_loop (Suc (patience s1)) env q s1) (\<lambda>_ s2.
                 Done () (requeue q tmp s2)))"

section \<open>Clock and alarm\<close>

definition sys_pause :: "('a sched_state_scheme \<Rightarrow> 'a sched_state_scheme)
    \<Rightarrow> 'a sched_state_scheme \<Rightarrow> ('a sched_state_scheme, u32) outcome" where
  "sys_pause env s =
     kbind (schedule env (tupd (current s) (\<lambda>t. t\<lparr>t_state := TASK_INTERRUPTIBLE\<rparr>) s))
       (\<lambda>_ s1. Done 0 s1)"

definition sys_alarm :: "u32 \<Rightarrow> 'a sched_state_scheme \<Rightarrow> u32 \<times> 'a sched_state_scheme" where
  "sys_alarm seconds s =
     (let old = t_alarm (cur s);
          old' = (if old \<noteq> 0 then word_of_int (cdiv (sint (old - jiffies s)) (int HZ)) else old)
      in (old', tupd (current s)
            (\<lambda>t. t\<lparr>t_alarm := (if sint seconds > 0 then jiffies s + of_nat HZ * seconds else 0)\<rparr>) s))"

definition sys_sleep :: "('a sched_state_scheme \<Rightarrow> 'a sched_state_scheme) \<Rightarrow> u32
    \<Rightarrow> 'a sched_state_scheme \<Rightarrow> ('a sched_state_scheme, u32) outcome" where
  "sys_sleep env seconds s =
     (let s1 = snd (sys_alarm seconds s);
          s2 = tupd (current s1) (\<lambda>t. t\<lparr>t_state := TASK_INTERRUPTIBLE\<rparr>) s1
      in kbind (schedule env s2) (\<lambda>_ s3. Done 0 s3))"

text \<open>The clock interrupt, with \<open>cpl\<close> the privilege level of the code it interrupted.\<close>

definition do_timer :: "('a sched_state_scheme \<Rightarrow> 'a sched_state_scheme) \<Rightarrow> u32
    \<Rightarrow> 'a sched_state_scheme \<Rightarrow> ('a sched_state_scheme, unit) outcome" where
  "do_timer env cpl s =
     (let s1 = (if cpl = 0 then tupd (current s) (\<lambda>t. t\<lparr>t_stime := t_stime t + 1\<rparr>) s
                else tupd (current s) (\<lambda>t. t\<lparr>t_utime := t_utime t + 1\<rparr>) s);
          s2 = tupd (current s1) (\<lambda>t. t\<lparr>t_counter := t_counter t - 1\<rparr>) s1
      in if sint (t_counter (cur s2)) > 0 then Done () s2
         else let s3 = tupd (current s2) (\<lambda>t. t\<lparr>t_counter := 0\<rparr>) s2
              in if cpl = 0 then Done () s3 else schedule env s3)"

section \<open>What the scheduler changes\<close>

text \<open>
  The passes of \<open>schedule\<close> write task structures only, and \<open>schedule\<close> gives up one unit
  of \<open>patience\<close>; the waiting loops of the drivers and of the file system end by that.
\<close>

lemma tupd_simps [simp]:
  "klog (tupd p f s) = klog s" "patience (tupd p f s) = patience s" "task (tupd p f s) = task s"
  "current (tupd p f s) = current s" "init_task (tupd p f s) = init_task s"
  "jiffies (tupd p f s) = jiffies s" "waitq (tupd p f s) = waitq s"
  "last_pid (tupd p f s) = last_pid s" "startup_time (tupd p f s) = startup_time s"
  "tmem (tupd p f s) = (tmem s)(p := f (tmem s p))"
  "sched_state.more (tupd p f s) = sched_state.more s"
  by (simp_all add: tupd_def)

definition only_tmem :: "'a sched_state_scheme \<Rightarrow> 'a sched_state_scheme \<Rightarrow> bool" where
  "only_tmem s t \<longleftrightarrow> t = s\<lparr>tmem := tmem t\<rparr>"

lemma only_tmem_refl [simp]: "only_tmem s s"
  by (simp add: only_tmem_def)

lemma only_tmem_tupd [simp]: "only_tmem s (tupd p f s)"
  by (simp add: only_tmem_def tupd_def)

lemma only_tmem_trans: "only_tmem s t \<Longrightarrow> only_tmem t u \<Longrightarrow> only_tmem s u"
proof -
  assume "only_tmem s t" "only_tmem t u"
  then have t: "t = s\<lparr>tmem := tmem t\<rparr>" and u: "u = t\<lparr>tmem := tmem u\<rparr>" by (simp_all add: only_tmem_def)
  from u have "u = s\<lparr>tmem := tmem t, tmem := tmem u\<rparr>" by (subst t [symmetric])
  then show ?thesis by (simp add: only_tmem_def)
qed

lemma only_tmem_same:
  assumes "only_tmem s t" and "\<And>m. g (s\<lparr>tmem := m\<rparr>) = g s"
  shows "g t = g s"
  using assms unfolding only_tmem_def by metis

lemma only_tmemD:
  assumes "only_tmem s t"
  shows "task t = task s" "current t = current s" "init_task t = init_task s" "jiffies t = jiffies s"
    "patience t = patience s" "waitq t = waitq s" "klog t = klog s" "last_pid t = last_pid s"
    "sched_state.more t = sched_state.more s"
  by (rule only_tmem_same [OF assms]; simp)+

lemma fold_only_tmem:
  "(\<And>i s. only_tmem s (f i s)) \<Longrightarrow> only_tmem s (fold f is s)"
proof (induction "is" arbitrary: s)
  case (Cons i "is")
  then show ?case by (simp add: only_tmem_trans [of s "f i s"])
qed simp

lemma for_tasks_only_tmem: "only_tmem s (for_tasks f s)"
  unfolding for_tasks_def by (rule fold_only_tmem) simp

lemma signal_scan_only_tmem: "only_tmem s (signal_scan s)"
  unfolding signal_scan_def by (rule for_tasks_only_tmem)

lemma recharge_only_tmem: "only_tmem s (recharge s)"
  unfolding recharge_def by (rule for_tasks_only_tmem)

lemma sched_loop_only_tmem:
  assumes "sched_loop s = Some r"
  shows "only_tmem s (snd r)"
proof (rule sched_loop.raw_induct [where P = "\<lambda>s r. only_tmem s (snd r)", OF _ assms])
  fix f :: "'a sched_state_scheme \<Rightarrow> (nat \<times> 'a sched_state_scheme) option" and s r
  assume IH: "\<And>s r. f s = Some r \<Longrightarrow> only_tmem s (snd r)"
    and eq: "(let cn = pick s in if fst cn \<noteq> 0 then Some (snd cn, s) else f (recharge s)) = Some r"
  show "only_tmem s (snd r)"
  proof (cases "fst (pick s) \<noteq> 0")
    case True
    with eq show ?thesis by (auto simp: Let_def)
  next
    case False
    with eq have "f (recharge s) = Some r" by (simp add: Let_def)
    from IH [OF this] recharge_only_tmem show ?thesis by (rule only_tmem_trans [rotated])
  qed
qed

lemma schedule_Done:
  assumes "schedule env s = Done u t"
  obtains n m where "t = switch_to env n (s\<lparr>patience := patience s - 1, tmem := m\<rparr>)" "0 < patience s"
proof -
  let ?s0 = "s\<lparr>patience := patience s - 1\<rparr>"
  from assms have p: "0 < patience s" by (auto simp: schedule_def split: if_splits)
  with assms obtain n s2 where l: "sched_loop (signal_scan ?s0) = Some (n, s2)" and t: "t = switch_to env n s2"
    by (auto simp: schedule_def Let_def split: option.splits)
  from sched_loop_only_tmem [OF l] signal_scan_only_tmem [of ?s0]
  have "only_tmem ?s0 s2" by (auto intro: only_tmem_trans)
  then have "s2 = s\<lparr>patience := patience s - 1, tmem := tmem s2\<rparr>" by (simp add: only_tmem_def)
  with t p that show ?thesis by metis
qed

lemma switch_to_patience [simp]: "patience (switch_to env n s) = patience s"
  by (simp add: switch_to_def)

lemma switch_to_current [simp]: "current (switch_to env n s) = current s"
  by (simp add: switch_to_def)

lemma schedule_patience: "schedule env s = Done u t \<Longrightarrow> patience t < patience s"
  by (auto elim!: schedule_Done)

lemma schedule_current: "schedule env s = Done u t \<Longrightarrow> current t = current s"
  by (auto elim!: schedule_Done)

lemma requeue_same [simp]:
  "patience (requeue q tmp s) = patience s" "current (requeue q tmp s) = current s"
  "task (requeue q tmp s) = task s" "init_task (requeue q tmp s) = init_task s"
  "waitq (requeue q tmp s) = (waitq s)(q := tmp)"
  by (simp_all add: requeue_def Let_def)

lemma sleep_on_patience:
  assumes "sleep_on env (Some q) s = Done u t"
  shows "patience t < patience s"
  using assms
  by (auto simp: sleep_on_def panic_def Let_def split: if_splits dest!: schedule_patience)

text \<open>
  \<open>while (locked) sleep_on(&q)\<close>: the waiting loop of \<open>wait_on_buffer\<close>, \<open>lock_buffer\<close>,
  \<open>wait_on_inode\<close>, \<open>lock_inode\<close>, \<open>wait_on_supper\<close> and \<open>lock_super\<close>.
\<close>

function wait_while :: "('a sched_state_scheme \<Rightarrow> 'a sched_state_scheme) \<Rightarrow> ('a sched_state_scheme \<Rightarrow> bool)
    \<Rightarrow> wq \<Rightarrow> 'a sched_state_scheme \<Rightarrow> ('a sched_state_scheme, unit) outcome" where
  "wait_while env locked q s =
     (if locked s then kbind (sleep_on env (Some q) s) (\<lambda>_ s1. wait_while env locked q s1)
      else Done () s)"
  by pat_completeness auto
termination
  by (relation "measure (\<lambda>(env, locked, q, s). patience s)") (auto dest: sleep_on_patience)

declare wait_while.simps [simp del]

section \<open>The choice of the scheduler\<close>

definition runnable :: "'a sched_state_scheme \<Rightarrow> nat \<Rightarrow> bool" where
  "runnable s i \<longleftrightarrow> task s ! i \<noteq> 0 \<and> t_state (tmem s (task s ! i)) = TASK_RUNNING"

definition time_left :: "'a sched_state_scheme \<Rightarrow> nat \<Rightarrow> int" where
  "time_left s i = sint (t_counter (tmem s (task s ! i)))"

lemma pick_step_alt:
  "pick_step s i cn =
     (if runnable s i \<and> time_left s i > sint (fst cn) then (t_counter (tmem s (task s ! i)), i) else cn)"
  by (auto simp: pick_step_def runnable_def time_left_def Let_def)

definition best_of :: "'a sched_state_scheme \<Rightarrow> nat set \<Rightarrow> u32 \<times> nat \<Rightarrow> bool" where
  "best_of s A cn \<longleftrightarrow>
     (\<forall>i \<in> A. runnable s i \<longrightarrow> time_left s i \<le> sint (fst cn)) \<and>
     (cn = (-1, 0) \<or>
      snd cn \<in> A \<and> runnable s (snd cn) \<and> time_left s (snd cn) = sint (fst cn) \<and> -1 < sint (fst cn) \<and>
      (\<forall>i \<in> A. runnable s i \<and> time_left s i = sint (fst cn) \<longrightarrow> i \<le> snd cn))"

lemma best_of_step:
  assumes "best_of s A cn" and "\<forall>j \<in> A. i < j"
  shows "best_of s (insert i A) (pick_step s i cn)"
proof (cases "runnable s i \<and> time_left s i > sint (fst cn)")
  case True
  moreover from assms(1) have "-1 \<le> sint (fst cn)" by (auto simp: best_of_def)
  ultimately show ?thesis using assms(1)
    by (fastforce simp: best_of_def pick_step_alt time_left_def)
next
  case False
  then have "pick_step s i cn = cn" by (auto simp: pick_step_alt)
  moreover from False assms have "best_of s (insert i A) cn"
    unfolding best_of_def by fastforce
  ultimately show ?thesis by simp
qed

lemma pick_best: "best_of s {1..<NR_TASKS} (pick s)"
proof -
  have "best_of s {1..<64} (fold (pick_step s) (rev [1..<64]) (-1, 0))"
  proof -
    have "best_of s {64 - n..<64} (fold (pick_step s) (rev [64 - n..<64]) (-1, 0))" if "n \<le> 64" for n
      using that
    proof (induction n)
      case 0
      then show ?case by (simp add: best_of_def)
    next
      case (Suc n)
      then have up: "[64 - Suc n..<64] = (64 - Suc n) # [64 - n..<64]"
        by (simp add: upt_conv_Cons Suc_diff_le [symmetric])
      from Suc have "{64 - Suc n..<64} = insert (64 - Suc n) {64 - n..<64}" by auto
      with Suc up show ?case by (auto intro!: best_of_step)
    qed
    from this [of 63] show ?thesis by simp
  qed
  then show ?thesis by (simp add: pick_def down_def)
qed

lemma sched_loop_stops: "sched_loop s = Some (n, t) \<Longrightarrow> fst (pick t) \<noteq> 0 \<and> n = snd (pick t)"
proof -
  assume a: "sched_loop s = Some (n, t)"
  have "fst (pick (snd r)) \<noteq> 0 \<and> fst r = snd (pick (snd r))" if "sched_loop s = Some r" for r
  proof (rule sched_loop.raw_induct [where P = "\<lambda>s r. fst (pick (snd r)) \<noteq> 0 \<and> fst r = snd (pick (snd r))", OF _ that])
    fix f :: "'a sched_state_scheme \<Rightarrow> (nat \<times> 'a sched_state_scheme) option" and s r
    assume "\<And>s r. f s = Some r \<Longrightarrow> fst (pick (snd r)) \<noteq> 0 \<and> fst r = snd (pick (snd r))"
      and "(let cn = pick s in if fst cn \<noteq> 0 then Some (snd cn, s) else f (recharge s)) = Some r"
    then show "fst (pick (snd r)) \<noteq> 0 \<and> fst r = snd (pick (snd r))"
      by (auto simp: Let_def split: if_splits)
  qed
  from this [OF a] show ?thesis by simp
qed

lemma sint_eq_0_word: "(sint (a :: u32) = 0) = (a = 0)"
  using signed_eq_0_iff by blast

lemma sched_loop_choice:
  assumes "sched_loop s = Some (n, t)"
  shows "n = 0 \<and> (\<forall>i \<in> {1..<NR_TASKS}. runnable t i \<longrightarrow> time_left t i < 0) \<or>
     n \<in> {1..<NR_TASKS} \<and> runnable t n \<and> 0 < time_left t n \<and>
     (\<forall>i \<in> {1..<NR_TASKS}. runnable t i \<longrightarrow> time_left t i < time_left t n \<or> time_left t i = time_left t n \<and> i \<le> n)"
proof -
  let ?c = "fst (pick t)"
  from sched_loop_stops [OF assms] have nz: "sint ?c \<noteq> 0" and n: "n = snd (pick t)"
    by (simp_all add: sint_eq_0_word)
  have b: "best_of t {1..<NR_TASKS} (pick t)" by (rule pick_best)
  show ?thesis
  proof (cases "pick t = (-1, 0)")
    case True
    with b n show ?thesis by (force simp: best_of_def)
  next
    case False
    with b nz n show ?thesis by (fastforce simp: best_of_def)
  qed
qed

section \<open>Passes over the task table\<close>

text \<open>The table as the kernel keeps it: 64 slots, slot 0 for \<open>init_task\<close>, no task in two slots.\<close>

definition task_table_wf :: "'a sched_state_scheme \<Rightarrow> bool" where
  "task_table_wf s \<longleftrightarrow> length (task s) = NR_TASKS \<and> task s ! 0 = init_task s \<and> init_task s \<noteq> 0 \<and>
     (\<forall>i < NR_TASKS. \<forall>j < NR_TASKS. i \<noteq> j \<longrightarrow> task s ! i \<noteq> 0 \<longrightarrow> task s ! i \<noteq> task s ! j)"

lemma fold_tupd_tmem:
  assumes "distinct is" and "\<And>i j. i \<in> set is \<Longrightarrow> j \<in> set is \<Longrightarrow> i \<noteq> j \<Longrightarrow> task s ! i \<noteq> 0 \<Longrightarrow> task s ! i \<noteq> task s ! j"
  shows "tmem (fold (\<lambda>i s. if task s ! i = 0 then s else tupd (task s ! i) f s) is s) p =
    (if p \<noteq> 0 \<and> (\<exists>i \<in> set is. task s ! i = p) then f (tmem s p) else tmem s p)"
  using assms
proof (induction "is" arbitrary: s)
  case Nil
  then show ?case by simp
next
  case (Cons i "is")
  let ?t = "if task s ! i = 0 then s else tupd (task s ! i) f s"
  have tt: "task ?t = task s" by simp
  have "tmem (fold (\<lambda>i s. if task s ! i = 0 then s else tupd (task s ! i) f s) is ?t) p =
    (if p \<noteq> 0 \<and> (\<exists>i \<in> set is. task ?t ! i = p) then f (tmem ?t p) else tmem ?t p)"
  proof (rule Cons.IH)
    show "distinct is" using Cons.prems(1) by simp
    show "task ?t ! i \<noteq> task ?t ! j"
      if "i \<in> set is" "j \<in> set is" "i \<noteq> j" "task ?t ! i \<noteq> 0" for i j
      using Cons.prems(2) [of i j] that unfolding tt by simp
  qed
  moreover have "task s ! i \<noteq> p" if "p \<noteq> 0" "j \<in> set is" "task s ! j = p" for j
    using Cons.prems(1) Cons.prems(2) [of j i] that by (cases "j = i") auto
  ultimately show ?case by auto
qed

lemma for_tasks_tmem:
  assumes "task_table_wf s"
  shows "tmem (for_tasks f s) p =
    (if p \<noteq> 0 \<and> (\<exists>i \<in> {1..<NR_TASKS}. task s ! i = p) then f (tmem s p) else tmem s p)"
  unfolding for_tasks_def using assms
  by (subst fold_tupd_tmem) (auto simp: task_table_wf_def)

lemma for_tasks_same [simp]:
  "task (for_tasks f s) = task s" "current (for_tasks f s) = current s"
  "init_task (for_tasks f s) = init_task s" "jiffies (for_tasks f s) = jiffies s"
  "patience (for_tasks f s) = patience s" "waitq (for_tasks f s) = waitq s"
  by (rule only_tmemD [OF for_tasks_only_tmem])+

lemma for_tasks_slot:
  assumes "task_table_wf s" "i \<in> {1..<NR_TASKS}" "task s ! i \<noteq> 0"
  shows "tmem (for_tasks f s) (task s ! i) = f (tmem s (task s ! i))"
  using assms by (auto simp: for_tasks_tmem)

lemma task_table_wf_frame [simp]:
  "task_table_wf (s\<lparr>tmem := m\<rparr>) = task_table_wf s"
  "task_table_wf (s\<lparr>patience := n\<rparr>) = task_table_wf s"
  "task_table_wf (s\<lparr>waitq := w\<rparr>) = task_table_wf s"
  "task_table_wf (tupd p f s) = task_table_wf s"
  "task_table_wf (for_tasks f s) = task_table_wf s"
  by (simp_all add: task_table_wf_def)

text \<open>What a task's fields must be for \<open>schedule\<close> to find a task in bounded time.\<close>

definition slices_sane :: "'a sched_state_scheme \<Rightarrow> bool" where
  "slices_sane s \<longleftrightarrow> (\<forall>i \<in> {1..<NR_TASKS}. task s ! i \<noteq> 0 \<longrightarrow>
     (let t = tmem s (task s ! i) in 0 \<le> sint (t_counter t) \<and> sint (t_counter t) < 2 ^ 30 \<and>
        1 \<le> sint (t_priority t) \<and> sint (t_priority t) < 2 ^ 30))"

lemma sint_recharge:
  assumes "0 \<le> sint (t_counter t)" "sint (t_counter t) < 2 ^ 30" "1 \<le> sint (t_priority t)" "sint (t_priority t) < 2 ^ 30"
  shows "sint (t_counter (recharge_task t)) = sint (t_counter t) div 2 + sint (t_priority t)"
proof -
  have "0 \<le> sint (t_counter t) div 2" "sint (t_counter t) div 2 \<le> 2 ^ 30"
    using assms by (auto simp: zdiv_mono1)
  then show ?thesis using assms by (simp add: recharge_task_def sint_in_range)
qed

lemma recharge_slices:
  assumes "task_table_wf s" "slices_sane s" "i \<in> {1..<NR_TASKS}" "task s ! i \<noteq> 0"
  shows "time_left (recharge s) i = time_left s i div 2 + sint (t_priority (tmem s (task s ! i)))"
  using assms by (simp add: time_left_def recharge_def for_tasks_slot slices_sane_def Let_def sint_recharge)

lemma recharge_runnable:
  assumes "task_table_wf s" "i \<in> {1..<NR_TASKS}"
  shows "runnable (recharge s) i = runnable s i"
  using assms by (auto simp: runnable_def recharge_def for_tasks_slot recharge_task_def)

lemma sched_loop_unfold:
  "sched_loop s = (if fst (pick s) \<noteq> 0 then Some (snd (pick s), s) else sched_loop (recharge s))"
  by (subst sched_loop.simps) (simp add: Let_def)

lemma pick_nonzero:
  assumes "i \<in> {1..<NR_TASKS}" "runnable s i" "0 < time_left s i"
  shows "fst (pick s) \<noteq> 0"
proof -
  from pick_best [of s] assms have "time_left s i \<le> sint (fst (pick s))" by (simp add: best_of_def)
  with assms(3) show ?thesis by auto
qed

lemma sched_loop_returns:
  assumes "task_table_wf s" "slices_sane s"
  shows "\<exists>n t. sched_loop s = Some (n, t) \<and> (t = s \<or> t = recharge s)"
proof (cases "fst (pick s) = 0")
  case False
  then show ?thesis by (subst sched_loop_unfold) auto
next
  case True
  then have "pick s \<noteq> (-1, 0)" by auto
  with pick_best [of s] True obtain i
    where i: "i \<in> {1..<NR_TASKS}" "runnable s i" "time_left s i = 0"
    by (auto simp: best_of_def)
  from i assms have "0 < time_left (recharge s) i"
    by (auto simp: recharge_slices runnable_def slices_sane_def Let_def)
  with i assms have "fst (pick (recharge s)) \<noteq> 0"
    by (intro pick_nonzero [of i]) (simp_all add: recharge_runnable)
  then have "sched_loop (recharge s) = Some (snd (pick (recharge s)), recharge s)"
    by (subst sched_loop_unfold) simp
  with True show ?thesis by (subst sched_loop_unfold) auto
qed

section \<open>Giving up the processor\<close>

lemma scan_task_sleeping:
  "t_state t \<noteq> TASK_INTERRUPTIBLE \<Longrightarrow> t_state (scan_task now t) = t_state t"
  by (simp add: scan_task_def Let_def)

lemma for_tasks_state:
  assumes "task_table_wf s" "\<And>t. t_state t = st \<Longrightarrow> t_state (f t) = st" "t_state (tmem s p) = st"
  shows "t_state (tmem (for_tasks f s) p) = st"
  using assms by (simp add: for_tasks_tmem)

lemma sched_loop_uninterruptible:
  assumes "sched_loop s = Some r" "task_table_wf s" "t_state (tmem s p) = TASK_UNINTERRUPTIBLE"
  shows "t_state (tmem (snd r) p) = TASK_UNINTERRUPTIBLE"
proof -
  have "task_table_wf s \<longrightarrow> t_state (tmem s p) = 2 \<longrightarrow> t_state (tmem (snd r) p) = 2"
  proof (rule sched_loop.raw_induct [where P = "\<lambda>s r. task_table_wf s \<longrightarrow> t_state (tmem s p) = 2 \<longrightarrow>
        t_state (tmem (snd r) p) = 2", OF _ assms(1)])
    fix f :: "'a sched_state_scheme \<Rightarrow> (nat \<times> 'a sched_state_scheme) option" and s r
    assume IH: "\<And>s r. f s = Some r \<Longrightarrow> task_table_wf s \<longrightarrow> t_state (tmem s p) = 2 \<longrightarrow> t_state (tmem (snd r) p) = 2"
      and eq: "(let cn = pick s in if fst cn \<noteq> 0 then Some (snd cn, s) else f (recharge s)) = Some r"
    have "t_state (tmem (recharge s) p) = 2" if "task_table_wf s" "t_state (tmem s p) = 2"
      unfolding recharge_def using that by (intro for_tasks_state) (auto simp: recharge_task_def)
    with eq IH [of "recharge s" r]
    show "task_table_wf s \<longrightarrow> t_state (tmem s p) = 2 \<longrightarrow> t_state (tmem (snd r) p) = 2"
      by (auto simp: Let_def recharge_def split: if_splits)
  qed
  with assms show ?thesis by simp
qed

text \<open>
  A task that has put itself to uninterruptible sleep is not the one its call of
  \<open>schedule\<close> chooses: the processor goes to another task, and the sleeper runs again only when
  some task switches back to it.
\<close>

lemma schedule_uninterruptible:
  assumes "schedule env s = Done u t" "task_table_wf s" "current s \<noteq> init_task s"
    "t_state (cur s) = TASK_UNINTERRUPTIBLE"
  obtains s1 where "current s1 \<noteq> current s" "t_state (tmem s1 (current s)) = TASK_UNINTERRUPTIBLE"
    "waitq s1 = waitq s" "t = (env s1)\<lparr>current := current s, patience := patience s - 1\<rparr>"
proof -
  let ?s0 = "s\<lparr>patience := patience s - 1\<rparr>" and ?c = "current s"
  from assms(1) obtain n s2 where l: "sched_loop (signal_scan ?s0) = Some (n, s2)"
    and t: "t = switch_to env n s2"
    by (auto simp: schedule_def Let_def split: option.splits if_splits)
  have "t_state (tmem (signal_scan ?s0) ?c) = 2"
    unfolding signal_scan_def using assms by (intro for_tasks_state) (auto simp: scan_task_sleeping)
  with l assms have st: "t_state (tmem s2 ?c) = 2"
    using sched_loop_uninterruptible [OF l, of ?c] by (simp add: signal_scan_def)
  from signal_scan_only_tmem sched_loop_only_tmem [OF l]
  have ot: "only_tmem ?s0 s2" by (auto intro: only_tmem_trans)
  have eqs: "task s2 = task s" "current s2 = ?c" "waitq s2 = waitq s" "patience s2 = patience s - 1"
    using only_tmemD [OF ot] by simp_all
  from sched_loop_choice [OF l] st eqs(1) assms(2,3) have ne: "task s2 ! n \<noteq> ?c"
    by (auto simp: runnable_def task_table_wf_def)
  show thesis
    by (rule that [of "s2\<lparr>current := task s2 ! n\<rparr>"]) (use ne st eqs t in \<open>simp_all add: switch_to_def\<close>)
qed

lemma sleep_on_Done:
  assumes "sleep_on env (Some q) s = Done u t" "task_table_wf s"
  obtains s1 where "current s1 \<noteq> current s" "t_state (tmem s1 (current s)) = TASK_UNINTERRUPTIBLE"
    "waitq s1 q = current s"
    "t = requeue q (waitq s q) ((env s1)\<lparr>current := current s, patience := patience s - 1\<rparr>)"
proof -
  let ?s2 = "tupd (current s) (\<lambda>t. t\<lparr>t_state := TASK_UNINTERRUPTIBLE\<rparr>) (s\<lparr>waitq := (waitq s)(q := current s)\<rparr>)"
  from assms(1) obtain t1 where ne: "current s \<noteq> init_task s" and sch: "schedule env ?s2 = Done () t1"
    and t: "t = requeue q (waitq s q) t1"
    by (auto simp: sleep_on_def panic_def Let_def split: if_splits)
  from schedule_uninterruptible [OF sch] assms(2) ne obtain s1 where
    "current s1 \<noteq> current s" "t_state (tmem s1 (current s)) = TASK_UNINTERRUPTIBLE"
    "waitq s1 = (waitq s)(q := current s)" "t1 = (env s1)\<lparr>current := current s, patience := patience s - 1\<rparr>"
    by auto
  with t that show thesis by auto
qed

section \<open>Invariants across a sleep\<close>

text \<open>
  While a task sleeps the rest of the kernel runs. The interface below is what a component
  owes for its invariant \<open>I\<close> to survive that: \<open>I\<close> says nothing of the fields the scheduler
  itself writes. Its client lemmas, proved once, carry \<open>I\<close> through \<open>schedule\<close>,
  \<open>sleep_on\<close>, \<open>wake_up\<close> and the waiting loops, for every \<open>env\<close> that keeps \<open>I\<close>.
\<close>

locale sched_frame =
  fixes I :: "'a sched_state_scheme \<Rightarrow> bool"
  assumes I_tmem: "I s \<Longrightarrow> I (s\<lparr>tmem := m\<rparr>)"
    and I_klog: "I s \<Longrightarrow> I (s\<lparr>klog := l\<rparr>)"
    and I_patience: "I s \<Longrightarrow> I (s\<lparr>patience := n\<rparr>)"
    and I_current: "I s \<Longrightarrow> I (s\<lparr>current := c\<rparr>)"
    and I_waitq: "I s \<Longrightarrow> I (s\<lparr>waitq := w\<rparr>)"
begin

lemma I_tupd: "I s \<Longrightarrow> I (tupd p f s)"
  by (simp add: tupd_def I_tmem)

lemma I_printk: "I s \<Longrightarrow> I (printk f a s)"
  by (simp add: printk_def I_klog)

lemma I_panic: "I s \<Longrightarrow> I (final (panic m s))"
  by (simp add: panic_def I_printk)

lemma I_wake_up: "I s \<Longrightarrow> I (wake_up p s)"
  by (simp add: wake_up_def Let_def I_tupd I_waitq split: option.split)

lemma I_requeue: "I s \<Longrightarrow> I (requeue q tmp s)"
  by (simp add: requeue_def Let_def I_tupd I_waitq)

lemma I_only_tmem: "only_tmem s t \<Longrightarrow> I s \<Longrightarrow> I t"
  unfolding only_tmem_def by (metis I_tmem)

lemma I_switch_to:
  assumes "\<And>s. I s \<Longrightarrow> I (env s)" "I s"
  shows "I (switch_to env n s)"
proof (cases "task s ! n = current s")
  case True
  then show ?thesis using assms(2) by (simp add: switch_to_def)
next
  case False
  from assms have "I (env (s\<lparr>current := task s ! n\<rparr>))" by (simp add: I_current)
  with False show ?thesis by (simp add: switch_to_def I_current I_patience)
qed

lemma I_schedule:
  assumes "\<And>s. I s \<Longrightarrow> I (env s)" "I s"
  shows "I (final (schedule env s))"
proof (cases "patience s = 0")
  case True
  then show ?thesis using assms by (simp add: schedule_def)
next
  case False
  have s1: "I (signal_scan (s\<lparr>patience := patience s - 1\<rparr>))"
    using assms(2) by (rule I_only_tmem [OF signal_scan_only_tmem, OF I_patience])
  show ?thesis
  proof (cases "sched_loop (signal_scan (s\<lparr>patience := patience s - 1\<rparr>))")
    case None
    with False s1 show ?thesis by (simp add: schedule_def Let_def)
  next
    case (Some r)
    have "I (snd r)" by (rule I_only_tmem [OF sched_loop_only_tmem [OF Some] s1])
    with False Some assms(1) show ?thesis
      by (cases r) (simp add: schedule_def Let_def I_switch_to)
  qed
qed

lemma I_sleep_on:
  assumes "\<And>s. I s \<Longrightarrow> I (env s)" "I s"
  shows "I (final (sleep_on env p s))"
proof (cases p)
  case (Some q)
  let ?s2 = "tupd (current s) (\<lambda>t. t\<lparr>t_state := TASK_UNINTERRUPTIBLE\<rparr>) (s\<lparr>waitq := (waitq s)(q := current s)\<rparr>)"
  have "I (final (schedule env ?s2))"
    by (rule I_schedule) (use assms in \<open>simp_all add: I_tupd I_waitq\<close>)
  then have "I (final (kbind (schedule env ?s2) (\<lambda>_ s3. Done () (requeue q (waitq s q) s3))))"
    by (rule final_kbindI) (use \<open>I (final (schedule env ?s2))\<close> in \<open>simp add: I_requeue\<close>)
  with Some assms(2) show ?thesis by (simp add: sleep_on_def I_panic Let_def)
qed (use assms in \<open>simp add: sleep_on_def\<close>)

lemma I_wait_while:
  "(\<And>s. I s \<Longrightarrow> I (env s)) \<Longrightarrow> I s \<Longrightarrow> I (final (wait_while env locked q s))"
proof (induction env locked q s rule: wait_while.induct)
  case (1 env locked q s)
  show ?case
  proof (cases "locked s")
    case True
    have "I (final (sleep_on env (Some q) s))" using 1(2,3) by (rule I_sleep_on)
    then have "I (final (kbind (sleep_on env (Some q) s) (\<lambda>_ s1. wait_while env locked q s1)))"
      by (rule final_kbindI) (use 1 True \<open>I (final (sleep_on env (Some q) s))\<close> in simp)
    with True show ?thesis by (subst wait_while.simps) simp
  qed (simp add: wait_while.simps 1(3))
qed

lemma I_intr_sleep_loop:
  assumes "\<And>s. I s \<Longrightarrow> I (env s)"
  shows "I s \<Longrightarrow> I (final (intr_sleep_loop n env q s))"
proof (induction n arbitrary: s)
  case (Suc n)
  let ?m = "schedule env (tupd (current s) (\<lambda>t. t\<lparr>t_state := TASK_INTERRUPTIBLE\<rparr>) s)"
  have f: "I (final ?m)" by (rule I_schedule [OF assms]) (simp_all add: I_tupd Suc.prems)
  show ?case unfolding intr_sleep_loop.simps
  proof (rule final_kbindI [where P = I, OF f])
    fix x s1 assume "?m = Done x s1"
    with f have "I s1" by simp
    then show "I (final (if waitq s1 q \<noteq> 0 \<and> waitq s1 q \<noteq> current s1
       then intr_sleep_loop n env q (tupd (waitq s1 q) (\<lambda>t. t\<lparr>t_state := TASK_RUNNING\<rparr>) s1)
       else Done () s1))"
      using Suc.IH [OF I_tupd] by simp
  qed
qed simp

lemma I_interruptible_sleep_on:
  assumes "\<And>s. I s \<Longrightarrow> I (env s)" "I s"
  shows "I (final (interruptible_sleep_on env p s))"
proof (cases p)
  case (Some q)
  let ?m = "intr_sleep_loop (Suc (patience s)) env q (s\<lparr>waitq := (waitq s)(q := current s)\<rparr>)"
  have f: "I (final ?m)" by (rule I_intr_sleep_loop [OF assms(1) I_waitq [OF assms(2)]])
  then have "I (final (kbind ?m (\<lambda>_ s2. Done () (requeue q (waitq s q) s2))))"
    by (rule final_kbindI) (use f in \<open>simp add: I_requeue\<close>)
  with Some assms(2) show ?thesis by (simp add: interruptible_sleep_on_def I_panic Let_def del: intr_sleep_loop.simps)
qed (use assms in \<open>simp add: interruptible_sleep_on_def\<close>)

end

interpretation table: sched_frame task_table_wf
  by unfold_locales (simp_all add: task_table_wf_def)

lemma wait_while_unlocked: "if_done (wait_while env locked q s) (\<lambda>_ t. \<not> locked t)"
proof (induction env locked q s rule: wait_while.induct)
  case (1 env locked q s)
  show ?case
  proof (cases "locked s")
    case True
    have "if_done (sleep_on env (Some q) s) (\<lambda>_ s1. if_done (wait_while env locked q s1) (\<lambda>_ t. \<not> locked t))"
      by (rule if_doneI) (rule 1 [OF True])
    with True show ?thesis by (subst wait_while.simps) (simp add: wp)
  qed (simp add: wait_while.simps)
qed

lemma wait_while_free [simp]: "\<not> locked s \<Longrightarrow> wait_while env locked q s = Done () s"
  by (simp add: wait_while.simps)

section \<open>Alarms\<close>

lemma sys_alarm_sets:
  assumes "0 < sint seconds" "0 \<le> sint (jiffies s)" "sint (jiffies s) + 100 * sint seconds < 2 ^ 31"
  shows "sint (t_alarm (cur (snd (sys_alarm seconds s)))) = sint (jiffies s) + 100 * sint seconds"
proof -
  have "sint (100 * seconds) = 100 * sint seconds"
    using assms by (subst sint_times) simp_all
  then show ?thesis using assms by (simp add: sys_alarm_def Let_def tupd_def sint_plus)
qed

lemma scan_task_alarm:
  assumes "t_alarm t \<noteq> 0"
  shows "t_alarm (scan_task now t) = (if sint (t_alarm t) < sint now then 0 else t_alarm t)"
    and "sint (t_alarm t) < sint now \<Longrightarrow> t_signal (scan_task now t) = t_signal t OR sig_bit SIGALRM"
    and "\<not> sint (t_alarm t) < sint now \<Longrightarrow> t_signal (scan_task now t) = t_signal t"
  using assms by (simp_all add: scan_task_def Let_def)

section \<open>Properties\<close>

lemma sched_boot_wf: "addr \<noteq> 0 \<Longrightarrow> task_table_wf (sched_boot addr pg)"
  by (auto simp: task_table_wf_def sched_boot_def nth_Cons split: nat.splits)

lemma sched_boot_sane: "slices_sane (sched_boot addr pg)"
  by (auto simp: slices_sane_def sched_boot_def INIT_TASK_def nth_Cons split: nat.splits)

text \<open>The boot state with a second task in slot 1, at a page of main memory, running.\<close>

definition two_tasks :: sched_state where
  "two_tasks = (sched_boot 0x1000 0)\<lparr>task := (task (sched_boot 0x1000 0))[1 := 0xfff000], patience := 1\<rparr>"

lemma two_tasks_wf: "task_table_wf two_tasks"
  by (auto simp: two_tasks_def task_table_wf_def sched_boot_def nth_Cons nth_list_update split: nat.splits)

lemma two_tasks_sane: "slices_sane two_tasks"
  by (auto simp: two_tasks_def slices_sane_def sched_boot_def nth_Cons nth_list_update INIT_TASK_def
      split: nat.splits)

lemma signal_scan_sane:
  assumes "task_table_wf s" "slices_sane s"
  shows "slices_sane (signal_scan s)"
  using assms
  by (auto simp: slices_sane_def signal_scan_def for_tasks_slot scan_task_def Let_def)

text \<open>C2: whenever the loop of schedule stops, the slot it hands to switch_to is 0 and no task of
  slots 1 to 63 is runnable with a counter of 0 or more, or it is a runnable task with time left
  whose counter no runnable task exceeds, the highest slot among equals.\<close>

theorem schedule_choice:
  assumes "sched_loop s = Some (n, t)"
  shows "n = 0 \<and> (\<forall>i \<in> {1..<NR_TASKS}. runnable t i \<longrightarrow> time_left t i < 0) \<or>
     n \<in> {1..<NR_TASKS} \<and> runnable t n \<and> 0 < time_left t n \<and>
     (\<forall>i \<in> {1..<NR_TASKS}. runnable t i \<longrightarrow>
        time_left t i < time_left t n \<or> time_left t i = time_left t n \<and> i \<le> n)"
  using assms by (rule sched_loop_choice)

theorem schedule_choice_witness:
  "\<exists>n t. sched_loop two_tasks = Some (n, t) \<and> runnable t n \<and> 0 < time_left t n"
proof -
  have run: "runnable two_tasks 1" and pos: "0 < time_left two_tasks 1"
    by (simp_all add: runnable_def time_left_def two_tasks_def sched_boot_def INIT_TASK_def)
  then have "fst (pick two_tasks) \<noteq> 0" by (intro pick_nonzero [of 1]) simp_all
  then have l: "sched_loop two_tasks = Some (snd (pick two_tasks), two_tasks)"
    by (subst sched_loop_unfold) simp
  have "(1::nat) \<in> {1..<NR_TASKS}" by simp
  with schedule_choice [OF l] l run pos show ?thesis by fastforce
qed

text \<open>C3: the loop of schedule stops after at most one recharging round, when no task sits in two slots and every task
  above slot 0 has a priority of at least 1, a counter that is not negative, and both below 2^30.\<close>

theorem schedule_terminates:
  assumes "task_table_wf s" "slices_sane s"
  shows "\<exists>n t. sched_loop s = Some (n, t) \<and> (t = s \<or> t = recharge s)"
  using assms by (rule sched_loop_returns)

theorem schedule_terminates_witness:
  "\<exists>n t. sched_loop two_tasks = Some (n, t) \<and> (t = two_tasks \<or> t = recharge two_tasks)"
  by (rule schedule_terminates [OF two_tasks_wf two_tasks_sane])

lemma schedule_returns:
  assumes "task_table_wf s" "slices_sane s" "0 < patience s"
  shows "\<exists>t. schedule env s = Done () t"
proof -
  have "slices_sane (s\<lparr>patience := patience s - 1\<rparr>)" using assms(2) by (simp add: slices_sane_def)
  then have "slices_sane (signal_scan (s\<lparr>patience := patience s - 1\<rparr>))"
    using assms(1) by (intro signal_scan_sane) simp_all
  moreover have "task_table_wf (signal_scan (s\<lparr>patience := patience s - 1\<rparr>))"
    using assms(1) by (simp add: signal_scan_def)
  ultimately obtain n t where "sched_loop (signal_scan (s\<lparr>patience := patience s - 1\<rparr>)) = Some (n, t)"
    using sched_loop_returns by blast
  with assms(3) show ?thesis by (simp add: schedule_def Let_def)
qed

lemma slices_sane_sleep [simp]:
  "slices_sane (s\<lparr>waitq := w\<rparr>) = slices_sane s"
  "slices_sane s \<Longrightarrow> slices_sane (tupd p (\<lambda>t. t\<lparr>t_state := x\<rparr>) s)"
  by (auto simp: slices_sane_def Let_def)

lemma sleep_on_returns:
  assumes "task_table_wf s" "slices_sane s" "0 < patience s" "current s \<noteq> init_task s"
  shows "\<exists>t. sleep_on env (Some q) s = Done () t"
proof -
  let ?s2 = "tupd (current s) (\<lambda>t. t\<lparr>t_state := TASK_UNINTERRUPTIBLE\<rparr>) (s\<lparr>waitq := (waitq s)(q := current s)\<rparr>)"
  have "\<exists>t. schedule env ?s2 = Done () t"
    by (rule schedule_returns) (use assms in simp_all)
  with assms(4) show ?thesis by (auto simp: sleep_on_def Let_def)
qed

text \<open>Sleep_on gives up the processor: its call of schedule hands it to another task, with the
  sleeper uninterruptible and at the head of the queue. When a task has switched back, the task that
  headed the queue before heads it again and has been made runnable.\<close>

theorem sleep_on_gives_up_cpu:
  assumes "sleep_on env (Some q) s = Done u t" "task_table_wf s"
  shows "\<exists>s1. current s1 \<noteq> current s \<and> t_state (tmem s1 (current s)) = TASK_UNINTERRUPTIBLE \<and>
     waitq s1 q = current s \<and>
     t = requeue q (waitq s q) ((env s1)\<lparr>current := current s, patience := patience s - 1\<rparr>) \<and>
     waitq t q = waitq s q \<and>
     (waitq s q \<noteq> 0 \<longrightarrow> t_state (tmem t (waitq s q)) = TASK_RUNNING)"
proof -
  obtain s1 where s1: "current s1 \<noteq> current s" "t_state (tmem s1 (current s)) = TASK_UNINTERRUPTIBLE"
    "waitq s1 q = current s"
    "t = requeue q (waitq s q) ((env s1)\<lparr>current := current s, patience := patience s - 1\<rparr>)"
    using sleep_on_Done [OF assms] by blast
  moreover from s1(4) have "waitq t q = waitq s q" by simp
  moreover from s1(4) have "waitq s q \<noteq> 0 \<longrightarrow> t_state (tmem t (waitq s q)) = TASK_RUNNING"
    by (simp add: requeue_def Let_def)
  ultimately show ?thesis by blast
qed

theorem sleep_on_gives_up_cpu_witness:
  "\<exists>t (s1 :: sched_state). sleep_on (\<lambda>s. s) (Some Buffer_wait) (two_tasks\<lparr>current := 0xfff000\<rparr>) = Done () t \<and>
     current s1 \<noteq> 0xfff000 \<and> waitq t Buffer_wait = 0"
proof -
  let ?s = "two_tasks\<lparr>current := 0xfff000\<rparr>"
  have wf: "task_table_wf ?s" using two_tasks_wf by (simp add: task_table_wf_def)
  have "slices_sane ?s" using two_tasks_sane by (simp add: slices_sane_def)
  then obtain t where t: "sleep_on (\<lambda>s. s) (Some Buffer_wait) ?s = Done () t"
    using sleep_on_returns [OF wf, of "\<lambda>s. s" Buffer_wait]
    by (auto simp: two_tasks_def sched_boot_def)
  have q: "waitq ?s Buffer_wait = 0" "current ?s = 0xfff000" by (simp_all add: two_tasks_def sched_boot_def)
  from sleep_on_gives_up_cpu [OF t wf] obtain s1 :: sched_state
    where s1: "current s1 \<noteq> current ?s" "waitq t Buffer_wait = waitq ?s Buffer_wait"
    by metis
  show ?thesis
    by (intro exI [of _ t] exI [of _ s1] conjI) (use t q s1 in simp_all)
qed

lemma bit_sig_bit: "1 \<le> nr \<Longrightarrow> nr \<le> 32 \<Longrightarrow> bit (sig_bit nr) n \<longleftrightarrow> n = unat (nr - 1)"
proof -
  assume "1 \<le> nr" "nr \<le> 32"
  then have "unat (nr - 1) < 32" by (simp add: unat_sub word_le_nat_alt)
  then show ?thesis unfolding sig_bit_def by (simp only: bit_push_bit_iff bit_1_iff) auto
qed

lemma bit_BLOCKABLE: "bit BLOCKABLE n \<longleftrightarrow> n < 32 \<and> n \<noteq> 8 \<and> n \<noteq> 18"
proof -
  have "bit BLOCKABLE n \<longleftrightarrow> n < 32 \<and> \<not> bit (sig_bit SIGKILL) n \<and> \<not> bit (sig_bit SIGSTOP) n"
    unfolding BLOCKABLE_def by (simp only: bit_not_iff bit_or_iff possible_bit_word) simp
  then show ?thesis by (simp add: bit_sig_bit)
qed

lemma word_nonzero_iff: "(w :: 'w::len word) \<noteq> 0 \<longleftrightarrow> (\<exists>n. bit w n)"
proof -
  have "w = 0 \<longleftrightarrow> (\<forall>n. \<not> bit w n)"
    by (auto intro: bit_word_eqI)
  then show ?thesis by blast
qed

lemma wakes_iff:
  "x AND (BLOCKABLE AND NOT b) \<noteq> 0 \<longleftrightarrow> (\<exists>n < 32. bit x n \<and> n \<noteq> 8 \<and> n \<noteq> 18 \<and> \<not> bit b n)"
proof -
  have "x AND (BLOCKABLE AND NOT b) \<noteq> 0 \<longleftrightarrow> (\<exists>n. bit (x AND (BLOCKABLE AND NOT b)) n)"
    by (rule word_nonzero_iff)
  also have "\<dots> \<longleftrightarrow> (\<exists>n < 32. bit x n \<and> n \<noteq> 8 \<and> n \<noteq> 18 \<and> \<not> bit b n)"
    by (simp only: bit_and_iff bit_not_iff bit_BLOCKABLE possible_bit_word) auto
  finally show ?thesis .
qed

text \<open>C37: the signal pass of schedule, on the tasks in slots 1 to 63: an alarm that the clock has passed becomes a
  SIGALRM and is cleared, and a task wakes exactly if it sleeps interruptibly and has a pending signal (this
  SIGALRM included) that it does not block and that is neither SIGKILL (bit 8) nor SIGSTOP (bit 18): the
  comment on lines 96 and 97 says that these two cannot be blocked, the test that they are never counted.
  The initial task in slot 0, every other task structure and the rest of the state stay as they are.\<close>

theorem signal_scan_wakes:
  assumes "task_table_wf s"
  shows "(\<forall>i \<in> {1..<NR_TASKS}. task s ! i \<noteq> 0 \<longrightarrow> tmem (signal_scan s) (task s ! i) =
      (let t = tmem s (task s ! i);
           due = (t_alarm t \<noteq> 0 \<and> sint (t_alarm t) < sint (jiffies s));
           pending = (if due then t_signal t OR sig_bit SIGALRM else t_signal t);
           wakes = (t_state t = TASK_INTERRUPTIBLE \<and>
             (\<exists>n < 32. bit pending n \<and> n \<noteq> 8 \<and> n \<noteq> 18 \<and> \<not> bit (t_blocked t) n))
       in t\<lparr>t_state := if wakes then TASK_RUNNING else t_state t, t_signal := pending,
            t_alarm := if due then 0 else t_alarm t\<rparr>)) \<and>
    tmem (signal_scan s) (task s ! 0) = tmem s (task s ! 0) \<and>
    (\<forall>p. p \<notin> (!) (task s) ` {1..<NR_TASKS} \<longrightarrow> tmem (signal_scan s) p = tmem s p) \<and>
    signal_scan s = s\<lparr>tmem := tmem (signal_scan s)\<rparr>"
proof (intro conjI ballI impI allI)
  fix i assume i: "i \<in> {1..<NR_TASKS}" "task s ! i \<noteq> 0"
  obtain t where t: "tmem s (task s ! i) = t" by simp
  have "tmem (signal_scan s) (task s ! i) = scan_task (jiffies s) t"
    unfolding signal_scan_def for_tasks_slot [OF assms i] t ..
  then show "tmem (signal_scan s) (task s ! i) =
      (let t = tmem s (task s ! i);
           due = (t_alarm t \<noteq> 0 \<and> sint (t_alarm t) < sint (jiffies s));
           pending = (if due then t_signal t OR sig_bit SIGALRM else t_signal t);
           wakes = (t_state t = TASK_INTERRUPTIBLE \<and>
             (\<exists>n < 32. bit pending n \<and> n \<noteq> 8 \<and> n \<noteq> 18 \<and> \<not> bit (t_blocked t) n))
       in t\<lparr>t_state := if wakes then TASK_RUNNING else t_state t, t_signal := pending,
            t_alarm := if due then 0 else t_alarm t\<rparr>)"
    unfolding t Let_def by (simp add: scan_task_def wakes_iff Let_def)
next
  have "task s ! i \<noteq> task s ! 0" if "i \<in> {1..<NR_TASKS}" "task s ! i \<noteq> 0" for i
  proof -
    have "i < 64" "i \<noteq> 0" using that(1) by simp_all
    with assms that(2) show ?thesis unfolding task_table_wf_def by (metis zero_less_numeral)
  qed
  then have "\<not> (task s ! 0 \<noteq> 0 \<and> (\<exists>i \<in> {1..<NR_TASKS}. task s ! i = task s ! 0))" by metis
  then show "tmem (signal_scan s) (task s ! 0) = tmem s (task s ! 0)"
    unfolding signal_scan_def for_tasks_tmem [OF assms] by (rule if_not_P)
next
  fix p assume "p \<notin> (!) (task s) ` {1..<NR_TASKS}"
  then show "tmem (signal_scan s) p = tmem s p" by (auto simp: signal_scan_def for_tasks_tmem [OF assms])
next
  show "signal_scan s = s\<lparr>tmem := tmem (signal_scan s)\<rparr>" using signal_scan_only_tmem [of s] by (simp add: only_tmem_def)
qed
theorem signal_scan_wakes_witness:
  "t_state (tmem (signal_scan (tupd 0xfff000 (\<lambda>t. t\<lparr>t_state := TASK_INTERRUPTIBLE, t_signal := sig_bit SIGCHLD\<rparr>)
     two_tasks)) 0xfff000) = TASK_RUNNING"
proof -
  let ?s = "tupd 0xfff000 (\<lambda>t. t\<lparr>t_state := TASK_INTERRUPTIBLE, t_signal := sig_bit SIGCHLD\<rparr>) two_tasks"
  have wf: "task_table_wf ?s" using two_tasks_wf by simp
  have t: "task ?s ! 1 = 0xfff000" by (simp add: two_tasks_def sched_boot_def)
  have m: "tmem ?s 0xfff000 = (INIT_TASK 0x1000 0)\<lparr>t_state := TASK_INTERRUPTIBLE, t_signal := sig_bit SIGCHLD\<rparr>"
    by (simp add: two_tasks_def sched_boot_def)
  have b: "\<exists>n < 32. bit (sig_bit SIGCHLD) n \<and> n \<noteq> 8 \<and> n \<noteq> 18 \<and> \<not> bit (0 :: u32) n"
    by (intro exI [of _ 16]) (simp add: bit_sig_bit)
  from bspec [OF conjunct1 [OF signal_scan_wakes [OF wf]], of 1] show ?thesis
    unfolding t m Let_def using b by (simp add: INIT_TASK_def)
qed

text \<open>An alarm set for n seconds at clock j fires in the first pass of schedule that finds the
  clock past j + 100 n: that pass raises SIGALRM in the task and clears the alarm, and a pass
  that finds the clock at or before it leaves signals and alarm as they are.\<close>

theorem alarm_fires:
  assumes "task_table_wf s" "i \<in> {1..<NR_TASKS}" "current s = task s ! i" "current s \<noteq> 0"
    and "0 < sint seconds" "0 \<le> sint (jiffies s)" "sint (jiffies s) + 100 * sint seconds < 2 ^ 31"
    and "t = tmem (signal_scan ((snd (sys_alarm seconds s))\<lparr>jiffies := now\<rparr>)) (current s)"
  shows "if sint now \<le> sint (jiffies s) + 100 * sint seconds
    then sint (t_alarm t) = sint (jiffies s) + 100 * sint seconds \<and> t_signal t = t_signal (cur s)
    else t_alarm t = 0 \<and> t_signal t = t_signal (cur s) OR sig_bit SIGALRM"
proof -
  let ?s1 = "snd (sys_alarm seconds s)" and ?due = "sint (jiffies s) + 100 * sint seconds"
  let ?a = "cur ?s1"
  have same: "current ?s1 = current s" "task ?s1 = task s" "task_table_wf (?s1\<lparr>jiffies := now\<rparr>)"
    using assms(1) by (simp_all add: sys_alarm_def Let_def task_table_wf_def)
  have due: "sint (t_alarm ?a) = ?due" by (rule sys_alarm_sets [OF assms(5-7)])
  with assms have nz: "t_alarm ?a \<noteq> 0" by auto
  have "t = scan_task now ?a"
    unfolding assms(8) signal_scan_def
    using for_tasks_slot [OF same(3) assms(2), of "scan_task now"] assms(3,4) same by simp
  moreover have "t_signal ?a = t_signal (cur s)" by (simp add: sys_alarm_def Let_def)
  ultimately show ?thesis using due scan_task_alarm [OF nz, of now] by auto
qed

theorem alarm_fires_witness:
  "t_signal (tmem (signal_scan ((snd (sys_alarm 2 (two_tasks\<lparr>current := 0xfff000\<rparr>)))\<lparr>jiffies := 201\<rparr>)) 0xfff000)
     = sig_bit SIGALRM"
proof -
  let ?s = "two_tasks\<lparr>current := 0xfff000\<rparr>"
  have wf: "task_table_wf ?s" using two_tasks_wf by (simp add: task_table_wf_def)
  have "current ?s = task ?s ! 1" "current ?s \<noteq> 0" "jiffies ?s = 0" "t_signal (cur ?s) = 0"
    by (simp_all add: two_tasks_def sched_boot_def INIT_TASK_def)
  then show ?thesis using alarm_fires [OF wf, of 1 2 _ 201] by simp
qed

end
