(* ===== verification/Memory.thy ===== *)
theory Memory
  imports Sched
begin

text \<open>
  Physical memory and paging: \<^verbatim>\<open>mm/memory.c\<close> and the page-table walk of
  \<^verbatim>\<open>mm/mm_test.c\<close>. The frames are counted in \<open>mem_map\<close>; page directory and page
  tables are words of the physical memory \<open>pmem\<close>, the directory at address 0.

  \<open>pmem a\<close> is the \<open>unsigned long\<close> at the address \<open>a\<close>, a multiple of 4. The kernel
  reaches physical memory through the identity mapping that \<^verbatim>\<open>boot/head.s\<close> sets up, so a
  pointer and the address are the same number. Reloading \<open>cr3\<close> (\<open>invalidate\<close>) changes
  nothing that the model holds.
\<close>

section \<open>State\<close>

record mm_state = sched_state +
  pmem :: "u32 \<Rightarrow> u32"
  mem_map :: "u8 list"
  HIGH_MEMORY :: u32

abbreviation (input) LOW_MEM :: u32 where "LOW_MEM \<equiv> 0x100000"
abbreviation (input) PAGING_PAGES :: nat where "PAGING_PAGES \<equiv> 3840"
abbreviation (input) USED :: u8 where "USED \<equiv> 100"

definition MAP_NR :: "u32 \<Rightarrow> nat" where
  "MAP_NR addr = unat (drop_bit 12 (addr - LOW_MEM))"

definition store :: "u32 \<Rightarrow> u32 \<Rightarrow> 'a mm_state_scheme \<Rightarrow> 'a mm_state_scheme" where
  "store a v s = s\<lparr>pmem := (pmem s)(a := v)\<rparr>"

definition set_mem_map :: "nat \<Rightarrow> u8 \<Rightarrow> 'a mm_state_scheme \<Rightarrow> 'a mm_state_scheme" where
  "set_mem_map n v s = s\<lparr>mem_map := (mem_map s)[n := v]\<rparr>"

text \<open>\<open>mem_map[n]\<close>: an index past the array is undefined.\<close>

definition mem_map_at :: "nat \<Rightarrow> 'a mm_state_scheme \<Rightarrow> ('a mm_state_scheme, u8) outcome" where
  "mem_map_at n s =
     (if n < length (mem_map s) then Done (mem_map s ! n) s else Halted (Undef ''mem_map'') s)"

definition oom :: "'a mm_state_scheme \<Rightarrow> ('a mm_state_scheme, 'b) outcome" where
  "oom s = panic (''Out Of Memory!! QWQ'' @ [CHR 0x0A]) s"

section \<open>Frames\<close>

text \<open>\<open>mem_init\<close>: its second loop clears \<open>n\<close> bytes from index \<open>i\<close> on.\<close>

primrec clear_map :: "nat \<Rightarrow> nat \<Rightarrow> 'a mm_state_scheme \<Rightarrow> ('a mm_state_scheme, unit) outcome" where
  "clear_map 0 i s = Done () s"
| "clear_map (Suc n) i s =
     kbind (mem_map_at i s) (\<lambda>_ s. clear_map n (Suc i) (set_mem_map i 0 s))"

definition mem_init :: "u32 \<Rightarrow> u32 \<Rightarrow> 'a mm_state_scheme \<Rightarrow> ('a mm_state_scheme, unit) outcome" where
  "mem_init start_mem end_mem s =
     clear_map (unat (drop_bit 12 (end_mem - start_mem))) (MAP_NR start_mem)
       (s\<lparr>HIGH_MEMORY := end_mem, mem_map := replicate PAGING_PAGES USED\<rparr>)"

text \<open>\<open>repne scasb\<close> downwards over the first \<open>n\<close> bytes, for a byte 0.\<close>

primrec scan_free :: "u8 list \<Rightarrow> nat \<Rightarrow> nat option" where
  "scan_free m 0 = None"
| "scan_free m (Suc k) = (if m ! k = 0 then Some k else scan_free m k)"

definition frame :: "nat \<Rightarrow> u32" where
  "frame k = push_bit 12 (of_nat k) + LOW_MEM"

text \<open>\<open>rep stosl\<close> and \<open>rep movsl\<close> over the page at \<open>p\<close>.\<close>

definition clear_page :: "u32 \<Rightarrow> (u32 \<Rightarrow> u32) \<Rightarrow> u32 \<Rightarrow> u32" where
  "clear_page p m = (\<lambda>a. if a AND 0xfffff000 = p then 0 else m a)"

definition copy_page :: "u32 \<Rightarrow> u32 \<Rightarrow> (u32 \<Rightarrow> u32) \<Rightarrow> u32 \<Rightarrow> u32" where
  "copy_page from to m = (\<lambda>a. if a AND 0xfffff000 = to then m (from + (a AND 0xfff)) else m a)"

definition get_free_page :: "'a mm_state_scheme \<Rightarrow> u32 \<times> 'a mm_state_scheme" where
  "get_free_page s =
     (case scan_free (mem_map s) PAGING_PAGES of
        None \<Rightarrow> (0, s)
      | Some k \<Rightarrow> (frame k, (set_mem_map k 1 s)\<lparr>pmem := clear_page (frame k) (pmem s)\<rparr>))"

definition free_page :: "u32 \<Rightarrow> 'a mm_state_scheme \<Rightarrow> ('a mm_state_scheme, unit) outcome" where
  "free_page addr s =
     (if addr < LOW_MEM then Done () s
      else if addr \<ge> HIGH_MEMORY s then Done () s
      else let n = MAP_NR addr in
        kbind (mem_map_at n s) (\<lambda>c s.
          if c \<noteq> 0 then Done () (set_mem_map n (c - 1) s)
          else panic ''Trying to free free page'' (set_mem_map n 0 s)))"

section \<open>Page tables\<close>

definition dir_entry :: "u32 \<Rightarrow> u32" where
  "dir_entry address = drop_bit 20 address AND 0xffc"

text \<open>\<open>free_page_tables\<close>: its inner loop over a page table and its outer loop over the directory.\<close>

primrec free_entries :: "nat \<Rightarrow> u32 \<Rightarrow> 'a mm_state_scheme \<Rightarrow> ('a mm_state_scheme, unit) outcome" where
  "free_entries 0 pg_tbl s = Done () s"
| "free_entries (Suc n) pg_tbl s =
     kbind (if pmem s pg_tbl AND 1 \<noteq> 0 then free_page (0xfffff000 AND pmem s pg_tbl) s else Done () s)
       (\<lambda>_ s. free_entries n (pg_tbl + 4) (store pg_tbl 0 s))"

primrec free_dirs :: "nat \<Rightarrow> u32 \<Rightarrow> 'a mm_state_scheme \<Rightarrow> ('a mm_state_scheme, unit) outcome" where
  "free_dirs 0 dir s = Done () s"
| "free_dirs (Suc n) dir s =
     (if pmem s dir AND 1 = 0 then free_dirs n (dir + 4) s
      else kbind (free_entries 1024 (pmem s dir AND 0xfffff000) s) (\<lambda>_ s.
           kbind (free_page (0xfffff000 AND pmem s dir) s) (\<lambda>_ s.
             free_dirs n (dir + 4) (store dir 0 s))))"

definition free_page_tables :: "u32 \<Rightarrow> u32 \<Rightarrow> 'a mm_state_scheme \<Rightarrow> ('a mm_state_scheme, u32) outcome" where
  "free_page_tables from sz s =
     (if from AND 0x3fffff \<noteq> 0 then panic ''free_page_tables called with wrong alignment'' s
      else if from = 0 then panic ''try to free up swapper memory space'' s
      else kbind (free_dirs (unat (drop_bit 22 (sz + 0x3fffff))) (dir_entry from) s)
             (\<lambda>_ s. Done 0 s))"

definition put_page :: "u32 \<Rightarrow> u32 \<Rightarrow> 'a mm_state_scheme \<Rightarrow> ('a mm_state_scheme, u32) outcome" where
  "put_page page address s =
     (let s1 = (if page < LOW_MEM \<or> page \<ge> HIGH_MEMORY s
                then printk ''Trying to put page %x at %x'' [page, address] s else s)
      in kbind (mem_map_at (MAP_NR page) s1) (\<lambda>c s2.
         let s3 = (if c \<noteq> 1 then printk ''mem_map disagrees with %x at %x'' [page, address] s2 else s2);
             pde = dir_entry address;
             set = (\<lambda>pg_tbl s. store (pg_tbl + 4 * (drop_bit 12 address AND 0x3ff)) (page OR 7) s)
         in if pmem s3 pde AND 1 \<noteq> 0 then Done page (set (pmem s3 pde AND 0xfffff000) s3)
            else case get_free_page s3 of (tmp, s4) \<Rightarrow>
              if tmp = 0 then Done 0 (printk ''NO FREE PAGE!'' [] s4)
              else Done page (set tmp (store pde (tmp OR 7) s4))))"

definition get_empty_page :: "u32 \<Rightarrow> 'a mm_state_scheme \<Rightarrow> ('a mm_state_scheme, unit) outcome" where
  "get_empty_page address s =
     (case get_free_page s of (tmp, s1) \<Rightarrow>
        if tmp = 0 then kbind (free_page tmp s1) (\<lambda>_ s. oom s)
        else kbind (put_page tmp address s1) (\<lambda>r s2.
          if r = 0 then kbind (free_page tmp s2) (\<lambda>_ s. oom s) else Done () s2))"

text \<open>Copy on write.\<close>

definition un_wp_page :: "u32 \<Rightarrow> 'a mm_state_scheme \<Rightarrow> ('a mm_state_scheme, unit) outcome" where
  "un_wp_page table_entry s =
     (let old_page = pmem s table_entry AND 0xfffff000
      in kbind (if old_page \<ge> LOW_MEM then mem_map_at (MAP_NR old_page) s else Done 0 s) (\<lambda>c s.
         if old_page \<ge> LOW_MEM \<and> c = 1 then Done () (store table_entry (pmem s table_entry OR 2) s)
         else case get_free_page s of (new_page, s1) \<Rightarrow>
           if new_page = 0 then oom s1
           else
             let s2 = (if old_page \<ge> LOW_MEM
                       then set_mem_map (MAP_NR old_page) (mem_map s1 ! MAP_NR old_page - 1) s1 else s1);
                 s3 = store table_entry (new_page OR 7) s2
             in Done () (s3\<lparr>pmem := copy_page old_page new_page (pmem s3)\<rparr>)))"

definition write_verify :: "u32 \<Rightarrow> 'a mm_state_scheme \<Rightarrow> ('a mm_state_scheme, unit) outcome" where
  "write_verify address s =
     (if pmem s (dir_entry address) AND 1 = 0 then Done () s
      else let page = (pmem s (dir_entry address) AND 0xfffff000) + (drop_bit 10 address AND 0xffc)
           in if pmem s page AND 3 = 1 then un_wp_page page s else Done () s)"

definition do_wp_page :: "u32 \<Rightarrow> u32 \<Rightarrow> 'a mm_state_scheme \<Rightarrow> ('a mm_state_scheme, unit) outcome" where
  "do_wp_page error_code address s =
     un_wp_page ((drop_bit 10 address AND 0xffc) + (0xfffff000 AND pmem s (dir_entry address))) s"

definition do_no_page :: "u32 \<Rightarrow> u32 \<Rightarrow> 'a mm_state_scheme \<Rightarrow> ('a mm_state_scheme, unit) outcome" where
  "do_no_page error_code address s =
     (case get_free_page s of (page, s1) \<Rightarrow>
        if page = 0 then oom s1
        else kbind (put_page page (address AND 0xfffff000) s1) (\<lambda>r s2.
          if r \<noteq> 0 then Done () s2 else kbind (free_page page s2) (\<lambda>_ s. oom s)))"

text \<open>\<open>copy_page_tables\<close>: the inner loop over \<open>nr\<close> entries and the outer loop over the directory.\<close>

primrec copy_entries :: "nat \<Rightarrow> u32 \<Rightarrow> u32 \<Rightarrow> 'a mm_state_scheme \<Rightarrow> ('a mm_state_scheme, unit) outcome" where
  "copy_entries 0 from_pt to_pt s = Done () s"
| "copy_entries (Suc n) from_pt to_pt s =
     (let this_page = pmem s from_pt in
      if this_page AND 1 = 0 then copy_entries n (from_pt + 4) (to_pt + 4) s
      else
        let this_page = this_page AND NOT 2;
            s1 = store to_pt this_page s
        in if this_page > LOW_MEM then
             let s2 = store from_pt this_page s1
             in kbind (mem_map_at (MAP_NR this_page) s2) (\<lambda>c s3.
                  copy_entries n (from_pt + 4) (to_pt + 4) (set_mem_map (MAP_NR this_page) (c + 1) s3))
           else copy_entries n (from_pt + 4) (to_pt + 4) s1)"

primrec copy_dirs :: "nat \<Rightarrow> nat \<Rightarrow> u32 \<Rightarrow> u32 \<Rightarrow> 'a mm_state_scheme \<Rightarrow> ('a mm_state_scheme, u32) outcome" where
  "copy_dirs 0 nr from_dir to_dir s = Done 0 s"
| "copy_dirs (Suc n) nr from_dir to_dir s =
     (if pmem s to_dir AND 1 \<noteq> 0 then panic ''copy_page_tables: already exist'' s
      else if pmem s from_dir AND 1 = 0 then copy_dirs n nr (from_dir + 4) (to_dir + 4) s
      else let from_pt = 0xfffff000 AND pmem s from_dir in
        case get_free_page s of (to_pt, s1) \<Rightarrow>
          if to_pt = 0 then Done (-1) s1
          else kbind (copy_entries nr from_pt to_pt (store to_dir (to_pt OR 7) s1)) (\<lambda>_ s2.
                 copy_dirs n nr (from_dir + 4) (to_dir + 4) s2))"

definition copy_page_tables :: "u32 \<Rightarrow> u32 \<Rightarrow> u32 \<Rightarrow> 'a mm_state_scheme \<Rightarrow> ('a mm_state_scheme, u32) outcome" where
  "copy_page_tables from to sz s =
     (if from AND 0x3fffff \<noteq> 0 \<or> to AND 0x3fffff \<noteq> 0
      then panic ''copy_page_tables called with wrong alignment'' s
      else copy_dirs (unat (drop_bit 22 (sz + 0x3fffff))) (if from = 0 then 0xA0 else 1024)
             (dir_entry from) (dir_entry to) s)"

text \<open>The walk from a linear address to its page table entry (0: there is none), and its clients.\<close>

definition linear_to_pte :: "u32 \<Rightarrow> 'a mm_state_scheme \<Rightarrow> u32" where
  "linear_to_pte addr s =
     (let pde = dir_entry addr in
      if pmem s pde AND 1 = 0 \<or> pde > 0x1000 then 0
      else (pmem s pde AND 0xfffff000) + 4 * (drop_bit 12 addr AND 0x3ff))"

definition disable_linear :: "u32 \<Rightarrow> 'a mm_state_scheme \<Rightarrow> 'a mm_state_scheme" where
  "disable_linear addr s = store (linear_to_pte addr s) 0 s"

definition mm_read_only :: "u32 \<Rightarrow> 'a mm_state_scheme \<Rightarrow> 'a mm_state_scheme" where
  "mm_read_only addr s =
     (let pte = linear_to_pte addr s;
          s1 = printk ''Before: 0x%x'' [pmem s pte] s;
          s2 = store pte (pmem s1 pte AND 0xfffffffd) s1
      in printk ''After: 0x%x'' [pmem s2 pte] s2)"

text \<open>\<open>calc_mem\<close> prints how many frames are free and how many entries each page table uses.\<close>

definition calc_mem :: "'a mm_state_scheme \<Rightarrow> 'a mm_state_scheme" where
  "calc_mem s =
     (let free = length (filter (\<lambda>i. mem_map s ! i = 0) [0..<PAGING_PAGES]);
          s1 = printk ''%d pages free (of %d in total)'' [of_nat free, of_nat PAGING_PAGES] s
      in fold (\<lambda>i s.
           if pmem s (4 * of_nat i) AND 1 \<noteq> 0 then
             let pg_tbl = 0xfffff000 AND pmem s (4 * of_nat i);
                 k = length (filter (\<lambda>j. pmem s (pg_tbl + 4 * of_nat j) AND 1 \<noteq> 0) [0..<1024])
             in printk ''PageDir[%d] uses %d pages'' [of_nat i, of_nat k] s
           else s) [2..<1024] s1)"

section \<open>Addresses of frames and entries\<close>

lemma store_simps [simp]:
  "pmem (store a v s) = (pmem s)(a := v)" "mem_map (store a v s) = mem_map s"
  "HIGH_MEMORY (store a v s) = HIGH_MEMORY s"
  by (simp_all add: store_def)

lemma set_mem_map_simps [simp]:
  "pmem (set_mem_map n v s) = pmem s" "mem_map (set_mem_map n v s) = (mem_map s)[n := v]"
  "HIGH_MEMORY (set_mem_map n v s) = HIGH_MEMORY s"
  by (simp_all add: set_mem_map_def)

lemma printk_mm_simps [simp]:
  "pmem (printk f a s) = pmem s" "mem_map (printk f a s) = mem_map s"
  "HIGH_MEMORY (printk f a s) = HIGH_MEMORY s"
  by (simp_all add: printk_def)

lemma mem_map_at_Done [simp]: "n < length (mem_map s) \<Longrightarrow> mem_map_at n s = Done (mem_map s ! n) s"
  by (simp add: mem_map_at_def)

lemma mem_map_at_Done_iff:
  "mem_map_at n s = Done c t \<longleftrightarrow> n < length (mem_map s) \<and> c = mem_map s ! n \<and> t = s"
  by (auto simp: mem_map_at_def)

lemma frame_of_nat: "frame k = of_nat (0x100000 + 4096 * k)"
  by (simp add: frame_def push_bit_eq_mult)

lemma unat_frame: "k < PAGING_PAGES \<Longrightarrow> unat (frame k) = 0x100000 + 4096 * k"
  unfolding frame_of_nat by (rule unat_of_nat_u32) simp

lemma MAP_NR_frame [simp]: "k < PAGING_PAGES \<Longrightarrow> MAP_NR (frame k) = k"
proof -
  assume k: "k < PAGING_PAGES"
  have "frame k - LOW_MEM = of_nat (4096 * k)" by (simp add: frame_of_nat)
  moreover have "unat (of_nat (4096 * k) :: u32) = 4096 * k"
    using k by (intro unat_of_nat_u32) simp
  ultimately have "unat (frame k - LOW_MEM) = 4096 * k" by (simp only:)
  then show ?thesis by (simp only: MAP_NR_def unat_shiftr) simp
qed

lemma frame_MAP_NR:
  assumes "LOW_MEM \<le> p" "p AND 0xfff = 0"
  shows "frame (MAP_NR p) = p"
proof -
  from assms(2) unat_and_mask [of p 12] have "4096 dvd unat p" by (auto simp: mask_literals)
  then obtain q where q: "unat p = 4096 * q" by (auto elim!: dvdE)
  have "unat (p - LOW_MEM) = unat p - unat LOW_MEM" by (rule unat_sub [OF assms(1)])
  also have "unat LOW_MEM = 0x100000" by simp
  finally have "unat (p - LOW_MEM) = 4096 * (q - 256)" by (simp add: q)
  then have m: "MAP_NR p = q - 256" by (simp only: MAP_NR_def unat_shiftr) simp
  have "256 \<le> q" using assms(1) q by (simp add: word_le_nat_alt)
  then have "0x100000 + 4096 * (q - 256) = unat p" by (simp add: q)
  then have "frame (MAP_NR p) = of_nat (unat p)" by (simp only: frame_of_nat m)
  then show ?thesis by simp
qed

lemma frame_nonzero [simp]: "k < PAGING_PAGES \<Longrightarrow> frame k \<noteq> 0"
  using unat_frame [of k] by auto

lemma frame_inj: "j < PAGING_PAGES \<Longrightarrow> k < PAGING_PAGES \<Longrightarrow> frame j = frame k \<longleftrightarrow> j = k"
  using MAP_NR_frame by metis

lemma frame_low [simp]: "k < PAGING_PAGES \<Longrightarrow> \<not> frame k < LOW_MEM"
  by (simp add: word_less_nat_alt unat_frame)

text \<open>Words of one page: \<open>page_of a\<close> is the page that holds \<open>a\<close>.\<close>

definition page_of :: "u32 \<Rightarrow> u32" where
  "page_of a = a AND 0xfffff000"

lemma high_mask: "(0xfffff000 :: u32) = NOT (mask 12)"
  by (simp add: mask_eq_exp_minus_1)

lemma page_of_idem [simp]: "page_of (page_of a) = page_of a"
  by (simp add: page_of_def and.assoc)

lemma page_of_offset: "page_of a = a - (a AND 0xfff)"
proof -
  have "(a AND NOT (mask 12)) AND (a AND mask 12) = 0"
    by (rule bit_word_eqI) (simp add: bit_simps)
  then have "(a AND NOT (mask 12)) + (a AND mask 12) = (a AND NOT (mask 12)) OR (a AND mask 12)"
    by (rule disjunctive_add_eq_or)
  also have "\<dots> = a"
    by (rule bit_word_eqI) (auto simp: bit_simps)
  finally have "(a AND NOT (mask 12)) = a - (a AND mask 12)" by (simp only: eq_diff_eq)
  then show ?thesis by (simp only: page_of_def high_mask mask_literals)
qed

lemma page_of_iff: "page_of a = a \<longleftrightarrow> a AND 0xfff = 0"
  unfolding page_of_offset by (metis diff_0_right diff_left_imp_eq)

lemma page_of_frame [simp]: "k < PAGING_PAGES \<Longrightarrow> page_of (frame k) = frame k"
proof -
  assume k: "k < PAGING_PAGES"
  have "unat (frame k AND mask 12) = (0x100000 + 4096 * k) mod 2 ^ 12"
    by (simp only: unat_and_mask unat_frame [OF k])
  also have "0x100000 + 4096 * k = 2 ^ 12 * (256 + k)" by simp
  also have "\<dots> mod 2 ^ 12 = 0" by (rule mod_mult_self1_is_0)
  finally show ?thesis by (simp only: page_of_iff mask_literals unat_eq_0)
qed

lemma entry_offset: "i < 1024 \<Longrightarrow> unat (4 * of_nat i :: u32) = 4 * i"
  using unat_of_nat_u32 [of "4 * i"] by simp

lemma page_of_entry:
  assumes "page_of p = p" "unat d < 4096"
  shows "page_of (p + d) = p" "(p + d) AND 0xfff = d"
proof -
  have "unat p mod 4096 = 0"
    using assms(1) unat_and_mask [of p 12] unfolding page_of_iff by (simp add: mask_literals)
  then obtain q where q: "unat p = 4096 * q" by auto
  have "unat (p + d) mod 4096 = (unat p + unat d) mod 2 ^ 32 mod 4096"
    by (simp only: unat_word_ariths) simp
  also have "\<dots> = (unat p + unat d) mod 4096"
    by (rule mod_mod_cancel) simp
  also have "\<dots> = unat d"
    using assms(2) by (simp add: q)
  finally have "unat ((p + d) AND 0xfff) = unat d"
    by (simp only: mask_literals unat_and_mask) simp
  then show d: "(p + d) AND 0xfff = d" by (simp only: word_unat_eq_iff)
  show "page_of (p + d) = p" by (simp only: page_of_offset d) simp
qed
lemma entry_inj:
  "i < 1024 \<Longrightarrow> j < 1024 \<Longrightarrow> p + 4 * of_nat i = p + (4 * of_nat j :: u32) \<longleftrightarrow> i = j"
  using entry_offset by (metis add_left_cancel mult_left_cancel zero_neq_numeral)

lemma page_of_index: "page_of p = p \<Longrightarrow> i < 1024 \<Longrightarrow> page_of (p + 4 * of_nat i) = p"
  by (rule page_of_entry) (simp_all add: entry_offset)

lemma dir_entry_index: "dir_entry a = 4 * of_nat (unat a div 2 ^ 22)" "unat a div 2 ^ 22 < 1024"
proof -
  have "unat a < 4294967296" using unsigned_less [of a] by simp
  then show lt: "unat a div 2 ^ 22 < 1024" by (simp add: less_mult_imp_div_less)
  have "unat (drop_bit 20 a) div 4 = unat a div 2 ^ 22"
    by (simp only: unat_shiftr div_mult2_eq [symmetric]) simp
  with lt have "unat (dir_entry a) = 4 * (unat a div 2 ^ 22)"
    by (simp add: dir_entry_def unat_and_ffc)
  then show "dir_entry a = 4 * of_nat (unat a div 2 ^ 22)"
    by (simp only: word_unat_eq_iff entry_offset [OF lt])
qed
section \<open>The frame allocator\<close>

lemma scan_free_Some:
  "scan_free m n = Some k \<Longrightarrow> k < n \<and> m ! k = 0 \<and> (\<forall>j. k < j \<and> j < n \<longrightarrow> m ! j \<noteq> 0)"
  by (induction n) (auto split: if_splits simp: less_Suc_eq)

lemma scan_free_None: "scan_free m n = None \<longleftrightarrow> (\<forall>j < n. m ! j \<noteq> 0)"
  by (induction n) (auto simp: less_Suc_eq)

text \<open>
  The map as the kernel keeps it: one byte per frame of the 15 megabytes, and frames beyond the
  installed memory are never free.
\<close>

definition frames_wf :: "'a mm_state_scheme \<Rightarrow> bool" where
  "frames_wf s \<longleftrightarrow> length (mem_map s) = PAGING_PAGES \<and> HIGH_MEMORY s \<le> 0x1000000 \<and>
     (\<forall>k < PAGING_PAGES. mem_map s ! k = 0 \<longrightarrow> frame k < HIGH_MEMORY s)"

definition frames_of :: "'a mm_state_scheme \<Rightarrow> u32 set" where
  "frames_of s = {frame k |k. k < PAGING_PAGES \<and> frame k < HIGH_MEMORY s}"

definition refs :: "'a mm_state_scheme \<Rightarrow> u32 \<Rightarrow> nat" where
  "refs s p = (if p \<in> frames_of s then unat (mem_map s ! MAP_NR p) else 0)"

lemma frames_of_finite [simp]: "finite (frames_of s)"
proof -
  have "frames_of s \<subseteq> frame ` {..<PAGING_PAGES}" by (auto simp: frames_of_def)
  then show ?thesis by (rule finite_subset) simp
qed

lemma frame_in_frames_of: "k < PAGING_PAGES \<Longrightarrow> frame k \<in> frames_of s \<longleftrightarrow> frame k < HIGH_MEMORY s"
  by (auto simp: frames_of_def)

lemma frames_of_nonzero: "p \<in> frames_of s \<Longrightarrow> p \<noteq> 0"
  by (auto simp: frames_of_def)

lemma get_free_page_cases:
  obtains (none) "get_free_page s = (0, s)" "\<forall>j < PAGING_PAGES. mem_map s ! j \<noteq> 0"
  | (page) k t where "get_free_page s = (frame k, t)" "k < PAGING_PAGES" "mem_map s ! k = 0"
      "\<forall>j. k < j \<and> j < PAGING_PAGES \<longrightarrow> mem_map s ! j \<noteq> 0"
      "t = (set_mem_map k 1 s)\<lparr>pmem := clear_page (frame k) (pmem s)\<rparr>"
proof (cases "scan_free (mem_map s) PAGING_PAGES")
  case None
  then have "get_free_page s = (0, s)" by (simp add: get_free_page_def)
  with None none show ?thesis by (simp add: scan_free_None)
next
  case (Some k)
  then have "get_free_page s = (frame k, (set_mem_map k 1 s)\<lparr>pmem := clear_page (frame k) (pmem s)\<rparr>)"
    by (simp add: get_free_page_def)
  with page scan_free_Some [OF Some] show ?thesis by blast
qed

lemma get_free_page_zero_iff:
  "fst (get_free_page s) = 0 \<longleftrightarrow> (\<forall>j < PAGING_PAGES. mem_map s ! j \<noteq> 0)"
  by (cases s rule: get_free_page_cases) auto

lemma get_free_page_frames_of [simp]: "frames_of (snd (get_free_page s)) = frames_of s"
  by (cases s rule: get_free_page_cases) (auto simp: frames_of_def)

lemma refs_set_mem_map:
  assumes "length (mem_map s) = PAGING_PAGES" "frame k \<in> frames_of s" "k < PAGING_PAGES"
    and "mem_map t = (mem_map s)[k := v]" "frames_of t = frames_of s"
  shows "refs t = (refs s)(frame k := unat v)"
proof
  fix p
  show "refs t p = ((refs s)(frame k := unat v)) p"
  proof (cases "p \<in> frames_of s")
    case True
    then obtain j where j: "p = frame j" "j < PAGING_PAGES" by (auto simp: frames_of_def)
    with assms True show ?thesis by (simp add: refs_def frame_inj nth_list_update)
  next
    case False
    then have "p \<noteq> frame k" using assms(2) by blast
    with False assms(5) show ?thesis by (simp add: refs_def)
  qed
qed

lemma refs_get_free_page:
  assumes "frames_wf s" "get_free_page s = (p, t)" "p \<noteq> 0"
  shows "p \<in> frames_of s" "refs s p = 0" "refs t = (refs s)(p := 1)" "frames_wf t" "frames_of t = frames_of s"
proof -
  from assms(2,3) obtain k where k: "p = frame k" "k < PAGING_PAGES" "mem_map s ! k = 0"
    "t = (set_mem_map k 1 s)\<lparr>pmem := clear_page (frame k) (pmem s)\<rparr>"
    by (cases s rule: get_free_page_cases) auto
  then show p: "p \<in> frames_of s" and "refs s p = 0"
    using assms(1) by (auto simp: frames_wf_def frames_of_def refs_def)
  show f: "frames_of t = frames_of s" by (simp add: k(4) frames_of_def)
  have "refs t = (refs s)(frame k := unat (1 :: u8))"
    by (rule refs_set_mem_map) (use assms(1) k p f in \<open>simp_all add: frames_wf_def\<close>)
  then show "refs t = (refs s)(p := 1)" by (simp add: k(1))
  show "frames_wf t" using assms(1) k(2) by (auto simp: k(4) frames_wf_def nth_list_update)
qed

lemma refs_free_page:
  assumes "frames_wf s" "p \<in> frames_of s" "0 < refs s p"
  shows "\<exists>t. free_page p s = Done () t \<and> refs t = (refs s)(p := refs s p - 1) \<and> frames_wf t \<and>
    frames_of t = frames_of s"
proof -
  from assms(2) obtain k where k: "p = frame k" "k < PAGING_PAGES" "frame k < HIGH_MEMORY s"
    by (auto simp: frames_of_def)
  let ?t = "set_mem_map k (mem_map s ! k - 1) s"
  from assms k have c: "mem_map s ! k \<noteq> 0" "length (mem_map s) = PAGING_PAGES"
    by (auto simp: refs_def frame_in_frames_of frames_wf_def)
  then have "free_page p s = Done () ?t"
    using k by (simp add: free_page_def Let_def not_le)
  moreover have "refs ?t = (refs s)(frame k := unat (mem_map s ! k - 1))"
    by (rule refs_set_mem_map) (use k c in \<open>auto simp: frames_of_def\<close>)
  then have "refs ?t = (refs s)(p := refs s p - 1)"
    using k c by (simp add: refs_def frame_in_frames_of unat_minus_one)
  moreover have "frames_wf ?t" using assms(1) k by (auto simp: frames_wf_def nth_list_update)
  moreover have "frames_of ?t = frames_of s" by (simp add: frames_of_def)
  ultimately show ?thesis by blast
qed

lemma refs_free_page_free:
  assumes "frames_wf s" "p \<in> frames_of s" "refs s p = 0"
  shows "\<not> returns (free_page p s)"
proof -
  from assms(2) obtain k where k: "p = frame k" "k < PAGING_PAGES" "frame k < HIGH_MEMORY s"
    by (auto simp: frames_of_def)
  with assms show ?thesis
    by (auto simp: free_page_def Let_def refs_def frame_in_frames_of frames_wf_def panic_def unat_eq_0)
qed

text \<open>
  What the page tables and the process code rely on: the contract of a frame allocator with
  reference counts. \<open>alloc\<close> returns \<open>null\<close> when it has nothing left.
\<close>

locale frame_allocator =
  fixes ok :: "'s \<Rightarrow> bool"
    and frames :: "'s \<Rightarrow> 'p set"
    and count :: "'s \<Rightarrow> 'p \<Rightarrow> nat"
    and null :: 'p
    and alloc :: "'s \<Rightarrow> 'p \<times> 's"
    and release :: "'p \<Rightarrow> 's \<Rightarrow> ('s, unit) outcome"
  assumes frames_finite: "finite (frames s)"
    and alloc_page: "ok s \<Longrightarrow> alloc s = (p, t) \<Longrightarrow> p \<noteq> null \<Longrightarrow>
      p \<in> frames s \<and> count s p = 0 \<and> count t = (count s)(p := 1) \<and> ok t \<and> frames t = frames s"
    and alloc_null: "ok s \<Longrightarrow> alloc s = (null, t) \<Longrightarrow> t = s \<and> (\<forall>p \<in> frames s. count s p \<noteq> 0)"
    and release_drops: "ok s \<Longrightarrow> p \<in> frames s \<Longrightarrow> 0 < count s p \<Longrightarrow>
      \<exists>t. release p s = Done () t \<and> count t = (count s)(p := count s p - 1) \<and> ok t \<and> frames t = frames s"
    and release_free: "ok s \<Longrightarrow> p \<in> frames s \<Longrightarrow> count s p = 0 \<Longrightarrow> \<not> returns (release p s)"
begin

definition free_frames :: "'s \<Rightarrow> 'p set" where
  "free_frames s = {p \<in> frames s. count s p = 0}"

text \<open>\<open>n\<close> allocations in a row, until one fails.\<close>

primrec alloc_many :: "nat \<Rightarrow> 's \<Rightarrow> 'p list \<times> 's" where
  "alloc_many 0 s = ([], s)"
| "alloc_many (Suc n) s =
     (case alloc s of (p, t) \<Rightarrow>
        if p = null then ([], t) else case alloc_many n t of (ps, u) \<Rightarrow> (p # ps, u))"

lemma free_frames_alloc:
  assumes "ok s" "alloc s = (p, t)" "p \<noteq> null"
  shows "free_frames s = insert p (free_frames t)" "p \<notin> free_frames t"
  using alloc_page [OF assms] by (auto simp: free_frames_def)

lemma alloc_release:
  assumes "ok s" "alloc s = (p, t)" "p \<noteq> null"
  shows "\<exists>u. release p t = Done () u \<and> count u = count s \<and> ok u \<and> frames u = frames s"
proof -
  note a = alloc_page [OF assms]
  have "ok t" "p \<in> frames t" "0 < count t p" using a by simp_all
  from release_drops [OF this] a show ?thesis by (auto simp: fun_upd_idem)
qed

lemma alloc_many_free:
  assumes "ok s" "alloc_many n s = (ps, t)"
  shows "ok t \<and> distinct ps \<and> set ps \<subseteq> free_frames s \<and> free_frames t = free_frames s - set ps \<and>
    length ps = min n (card (free_frames s))"
  using assms
proof (induction n arbitrary: s ps t)
  case 0
  then show ?case by simp
next
  case (Suc n)
  obtain p s1 where a: "alloc s = (p, s1)" by (cases "alloc s")
  show ?case
  proof (cases "p = null")
    case True
    with alloc_null [of s s1] Suc.prems a have "s1 = s" "free_frames s = {}" by (auto simp: free_frames_def)
    with Suc.prems a True show ?thesis by auto
  next
    case False
    obtain qs u where q: "alloc_many n s1 = (qs, u)" by (cases "alloc_many n s1")
    from Suc.prems a q False have ps: "ps = p # qs" "u = t" by simp_all
    have "ok s1" using alloc_page [OF Suc.prems(1) a False] by simp
    note ih = Suc.IH [OF this q]
    have fin: "finite (free_frames s1)" using frames_finite [of s1] by (simp add: free_frames_def)
    from ih free_frames_alloc [OF Suc.prems(1) a False] have "p \<notin> set qs" by auto
    with ih free_frames_alloc [OF Suc.prems(1) a False] ps fin show ?thesis by auto
  qed
qed

end

interpretation pages: frame_allocator frames_wf frames_of refs 0 get_free_page free_page
proof unfold_locales
  fix s :: "'a mm_state_scheme" and t p
  show "finite (frames_of s)" by simp
  show "p \<in> frames_of s \<and> refs s p = 0 \<and> refs t = (refs s)(p := 1) \<and> frames_wf t \<and> frames_of t = frames_of s"
    if "frames_wf s" "get_free_page s = (p, t)" "p \<noteq> 0"
    using refs_get_free_page [OF that] by simp
  show "t = s \<and> (\<forall>p \<in> frames_of s. refs s p \<noteq> 0)" if "frames_wf s" "get_free_page s = (0, t)"
    using that
    by (cases s rule: get_free_page_cases) (auto simp: refs_def frames_of_def unat_eq_0)
  show "\<exists>t. free_page p s = Done () t \<and> refs t = (refs s)(p := refs s p - 1) \<and> frames_wf t \<and>
      frames_of t = frames_of s" if "frames_wf s" "p \<in> frames_of s" "0 < refs s p"
    by (rule refs_free_page [OF that])
  show "\<not> returns (free_page p s)" if "frames_wf s" "p \<in> frames_of s" "refs s p = 0"
    by (rule refs_free_page_free [OF that])
qed

section \<open>Sharing and copying pages\<close>

definition shared_entry :: "u32 \<Rightarrow> bool" where
  "shared_entry e \<longleftrightarrow> e AND 1 \<noteq> 0 \<and> LOW_MEM < e AND NOT 2"

text \<open>What the entry of the source and of the target is after the inner loop of \<open>copy_page_tables\<close>.\<close>

definition source_after :: "u32 \<Rightarrow> u32" where
  "source_after e = (if shared_entry e then e AND NOT 2 else e)"

definition target_after :: "u32 \<Rightarrow> u32 \<Rightarrow> u32" where
  "target_after e old = (if e AND 1 = 0 then old else e AND NOT 2)"

definition shared_frames :: "(u32 \<Rightarrow> u32) \<Rightarrow> nat \<Rightarrow> u32 \<Rightarrow> nat list" where
  "shared_frames m n from_pt =
     map (\<lambda>i. MAP_NR (m (from_pt + 4 * of_nat i) AND NOT 2))
       (filter (\<lambda>i. shared_entry (m (from_pt + 4 * of_nat i))) [0..<n])"

lemma shared_frames_Suc:
  "shared_frames m (Suc n) f =
     (if shared_entry (m f) then [MAP_NR (m f AND NOT 2)] else []) @ shared_frames m n (f + 4)"
proof -
  have "[0..<Suc n] = 0 # map Suc [0..<n]" by (simp add: upt_conv_Cons map_Suc_upt del: upt_Suc)
  then show ?thesis
    by (simp add: shared_frames_def filter_map o_def add.assoc)
qed

lemma shared_frames_cong:
  "(\<And>i. i < n \<Longrightarrow> m (f + 4 * of_nat i) = m' (f + 4 * of_nat i)) \<Longrightarrow> shared_frames m n f = shared_frames m' n f"
  unfolding shared_frames_def by (intro map_cong filter_cong) auto

lemma all_less_Suc2: "(\<forall>i < Suc n. P i) \<longleftrightarrow> P 0 \<and> (\<forall>i < n. P (Suc i))"
  by (auto simp: less_Suc_eq_0_disj)

definition apart :: "nat \<Rightarrow> u32 \<Rightarrow> u32 \<Rightarrow> bool" where
  "apart n f t \<longleftrightarrow> (\<forall>i < n. \<forall>j < n. f + 4 * of_nat i \<noteq> t + 4 * of_nat j)"

lemma apart_Suc:
  "apart (Suc n) f t \<longleftrightarrow> f \<noteq> t \<and> (\<forall>j < n. f \<noteq> t + 4 + 4 * of_nat j) \<and>
     (\<forall>i < n. f + 4 + 4 * of_nat i \<noteq> t) \<and> apart n (f + 4) (t + 4)"
  unfolding apart_def all_less_Suc2 by (auto simp: add.assoc)

lemma entry_step: "i < n \<Longrightarrow> Suc n \<le> 1024 \<Longrightarrow> p + 4 + 4 * of_nat i \<noteq> (p :: u32)"
  using entry_inj [of "Suc i" 0 p] by (simp add: add.assoc)

lemma copy_entries_step:
  assumes "copy_entries (Suc n) f t s = Done () u" "f \<noteq> t"
  obtains s1 where "copy_entries n (f + 4) (t + 4) s1 = Done () u"
    "pmem s1 = (pmem s)(t := target_after (pmem s f) (pmem s t), f := source_after (pmem s f))"
    "mem_map s1 = (if shared_entry (pmem s f)
       then (mem_map s)[MAP_NR (pmem s f AND NOT 2) := mem_map s ! MAP_NR (pmem s f AND NOT 2) + 1]
       else mem_map s)"
    "HIGH_MEMORY s1 = HIGH_MEMORY s"
proof (cases "pmem s f AND 1 = 0")
  case True
  with assms that [of s] show thesis
    by (simp add: source_after_def target_after_def shared_entry_def fun_upd_idem)
next
  case present: False
  let ?e = "pmem s f AND NOT 2"
  show thesis
  proof (cases "LOW_MEM < ?e")
    case True
    with assms(1) present have "copy_entries n (f + 4) (t + 4)
        (set_mem_map (MAP_NR ?e) (mem_map s ! MAP_NR ?e + 1) (store f ?e (store t ?e s))) = Done () u"
      by (auto simp: Let_def kbind_Done_iff mem_map_at_Done_iff)
    from that [OF this] True present assms(2) show thesis
      by (simp add: source_after_def target_after_def shared_entry_def)
  next
    case False
    with assms(1) present have "copy_entries n (f + 4) (t + 4) (store t ?e s) = Done () u"
      by (simp add: Let_def)
    from that [OF this] False present assms(2) show thesis
      by (simp add: source_after_def target_after_def shared_entry_def fun_upd_idem)
  qed
qed

lemma copy_entries_Done:
  assumes "copy_entries n f t s = Done () u" "n \<le> 1024" "apart n f t"
  shows "(\<forall>i < n. pmem u (f + 4 * of_nat i) = source_after (pmem s (f + 4 * of_nat i))) \<and>
    (\<forall>i < n. pmem u (t + 4 * of_nat i) =
       target_after (pmem s (f + 4 * of_nat i)) (pmem s (t + 4 * of_nat i))) \<and>
    (\<forall>a. (\<forall>i < n. a \<noteq> f + 4 * of_nat i \<and> a \<noteq> t + 4 * of_nat i) \<longrightarrow> pmem u a = pmem s a) \<and>
    length (mem_map u) = length (mem_map s) \<and>
    (\<forall>k < length (mem_map s). mem_map u ! k =
       mem_map s ! k + of_nat (count_list (shared_frames (pmem s) n f) k)) \<and>
    HIGH_MEMORY u = HIGH_MEMORY s"
  using assms
proof (induction n arbitrary: f t s)
  case 0
  then show ?case by (simp add: shared_frames_def)
next
  case (Suc n)
  from Suc.prems(3) have ft: "f \<noteq> t" "\<forall>j < n. f \<noteq> t + 4 + 4 * of_nat j" "\<forall>i < n. f + 4 + 4 * of_nat i \<noteq> t"
    and ap: "apart n (f + 4) (t + 4)" by (simp_all add: apart_Suc)
  obtain s1 where s1: "copy_entries n (f + 4) (t + 4) s1 = Done () u"
    and m1: "pmem s1 = (pmem s)(t := target_after (pmem s f) (pmem s t), f := source_after (pmem s f))"
    and mm: "mem_map s1 = (if shared_entry (pmem s f)
       then (mem_map s)[MAP_NR (pmem s f AND NOT 2) := mem_map s ! MAP_NR (pmem s f AND NOT 2) + 1]
       else mem_map s)"
    and hm: "HIGH_MEMORY s1 = HIGH_MEMORY s"
    using copy_entries_step [OF Suc.prems(1) ft(1)] by blast
  have same: "pmem s1 (f + 4 + 4 * of_nat i) = pmem s (f + 4 + 4 * of_nat i)"
      "pmem s1 (t + 4 + 4 * of_nat i) = pmem s (t + 4 + 4 * of_nat i)" if "i < n" for i
    using that ft entry_step [OF that Suc.prems(2)] unfolding m1 by auto
  have sf: "shared_frames (pmem s1) n (f + 4) = shared_frames (pmem s) n (f + 4)"
    by (rule shared_frames_cong) (rule same)
  from Suc.prems(2) have n: "n \<le> 1024" by simp
  note ih = Suc.IH [OF s1 n ap, unfolded sf]
  have "\<forall>i < n. f \<noteq> f + 4 + 4 * of_nat i \<and> f \<noteq> t + 4 + 4 * of_nat i"
      "\<forall>i < n. t \<noteq> f + 4 + 4 * of_nat i \<and> t \<noteq> t + 4 + 4 * of_nat i"
    using ft entry_step [OF _ Suc.prems(2)] by metis+
  with ih have at: "pmem u f = source_after (pmem s f)" "pmem u t = target_after (pmem s f) (pmem s t)"
    using ft(1) by (simp_all add: m1)
  show ?case
  proof (intro conjI)
    show "\<forall>i < Suc n. pmem u (f + 4 * of_nat i) = source_after (pmem s (f + 4 * of_nat i))"
      unfolding all_less_Suc2 using at ih same by (simp add: add.assoc)
    show "\<forall>i < Suc n. pmem u (t + 4 * of_nat i) =
        target_after (pmem s (f + 4 * of_nat i)) (pmem s (t + 4 * of_nat i))"
      unfolding all_less_Suc2 using at ih same by (simp add: add.assoc)
    show "\<forall>a. (\<forall>i < Suc n. a \<noteq> f + 4 * of_nat i \<and> a \<noteq> t + 4 * of_nat i) \<longrightarrow> pmem u a = pmem s a"
      unfolding all_less_Suc2 using ih by (auto simp: m1 add.assoc)
    show "length (mem_map u) = length (mem_map s)" using ih by (simp add: mm)
    show "\<forall>k < length (mem_map s). mem_map u ! k =
        mem_map s ! k + of_nat (count_list (shared_frames (pmem s) (Suc n) f) k)"
      using ih by (auto simp: mm shared_frames_Suc nth_list_update)
    show "HIGH_MEMORY u = HIGH_MEMORY s" using ih hm by simp
  qed
qed

section \<open>Initialisation, mapping, copy on write\<close>

lemma clear_map_Done:
  assumes "i + n \<le> length (mem_map s)"
  shows "\<exists>t. clear_map n i s = Done () t \<and> length (mem_map t) = length (mem_map s) \<and>
    (\<forall>k < length (mem_map s). mem_map t ! k = (if i \<le> k \<and> k < i + n then 0 else mem_map s ! k)) \<and>
    HIGH_MEMORY t = HIGH_MEMORY s \<and> pmem t = pmem s"
  using assms
proof (induction n arbitrary: i s)
  case 0
  then show ?case by auto
next
  case (Suc n)
  from Suc.IH [of "Suc i" "set_mem_map i 0 s"] Suc.prems obtain t where
    t: "clear_map n (Suc i) (set_mem_map i 0 s) = Done () t" "length (mem_map t) = length (mem_map s)"
      "\<forall>k < length (mem_map s). mem_map t ! k = (if Suc i \<le> k \<and> k < Suc i + n then 0 else (mem_map s)[i := 0] ! k)"
      "HIGH_MEMORY t = HIGH_MEMORY s" "pmem t = pmem s"
    by auto
  moreover from t(1) Suc.prems have "clear_map (Suc n) i s = Done () t" by simp
  moreover from t(3) Suc.prems
  have "\<forall>k < length (mem_map s). mem_map t ! k = (if i \<le> k \<and> k < i + Suc n then 0 else mem_map s ! k)"
    by (auto simp: nth_list_update)
  ultimately show ?case by blast
qed

lemma mem_init_spec:
  assumes "LOW_MEM \<le> start" "start \<le> finish" "finish \<le> 0x1000000"
    and "start AND 0xfff = 0" "finish AND 0xfff = 0"
  shows "\<exists>t. mem_init start finish s = Done () t \<and> HIGH_MEMORY t = finish \<and>
    length (mem_map t) = PAGING_PAGES \<and>
    (\<forall>k < PAGING_PAGES. mem_map t ! k = (if start \<le> frame k \<and> frame k < finish then 0 else USED))"
proof -
  from assms(4,5) unat_and_mask [of start 12] unat_and_mask [of finish 12]
  have "4096 dvd unat start" "4096 dvd unat finish" by (auto simp: mask_literals)
  then obtain a b where a: "unat start = 4096 * a" and b: "unat finish = 4096 * b"
    by (auto elim!: dvdE)
  from assms(1-3) a b have ab: "256 \<le> a" "a \<le> b" "b \<le> 4096" by (simp_all add: word_le_nat_alt)
  have "unat (start - LOW_MEM) = unat start - unat LOW_MEM" by (rule unat_sub [OF assms(1)])
  also have "unat LOW_MEM = 0x100000" by simp
  finally have "unat (start - LOW_MEM) = 4096 * (a - 256)" by (simp add: a)
  then have i: "MAP_NR start = a - 256" by (simp only: MAP_NR_def unat_shiftr) simp
  have "unat (finish - start) = 4096 * (b - a)"
    using assms(2) a b by (simp add: unat_sub algebra_simps)
  then have n: "unat (drop_bit 12 (finish - start)) = b - a" by (simp only: unat_shiftr) simp
  have cmp: "start \<le> frame k \<and> frame k < finish \<longleftrightarrow> a - 256 \<le> k \<and> k < a - 256 + (b - a)"
    if "k < PAGING_PAGES" for k
    using that ab a b by (auto simp: word_le_nat_alt word_less_nat_alt unat_frame)
  have "a - 256 + (b - a) \<le> length (mem_map (s\<lparr>HIGH_MEMORY := finish, mem_map := replicate PAGING_PAGES USED\<rparr>))"
    using ab by simp
  from clear_map_Done [OF this] cmp show ?thesis by (auto simp: mem_init_def i n)
qed

lemma index_small: "unat (4 * (drop_bit 12 (a :: u32) AND 0x3ff)) < 4096"
proof -
  have "unat (drop_bit 12 a AND 0x3ff) < 1024"
    by (simp only: mask_literals unat_and_mask) simp
  then show ?thesis by (simp add: unat_word_ariths)
qed

lemma page_of_or7 [simp]: "page_of (p OR 7) = page_of p"
  by (simp add: page_of_def bit.conj_disj_distrib2)

lemma page_of_dir_entry [simp]: "page_of (dir_entry a) = 0"
  using page_of_entry(1) [of 0 "dir_entry a"] entry_offset dir_entry_index [of a]
  by (simp add: page_of_def)

lemma dir_entry_le: "\<not> dir_entry a > 0x1000"
  using dir_entry_index [of a] entry_offset [OF dir_entry_index(2) [of a]]
  by (simp add: word_less_nat_alt)

lemma or7_present [simp]: "(p OR 7) AND 1 = (1 :: u32)"
  by (rule bit_word_eqI) (auto simp: bit_simps bit_numeral_rec)

lemma put_page_Done:
  assumes "put_page page address s = Done r t" "r \<noteq> 0"
    and tab: "pmem s (dir_entry address) AND 1 \<noteq> 0 \<longrightarrow> page_of (pmem s (dir_entry address)) \<noteq> 0"
  defines "pte \<equiv> linear_to_pte address t"
  shows "r = page \<and> pte \<noteq> 0 \<and> pmem t pte = page OR 7 \<and>
    (\<forall>a. page_of a \<noteq> page_of pte \<and> a \<noteq> dir_entry address \<longrightarrow> pmem t a = pmem s a) \<and>
    (pmem s (dir_entry address) AND 1 \<noteq> 0 \<longrightarrow> pmem t = (pmem s)(pte := page OR 7))"
proof -
  let ?d = "dir_entry address" and ?i = "4 * (drop_bit 12 address AND 0x3ff) :: u32"
  have page_pte: "page_of (p + ?i) = p" if "page_of p = p" for p
    by (rule page_of_entry [OF that index_small])
  show ?thesis
  proof (cases "pmem s ?d AND 1 = 0")
    case False
    let ?p = "pmem s ?d AND 0xfffff000"
    have pg: "page_of ?p = ?p" "?p \<noteq> 0" using tab False by (simp_all add: page_of_def and.assoc)
    from assms(1) False have "r = page" "pmem t = (pmem s)(?p + ?i := page OR 7)"
      by (auto simp: put_page_def Let_def kbind_Done_iff mem_map_at_Done_iff split: if_splits)
    moreover have ne: "?p + ?i \<noteq> ?d" using page_pte [OF pg(1)] pg(2) page_of_dir_entry [of address] by metis
    ultimately have "pte = ?p + ?i" using False
      by (simp add: pte_def linear_to_pte_def Let_def dir_entry_le)
    moreover have "?p + ?i \<noteq> 0" using page_pte [OF pg(1)] pg(2) by (metis and_zero_eq page_of_def zero_and_eq)
    ultimately show ?thesis using \<open>r = page\<close> \<open>pmem t = _\<close> by auto
  next
    case True
    from assms(1,2) True obtain k u where k: "k < PAGING_PAGES" "r = page"
      and t: "pmem t = (clear_page (frame k) (pmem s))(?d := frame k OR 7, frame k + ?i := page OR 7)"
      by (cases "mem_map_at (MAP_NR page) (if page < LOW_MEM \<or> page \<ge> HIGH_MEMORY s
            then printk ''Trying to put page %x at %x'' [page, address] s else s)")
        (auto simp: put_page_def Let_def mem_map_at_Done_iff get_free_page_def split: if_splits option.splits
          dest!: scan_free_Some)
    let ?p = "frame k"
    have pg: "page_of ?p = ?p" "?p \<noteq> 0" using k by simp_all
    have ne: "?p + ?i \<noteq> ?d" using page_pte [OF pg(1)] pg(2) page_of_dir_entry [of address] by metis
    have "pte = ?p + ?i"
      using ne pg(1) by (simp add: pte_def linear_to_pte_def Let_def dir_entry_le t page_of_def [symmetric])
    moreover have "?p + ?i \<noteq> 0" using page_pte [OF pg(1)] pg(2) by (metis page_of_def zero_and_eq)
    ultimately show ?thesis
      using k True page_pte [OF pg(1)] by (auto simp: t clear_page_def page_of_def)
  qed
qed

lemma copy_page_at:
  assumes "page_of to = to" "unat d < 4096"
  shows "copy_page from to m (to + d) = m (from + d)"
  using page_of_entry [OF assms] by (simp add: copy_page_def page_of_def)

lemma un_wp_page_Done:
  assumes "un_wp_page e s = Done u t" "frames_wf s"
    and used: "\<forall>k < PAGING_PAGES. mem_map s ! k = 0 \<longrightarrow>
      page_of e \<noteq> frame k \<and> page_of (pmem s e) \<noteq> frame k"
    and noself: "page_of (pmem s e) \<noteq> page_of e"
  defines "old \<equiv> page_of (pmem s e)" and "new \<equiv> page_of (pmem t e)"
  shows "if LOW_MEM \<le> old \<and> mem_map s ! MAP_NR old = 1
    then pmem t = (pmem s)(e := pmem s e OR 2) \<and> mem_map t = mem_map s
    else (\<exists>k < PAGING_PAGES. new = frame k \<and> mem_map s ! k = 0 \<and> mem_map t ! k = 1) \<and>
      pmem t e = new OR 7 \<and>
      (\<forall>d. unat d < 4096 \<longrightarrow> pmem t (new + d) = pmem s (old + d)) \<and>
      (\<forall>a. page_of a \<noteq> new \<and> a \<noteq> e \<longrightarrow> pmem t a = pmem s a) \<and>
      (LOW_MEM \<le> old \<longrightarrow> mem_map t ! MAP_NR old = mem_map s ! MAP_NR old - 1) \<and>
      (\<forall>j < PAGING_PAGES. frame j \<noteq> new \<and> frame j \<noteq> old \<longrightarrow> mem_map t ! j = mem_map s ! j)"
proof -
  let ?o = "pmem s e AND 0xfffff000"
  have o: "?o = old" by (simp add: old_def page_of_def)
  have low: "old < LOW_MEM \<or> LOW_MEM \<le> old \<and> MAP_NR old < PAGING_PAGES"
    using assms(1,2) by (auto simp: un_wp_page_def Let_def o kbind_Done_iff mem_map_at_Done_iff frames_wf_def
        split: if_splits)
  show ?thesis
  proof (cases "LOW_MEM \<le> old \<and> mem_map s ! MAP_NR old = 1")
    case True
    with low assms(1,2) have "t = store e (pmem s e OR 2) s"
      by (auto simp: un_wp_page_def Let_def o frames_wf_def)
    with True show ?thesis by simp
  next
    case False
    from assms(1,2) False low obtain k s1 where g: "get_free_page s = (frame k, s1)" and k: "k < PAGING_PAGES" "mem_map s ! k = 0"
      and s1: "s1 = (set_mem_map k 1 s)\<lparr>pmem := clear_page (frame k) (pmem s)\<rparr>"
      and t: "t = (let s2 = (if LOW_MEM \<le> old then set_mem_map (MAP_NR old) (mem_map s1 ! MAP_NR old - 1) s1 else s1);
          s3 = store e (frame k OR 7) s2 in s3\<lparr>pmem := copy_page old (frame k) (pmem s3)\<rparr>)"
      by (cases s rule: get_free_page_cases)
        (auto simp: un_wp_page_def Let_def o frames_wf_def oom_def panic_def split: if_splits)
    from k used have ne: "page_of e \<noteq> frame k" "old \<noteq> frame k" by (auto simp: old_def)
    have pm: "pmem t = copy_page old (frame k) ((clear_page (frame k) (pmem s))(e := frame k OR 7))"
      by (simp add: t s1 Let_def)
    have te: "pmem t e = frame k OR 7" using ne by (simp add: pm copy_page_def page_of_def)
    then have new: "new = frame k" using k by (simp add: new_def)
    have fo: "frame (MAP_NR old) = old" if "LOW_MEM \<le> old"
      using that by (rule frame_MAP_NR) (simp add: old_def page_of_iff [symmetric])
    have mk: "MAP_NR old \<noteq> k" if "LOW_MEM \<le> old" using fo [OF that] ne by auto
    have "pmem t (frame k + d) = pmem s (old + d)" if "unat d < 4096" for d
    proof -
      have "page_of (old + d) = old" using that by (intro page_of_entry) (simp_all add: old_def)
      with ne noself that k show ?thesis
        by (auto simp: pm copy_page_at clear_page_def page_of_def [symmetric] old_def)
    qed
    moreover have "mem_map t ! k = 1" using k mk low assms(2) by (auto simp: t s1 Let_def frames_wf_def)
    moreover have "LOW_MEM \<le> old \<Longrightarrow> mem_map t ! MAP_NR old = mem_map s ! MAP_NR old - 1"
      using k mk low assms(2) by (auto simp: t s1 Let_def frames_wf_def)
    moreover have "mem_map t ! j = mem_map s ! j" if "j < PAGING_PAGES" "frame j \<noteq> new" "frame j \<noteq> old" for j
    proof -
      have "j \<noteq> k" "LOW_MEM \<le> old \<Longrightarrow> j \<noteq> MAP_NR old" using that new fo by auto
      then show ?thesis by (auto simp: t s1 Let_def)
    qed
    moreover have "pmem t a = pmem s a" if "page_of a \<noteq> new" "a \<noteq> e" for a
      using that new by (simp add: pm copy_page_def clear_page_def page_of_def)
    ultimately show ?thesis using False k te new by auto
  qed
qed

section \<open>Properties\<close>

text \<open>A machine with 16 megabytes whose frames are all free, and memory that reads 0.\<close>

definition mm_boot :: mm_state where
  "mm_boot = sched_state.extend (sched_boot 0x1000 0)
     (mm_state.fields (\<lambda>_. 0) (replicate PAGING_PAGES 0) 0x1000000)"

lemma mm_boot_simps [simp]:
  "pmem mm_boot = (\<lambda>_. 0)" "mem_map mm_boot = replicate PAGING_PAGES 0" "HIGH_MEMORY mm_boot = 0x1000000"
  by (simp_all add: mm_boot_def sched_state.extend_def mm_state.fields_def)

lemma frame_below_16M: "k < PAGING_PAGES \<Longrightarrow> frame k < 0x1000000"
  by (simp add: word_less_nat_alt unat_frame)

lemma scan_free_last: "0 < n \<Longrightarrow> m ! (n - 1) = 0 \<Longrightarrow> scan_free m n = Some (n - 1)"
  by (cases n) simp_all

lemma get_free_page_boot:
  "mem_map s = replicate PAGING_PAGES 0 \<Longrightarrow>
     get_free_page s = (frame 3839, (set_mem_map 3839 1 s)\<lparr>pmem := clear_page (frame 3839) (pmem s)\<rparr>)"
  by (simp add: get_free_page_def scan_free_last)

lemma mm_boot_wf: "frames_wf mm_boot"
  by (simp add: frames_wf_def frame_below_16M)

text \<open>Get_free_page returns 0 and changes nothing exactly if no frame is free; otherwise it
  returns the free frame with the highest address, counts it once, leaves every other count as it
  is, clears the frame and changes no other word of memory.\<close>

theorem get_free_page_takes_highest:
  assumes "length (mem_map s) = PAGING_PAGES" "get_free_page s = (p, t)"
  shows "if \<forall>j < PAGING_PAGES. mem_map s ! j \<noteq> 0 then p = 0 \<and> t = s
    else \<exists>k < PAGING_PAGES. p = frame k \<and> mem_map s ! k = 0 \<and>
      (\<forall>j < PAGING_PAGES. mem_map s ! j = 0 \<longrightarrow> frame j \<le> p) \<and>
      mem_map t = (mem_map s)[k := 1] \<and>
      (\<forall>d. unat d < 4096 \<longrightarrow> pmem t (p + d) = 0) \<and>
      (\<forall>a. page_of a \<noteq> p \<longrightarrow> pmem t a = pmem s a)"
proof (cases s rule: get_free_page_cases)
  case none
  with assms show ?thesis by simp
next
  case (page k u)
  then have "\<forall>j < PAGING_PAGES. mem_map s ! j = 0 \<longrightarrow> frame j \<le> frame k"
    by (auto simp: word_le_nat_alt unat_frame not_less [symmetric])
  moreover have "pmem t (frame k + d) = 0" if "unat d < 4096" for d
    using page assms(2) page_of_entry(1) [OF page_of_frame that]
    by (simp add: clear_page_def page_of_def)
  moreover have "pmem t a = pmem s a" if "page_of a \<noteq> frame k" for a
    using that page assms(2) by (simp add: clear_page_def page_of_def)
  ultimately show ?thesis using page assms(2) by auto
qed

theorem get_free_page_takes_highest_witness:
  "fst (get_free_page mm_boot) = frame 3839 \<and> frame 3839 = 0xfff000"
proof -
  obtain p t where g: "get_free_page mm_boot = (p, t)" by (cases "get_free_page mm_boot")
  have n: "\<not> (\<forall>j < PAGING_PAGES. mem_map mm_boot ! j \<noteq> 0)" by (auto intro: exI [of _ 0])
  have l: "length (mem_map mm_boot) = PAGING_PAGES" by simp
  from get_free_page_takes_highest [OF l g, unfolded if_not_P [OF n]] obtain k
    where k: "k < PAGING_PAGES" "p = frame k" "\<forall>j < PAGING_PAGES. mem_map mm_boot ! j = 0 \<longrightarrow> frame j \<le> p"
    by blast
  from k(3) have "frame 3839 \<le> frame k" by (simp add: k(2))
  with k(1) have "k = 3839" by (simp add: word_le_nat_alt unat_frame)
  with g k(2) show ?thesis by (simp add: frame_of_nat)
qed

text \<open>Mem_init leaves exactly the frames between start_mem and end_mem free, every other frame
  of the 15 megabytes marked as used, and never writes past mem_map, for page-aligned bounds
  between 1 and 16 megabytes.\<close>

theorem mem_init_frees_main_memory:
  assumes "LOW_MEM \<le> start_mem" "start_mem \<le> end_mem" "end_mem \<le> 0x1000000"
    and "start_mem AND 0xfff = 0" "end_mem AND 0xfff = 0"
  shows "\<exists>t. mem_init start_mem end_mem s = Done () t \<and> HIGH_MEMORY t = end_mem \<and>
    length (mem_map t) = PAGING_PAGES \<and>
    (\<forall>k < PAGING_PAGES. mem_map t ! k = (if start_mem \<le> frame k \<and> frame k < end_mem then 0 else USED))"
  using assms by (rule mem_init_spec)

theorem mem_init_frees_main_memory_witness:
  "\<exists>t. mem_init 0x100000 0x300000 mm_boot = Done () t \<and> mem_map t ! 0 = 0 \<and> mem_map t ! 3839 = USED"
proof -
  from mem_init_frees_main_memory [of "0x100000" "0x300000" mm_boot] obtain t
    where "mem_init 0x100000 0x300000 mm_boot = Done () t"
      "\<forall>k < PAGING_PAGES. mem_map t ! k = (if 0x100000 \<le> frame k \<and> frame k < 0x300000 then 0 else USED)"
    by auto
  moreover have "0x100000 \<le> frame 0 \<and> frame 0 < 0x300000" "\<not> frame 3839 < 0x300000"
    by (simp_all add: frame_of_nat)
  ultimately show ?thesis by auto
qed

text \<open>Repeated calls of get_free_page hand out each free frame once: of n calls in a row the
  first min n f succeed, f being the number of free frames, with distinct frames that were free, and
  afterwards exactly the others are free.\<close>

theorem get_free_page_exhausts:
  assumes "frames_wf s" "pages.alloc_many n s = (ps, t)"
  shows "distinct ps \<and> set ps \<subseteq> {p \<in> frames_of s. refs s p = 0} \<and>
    {p \<in> frames_of t. refs t p = 0} = {p \<in> frames_of s. refs s p = 0} - set ps \<and>
    length ps = min n (card {p \<in> frames_of s. refs s p = 0})"
  using pages.alloc_many_free [OF assms] by (simp add: pages.free_frames_def)

theorem get_free_page_exhausts_witness:
  "\<exists>p q t. pages.alloc_many 2 mm_boot = ([p, q], t) \<and> p \<noteq> q"
proof -
  obtain ps t where a: "pages.alloc_many 2 mm_boot = (ps, t)" by (cases "pages.alloc_many 2 mm_boot")
  have "{frame 0, frame 1} \<subseteq> {p \<in> frames_of mm_boot. refs mm_boot p = 0}"
    by (auto simp: frames_of_def refs_def frame_below_16M intro: exI [of _ 0] exI [of _ 1])
  then have "card {frame 0, frame 1} \<le> card {p \<in> frames_of mm_boot. refs mm_boot p = 0}"
    by (intro card_mono) simp_all
  then have "2 \<le> card {p \<in> frames_of mm_boot. refs mm_boot p = 0}" by (simp add: frame_inj)
  with get_free_page_exhausts [OF mm_boot_wf a] have "distinct ps" "length ps = 2" by simp_all
  with a show ?thesis by (auto simp: length_Suc_conv numeral_2_eq_2)
qed

text \<open>When put_page returns a page, the walk from the address finds an entry that maps that
  page present, writable and for the user; in other pages than that page table's only the directory
  entry changes, and where the page table was there already that entry is the one word changed.\<close>

theorem put_page_maps:
  assumes "put_page page address s = Done r t" "r \<noteq> 0"
    and "pmem s (dir_entry address) AND 1 \<noteq> 0 \<longrightarrow> page_of (pmem s (dir_entry address)) \<noteq> 0"
    and "pte = linear_to_pte address t"
  shows "r = page \<and> pte \<noteq> 0 \<and> pmem t pte = page OR 7 \<and>
    (\<forall>a. page_of a \<noteq> page_of pte \<and> a \<noteq> dir_entry address \<longrightarrow> pmem t a = pmem s a) \<and>
    (pmem s (dir_entry address) AND 1 \<noteq> 0 \<longrightarrow> pmem t = (pmem s)(pte := page OR 7))"
  using put_page_Done [OF assms(1-3)] by (simp add: assms(4))

theorem put_page_maps_witness:
  "\<exists>t. put_page 0x200000 0x8000000 mm_boot = Done 0x200000 t \<and>
     pmem t (linear_to_pte 0x8000000 t) = 0x200007"
proof -
  have d: "MAP_NR 0x200000 < 3840" by (simp add: MAP_NR_def)
  have "\<exists>t. put_page 0x200000 0x8000000 mm_boot = Done 0x200000 t"
    using d by (auto simp: put_page_def Let_def get_free_page_boot)
  then obtain t where t: "put_page 0x200000 0x8000000 mm_boot = Done 0x200000 t" by blast
  from put_page_maps [OF t] have "pmem t (linear_to_pte 0x8000000 t) = 0x200000 OR 7" by simp
  with t show ?thesis by auto
qed

text \<open>C6: un_wp_page gives the writer a page of its own. A frame of main memory that only this entry
  maps becomes writable in place. Any other frame is copied: the entry then maps, writable, a frame
  that was free and is counted once, each word of which reads as the same word of the old frame; the old
  frame's count falls by one and no other word or count changes.\<close>

theorem un_wp_page_copies:
  assumes "un_wp_page e s = Done u t" "frames_wf s"
    and "\<forall>k < PAGING_PAGES. mem_map s ! k = 0 \<longrightarrow> page_of e \<noteq> frame k \<and> page_of (pmem s e) \<noteq> frame k"
    and "page_of (pmem s e) \<noteq> page_of e"
    and "old = page_of (pmem s e)" "new = page_of (pmem t e)"
  shows "if LOW_MEM \<le> old \<and> mem_map s ! MAP_NR old = 1
    then pmem t = (pmem s)(e := pmem s e OR 2) \<and> mem_map t = mem_map s
    else (\<exists>k < PAGING_PAGES. new = frame k \<and> mem_map s ! k = 0 \<and> mem_map t ! k = 1) \<and>
      pmem t e = new OR 7 \<and>
      (\<forall>d. unat d < 4096 \<longrightarrow> pmem t (new + d) = pmem s (old + d)) \<and>
      (\<forall>a. page_of a \<noteq> new \<and> a \<noteq> e \<longrightarrow> pmem t a = pmem s a) \<and>
      (LOW_MEM \<le> old \<longrightarrow> mem_map t ! MAP_NR old = mem_map s ! MAP_NR old - 1) \<and>
      (\<forall>j < PAGING_PAGES. frame j \<noteq> new \<and> frame j \<noteq> old \<longrightarrow> mem_map t ! j = mem_map s ! j)"
  using un_wp_page_Done [OF assms(1-4)] by (simp add: assms(5,6))

text \<open>A page table at 0x5000 whose first entry maps, read-only, a frame at 2 megabytes that two
  tables share; the frame holds 7 in its third word.\<close>

definition shared_page :: mm_state where
  "shared_page = mm_boot\<lparr>pmem := (\<lambda>_. 0)(0x5000 := 0x200005, 0x200008 := 7),
     mem_map := (replicate PAGING_PAGES 0)[256 := 2]\<rparr>"

theorem un_wp_page_copies_witness:
  "\<exists>t. un_wp_page 0x5000 shared_page = Done () t \<and> page_of (pmem t 0x5000) \<noteq> 0x200000 \<and>
     pmem t (page_of (pmem t 0x5000) + 8) = 7 \<and> mem_map t ! 256 = 1"
proof -
  have pm: "pmem shared_page 0x5000 = 0x200005" and pg: "page_of (0x200005 :: u32) = 0x200000"
    "page_of (0x5000 :: u32) = 0x5000" and nr: "MAP_NR 0x200000 = 256"
    by (simp_all add: shared_page_def page_of_def MAP_NR_def)
  have mm: "mem_map shared_page = (replicate PAGING_PAGES 0)[256 := 2]" and "HIGH_MEMORY shared_page = 0x1000000"
    by (simp_all add: shared_page_def)
  then have wf: "frames_wf shared_page" by (simp add: frames_wf_def frame_below_16M)
  have fr: "frame 256 = 0x200000" by (simp add: frame_of_nat)
  have c: "mem_map shared_page ! 256 = 2" by (simp add: mm)
  have g: "get_free_page shared_page = (frame 3839, (set_mem_map 3839 1 shared_page)
      \<lparr>pmem := clear_page (frame 3839) (pmem shared_page)\<rparr>)"
    by (simp add: get_free_page_def scan_free_last mm)
  have "\<exists>t. un_wp_page 0x5000 shared_page = Done () t"
    using pg nr by (simp add: un_wp_page_def Let_def pm page_of_def g mm)
  then obtain t where t: "un_wp_page 0x5000 shared_page = Done () t" by blast
  have free: "\<forall>k < PAGING_PAGES. mem_map shared_page ! k = 0 \<longrightarrow>
      page_of 0x5000 \<noteq> frame k \<and> page_of (pmem shared_page 0x5000) \<noteq> frame k"
  proof (intro allI impI)
    fix k assume k: "k < PAGING_PAGES" "mem_map shared_page ! k = 0"
    then have "k \<noteq> 256" using c by auto
    then have "frame k \<noteq> frame 256" using k(1) by (simp add: frame_inj)
    then show "page_of 0x5000 \<noteq> frame k \<and> page_of (pmem shared_page 0x5000) \<noteq> frame k"
      using frame_low [OF k(1)] by (auto simp: pm pg fr)
  qed
  have noself: "page_of (pmem shared_page 0x5000) \<noteq> page_of 0x5000" by (simp add: pm pg)
  let ?new = "page_of (pmem t 0x5000)"
  have "\<not> (LOW_MEM \<le> page_of (pmem shared_page 0x5000) \<and>
      mem_map shared_page ! MAP_NR (page_of (pmem shared_page 0x5000)) = 1)"
    by (simp add: pm pg nr c)
  from un_wp_page_copies [OF t wf free noself refl refl, unfolded if_not_P [OF this], unfolded pm pg nr c]
  obtain k where k: "?new = frame k" "mem_map shared_page ! k = 0" "k < PAGING_PAGES"
    and w: "\<forall>d. unat d < 4096 \<longrightarrow> pmem t (?new + d) = pmem shared_page (0x200000 + d)"
    and m: "mem_map t ! 256 = 1"
    by auto
  from k(2) c have "k \<noteq> 256" by auto
  then have "?new \<noteq> 0x200000" using k(1,3) by (simp add: fr [symmetric] frame_inj)
  moreover have "pmem t (?new + 8) = 7" using w [rule_format, of 8] by (simp add: shared_page_def)
  ultimately show ?thesis using t m by blast
qed

text \<open>C27: the inner loop of copy_page_tables shares pages: every present entry of the source table
  appears in the target table with its write bit cleared, the source's entry of a frame of main
  memory loses its write bit too, each such frame is counted once more for each of its entries
  (the byte wraps at 256), and nothing else changes. The tables must not overlap.\<close>

theorem copy_entries_shares:
  assumes "copy_entries n from_pt to_pt s = Done () t" "n \<le> 1024"
    and "\<forall>i < n. \<forall>j < n. from_pt + 4 * of_nat i \<noteq> to_pt + 4 * of_nat j"
  shows "(\<forall>i < n. let e = pmem s (from_pt + 4 * of_nat i) in
      pmem t (to_pt + 4 * of_nat i) =
        (if e AND 1 = 0 then pmem s (to_pt + 4 * of_nat i) else e AND NOT 2) \<and>
      pmem t (from_pt + 4 * of_nat i) = (if e AND 1 \<noteq> 0 \<and> LOW_MEM < e AND NOT 2 then e AND NOT 2 else e)) \<and>
    (\<forall>a. (\<forall>i < n. a \<noteq> from_pt + 4 * of_nat i \<and> a \<noteq> to_pt + 4 * of_nat i) \<longrightarrow> pmem t a = pmem s a) \<and>
    (\<forall>k < length (mem_map s). mem_map t ! k =
       mem_map s ! k + of_nat (count_list (shared_frames (pmem s) n from_pt) k))"
  using copy_entries_Done [OF assms(1,2)] assms(3)
  by (simp add: apart_def source_after_def target_after_def shared_entry_def Let_def)

theorem copy_entries_shares_witness:
  "\<exists>t. copy_entries 1 0x5000 0x6000 (store 0x5000 0x200007 shared_page) = Done () t \<and>
     pmem t 0x6000 = 0x200005 \<and> pmem t 0x5000 = 0x200005 \<and> mem_map t ! 256 = 3"
proof -
  let ?s = "store 0x5000 0x200007 shared_page"
  have m: "mem_map ?s = (replicate PAGING_PAGES 0)[256 := 2]" "pmem ?s 0x5000 = 0x200007"
    by (simp_all add: shared_page_def)
  have nr: "MAP_NR 0x200005 = 256" by (simp add: MAP_NR_def)
  have "\<exists>t. copy_entries 1 0x5000 0x6000 ?s = Done () t"
    using m by (simp add: Let_def nr)
  then obtain t where t: "copy_entries 1 0x5000 0x6000 ?s = Done () t" by blast
  from copy_entries_shares [OF t] m
  have "pmem t 0x6000 = 0x200005" "pmem t 0x5000 = 0x200005"
    and c: "\<forall>k < PAGING_PAGES. mem_map t ! k = (replicate PAGING_PAGES 0)[256 := 2] ! k +
      of_nat (count_list (shared_frames (pmem ?s) 1 0x5000) k)"
    by (simp_all add: Let_def)
  moreover have "shared_frames (pmem ?s) 1 0x5000 = [256]"
    by (simp add: shared_frames_def shared_entry_def nr m)
  with c have "mem_map t ! 256 = 3" by simp
  ultimately show ?thesis using t by blast
qed

end
