(* ===== verification/Blk.thy ===== *)
theory Blk
  imports Memory "HOL-Library.Multiset"
begin

text \<open>
  The block device layer: \<^verbatim>\<open>kernel/blk_drv/blk.h\<close>, \<^verbatim>\<open>kernel/blk_drv/ll_rw_blk.c\<close>
  and the AT disk driver \<^verbatim>\<open>kernel/blk_drv/hd.c\<close> with \<^verbatim>\<open>include/linux/hdreg.h\<close>.

  A pointer into an array (\<open>struct buffer_head *\<close>, \<open>struct request *\<close>) is the index of
  the element, \<open>None\<close> is NULL. The data of buffers are bytes of the memory \<open>bmem\<close>, reached
  by their addresses. What the ports of the machine read at each access is the field
  \<open>in_val\<close> of the state; what is written to them is logged in \<open>outs\<close>.
\<close>

section \<open>State\<close>

record buffer_head =
  b_data :: u32
  b_blocknr :: u32
  b_dev :: u16
  b_uptodate :: u8
  b_dirt :: u8
  b_count :: u8
  b_lock :: u8
  b_prev :: "nat option"
  b_next :: "nat option"
  b_prev_free :: "nat option"
  b_next_free :: "nat option"

record request =
  r_dev :: u32
  r_cmd :: u32
  r_errors :: u32
  r_sector :: u32
  r_nr_sectors :: u32
  r_buffer :: u32
  r_bh :: "nat option"
  r_next :: "nat option"

datatype request_fn = Do_hd_request

record blk_dev_struct =
  request_fn :: "request_fn option"
  current_request :: "nat option"

record hd_i_struct =
  head :: u32
  sect :: u32
  cyl :: u32
  wpcom :: u32
  lzone :: u32
  ctl :: u32

record hd_struct =
  start_sect :: u32
  nr_sects :: u32

datatype hd_handler = Read_intr | Write_intr

record blk_state = mm_state +
  bufs :: "nat \<Rightarrow> buffer_head"
  bmem :: "u32 \<Rightarrow> u8"
  request :: "request list"
  blk_dev :: "blk_dev_struct list"
  do_hd :: "hd_handler option"
  recalibrate :: u32
  reset :: u32
  hd_info :: "hd_i_struct list"
  NR_HD :: nat
  hd_parts :: "hd_struct list"
  callable :: bool
  in_val :: "nat \<Rightarrow> u32 \<Rightarrow> u16"
  in_time :: nat
  outs :: "(u32 \<times> u8) list"

abbreviation (input) NR_BLK_DEV :: nat where "NR_BLK_DEV \<equiv> 7"
abbreviation (input) NR_REQUEST :: nat where "NR_REQUEST \<equiv> 32"
abbreviation (input) READ :: u32 where "READ \<equiv> 0"
abbreviation (input) WRITE :: u32 where "WRITE \<equiv> 1"
abbreviation (input) READA :: u32 where "READA \<equiv> 2"
abbreviation (input) WRITEA :: u32 where "WRITEA \<equiv> 3"

definition MAJOR :: "u32 \<Rightarrow> u32" where "MAJOR a = drop_bit 8 a"
definition MINOR :: "u32 \<Rightarrow> u32" where "MINOR a = a AND 0xff"

text \<open>Assignments to a buffer head and to a request.\<close>

definition bupd :: "nat \<Rightarrow> (buffer_head \<Rightarrow> buffer_head) \<Rightarrow> 'a blk_state_scheme \<Rightarrow> 'a blk_state_scheme" where
  "bupd b f s = s\<lparr>bufs := (bufs s)(b := f (bufs s b))\<rparr>"

definition rupd :: "nat \<Rightarrow> (request \<Rightarrow> request) \<Rightarrow> 'a blk_state_scheme \<Rightarrow> 'a blk_state_scheme" where
  "rupd r f s = s\<lparr>request := (request s)[r := f (request s ! r)]\<rparr>"

definition dupd :: "nat \<Rightarrow> (blk_dev_struct \<Rightarrow> blk_dev_struct) \<Rightarrow> 'a blk_state_scheme \<Rightarrow> 'a blk_state_scheme" where
  "dupd d f s = s\<lparr>blk_dev := (blk_dev s)[d := f (blk_dev s ! d)]\<rparr>"

text \<open>Port input and output.\<close>

definition inb :: "u32 \<Rightarrow> 'a blk_state_scheme \<Rightarrow> u8 \<times> 'a blk_state_scheme" where
  "inb port s = (ucast (in_val s (in_time s) port), s\<lparr>in_time := Suc (in_time s)\<rparr>)"

definition outb :: "u32 \<Rightarrow> u32 \<Rightarrow> 'a blk_state_scheme \<Rightarrow> 'a blk_state_scheme" where
  "outb v port s = s\<lparr>outs := outs s @ [(port, ucast v)]\<rparr>"

text \<open>\<open>rep insw\<close>: \<open>nr\<close> words from a port to the bytes from \<open>buf\<close> on.\<close>

definition port_read :: "u32 \<Rightarrow> u32 \<Rightarrow> nat \<Rightarrow> 'a blk_state_scheme \<Rightarrow> 'a blk_state_scheme" where
  "port_read port buf nr s =
     s\<lparr>bmem := (\<lambda>a. let i = unat (a - buf) in
         if i < 2 * nr then
           let w = in_val s (in_time s + i div 2) port
           in if even i then ucast w else ucast (drop_bit 8 w)
         else bmem s a),
       in_time := in_time s + nr\<rparr>"

section \<open>Locking a buffer\<close>

text \<open>\<open>ll_rw_blk.c\<close> and \<open>blk.h\<close>, which the disk driver includes, each have an \<open>unlock_buffer\<close> of their own;
  they differ in their message.\<close>

definition unlock_buffer :: "nat \<Rightarrow> 'a blk_state_scheme \<Rightarrow> 'a blk_state_scheme" where
  "unlock_buffer b s =
     (let s1 = (if b_lock (bufs s b) = 0 then printk ''ll_rw_block.c: buffer not locked'' [] s else s)
      in wake_up (Some (B_wait b)) (bupd b (\<lambda>h. h\<lparr>b_lock := 0\<rparr>) s1))"

definition hd_unlock_buffer :: "nat \<Rightarrow> 'a blk_state_scheme \<Rightarrow> 'a blk_state_scheme" where
  "hd_unlock_buffer b s =
     (let s1 = (if b_lock (bufs s b) = 0 then printk ''harddisk: free buffer being unlocked'' [] s else s)
      in wake_up (Some (B_wait b)) (bupd b (\<lambda>h. h\<lparr>b_lock := 0\<rparr>) s1))"

definition lock_buffer :: "('a blk_state_scheme \<Rightarrow> 'a blk_state_scheme) \<Rightarrow> nat
    \<Rightarrow> 'a blk_state_scheme \<Rightarrow> ('a blk_state_scheme, unit) outcome" where
  "lock_buffer env b s =
     kbind (wait_while env (\<lambda>s. b_lock (bufs s b) \<noteq> 0) (B_wait b) s) (\<lambda>_ s.
       Done () (bupd b (\<lambda>h. h\<lparr>b_lock := 1\<rparr>) s))"

section \<open>The disk driver\<close>

abbreviation (input) MAJOR_HD :: nat where "MAJOR_HD \<equiv> 3"
abbreviation (input) MAX_ERRORS :: int where "MAX_ERRORS \<equiv> 7"
abbreviation (input) HD_DATA :: u32 where "HD_DATA \<equiv> 0x1f0"
abbreviation (input) HD_ERROR :: u32 where "HD_ERROR \<equiv> 0x1f1"
abbreviation (input) HD_STATUS :: u32 where "HD_STATUS \<equiv> 0x1f7"
abbreviation (input) HD_CMD :: u32 where "HD_CMD \<equiv> 0x3f6"
abbreviation (input) WIN_READ :: u32 where "WIN_READ \<equiv> 0x20"

abbreviation CURRENT :: "'a blk_state_scheme \<Rightarrow> nat option" where
  "CURRENT s \<equiv> current_request (blk_dev s ! 3)"

definition end_request :: "u32 \<Rightarrow> 'a blk_state_scheme \<Rightarrow> ('a blk_state_scheme, unit) outcome" where
  "end_request uptodate s =
     (case CURRENT s of
        None \<Rightarrow> Halted (Undef ''CURRENT'') s
      | Some r \<Rightarrow>
          let s1 = (case r_bh (request s ! r) of
                      None \<Rightarrow> s
                    | Some b \<Rightarrow> hd_unlock_buffer b (bupd b (\<lambda>h. h\<lparr>b_uptodate := ucast uptodate\<rparr>) s))
          in kbind (if uptodate = 0 then
                      let s2 = printk ''harddisk I/O error'' [] s1
                      in case r_bh (request s2 ! r) of
                           None \<Rightarrow> Halted (Undef ''CURRENT->bh'') s2
                         | Some b \<Rightarrow> Done () (printk ''dev %04x, block %d''
                             [r_dev (request s2 ! r), b_blocknr (bufs s2 b)] s2)
                    else Done () s1)
             (\<lambda>_ s. let s = wake_up (Some (Req_waiting r)) s;
                        s = wake_up (Some Wait_for_request) s;
                        s = rupd r (\<lambda>q. q\<lparr>r_dev := -1\<rparr>) s
                    in Done () (dupd MAJOR_HD (\<lambda>d. d\<lparr>current_request := r_next (request s ! r)\<rparr>) s)))"

text \<open>\<open>while (--retries && (inb_p(HD_STATUS) & 0x80));\<close> from \<open>retries = n\<close>.\<close>

fun busy_wait :: "nat \<Rightarrow> 'a blk_state_scheme \<Rightarrow> nat \<times> 'a blk_state_scheme" where
  "busy_wait 0 s = (0, s)"
| "busy_wait (Suc n) s =
     (if n = 0 then (0, s)
      else case inb HD_STATUS s of (v, s1) \<Rightarrow> if v AND 0x80 \<noteq> 0 then busy_wait n s1 else (n, s1))"

definition controller_ready :: "'a blk_state_scheme \<Rightarrow> nat \<times> 'a blk_state_scheme" where
  "controller_ready s = busy_wait 100000 s"

definition win_result :: "'a blk_state_scheme \<Rightarrow> u32 \<times> 'a blk_state_scheme" where
  "win_result s =
     (case inb HD_STATUS s of (i, s1) \<Rightarrow>
        if i AND (0x80 OR 0x40 OR 0x20 OR 0x10 OR 0x01) = 0x40 OR 0x10 then (0, s1)
        else if i AND 1 \<noteq> 0 then (1, snd (inb HD_ERROR s1)) else (1, s1))"

definition hd_out :: "u32 \<Rightarrow> u32 \<Rightarrow> u32 \<Rightarrow> u32 \<Rightarrow> u32 \<Rightarrow> u32 \<Rightarrow> hd_handler
    \<Rightarrow> 'a blk_state_scheme \<Rightarrow> ('a blk_state_scheme, unit) outcome" where
  "hd_out drive nsect sector hd_nr cylinder cmd intr_addr s =
     (if drive > 1 \<or> hd_nr > 15 then panic ''Trying to write bad sector'' s
      else case controller_ready s of (ready, s) \<Rightarrow>
        if ready = 0 then panic ''HD controller not ready'' s
        else
          let info = hd_info s ! unat drive;
              s = s\<lparr>do_hd := Some intr_addr\<rparr>;
              s = outb (ctl info) HD_CMD s;
              s = outb (signed_drop_bit 2 (wpcom info)) (HD_DATA + 1) s;
              s = outb nsect (HD_DATA + 2) s;
              s = outb sector (HD_DATA + 3) s;
              s = outb cylinder (HD_DATA + 4) s;
              s = outb (drop_bit 8 cylinder) (HD_DATA + 5) s;
              s = outb (0xA0 OR push_bit 4 drive OR hd_nr) (HD_DATA + 6) s
          in Done () (outb cmd (HD_DATA + 7) s))"

text \<open>
  Where a sector lies on the disk: the two \<open>divl\<close> instructions of \<open>do_hd_request\<close> give
  (sector in track, head, cylinder). A divisor 0 raises a divide error.
\<close>

definition chs :: "hd_i_struct \<Rightarrow> u32 \<Rightarrow> (u32 \<times> u32 \<times> u32) option" where
  "chs info block =
     (if sect info = 0 \<or> head info = 0 then None
      else let track = block div sect info; sec = block mod sect info;
               cylinder = track div head info; hd_nr = track mod head info
           in Some (sec + 1, hd_nr, cylinder))"

text \<open>
  One request of \<open>do_hd_request\<close>, after \<open>INIT_REQUEST\<close>: \<open>None\<close> says that the request
  is outside its partition.
\<close>

definition hd_command :: "nat \<Rightarrow> 'a blk_state_scheme \<Rightarrow> ('a blk_state_scheme, unit) outcome option" where
  "hd_command r s =
     (let q = request s ! r;
          dev = MINOR (r_dev q);
          block = r_sector q
      in if unat dev \<ge> 5 * NR_HD s \<or> block + 2 > nr_sects (hd_parts s ! unat dev) then None
         else
           let block = block + start_sect (hd_parts s ! unat dev);
               dev = dev div 5
           in Some (case chs (hd_info s ! unat dev) block of
                None \<Rightarrow> Halted (Undef ''divide error'') s
              | Some (sec, hd_nr, cylinder) \<Rightarrow>
                  if r_cmd q = WRITE then Done () s
                  else if r_cmd q = READ
                  then hd_out dev (r_nr_sectors q) sec hd_nr cylinder WIN_READ Read_intr s
                  else panic ''unknown hd-command'' s))"

definition INIT_REQUEST :: "nat \<Rightarrow> 'a blk_state_scheme \<Rightarrow> ('a blk_state_scheme, unit) outcome" where
  "INIT_REQUEST r s =
     (if MAJOR (r_dev (request s ! r)) \<noteq> 3 then panic ''harddisk: request list destroyed'' s
      else case r_bh (request s ! r) of
        None \<Rightarrow> Done () s
      | Some b \<Rightarrow> if b_lock (bufs s b) = 0 then panic ''harddisk: block not locked'' s else Done () s)"

text \<open>
  The loop at label \<open>repeat\<close> ends: a request that is ended gets the device number -1, and
  \<open>INIT_REQUEST\<close> panics on such a request.
\<close>

definition live_requests :: "'a blk_state_scheme \<Rightarrow> nat" where
  "live_requests s = length (filter (\<lambda>q. MAJOR (r_dev q) = 3) (request s))"

lemma upd_simps [simp]:
  "request (bupd b f s) = request s" "blk_dev (bupd b f s) = blk_dev s"
  "bufs (bupd b f s) = (bufs s)(b := f (bufs s b))"
  "request (rupd r g s) = (request s)[r := g (request s ! r)]" "blk_dev (rupd r g s) = blk_dev s"
  "bufs (rupd r g s) = bufs s"
  "request (dupd d h s) = request s" "blk_dev (dupd d h s) = (blk_dev s)[d := h (blk_dev s ! d)]"
  "bufs (dupd d h s) = bufs s"
  by (simp_all add: bupd_def rupd_def dupd_def)

lemma sched_upd_simps [simp]:
  "request (tupd p f s) = request s" "blk_dev (tupd p f s) = blk_dev s" "bufs (tupd p f s) = bufs s"
  "request (wake_up q s) = request s" "blk_dev (wake_up q s) = blk_dev s" "bufs (wake_up q s) = bufs s"
  "request (printk m a s) = request s" "blk_dev (printk m a s) = blk_dev s" "bufs (printk m a s) = bufs s"
  by (simp_all add: tupd_def wake_up_def printk_def Let_def split: option.split)

lemma unlock_buffer_simps [simp]:
  "request (unlock_buffer b s) = request s" "blk_dev (unlock_buffer b s) = blk_dev s"
  "bufs (unlock_buffer b s) = (bufs s)(b := (bufs s b)\<lparr>b_lock := 0\<rparr>)"
  "request (hd_unlock_buffer b s) = request s" "blk_dev (hd_unlock_buffer b s) = blk_dev s"
  "bufs (hd_unlock_buffer b s) = (bufs s)(b := (bufs s b)\<lparr>b_lock := 0\<rparr>)"
  by (simp_all add: unlock_buffer_def hd_unlock_buffer_def Let_def)

lemma end_request_Done:
  assumes "end_request v s = Done u t" "CURRENT s = Some r"
  shows "request t = (request s)[r := (request s ! r)\<lparr>r_dev := -1\<rparr>]"
    and "blk_dev t = (blk_dev s)[3 := (blk_dev s ! 3)\<lparr>current_request := r_next (request s ! r)\<rparr>]"
  using assms
  by (auto simp: end_request_def Let_def nth_list_update kbind_Done_iff split: if_splits option.splits;
      cases "r < length (request s)"; simp add: nth_list_update list_update_beyond)+

lemma INIT_REQUEST_Done:
  "INIT_REQUEST r s = Done u t \<Longrightarrow> t = s \<and> MAJOR (r_dev (request s ! r)) = 3"
  by (auto simp: INIT_REQUEST_def panic_def split: if_splits option.splits)

lemma filter_update_less:
  "r < length xs \<Longrightarrow> P (xs ! r) \<Longrightarrow> \<not> P y \<Longrightarrow> length (filter P (xs[r := y])) < length (filter P xs)"
proof (induction xs arbitrary: r)
  case (Cons x xs)
  then show ?case by (cases r) auto
qed simp

function do_hd_request :: "'a blk_state_scheme \<Rightarrow> ('a blk_state_scheme, unit) outcome" where
  "do_hd_request s =
     (case CURRENT s of
        None \<Rightarrow> Done () s
      | Some r \<Rightarrow>
          if r \<ge> length (request s) then Halted (Undef ''CURRENT'') s
          else kbind (INIT_REQUEST r s) (\<lambda>_ s1.
            case hd_command r s1 of
              Some m \<Rightarrow> m
            | None \<Rightarrow> kbind (end_request 0 s1) (\<lambda>_ s2. do_hd_request s2)))"
  by pat_completeness auto
termination
proof (relation "measure live_requests")
  fix s :: "'a blk_state_scheme" and r u s1 s2 x
  assume a: "CURRENT s = Some r" "\<not> length (request s) \<le> r" "INIT_REQUEST r s = Done u s1"
    "end_request 0 s1 = Done x s2"
  from INIT_REQUEST_Done [OF a(3)] have s1: "s1 = s" "MAJOR (r_dev (request s ! r)) = 3" by simp_all
  have "request s2 = (request s)[r := (request s ! r)\<lparr>r_dev := -1\<rparr>]"
    using end_request_Done(1) [of 0 s x s2 r] a s1 by simp
  moreover have "MAJOR (-1) \<noteq> 3" by (simp add: MAJOR_def mask_eq_exp_minus_1)
  ultimately show "(s2, s) \<in> measure live_requests"
    using a(2) s1 by (simp add: live_requests_def filter_update_less)
qed simp

declare do_hd_request.simps [simp del]

definition bad_rw_inter :: "'a blk_state_scheme \<Rightarrow> ('a blk_state_scheme, unit) outcome" where
  "bad_rw_inter s =
     (case CURRENT s of
        None \<Rightarrow> Halted (Undef ''CURRENT'') s
      | Some r \<Rightarrow>
          let s1 = rupd r (\<lambda>q. q\<lparr>r_errors := r_errors q + 1\<rparr>) s
          in kbind (if sint (r_errors (request s1 ! r)) \<ge> MAX_ERRORS then end_request 0 s1 else Done () s1)
            (\<lambda>_ s2. case CURRENT s2 of
               None \<Rightarrow> Halted (Undef ''CURRENT'') s2
             | Some r' \<Rightarrow>
                 Done () (if sint (r_errors (request s2 ! r')) > MAX_ERRORS div 2 then s2\<lparr>reset := 1\<rparr> else s2)))"

definition read_intr :: "'a blk_state_scheme \<Rightarrow> ('a blk_state_scheme, unit) outcome" where
  "read_intr s =
     (case win_result s of (bad, s) \<Rightarrow>
        if bad \<noteq> 0 then kbind (bad_rw_inter s) (\<lambda>_ s. do_hd_request s)
        else case CURRENT s of
          None \<Rightarrow> Halted (Undef ''CURRENT'') s
        | Some r \<Rightarrow>
            let s = port_read HD_DATA (r_buffer (request s ! r)) 256 s;
                s = rupd r (\<lambda>q. q\<lparr>r_errors := 0\<rparr>) s;
                s = rupd r (\<lambda>q. q\<lparr>r_buffer := r_buffer q + 512\<rparr>) s;
                s = rupd r (\<lambda>q. q\<lparr>r_sector := r_sector q + 1\<rparr>) s;
                s = rupd r (\<lambda>q. q\<lparr>r_nr_sectors := r_nr_sectors q - 1\<rparr>) s
            in if r_nr_sectors (request s ! r) \<noteq> 0 then Done () (s\<lparr>do_hd := Some Read_intr\<rparr>)
               else kbind (end_request 1 s) (\<lambda>_ s. do_hd_request s))"

definition hd_init :: "'a blk_state_scheme \<Rightarrow> 'a blk_state_scheme" where
  "hd_init s =
     (let s = dupd MAJOR_HD (\<lambda>d. d\<lparr>request_fn := Some Do_hd_request\<rparr>) s
      in case inb 0x21 s of (v, s) \<Rightarrow>
         let s = outb (ucast (v AND 0xfb)) 0x21 s
         in case inb 0xA1 s of (v, s) \<Rightarrow> outb (ucast (v AND 0xbf)) 0xA1 s)"

section \<open>The request queue\<close>

text \<open>The key that \<open>IN_ORDER\<close> compares requests by, ordered as the macro orders them.\<close>

datatype request_key = Request_key (key_cmd: int) (key_dev: int) (key_sector: nat)

instantiation request_key :: linorder
begin

definition less_request_key :: "request_key \<Rightarrow> request_key \<Rightarrow> bool" where
  "less_request_key a b \<longleftrightarrow> key_cmd a < key_cmd b \<or> key_cmd a = key_cmd b \<and>
     (key_dev a < key_dev b \<or> key_dev a = key_dev b \<and> key_sector a < key_sector b)"

definition less_eq_request_key :: "request_key \<Rightarrow> request_key \<Rightarrow> bool" where
  "less_eq_request_key a b \<longleftrightarrow> a < b \<or> a = b"

instance
proof
  fix x y z :: request_key
  show "x < y \<longleftrightarrow> x \<le> y \<and> \<not> y \<le> x"
    by (cases x; cases y) (auto simp: less_request_key_def less_eq_request_key_def)
  show "x \<le> x" by (simp add: less_eq_request_key_def)
  show "x \<le> z" if "x \<le> y" "y \<le> z"
    using that by (cases x; cases y; cases z) (auto simp: less_request_key_def less_eq_request_key_def)
  show "x = y" if "x \<le> y" "y \<le> x"
    using that by (cases x; cases y) (auto simp: less_request_key_def less_eq_request_key_def)
  show "x \<le> y \<or> y \<le> x"
    by (cases x; cases y) (auto simp: less_request_key_def less_eq_request_key_def)
qed

end

definition key :: "request \<Rightarrow> request_key" where
  "key q = Request_key (sint (r_cmd q)) (sint (r_dev q)) (unat (r_sector q))"

definition IN_ORDER :: "request \<Rightarrow> request \<Rightarrow> bool" where
  "IN_ORDER s1 s2 \<longleftrightarrow> sint (r_cmd s1) < sint (r_cmd s2) \<or> r_cmd s1 = r_cmd s2 \<and>
     (sint (r_dev s1) < sint (r_dev s2) \<or> r_dev s1 = r_dev s2 \<and> r_sector s1 < r_sector s2)"

lemma IN_ORDER_key: "IN_ORDER a b \<longleftrightarrow> key a < key b"
  by (simp add: IN_ORDER_def key_def less_request_key_def word_less_nat_alt sint_inj)

text \<open>
  The loop of \<open>add_request\<close>: it walks the list from \<open>tmp\<close> to the place of insertion. A list
  of different requests has at most 32 of them; a longer walk goes round in a circle for ever.
\<close>

fun find_place :: "nat \<Rightarrow> request list \<Rightarrow> request \<Rightarrow> nat \<Rightarrow> nat option" where
  "find_place 0 rs req tmp = None"
| "find_place (Suc n) rs req tmp =
     (case r_next (rs ! tmp) of
        None \<Rightarrow> Some tmp
      | Some nx \<Rightarrow>
          if (IN_ORDER (rs ! tmp) req \<or> \<not> IN_ORDER (rs ! tmp) (rs ! nx)) \<and> IN_ORDER req (rs ! nx)
          then Some tmp else find_place n rs req nx)"

definition add_request :: "nat \<Rightarrow> nat \<Rightarrow> 'a blk_state_scheme \<Rightarrow> ('a blk_state_scheme, unit) outcome" where
  "add_request dev req s =
     (let s = rupd req (\<lambda>q. q\<lparr>r_next := None\<rparr>) s;
          s = (case r_bh (request s ! req) of
                 None \<Rightarrow> s | Some b \<Rightarrow> bupd b (\<lambda>h. h\<lparr>b_dirt := 0\<rparr>) s)
      in case current_request (blk_dev s ! dev) of
           None \<Rightarrow>
             let s = dupd dev (\<lambda>d. d\<lparr>current_request := Some req\<rparr>) s
             in (case request_fn (blk_dev s ! dev) of
                   None \<Rightarrow> Halted (Undef ''request_fn'') s
                 | Some Do_hd_request \<Rightarrow> do_hd_request s)
         | Some tmp \<Rightarrow>
             (case find_place NR_REQUEST (request s) (request s ! req) tmp of
                None \<Rightarrow> Blocked s
              | Some tmp \<Rightarrow>
                  let s = rupd req (\<lambda>q. q\<lparr>r_next := r_next (request s ! tmp)\<rparr>) s
                  in Done () (rupd tmp (\<lambda>q. q\<lparr>r_next := Some req\<rparr>) s)))"

text \<open>\<open>while (--req >= request) if (req->dev < 0) break;\<close>, from entry \<open>n\<close>.\<close>

primrec free_request :: "request list \<Rightarrow> nat \<Rightarrow> nat option" where
  "free_request rs 0 = None"
| "free_request rs (Suc n) = (if sint (r_dev (rs ! n)) < 0 then Some n else free_request rs n)"

text \<open>The loop at label \<open>repeat\<close> of \<open>make_request\<close>: wait until there is a free request.\<close>

function get_request :: "('a blk_state_scheme \<Rightarrow> 'a blk_state_scheme) \<Rightarrow> u32 \<Rightarrow> bool \<Rightarrow> nat
    \<Rightarrow> 'a blk_state_scheme \<Rightarrow> ('a blk_state_scheme, nat option) outcome" where
  "get_request env rw rw_ahead b s =
     (case free_request (request s) (if rw = READ then NR_REQUEST else NR_REQUEST * 2 div 3) of
        Some r \<Rightarrow> Done (Some r) s
      | None \<Rightarrow>
          if rw_ahead then Done None (unlock_buffer b s)
          else kbind (sleep_on env (Some Wait_for_request) s) (\<lambda>_ s1. get_request env rw rw_ahead b s1))"
  by pat_completeness auto
termination
  by (relation "measure (\<lambda>(env, rw, ra, b, s). patience s)") (auto dest: sleep_on_patience)

declare get_request.simps [simp del]

definition fill_request :: "nat \<Rightarrow> u32 \<Rightarrow> nat \<Rightarrow> 'a blk_state_scheme \<Rightarrow> 'a blk_state_scheme" where
  "fill_request r rw b s =
     (let h = bufs s b
      in (rupd r (\<lambda>q. \<lparr>r_dev = ucast (b_dev h), r_cmd = rw, r_errors = 0, r_sector = push_bit 1 (b_blocknr h),
            r_nr_sectors = 2, r_buffer = b_data h, r_bh = Some b, r_next = None\<rparr>) s)
         \<lparr>waitq := (waitq s)(Req_waiting r := 0)\<rparr>)"

text \<open>\<open>make_request\<close> from \<open>lock_buffer(bh)\<close> on, the command being READ or WRITE.\<close>

definition start_request :: "('a blk_state_scheme \<Rightarrow> 'a blk_state_scheme) \<Rightarrow> nat \<Rightarrow> u32 \<Rightarrow> bool \<Rightarrow> nat
    \<Rightarrow> 'a blk_state_scheme \<Rightarrow> ('a blk_state_scheme, unit) outcome" where
  "start_request env major rw rw_ahead b s =
     kbind (lock_buffer env b s) (\<lambda>_ s.
       if rw = WRITE \<and> b_dirt (bufs s b) = 0 \<or> rw = READ \<and> b_uptodate (bufs s b) \<noteq> 0
       then Done () (unlock_buffer b s)
       else kbind (get_request env rw rw_ahead b s) (\<lambda>found s.
         case found of
           None \<Rightarrow> Done () s
         | Some r \<Rightarrow> add_request major r (fill_request r rw b s)))"

definition make_request :: "('a blk_state_scheme \<Rightarrow> 'a blk_state_scheme) \<Rightarrow> nat \<Rightarrow> u32 \<Rightarrow> nat
    \<Rightarrow> 'a blk_state_scheme \<Rightarrow> ('a blk_state_scheme, unit) outcome" where
  "make_request env major rw b s =
     (let rw_ahead = (rw = READA \<or> rw = WRITEA)
      in if rw_ahead \<and> b_lock (bufs s b) \<noteq> 0 then Done () s
         else
           let rw = (if rw_ahead then (if rw = READA then READ else WRITE) else rw)
           in if rw \<noteq> READ \<and> rw \<noteq> WRITE then panic ''Bad block dev command, must be R/W/RA/WA'' s
              else start_request env major rw rw_ahead b s)"

definition ll_rw_block :: "('a blk_state_scheme \<Rightarrow> 'a blk_state_scheme) \<Rightarrow> u32 \<Rightarrow> nat
    \<Rightarrow> 'a blk_state_scheme \<Rightarrow> ('a blk_state_scheme, unit) outcome" where
  "ll_rw_block env rw b s =
     (let major = unat (MAJOR (ucast (b_dev (bufs s b))))
      in if major \<ge> NR_BLK_DEV \<or> request_fn (blk_dev s ! major) = None
         then Done () (printk ''Trying to read nonexistent block-device'' [] s)
         else make_request env major rw b s)"

definition blk_dev_init :: "'a blk_state_scheme \<Rightarrow> 'a blk_state_scheme" where
  "blk_dev_init s =
     fold (\<lambda>i s. rupd i (\<lambda>q. q\<lparr>r_dev := -1, r_next := None\<rparr>) s) [0..<NR_REQUEST] s"

section \<open>The elevator\<close>

text \<open>
  The queue of a device as a list: its head is the request in progress. \<open>elevator\<close> is the
  insertion of \<open>add_request\<close> on the keys of that list; \<open>turns\<close> counts where a list of
  keys does not ascend, which is where the disk arm starts a new sweep.
\<close>

fun elevator :: "'k :: linorder \<Rightarrow> 'k list \<Rightarrow> 'k list" where
  "elevator r [] = [r]"
| "elevator r [x] = [x, r]"
| "elevator r (x # y # zs) =
     (if (x < r \<or> \<not> x < y) \<and> r < y then x # r # y # zs else x # elevator r (y # zs))"

fun turns :: "'k :: linorder list \<Rightarrow> nat" where
  "turns (x # y # zs) = (if x < y then 0 else 1) + turns (y # zs)"
| "turns _ = 0"

lemma elevator_head: "\<exists>ys. elevator r (x # xs) = x # ys"
  by (cases xs) simp_all

lemma mset_elevator: "mset (elevator r xs) = add_mset r (mset xs)"
  by (induction r xs rule: elevator.induct) auto

lemma turns_Cons_elevator:
  "turns (x # elevator r (y # zs)) = (if x < y then 0 else 1) + turns (elevator r (y # zs))"
  using elevator_head [of r y zs] by auto

lemma turns_ascending: "turns (x # xs) = 0 \<Longrightarrow> x < r \<Longrightarrow> r \<notin> set xs \<Longrightarrow> turns (elevator r (x # xs)) = 0"
  by (induction xs arbitrary: x) (auto simp: turns_Cons_elevator split: if_splits)

lemma turns_elevator: "turns xs \<le> 1 \<Longrightarrow> r \<notin> set xs \<Longrightarrow> turns (elevator r xs) \<le> 1"
proof (induction r xs rule: elevator.induct)
  case (3 r x y zs)
  show ?case
  proof (cases "x < y")
    case True
    with 3 show ?thesis by (auto simp: turns_Cons_elevator)
  next
    case False
    with 3 have z: "turns (y # zs) = 0" by simp
    show ?thesis
    proof (cases "r < y")
      case True
      with False z show ?thesis by auto
    next
      case False
      with 3(3) have "y < r" "r \<notin> set zs" by auto
      with turns_ascending [OF z] False show ?thesis by (auto simp: turns_Cons_elevator)
    qed
  qed
qed auto

text \<open>The linked list of a device's requests.\<close>

primrec linked :: "request list \<Rightarrow> nat option \<Rightarrow> nat list \<Rightarrow> bool" where
  "linked rs p [] \<longleftrightarrow> p = None"
| "linked rs p (i # is) \<longleftrightarrow> p = Some i \<and> i < length rs \<and> linked rs (r_next (rs ! i)) is"

lemma linked_update [simp]: "r \<notin> set q \<Longrightarrow> linked (rs[r := x]) p q = linked rs p q"
  by (induction q arbitrary: p) auto

lemma linked_bound: "linked rs p q \<Longrightarrow> i \<in> set q \<Longrightarrow> i < length rs"
  by (induction q arbitrary: p) auto

definition key_at :: "request list \<Rightarrow> nat \<Rightarrow> request_key" where
  "key_at rs i = key (rs ! i)"

lemma find_place_linked:
  assumes "linked rs (Some t) (t # q)" "length q < n"
  shows "\<exists>p xs ys. find_place n rs req t = Some p \<and> t # q = xs @ p # ys \<and>
    elevator (key req) (map (key_at rs) (t # q)) = map (key_at rs) (xs @ [p]) @ key req # map (key_at rs) ys"
  using assms
proof (induction q arbitrary: t n)
  case Nil
  then show ?case by (cases n) (auto intro!: exI [of _ "[]"])
next
  case (Cons a q)
  from Cons.prems obtain m where n: "n = Suc m" and l: "linked rs (Some a) (a # q)" "length q < m"
    and nx: "r_next (rs ! t) = Some a"
    by (cases n) auto
  show ?case
  proof (cases "(IN_ORDER (rs ! t) req \<or> \<not> IN_ORDER (rs ! t) (rs ! a)) \<and> IN_ORDER req (rs ! a)")
    case True
    then show ?thesis
      by - (rule exI [of _ t], rule exI [of _ "[]"], rule exI [of _ "a # q"],
        auto simp: n nx IN_ORDER_key key_at_def)
  next
    case False
    from Cons.IH [OF l] obtain p xs ys where
      "find_place m rs req a = Some p" "a # q = xs @ p # ys"
      "elevator (key req) (map (key_at rs) (a # q)) = map (key_at rs) (xs @ [p]) @ key req # map (key_at rs) ys"
      by blast
    moreover from False have "elevator (key req) (map (key_at rs) (t # a # q)) =
        key_at rs t # elevator (key req) (map (key_at rs) (a # q))"
      by (auto simp: IN_ORDER_key key_at_def)
    moreover from False \<open>find_place m rs req a = Some p\<close> have "find_place n rs req t = Some p"
      by (auto simp: n nx)
    ultimately show ?thesis
      by - (rule exI [of _ p], rule exI [of _ "t # xs"], rule exI [of _ ys], simp)
  qed
qed

lemma linked_insert:
  assumes "linked rs st (xs @ p # ys)" "distinct (xs @ p # ys)" "r \<notin> set (xs @ p # ys)" "r < length rs"
  shows "linked ((rs[r := a\<lparr>r_next := r_next (rs ! p)\<rparr>])[p := (rs ! p)\<lparr>r_next := Some r\<rparr>]) st (xs @ p # r # ys)"
  using assms by (induction xs arbitrary: st) auto

text \<open>\<open>key\<close> does not look at the link.\<close>

lemma key_next [simp]: "key (q\<lparr>r_next := n\<rparr>) = key q"
  by (simp add: key_def)

lemma add_request_busy:
  assumes "linked (request s) (current_request (blk_dev s ! dev)) (c # q)" "distinct (c # q)" "length q < NR_REQUEST"
    and "r \<notin> set (c # q)" "r < length (request s)"
  shows "\<exists>t q'. add_request dev r s = Done () t \<and> blk_dev t = blk_dev s \<and>
    linked (request t) (Some c) (c # q') \<and> distinct (c # q') \<and> set (c # q') = insert r (set (c # q)) \<and>
    map (key_at (request t)) (c # q') =
      elevator (key_at (request s) r) (map (key_at (request s)) (c # q)) \<and>
    (\<forall>i. (request t ! i)\<lparr>r_next := None\<rparr> = (request s ! i)\<lparr>r_next := None\<rparr>)"
proof -
  let ?rs = "(request s)[r := (request s ! r)\<lparr>r_next := None\<rparr>]"
  let ?req = "(request s ! r)\<lparr>r_next := None\<rparr>"
  have rr: "?rs ! r = ?req" using assms(5) by simp
  have cur: "current_request (blk_dev s ! dev) = Some c" using assms(1) by simp
  have l: "linked ?rs (Some c) (c # q)" using assms(1,4) cur by auto
  from find_place_linked [OF l assms(3), of ?req] obtain p xs ys where
    f: "find_place NR_REQUEST ?rs ?req c = Some p" and cq: "c # q = xs @ p # ys"
    and e: "elevator (key ?req) (map (key_at ?rs) (c # q)) =
      map (key_at ?rs) (xs @ [p]) @ key ?req # map (key_at ?rs) ys"
    by blast
  have keys: "key_at ?rs i = key_at (request s) i" for i
    by (cases "i = r"; cases "r < length (request s)") (simp_all add: key_at_def list_update_beyond)
  have p: "p \<noteq> r" "p < length (request s)"
    using assms(4) linked_bound [OF l] unfolding cq by auto
  let ?rt = "(?rs[r := ?req\<lparr>r_next := r_next (?rs ! p)\<rparr>])[p := (?rs ! p)\<lparr>r_next := Some r\<rparr>]"
  have "\<exists>t. add_request dev r s = Done () t \<and> blk_dev t = blk_dev s \<and> request t = ?rt"
    using f p cur rr by (cases "r_bh (request s ! r)") (simp_all add: add_request_def Let_def)
  then obtain t where t: "add_request dev r s = Done () t" "blk_dev t = blk_dev s" "request t = ?rt"
    by blast
  have lt: "linked ?rt (Some c) (xs @ p # r # ys)"
    by (rule linked_insert) (use l cq assms(2,4,5) in simp_all)
  obtain q' where q': "xs @ p # r # ys = c # q'" using cq by (cases xs) auto
  have next_only: "(request t ! i)\<lparr>r_next := None\<rparr> = (request s ! i)\<lparr>r_next := None\<rparr>" for i
    using p assms(5) by (auto simp: t(3) nth_list_update)
  then have "key_at (request t) i = key_at (request s) i" for i
    unfolding key_at_def by (metis key_next)
  moreover have "key ?req = key_at (request s) r" by (simp add: key_at_def)
  ultimately have "map (key_at (request t)) (c # q') =
      elevator (key_at (request s) r) (map (key_at (request s)) (c # q))"
    using e by (simp add: q' [symmetric] keys [abs_def])
  moreover have "distinct (c # q')" "set (c # q') = insert r (set (c # q))"
    using assms(2,4) unfolding q' [symmetric] cq by auto
  moreover have "linked (request t) (Some c) (c # q')" using lt by (simp only: t(3) q')
  ultimately show ?thesis using t(1,2) next_only by blast
qed

section \<open>Choosing a request, finding the sector\<close>

lemma free_request_Some:
  "free_request rs n = Some r \<Longrightarrow> r < n \<and> sint (r_dev (rs ! r)) < 0 \<and> (\<forall>i. r < i \<and> i < n \<longrightarrow> 0 \<le> sint (r_dev (rs ! i)))"
  by (induction n) (auto split: if_splits simp: less_Suc_eq)

lemma get_request_Some:
  "get_request env rw rw_ahead b s = Done (Some r) t \<Longrightarrow>
     free_request (request t) (if rw = READ then NR_REQUEST else NR_REQUEST * 2 div 3) = Some r"
proof (induction env rw rw_ahead b s rule: get_request.induct)
  case (1 env rw rw_ahead b s)
  let ?f = "free_request (request s) (if rw = READ then NR_REQUEST else NR_REQUEST * 2 div 3)"
  show ?case
  proof (cases ?f)
    case (Some i)
    with 1(2) show ?thesis by (subst (asm) get_request.simps) simp
  next
    case None
    with 1(2) have na: "\<not> rw_ahead"
      and "kbind (sleep_on env (Some Wait_for_request) s) (\<lambda>_ s1. get_request env rw rw_ahead b s1) = Done (Some r) t"
      by (subst (asm) get_request.simps; simp split: if_splits)+
    then obtain x s1 where "sleep_on env (Some Wait_for_request) s = Done x s1"
      "get_request env rw rw_ahead b s1 = Done (Some r) t" by blast
    with 1(1) [OF None na] show ?thesis by simp
  qed
qed

lemma chs_Some:
  assumes "chs info block = Some (sec, hd_nr, cylinder)" "sect info < 0xffffffff"
  shows "unat block = (unat cylinder * unat (head info) + unat hd_nr) * unat (sect info) + (unat sec - 1)"
    and "1 \<le> unat sec" "unat sec \<le> unat (sect info)" "unat hd_nr < unat (head info)"
proof -
  from assms(1) have nz: "sect info \<noteq> 0" "head info \<noteq> 0"
    and d: "sec = block mod sect info + 1" "hd_nr = block div sect info mod head info"
      "cylinder = block div sect info div head info"
    by (auto simp: chs_def Let_def split: if_splits)
  have m: "unat (block mod sect info) < unat (sect info)" "0 < unat (head info)"
    using nz by (simp_all add: unat_mod unat_gt_0)
  moreover have "unat (sect info) < 2 ^ 32 - 1" using assms(2) by (simp add: word_less_nat_alt)
  ultimately have s: "unat sec = unat (block mod sect info) + 1"
    by (simp add: d(1) unat_word_ariths)
  with m show "1 \<le> unat sec" "unat sec \<le> unat (sect info)" by simp_all
  show "unat hd_nr < unat (head info)" using m(2) by (simp add: d(2) unat_mod)
  have "unat cylinder * unat (head info) + unat hd_nr = unat block div unat (sect info)"
    by (simp add: d unat_mod unat_div)
  then show "unat block = (unat cylinder * unat (head info) + unat hd_nr) * unat (sect info) + (unat sec - 1)"
    by (simp add: s unat_mod)
qed

section \<open>Sending a command\<close>

abbreviation (input) busy :: "u16 \<Rightarrow> bool" where
  "busy v \<equiv> (ucast v :: u8) AND 0x80 \<noteq> 0"

lemma busy_wait_ready:
  assumes "Suc k < n" "\<forall>j < k. busy (in_val s (in_time s + j) HD_STATUS)" "\<not> busy (in_val s (in_time s + k) HD_STATUS)"
  shows "busy_wait n s = (n - Suc k, s\<lparr>in_time := in_time s + k + 1\<rparr>)"
  using assms
proof (induction k arbitrary: n s)
  case 0
  then show ?case by (cases n) (simp_all add: inb_def)
next
  case (Suc k)
  then obtain m where n: "n = Suc m" "Suc k < m" by (cases n) auto
  have b: "busy (in_val s (in_time s) HD_STATUS)" using Suc.prems(2) by auto
  have "busy_wait m (s\<lparr>in_time := Suc (in_time s)\<rparr>) = (m - Suc k, s\<lparr>in_time := in_time s + Suc k + 1\<rparr>)"
  proof -
    have "\<forall>j < k. busy (in_val s (Suc (in_time s + j)) HD_STATUS)"
    proof (intro allI impI)
      fix j assume "j < k"
      then show "busy (in_val s (Suc (in_time s + j)) HD_STATUS)" using spec [OF Suc.prems(2), of "Suc j"] by simp
    qed
    then show ?thesis using Suc.IH [of m "s\<lparr>in_time := Suc (in_time s)\<rparr>"] n(2) Suc.prems(3) by simp
  qed
  then show ?case using n b by (simp add: inb_def)
qed

text \<open>The byte that carries the drive and the head.\<close>

lemma drive_head_byte:
  assumes "d \<le> 1" "h < 16"
  shows "ucast (0xA0 OR push_bit 4 (of_nat d) OR of_nat h :: u32) = (of_nat (0xA0 + 16 * d + h) :: u8)"
proof -
  have "h = 0 \<or> h = 1 \<or> h = 2 \<or> h = 3 \<or> h = 4 \<or> h = 5 \<or> h = 6 \<or> h = 7 \<or> h = 8 \<or> h = 9 \<or> h = 10 \<or> h = 11 \<or>
    h = 12 \<or> h = 13 \<or> h = 14 \<or> h = 15" using assms(2) by arith
  moreover have "d = 0 \<or> d = 1" using assms(1) by arith
  ultimately show ?thesis by (elim disjE) simp_all
qed

lemma chs_place:
  assumes "n = unat block" "unat (sect info) \<le> 255" "n < unat (head info) * unat (sect info) * unat (cyl info)"
  obtains sec hd_nr c where "chs info block = Some (of_nat sec, of_nat hd_nr, of_nat c)"
    "1 \<le> sec" "sec \<le> unat (sect info)" "hd_nr < unat (head info)" "c < unat (cyl info)"
    "n = (c * unat (head info) + hd_nr) * unat (sect info) + (sec - 1)"
proof -
  have nz: "sect info \<noteq> 0" "head info \<noteq> 0" using assms(3) by auto
  then have "chs info block = Some (block mod sect info + 1, block div sect info mod head info, block div sect info div head info)"
    by (simp add: chs_def Let_def)
  then obtain a b c where abc: "chs info block = Some (a, b, c)" by blast
  have "sect info < 0xffffffff" using assms(2) by (simp add: word_less_nat_alt)
  note s = chs_Some [OF abc this]
  have "unat c * (unat (head info) * unat (sect info)) \<le> n"
    unfolding assms(1) s(1) by (simp add: algebra_simps)
  also have "\<dots> < unat (cyl info) * (unat (head info) * unat (sect info))" using assms(3) by (simp add: ac_simps)
  finally have "unat c < unat (cyl info)" by simp
  then show thesis using that [of "unat a" "unat b" "unat c"] abc s assms(1) by simp
qed

section \<open>Reading a block\<close>

lemma port_read_simps [simp]:
  "request (port_read p a n s) = request s" "blk_dev (port_read p a n s) = blk_dev s"
  "bufs (port_read p a n s) = bufs s" "in_val (port_read p a n s) = in_val s"
  "in_time (port_read p a n s) = in_time s + n" "waitq (port_read p a n s) = waitq s"
  by (simp_all add: port_read_def)

lemma upd_io_simps [simp]:
  "in_val (bupd b f s) = in_val s" "in_time (bupd b f s) = in_time s" "bmem (bupd b f s) = bmem s"
  "in_val (rupd r g s) = in_val s" "in_time (rupd r g s) = in_time s" "bmem (rupd r g s) = bmem s"
  "in_val (dupd d h s) = in_val s" "in_time (dupd d h s) = in_time s" "bmem (dupd d h s) = bmem s"
  "bmem (wake_up q s) = bmem s" "bmem (printk m a s) = bmem s" "bmem (unlock_buffer b s) = bmem s"
  "bmem (hd_unlock_buffer b s) = bmem s"
  by (simp_all add: bupd_def rupd_def dupd_def wake_up_def printk_def unlock_buffer_def hd_unlock_buffer_def tupd_def Let_def
      split: option.split)

definition good_status :: "u16 \<Rightarrow> bool" where
  "good_status v \<longleftrightarrow> ucast v AND (0xf1 :: u8) = 0x50"

lemma win_result_good:
  "good_status (in_val s (in_time s) HD_STATUS) \<Longrightarrow> win_result s = (0, s\<lparr>in_time := Suc (in_time s)\<rparr>)"
  by (simp add: win_result_def inb_def good_status_def)

lemma bmem_port_read:
  assumes "i < 2 ^ 32"
  shows "bmem (port_read p a n s) (a + of_nat i) =
    (if i < 2 * n then (let w = in_val s (in_time s + i div 2) p
       in if even i then ucast w else ucast (drop_bit 8 w)) else bmem s (a + of_nat i))"
  using assms by (simp add: port_read_def unat_of_nat_u32 Let_def)

text \<open>Byte \<open>i\<close> of a block that comes in two bursts of 256 words, a status byte before each.\<close>

definition disk_byte :: "'a blk_state_scheme \<Rightarrow> nat \<Rightarrow> u8" where
  "disk_byte s i =
     (let w = in_val s (in_time s + 1 + i div 2 + (if i < 512 then 0 else 1)) HD_DATA
      in if even i then ucast w else ucast (drop_bit 8 w))"

lemma read_intr_first:
  assumes "CURRENT s = Some r" "r < length (request s)" "good_status (in_val s (in_time s) HD_STATUS)"
    and "r_nr_sectors (request s ! r) \<noteq> 1"
  shows "read_intr s = Done () ((rupd r (\<lambda>q. q\<lparr>r_errors := 0, r_buffer := r_buffer q + 512,
      r_sector := r_sector q + 1, r_nr_sectors := r_nr_sectors q - 1\<rparr>)
    (port_read HD_DATA (r_buffer (request s ! r)) 256 (s\<lparr>in_time := Suc (in_time s)\<rparr>)))\<lparr>do_hd := Some Read_intr\<rparr>)"
  using assms
  by (simp add: read_intr_def win_result_good Let_def)
    (simp add: rupd_def)

text \<open>Waking a queue, seen from the task structures: the task at its head becomes runnable.\<close>

lemma wake_up_waitq: "waitq (wake_up (Some q) s) = (waitq s)(q := 0)"
  by (simp add: wake_up_def Let_def tupd_def fun_eq_iff)

lemma wake_up_tmem: "tmem (wake_up (Some q) s) p =
    (if p = waitq s q \<and> p \<noteq> 0 then (tmem s p)\<lparr>t_state := TASK_RUNNING\<rparr> else tmem s p)"
  by (simp add: wake_up_def Let_def tupd_def)

text \<open>The state after a request is ended well: \<open>woken\<close> are the tasks that waited.\<close>

definition ended :: "nat \<Rightarrow> nat \<Rightarrow> 'a blk_state_scheme \<Rightarrow> 'a blk_state_scheme \<Rightarrow> bool" where
  "ended r b s t \<longleftrightarrow>
     bufs t = (bufs s)(b := (bufs s b)\<lparr>b_uptodate := 1, b_lock := 0\<rparr>) \<and>
     request t = (request s)[r := (request s ! r)\<lparr>r_dev := -1\<rparr>] \<and>
     blk_dev t = (blk_dev s)[3 := (blk_dev s ! 3)\<lparr>current_request := r_next (request s ! r)\<rparr>] \<and>
     outs t = outs s \<and> waitq t = (waitq s)(B_wait b := 0, Req_waiting r := 0, Wait_for_request := 0) \<and>
     (\<forall>p. tmem t p = (if p \<noteq> 0 \<and> p \<in> {waitq s (B_wait b), waitq s (Req_waiting r), waitq s Wait_for_request}
       then (tmem s p)\<lparr>t_state := TASK_RUNNING\<rparr> else tmem s p))"

lemma end_request_ok:
  assumes "CURRENT s = Some r" "r_bh (request s ! r) = Some b"
  shows "\<exists>t. end_request 1 s = Done () t \<and> bmem t = bmem s \<and> ended r b s t"
proof -
  have k: "waitq (bupd b f u) = waitq u" "tmem (bupd b f u) = tmem u" "waitq (rupd r g u) = waitq u" "tmem (rupd r g u) = tmem u"
    "waitq (dupd d h u) = waitq u" "tmem (dupd d h u) = tmem u" "waitq (printk x y u) = waitq u" "tmem (printk x y u) = tmem u"
    "outs (bupd b f u) = outs u" "outs (rupd r g u) = outs u" "outs (dupd d h u) = outs u" "outs (wake_up (Some w) u) = outs u"
    for f g h d x y w and u :: "'a blk_state_scheme" by (simp_all add: bupd_def rupd_def dupd_def printk_def wake_up_def tupd_def Let_def)
  let ?u = "hd_unlock_buffer b (bupd b (\<lambda>h. h\<lparr>b_uptodate := 1\<rparr>) s)"
  have u: "waitq ?u = (waitq s)(B_wait b := 0)" "outs ?u = outs s"
    "tmem ?u p = (if p = waitq s (B_wait b) \<and> p \<noteq> 0 then (tmem s p)\<lparr>t_state := TASK_RUNNING\<rparr> else tmem s p)" for p
    by (simp_all add: hd_unlock_buffer_def Let_def wake_up_waitq wake_up_tmem k if_distrib [of waitq] if_distrib [of tmem] printk_def cong: if_cong)
  show ?thesis
    using assms by (cases "r < length (request s)")
      (auto simp: end_request_def Let_def list_update_beyond ended_def wake_up_waitq wake_up_tmem k u)
qed

lemma read_intr_last:
  assumes "CURRENT s = Some r" "r < length (request s)" "good_status (in_val s (in_time s) HD_STATUS)"
    and "r_nr_sectors (request s ! r) = 1" "r_bh (request s ! r) = Some b"
    and "v = rupd r (\<lambda>q. q\<lparr>r_errors := 0, r_buffer := r_buffer q + 512, r_sector := r_sector q + 1,
      r_nr_sectors := 0\<rparr>) (port_read HD_DATA (r_buffer (request s ! r)) 256 (s\<lparr>in_time := Suc (in_time s)\<rparr>))"
  shows "\<exists>t. read_intr s = do_hd_request t \<and> bmem t = bmem v \<and> ended r b v t"
proof -
  have "CURRENT v = Some r" "r_bh (request v ! r) = Some b" using assms by simp_all
  from end_request_ok [OF this] obtain t where t: "end_request 1 v = Done () t" "bmem t = bmem v" "ended r b v t"
    by blast
  have "read_intr s = kbind (end_request 1 v) (\<lambda>_ s. do_hd_request s)"
    using assms(1-5) unfolding assms(6) by (simp add: read_intr_def win_result_good Let_def) (simp add: rupd_def)
  with t show ?thesis by auto
qed

lemma bmem_port_read_other: "2 * n \<le> unat (x - a) \<Longrightarrow> bmem (port_read p a n s) x = bmem s x"
  by (simp add: port_read_def Let_def)

text \<open>Both interrupts of a block.\<close>

lemma two_sectors_come:
  assumes "CURRENT s = Some r" "r < length (request s)" "3 < length (blk_dev s)"
    and "good_status (in_val s (in_time s) HD_STATUS)" "good_status (in_val s (in_time s + 257) HD_STATUS)"
    and "r_nr_sectors (request s ! r) = 2" "r_bh (request s ! r) = Some b" "buf = r_buffer (request s ! r)"
  shows "\<exists>s1 t. read_intr s = Done () s1 \<and> do_hd s1 = Some Read_intr \<and> bufs s1 = bufs s \<and>
    read_intr s1 = do_hd_request t \<and> CURRENT t = r_next (request s ! r) \<and>
    (CURRENT t = None \<longrightarrow> read_intr s1 = Done () t) \<and>
    r_dev (request t ! r) = -1 \<and> (\<forall>i. i \<noteq> r \<longrightarrow> request t ! i = request s ! i) \<and>
    outs t = outs s \<and> (\<forall>i < 1024. bmem t (buf + of_nat i) = disk_byte s i) \<and>
    (\<forall>a. 1024 \<le> unat (a - buf) \<longrightarrow> bmem t a = bmem s a) \<and>
    bufs t = (bufs s)(b := (bufs s b)\<lparr>b_uptodate := 1, b_lock := 0\<rparr>) \<and>
    waitq t = (waitq s)(B_wait b := 0, Req_waiting r := 0, Wait_for_request := 0) \<and>
    (\<forall>p. tmem t p = (if p \<noteq> 0 \<and> p \<in> {waitq s (B_wait b), waitq s (Req_waiting r), waitq s Wait_for_request}
      then (tmem s p)\<lparr>t_state := TASK_RUNNING\<rparr> else tmem s p))"
proof -
  let ?p = "port_read HD_DATA buf 256 (s\<lparr>in_time := Suc (in_time s)\<rparr>)"
  let ?s1 = "(rupd r (\<lambda>q. q\<lparr>r_errors := 0, r_buffer := r_buffer q + 512, r_sector := r_sector q + 1,
      r_nr_sectors := r_nr_sectors q - 1\<rparr>) ?p)\<lparr>do_hd := Some Read_intr\<rparr>"
  have one: "read_intr s = Done () ?s1" unfolding assms(8) by (rule read_intr_first) (use assms in simp_all)
  let ?v = "rupd r (\<lambda>q. q\<lparr>r_errors := 0, r_buffer := r_buffer q + 512, r_sector := r_sector q + 1,
      r_nr_sectors := 0\<rparr>) (port_read HD_DATA (r_buffer (request ?s1 ! r)) 256 (?s1\<lparr>in_time := Suc (in_time ?s1)\<rparr>))"
  have "\<exists>t. read_intr ?s1 = do_hd_request t \<and> bmem t = bmem ?v \<and> ended r b ?v t"
    by (rule read_intr_last [OF _ _ _ _ _ refl]) (use assms in \<open>simp_all add: add.commute [of 257]\<close>)
  then obtain t where t: "read_intr ?s1 = do_hd_request t" "bmem t = bmem ?v" "ended r b ?v t" by blast
  have keep: "waitq ?v = waitq s" "outs ?v = outs s" "tmem ?v = tmem s" "bufs ?v = bufs s" "blk_dev ?v = blk_dev s"
    "r_next (request ?v ! r) = r_next (request s ! r)" "i \<noteq> r \<Longrightarrow> request ?v ! i = request s ! i" for i
    using assms(2) by (simp_all add: rupd_def port_read_def)
  have mem: "bmem t = bmem (port_read HD_DATA (buf + 512) 256 (?s1\<lparr>in_time := Suc (in_time ?s1)\<rparr>))"
    using t(2) assms(2) by (simp add: assms(8))
  have data: "bmem t (buf + of_nat i) = disk_byte s i" if i: "i < 1024" for i
  proof (cases "i < 512")
    case True
    have "unat (buf + of_nat i - (buf + 512)) = 2 ^ 32 + i - 512"
    proof -
      have "buf + of_nat i - (buf + 512) = of_nat (2 ^ 32 + i - 512)" using True by simp
      then show ?thesis using True by (simp only:) (rule unat_of_nat_u32, simp)
    qed
    then have "bmem t (buf + of_nat i) = bmem ?p (buf + of_nat i)"
      by (simp add: mem port_read_def [of _ "buf + 512"])
    with True show ?thesis by (simp add: bmem_port_read disk_byte_def Let_def)
  next
    case False
    then obtain j where j: "i = 512 + j" "j < 512" using i le_Suc_ex [of 512 i] by auto
    then have "buf + of_nat i = (buf + 512) + of_nat j" by simp
    moreover have "bmem t ((buf + 512) + of_nat j) = (let w = in_val s (in_time s + 258 + j div 2) HD_DATA
        in if even j then ucast w else ucast (drop_bit 8 w))"
      using j by (simp only: mem) (subst bmem_port_read; simp add: Let_def add.commute [of "in_time s" 258])
    moreover have "in_time s + 258 + j div 2 = in_time s + 1 + i div 2 + 1" "even j \<longleftrightarrow> even i" "\<not> i < 512"
      using j by auto
    ultimately show ?thesis by (simp only: disk_byte_def if_False)
  qed
  have other: "bmem t a = bmem s a" if "1024 \<le> unat (a - buf)" for a
  proof -
    have "512 \<le> a - buf" using that by (simp add: word_le_nat_alt)
    then have "unat (a - buf - 512) = unat (a - buf) - 512" by (simp add: unat_sub)
    moreover have "a - (buf + 512) = a - buf - 512" by simp
    ultimately have "unat (a - (buf + 512)) = unat (a - buf) - 512" by (simp only:)
    with that have far: "2 * 256 \<le> unat (a - (buf + 512))" "2 * 256 \<le> unat (a - buf)" by linarith+
    show ?thesis unfolding mem bmem_port_read_other [OF far(1)] using bmem_port_read_other [OF far(2), of HD_DATA "s\<lparr>in_time := Suc (in_time s)\<rparr>"] by simp
  qed
  show ?thesis
    by (rule exI [of _ ?s1], rule exI [of _ t])
      (use one t(1,3) keep data other assms(2,3) in \<open>simp add: ended_def do_hd_request.simps [of t]\<close>)
qed

text \<open>A read request, sent to the controller.\<close>

lemma do_hd_request_sends:
  assumes "CURRENT s = Some r" "r < length (request s)" "q = request s ! r" "MAJOR (r_dev q) = 3" "r_cmd q = READ"
    and "\<forall>b. r_bh q = Some b \<longrightarrow> b_lock (bufs s b) \<noteq> 0"
    and "m = unat (MINOR (r_dev q))" "m < 5 * NR_HD s" "NR_HD s \<le> 2" "part = hd_parts s ! m" "disk = hd_info s ! (m div 5)"
    and "unat (r_sector q) + 2 \<le> unat (nr_sects part)"
    and "unat (start_sect part) + unat (nr_sects part) \<le> unat (head disk) * unat (sect disk) * unat (cyl disk)"
    and "unat (head disk) \<le> 16" "unat (sect disk) \<le> 255" "unat (cyl disk) \<le> 65536"
    and "k < 99999" "\<forall>j < k. busy (in_val s (in_time s + j) HD_STATUS)" "\<not> busy (in_val s (in_time s + k) HD_STATUS)"
  shows "\<exists>sec hd_nr c. do_hd_request s = Done () (s\<lparr>do_hd := Some Read_intr, in_time := in_time s + k + 1,
      outs := outs s @ [(0x3f6, ucast (ctl disk)), (0x1f1, ucast (signed_drop_bit 2 (wpcom disk))),
        (0x1f2, ucast (r_nr_sectors q)), (0x1f3, of_nat sec), (0x1f4, of_nat c), (0x1f5, of_nat (c div 256)),
        (0x1f6, of_nat (0xA0 + 16 * (m div 5) + hd_nr)), (0x1f7, 0x20)]\<rparr>) \<and>
    1 \<le> sec \<and> sec \<le> unat (sect disk) \<and> hd_nr < unat (head disk) \<and> c < unat (cyl disk) \<and>
    unat (start_sect part) + unat (r_sector q) = (c * unat (head disk) + hd_nr) * unat (sect disk) + (sec - 1)"
proof -
  let ?n = "unat (start_sect part) + unat (r_sector q)" and ?d = "m div 5"
  have n: "?n < unat (head disk) * unat (sect disk) * unat (cyl disk)" using assms(12,13) by linarith
  have "unat (head disk) * unat (sect disk) * unat (cyl disk) \<le> 16 * 255 * 65536"
    using assms(14-16) by (intro mult_le_mono) simp_all
  moreover have "(16 * 255 * 65536 :: nat) < 2 ^ LENGTH(32)" by simp
  ultimately have "unat (r_sector q) + unat (start_sect part) < 2 ^ LENGTH(32)" using n by linarith
  then have u: "?n = unat (r_sector q + start_sect part)" unfolding unat_add_lem by simp
  obtain sec hd_nr c where place: "chs disk (r_sector q + start_sect part) = Some (of_nat sec, of_nat hd_nr, of_nat c)"
    "1 \<le> sec" "sec \<le> unat (sect disk)" "hd_nr < unat (head disk)" "c < unat (cyl disk)"
    "?n = (c * unat (head disk) + hd_nr) * unat (sect disk) + (sec - 1)"
    by (rule chs_place [OF u assms(15) n])
  have "m < 10" using assms(8,9) by simp
  then have d: "?d \<le> 1" "of_nat ?d \<le> (1 :: u32)" by (auto simp: word_le_nat_alt unat_of_nat take_bit_eq_mod)
  have h: "hd_nr < 16" using place(4) assms(14) by simp
  then have h15: "\<not> of_nat hd_nr > (15 :: u32)" by (simp add: word_less_nat_alt unat_of_nat take_bit_eq_mod)
  have "unat (nr_sects part) < 2 ^ LENGTH(32)" by (rule unsigned_less)
  then have "unat (r_sector q) + unat (2 :: u32) < 2 ^ LENGTH(32)" using assms(12) by simp
  then have "unat (r_sector q + 2) = unat (r_sector q) + 2" unfolding unat_add_lem by simp
  then have inside: "\<not> r_sector q + 2 > nr_sects part" using assms(12) by (simp add: word_less_nat_alt)
  have dev: "MINOR (r_dev q) = of_nat m" by (simp add: assms(7))
  have "m = 0 \<or> m = 1 \<or> m = 2 \<or> m = 3 \<or> m = 4 \<or> m = 5 \<or> m = 6 \<or> m = 7 \<or> m = 8 \<or> m = 9"
    using \<open>m < 10\<close> by arith
  then have md: "MINOR (r_dev q) div 5 = of_nat ?d" "unat (of_nat ?d :: u32) = ?d" unfolding dev by (elim disjE; simp)+
  have c32: "sec < 2 ^ 32" "c < 2 ^ 32" using place(3,5) assms(15,16) by simp_all
  have "drop_bit 8 (of_nat c :: u32) = of_nat (c div 256)"
    using c32(2) by (simp add: word_unat_eq_iff unat_div unat_of_nat take_bit_eq_mod drop_bit_eq_div)
  then have bytes: "ucast (of_nat c :: u32) = (of_nat c :: u8)" "ucast (drop_bit 8 (of_nat c :: u32)) = (of_nat (c div 256) :: u8)"
    "ucast (of_nat sec :: u32) = (of_nat sec :: u8)"
    using c32 by (simp_all add: unsigned_of_nat take_bit_nat_eq_self)
  have cmd: "hd_command r s = Some (hd_out (of_nat ?d) (r_nr_sectors q) (of_nat sec) (of_nat hd_nr) (of_nat c) WIN_READ Read_intr s)"
    using inside assms(7,8) unfolding hd_command_def Let_def assms(3) [symmetric] assms(7) [symmetric] assms(10) [symmetric] md assms(11) [symmetric] place(1)
    by (simp add: assms(5))
  have out: "hd_out (of_nat ?d) (r_nr_sectors q) (of_nat sec) (of_nat hd_nr) (of_nat c) WIN_READ Read_intr s =
    Done () (s\<lparr>do_hd := Some Read_intr, in_time := in_time s + k + 1,
      outs := outs s @ [(0x3f6, ucast (ctl disk)), (0x1f1, ucast (signed_drop_bit 2 (wpcom disk))),
        (0x1f2, ucast (r_nr_sectors q)), (0x1f3, of_nat sec), (0x1f4, of_nat c), (0x1f5, of_nat (c div 256)),
        (0x1f6, of_nat (0xA0 + 16 * ?d + hd_nr)), (0x1f7, 0x20)]\<rparr>)"
  proof -
    have "Suc k < 100000" using assms(17) by simp
    note ready = busy_wait_ready [OF this assms(18,19)]
    have "\<not> of_nat ?d > (1 :: u32)" "100000 - Suc k \<noteq> 0" using d(2) assms(17) by simp_all
    then show ?thesis
      unfolding hd_out_def controller_ready_def ready prod.case Let_def md(2) assms(11) [symmetric]
      using h15 by (simp add: outb_def assms(11) [symmetric] bytes drive_head_byte [OF d(1) h, simplified])
  qed
  have "INIT_REQUEST r s = Done () s"
    using assms(4,6) by (simp add: INIT_REQUEST_def assms(3) [symmetric] split: option.split)
  then have "do_hd_request s = hd_out (of_nat ?d) (r_nr_sectors q) (of_nat sec) (of_nat hd_nr) (of_nat c) WIN_READ Read_intr s"
    using assms(1,2) cmd by (subst do_hd_request.simps) simp
  then show ?thesis using out place(2-6) by (intro exI [of _ sec] exI [of _ hd_nr] exI [of _ c]) simp
qed

section \<open>Properties\<close>

text \<open>A disk of 4 heads, 17 sectors and 600 cylinders with one partition, and an idle driver.\<close>

definition disk_info :: hd_i_struct where
  "disk_info = \<lparr>head = 4, sect = 17, cyl = 600, wpcom = 0, lzone = 0, ctl = 0\<rparr>"

definition blk_boot :: blk_state where
  "blk_boot = mm_state.extend mm_boot (blk_state.fields
     (\<lambda>i. \<lparr>b_data = 1024 * of_nat i, b_blocknr = of_nat i, b_dev = 0x301, b_uptodate = 0, b_dirt = 0, b_count = 1,
        b_lock = 1, b_prev = None, b_next = None, b_prev_free = None, b_next_free = None\<rparr>)
     (\<lambda>_. 0)
     (map (\<lambda>i. \<lparr>r_dev = -1, r_cmd = READ, r_errors = 0, r_sector = 2 * of_nat i, r_nr_sectors = 2,
        r_buffer = 1024 * of_nat i, r_bh = Some i, r_next = None\<rparr>) [0..<NR_REQUEST])
     ((replicate NR_BLK_DEV \<lparr>request_fn = None, current_request = None\<rparr>)
        [3 := \<lparr>request_fn = Some Do_hd_request, current_request = None\<rparr>])
     None 0 0 [disk_info, disk_info] 1 ((replicate 10 \<lparr>start_sect = 0, nr_sects = 0\<rparr>)[1 := \<lparr>start_sect = 1, nr_sects = 40000\<rparr>])
     True (\<lambda>_ _. 0x50) 0 [])"

lemma blk_boot_simps [simp]:
  "request blk_boot = map (\<lambda>i. \<lparr>r_dev = -1, r_cmd = READ, r_errors = 0, r_sector = 2 * of_nat i, r_nr_sectors = 2,
        r_buffer = 1024 * of_nat i, r_bh = Some i, r_next = None\<rparr>) [0..<NR_REQUEST]"
  "blk_dev blk_boot = (replicate NR_BLK_DEV \<lparr>request_fn = None, current_request = None\<rparr>)
        [3 := \<lparr>request_fn = Some Do_hd_request, current_request = None\<rparr>]"
  "in_val blk_boot = (\<lambda>_ _. 0x50)" "in_time blk_boot = 0" "b_lock (bufs blk_boot b) = 1"
  by (simp_all add: blk_boot_def mm_state.extend_def blk_state.fields_def)

text \<open>C5: add_request inserts into the queue of a busy device as the elevator does: the request in
  progress stays at the head, every queued request stays queued, only links change, and the keys
  by which requests are ordered (reads before writes, then device, then sector) are those
  of the list insertion elevator.\<close>

theorem add_request_is_elevator:
  assumes "linked (request s) (current_request (blk_dev s ! dev)) (c # q)" "distinct (c # q)" "length q < NR_REQUEST"
    and "r \<notin> set (c # q)" "r < length (request s)"
  shows "\<exists>t q'. add_request dev r s = Done () t \<and> blk_dev t = blk_dev s \<and>
    linked (request t) (Some c) (c # q') \<and> distinct (c # q') \<and> set (c # q') = insert r (set (c # q)) \<and>
    map (key_at (request t)) (c # q') =
      elevator (key_at (request s) r) (map (key_at (request s)) (c # q)) \<and>
    (\<forall>i. (request t ! i)\<lparr>r_next := None\<rparr> = (request s ! i)\<lparr>r_next := None\<rparr>)"
  using assms by (rule add_request_busy)

theorem add_request_is_elevator_witness:
  "\<exists>t q'. add_request 3 7 (dupd 3 (\<lambda>d. d\<lparr>current_request := Some 5\<rparr>) blk_boot) = Done () t \<and>
     linked (request t) (Some 5) (5 # q') \<and> set (5 # q') = {5, 7}"
proof -
  let ?s = "dupd 3 (\<lambda>d. d\<lparr>current_request := Some 5\<rparr>) blk_boot"
  have l: "linked (request ?s) (current_request (blk_dev ?s ! 3)) [5]" by simp
  have "\<exists>t q'. add_request 3 7 ?s = Done () t \<and> blk_dev t = blk_dev ?s \<and>
    linked (request t) (Some 5) (5 # q') \<and> distinct (5 # q') \<and> set (5 # q') = insert 7 (set [5]) \<and>
    map (key_at (request t)) (5 # q') = elevator (key_at (request ?s) 7) (map (key_at (request ?s)) [5]) \<and>
    (\<forall>i. (request t ! i)\<lparr>r_next := None\<rparr> = (request ?s ! i)\<lparr>r_next := None\<rparr>)"
    by (rule add_request_is_elevator [OF l]) simp_all
  then show ?thesis by (auto simp: insert_commute)
qed

text \<open>The elevator sweeps: in the queue add_request leaves, the keys ascend except in at most one
  place, if they did so before and no queued request has the key of the new one. So the disk arm
  finishes its sweep and turns back once.\<close>

theorem elevator_sweeps_once:
  assumes "linked (request s) (current_request (blk_dev s ! dev)) (c # q)" "distinct (c # q)" "length q < NR_REQUEST"
    and "r \<notin> set (c # q)" "r < length (request s)"
    and "turns (map (key_at (request s)) (c # q)) \<le> 1"
    and "key_at (request s) r \<notin> key_at (request s) ` set (c # q)"
  shows "\<exists>t q'. add_request dev r s = Done () t \<and> linked (request t) (Some c) (c # q') \<and>
    mset (map (key_at (request t)) (c # q')) =
      add_mset (key_at (request s) r) (mset (map (key_at (request s)) (c # q))) \<and>
    turns (map (key_at (request t)) (c # q')) \<le> 1"
proof -
  from add_request_busy [OF assms(1-5)] obtain t q' where t: "add_request dev r s = Done () t"
    "linked (request t) (Some c) (c # q')"
    "map (key_at (request t)) (c # q') = elevator (key_at (request s) r) (map (key_at (request s)) (c # q))"
    by blast
  have "turns (elevator (key_at (request s) r) (map (key_at (request s)) (c # q))) \<le> 1"
    using turns_elevator [OF assms(6)] assms(7) by (simp only: set_map not_False_eq_True)
  with t show ?thesis by (metis mset_elevator)
qed

theorem elevator_sweeps_once_witness:
  "\<exists>t q'. add_request 3 7 (dupd 3 (\<lambda>d. d\<lparr>current_request := Some 5\<rparr>) blk_boot) = Done () t \<and>
     linked (request t) (Some 5) (5 # q') \<and> turns (map (key_at (request t)) (5 # q')) \<le> 1"
proof -
  let ?s = "dupd 3 (\<lambda>d. d\<lparr>current_request := Some 5\<rparr>) blk_boot"
  have l: "linked (request ?s) (current_request (blk_dev ?s ! 3)) [5]" by simp
  have "key_at (request ?s) 7 \<noteq> key_at (request ?s) 5" by (simp add: key_at_def key_def)
  then have "\<exists>t q'. add_request 3 7 ?s = Done () t \<and> linked (request t) (Some 5) (5 # q') \<and>
    mset (map (key_at (request t)) (5 # q')) = add_mset (key_at (request ?s) 7) (mset (map (key_at (request ?s)) [5])) \<and>
    turns (map (key_at (request t)) (5 # q')) \<le> 1"
    by (intro elevator_sweeps_once [OF l]) simp_all
  then show ?thesis by blast
qed

text \<open>The request that make_request waits for is a free one, and for a write it lies in the first
  two thirds of the table: the last third is kept for reads.\<close>

theorem get_request_reserves:
  assumes "get_request env rw rw_ahead b s = Done (Some r) t"
  shows "sint (r_dev (request t ! r)) < 0 \<and> r < NR_REQUEST \<and> (rw \<noteq> READ \<longrightarrow> r < 21)"
  using free_request_Some [OF get_request_Some [OF assms]] by (auto split: if_splits)

theorem get_request_reserves_witness:
  "\<exists>r t. get_request (\<lambda>s. s) WRITE False 0 blk_boot = Done (Some r) t \<and> r < 21"
proof -
  have "free_request (request blk_boot) 21 = Some 20"
    by (simp add: eval_nat_numeral)
  then have "get_request (\<lambda>s. s) WRITE False 0 blk_boot = Done (Some 20) blk_boot"
    by (simp add: get_request.simps)
  from this get_request_reserves [OF this] show ?thesis by auto
qed

text \<open>C39: a read request at the head of the queue, its buffer locked, inside its partition, on a disk of at most 16 heads, 255 sectors and
  65536 cylinders that holds the partition, is sent to the controller as soon as this is ready (in fewer than
  99999 polls): the eight bytes written, in order, are the control byte, a quarter of the precompensation
  cylinder, the number of sectors, the sector in track (from 1), the low and the high half of the cylinder, the
  drive with the head, and the command. Sector, head and cylinder are in the range of the disk, and the place
  they denote is the absolute sector the request asks for, the first of its partition plus its sector
  number. The next interrupt is read_intr's, and nothing else changes.\<close>

theorem read_command_denotes_sector:
  assumes "CURRENT s = Some r" "r < length (request s)" "q = request s ! r" "MAJOR (r_dev q) = 3" "r_cmd q = READ"
    and "\<forall>b. r_bh q = Some b \<longrightarrow> b_lock (bufs s b) \<noteq> 0"
    and "m = unat (MINOR (r_dev q))" "m < 5 * NR_HD s" "NR_HD s \<le> 2" "part = hd_parts s ! m" "disk = hd_info s ! (m div 5)"
    and "unat (r_sector q) + 2 \<le> unat (nr_sects part)"
    and "unat (start_sect part) + unat (nr_sects part) \<le> unat (head disk) * unat (sect disk) * unat (cyl disk)"
    and "unat (head disk) \<le> 16" "unat (sect disk) \<le> 255" "unat (cyl disk) \<le> 65536"
    and "k < 99999" "\<forall>j < k. busy (in_val s (in_time s + j) HD_STATUS)" "\<not> busy (in_val s (in_time s + k) HD_STATUS)"
  shows "\<exists>sec hd_nr c. do_hd_request s = Done () (s\<lparr>do_hd := Some Read_intr, in_time := in_time s + k + 1,
      outs := outs s @ [(0x3f6, ucast (ctl disk)), (0x1f1, ucast (signed_drop_bit 2 (wpcom disk))),
        (0x1f2, ucast (r_nr_sectors q)), (0x1f3, of_nat sec), (0x1f4, of_nat c), (0x1f5, of_nat (c div 256)),
        (0x1f6, of_nat (0xA0 + 16 * (m div 5) + hd_nr)), (0x1f7, 0x20)]\<rparr>) \<and>
    1 \<le> sec \<and> sec \<le> unat (sect disk) \<and> hd_nr < unat (head disk) \<and> c < unat (cyl disk) \<and>
    unat (start_sect part) + unat (r_sector q) = (c * unat (head disk) + hd_nr) * unat (sect disk) + (sec - 1)"
  using assms by (rule do_hd_request_sends)

theorem read_command_denotes_sector_witness:
  "\<exists>sec hd_nr c. do_hd_request (dupd 3 (\<lambda>d. d\<lparr>current_request := Some 5\<rparr>) (rupd 5 (\<lambda>q. q\<lparr>r_dev := 0x301\<rparr>) blk_boot)) =
      Done () ((dupd 3 (\<lambda>d. d\<lparr>current_request := Some 5\<rparr>) (rupd 5 (\<lambda>q. q\<lparr>r_dev := 0x301\<rparr>) blk_boot))\<lparr>do_hd := Some Read_intr,
        in_time := 1, outs := [(0x3f6, 0), (0x1f1, 0), (0x1f2, 2), (0x1f3, of_nat sec), (0x1f4, of_nat c),
          (0x1f5, of_nat (c div 256)), (0x1f6, of_nat (0xA0 + hd_nr)), (0x1f7, 0x20)]\<rparr>) \<and>
     11 = (c * 4 + hd_nr) * 17 + (sec - 1)"
proof -
  let ?s = "dupd 3 (\<lambda>d. d\<lparr>current_request := Some 5\<rparr>) (rupd 5 (\<lambda>q. q\<lparr>r_dev := 0x301\<rparr>) blk_boot)"
  have q: "request ?s ! 5 = \<lparr>r_dev = 0x301, r_cmd = READ, r_errors = 0, r_sector = 10, r_nr_sectors = 2,
        r_buffer = 0x1400, r_bh = Some 5, r_next = None\<rparr>" by simp
  have s: "hd_parts ?s ! 1 = \<lparr>start_sect = 1, nr_sects = 40000\<rparr>" "hd_info ?s ! 0 = disk_info" "NR_HD ?s = 1" "outs ?s = []"
    "in_time ?s = 0" "in_val ?s = (\<lambda>_ _. 0x50)"
    by (simp_all add: rupd_def dupd_def) (simp_all add: blk_boot_def mm_state.extend_def blk_state.fields_def)
  have "MINOR 0x301 = 1" "MAJOR 0x301 = 3" by (simp_all add: MINOR_def MAJOR_def drop_bit_eq_div)
  then show ?thesis
    using read_command_denotes_sector [of ?s 5 _ 1 _ _ 0, OF _ _ q [symmetric] _ _ _ _ _ _ s(1) [symmetric]] s(2-6)
    by (simp add: disk_info_def) (elim exE conjE, intro exI conjI, assumption, simp)
qed

text \<open>C26: a block read completes: when the status register reports success twice, the first interrupt takes in the
  first sector and waits for the next, the second one takes in the rest, so that the buffer holds the 1024 bytes
  the disk delivered, in order, and no other byte of memory changes. The buffer is then valid and unlocked, the
  request free and the others as they were, the first waiters for the buffer, for the request and for a free
  request run again, and the queue has moved on: the second interrupt starts the request that followed this
  one, or ends there when there is none.\<close>

theorem block_read_completes:
  assumes "CURRENT s = Some r" "r < length (request s)" "3 < length (blk_dev s)"
    and "good_status (in_val s (in_time s) HD_STATUS)" "good_status (in_val s (in_time s + 257) HD_STATUS)"
    and "r_nr_sectors (request s ! r) = 2" "r_bh (request s ! r) = Some b" "buf = r_buffer (request s ! r)"
    and "waiting = {waitq s (B_wait b), waitq s (Req_waiting r), waitq s Wait_for_request}"
  shows "\<exists>s1 t. read_intr s = Done () s1 \<and> do_hd s1 = Some Read_intr \<and> bufs s1 = bufs s \<and>
    read_intr s1 = do_hd_request t \<and> CURRENT t = r_next (request s ! r) \<and>
    (CURRENT t = None \<longrightarrow> read_intr s1 = Done () t) \<and>
    r_dev (request t ! r) = -1 \<and> (\<forall>i. i \<noteq> r \<longrightarrow> request t ! i = request s ! i) \<and>
    (\<forall>i < 1024. bmem t (buf + of_nat i) = disk_byte s i) \<and>
    (\<forall>a. 1024 \<le> unat (a - buf) \<longrightarrow> bmem t a = bmem s a) \<and>
    bufs t = (bufs s)(b := (bufs s b)\<lparr>b_uptodate := 1, b_lock := 0\<rparr>) \<and>
    waitq t = (waitq s)(B_wait b := 0, Req_waiting r := 0, Wait_for_request := 0) \<and>
    (\<forall>p. tmem t p = (if p \<noteq> 0 \<and> p \<in> waiting then (tmem s p)\<lparr>t_state := TASK_RUNNING\<rparr> else tmem s p))"
  using two_sectors_come [OF assms(1-8)] unfolding assms(9) by (elim exE conjE) (intro exI conjI, assumption+)

theorem block_read_completes_witness:
  "\<exists>s1 t. read_intr (dupd 3 (\<lambda>d. d\<lparr>current_request := Some 5\<rparr>) blk_boot) = Done () s1 \<and>
     read_intr s1 = Done () t \<and> b_uptodate (bufs t 5) = 1 \<and> bmem t (0x1400 + 2) = 0x50"
proof -
  let ?s = "dupd 3 (\<lambda>d. d\<lparr>current_request := Some 5\<rparr>) blk_boot"
  have c: "CURRENT ?s = Some 5" "5 < length (request ?s)" "3 < length (blk_dev ?s)"
    "good_status (in_val ?s (in_time ?s) HD_STATUS)" "good_status (in_val ?s (in_time ?s + 257) HD_STATUS)"
    "r_nr_sectors (request ?s ! 5) = 2" "r_bh (request ?s ! 5) = Some 5" "r_buffer (request ?s ! 5) = 0x1400"
    "r_next (request ?s ! 5) = None" by (simp_all add: good_status_def)
  from block_read_completes [OF c(1-7) c(8) [symmetric] refl] obtain s1 t where st: "read_intr ?s = Done () s1"
    "CURRENT t = r_next (request ?s ! 5)" "CURRENT t = None \<longrightarrow> read_intr s1 = Done () t"
    "\<forall>i < 1024. bmem t (0x1400 + of_nat i) = disk_byte ?s i"
    "bufs t = (bufs ?s)(5 := (bufs ?s 5)\<lparr>b_uptodate := 1, b_lock := 0\<rparr>)"
    by (elim exE conjE) (rule that)
  have "(2 :: nat) < 1024" by simp
  with st(4) have "bmem t (0x1400 + of_nat 2) = disk_byte ?s 2" by blast
  moreover have "disk_byte ?s 2 = 0x50" by (simp add: disk_byte_def)
  moreover have "read_intr s1 = Done () t" using st(2,3) c(9) by (simp only:)
  ultimately show ?thesis using st by auto
qed

end
