(* ===== verification/Blk_Frame.thy ===== *)
theory Blk_Frame
  imports Blk
begin

text \<open>
  What survives the block layer. A component that keeps an invariant over buffers proves that the
  invariant does not depend on the flags of a buffer, on the request table or on the ports; the
  client lemmas below then carry it through every routine of the block layer and of the disk driver,
  sleeping included.
\<close>

definition same_block :: "buffer_head \<Rightarrow> buffer_head \<Rightarrow> bool" where
  "same_block g h \<longleftrightarrow> b_data g = b_data h \<and> b_blocknr g = b_blocknr h \<and> b_dev g = b_dev h \<and>
     b_prev g = b_prev h \<and> b_next g = b_next h \<and> b_prev_free g = b_prev_free h \<and>
     b_next_free g = b_next_free h"

locale block_frame = sched_frame I for I :: "'a blk_state_scheme \<Rightarrow> bool" +
  assumes I_flags: "I s \<Longrightarrow> (\<And>h. same_block (f h) h) \<Longrightarrow> I (bupd b f s)"
    and I_request: "I s \<Longrightarrow> I (s\<lparr>request := r\<rparr>)"
    and I_blk_dev: "I s \<Longrightarrow> I (s\<lparr>blk_dev := d\<rparr>)"
    and I_bmem: "I s \<Longrightarrow> I (s\<lparr>bmem := m\<rparr>)"
    and I_ports: "I s \<Longrightarrow> I (s\<lparr>in_time := n, outs := os\<rparr>)"
    and I_hd: "I s \<Longrightarrow> I (s\<lparr>do_hd := h, reset := v\<rparr>)"
begin

lemma I_rupd: "I s \<Longrightarrow> I (rupd r f s)"
  by (simp add: rupd_def I_request)

lemma I_dupd: "I s \<Longrightarrow> I (dupd d f s)"
  by (simp add: dupd_def I_blk_dev)

lemma I_in_time: "I s \<Longrightarrow> I (s\<lparr>in_time := n\<rparr>)"
  using I_ports [where s = s and n = n and os = "outs s"] by simp

lemma I_outb: "I s \<Longrightarrow> I (outb v p s)"
  using I_ports [where s = s and n = "in_time s" and os = "outs s @ [(p, ucast v)]"] by (simp add: outb_def)

lemma I_inb: "I s \<Longrightarrow> I (snd (inb p s))"
  by (simp add: inb_def I_in_time)

lemma I_port_read: "I s \<Longrightarrow> I (port_read p a n s)"
  by (simp add: port_read_def I_bmem I_in_time)

lemma I_do_hd: "I s \<Longrightarrow> I (s\<lparr>do_hd := h\<rparr>)"
  using I_hd [where s = s and h = h and v = "reset s"] by simp

lemma I_reset: "I s \<Longrightarrow> I (s\<lparr>reset := v\<rparr>)"
  using I_hd [where s = s and h = "do_hd s" and v = v] by simp

lemma I_uptodate: "I s \<Longrightarrow> I (bupd b (\<lambda>h. h\<lparr>b_uptodate := v\<rparr>) s)"
  by (rule I_flags) (simp_all add: same_block_def)

lemma I_dirt: "I s \<Longrightarrow> I (bupd b (\<lambda>h. h\<lparr>b_dirt := v\<rparr>) s)"
  by (rule I_flags) (simp_all add: same_block_def)

lemma I_lock: "I s \<Longrightarrow> I (bupd b (\<lambda>h. h\<lparr>b_lock := v\<rparr>) s)"
  by (rule I_flags) (simp_all add: same_block_def)

lemma I_count: "I s \<Longrightarrow> I (bupd b (\<lambda>h. h\<lparr>b_count := f h\<rparr>) s)"
  by (rule I_flags) (simp_all add: same_block_def)

lemmas I_updates = I_rupd I_dupd I_outb I_port_read I_do_hd I_reset I_uptodate I_dirt I_lock I_count
  I_printk I_wake_up I_tupd I_waitq I_in_time

lemma I_unlock_buffer: "I s \<Longrightarrow> I (unlock_buffer b s)" "I s \<Longrightarrow> I (hd_unlock_buffer b s)"
  by (simp_all add: unlock_buffer_def hd_unlock_buffer_def Let_def I_updates)

lemma I_lock_buffer:
  assumes "\<And>s. I s \<Longrightarrow> I (env s)" "I s"
  shows "I (final (lock_buffer env b s))"
  unfolding lock_buffer_def
  by (rule kbind_keeps [where I = I, OF I_wait_while [OF assms]]) (simp_all add: I_lock)

lemma I_end_request: "I s \<Longrightarrow> I (final (end_request v s))"
  by (auto simp: end_request_def Let_def I_updates I_unlock_buffer split: option.split)

lemma I_busy_wait: "I s \<Longrightarrow> I (snd (busy_wait n s))"
  by (induction n s rule: busy_wait.induct) (auto simp: inb_def I_in_time split: prod.split)

lemma I_hd_out: "I s \<Longrightarrow> I (final (hd_out a b c d e f h s))"
  using I_busy_wait [of s 100000]
  by (auto simp: hd_out_def controller_ready_def Let_def I_updates I_panic split: prod.split)

lemma I_hd_command: "I s \<Longrightarrow> hd_command r s = Some m \<Longrightarrow> I (final m)"
  by (auto simp: hd_command_def Let_def I_hd_out I_panic split: if_splits option.split)

lemma I_INIT_REQUEST: "I s \<Longrightarrow> I (final (INIT_REQUEST r s))"
  by (auto simp: INIT_REQUEST_def I_panic split: option.split)

lemma I_do_hd_request: "I s \<Longrightarrow> I (final (do_hd_request s))"
proof (induction s rule: do_hd_request.induct)
  case (1 s)
  show ?case
  proof (cases "CURRENT s")
    case None
    with 1(2) show ?thesis by (simp add: do_hd_request.simps)
  next
    case (Some r)
    have "I (final (kbind (INIT_REQUEST r s) (\<lambda>_ s1.
            case hd_command r s1 of
              Some m \<Rightarrow> m
            | None \<Rightarrow> kbind (end_request 0 s1) (\<lambda>_ s2. do_hd_request s2))))"
      if r: "\<not> length (request s) \<le> r"
    proof (rule kbind_keeps [where I = I, OF I_INIT_REQUEST [OF 1(2)]])
      fix x s1 assume s1: "I s1" and i: "INIT_REQUEST r s = Done x s1"
      show "I (final (case hd_command r s1 of Some m \<Rightarrow> m
            | None \<Rightarrow> kbind (end_request 0 s1) (\<lambda>_ s2. do_hd_request s2)))"
      proof (cases "hd_command r s1")
        case (Some m)
        with I_hd_command [OF s1 Some] show ?thesis by simp
      next
        case None
        have "I (final (kbind (end_request 0 s1) (\<lambda>_ s2. do_hd_request s2)))"
          by (rule kbind_keeps [where I = I, OF I_end_request [OF s1]]) (use 1(1) Some r i None in blast)
        with None show ?thesis by simp
      qed
    qed
    with Some 1(2) show ?thesis by (subst do_hd_request.simps) simp
  qed
qed

lemma I_add_request: "I s \<Longrightarrow> I (final (add_request d r s))"
proof -
  assume "I s"
  let ?s = "case r_bh (request (rupd r (\<lambda>q. q\<lparr>r_next := None\<rparr>) s) ! r) of
     None \<Rightarrow> rupd r (\<lambda>q. q\<lparr>r_next := None\<rparr>) s
   | Some b \<Rightarrow> bupd b (\<lambda>h. h\<lparr>b_dirt := 0\<rparr>) (rupd r (\<lambda>q. q\<lparr>r_next := None\<rparr>) s)"
  have "I ?s" using \<open>I s\<close> by (simp add: I_updates split: option.split)
  then show ?thesis
    unfolding add_request_def Let_def
    by (auto simp: I_updates intro: I_do_hd_request split: option.split request_fn.split)
qed

lemma I_get_request:
  "(\<And>s. I s \<Longrightarrow> I (env s)) \<Longrightarrow> I s \<Longrightarrow> I (final (get_request env rw ra b s))"
proof (induction env rw ra b s rule: get_request.induct)
  case (1 env rw ra b s)
  let ?f = "free_request (request s) (if rw = READ then NR_REQUEST else NR_REQUEST * 2 div 3)"
  have "I (final (kbind (sleep_on env (Some Wait_for_request) s) (\<lambda>_ s1. get_request env rw ra b s1)))"
    if "?f = None" "\<not> ra"
    by (rule kbind_keeps [where I = I, OF I_sleep_on [OF 1(2,3)]]) (use 1(1) [OF that] 1(2) in blast)+
  with 1(3) show ?case
    by (subst get_request.simps) (auto simp: I_unlock_buffer split: option.split)
qed

lemma I_fill_request: "I s \<Longrightarrow> I (fill_request r rw b s)"
  by (simp add: fill_request_def Let_def I_updates)

lemma I_start_request:
  assumes env: "\<And>s. I s \<Longrightarrow> I (env s)" and "I s"
  shows "I (final (start_request env major rw ra b s))"
  unfolding start_request_def
proof (rule kbind_keeps [where I = I])
  show "I (final (lock_buffer env b s))" using assms by (rule I_lock_buffer)
  fix s1 assume s1: "I s1"
  have "I (final (kbind (get_request env rw ra b s1) (\<lambda>found s.
      case found of None \<Rightarrow> Done () s | Some r \<Rightarrow> add_request major r (fill_request r rw b s))))"
    by (rule kbind_keeps [where I = I, OF I_get_request [OF env s1]])
      (auto intro: I_add_request I_fill_request split: option.split)
  with s1 show "I (final (if rw = WRITE \<and> b_dirt (bufs s1 b) = 0 \<or> rw = READ \<and> b_uptodate (bufs s1 b) \<noteq> 0
      then Done () (unlock_buffer b s1)
      else kbind (get_request env rw ra b s1) (\<lambda>found s.
        case found of None \<Rightarrow> Done () s | Some r \<Rightarrow> add_request major r (fill_request r rw b s))))"
    by (simp add: I_unlock_buffer)
qed

lemma I_make_request:
  assumes "\<And>s. I s \<Longrightarrow> I (env s)" "I s"
  shows "I (final (make_request env major rw b s))"
  using assms by (simp add: make_request_def Let_def I_panic I_start_request)

lemma I_ll_rw_block:
  "(\<And>s. I s \<Longrightarrow> I (env s)) \<Longrightarrow> I s \<Longrightarrow> I (final (ll_rw_block env rw b s))"
  by (auto simp: ll_rw_block_def Let_def I_updates intro: I_make_request)

lemma I_bad_rw_inter: "I s \<Longrightarrow> I (final (bad_rw_inter s))"
proof (cases "CURRENT s")
  case (Some r)
  assume "I s"
  let ?s1 = "rupd r (\<lambda>q. q\<lparr>r_errors := r_errors q + 1\<rparr>) s"
  let ?m = "if sint (r_errors (request ?s1 ! r)) \<ge> MAX_ERRORS then end_request 0 ?s1 else Done () ?s1"
  have m: "I (final ?m)" using \<open>I s\<close> I_end_request [OF I_rupd] I_rupd by simp
  then have "I (final (kbind ?m (\<lambda>_ s2. case CURRENT s2 of
       None \<Rightarrow> Halted (Undef ''CURRENT'') s2
     | Some r' \<Rightarrow> Done () (if sint (r_errors (request s2 ! r')) > MAX_ERRORS div 2 then s2\<lparr>reset := 1\<rparr> else s2))))"
    by (rule kbind_keeps [where I = I]) (simp add: I_reset split: option.split)
  with Some show ?thesis by (simp add: bad_rw_inter_def Let_def)
qed (simp add: bad_rw_inter_def)

lemma I_read_intr: "I s \<Longrightarrow> I (final (read_intr s))"
proof -
  assume "I s"
  then have "I (snd (win_result s))"
    by (auto simp: win_result_def inb_def I_in_time split: prod.split)
  then show ?thesis unfolding read_intr_def Let_def
    by (auto intro!: kbind_keeps [where I = I] simp: I_bad_rw_inter I_do_hd_request I_end_request I_updates
        split: prod.split option.split)
qed

end

end
