(* ===== verification/Fs.thy ===== *)
theory Fs
  imports Blk_Frame
begin

text \<open>
  The structures of \<^verbatim>\<open>include/linux/fs.h\<close> and the tables of the file system, with the
  little-endian views of a buffer's bytes through which the code reads and writes block numbers, disk
  inodes and the disk super block.
\<close>

section \<open>Structures\<close>

record m_inode =
  i_mode :: u16
  i_uid :: u16
  i_size :: u32
  i_mtime :: u32
  i_gid :: u8
  i_nlinks :: u8
  i_zone :: "u16 list"
  i_atime :: u32
  i_ctime :: u32
  i_dev :: u16
  i_num :: u16
  i_count :: u16
  i_lock :: u8
  i_dirt :: u8
  i_pipe :: u8
  i_mount :: u8
  i_seek :: u8
  i_update :: u8

record file_struct =
  f_mode :: u16
  f_flags :: u16
  f_count :: u16
  f_inode :: "nat option"
  f_pos :: u32

record super_block =
  s_ninodes :: u16
  s_nzones :: u16
  s_imap_blocks :: u16
  s_zmap_blocks :: u16
  s_firstdatazone :: u16
  s_log_zone_size :: u16
  s_max_size :: u32
  s_magic :: u16
  s_imap :: "nat option list"
  s_zmap :: "nat option list"
  s_dev :: u16
  s_isup :: "nat option"
  s_imount :: "nat option"
  s_time :: u32
  s_lock :: u8
  s_rd_only :: u8
  s_dirt :: u8

abbreviation (input) NR_OPEN :: nat where "NR_OPEN \<equiv> 20"
abbreviation (input) NR_INODE :: nat where "NR_INODE \<equiv> 32"
abbreviation (input) NR_FILE :: nat where "NR_FILE \<equiv> 64"
abbreviation (input) NR_SUPER :: nat where "NR_SUPER \<equiv> 8"
abbreviation (input) NR_HASH :: nat where "NR_HASH \<equiv> 307"
abbreviation (input) ROOT_INO :: u32 where "ROOT_INO \<equiv> 1"
abbreviation (input) SUPER_MAGIC :: u16 where "SUPER_MAGIC \<equiv> 0x137F"
abbreviation (input) INODES_PER_BLOCK :: nat where "INODES_PER_BLOCK \<equiv> 32"

text \<open>
  The tables: \<open>hash_table\<close>, \<open>free_list\<close> and \<open>NR_BUFFERS\<close> of fs/buffer.c,
  \<open>inode_table\<close> and the static \<open>last_inode\<close> of fs/inode.c, \<open>super_block\<close> and
  \<open>ROOT_DEV\<close> of fs/super.c, \<open>file_table\<close> of fs/file_table.c. \<open>stack_room\<close> is how many
  calls of \<open>sync_dev\<close> fit into one another on a kernel stack (they nest: \<open>getblk\<close> calls
  \<open>sync_dev\<close>, which writes inodes through \<open>getblk\<close>).
\<close>

record fs_state = blk_state +
  hash_table :: "nat option list"
  free_list :: "nat option"
  nr_buffers :: nat
  inode_table :: "m_inode list"
  last_inode :: nat
  super_block :: "super_block list"
  ROOT_DEV :: u32
  file_table :: "file_struct list"
  stack_room :: nat

definition iupd :: "nat \<Rightarrow> (m_inode \<Rightarrow> m_inode) \<Rightarrow> 'a fs_state_scheme \<Rightarrow> 'a fs_state_scheme" where
  "iupd i f s = s\<lparr>inode_table := (inode_table s)[i := f (inode_table s ! i)]\<rparr>"

definition supd :: "nat \<Rightarrow> (super_block \<Rightarrow> super_block) \<Rightarrow> 'a fs_state_scheme \<Rightarrow> 'a fs_state_scheme" where
  "supd i f s = s\<lparr>super_block := (super_block s)[i := f (super_block s ! i)]\<rparr>"

definition fupd :: "nat \<Rightarrow> (file_struct \<Rightarrow> file_struct) \<Rightarrow> 'a fs_state_scheme \<Rightarrow> 'a fs_state_scheme" where
  "fupd i f s = s\<lparr>file_table := (file_table s)[i := f (file_table s ! i)]\<rparr>"

definition null_inode :: m_inode where
  "null_inode = \<lparr>i_mode = 0, i_uid = 0, i_size = 0, i_mtime = 0, i_gid = 0, i_nlinks = 0, i_zone = replicate 9 0,
     i_atime = 0, i_ctime = 0, i_dev = 0, i_num = 0, i_count = 0, i_lock = 0, i_dirt = 0, i_pipe = 0,
     i_mount = 0, i_seek = 0, i_update = 0\<rparr>"

definition null_super :: super_block where
  "null_super = \<lparr>s_ninodes = 0, s_nzones = 0, s_imap_blocks = 0, s_zmap_blocks = 0, s_firstdatazone = 0,
     s_log_zone_size = 0, s_max_size = 0, s_magic = 0, s_imap = replicate 8 None, s_zmap = replicate 8 None,
     s_dev = 0, s_isup = None, s_imount = None, s_time = 0, s_lock = 0, s_rd_only = 0, s_dirt = 0\<rparr>"

definition null_file :: file_struct where
  "null_file = \<lparr>f_mode = 0, f_flags = 0, f_count = 0, f_inode = None, f_pos = 0\<rparr>"

text \<open>\<open>memset(inode, 0, sizeof(*inode))\<close>, the wait queue head inside included.\<close>

definition clear_inode :: "nat \<Rightarrow> 'a fs_state_scheme \<Rightarrow> 'a fs_state_scheme" where
  "clear_inode i s = (iupd i (\<lambda>_. null_inode) s)\<lparr>waitq := (waitq s)(I_wait i := 0)\<rparr>"

lemma fs_upd_simps [simp]:
  "inode_table (iupd i f s) = (inode_table s)[i := f (inode_table s ! i)]" "inode_table (supd k g s) = inode_table s"
  "super_block (supd k g s) = (super_block s)[k := g (super_block s ! k)]" "super_block (iupd i f s) = super_block s"
  "file_table (fupd j h s) = (file_table s)[j := h (file_table s ! j)]" "file_table (iupd i f s) = file_table s"
  "inode_table (fupd j h s) = inode_table s" "super_block (fupd j h s) = super_block s"
  "bufs (iupd i f s) = bufs s" "bufs (supd k g s) = bufs s" "bufs (fupd j h s) = bufs s"
  "bmem (iupd i f s) = bmem s" "bmem (supd k g s) = bmem s" "bmem (bupd b e s) = bmem s"
  "patience (iupd i f s) = patience s" "patience (supd k g s) = patience s" "patience (bupd b e s) = patience s"
  "stack_room (iupd i f s) = stack_room s" "stack_room (bupd b e s) = stack_room s"
  "waitq (iupd i f s) = waitq s" "waitq (supd k g s) = waitq s"
  "inode_table (bupd b e s) = inode_table s" "super_block (bupd b e s) = super_block s"
  "last_inode (bupd b e s) = last_inode s" "last_inode (iupd i f s) = last_inode s"
  "ROOT_DEV (bupd b e s) = ROOT_DEV s" "ROOT_DEV (iupd i f s) = ROOT_DEV s"
  "file_table (bupd b e s) = file_table s"
  by (simp_all add: iupd_def supd_def fupd_def bupd_def)

section \<open>Bytes of a buffer\<close>

definition load16 :: "(u32 \<Rightarrow> u8) \<Rightarrow> u32 \<Rightarrow> u16" where
  "load16 m a = ucast (m a) OR push_bit 8 (ucast (m (a + 1)))"

definition load32 :: "(u32 \<Rightarrow> u8) \<Rightarrow> u32 \<Rightarrow> u32" where
  "load32 m a = ucast (load16 m a) OR push_bit 16 (ucast (load16 m (a + 2)))"

definition put16 :: "u32 \<Rightarrow> u16 \<Rightarrow> (u32 \<Rightarrow> u8) \<Rightarrow> u32 \<Rightarrow> u8" where
  "put16 a v m = m(a := ucast v, a + 1 := ucast (drop_bit 8 v))"

definition put32 :: "u32 \<Rightarrow> u32 \<Rightarrow> (u32 \<Rightarrow> u8) \<Rightarrow> u32 \<Rightarrow> u8" where
  "put32 a v m = put16 (a + 2) (ucast (drop_bit 16 v)) (put16 a (ucast v) m)"

text \<open>
  \<open>*(struct d_inode *) inode = ((struct d_inode *) bh->b_data)[k]\<close> and the assignment the other
  way: the first 32 bytes of \<open>struct m_inode\<close> are laid out as \<open>struct d_inode\<close>.
\<close>

definition load_dinode :: "(u32 \<Rightarrow> u8) \<Rightarrow> u32 \<Rightarrow> m_inode \<Rightarrow> m_inode" where
  "load_dinode m a i = i\<lparr>i_mode := load16 m a, i_uid := load16 m (a + 2), i_size := load32 m (a + 4),
     i_mtime := load32 m (a + 8), i_gid := m (a + 12), i_nlinks := m (a + 13),
     i_zone := map (\<lambda>k. load16 m (a + 14 + 2 * of_nat k)) [0..<9]\<rparr>"

definition put_dinode :: "u32 \<Rightarrow> m_inode \<Rightarrow> (u32 \<Rightarrow> u8) \<Rightarrow> u32 \<Rightarrow> u8" where
  "put_dinode a i m =
     fold (\<lambda>k. put16 (a + 14 + 2 * of_nat k) (i_zone i ! k)) [0..<9]
       ((put32 (a + 8) (i_mtime i) (put32 (a + 4) (i_size i) (put16 (a + 2) (i_uid i) (put16 a (i_mode i) m))))
          (a + 12 := i_gid i, a + 13 := i_nlinks i))"

text \<open>\<open>*(struct d_super_block *) s = *(struct d_super_block *) bh->b_data\<close>\<close>

definition load_dsuper :: "(u32 \<Rightarrow> u8) \<Rightarrow> u32 \<Rightarrow> super_block \<Rightarrow> super_block" where
  "load_dsuper m a s = s\<lparr>s_ninodes := load16 m a, s_nzones := load16 m (a + 2),
     s_imap_blocks := load16 m (a + 4), s_zmap_blocks := load16 m (a + 6),
     s_firstdatazone := load16 m (a + 8), s_log_zone_size := load16 m (a + 10),
     s_max_size := load32 m (a + 12), s_magic := load16 m (a + 16)\<rparr>"

section \<open>Round trips\<close>

lemma load16_put16 [simp]: "load16 (put16 a v m) a = v"
proof -
  have "ucast (ucast v :: u8) OR push_bit 8 (ucast (ucast (drop_bit 8 v) :: u8)) = v"
    by (rule bit_word_eqI) (auto simp: bit_simps less_diff_conv)
  then show ?thesis by (simp add: load16_def put16_def)
qed

lemma put16_other [simp]: "b \<noteq> a \<Longrightarrow> b \<noteq> a + 1 \<Longrightarrow> put16 a v m b = m b"
  by (simp add: put16_def)

lemma load16_other: "a \<noteq> b \<Longrightarrow> a + 1 \<noteq> b \<Longrightarrow> load16 (m(b := v)) a = load16 m a"
  by (simp add: load16_def)

lemma load16_put16_other:
  "a \<noteq> b \<Longrightarrow> a \<noteq> b + 1 \<Longrightarrow> a + 1 \<noteq> b \<Longrightarrow> load16 (put16 b v m) a = load16 m a"
  by (simp add: load16_def put16_def)

lemma join32: "ucast (ucast v :: u16) OR push_bit 16 (ucast (ucast (drop_bit 16 v) :: u16)) = (v :: u32)"
  by (rule bit_word_eqI) (auto simp: bit_simps less_diff_conv)

lemma load32_put32 [simp]: "load32 (put32 a v m) a = v"
  by (simp add: load32_def put32_def load16_put16_other join32)

lemma upt9: "[0..<9] = [0, 1, 2, 3, 4, 5, 6, 7, 8]"
  by (simp add: upt_rec)

lemma length9: "length xs = 9 \<Longrightarrow> map ((!) xs) [0, 1, 2, 3, 4, 5, 6, 7, 8] = xs"
  using map_nth [of xs] by (simp add: upt9)

lemma load_put_dinode:
  assumes "length (i_zone i) = 9"
  shows "load_dinode (put_dinode a i m) a j =
    j\<lparr>i_mode := i_mode i, i_uid := i_uid i, i_size := i_size i, i_mtime := i_mtime i, i_gid := i_gid i,
      i_nlinks := i_nlinks i, i_zone := i_zone i\<rparr>"
  using length9 [OF assms]
  by (simp add: load_dinode_def put_dinode_def upt9 load16_put16_other load16_other load32_def put32_def
      join32)

end
