(* ===== verification/Buffer.thy ===== *)
theory Buffer
  imports Fs
begin

text \<open>
  The buffer cache, \<^verbatim>\<open>fs/buffer.c\<close>: buffer heads in doubly linked hash chains and in one
  ring of all buffers, least recently taken first; finding a block in the cache, taking a buffer for a
  block that is not in it, releasing, reading and writing back.

  \<open>sync_dev\<close> writes inodes through the cache, so it is defined with the inodes; the routines
  here that call it take it as the argument \<open>sync\<close>. A loop of the code that may go round for
  ever (\<open>goto repeat\<close>, \<open>while (bh->b_dirt)\<close>) is followed for as many rounds as the run
  has \<open>patience\<close>, and is \<open>Blocked\<close> after that.
\<close>

definition hashfn :: "u32 \<Rightarrow> u32 \<Rightarrow> nat" where
  "hashfn dev block = unat ((dev XOR block) mod of_nat NR_HASH)"

abbreviation hash_of :: "buffer_head \<Rightarrow> nat" where
  "hash_of h \<equiv> hashfn (ucast (b_dev h)) (b_blocknr h)"

definition wait_on_buffer :: "('a fs_state_scheme \<Rightarrow> 'a fs_state_scheme) \<Rightarrow> nat
    \<Rightarrow> 'a fs_state_scheme \<Rightarrow> ('a fs_state_scheme, unit) outcome" where
  "wait_on_buffer env b s = wait_while env (\<lambda>s. b_lock (bufs s b) \<noteq> 0) (B_wait b) s"

section \<open>The queues\<close>

definition set_hash :: "nat \<Rightarrow> nat option \<Rightarrow> 'a fs_state_scheme \<Rightarrow> 'a fs_state_scheme" where
  "set_hash k p s = s\<lparr>hash_table := (hash_table s)[k := p]\<rparr>"

definition remove_from_hash :: "nat \<Rightarrow> 'a fs_state_scheme \<Rightarrow> 'a fs_state_scheme" where
  "remove_from_hash b s =
     (let s = (case b_next (bufs s b) of
                 None \<Rightarrow> s | Some n \<Rightarrow> bupd n (\<lambda>h. h\<lparr>b_prev := b_prev (bufs s b)\<rparr>) s);
          s = (case b_prev (bufs s b) of
                 None \<Rightarrow> s | Some p \<Rightarrow> bupd p (\<lambda>h. h\<lparr>b_next := b_next (bufs s b)\<rparr>) s);
          k = hash_of (bufs s b)
      in if hash_table s ! k = Some b then set_hash k (b_next (bufs s b)) s else s)"

definition remove_from_free_list :: "nat \<Rightarrow> 'a fs_state_scheme \<Rightarrow> ('a fs_state_scheme, unit) outcome" where
  "remove_from_free_list b s =
     (case (b_prev_free (bufs s b), b_next_free (bufs s b)) of
        (Some p, Some n) \<Rightarrow>
          let s = bupd p (\<lambda>h. h\<lparr>b_next_free := Some n\<rparr>) s;
              s = bupd n (\<lambda>h. h\<lparr>b_prev_free := b_prev_free (bufs s b)\<rparr>) s
          in Done () (if free_list s = Some b then s\<lparr>free_list := b_next_free (bufs s b)\<rparr> else s)
      | _ \<Rightarrow> panic ''Free block list corrupted'' s)"

definition remove_from_queues :: "nat \<Rightarrow> 'a fs_state_scheme \<Rightarrow> ('a fs_state_scheme, unit) outcome" where
  "remove_from_queues b s = remove_from_free_list b (remove_from_hash b s)"

definition put_on_free_list :: "nat \<Rightarrow> 'a fs_state_scheme \<Rightarrow> ('a fs_state_scheme, unit) outcome" where
  "put_on_free_list b s =
     (case free_list s of
        None \<Rightarrow> Halted (Undef ''free_list'') s
      | Some f \<Rightarrow>
          let s = bupd b (\<lambda>h. h\<lparr>b_next_free := Some f\<rparr>) s;
              s = bupd b (\<lambda>h. h\<lparr>b_prev_free := b_prev_free (bufs s f)\<rparr>) s
          in case b_prev_free (bufs s f) of
               None \<Rightarrow> Halted (Undef ''free_list->b_prev_free'') s
             | Some p \<Rightarrow>
                 let s = bupd p (\<lambda>h. h\<lparr>b_next_free := Some b\<rparr>) s
                 in Done () (bupd f (\<lambda>h. h\<lparr>b_prev_free := Some b\<rparr>) s))"

definition put_in_hash :: "nat \<Rightarrow> 'a fs_state_scheme \<Rightarrow> 'a fs_state_scheme" where
  "put_in_hash b s =
     (let s = bupd b (\<lambda>h. h\<lparr>b_next := None, b_prev := None\<rparr>) s
      in if b_dev (bufs s b) = 0 then s
         else
           let k = hash_of (bufs s b);
               s = bupd b (\<lambda>h. h\<lparr>b_next := hash_table s ! k\<rparr>) s;
               s = set_hash k (Some b) s
           in case b_next (bufs s b) of
                None \<Rightarrow> s
              | Some n \<Rightarrow> bupd n (\<lambda>h. h\<lparr>b_prev := Some b\<rparr>) s)"

definition insert_into_queues :: "nat \<Rightarrow> 'a fs_state_scheme \<Rightarrow> ('a fs_state_scheme, unit) outcome" where
  "insert_into_queues b s = kbind (put_on_free_list b s) (\<lambda>_ s. Done () (put_in_hash b s))"

section \<open>Finding and taking a buffer\<close>

text \<open>
  The walk along a hash chain; \<open>None\<close> says that it goes round in a circle, which a chain of
  different buffers cannot.
\<close>

primrec walk_chain :: "nat \<Rightarrow> (nat \<Rightarrow> buffer_head) \<Rightarrow> u16 \<Rightarrow> u32 \<Rightarrow> nat option \<Rightarrow> nat option option" where
  "walk_chain 0 bs dev block p = None"
| "walk_chain (Suc n) bs dev block p =
     (case p of
        None \<Rightarrow> Some None
      | Some b \<Rightarrow>
          if b_dev (bs b) = dev \<and> b_blocknr (bs b) = block then Some (Some b)
          else walk_chain n bs dev block (b_next (bs b)))"

definition find_buffer :: "u32 \<Rightarrow> u32 \<Rightarrow> 'a fs_state_scheme \<Rightarrow> ('a fs_state_scheme, nat option) outcome" where
  "find_buffer dev block s =
     (case walk_chain (Suc (nr_buffers s)) (bufs s) (ucast dev) block (hash_table s ! hashfn dev block) of
        None \<Rightarrow> Blocked s
      | Some r \<Rightarrow> Done r s)"

primrec get_hash_table_loop :: "nat \<Rightarrow> ('a fs_state_scheme \<Rightarrow> 'a fs_state_scheme) \<Rightarrow> u32 \<Rightarrow> u32
    \<Rightarrow> 'a fs_state_scheme \<Rightarrow> ('a fs_state_scheme, nat option) outcome" where
  "get_hash_table_loop 0 env dev block s = Blocked s"
| "get_hash_table_loop (Suc n) env dev block s =
     kbind (find_buffer dev block s) (\<lambda>r s.
       case r of
         None \<Rightarrow> Done None s
       | Some b \<Rightarrow>
           kbind (wait_on_buffer env b (bupd b (\<lambda>h. h\<lparr>b_count := b_count h + 1\<rparr>) s)) (\<lambda>_ s.
             if b_dev (bufs s b) = ucast dev \<and> b_blocknr (bufs s b) = block then Done (Some b) s
             else get_hash_table_loop n env dev block (bupd b (\<lambda>h. h\<lparr>b_count := b_count h - 1\<rparr>) s)))"

definition get_hash_table :: "('a fs_state_scheme \<Rightarrow> 'a fs_state_scheme) \<Rightarrow> u32 \<Rightarrow> u32
    \<Rightarrow> 'a fs_state_scheme \<Rightarrow> ('a fs_state_scheme, nat option) outcome" where
  "get_hash_table env dev block s = get_hash_table_loop (Suc (patience s)) env dev block s"

definition BADNESS :: "buffer_head \<Rightarrow> nat" where
  "BADNESS h = 2 * unat (b_dirt h) + unat (b_lock h)"

text \<open>The scan of the free list in \<open>getblk\<close>, from \<open>tmp\<close> on with \<open>bh\<close> the best so far.\<close>

primrec scan_free_list :: "nat \<Rightarrow> nat option \<Rightarrow> nat option \<Rightarrow> 'a fs_state_scheme
    \<Rightarrow> ('a fs_state_scheme, nat option) outcome" where
  "scan_free_list 0 bh tmp s = Blocked s"
| "scan_free_list (Suc n) bh tmp s =
     (case tmp of
        None \<Rightarrow> Halted (Undef ''tmp->b_count'') s
      | Some b \<Rightarrow>
          let better = (b_count (bufs s b) = 0 \<and>
                (case bh of None \<Rightarrow> True | Some h \<Rightarrow> BADNESS (bufs s b) < BADNESS (bufs s h)));
              bh = (if better then Some b else bh)
          in if better \<and> BADNESS (bufs s b) = 0 then Done bh s
             else if b_next_free (bufs s b) = free_list s then Done bh s
             else scan_free_list n bh (b_next_free (bufs s b)) s)"

text \<open>
  \<open>while (bh->b_dirt) { sync_dev(bh->b_dev); wait_on_buffer(bh); if (bh->b_count) goto repeat; }\<close>:
  true when the loop ends, false for the jump.
\<close>

primrec clean_buffer :: "nat \<Rightarrow> (u32 \<Rightarrow> 'a fs_state_scheme \<Rightarrow> ('a fs_state_scheme, u32) outcome)
    \<Rightarrow> ('a fs_state_scheme \<Rightarrow> 'a fs_state_scheme) \<Rightarrow> nat
    \<Rightarrow> 'a fs_state_scheme \<Rightarrow> ('a fs_state_scheme, bool) outcome" where
  "clean_buffer 0 sync env b s = Blocked s"
| "clean_buffer (Suc n) sync env b s =
     (if b_dirt (bufs s b) = 0 then Done True s
      else kbind (sync (ucast (b_dev (bufs s b))) s) (\<lambda>_ s.
           kbind (wait_on_buffer env b s) (\<lambda>_ s.
             if b_count (bufs s b) \<noteq> 0 then Done False s else clean_buffer n sync env b s)))"

definition take_buffer :: "nat \<Rightarrow> u32 \<Rightarrow> u32 \<Rightarrow> 'a fs_state_scheme \<Rightarrow> ('a fs_state_scheme, nat) outcome" where
  "take_buffer b dev block s =
     kbind (remove_from_queues b (bupd b (\<lambda>h. h\<lparr>b_count := 1, b_dirt := 0, b_uptodate := 0\<rparr>) s)) (\<lambda>_ s.
     kbind (insert_into_queues b (bupd b (\<lambda>h. h\<lparr>b_dev := ucast dev, b_blocknr := block\<rparr>) s)) (\<lambda>_ s.
       Done b s))"

primrec getblk_loop :: "nat \<Rightarrow> (u32 \<Rightarrow> 'a fs_state_scheme \<Rightarrow> ('a fs_state_scheme, u32) outcome)
    \<Rightarrow> ('a fs_state_scheme \<Rightarrow> 'a fs_state_scheme) \<Rightarrow> u32 \<Rightarrow> u32
    \<Rightarrow> 'a fs_state_scheme \<Rightarrow> ('a fs_state_scheme, nat) outcome" where
  "getblk_loop 0 sync env dev block s = Blocked s"
| "getblk_loop (Suc n) sync env dev block s =
     kbind (get_hash_table env dev block s) (\<lambda>r s.
       case r of
         Some b \<Rightarrow> Done b s
       | None \<Rightarrow>
           kbind (scan_free_list (Suc (nr_buffers s)) None (free_list s) s) (\<lambda>bh s.
             case bh of
               None \<Rightarrow> kbind (sleep_on env (Some Buffer_wait) s) (\<lambda>_ s. getblk_loop n sync env dev block s)
             | Some b \<Rightarrow>
                 kbind (wait_on_buffer env b s) (\<lambda>_ s.
                   if b_count (bufs s b) \<noteq> 0 then getblk_loop n sync env dev block s
                   else kbind (clean_buffer (Suc (patience s)) sync env b s) (\<lambda>clean s.
                     if \<not> clean then getblk_loop n sync env dev block s
                     else kbind (find_buffer dev block s) (\<lambda>r s.
                       if r \<noteq> None then getblk_loop n sync env dev block s
                       else take_buffer b dev block s)))))"

definition getblk_with :: "(u32 \<Rightarrow> 'a fs_state_scheme \<Rightarrow> ('a fs_state_scheme, u32) outcome)
    \<Rightarrow> ('a fs_state_scheme \<Rightarrow> 'a fs_state_scheme) \<Rightarrow> u32 \<Rightarrow> u32
    \<Rightarrow> 'a fs_state_scheme \<Rightarrow> ('a fs_state_scheme, nat) outcome" where
  "getblk_with sync env dev block s = getblk_loop (Suc (patience s)) sync env dev block s"

definition brelse :: "('a fs_state_scheme \<Rightarrow> 'a fs_state_scheme) \<Rightarrow> nat option
    \<Rightarrow> 'a fs_state_scheme \<Rightarrow> ('a fs_state_scheme, unit) outcome" where
  "brelse env buf s =
     (case buf of
        None \<Rightarrow> Done () s
      | Some b \<Rightarrow>
          kbind (wait_on_buffer env b s) (\<lambda>_ s.
            let c = b_count (bufs s b); s = bupd b (\<lambda>h. h\<lparr>b_count := b_count h - 1\<rparr>) s
            in if c = 0 then panic ''Trying to free free buffer'' s
               else Done () (wake_up (Some Buffer_wait) s)))"

definition bread_with :: "(u32 \<Rightarrow> 'a fs_state_scheme \<Rightarrow> ('a fs_state_scheme, u32) outcome)
    \<Rightarrow> ('a fs_state_scheme \<Rightarrow> 'a fs_state_scheme) \<Rightarrow> u32 \<Rightarrow> u32
    \<Rightarrow> 'a fs_state_scheme \<Rightarrow> ('a fs_state_scheme, nat option) outcome" where
  "bread_with sync env dev block s =
     kbind (getblk_with sync env dev block s) (\<lambda>b s.
       if b_uptodate (bufs s b) \<noteq> 0 then Done (Some b) s
       else kbind (ll_rw_block env READ b s) (\<lambda>_ s.
            kbind (wait_on_buffer env b s) (\<lambda>_ s.
              if b_uptodate (bufs s b) \<noteq> 0 then Done (Some b) s
              else kbind (brelse env (Some b) s) (\<lambda>_ s. Done None s))))"

text \<open>The loop that \<open>sync_dev\<close> runs twice over the buffers.\<close>

primrec write_buffers :: "nat list \<Rightarrow> ('a fs_state_scheme \<Rightarrow> 'a fs_state_scheme) \<Rightarrow> u32
    \<Rightarrow> 'a fs_state_scheme \<Rightarrow> ('a fs_state_scheme, unit) outcome" where
  "write_buffers [] env dev s = Done () s"
| "write_buffers (b # bs) env dev s =
     (if ucast (b_dev (bufs s b)) \<noteq> dev then write_buffers bs env dev s
      else kbind (wait_on_buffer env b s) (\<lambda>_ s.
           kbind (if ucast (b_dev (bufs s b)) = dev \<and> b_dirt (bufs s b) \<noteq> 0
                  then ll_rw_block env WRITE b s else Done () s) (\<lambda>_ s.
             write_buffers bs env dev s)))"

definition sync_dev_with :: "('a fs_state_scheme \<Rightarrow> ('a fs_state_scheme, unit) outcome)
    \<Rightarrow> ('a fs_state_scheme \<Rightarrow> 'a fs_state_scheme) \<Rightarrow> u32
    \<Rightarrow> 'a fs_state_scheme \<Rightarrow> ('a fs_state_scheme, u32) outcome" where
  "sync_dev_with sync_inodes env dev s =
     kbind (write_buffers [0..<nr_buffers s] env dev s) (\<lambda>_ s.
     kbind (sync_inodes s) (\<lambda>_ s.
     kbind (write_buffers [0..<nr_buffers s] env dev s) (\<lambda>_ s. Done 0 s)))"

section \<open>Initialisation\<close>

text \<open>
  \<open>buffer_init\<close>: buffer head \<open>i\<close> lies at \<open>end_addr + 36 i\<close>, data blocks are cut off from the top
  \<open>b\<close>. The pointer \<open>h - 1\<close> of the first head points nowhere (\<open>None\<close>) until the ring is closed.
\<close>

primrec buffer_init_loop :: "nat \<Rightarrow> u32 \<Rightarrow> u32 \<Rightarrow> nat \<Rightarrow> 'a fs_state_scheme
    \<Rightarrow> ('a fs_state_scheme, nat) outcome" where
  "buffer_init_loop 0 end_addr b i s = Blocked s"
| "buffer_init_loop (Suc n) end_addr b i s =
     (let b = b - 1024
      in if \<not> b \<ge> end_addr + 36 * of_nat (i + 1) then Done i s
         else
           let s = bupd i (\<lambda>h. h\<lparr>b_dev := 0, b_dirt := 0, b_count := 0, b_lock := 0, b_uptodate := 0,
                 b_next := None, b_prev := None, b_data := b,
                 b_prev_free := (if i = 0 then None else Some (i - 1)), b_next_free := Some (i + 1)\<rparr>) s;
               s = s\<lparr>waitq := (waitq s)(B_wait i := 0), nr_buffers := nr_buffers s + 1\<rparr>
           in buffer_init_loop n end_addr (if b = 0x100000 then 0xA0000 else b) (i + 1) s)"

definition buffer_init :: "u32 \<Rightarrow> u32 \<Rightarrow> 'a fs_state_scheme \<Rightarrow> ('a fs_state_scheme, unit) outcome" where
  "buffer_init end_addr buffer_end s =
     (let b = (if buffer_end = 0x100000 then 640 * 1024 else buffer_end)
      in kbind (buffer_init_loop (Suc (2 ^ 22)) end_addr b 0 s) (\<lambda>n s.
           if n = 0 then Halted (Undef ''h--'') s
           else
             let s = s\<lparr>free_list := Some 0\<rparr>;
                 s = bupd 0 (\<lambda>h. h\<lparr>b_prev_free := Some (n - 1)\<rparr>) s;
                 s = bupd (n - 1) (\<lambda>h. h\<lparr>b_next_free := Some 0\<rparr>) s
             in Done () (s\<lparr>hash_table := replicate NR_HASH None\<rparr>)))"

end
