(* ===== verification/Buffer_Queues.thy ===== *)
theory Buffer_Queues
  imports Buffer
begin

text \<open>
  The shape of the buffer cache: the ring of all buffers and the hash chains as lists, what the
  pointer updates of \<open>remove_from_queues\<close> and \<open>insert_into_queues\<close> do to those lists, and the
  invariant of the cache, with the locale instances that carry it through the block layer.
\<close>

section \<open>The ring\<close>

text \<open>\<open>links bs x xs y\<close>: from \<open>x\<close> through \<open>xs\<close> to \<open>y\<close>, both ways.\<close>

primrec links :: "(nat \<Rightarrow> buffer_head) \<Rightarrow> nat \<Rightarrow> nat list \<Rightarrow> nat \<Rightarrow> bool" where
  "links bs x [] y \<longleftrightarrow> b_next_free (bs x) = Some y \<and> b_prev_free (bs y) = Some x"
| "links bs x (z # zs) y \<longleftrightarrow>
     b_next_free (bs x) = Some z \<and> b_prev_free (bs z) = Some x \<and> links bs z zs y"

definition ring :: "(nat \<Rightarrow> buffer_head) \<Rightarrow> nat list \<Rightarrow> bool" where
  "ring bs xs \<longleftrightarrow> (case xs of [] \<Rightarrow> False | x # ys \<Rightarrow> distinct xs \<and> links bs x ys x)"

lemma ring_Cons [simp]: "ring bs (x # ys) \<longleftrightarrow> distinct (x # ys) \<and> links bs x ys x"
  by (simp add: ring_def)

lemma ring_Nil [simp]: "\<not> ring bs []"
  by (simp add: ring_def)

lemma links_append: "links bs x (ys @ z # zs) y \<longleftrightarrow> links bs x ys z \<and> links bs z zs y"
  by (induction ys arbitrary: x) auto

lemma links_cong:
  "(\<And>z. z \<in> insert x (set xs) \<Longrightarrow> b_next_free (bs' z) = b_next_free (bs z)) \<Longrightarrow>
   (\<And>z. z \<in> insert y (set xs) \<Longrightarrow> b_prev_free (bs' z) = b_prev_free (bs z)) \<Longrightarrow>
   links bs' x xs y = links bs x xs y"
  by (induction xs arbitrary: x) auto

lemma ring_rotate: "ring bs (ys @ zs) \<longleftrightarrow> ring bs (zs @ ys)"
  by (cases ys; cases zs) (auto simp: links_append)

lemma links_first: "links bs x ys y \<Longrightarrow> b_next_free (bs x) = Some (hd (ys @ [y]))"
  by (cases ys) auto

lemma links_last: "links bs x ys y \<Longrightarrow> b_prev_free (bs y) = Some (last (x # ys))"
  by (induction ys arbitrary: x) auto

text \<open>Where the last link of a path is made to go.\<close>

definition relink :: "nat \<Rightarrow> nat \<Rightarrow> (nat \<Rightarrow> buffer_head) \<Rightarrow> nat \<Rightarrow> buffer_head" where
  "relink p n bs = (let bs1 = bs(p := (bs p)\<lparr>b_next_free := Some n\<rparr>)
                    in bs1(n := (bs1 n)\<lparr>b_prev_free := Some p\<rparr>))"

lemma relink_sel [simp]:
  "b_next_free (relink p n bs z) = (if z = p then Some n else b_next_free (bs z))"
  "b_prev_free (relink p n bs z) = (if z = n then Some p else b_prev_free (bs z))"
  by (auto simp: relink_def Let_def)

lemma relink_other [simp]:
  "b_dev (relink p n bs z) = b_dev (bs z)" "b_blocknr (relink p n bs z) = b_blocknr (bs z)"
  "b_next (relink p n bs z) = b_next (bs z)" "b_prev (relink p n bs z) = b_prev (bs z)"
  "b_count (relink p n bs z) = b_count (bs z)" "b_dirt (relink p n bs z) = b_dirt (bs z)"
  "b_lock (relink p n bs z) = b_lock (bs z)" "b_uptodate (relink p n bs z) = b_uptodate (bs z)"
  "b_data (relink p n bs z) = b_data (bs z)"
  by (auto simp: relink_def Let_def)

lemma links_relink:
  "links bs x xs y \<Longrightarrow> distinct (x # xs) \<Longrightarrow> z \<notin> set xs \<Longrightarrow> links (relink (last (x # xs)) z bs) x xs z"
proof (induction xs arbitrary: x)
  case (Cons w ws)
  then have "links (relink (last (w # ws)) z bs) w ws z" by auto
  moreover have "x \<noteq> last (w # ws)" using Cons.prems(2) last_in_set [of "w # ws"] by auto
  ultimately show ?case using Cons.prems by auto
qed simp

lemma links_neighbours:
  assumes "links bs b ys b"
  shows "b_next_free (bs b) = Some (hd (ys @ [b]))" "b_prev_free (bs b) = Some (last (b # ys))"
  using links_first [OF assms] links_last [OF assms] by simp_all

text \<open>Taking \<open>b\<close> out, and putting it in before the head.\<close>

lemma ring_remove:
  assumes "ring bs (b # c # cs)"
  shows "ring (relink (last (c # cs)) c bs) (c # cs)"
  using assms links_relink [of bs c cs b c] by simp

lemma ring_insert:
  assumes "ring bs (x # xs)" "b \<notin> set (x # xs)"
  shows "ring (relink b x (relink (last (x # xs)) b bs)) (x # xs @ [b])"
proof -
  from assms have l: "links (relink (last (x # xs)) b bs) x xs b"
    using links_relink [of bs x xs x b] by simp
  have "links (relink b x (relink (last (x # xs)) b bs)) x xs b \<longleftrightarrow>
      links (relink (last (x # xs)) b bs) x xs b"
    by (rule links_cong) (use assms in auto)
  with l assms show ?thesis by (simp add: links_append)
qed

section \<open>The hash chains\<close>

primrec chain :: "(nat \<Rightarrow> buffer_head) \<Rightarrow> nat option \<Rightarrow> nat option \<Rightarrow> nat list \<Rightarrow> bool" where
  "chain bs pv p [] \<longleftrightarrow> p = None"
| "chain bs pv p (x # xs) \<longleftrightarrow> p = Some x \<and> b_prev (bs x) = pv \<and> chain bs (Some x) (b_next (bs x)) xs"

lemma chain_cong:
  "(\<And>z. z \<in> set xs \<Longrightarrow> b_next (bs' z) = b_next (bs z) \<and> b_prev (bs' z) = b_prev (bs z)) \<Longrightarrow>
   chain bs' pv p xs = chain bs pv p xs"
  by (induction xs arbitrary: pv p) auto

lemma walk_chain_finds:
  "chain bs pv p xs \<Longrightarrow> length xs < n \<Longrightarrow>
   walk_chain n bs dev block p = Some (find (\<lambda>b. b_dev (bs b) = dev \<and> b_blocknr (bs b) = block) xs)"
proof (induction xs arbitrary: pv p n)
  case Nil
  then show ?case by (cases n) auto
next
  case (Cons x xs)
  then obtain m where "n = Suc m" by (cases n) auto
  with Cons show ?case by auto
qed

text \<open>The hash half of \<open>remove_from_queues\<close> and of \<open>insert_into_queues\<close>, on the heads alone.\<close>

definition unhash :: "nat \<Rightarrow> (nat \<Rightarrow> buffer_head) \<Rightarrow> nat \<Rightarrow> buffer_head" where
  "unhash b bs =
     (let bs = (case b_next (bs b) of
                  None \<Rightarrow> bs | Some n \<Rightarrow> bs(n := (bs n)\<lparr>b_prev := b_prev (bs b)\<rparr>))
      in case b_prev (bs b) of
           None \<Rightarrow> bs | Some p \<Rightarrow> bs(p := (bs p)\<lparr>b_next := b_next (bs b)\<rparr>))"

lemma chain_prev: "chain bs pv p xs \<Longrightarrow> xs \<noteq> [] \<Longrightarrow> b_prev (bs (hd xs)) = pv"
  by (cases xs) auto

lemma chain_split:
  "chain bs pv p (xs @ b # ys) \<Longrightarrow>
     b_prev (bs b) = (if xs = [] then pv else Some (last xs)) \<and>
     b_next (bs b) = (if ys = [] then None else Some (hd ys)) \<and>
     p = Some (hd (xs @ [b]))"
proof (induction xs arbitrary: pv p)
  case Nil
  then show ?case by (cases ys) auto
next
  case (Cons x xs)
  then show ?case by (cases xs) auto
qed

lemma chain_remove:
  assumes "chain bs pv p (xs @ b # ys)" "distinct (xs @ b # ys)"
    and "\<And>z. z \<in> set (xs @ ys) \<Longrightarrow>
      b_next (bs' z) = (if xs \<noteq> [] \<and> z = last xs then b_next (bs b) else b_next (bs z)) \<and>
      b_prev (bs' z) = (if ys \<noteq> [] \<and> z = hd ys then b_prev (bs b) else b_prev (bs z))"
  shows "chain bs' pv (if xs = [] then b_next (bs b) else p) (xs @ ys)"
  using assms
proof (induction xs arbitrary: pv p)
  case Nil
  show ?case
  proof (cases ys)
    case (Cons y zs)
    have "chain bs' (Some y) (b_next (bs y)) zs = chain bs (Some y) (b_next (bs y)) zs"
      by (rule chain_cong) (use Nil Cons in auto)
    with Nil Cons show ?thesis by auto
  qed (use Nil in auto)
next
  case (Cons x xs)
  have "chain bs' (Some x) (if xs = [] then b_next (bs b) else b_next (bs x)) (xs @ ys)"
  proof (rule Cons.IH)
    show "chain bs (Some x) (b_next (bs x)) (xs @ b # ys)" using Cons.prems(1) by simp
    show "distinct (xs @ b # ys)" using Cons.prems(2) by simp
    fix z assume z: "z \<in> set (xs @ ys)"
    then have "z \<noteq> x" using Cons.prems(2) by auto
    with z Cons.prems(3) [of z] show "b_next (bs' z) = (if xs \<noteq> [] \<and> z = last xs then b_next (bs b) else b_next (bs z)) \<and>
      b_prev (bs' z) = (if ys \<noteq> [] \<and> z = hd ys then b_prev (bs b) else b_prev (bs z))"
      by (auto split: if_splits)
  qed
  moreover have "b_next (bs' x) = (if xs = [] then b_next (bs b) else b_next (bs x))"
  proof -
    have "xs \<noteq> [] \<Longrightarrow> x \<noteq> last xs" using Cons.prems(2) by auto
    with Cons.prems(3) [of x] show ?thesis by auto
  qed
  moreover have "b_prev (bs' x) = pv"
  proof -
    have "ys \<noteq> [] \<Longrightarrow> x \<noteq> hd ys" using Cons.prems(2) hd_in_set by auto
    with Cons.prems(1,3) show ?thesis by auto
  qed
  ultimately show ?case using Cons.prems(1) by auto
qed

section \<open>The shape of the cache\<close>

definition hash_shape :: "(nat \<Rightarrow> buffer_head) \<Rightarrow> nat option list \<Rightarrow> nat set \<Rightarrow> (nat \<Rightarrow> nat list) \<Rightarrow> bool" where
  "hash_shape bs ht S cs \<longleftrightarrow> length ht = NR_HASH \<and>
     (\<forall>k < NR_HASH. chain bs None (ht ! k) (cs k) \<and> distinct (cs k) \<and>
        set (cs k) = {b \<in> S. hash_of (bs b) = k})"

lemma hash_of_less [simp]: "hashfn dev block < NR_HASH"
proof -
  have "(dev XOR block) mod 307 < (307 :: u32)" by (rule word_mod_less_divisor) simp
  then show ?thesis by (simp add: hashfn_def word_less_nat_alt)
qed

lemma queue_upd_simps [simp]:
  "hash_table (bupd b f s) = hash_table s" "free_list (bupd b f s) = free_list s"
  "nr_buffers (bupd b f s) = nr_buffers s"
  "bufs (set_hash k p s) = bufs s" "hash_table (set_hash k p s) = (hash_table s)[k := p]"
  "free_list (set_hash k p s) = free_list s" "nr_buffers (set_hash k p s) = nr_buffers s"
  by (simp_all add: bupd_def set_hash_def)

lemma ends_apart: "distinct (ys @ b # zs) \<Longrightarrow> ys \<noteq> [] \<Longrightarrow> zs \<noteq> [] \<Longrightarrow> last ys \<noteq> hd zs"
  by (metis IntI distinct_append empty_iff hd_in_set last_in_set list.set_intros(2))

lemma remove_from_hash_bufs:
  assumes c: "chain (bufs s) None (hash_table s ! k) (ys @ b # zs)" and d: "distinct (ys @ b # zs)"
    and k: "hash_of (bufs s b) = k"
  shows "bufs (remove_from_hash b s) =
      (\<lambda>z. if zs \<noteq> [] \<and> z = hd zs then (bufs s z)\<lparr>b_prev := b_prev (bufs s b)\<rparr>
           else if ys \<noteq> [] \<and> z = last ys then (bufs s z)\<lparr>b_next := b_next (bufs s b)\<rparr> else bufs s z)"
    and "hash_table (remove_from_hash b s) =
      (if ys = [] then (hash_table s)[k := b_next (bufs s b)] else hash_table s)"
    and "free_list (remove_from_hash b s) = free_list s" "nr_buffers (remove_from_hash b s) = nr_buffers s"
proof -
  note sp = chain_split [OF c]
  have nz: "zs \<noteq> [] \<Longrightarrow> hd zs \<noteq> b" "ys \<noteq> [] \<Longrightarrow> last ys \<noteq> b"
    "ys \<noteq> [] \<Longrightarrow> zs \<noteq> [] \<Longrightarrow> last ys \<noteq> hd zs" "ys \<noteq> [] \<Longrightarrow> hd ys \<noteq> b"
    using d hd_in_set [of zs] last_in_set [of ys] hd_in_set [of ys] ends_apart [OF d] by auto
  have ht: "hash_table s ! k = Some b \<longleftrightarrow> ys = []" using sp nz(4) by (cases ys) auto
  show "bufs (remove_from_hash b s) =
      (\<lambda>z. if zs \<noteq> [] \<and> z = hd zs then (bufs s z)\<lparr>b_prev := b_prev (bufs s b)\<rparr>
           else if ys \<noteq> [] \<and> z = last ys then (bufs s z)\<lparr>b_next := b_next (bufs s b)\<rparr> else bufs s z)"
    using sp nz k ht by (cases "ys = []"; cases "zs = []") (auto simp: remove_from_hash_def Let_def fun_eq_iff)
  show "hash_table (remove_from_hash b s) =
      (if ys = [] then (hash_table s)[k := b_next (bufs s b)] else hash_table s)"
    using sp nz k ht by (cases "ys = []"; cases "zs = []") (auto simp: remove_from_hash_def Let_def)
  show "free_list (remove_from_hash b s) = free_list s" "nr_buffers (remove_from_hash b s) = nr_buffers s"
    by (simp_all add: remove_from_hash_def Let_def split: option.split)
qed

lemma remove_from_hash_shape:
  assumes "hash_shape (bufs s) (hash_table s) S cs" "b \<in> S"
  obtains cs' where "hash_shape (bufs (remove_from_hash b s)) (hash_table (remove_from_hash b s)) (S - {b}) cs'"
    and "\<And>z. b_dev (bufs (remove_from_hash b s) z) = b_dev (bufs s z) \<and>
      b_blocknr (bufs (remove_from_hash b s) z) = b_blocknr (bufs s z) \<and>
      b_next_free (bufs (remove_from_hash b s) z) = b_next_free (bufs s z) \<and>
      b_prev_free (bufs (remove_from_hash b s) z) = b_prev_free (bufs s z)"
    and "free_list (remove_from_hash b s) = free_list s" "nr_buffers (remove_from_hash b s) = nr_buffers s"
    and "\<And>z. z \<notin> S \<Longrightarrow> bufs (remove_from_hash b s) z = bufs s z"
proof -
  let ?k = "hash_of (bufs s b)" and ?t = "remove_from_hash b s"
  have k: "?k < NR_HASH" by simp
  with assms have b: "b \<in> set (cs ?k)" by (auto simp: hash_shape_def)
  then obtain ys zs where csk: "cs ?k = ys @ b # zs" by (meson split_list)
  from assms(1) k csk have c: "chain (bufs s) None (hash_table s ! ?k) (ys @ b # zs)" "distinct (ys @ b # zs)"
    by (metis hash_shape_def)+
  note r = remove_from_hash_bufs [OF c refl]
  have other: "b_dev (bufs ?t z) = b_dev (bufs s z) \<and> b_blocknr (bufs ?t z) = b_blocknr (bufs s z) \<and>
      b_next_free (bufs ?t z) = b_next_free (bufs s z) \<and> b_prev_free (bufs ?t z) = b_prev_free (bufs s z)" for z
    by (simp add: r)
  have shape: "hash_shape (bufs ?t) (hash_table ?t) (S - {b}) (cs(?k := ys @ zs))"
    unfolding hash_shape_def
  proof (intro conjI allI impI)
    show "length (hash_table ?t) = NR_HASH" using assms(1) by (simp add: r hash_shape_def)
    fix j assume j: "j < NR_HASH"
    show "chain (bufs ?t) None (hash_table ?t ! j) ((cs(?k := ys @ zs)) j)"
    proof (cases "j = ?k")
      case True
      have "chain (bufs ?t) None (if ys = [] then b_next (bufs s b) else hash_table s ! ?k) (ys @ zs)"
        by (rule chain_remove [OF c]) (use c(2) ends_apart [OF c(2)] in \<open>auto simp: r\<close>)
      moreover have "hash_table ?t ! ?k = (if ys = [] then b_next (bufs s b) else hash_table s ! ?k)"
        using assms(1) k by (simp add: r hash_shape_def)
      ultimately show ?thesis using True by simp
    next
      case False
      have "z \<notin> set (ys @ b # zs)" if "z \<in> set (cs j)" for z
        using that False assms(1) j k csk unfolding hash_shape_def by (metis (mono_tags, lifting) mem_Collect_eq)
      then have "(zs \<noteq> [] \<longrightarrow> z \<noteq> hd zs) \<and> (ys \<noteq> [] \<longrightarrow> z \<noteq> last ys)" if "z \<in> set (cs j)" for z
        using that hd_in_set [of zs] last_in_set [of ys] by fastforce
      then have "chain (bufs ?t) None (hash_table s ! j) (cs j) = chain (bufs s) None (hash_table s ! j) (cs j)"
        by (intro chain_cong) (auto simp: r)
      with False assms(1) j show ?thesis by (simp add: r hash_shape_def)
    qed
    show "distinct ((cs(?k := ys @ zs)) j)" using c(2) assms(1) j by (simp add: hash_shape_def)
    have "set (cs j) = {z \<in> S. hash_of (bufs s z) = j}" using assms(1) j by (simp add: hash_shape_def)
    then show "set ((cs(?k := ys @ zs)) j) = {z \<in> S - {b}. hash_of (bufs ?t z) = j}"
      using c(2) csk by (auto simp: other)
  qed
  have rest: "bufs ?t z = bufs s z" if "z \<notin> S" for z
  proof -
    have "z \<notin> set (cs ?k)" using that assms(1) k by (auto simp: hash_shape_def)
    then have "(zs \<noteq> [] \<longrightarrow> z \<noteq> List.hd zs) \<and> (ys \<noteq> [] \<longrightarrow> z \<noteq> last ys)"
      using csk hd_in_set [of zs] last_in_set [of ys] by auto
    then show ?thesis by (auto simp: r)
  qed
  show thesis by (rule that [OF shape]) (simp_all add: other r(3,4) rest)
qed

lemma hash_shape_cong:
  assumes "hash_shape bs ht S cs" "S \<subseteq> A"
    and "\<And>z. z \<in> A \<Longrightarrow> b_dev (bs' z) = b_dev (bs z) \<and> b_blocknr (bs' z) = b_blocknr (bs z) \<and>
      b_next (bs' z) = b_next (bs z) \<and> b_prev (bs' z) = b_prev (bs z)"
  shows "hash_shape bs' ht S cs"
  unfolding hash_shape_def
proof (intro conjI allI impI)
  show "length ht = NR_HASH" using assms(1) by (simp add: hash_shape_def)
  fix k assume k: "k < NR_HASH"
  with assms(1) have s: "chain bs None (ht ! k) (cs k)" "distinct (cs k)" "set (cs k) = {b \<in> S. hash_of (bs b) = k}"
    by (simp_all add: hash_shape_def)
  have "chain bs' None (ht ! k) (cs k) = chain bs None (ht ! k) (cs k)"
    by (rule chain_cong) (use s(3) assms(2,3) in auto)
  with s show "chain bs' None (ht ! k) (cs k)" by simp
  show "distinct (cs k)" by (rule s(2))
  show "set (cs k) = {b \<in> S. hash_of (bs' b) = k}" using s(3) assms(2,3) by auto
qed

lemma put_in_hash_sel:
  "b_dev (bufs (put_in_hash b s) z) = b_dev (bufs s z)"
  "b_blocknr (bufs (put_in_hash b s) z) = b_blocknr (bufs s z)"
  "b_next_free (bufs (put_in_hash b s) z) = b_next_free (bufs s z)"
  "b_prev_free (bufs (put_in_hash b s) z) = b_prev_free (bufs s z)"
  "b_count (bufs (put_in_hash b s) z) = b_count (bufs s z)"
  "b_dirt (bufs (put_in_hash b s) z) = b_dirt (bufs s z)"
  "b_uptodate (bufs (put_in_hash b s) z) = b_uptodate (bufs s z)"
  "b_lock (bufs (put_in_hash b s) z) = b_lock (bufs s z)"
  "free_list (put_in_hash b s) = free_list s" "nr_buffers (put_in_hash b s) = nr_buffers s"
  by (auto simp: put_in_hash_def Let_def split: option.split)

lemma put_in_hash_shape:
  assumes "hash_shape (bufs s) (hash_table s) S cs" "b \<notin> S" "b_dev (bufs s b) \<noteq> 0"
  shows "\<exists>cs'. hash_shape (bufs (put_in_hash b s)) (hash_table (put_in_hash b s)) (insert b S) cs' \<and>
    (\<forall>z. z \<notin> insert b S \<longrightarrow> bufs (put_in_hash b s) z = bufs s z)"
proof -
  let ?k = "hash_of (bufs s b)" and ?t = "put_in_hash b s"
  have k: "?k < NR_HASH" by simp
  with assms(1) have c: "chain (bufs s) None (hash_table s ! ?k) (cs ?k)" "distinct (cs ?k)"
    "set (cs ?k) = {z \<in> S. hash_of (bufs s z) = ?k}" by (simp_all add: hash_shape_def)
  have nb: "b \<notin> set (cs j)" if "j < NR_HASH" for j using assms(1,2) that by (auto simp: hash_shape_def)
  have hd: "hash_table s ! ?k = (case cs ?k of [] \<Rightarrow> None | x # xs \<Rightarrow> Some x)"
    using c(1) by (cases "cs ?k") auto
  have bt: "bufs ?t = (\<lambda>z. if z = b then (bufs s b)\<lparr>b_next := hash_table s ! ?k, b_prev := None\<rparr>
      else if cs ?k \<noteq> [] \<and> z = List.hd (cs ?k) then (bufs s z)\<lparr>b_prev := Some b\<rparr> else bufs s z)"
    using assms(3) nb [OF k] hd
    by (cases "cs ?k") (auto simp: put_in_hash_def Let_def fun_eq_iff)
  have ht: "hash_table ?t = (hash_table s)[?k := Some b]"
    using assms(3) by (auto simp: put_in_hash_def Let_def split: option.split)
  have "hash_shape (bufs ?t) (hash_table ?t) (insert b S) (cs(?k := b # cs ?k))"
    unfolding hash_shape_def
  proof (intro conjI allI impI)
    show "length (hash_table ?t) = NR_HASH" using assms(1) by (simp add: ht hash_shape_def)
    fix j assume j: "j < NR_HASH"
    show "chain (bufs ?t) None (hash_table ?t ! j) ((cs(?k := b # cs ?k)) j)"
    proof (cases "j = ?k")
      case True
      have "chain (bufs ?t) (Some b) (hash_table s ! ?k) (cs ?k)"
      proof (cases "cs ?k")
        case (Cons x xs)
        have "chain (bufs ?t) (Some x) (b_next (bufs s x)) xs = chain (bufs s) (Some x) (b_next (bufs s x)) xs"
          by (rule chain_cong) (use c(2) nb [OF k] Cons in \<open>auto simp: bt\<close>)
        with c(1) nb [OF k] Cons show ?thesis by (auto simp: bt)
      qed (use hd in simp)
      with True assms(1) k show ?thesis by (simp add: ht bt hash_shape_def)
    next
      case False
      have "z \<notin> set (cs ?k)" if "z \<in> set (cs j)" for z
        using that False assms(1) j k unfolding hash_shape_def by (metis (mono_tags, lifting) mem_Collect_eq)
      then have "z \<noteq> b \<and> (cs ?k \<noteq> [] \<longrightarrow> z \<noteq> List.hd (cs ?k))" if "z \<in> set (cs j)" for z
        using that nb [OF j] hd_in_set [of "cs ?k"] by blast
      then have "chain (bufs ?t) None (hash_table s ! j) (cs j) = chain (bufs s) None (hash_table s ! j) (cs j)"
        by (intro chain_cong) (auto simp: bt)
      with False assms(1) j show ?thesis by (simp add: ht hash_shape_def)
    qed
    show "distinct ((cs(?k := b # cs ?k)) j)" using c(2) nb [OF k] assms(1) j by (simp add: hash_shape_def)
    have "set (cs j) = {z \<in> S. hash_of (bufs s z) = j}" using assms(1) j by (simp add: hash_shape_def)
    then show "set ((cs(?k := b # cs ?k)) j) = {z \<in> insert b S. hash_of (bufs ?t z) = j}"
      by (auto simp: put_in_hash_sel)
  qed
  moreover have "bufs ?t z = bufs s z" if "z \<notin> insert b S" for z
    using that c(3) hd_in_set [of "cs ?k"] by (auto simp: bt)
  ultimately show ?thesis by blast
qed

section \<open>Moving a buffer to the end of the ring\<close>

lemma ring_head_tail: "ring bs xs \<Longrightarrow> b_prev_free (bs (List.hd xs)) = Some (last xs)"
  using links_last by (cases xs) (auto simp: ring_def)

lemma put_on_free_list_ring:
  assumes "ring (bufs s) xs" "free_list s = Some (List.hd xs)" "b \<notin> set xs"
  shows "\<exists>t. put_on_free_list b s = Done () t \<and> ring (bufs t) (xs @ [b]) \<and>
    bufs t = relink b (List.hd xs) (relink (last xs) b (bufs s)) \<and>
    free_list t = free_list s \<and> nr_buffers t = nr_buffers s \<and> hash_table t = hash_table s"
proof -
  from assms(1) obtain x ys where xs: "xs = x # ys" by (cases xs) auto
  have pv: "b_prev_free (bufs s x) = Some (last xs)" using ring_head_tail [OF assms(1)] by (simp add: xs)
  have ne: "b \<noteq> x" "b \<noteq> last xs" using assms(3) xs last_in_set [of xs] by auto
  let ?bs = "relink b x (relink (last xs) b (bufs s))"
  have "\<exists>t. put_on_free_list b s = Done () t \<and> bufs t = ?bs \<and>
      free_list t = free_list s \<and> nr_buffers t = nr_buffers s \<and> hash_table t = hash_table s"
    using assms(2) pv ne by (auto simp: put_on_free_list_def xs Let_def relink_def fun_eq_iff)
  moreover have "ring ?bs (xs @ [b])" using ring_insert [of "bufs s" x ys b] assms(1,3) by (simp add: xs)
  ultimately show ?thesis by (auto simp: xs)
qed

lemma remove_from_free_list_ring:
  assumes "ring (bufs s) xs" "free_list s = Some (List.hd xs)" "b \<in> set xs" "xs \<noteq> [b]"
  shows "\<exists>t p n. remove_from_free_list b s = Done () t \<and> ring (bufs t) (remove1 b xs) \<and>
    bufs t = relink p n (bufs s) \<and>
    free_list t = Some (List.hd (remove1 b xs)) \<and> nr_buffers t = nr_buffers s \<and> hash_table t = hash_table s"
proof -
  obtain ys zs where xs: "xs = ys @ b # zs" using assms(3) by (meson split_list)
  have d: "distinct xs" using assms(1) by (auto simp: ring_def split: list.splits)
  obtain c cs where ccs: "zs @ ys = c # cs" using assms(4) xs by (cases "zs @ ys") auto
  have r: "ring (bufs s) (b # c # cs)" using assms(1) ring_rotate [of "bufs s" ys "b # zs"] xs ccs by simp
  then have nb: "b_next_free (bufs s b) = Some c" "b_prev_free (bufs s b) = Some (last (c # cs))"
    using links_neighbours [of "bufs s" b "c # cs"] by auto
  have ne: "c \<noteq> b" "last (c # cs) \<noteq> b"
    using r last_in_set [of "c # cs"] by auto
  let ?bs = "relink (last (c # cs)) c (bufs s)"
  have r1: "remove1 b xs = ys @ zs" using d xs by (simp add: remove1_append)
  have fl: "(if free_list s = Some b then Some c else free_list s) = Some (List.hd (ys @ zs))"
    using assms(2) xs ccs d by (cases ys) auto
  have "\<exists>t. remove_from_free_list b s = Done () t \<and> bufs t = ?bs \<and>
      free_list t = (if free_list s = Some b then Some c else free_list s) \<and>
      nr_buffers t = nr_buffers s \<and> hash_table t = hash_table s"
    using nb ne by (auto simp: remove_from_free_list_def Let_def relink_def fun_eq_iff)
  moreover have "ring ?bs (ys @ zs)" using ring_remove [OF r] ring_rotate [of ?bs zs ys] ccs by simp
  ultimately show ?thesis using fl by (metis r1)
qed

section \<open>The invariant\<close>

text \<open>
  The cache in order: all buffers in one ring, each buffer that holds a block in the chain of its hash
  value and nowhere else, and no block in two buffers.
\<close>

definition hashed :: "(nat \<Rightarrow> buffer_head) \<Rightarrow> nat \<Rightarrow> nat set" where
  "hashed bs n = {b. b < n \<and> b_dev (bs b) \<noteq> 0}"

definition unique_blocks :: "(nat \<Rightarrow> buffer_head) \<Rightarrow> nat \<Rightarrow> bool" where
  "unique_blocks bs n \<longleftrightarrow> (\<forall>b \<in> hashed bs n. \<forall>c \<in> hashed bs n.
     b_dev (bs b) = b_dev (bs c) \<and> b_blocknr (bs b) = b_blocknr (bs c) \<longrightarrow> b = c)"

definition cache_shape :: "(nat \<Rightarrow> buffer_head) \<Rightarrow> nat option list \<Rightarrow> nat option \<Rightarrow> nat
    \<Rightarrow> nat list \<Rightarrow> (nat \<Rightarrow> nat list) \<Rightarrow> bool" where
  "cache_shape bs ht fl n xs cs \<longleftrightarrow>
     ring bs xs \<and> set xs = {..<n} \<and> fl = Some (List.hd xs) \<and> hash_shape bs ht (hashed bs n) cs \<and>
     (\<forall>b < n. b_dev (bs b) = 0 \<longrightarrow> b_next (bs b) = None \<and> b_prev (bs b) = None)"

definition cache_wf :: "'a fs_state_scheme \<Rightarrow> bool" where
  "cache_wf s \<longleftrightarrow> unique_blocks (bufs s) (nr_buffers s) \<and>
     (\<exists>xs cs. cache_shape (bufs s) (hash_table s) (free_list s) (nr_buffers s) xs cs)"

lemma cache_wf_same_block:
  assumes "cache_wf s" "\<And>b. same_block (bufs t b) (bufs s b)"
    and "hash_table t = hash_table s" "free_list t = free_list s" "nr_buffers t = nr_buffers s"
  shows "cache_wf t"
proof -
  from assms(1) obtain xs cs where u: "unique_blocks (bufs s) (nr_buffers s)"
    and c: "cache_shape (bufs s) (hash_table s) (free_list s) (nr_buffers s) xs cs"
    by (auto simp: cache_wf_def)
  have h: "hashed (bufs t) n = hashed (bufs s) n" for n
    using assms(2) by (simp add: hashed_def same_block_def)
  have "hash_shape (bufs t) (hash_table s) (hashed (bufs s) (nr_buffers s)) cs"
    by (rule hash_shape_cong [where A = UNIV]) (use c assms(2) in \<open>auto simp: cache_shape_def same_block_def\<close>)
  moreover have "links (bufs t) x ys y = links (bufs s) x ys y" for x ys y
    by (rule links_cong) (use assms(2) in \<open>simp_all add: same_block_def\<close>)
  then have "ring (bufs t) xs = ring (bufs s) xs" by (cases xs) simp_all
  ultimately have "cache_shape (bufs t) (hash_table t) (free_list t) (nr_buffers t) xs cs"
    using c assms(2-5) by (auto simp: cache_shape_def h same_block_def)
  moreover have "unique_blocks (bufs t) (nr_buffers t)"
    using u assms(2,5) by (auto simp: unique_blocks_def h same_block_def)
  ultimately show ?thesis by (auto simp: cache_wf_def)
qed

lemma cache_wf_find:
  assumes "cache_wf s" "ucast (ucast dev :: u16) = dev"
  shows "\<exists>r. find_buffer dev block s = Done r s \<and>
    (case r of None \<Rightarrow> \<forall>b \<in> hashed (bufs s) (nr_buffers s).
        \<not> (b_dev (bufs s b) = ucast dev \<and> b_blocknr (bufs s b) = block)
      | Some b \<Rightarrow> b \<in> hashed (bufs s) (nr_buffers s) \<and> b_dev (bufs s b) = ucast dev \<and> b_blocknr (bufs s b) = block)"
proof -
  let ?k = "hashfn dev block" and ?P = "\<lambda>b. b_dev (bufs s b) = ucast dev \<and> b_blocknr (bufs s b) = block"
  from assms(1) obtain xs cs where c: "cache_shape (bufs s) (hash_table s) (free_list s) (nr_buffers s) xs cs"
    by (auto simp: cache_wf_def)
  then have k: "chain (bufs s) None (hash_table s ! ?k) (cs ?k)" "distinct (cs ?k)"
    "set (cs ?k) = {b \<in> hashed (bufs s) (nr_buffers s). hash_of (bufs s b) = ?k}"
    by (simp_all add: cache_shape_def hash_shape_def)
  have "set (cs ?k) \<subseteq> {..<nr_buffers s}" using k(3) by (auto simp: hashed_def)
  then have "card (set (cs ?k)) \<le> nr_buffers s" using card_mono [of "{..<nr_buffers s}" "set (cs ?k)"] by simp
  then have "length (cs ?k) < Suc (nr_buffers s)" using k(2) by (simp add: distinct_card)
  from walk_chain_finds [OF k(1) this]
  have f: "find_buffer dev block s = Done (find ?P (cs ?k)) s" by (simp add: find_buffer_def)
  show ?thesis
  proof (cases "find ?P (cs ?k)")
    case None
    have "\<not> ?P b" if "b \<in> hashed (bufs s) (nr_buffers s)" for b
    proof
      assume p: "?P b"
      then have "hash_of (bufs s b) = ?k" using assms(2) by simp
      with that k(3) None p show False by (auto simp: find_None_iff)
    qed
    with f None show ?thesis by auto
  next
    case (Some b)
    then have "b \<in> set (cs ?k)" "?P b" by (auto simp: find_Some_iff)
    with f Some k(3) show ?thesis by auto
  qed
qed

text \<open>Out of the ring and in again at its end; between the two steps only other fields of \<open>b\<close> change.\<close>

definition same_rest :: "buffer_head \<Rightarrow> buffer_head \<Rightarrow> bool" where
  "same_rest g h \<longleftrightarrow> b_data g = b_data h \<and> b_blocknr g = b_blocknr h \<and> b_dev g = b_dev h \<and>
     b_uptodate g = b_uptodate h \<and> b_dirt g = b_dirt h \<and> b_count g = b_count h \<and> b_lock g = b_lock h \<and>
     b_prev g = b_prev h \<and> b_next g = b_next h"

lemma same_rest_relink: "same_rest (relink p n bs z) (bs z)"
  by (simp add: same_rest_def)

lemma same_rest_trans: "same_rest f g \<Longrightarrow> same_rest g h \<Longrightarrow> same_rest f h"
  by (simp add: same_rest_def)

lemma ring_cong:
  "(\<And>z. b_next_free (bs' z) = b_next_free (bs z) \<and> b_prev_free (bs' z) = b_prev_free (bs z)) \<Longrightarrow>
   ring bs' xs = ring bs xs"
  using links_cong [of _ _ bs' bs] by (cases xs) auto

lemma to_end_of_ring:
  assumes "ring (bufs s) xs" "free_list s = Some (List.hd xs)" "b \<in> set xs"
    and f: "\<And>h. b_next_free (f h) = b_next_free h \<and> b_prev_free (f h) = b_prev_free h"
  shows "\<exists>t u. remove_from_free_list b s = Done () t \<and> put_on_free_list b (bupd b f t) = Done () u \<and>
    ring (bufs u) (remove1 b xs @ [b]) \<and> free_list u = Some (List.hd (remove1 b xs @ [b])) \<and>
    hash_table u = hash_table s \<and> nr_buffers u = nr_buffers s \<and>
    (\<forall>z. same_rest (bufs t z) (bufs s z)) \<and>
    (\<forall>z. same_rest (bufs u z) (((bufs t)(b := f (bufs t b))) z))"
proof (cases "xs = [b]")
  case True
  then have n: "b_next_free (bufs s b) = Some b" "b_prev_free (bufs s b) = Some b" "free_list s = Some b"
    using assms(1,2) by simp_all
  let ?t = "bupd b (\<lambda>h. h\<lparr>b_next_free := Some b\<rparr>) s"
  have "remove_from_free_list b s = Done () (?t\<lparr>free_list := Some b\<rparr>)"
    using n by (simp add: remove_from_free_list_def Let_def bupd_def)
  moreover have "\<exists>u. put_on_free_list b (bupd b f (?t\<lparr>free_list := Some b\<rparr>)) = Done () u \<and>
      ring (bufs u) [b] \<and> free_list u = Some b \<and> hash_table u = hash_table s \<and> nr_buffers u = nr_buffers s \<and>
      (\<forall>z. same_rest (bufs u z) (((bufs ?t)(b := f (bufs ?t b))) z))"
    using f n by (simp add: put_on_free_list_def Let_def same_rest_def)
  ultimately show ?thesis using True by (auto simp: same_rest_def)
next
  case False
  from remove_from_free_list_ring [OF assms(1-3) False] obtain t p n where t:
    "remove_from_free_list b s = Done () t" "ring (bufs t) (remove1 b xs)" "bufs t = relink p n (bufs s)"
    "free_list t = Some (List.hd (remove1 b xs))" "nr_buffers t = nr_buffers s" "hash_table t = hash_table s"
    by blast
  have d: "distinct xs" using assms(1) by (auto simp: ring_def split: list.splits)
  have "ring (bufs (bupd b f t)) (remove1 b xs)"
    using t(2) by (subst ring_cong [of _ "bufs t"]) (use f in auto)
  moreover have "free_list (bupd b f t) = Some (List.hd (remove1 b xs))" using t(4) by simp
  ultimately obtain u where u: "put_on_free_list b (bupd b f t) = Done () u" "ring (bufs u) (remove1 b xs @ [b])"
    "bufs u = relink b (List.hd (remove1 b xs)) (relink (last (remove1 b xs)) b (bufs (bupd b f t)))"
    "free_list u = free_list t" "nr_buffers u = nr_buffers t" "hash_table u = hash_table t"
    using put_on_free_list_ring [of "bupd b f t" "remove1 b xs" b] d by auto
  have ne: "remove1 b xs \<noteq> []" using t(2) by auto
  have "\<forall>z. same_rest (bufs t z) (bufs s z)" by (simp add: t(3) same_rest_relink)
  moreover have "\<forall>z. same_rest (bufs u z) (((bufs t)(b := f (bufs t b))) z)"
    by (simp add: u(3) same_rest_def)
  ultimately show ?thesis
    using t(1,4-6) u(1,2,4-6) ne by - (rule exI [of _ t], rule exI [of _ u], simp add: hd_append)
qed

lemma remove_from_hash_flags:
  "b_count (bufs (remove_from_hash b s) z) = b_count (bufs s z)"
  "b_dirt (bufs (remove_from_hash b s) z) = b_dirt (bufs s z)"
  "b_uptodate (bufs (remove_from_hash b s) z) = b_uptodate (bufs s z)"
  "b_lock (bufs (remove_from_hash b s) z) = b_lock (bufs s z)"
  by (auto simp: remove_from_hash_def Let_def split: option.split)

lemma remove_from_hash_free:
  assumes "hash_shape (bufs s) (hash_table s) S cs" "b \<notin> S" "b_next (bufs s b) = None" "b_prev (bufs s b) = None"
  shows "remove_from_hash b s = s"
proof -
  let ?k = "hash_of (bufs s b)"
  have "chain (bufs s) None (hash_table s ! ?k) (cs ?k)" "b \<notin> set (cs ?k)"
    using assms(1,2) by (auto simp: hash_shape_def)
  then have "hash_table s ! ?k \<noteq> Some b" by (cases "cs ?k") auto
  with assms(3,4) show ?thesis by (simp add: remove_from_hash_def Let_def)
qed

text \<open>Out of the chain a buffer is in, if any, and into the one its block hashes to.\<close>

lemma out_of_hash:
  assumes c: "cache_shape (bufs s) (hash_table s) (free_list s) n xs cs" and n: "nr_buffers s = n" "b < n"
    and u: "u = remove_from_hash b s"
  shows "\<exists>cs. hash_shape (bufs u) (hash_table u) (hashed (bufs s) n - {b}) cs \<and>
      (\<forall>z. b_dev (bufs u z) = b_dev (bufs s z) \<and> b_blocknr (bufs u z) = b_blocknr (bufs s z) \<and>
         b_next_free (bufs u z) = b_next_free (bufs s z) \<and> b_prev_free (bufs u z) = b_prev_free (bufs s z)) \<and>
      free_list u = free_list s \<and> nr_buffers u = n \<and> (\<forall>z. z \<notin> hashed (bufs s) n \<longrightarrow> bufs u z = bufs s z)"
proof -
  have h: "hash_shape (bufs s) (hash_table s) (hashed (bufs s) n) cs" using c by (simp add: cache_shape_def)
  show ?thesis
  proof (cases "b \<in> hashed (bufs s) n")
    case True
    show ?thesis unfolding u by (rule remove_from_hash_shape [OF h True]) (use n in auto)
  next
    case False
    then have "b_dev (bufs s b) = 0" using n by (auto simp: hashed_def)
    with c n have "b_next (bufs s b) = None" "b_prev (bufs s b) = None" unfolding cache_shape_def by blast+
    from remove_from_hash_free [OF h False this] have "u = s" by (simp add: u)
    with h n False show ?thesis by auto
  qed
qed

lemma into_hash:
  assumes h: "hash_shape (bufs s) (hash_table s) S cs" and b: "b \<notin> S" and u: "u = put_in_hash b s"
  shows "\<exists>cs. hash_shape (bufs u) (hash_table u) (if b_dev (bufs s b) = 0 then S else insert b S) cs \<and>
      (\<forall>z. z \<notin> insert b S \<longrightarrow> bufs u z = bufs s z) \<and>
      (b_dev (bufs s b) = 0 \<longrightarrow> b_next (bufs u b) = None \<and> b_prev (bufs u b) = None)"
proof (cases "b_dev (bufs s b) = 0")
  case True
  then have v: "u = bupd b (\<lambda>h. h\<lparr>b_next := None, b_prev := None\<rparr>) s"
    by (simp add: u put_in_hash_def Let_def)
  have "hash_shape (bufs u) (hash_table s) S cs"
    by (rule hash_shape_cong [OF h, of S]) (use b in \<open>auto simp: v\<close>)
  with True show ?thesis by (auto simp: v)
next
  case False
  from put_in_hash_shape [OF h b False] show ?thesis unfolding u if_not_P [OF False] using False by blast
qed

text \<open>
  The round trip of a buffer through the queues, with another block in between: it is the last of the ring
  and in the chain of the new block.
\<close>

lemma rename_in_queues:
  assumes c: "cache_shape (bufs s) (hash_table s) (free_list s) n xs cs" and n: "nr_buffers s = n" "b < n"
    and f: "f = (\<lambda>h. h\<lparr>b_dev := d, b_blocknr := block\<rparr>)"
  shows "\<exists>t u cs. remove_from_queues b s = Done () t \<and> insert_into_queues b (bupd b f t) = Done () u \<and> nr_buffers u = n \<and>
      ring (bufs u) (remove1 b xs @ [b]) \<and> free_list u = Some (List.hd (remove1 b xs @ [b])) \<and>
      b_count (bufs u b) = b_count (bufs s b) \<and> b_dirt (bufs u b) = b_dirt (bufs s b) \<and>
      b_uptodate (bufs u b) = b_uptodate (bufs s b) \<and> b_lock (bufs u b) = b_lock (bufs s b) \<and>
      (\<forall>z. b_dev (bufs u z) = (if z = b then d else b_dev (bufs s z)) \<and>
         b_blocknr (bufs u z) = (if z = b then block else b_blocknr (bufs s z))) \<and>
      hash_shape (bufs u) (hash_table u) (hashed (bufs u) n) cs \<and>
      (\<forall>z < n. b_dev (bufs u z) = 0 \<longrightarrow> b_next (bufs u z) = None \<and> b_prev (bufs u z) = None)"
proof -
  let ?s2 = "remove_from_hash b s" and ?S = "hashed (bufs s) n - {b}"
  from out_of_hash [OF c n refl] obtain cs2 where h2: "hash_shape (bufs ?s2) (hash_table ?s2) ?S cs2"
    and same2: "\<And>z. b_dev (bufs ?s2 z) = b_dev (bufs s z) \<and> b_blocknr (bufs ?s2 z) = b_blocknr (bufs s z) \<and>
         b_next_free (bufs ?s2 z) = b_next_free (bufs s z) \<and> b_prev_free (bufs ?s2 z) = b_prev_free (bufs s z)"
    and f2: "free_list ?s2 = free_list s" "nr_buffers ?s2 = n"
    and rest2: "\<And>z. z \<notin> hashed (bufs s) n \<Longrightarrow> bufs ?s2 z = bufs s z" by blast
  have r2: "ring (bufs ?s2) xs" "free_list ?s2 = Some (List.hd xs)" "b \<in> set xs"
    using c n f2 ring_cong [of "bufs ?s2" "bufs s" xs] same2 by (auto simp: cache_shape_def)
  from to_end_of_ring [OF r2, of f] obtain t u where
    t: "remove_from_free_list b ?s2 = Done () t" "\<And>z. same_rest (bufs t z) (bufs ?s2 z)"
    and u: "put_on_free_list b (bupd b f t) = Done () u" "ring (bufs u) (remove1 b xs @ [b])"
      "free_list u = Some (List.hd (remove1 b xs @ [b]))" "hash_table u = hash_table ?s2" "nr_buffers u = n"
      "\<And>z. same_rest (bufs u z) (((bufs t)(b := f (bufs t b))) z)"
    using f2 f by auto
  let ?v = "put_in_hash b u"
  have ub: "b_dev (bufs u b) = d" "b_blocknr (bufs u b) = block" "b_count (bufs u b) = b_count (bufs s b)"
    "b_dirt (bufs u b) = b_dirt (bufs s b)" "b_uptodate (bufs u b) = b_uptodate (bufs s b)" "b_lock (bufs u b) = b_lock (bufs s b)"
    using u(6) [of b] t(2) [of b] remove_from_hash_flags [of b s b] f by (simp_all add: same_rest_def)
  have uo: "same_rest (bufs u z) (bufs ?s2 z)" if "z \<noteq> b" for z
    using u(6) [of z] t(2) [of z] that same_rest_trans by simp
  have vdev: "b_dev (bufs ?v z) = (if z = b then d else b_dev (bufs s z))"
      "b_blocknr (bufs ?v z) = (if z = b then block else b_blocknr (bufs s z))" for z
    using ub uo [of z] same2 [of z] by (auto simp: put_in_hash_sel same_rest_def)
  have hu: "hash_shape (bufs u) (hash_table u) ?S cs2"
    unfolding u(4) by (rule hash_shape_cong [OF h2, of ?S]) (use uo in \<open>auto simp: same_rest_def\<close>)
  have hv: "hashed (bufs ?v) n = (if b_dev (bufs u b) = 0 then ?S else insert b ?S)"
    using n ub(1) by (auto simp: hashed_def vdev)
  from into_hash [OF hu _ refl, of b] obtain cs3 where v: "hash_shape (bufs ?v) (hash_table ?v) (hashed (bufs ?v) n) cs3"
    "\<And>z. z \<notin> insert b ?S \<Longrightarrow> bufs ?v z = bufs u z" "d = 0 \<Longrightarrow> b_next (bufs ?v b) = None \<and> b_prev (bufs ?v b) = None"
    unfolding hv using ub(1) by blast
  have "b_next (bufs ?v z) = None \<and> b_prev (bufs ?v z) = None" if "z < n" "b_dev (bufs ?v z) = 0" for z
  proof (cases "z = b")
    case False
    with that have "b_dev (bufs s z) = 0" by (simp add: vdev)
    moreover from this have nh: "z \<notin> hashed (bufs s) n" by (simp add: hashed_def)
    ultimately have "b_next (bufs s z) = None \<and> b_prev (bufs s z) = None" using c that(1)
      unfolding cache_shape_def by blast
    with rest2 [OF nh] v(2) [of z] uo [OF False] nh False show ?thesis by (simp add: same_rest_def)
  qed (use that v(3) vdev in simp)
  moreover have "ring (bufs ?v) (remove1 b xs @ [b])"
    using u(2) ring_cong [of "bufs ?v" "bufs u"] by (simp add: put_in_hash_sel)
  ultimately show ?thesis using t(1) u(1,3,5) ub vdev v(1)
    by (intro exI [of _ t] exI [of _ ?v] exI [of _ cs3]) (simp add: remove_from_queues_def insert_into_queues_def put_in_hash_sel)
qed

lemma take_buffer_moves:
  assumes wf: "cache_wf s" and b: "b < nr_buffers s"
    and fresh: "\<forall>c \<in> hashed (bufs s) (nr_buffers s). \<not> (b_dev (bufs s c) = ucast dev \<and> b_blocknr (bufs s c) = block)"
  shows "\<exists>t xs. take_buffer b dev block s = Done b t \<and> cache_wf t \<and> nr_buffers t = nr_buffers s \<and>
    ring (bufs s) xs \<and> free_list s = Some (List.hd xs) \<and> set xs = {..<nr_buffers s} \<and>
    ring (bufs t) (remove1 b xs @ [b]) \<and> free_list t = Some (List.hd (remove1 b xs @ [b])) \<and>
    b_lock (bufs t b) = b_lock (bufs s b) \<and>
    b_dev (bufs t b) = ucast dev \<and> b_blocknr (bufs t b) = block \<and>
    b_count (bufs t b) = 1 \<and> b_dirt (bufs t b) = 0 \<and> b_uptodate (bufs t b) = 0 \<and>
    (\<forall>c. c \<noteq> b \<longrightarrow> b_dev (bufs t c) = b_dev (bufs s c) \<and> b_blocknr (bufs t c) = b_blocknr (bufs s c))"
proof -
  let ?n = "nr_buffers s" and ?s1 = "bupd b (\<lambda>h. h\<lparr>b_count := 1, b_dirt := 0, b_uptodate := 0\<rparr>) s"
  have "cache_wf ?s1"
    by (rule cache_wf_same_block [OF wf]) (simp_all add: same_block_def)
  then obtain xs cs where c: "cache_shape (bufs ?s1) (hash_table ?s1) (free_list ?s1) ?n xs cs"
    by (auto simp: cache_wf_def)
  from rename_in_queues [OF c _ b refl, where d = "ucast dev" and block = block] obtain t u cs3 where
    run: "remove_from_queues b ?s1 = Done () t"
      "insert_into_queues b (bupd b (\<lambda>h. h\<lparr>b_dev := ucast dev, b_blocknr := block\<rparr>) t) = Done () u"
    and u: "nr_buffers u = ?n" "ring (bufs u) (remove1 b xs @ [b])" "free_list u = Some (List.hd (remove1 b xs @ [b]))"
      "b_count (bufs u b) = 1" "b_dirt (bufs u b) = 0" "b_uptodate (bufs u b) = 0" "b_lock (bufs u b) = b_lock (bufs s b)"
    and names: "\<And>z. b_dev (bufs u z) = (if z = b then ucast dev else b_dev (bufs s z))"
      "\<And>z. b_blocknr (bufs u z) = (if z = b then block else b_blocknr (bufs s z))"
    and h: "hash_shape (bufs u) (hash_table u) (hashed (bufs u) ?n) cs3"
      "\<forall>z < ?n. b_dev (bufs u z) = 0 \<longrightarrow> b_next (bufs u z) = None \<and> b_prev (bufs u z) = None"
    by auto
  have "set (remove1 b xs @ [b]) = {..<?n}"
    using c b by (auto simp: cache_shape_def ring_def split: list.splits)
  then have "cache_shape (bufs u) (hash_table u) (free_list u) (nr_buffers u) (remove1 b xs @ [b]) cs3"
    using h u(1-3) by (simp add: cache_shape_def)
  moreover have "unique_blocks (bufs u) (nr_buffers u)"
    using wf fresh by (auto simp: cache_wf_def unique_blocks_def hashed_def names u(1) split: if_splits)
  ultimately have "cache_wf u" by (auto simp: cache_wf_def)
  moreover have "ring (bufs s) xs" using c ring_cong [of "bufs s" "bufs ?s1" xs] by (auto simp: cache_shape_def)
  moreover have "free_list s = Some (List.hd xs)" "set xs = {..<?n}" using c by (simp_all add: cache_shape_def)
  moreover have "take_buffer b dev block s = Done b u" using run by (simp add: take_buffer_def)
  ultimately show ?thesis using u names by (intro exI [of _ u] exI [of _ xs]) simp
qed

lemma take_buffer_Done:
  assumes "cache_wf s" "b < nr_buffers s"
    and "\<forall>c \<in> hashed (bufs s) (nr_buffers s). \<not> (b_dev (bufs s c) = ucast dev \<and> b_blocknr (bufs s c) = block)"
  shows "\<exists>t. take_buffer b dev block s = Done b t \<and> cache_wf t \<and> nr_buffers t = nr_buffers s \<and>
    b_dev (bufs t b) = ucast dev \<and> b_blocknr (bufs t b) = block \<and> b_count (bufs t b) = 1 \<and>
    b_lock (bufs t b) = b_lock (bufs s b)"
  using take_buffer_moves [OF assms] by blast

end
