(* ===== verification/Cache.thy ===== *)
theory Cache
  imports Buffer_Queues
begin

text \<open>
  What the buffer cache promises: the invariant of its queues holds wherever \<open>getblk\<close>,
  \<open>bread\<close> and \<open>brelse\<close> are, sleeping included, and the buffer they return is the one of the
  block asked for, which no other buffer holds.
\<close>

section \<open>The invariant across the block layer\<close>

text \<open>
  \<open>cache_inv n\<close>: the cache is in order, it has \<open>n\<close> buffers, and the root device is a device number,
  16 bits, without which mounting it would put blocks into the wrong chains.
\<close>

definition cache_inv :: "nat \<Rightarrow> 'a fs_state_scheme \<Rightarrow> bool" where
  "cache_inv n s \<longleftrightarrow> cache_wf s \<and> nr_buffers s = n \<and> ucast (ucast (ROOT_DEV s) :: u16) = ROOT_DEV s"

lemma cache_inv_same_block:
  assumes "cache_inv n s" "\<And>b. same_block (bufs t b) (bufs s b)"
    and "hash_table t = hash_table s" "free_list t = free_list s" "nr_buffers t = nr_buffers s" "ROOT_DEV t = ROOT_DEV s"
  shows "cache_inv n t"
  using assms cache_wf_same_block [of s t] by (simp add: cache_inv_def)

lemma same_block_refl [simp]: "same_block h h"
  by (simp add: same_block_def)

interpretation cache: block_frame "cache_inv n" for n
proof unfold_locales
  fix s :: "'a fs_state_scheme" and b f
  assume "cache_inv n s" "\<And>h. same_block (f h) h"
  then show "cache_inv n (bupd b f s)"
    by (elim cache_inv_same_block) simp_all
qed (erule cache_inv_same_block; simp)+

section \<open>getblk\<close>

lemma find_buffer_always:
  assumes "cache_inv n s" "ucast (ucast dev :: u16) = dev"
  shows "always (find_buffer dev block s) (cache_inv n) (\<lambda>r t. t = s \<and>
    (case r of None \<Rightarrow> \<forall>b \<in> hashed (bufs s) n. \<not> (b_dev (bufs s b) = ucast dev \<and> b_blocknr (bufs s b) = block)
      | Some b \<Rightarrow> b < n \<and> b_dev (bufs s b) = ucast dev \<and> b_blocknr (bufs s b) = block))"
proof -
  from assms(1) have wf: "cache_wf s" "nr_buffers s = n" by (simp_all add: cache_inv_def)
  from cache_wf_find [OF wf(1) assms(2), of block] obtain r where r: "find_buffer dev block s = Done r s"
    "case r of None \<Rightarrow> \<forall>b \<in> hashed (bufs s) n. \<not> (b_dev (bufs s b) = ucast dev \<and> b_blocknr (bufs s b) = block)
      | Some b \<Rightarrow> b \<in> hashed (bufs s) n \<and> b_dev (bufs s b) = ucast dev \<and> b_blocknr (bufs s b) = block"
    unfolding wf(2) by blast
  then show ?thesis using assms(1) by (cases r) (simp_all add: hashed_def)
qed

definition holds :: "nat \<Rightarrow> u32 \<Rightarrow> u32 \<Rightarrow> nat \<Rightarrow> 'a fs_state_scheme \<Rightarrow> bool" where
  "holds n dev block b t \<longleftrightarrow> b < n \<and> b_dev (bufs t b) = ucast dev \<and> b_blocknr (bufs t b) = block"

lemma wait_on_buffer_always:
  assumes "\<And>s. cache_inv n s \<Longrightarrow> cache_inv n (env s)" "cache_inv n s"
  shows "always (wait_on_buffer env b s) (cache_inv n) (\<lambda>_ t. b_lock (bufs t b) = 0)"
  using cache.I_wait_while [OF assms] wait_while_unlocked [of env "\<lambda>s. b_lock (bufs s b) \<noteq> 0" "B_wait b" s]
  unfolding wait_on_buffer_def always_def by simp

lemma get_hash_table_loop_always:
  assumes "\<And>s. cache_inv n s \<Longrightarrow> cache_inv n (env s)" "ucast (ucast dev :: u16) = dev"
  shows "cache_inv n s \<Longrightarrow> always (get_hash_table_loop k env dev block s) (cache_inv n)
    (\<lambda>r t. case r of None \<Rightarrow> True | Some b \<Rightarrow> holds n dev block b t)"
proof (induction k arbitrary: s)
  case (Suc k)
  show ?case unfolding get_hash_table_loop.simps
  proof (rule always_kbind [OF find_buffer_always [OF Suc.prems assms(2)]])
    fix r t assume t: "cache_inv n t" "t = s \<and> (case r of None \<Rightarrow> \<forall>b \<in> hashed (bufs s) n.
        \<not> (b_dev (bufs s b) = ucast dev \<and> b_blocknr (bufs s b) = block)
      | Some b \<Rightarrow> b < n \<and> b_dev (bufs s b) = ucast dev \<and> b_blocknr (bufs s b) = block)"
    show "always (case r of None \<Rightarrow> Done None t
       | Some b \<Rightarrow> kbind (wait_on_buffer env b (bupd b (\<lambda>h. h\<lparr>b_count := b_count h + 1\<rparr>) t)) (\<lambda>_ s.
             if b_dev (bufs s b) = ucast dev \<and> b_blocknr (bufs s b) = block then Done (Some b) s
             else get_hash_table_loop k env dev block (bupd b (\<lambda>h. h\<lparr>b_count := b_count h - 1\<rparr>) s)))
       (cache_inv n) (\<lambda>r t. case r of None \<Rightarrow> True | Some b \<Rightarrow> holds n dev block b t)"
    proof (cases r)
      case (Some b)
      with t have b: "b < n" by simp
      have "always (kbind (wait_on_buffer env b (bupd b (\<lambda>h. h\<lparr>b_count := b_count h + 1\<rparr>) t)) (\<lambda>_ s.
             if b_dev (bufs s b) = ucast dev \<and> b_blocknr (bufs s b) = block then Done (Some b) s
             else get_hash_table_loop k env dev block (bupd b (\<lambda>h. h\<lparr>b_count := b_count h - 1\<rparr>) s)))
         (cache_inv n) (\<lambda>r t. case r of None \<Rightarrow> True | Some b \<Rightarrow> holds n dev block b t)"
        by (rule always_kbind [OF wait_on_buffer_always])
          (use assms(1) t(1) b in \<open>auto simp: holds_def cache.I_count intro!: Suc.IH\<close>)
      with Some show ?thesis by simp
    qed (use t in simp)
  qed
qed simp

lemma ring_next_in: "ring bs xs \<Longrightarrow> b \<in> set xs \<Longrightarrow> \<exists>c \<in> set xs. b_next_free (bs b) = Some c"
proof -
  assume r: "ring bs xs" "b \<in> set xs"
  then obtain ys zs where xs: "xs = ys @ b # zs" by (meson split_list)
  with r(1) ring_rotate [of bs ys "b # zs"] have "ring bs (b # zs @ ys)" by simp
  then have "b_next_free (bs b) = Some (List.hd (zs @ ys @ [b]))"
    using links_first [of bs b "zs @ ys" b] by simp
  moreover have "List.hd (zs @ ys @ [b]) \<in> set (zs @ ys @ [b])" by (rule hd_in_set) simp
  ultimately show ?thesis unfolding xs by auto
qed

lemma cache_next_free:
  assumes "cache_inv n s"
  shows "\<exists>f < n. free_list s = Some f" "b < n \<Longrightarrow> \<exists>c < n. b_next_free (bufs s b) = Some c"
proof -
  from assms obtain xs cs where "nr_buffers s = n"
    and "cache_shape (bufs s) (hash_table s) (free_list s) (nr_buffers s) xs cs"
    unfolding cache_inv_def cache_wf_def by blast
  then have x: "ring (bufs s) xs" "set xs = {..<n}" "free_list s = Some (List.hd xs)"
    by (simp_all add: cache_shape_def)
  from x(1) have "xs \<noteq> []" by auto
  then have "List.hd xs < n" using hd_in_set [of xs] x(2) by blast
  with x(3) show "\<exists>f < n. free_list s = Some f" by blast
  show "\<exists>c < n. b_next_free (bufs s b) = Some c" if "b < n"
    using ring_next_in [OF x(1), of b] that unfolding x(2) by blast
qed

lemma scan_free_list_always:
  assumes "cache_inv n s"
  shows "(\<forall>b. bh = Some b \<longrightarrow> b < n) \<Longrightarrow> (\<forall>b. tmp = Some b \<longrightarrow> b < n) \<Longrightarrow>
    always (scan_free_list k bh tmp s) (cache_inv n) (\<lambda>r t. t = s \<and> (\<forall>b. r = Some b \<longrightarrow> b < n))"
proof (induction k arbitrary: bh tmp)
  case (Suc k)
  show ?case
  proof (cases tmp)
    case None
    with assms show ?thesis by simp
  next
    case (Some b)
    with Suc.prems obtain c where c: "b_next_free (bufs s b) = Some c" "c < n" and b: "b < n"
      using cache_next_free(2) [OF assms, of b] by blast
    let ?bh = "if b_count (bufs s b) = 0 \<and> (case bh of None \<Rightarrow> True | Some h \<Rightarrow> BADNESS (bufs s b) < BADNESS (bufs s h))
      then Some b else bh"
    have bh: "\<forall>x. ?bh = Some x \<longrightarrow> x < n" using Suc.prems b by auto
    have "always (scan_free_list k ?bh (Some c) s) (cache_inv n) (\<lambda>r t. t = s \<and> (\<forall>b. r = Some b \<longrightarrow> b < n))"
      by (rule Suc.IH) (use bh c in simp_all)
    with bh assms show ?thesis by (simp only: Some scan_free_list.simps option.case Let_def c(1)) simp
  qed
qed (use assms in simp)

lemma sleep_on_always:
  assumes "\<And>s. cache_inv n s \<Longrightarrow> cache_inv n (env s)" "cache_inv n s"
  shows "always (sleep_on env q s) (cache_inv n) (\<lambda>_ _. True)"
  by (rule always_final [where I = "cache_inv n"]) (rule cache.I_sleep_on [OF assms])

lemma clean_buffer_always:
  assumes env: "\<And>s. cache_inv n s \<Longrightarrow> cache_inv n (env s)"
    and sync: "\<And>d s. cache_inv n s \<Longrightarrow> cache_inv n (final (sync d s))"
  shows "cache_inv n s \<Longrightarrow> always (clean_buffer k sync env b s) (cache_inv n) (\<lambda>_ _. True)"
proof (induction k arbitrary: s)
  case (Suc k)
  have "always (kbind (wait_on_buffer env b t) (\<lambda>_ s.
      if b_count (bufs s b) \<noteq> 0 then Done False s else clean_buffer k sync env b s)) (cache_inv n) (\<lambda>_ _. True)"
    if "cache_inv n t" for t
    by (rule always_kbind [OF wait_on_buffer_always [OF env that]]) (auto intro!: Suc.IH)
  then have "always (kbind (sync (ucast (b_dev (bufs s b))) s) (\<lambda>_ s.
      kbind (wait_on_buffer env b s) (\<lambda>_ s.
        if b_count (bufs s b) \<noteq> 0 then Done False s else clean_buffer k sync env b s))) (cache_inv n) (\<lambda>_ _. True)"
    by (rule always_kbind [OF always_final [where I = "cache_inv n", OF sync [OF Suc.prems]]])
  with Suc.prems show ?case by simp
qed simp

lemma queues_root:
  "ROOT_DEV (remove_from_hash b s) = ROOT_DEV s" "ROOT_DEV (put_in_hash b s) = ROOT_DEV s"
  "remove_from_free_list b s = Done u t \<Longrightarrow> ROOT_DEV t = ROOT_DEV s"
  "put_on_free_list b s = Done u t \<Longrightarrow> ROOT_DEV t = ROOT_DEV s"
  by (auto simp: remove_from_hash_def put_in_hash_def remove_from_free_list_def put_on_free_list_def panic_def set_hash_def Let_def
      split: option.splits if_splits)

lemma take_buffer_root: "take_buffer b dev block s = Done r t \<Longrightarrow> ROOT_DEV t = ROOT_DEV s"
  by (auto simp: take_buffer_def remove_from_queues_def insert_into_queues_def queues_root kbind_Done_iff dest!: queues_root(3,4))

lemma take_buffer_always:
  assumes "cache_inv n s" "b < n"
    and "\<forall>c \<in> hashed (bufs s) n. \<not> (b_dev (bufs s c) = ucast dev \<and> b_blocknr (bufs s c) = block)"
  shows "always (take_buffer b dev block s) (cache_inv n) (\<lambda>r t. r = b \<and> holds n dev block b t \<and> b_count (bufs t b) = 1)"
  using take_buffer_Done [of s b dev block] take_buffer_root [of b dev block s] assms by (auto simp: cache_inv_def holds_def)

lemma getblk_loop_always:
  assumes env: "\<And>s. cache_inv n s \<Longrightarrow> cache_inv n (env s)"
    and sync: "\<And>d s. cache_inv n s \<Longrightarrow> cache_inv n (final (sync d s))"
    and dev: "ucast (ucast dev :: u16) = dev"
  shows "cache_inv n s \<Longrightarrow> always (getblk_loop k sync env dev block s) (cache_inv n) (holds n dev block)"
proof (induction k arbitrary: s)
  case (Suc k)
  let ?again = "getblk_loop k sync env dev block"
  have take: "always (kbind (find_buffer dev block t) (\<lambda>r s. if r \<noteq> None then ?again s else take_buffer b dev block s))
      (cache_inv n) (holds n dev block)" if "cache_inv n t" "b < n" for t b
  proof (rule always_kbind [OF find_buffer_always [OF that(1) dev]])
    fix r u assume u: "cache_inv n u" "u = t \<and>
      (case r of None \<Rightarrow> \<forall>b \<in> hashed (bufs t) n. \<not> (b_dev (bufs t b) = ucast dev \<and> b_blocknr (bufs t b) = block)
        | Some b \<Rightarrow> b < n \<and> b_dev (bufs t b) = ucast dev \<and> b_blocknr (bufs t b) = block)"
    show "always (if r \<noteq> None then ?again u else take_buffer b dev block u) (cache_inv n) (holds n dev block)"
    proof (cases r)
      case None
      with u have "always (take_buffer b dev block u) (cache_inv n)
          (\<lambda>r t. r = b \<and> holds n dev block b t \<and> b_count (bufs t b) = 1)"
        by (intro take_buffer_always [OF u(1) that(2)]) simp
      then have "always (take_buffer b dev block u) (cache_inv n) (holds n dev block)"
        by (rule always_mono) simp
      with None show ?thesis by simp
    qed (use u Suc.IH in simp)
  qed
  have clean: "always (kbind (clean_buffer (Suc (patience t)) sync env b t) (\<lambda>clean s.
      if \<not> clean then ?again s
      else kbind (find_buffer dev block s) (\<lambda>r s. if r \<noteq> None then ?again s else take_buffer b dev block s)))
      (cache_inv n) (holds n dev block)" if "cache_inv n t" "b < n" for t b
    by (rule always_kbind [OF clean_buffer_always [where n = n]])
      (use env sync that take Suc.IH in auto)
  have waited: "always (kbind (wait_on_buffer env b t) (\<lambda>_ s.
      if b_count (bufs s b) \<noteq> 0 then ?again s
      else kbind (clean_buffer (Suc (patience s)) sync env b s) (\<lambda>clean s.
        if \<not> clean then ?again s
        else kbind (find_buffer dev block s) (\<lambda>r s. if r \<noteq> None then ?again s else take_buffer b dev block s))))
      (cache_inv n) (holds n dev block)" if "cache_inv n t" "b < n" for t b
    by (rule always_kbind [OF wait_on_buffer_always [OF env that(1)]]) (use that clean Suc.IH in auto)
  have slept: "always (kbind (sleep_on env (Some Buffer_wait) t) (\<lambda>_ s. ?again s)) (cache_inv n) (holds n dev block)"
    if "cache_inv n t" for t
    by (rule always_kbind [OF sleep_on_always [OF env that]]) (use Suc.IH in auto)
  have scan: "always (kbind (scan_free_list (Suc (nr_buffers t)) None (free_list t) t) (\<lambda>bh s.
      case bh of
        None \<Rightarrow> kbind (sleep_on env (Some Buffer_wait) s) (\<lambda>_ s. ?again s)
      | Some b \<Rightarrow> kbind (wait_on_buffer env b s) (\<lambda>_ s.
          if b_count (bufs s b) \<noteq> 0 then ?again s
          else kbind (clean_buffer (Suc (patience s)) sync env b s) (\<lambda>clean s.
            if \<not> clean then ?again s
            else kbind (find_buffer dev block s) (\<lambda>r s. if r \<noteq> None then ?again s else take_buffer b dev block s)))))
      (cache_inv n) (holds n dev block)" if t: "cache_inv n t" for t
    by (rule always_kbind [OF scan_free_list_always [OF t]])
      (use cache_next_free(1) [OF t] slept waited in \<open>auto split: option.split\<close>)
  show ?case unfolding getblk_loop.simps get_hash_table_def
    by (rule always_kbind [OF get_hash_table_loop_always [OF env dev Suc.prems]])
      (use scan in \<open>auto split: option.split\<close>)
qed simp

lemma getblk_with_always:
  assumes "\<And>s. cache_inv n s \<Longrightarrow> cache_inv n (env s)"
    and "\<And>d s. cache_inv n s \<Longrightarrow> cache_inv n (final (sync d s))"
    and "ucast (ucast dev :: u16) = dev" "cache_inv n s"
  shows "always (getblk_with sync env dev block s) (cache_inv n) (holds n dev block)"
  unfolding getblk_with_def by (rule getblk_loop_always [OF assms])

lemma brelse_always:
  assumes "\<And>s. cache_inv n s \<Longrightarrow> cache_inv n (env s)" "cache_inv n s"
  shows "always (brelse env p s) (cache_inv n) (\<lambda>_ _. True)"
proof (cases p)
  case (Some b)
  have "always (kbind (wait_on_buffer env b s) (\<lambda>_ s.
      let c = b_count (bufs s b); s = bupd b (\<lambda>h. h\<lparr>b_count := b_count h - 1\<rparr>) s
      in if c = 0 then panic ''Trying to free free buffer'' s else Done () (wake_up (Some Buffer_wait) s)))
      (cache_inv n) (\<lambda>_ _. True)"
    by (rule always_kbind [OF wait_on_buffer_always [OF assms]])
      (auto simp: Let_def panic_def cache.I_count cache.I_wake_up cache.I_printk)
  with Some show ?thesis by (simp add: brelse_def)
qed (use assms in \<open>simp add: brelse_def\<close>)

lemma bread_with_always:
  assumes env: "\<And>s. cache_inv n s \<Longrightarrow> cache_inv n (env s)"
    and "\<And>d s. cache_inv n s \<Longrightarrow> cache_inv n (final (sync d s))"
    and "ucast (ucast dev :: u16) = dev" "cache_inv n s"
  shows "always (bread_with sync env dev block s) (cache_inv n)
    (\<lambda>r t. \<forall>b. r = Some b \<longrightarrow> b < n \<and> b_uptodate (bufs t b) \<noteq> 0)"
proof -
  have rel: "always (kbind (brelse env (Some b) t) (\<lambda>_ s. Done None s)) (cache_inv n)
      (\<lambda>r t. \<forall>b. r = Some b \<longrightarrow> b < n \<and> b_uptodate (bufs t b) \<noteq> 0)" if "cache_inv n t" for t b
    by (rule always_kbind [OF brelse_always [OF env that]]) simp_all
  have wait: "always (kbind (wait_on_buffer env b t) (\<lambda>_ s.
      if b_uptodate (bufs s b) \<noteq> 0 then Done (Some b) s
      else kbind (brelse env (Some b) s) (\<lambda>_ s. Done None s))) (cache_inv n)
      (\<lambda>r t. \<forall>b. r = Some b \<longrightarrow> b < n \<and> b_uptodate (bufs t b) \<noteq> 0)" if "cache_inv n t" "b < n" for t b
    by (rule always_kbind [OF wait_on_buffer_always [OF env that(1)]]) (use that rel in auto)
  have io: "always (kbind (ll_rw_block env READ b t) (\<lambda>_ s. kbind (wait_on_buffer env b s) (\<lambda>_ s.
      if b_uptodate (bufs s b) \<noteq> 0 then Done (Some b) s
      else kbind (brelse env (Some b) s) (\<lambda>_ s. Done None s)))) (cache_inv n)
      (\<lambda>r t. \<forall>b. r = Some b \<longrightarrow> b < n \<and> b_uptodate (bufs t b) \<noteq> 0)" if "cache_inv n t" "b < n" for t b
    by (rule always_kbind [OF always_final [where I = "cache_inv n", OF cache.I_ll_rw_block [OF env that(1)]]])
      (use that wait in auto)
  show ?thesis unfolding bread_with_def
    by (rule always_kbind [OF getblk_with_always [OF assms]]) (use io in \<open>auto simp: holds_def\<close>)
qed

section \<open>Hits\<close>

lemma getblk_hit:
  assumes "cache_wf s" "ucast (ucast dev :: u16) = dev"
    and "b \<in> hashed (bufs s) (nr_buffers s)" "b_dev (bufs s b) = ucast dev" "b_blocknr (bufs s b) = block"
    and "b_lock (bufs s b) = 0"
  shows "getblk_with sync env dev block s = Done b (bupd b (\<lambda>h. h\<lparr>b_count := b_count h + 1\<rparr>) s)"
proof -
  from cache_wf_find [OF assms(1,2), of block] obtain r where f: "find_buffer dev block s = Done r s" and
    r: "case r of None \<Rightarrow> \<forall>b \<in> hashed (bufs s) (nr_buffers s).
        \<not> (b_dev (bufs s b) = ucast dev \<and> b_blocknr (bufs s b) = block)
      | Some b \<Rightarrow> b \<in> hashed (bufs s) (nr_buffers s) \<and> b_dev (bufs s b) = ucast dev \<and> b_blocknr (bufs s b) = block"
    by blast
  from r assms(3-5) obtain c where c: "r = Some c" "c \<in> hashed (bufs s) (nr_buffers s)"
    "b_dev (bufs s c) = ucast dev" "b_blocknr (bufs s c) = block" by (cases r) auto
  have "c = b" using assms(1,3-5) c unfolding cache_wf_def unique_blocks_def by metis
  with f c assms(4-6) have "get_hash_table env dev block s = Done (Some b) (bupd b (\<lambda>h. h\<lparr>b_count := b_count h + 1\<rparr>) s)"
    by (simp add: get_hash_table_def wait_on_buffer_def)
  then show ?thesis by (simp add: getblk_with_def)
qed

section \<open>The choice of a buffer\<close>

lemma scan_free_list_links:
  assumes "free_list s = Some y"
  shows "links (bufs s) x xs y \<Longrightarrow> y \<notin> set xs \<Longrightarrow> length xs < k \<Longrightarrow>
    (\<forall>h. bh = Some h \<longrightarrow> b_count (bufs s h) = 0) \<Longrightarrow>
    \<exists>r. scan_free_list k bh (Some x) s = Done r s \<and>
      (r = None \<longleftrightarrow> bh = None \<and> (\<forall>c \<in> set (x # xs). b_count (bufs s c) \<noteq> 0)) \<and>
      (\<forall>b. r = Some b \<longrightarrow> b_count (bufs s b) = 0 \<and> (bh = Some b \<or> b \<in> set (x # xs)) \<and>
         (\<forall>c \<in> set (x # xs) \<union> set_option bh. b_count (bufs s c) = 0 \<longrightarrow> BADNESS (bufs s b) \<le> BADNESS (bufs s c)))"
proof (induction xs arbitrary: x bh k)
  case Nil
  then obtain k' where "k = Suc k'" by (cases k) auto
  with Nil assms show ?case by (auto simp: Let_def split: option.split)
next
  case (Cons z zs)
  then obtain k' where k: "k = Suc k'" by (cases k) auto
  let ?better = "b_count (bufs s x) = 0 \<and>
    (case bh of None \<Rightarrow> True | Some h \<Rightarrow> BADNESS (bufs s x) < BADNESS (bufs s h))"
  let ?bh = "if ?better then Some x else bh"
  have nf: "b_next_free (bufs s x) = Some z" "z \<noteq> y" using Cons.prems by auto
  show ?case
  proof (cases "?better \<and> BADNESS (bufs s x) = 0")
    case True
    then show ?thesis unfolding k by (auto simp: Let_def)
  next
    case False
    have "\<exists>r. scan_free_list k' ?bh (Some z) s = Done r s \<and>
      (r = None \<longleftrightarrow> ?bh = None \<and> (\<forall>c \<in> set (z # zs). b_count (bufs s c) \<noteq> 0)) \<and>
      (\<forall>b. r = Some b \<longrightarrow> b_count (bufs s b) = 0 \<and> (?bh = Some b \<or> b \<in> set (z # zs)) \<and>
         (\<forall>c \<in> set (z # zs) \<union> set_option ?bh. b_count (bufs s c) = 0 \<longrightarrow> BADNESS (bufs s b) \<le> BADNESS (bufs s c)))"
      by (rule Cons.IH) (use Cons.prems k in auto)
    then obtain r where r: "scan_free_list k' ?bh (Some z) s = Done r s"
      "r = None \<longleftrightarrow> ?bh = None \<and> (\<forall>c \<in> set (z # zs). b_count (bufs s c) \<noteq> 0)"
      "\<And>b. r = Some b \<Longrightarrow> b_count (bufs s b) = 0 \<and> (?bh = Some b \<or> b \<in> set (z # zs)) \<and>
         (\<forall>c \<in> set (z # zs) \<union> set_option ?bh. b_count (bufs s c) = 0 \<longrightarrow> BADNESS (bufs s b) \<le> BADNESS (bufs s c))"
      by blast
    have run: "scan_free_list k bh (Some x) s = Done r s"
      using False nf assms r(1) unfolding k by (auto simp: Let_def)
    have none: "r = None \<longleftrightarrow> bh = None \<and> (\<forall>c \<in> set (x # z # zs). b_count (bufs s c) \<noteq> 0)"
      using r(2) by (auto split: option.splits)
    have "b_count (bufs s b) = 0 \<and> (bh = Some b \<or> b \<in> set (x # z # zs)) \<and>
        (\<forall>c \<in> set (x # z # zs) \<union> set_option bh. b_count (bufs s c) = 0 \<longrightarrow> BADNESS (bufs s b) \<le> BADNESS (bufs s c))"
      if b: "r = Some b" for b
    proof (cases ?better)
      case True
      have "BADNESS (bufs s b) \<le> BADNESS (bufs s x)" using r(3) [OF b] True by simp
      then show ?thesis using r(3) [OF b] True by (auto split: option.splits)
    next
      case False
      then show ?thesis using r(3) [OF b] Cons.prems(4) by (auto split: option.splits if_splits)
    qed
    with run none show ?thesis by blast
  qed
qed

lemma scan_free_list_best:
  assumes "cache_wf s"
  shows "\<exists>r. scan_free_list (Suc (nr_buffers s)) None (free_list s) s = Done r s \<and>
    (r = None \<longleftrightarrow> (\<forall>c < nr_buffers s. b_count (bufs s c) \<noteq> 0)) \<and>
    (\<forall>b. r = Some b \<longrightarrow> b < nr_buffers s \<and> b_count (bufs s b) = 0 \<and>
       (\<forall>c < nr_buffers s. b_count (bufs s c) = 0 \<longrightarrow> BADNESS (bufs s b) \<le> BADNESS (bufs s c)))"
proof -
  from assms obtain xs cs where "cache_shape (bufs s) (hash_table s) (free_list s) (nr_buffers s) xs cs"
    unfolding cache_wf_def by blast
  then have x: "ring (bufs s) xs" "set xs = {..<nr_buffers s}" "free_list s = Some (List.hd xs)"
    by (simp_all add: cache_shape_def)
  from x(1) obtain y ys where xs: "xs = y # ys" by (cases xs) auto
  have d: "distinct xs" "links (bufs s) y ys y" using x(1) xs by simp_all
  have "length xs = nr_buffers s" using distinct_card [OF d(1)] x(2) by simp
  then have "length ys < Suc (nr_buffers s)" using xs by simp
  moreover have "free_list s = Some y" "y \<notin> set ys" using x(3) d(1) xs by simp_all
  moreover have "set (y # ys) = {..<nr_buffers s}" using x(2) xs by simp
  ultimately obtain r where "scan_free_list (Suc (nr_buffers s)) None (Some y) s = Done r s"
    "r = None \<longleftrightarrow> (\<forall>c \<in> {..<nr_buffers s}. b_count (bufs s c) \<noteq> 0)"
    "\<forall>b. r = Some b \<longrightarrow> b_count (bufs s b) = 0 \<and> b \<in> {..<nr_buffers s} \<and>
      (\<forall>c \<in> {..<nr_buffers s}. b_count (bufs s c) = 0 \<longrightarrow> BADNESS (bufs s b) \<le> BADNESS (bufs s c))"
    using scan_free_list_links [of s y y ys "Suc (nr_buffers s)" None] d(2)
    by (simp del: scan_free_list.simps) blast
  then show ?thesis unfolding \<open>free_list s = Some y\<close> by (intro exI [of _ r]) (simp add: Ball_def del: scan_free_list.simps)
qed

section \<open>Initialisation\<close>

definition fresh_head :: "nat \<Rightarrow> buffer_head \<Rightarrow> bool" where
  "fresh_head j h \<longleftrightarrow> b_dev h = 0 \<and> b_dirt h = 0 \<and> b_count h = 0 \<and> b_lock h = 0 \<and> b_uptodate h = 0 \<and>
     b_next h = None \<and> b_prev h = None \<and> b_prev_free h = (if j = 0 then None else Some (j - 1)) \<and>
     b_next_free h = Some (j + 1)"

lemma buffer_init_loop_Done:
  "buffer_init_loop k e b i s = Done n t \<Longrightarrow>
     i \<le> n \<and> nr_buffers t = nr_buffers s + (n - i) \<and> (\<forall>j < i. bufs t j = bufs s j) \<and>
     (\<forall>j. i \<le> j \<and> j < n \<longrightarrow> fresh_head j (bufs t j))"
proof (induction k arbitrary: b i s)
  case (Suc k)
  show ?case
  proof (cases "b - 1024 \<ge> e + 36 * of_nat (i + 1)")
    case False
    with Suc.prems show ?thesis by (auto simp: Let_def)
  next
    case True
    let ?s = "(bupd i (\<lambda>h. h\<lparr>b_dev := 0, b_dirt := 0, b_count := 0, b_lock := 0, b_uptodate := 0,
                 b_next := None, b_prev := None, b_data := b - 1024,
                 b_prev_free := (if i = 0 then None else Some (i - 1)), b_next_free := Some (i + 1)\<rparr>) s)"
    let ?s' = "?s\<lparr>waitq := (waitq ?s)(B_wait i := 0), nr_buffers := nr_buffers ?s + 1\<rparr>"
    from True Suc.prems have "buffer_init_loop k e (if b - 1024 = 0x100000 then 0xA0000 else b - 1024) (i + 1) ?s' = Done n t"
      by (simp add: Let_def)
    from Suc.IH [OF this] have ih: "i + 1 \<le> n" "nr_buffers t = nr_buffers s + 1 + (n - (i + 1))"
      "\<forall>j < i + 1. bufs t j = bufs ?s' j" "\<forall>j. i + 1 \<le> j \<and> j < n \<longrightarrow> fresh_head j (bufs t j)" by auto
    have "fresh_head i (bufs t i)" using ih(3) by (simp add: fresh_head_def)
    then have "\<forall>j. i \<le> j \<and> j < n \<longrightarrow> fresh_head j (bufs t j)" using ih(4) by (metis Suc_eq_plus1 Suc_leI le_eq_less_or_eq)
    with ih show ?thesis by auto
  qed
qed simp

lemma links_upt:
  assumes "\<And>j. i \<le> j \<Longrightarrow> j < n \<Longrightarrow> b_next_free (bs j) = Some (if Suc j = n then y else Suc j)"
    and "\<And>j. i < j \<Longrightarrow> j < n \<Longrightarrow> b_prev_free (bs j) = Some (j - 1)"
    and "b_prev_free (bs y) = Some (n - 1)" "i < n"
  shows "links bs i [Suc i..<n] y"
  using assms
proof (induction "n - i" arbitrary: i)
  case (Suc k)
  show ?case
  proof (cases "Suc i = n")
    case True
    with Suc.prems show ?thesis by auto
  next
    case False
    then have lt: "Suc i < n" using Suc.prems(4) by simp
    then have up: "[Suc i..<n] = Suc i # [Suc (Suc i)..<n]" by (simp add: upt_conv_Cons)
    have "links bs (Suc i) [Suc (Suc i)..<n] y"
      by (rule Suc.hyps(1)) (use Suc.hyps(2) Suc.prems lt in auto)
    moreover have "b_next_free (bs i) = Some (Suc i)" "b_prev_free (bs (Suc i)) = Some i"
      using Suc.prems(1) [of i] Suc.prems(2) [of "Suc i"] lt False by auto
    ultimately show ?thesis by (simp add: up)
  qed
qed simp

lemma buffer_init_wf:
  assumes "buffer_init e be s = Done u t" "nr_buffers s = 0"
  shows "cache_wf t \<and> 0 < nr_buffers t \<and> (\<forall>b < nr_buffers t. b_dev (bufs t b) = 0 \<and> b_count (bufs t b) = 0 \<and>
    b_lock (bufs t b) = 0 \<and> b_dirt (bufs t b) = 0 \<and> b_uptodate (bufs t b) = 0)"
proof -
  obtain n s1 where l: "buffer_init_loop (Suc (2 ^ 22)) e (if be = 0x100000 then 640 * 1024 else be) 0 s = Done n s1"
    and n: "n \<noteq> 0" and t: "t = (bupd (n - 1) (\<lambda>h. h\<lparr>b_next_free := Some 0\<rparr>)
        (bupd 0 (\<lambda>h. h\<lparr>b_prev_free := Some (n - 1)\<rparr>) (s1\<lparr>free_list := Some 0\<rparr>)))\<lparr>hash_table := replicate NR_HASH None\<rparr>"
    using assms(1) by (auto simp: buffer_init_def Let_def kbind_Done_iff simp del: buffer_init_loop.simps split: if_splits)
  from buffer_init_loop_Done [OF l] assms(2) have nr: "nr_buffers s1 = n" and fh: "\<And>j. j < n \<Longrightarrow> fresh_head j (bufs s1 j)"
    by auto
  have fields: "b_dev (bufs t j) = 0 \<and> b_count (bufs t j) = 0 \<and> b_lock (bufs t j) = 0 \<and> b_dirt (bufs t j) = 0 \<and>
      b_uptodate (bufs t j) = 0 \<and> b_next (bufs t j) = None \<and> b_prev (bufs t j) = None" if "j < n" for j
    using fh [OF that] by (auto simp: t fresh_head_def)
  have "links (bufs t) 0 [Suc 0..<n] 0"
  proof (rule links_upt)
    show "b_next_free (bufs t j) = Some (if Suc j = n then 0 else Suc j)" if "j < n" for j
      using fh [OF that] n by (auto simp: t fresh_head_def)
    show "b_prev_free (bufs t j) = Some (j - 1)" if "0 < j" "j < n" for j
      using fh [OF that(2)] that(1) by (auto simp: t fresh_head_def)
    show "b_prev_free (bufs t 0) = Some (n - 1)" by (simp add: t)
    show "0 < n" using n by simp
  qed
  moreover have up: "[0..<n] = 0 # [Suc 0..<n]" using n by (simp add: upt_conv_Cons)
  ultimately have "ring (bufs t) [0..<n]" by (simp add: up)
  moreover have "hashed (bufs t) n = {}" using fields by (auto simp: hashed_def)
  ultimately have "cache_shape (bufs t) (hash_table t) (free_list t) n [0..<n] (\<lambda>_. [])"
    using fields n by (auto simp: cache_shape_def hash_shape_def t up)
  moreover have "nr_buffers t = n" by (simp add: t nr)
  ultimately show ?thesis using fields n by (auto simp: cache_wf_def unique_blocks_def hashed_def)
qed

text \<open>
  Where the loop puts its blocks: \<open>b\<close> is the lower end of the block cut off last. Addresses do
  not wrap as long as the region ends below 2 GB.
\<close>

lemma unat_heads: "i \<le> 0x400000 \<Longrightarrow> unat (e :: u32) < 0x40000000 \<Longrightarrow> unat (e + 36 * of_nat i) = unat e + 36 * i"
proof -
  assume "i \<le> 0x400000" "unat e < 0x40000000"
  then have "unat e + 36 * i < 2 ^ 32" by simp
  then have "unat (of_nat (unat e + 36 * i) :: u32) = unat e + 36 * i" by (rule unat_of_nat_u32)
  then show ?thesis by simp
qed

lemma unat_minus_block: "1024 \<le> unat (b :: u32) \<Longrightarrow> unat (b - 1024) = unat b - 1024"
  by (subst unat_sub) (simp_all add: word_le_nat_alt)

definition block_end_ok :: "u32 \<Rightarrow> bool" where
  "block_end_ok b \<longleftrightarrow> 1024 dvd unat b \<and> 1024 \<le> unat b \<and> (unat b \<le> 0xA0000 \<or> 0x100000 < unat b)"

text \<open>The blocks of the buffers from \<open>i\<close> on, laid downwards from \<open>hi\<close>, clear of the heads and of the hole.\<close>

definition laid :: "(nat \<Rightarrow> buffer_head) \<Rightarrow> u32 \<Rightarrow> nat \<Rightarrow> nat \<Rightarrow> nat \<Rightarrow> bool" where
  "laid bs e i n hi \<longleftrightarrow> (\<forall>j. i \<le> j \<and> j < n \<longrightarrow> 1024 + unat (b_data (bs j)) \<le> hi \<and>
     unat e + 36 * n \<le> unat (b_data (bs j)) \<and>
     (1024 + unat (b_data (bs j)) \<le> 0xA0000 \<or> 0x100000 \<le> unat (b_data (bs j))) \<and>
     (\<forall>j'. j < j' \<and> j' < n \<longrightarrow> 1024 + unat (b_data (bs j')) \<le> unat (b_data (bs j))))"

lemma laid_more:
  assumes "laid bs e (i + 1) n hi" "hi \<le> b" "i < n" "unat (b_data (bs i)) = b" "unat e + 36 * (i + 1) \<le> b"
    and "1024 + b \<le> 0xA0000 \<or> 0x100000 \<le> b"
  shows "laid bs e i n (1024 + b)"
proof -
  have heads: "unat e + 36 * n \<le> b"
  proof (cases "n = i + 1")
    case False
    then have "unat e + 36 * n \<le> hi" using assms(1,3) unfolding laid_def by fastforce
    with assms(2) show ?thesis by simp
  qed (use assms(5) in simp)
  have below: "1024 + unat (b_data (bs j)) \<le> b" if "i < j" "j < n" for j
  proof -
    from assms(1) that have "1024 + unat (b_data (bs j)) \<le> hi" by (simp add: laid_def)
    with assms(2) show ?thesis by linarith
  qed
  show ?thesis unfolding laid_def
  proof (intro allI impI)
    fix j assume j: "i \<le> j \<and> j < n"
    show "1024 + unat (b_data (bs j)) \<le> 1024 + b \<and> unat e + 36 * n \<le> unat (b_data (bs j)) \<and>
      (1024 + unat (b_data (bs j)) \<le> 0xA0000 \<or> 0x100000 \<le> unat (b_data (bs j))) \<and>
      (\<forall>j'. j < j' \<and> j' < n \<longrightarrow> 1024 + unat (b_data (bs j')) \<le> unat (b_data (bs j)))"
    proof (cases "j = i")
      case True
      with assms(4,6) heads below show ?thesis by auto
    next
      case False
      with assms(1) j below [of j] show ?thesis by (auto simp: laid_def)
    qed
  qed
qed

lemma block_end_next:
  assumes "block_end_ok b" "1024 \<le> unat b - 1024"
  shows "block_end_ok (if b - 1024 = 0x100000 then 0xA0000 else b - 1024)"
proof -
  have b: "unat (b - 1024) = unat b - 1024" using assms(1) by (simp add: unat_minus_block block_end_ok_def)
  obtain q where q: "unat b = 1024 * q" using assms(1) by (auto simp: block_end_ok_def)
  have "unat b - 1024 = 1024 * (q - 1)" by (simp add: q diff_mult_distrib2)
  moreover have "unat b - 1024 \<noteq> 0x100000" if "b - 1024 \<noteq> 0x100000"
    using that b word_unat_eq_iff [of "b - 1024" "0x100000"] by simp
  ultimately show ?thesis using assms q by (auto simp: block_end_ok_def b)
qed

lemma buffer_init_loop_layout:
  assumes "1024 \<le> unat e" "unat e < 0x40000000"
  shows "block_end_ok b \<Longrightarrow> unat b < 1024 * k + 1024 \<Longrightarrow> i + k \<le> 0x400000 \<Longrightarrow>
    \<exists>n t. buffer_init_loop (Suc k) e b i s = Done n t \<and> i \<le> n \<and> (e + 36 * of_nat (i + 1) \<le> b - 1024 \<longrightarrow> i < n) \<and>
      (\<forall>j < i. bufs t j = bufs s j) \<and> laid (bufs t) e i n (unat b)"
proof (induction k arbitrary: b i s)
  case 0
  then show ?case by (simp add: block_end_ok_def)
next
  case (Suc k)
  have b: "unat (b - 1024) = unat b - 1024" using Suc.prems(1) by (simp add: unat_minus_block block_end_ok_def)
  have h: "unat (e + 36 * of_nat (i + 1)) = unat e + 36 * (i + 1)" by (rule unat_heads) (use Suc.prems assms in auto)
  show ?case
  proof (cases "e + 36 * of_nat (i + 1) \<le> b - 1024")
    case False
    then show ?thesis by (simp add: Let_def laid_def)
  next
    case True
    let ?b = "if b - 1024 = 0x100000 then 0xA0000 else b - 1024"
    let ?s = "(bupd i (\<lambda>h. h\<lparr>b_dev := 0, b_dirt := 0, b_count := 0, b_lock := 0, b_uptodate := 0,
                 b_next := None, b_prev := None, b_data := b - 1024,
                 b_prev_free := (if i = 0 then None else Some (i - 1)), b_next_free := Some (i + 1)\<rparr>) s)"
    let ?s' = "?s\<lparr>waitq := (waitq ?s)(B_wait i := 0), nr_buffers := nr_buffers ?s + 1\<rparr>"
    have room: "unat e + 36 * (i + 1) \<le> unat b - 1024" using True b h by (simp add: word_le_nat_alt)
    have le: "unat ?b \<le> unat b - 1024" using b by (auto split: if_splits)
    have ok: "block_end_ok ?b" by (rule block_end_next [OF Suc.prems(1)]) (use room assms(1) in simp)
    have run: "buffer_init_loop (Suc (Suc k)) e b i s = buffer_init_loop (Suc k) e ?b (i + 1) ?s'"
      using True by (simp add: Let_def)
    have "unat b - 1024 < 1024 * k + 1024" using Suc.prems(1,2) by (simp add: block_end_ok_def)
    with le have lt: "unat ?b < 1024 * k + 1024" by (rule le_less_trans)
    have ik: "(i + 1) + k \<le> 0x400000" using Suc.prems(3) by simp
    from Suc.IH [OF ok lt ik, of ?s'] obtain n t
      where t: "buffer_init_loop (Suc k) e ?b (i + 1) ?s' = Done n t" "i + 1 \<le> n" "\<forall>j < i + 1. bufs t j = bufs ?s' j"
        "laid (bufs t) e (i + 1) n (unat ?b)" by blast
    have "laid (bufs t) e i n (1024 + (unat b - 1024))"
      by (rule laid_more [OF t(4) le]) (use t(2,3) b room Suc.prems(1) in \<open>auto simp: block_end_ok_def\<close>)
    moreover have "1024 + (unat b - 1024) = unat b" using Suc.prems(1) by (simp add: block_end_ok_def)
    moreover have "\<forall>j < i. bufs t j = bufs s j" using t(3) by simp
    ultimately show ?thesis using run t(1,2)
      by (intro exI [of _ n] exI [of _ t]) (simp del: buffer_init_loop.simps)
  qed
qed

section \<open>Properties\<close>

definition blocks_apart :: "(nat \<Rightarrow> buffer_head) \<Rightarrow> u32 \<Rightarrow> nat \<Rightarrow> bool" where
  "blocks_apart bs e n \<longleftrightarrow> (\<forall>j < n. unat e + 36 * n \<le> unat (b_data (bs j)) \<and>
     (1024 + unat (b_data (bs j)) \<le> 0xA0000 \<or> 0x100000 \<le> unat (b_data (bs j))) \<and>
     (\<forall>j'. j < j' \<and> j' < n \<longrightarrow> 1024 + unat (b_data (bs j')) \<le> unat (b_data (bs j))))"

lemma buffer_init_ok:
  assumes "nr_buffers s = 0" "1024 \<le> unat end_addr" "unat end_addr < 0x40000000"
    and "hi = (if buffer_end = 0x100000 then 0xA0000 else buffer_end)" "block_end_ok hi"
    and "end_addr + 36 \<le> hi - 1024"
  shows "\<exists>t. buffer_init end_addr buffer_end s = Done () t \<and> cache_wf t \<and> 0 < nr_buffers t \<and>
    (\<forall>b < nr_buffers t. b_dev (bufs t b) = 0 \<and> b_count (bufs t b) = 0 \<and> b_lock (bufs t b) = 0 \<and>
       b_dirt (bufs t b) = 0) \<and> blocks_apart (bufs t) end_addr (nr_buffers t)"
proof -
  have "unat hi < 1024 * 0x400000 + 1024" using unsigned_less [of hi, where 'a = nat] by simp
  from buffer_init_loop_layout [OF assms(2,3,5) this, of 0 s] obtain n u
    where l: "buffer_init_loop (Suc 0x400000) end_addr hi 0 s = Done n u"
      and n: "end_addr + 36 * of_nat (0 + 1) \<le> hi - 1024 \<longrightarrow> 0 < n"
      and a: "laid (bufs u) end_addr 0 n (unat hi)"
    by (metis add_0 le_refl)
  have n0: "n \<noteq> 0" using n assms(6) by simp
  from buffer_init_loop_Done [OF l] assms(1) have nr: "nr_buffers u = n" by simp
  have hi: "(if buffer_end = 0x100000 then 640 * 1024 else buffer_end) = hi" using assms(4) by simp
  have "(2 :: nat) ^ 22 = 0x400000" by simp
  with l have l': "buffer_init_loop (Suc (2 ^ 22)) end_addr hi 0 s = Done n u" by (simp only:)
  let ?t = "(bupd (n - 1) (\<lambda>h. h\<lparr>b_next_free := Some 0\<rparr>)
        (bupd 0 (\<lambda>h. h\<lparr>b_prev_free := Some (n - 1)\<rparr>) (u\<lparr>free_list := Some 0\<rparr>)))\<lparr>hash_table := replicate NR_HASH None\<rparr>"
  have "buffer_init end_addr buffer_end s = Done () ?t"
    unfolding buffer_init_def Let_def hi l' kbind.simps using n0 by (simp only: if_False)
  moreover have "nr_buffers ?t = n" "b_data (bufs ?t j) = b_data (bufs u j)" for j using nr by auto
  ultimately obtain t where t: "buffer_init end_addr buffer_end s = Done () t" "nr_buffers t = n"
    "\<And>j. b_data (bufs t j) = b_data (bufs u j)" by blast
  from a t have "blocks_apart (bufs t) end_addr (nr_buffers t)" by (simp add: blocks_apart_def laid_def)
  with t(1) buffer_init_wf [OF t(1) assms(1)] show ?thesis by blast
qed

text \<open>A machine before \<open>buffer_init\<close>, and after it with three buffers below 2 MB.\<close>

definition fs_raw :: fs_state where
  "fs_raw = blk_state.extend blk_boot (fs_state.fields (replicate NR_HASH None) None 0 (replicate NR_INODE null_inode)
     0 (replicate NR_SUPER null_super) 0x301 (replicate NR_FILE null_file) 4)"

lemma fs_raw_simps [simp]:
  "hash_table fs_raw = replicate NR_HASH None" "free_list fs_raw = None" "nr_buffers fs_raw = 0"
  "inode_table fs_raw = replicate NR_INODE null_inode" "super_block fs_raw = replicate NR_SUPER null_super"
  "file_table fs_raw = replicate NR_FILE null_file" "stack_room fs_raw = 4" "patience fs_raw = 0"
  "last_inode fs_raw = 0" "ROOT_DEV fs_raw = 0x301"
  by (simp_all add: fs_raw_def blk_state.extend_def fs_state.fields_def blk_boot_def mm_state.extend_def
    mm_boot_def sched_state.extend_def sched_boot_def)

definition fs_boot :: fs_state where
  "fs_boot = final (buffer_init 0x1ff000 0x200000 fs_raw)"

lemma buffer_init_loop_step:
  "0 < k \<Longrightarrow> e + 36 * of_nat (i + 1) \<le> b - 1024 \<Longrightarrow> buffer_init_loop k e b i s =
     (let s = bupd i (\<lambda>h. h\<lparr>b_dev := 0, b_dirt := 0, b_count := 0, b_lock := 0, b_uptodate := 0,
                 b_next := None, b_prev := None, b_data := b - 1024,
                 b_prev_free := (if i = 0 then None else Some (i - 1)), b_next_free := Some (i + 1)\<rparr>) s
      in buffer_init_loop (k - 1) e (if b - 1024 = 0x100000 then 0xA0000 else b - 1024) (i + 1)
           (s\<lparr>waitq := (waitq s)(B_wait i := 0), nr_buffers := nr_buffers s + 1\<rparr>))"
  by (cases k) (simp_all add: Let_def)

lemma buffer_init_loop_stop:
  "0 < k \<Longrightarrow> \<not> e + 36 * of_nat (i + 1) \<le> b - 1024 \<Longrightarrow> buffer_init_loop k e b i s = Done i s"
  by (cases k) (simp_all add: Let_def)

lemma fs_boot_facts:
  "buffer_init 0x1ff000 0x200000 fs_raw = Done () fs_boot" "nr_buffers fs_boot = 3" "patience fs_boot = 0"
  "inode_table fs_boot = replicate NR_INODE null_inode" "super_block fs_boot = replicate NR_SUPER null_super"
  "stack_room fs_boot = 4" "file_table fs_boot = replicate NR_FILE null_file" "last_inode fs_boot = 0"
  "ROOT_DEV fs_boot = 0x301"
  by (simp_all add: fs_boot_def buffer_init_def buffer_init_loop_step buffer_init_loop_stop Let_def
    del: buffer_init_loop.simps)

lemma fs_boot_wf:
  "cache_wf fs_boot" "b < 3 \<Longrightarrow> b_dev (bufs fs_boot b) = 0 \<and> b_count (bufs fs_boot b) = 0 \<and>
    b_lock (bufs fs_boot b) = 0 \<and> b_dirt (bufs fs_boot b) = 0 \<and> b_uptodate (bufs fs_boot b) = 0"
  using buffer_init_wf [OF fs_boot_facts(1)] by (simp_all add: fs_boot_facts(2))

text \<open>Buffer_init, given a block-aligned end of the buffer memory with room for one head and one
  block, returns, and the cache it leaves is in order: one ring of all buffers, empty chains, every
  buffer free, clean and unlocked. Its blocks are disjoint, lie above the array of heads and stay clear
  of the video memory from 640 KB to 1 MB.\<close>

theorem buffer_init_builds_cache:
  assumes "nr_buffers s = 0" "1024 \<le> unat end_addr" "unat end_addr < 0x40000000"
    and "hi = (if buffer_end = 0x100000 then 0xA0000 else buffer_end)" "block_end_ok hi"
    and "end_addr + 36 \<le> hi - 1024"
  shows "\<exists>t. buffer_init end_addr buffer_end s = Done () t \<and> cache_wf t \<and> 0 < nr_buffers t \<and>
    (\<forall>b < nr_buffers t. b_dev (bufs t b) = 0 \<and> b_count (bufs t b) = 0 \<and> b_lock (bufs t b) = 0 \<and>
       b_dirt (bufs t b) = 0) \<and> blocks_apart (bufs t) end_addr (nr_buffers t)"
  using assms by (rule buffer_init_ok)

theorem buffer_init_builds_cache_witness:
  "\<exists>t. buffer_init 0x1ff000 0x200000 fs_raw = Done () t \<and> cache_wf t \<and> 0 < nr_buffers t \<and>
    (\<forall>b < nr_buffers t. b_dev (bufs t b) = 0 \<and> b_count (bufs t b) = 0 \<and> b_lock (bufs t b) = 0 \<and>
       b_dirt (bufs t b) = 0) \<and> blocks_apart (bufs t) 0x1ff000 (nr_buffers t)"
  by (rule buffer_init_builds_cache [where hi = "0x200000"])
    (simp_all add: block_end_ok_def)

text \<open>In an ordered cache the scan of getblk for a buffer to reuse always ends: it finds
  nothing exactly when every buffer is in use, and otherwise returns a free buffer of the least badness
  among the free ones, clean and unlocked before locked, locked before dirty.\<close>

theorem scan_takes_best_free_buffer:
  assumes "cache_wf s"
  shows "\<exists>r. scan_free_list (Suc (nr_buffers s)) None (free_list s) s = Done r s \<and>
    (r = None \<longleftrightarrow> (\<forall>c < nr_buffers s. b_count (bufs s c) \<noteq> 0)) \<and>
    (\<forall>b. r = Some b \<longrightarrow> b < nr_buffers s \<and> b_count (bufs s b) = 0 \<and>
       (\<forall>c < nr_buffers s. b_count (bufs s c) = 0 \<longrightarrow> BADNESS (bufs s b) \<le> BADNESS (bufs s c)))"
  using assms by (rule scan_free_list_best)

theorem scan_takes_best_free_buffer_witness:
  "\<exists>b. scan_free_list (Suc (nr_buffers fs_boot)) None (free_list fs_boot) fs_boot = Done (Some b) fs_boot \<and>
     b < 3 \<and> b_count (bufs fs_boot b) = 0"
proof -
  from scan_takes_best_free_buffer [OF fs_boot_wf(1)] obtain r
    where r: "scan_free_list (Suc (nr_buffers fs_boot)) None (free_list fs_boot) fs_boot = Done r fs_boot"
      "r = None \<longleftrightarrow> (\<forall>c < nr_buffers fs_boot. b_count (bufs fs_boot c) \<noteq> 0)"
      "\<forall>b. r = Some b \<longrightarrow> b < nr_buffers fs_boot \<and> b_count (bufs fs_boot b) = 0" by blast
  have "b_count (bufs fs_boot 0) = 0" using fs_boot_wf(2) by simp
  with r(2) have "r \<noteq> None" by (auto simp: fs_boot_facts(2))
  with r(1,3) show ?thesis by (auto simp: fs_boot_facts(2) simp del: scan_free_list.simps)
qed

text \<open>A block in the cache that nobody holds locked is found at once: getblk returns its buffer
  with one user more and changes nothing else, whatever runs elsewhere.\<close>

theorem getblk_cached:
  assumes "cache_wf s" "ucast (ucast dev :: u16) = dev" "dev \<noteq> 0"
    and "b < nr_buffers s" "b_dev (bufs s b) = ucast dev" "b_blocknr (bufs s b) = block" "b_lock (bufs s b) = 0"
  shows "getblk_with sync env dev block s = Done b (bupd b (\<lambda>h. h\<lparr>b_count := b_count h + 1\<rparr>) s)"
proof (rule getblk_hit [OF assms(1,2) _ assms(5-7)])
  have "(ucast dev :: u16) \<noteq> 0" using assms(2,3) by auto
  then show "b \<in> hashed (bufs s) (nr_buffers s)" using assms(4,5) by (simp add: hashed_def)
qed

text \<open>The cache of the booted machine after block 7 of device 0x301 was put into buffer 1.\<close>

definition fs_warm :: fs_state where
  "fs_warm = final (take_buffer 1 0x301 7 fs_boot)"

lemma fs_warm_facts:
  "take_buffer 1 0x301 7 fs_boot = Done 1 fs_warm" "cache_wf fs_warm" "nr_buffers fs_warm = 3"
  "b_dev (bufs fs_warm 1) = 0x301" "b_blocknr (bufs fs_warm 1) = 7" "b_lock (bufs fs_warm 1) = 0"
  "b_dev (bufs fs_warm 0) = 0" "b_dev (bufs fs_warm 2) = 0" "b_count (bufs fs_warm 1) = 1"
proof -
  have "\<forall>c \<in> hashed (bufs fs_boot) (nr_buffers fs_boot). \<not> (b_dev (bufs fs_boot c) = ucast (0x301 :: u32) \<and> b_blocknr (bufs fs_boot c) = 7)"
    using fs_boot_wf(2) by (auto simp: hashed_def fs_boot_facts(2))
  from take_buffer_moves [OF fs_boot_wf(1) _ this, of 1]
  show "take_buffer 1 0x301 7 fs_boot = Done 1 fs_warm" "cache_wf fs_warm" "nr_buffers fs_warm = 3"
    "b_dev (bufs fs_warm 1) = 0x301" "b_blocknr (bufs fs_warm 1) = 7" "b_lock (bufs fs_warm 1) = 0"
    "b_dev (bufs fs_warm 0) = 0" "b_dev (bufs fs_warm 2) = 0" "b_count (bufs fs_warm 1) = 1"
    using fs_boot_wf(2) [of 0] fs_boot_wf(2) [of 1] fs_boot_wf(2) [of 2] by (auto simp: fs_warm_def fs_boot_facts(2))
qed

lemma fs_warm_inv: "cache_inv 3 fs_boot" "cache_inv 3 fs_warm"
  using fs_warm_facts(2,3) fs_boot_wf(1) fs_boot_facts take_buffer_root [OF fs_warm_facts(1)] by (simp_all add: cache_inv_def)

text \<open>C4: taking a buffer for a block that no buffer holds succeeds in an ordered cache and leaves it
  ordered: the buffer now carries the device and the block, with one user, clean and not yet valid, all
  other buffers keep their blocks, and the buffer moves to the end of the ring, behind every other one,
  while these keep their order.\<close>

theorem take_buffer_renames:
  assumes "cache_wf s" "b < nr_buffers s"
    and "\<forall>c \<in> hashed (bufs s) (nr_buffers s). \<not> (b_dev (bufs s c) = ucast dev \<and> b_blocknr (bufs s c) = block)"
  shows "\<exists>t xs. take_buffer b dev block s = Done b t \<and> cache_wf t \<and> nr_buffers t = nr_buffers s \<and>
    ring (bufs s) xs \<and> free_list s = Some (List.hd xs) \<and> set xs = {..<nr_buffers s} \<and>
    ring (bufs t) (remove1 b xs @ [b]) \<and> free_list t = Some (List.hd (remove1 b xs @ [b])) \<and>
    b_dev (bufs t b) = ucast dev \<and> b_blocknr (bufs t b) = block \<and>
    b_count (bufs t b) = 1 \<and> b_dirt (bufs t b) = 0 \<and> b_uptodate (bufs t b) = 0 \<and>
    (\<forall>c. c \<noteq> b \<longrightarrow> b_dev (bufs t c) = b_dev (bufs s c) \<and> b_blocknr (bufs t c) = b_blocknr (bufs s c))"
  using take_buffer_moves [OF assms] by blast

theorem take_buffer_renames_witness:
  "\<exists>t. take_buffer 2 0x301 9 fs_warm = Done 2 t \<and> cache_wf t \<and> b_blocknr (bufs t 1) = 7 \<and> b_blocknr (bufs t 2) = 9"
proof -
  have "\<forall>c \<in> hashed (bufs fs_warm) (nr_buffers fs_warm). \<not> (b_dev (bufs fs_warm c) = ucast (0x301 :: u32) \<and> b_blocknr (bufs fs_warm c) = 9)"
  proof (intro ballI)
    fix c assume c: "c \<in> hashed (bufs fs_warm) (nr_buffers fs_warm)"
    then have "c < 3" by (simp add: hashed_def fs_warm_facts(3))
    then consider "c = 0" | "c = 1" | "c = 2" by linarith
    then show "\<not> (b_dev (bufs fs_warm c) = ucast (0x301 :: u32) \<and> b_blocknr (bufs fs_warm c) = 9)"
      using c fs_warm_facts by cases (auto simp: hashed_def)
  qed
  from take_buffer_renames [OF fs_warm_facts(2) _ this, of 2] fs_warm_facts show ?thesis by auto
qed

theorem getblk_cached_witness:
  "getblk_with (\<lambda>d s. Done 0 s) (\<lambda>s. s) 0x301 7 fs_warm = Done 1 (bupd 1 (\<lambda>h. h\<lparr>b_count := b_count h + 1\<rparr>) fs_warm)"
  by (rule getblk_cached) (use fs_warm_facts in simp_all)

end
