(* ===== verification/Sync.thy ===== *)
theory Sync
  imports Cache
begin

text \<open>
  Inodes and super blocks in memory, and the cache they are written through: the locks of
  \<^verbatim>\<open>fs/inode.c\<close> and \<^verbatim>\<open>fs/super.c\<close>, \<open>get_super\<close>, \<open>read_inode\<close>,
  \<open>write_inode\<close>, \<open>sync_inodes\<close>, and the knot \<open>sync_dev\<close>/\<open>getblk\<close>/\<open>bread\<close>.

  The knot is a recursion of the code without a bound of its own: \<open>getblk\<close> of a dirty buffer
  calls \<open>sync_dev\<close>, which writes inodes, for which \<open>bread\<close> calls \<open>getblk\<close>. Each turn
  needs room on the kernel stack of one page; \<open>stack_room\<close> turns fit, the next one overruns it.
\<close>

section \<open>Locks\<close>

definition lock_inode :: "('a fs_state_scheme \<Rightarrow> 'a fs_state_scheme) \<Rightarrow> nat
    \<Rightarrow> 'a fs_state_scheme \<Rightarrow> ('a fs_state_scheme, unit) outcome" where
  "lock_inode env i s =
     kbind (wait_while env (\<lambda>s. i_lock (inode_table s ! i) \<noteq> 0) (I_wait i) s) (\<lambda>_ s.
       Done () (iupd i (\<lambda>x. x\<lparr>i_lock := 1\<rparr>) s))"

definition unlock_inode :: "nat \<Rightarrow> 'a fs_state_scheme \<Rightarrow> 'a fs_state_scheme" where
  "unlock_inode i s = wake_up (Some (I_wait i)) (iupd i (\<lambda>x. x\<lparr>i_lock := 0\<rparr>) s)"

definition wait_on_inode :: "('a fs_state_scheme \<Rightarrow> 'a fs_state_scheme) \<Rightarrow> nat
    \<Rightarrow> 'a fs_state_scheme \<Rightarrow> ('a fs_state_scheme, unit) outcome" where
  "wait_on_inode env i s = wait_while env (\<lambda>s. i_lock (inode_table s ! i) \<noteq> 0) (I_wait i) s"

definition lock_super :: "('a fs_state_scheme \<Rightarrow> 'a fs_state_scheme) \<Rightarrow> nat
    \<Rightarrow> 'a fs_state_scheme \<Rightarrow> ('a fs_state_scheme, unit) outcome" where
  "lock_super env k s =
     kbind (wait_while env (\<lambda>s. s_lock (super_block s ! k) \<noteq> 0) (S_wait k) s) (\<lambda>_ s.
       Done () (supd k (\<lambda>x. x\<lparr>s_lock := 1\<rparr>) s))"

definition free_super :: "nat \<Rightarrow> 'a fs_state_scheme \<Rightarrow> 'a fs_state_scheme" where
  "free_super k s = wake_up (Some (S_wait k)) (supd k (\<lambda>x. x\<lparr>s_lock := 0\<rparr>) s)"

definition wait_on_supper :: "('a fs_state_scheme \<Rightarrow> 'a fs_state_scheme) \<Rightarrow> nat
    \<Rightarrow> 'a fs_state_scheme \<Rightarrow> ('a fs_state_scheme, unit) outcome" where
  "wait_on_supper env k s = wait_while env (\<lambda>s. s_lock (super_block s ! k) \<noteq> 0) (S_wait k) s"

section \<open>Super blocks\<close>

text \<open>
  \<open>get_super\<close>: the scan up to the first entry of the device; after the wait for its lock the
  entry is looked at again, and the scan starts afresh when it has changed hands.
\<close>

definition find_super :: "u32 \<Rightarrow> 'a fs_state_scheme \<Rightarrow> nat option" where
  "find_super dev s = find (\<lambda>k. ucast (s_dev (super_block s ! k)) = dev) [0..<NR_SUPER]"

primrec get_super_loop :: "nat \<Rightarrow> ('a fs_state_scheme \<Rightarrow> 'a fs_state_scheme) \<Rightarrow> u32
    \<Rightarrow> 'a fs_state_scheme \<Rightarrow> ('a fs_state_scheme, nat option) outcome" where
  "get_super_loop 0 env dev s = Blocked s"
| "get_super_loop (Suc n) env dev s =
     (case find_super dev s of
        None \<Rightarrow> Done None s
      | Some k \<Rightarrow>
          kbind (wait_on_supper env k s) (\<lambda>_ s.
            if ucast (s_dev (super_block s ! k)) = dev then Done (Some k) s
            else get_super_loop n env dev s))"

definition get_super :: "('a fs_state_scheme \<Rightarrow> 'a fs_state_scheme) \<Rightarrow> u32
    \<Rightarrow> 'a fs_state_scheme \<Rightarrow> ('a fs_state_scheme, nat option) outcome" where
  "get_super env dev s = (if dev = 0 then Done None s else get_super_loop (Suc (patience s)) env dev s)"

section \<open>Inodes to and from the cache\<close>

text \<open>
  Where the disk inode of an inode lies: block \<open>2 + s_imap_blocks + s_zmap_blocks + (i_num - 1) / 32\<close>,
  entry \<open>(i_num - 1) % 32\<close>, in \<open>int\<close> arithmetic.
\<close>

definition inode_block :: "super_block \<Rightarrow> m_inode \<Rightarrow> u32" where
  "inode_block sb i = word_of_int (2 + uint (s_imap_blocks sb) + uint (s_zmap_blocks sb) +
     cdiv (uint (i_num i) - 1) (int INODES_PER_BLOCK))"

definition inode_offset :: "m_inode \<Rightarrow> u32" where
  "inode_offset i = word_of_int (32 * cmod (uint (i_num i) - 1) (int INODES_PER_BLOCK))"

definition read_inode_with :: "(u32 \<Rightarrow> u32 \<Rightarrow> 'a fs_state_scheme \<Rightarrow> ('a fs_state_scheme, nat option) outcome)
    \<Rightarrow> ('a fs_state_scheme \<Rightarrow> 'a fs_state_scheme) \<Rightarrow> nat
    \<Rightarrow> 'a fs_state_scheme \<Rightarrow> ('a fs_state_scheme, unit) outcome" where
  "read_inode_with bread env i s =
     kbind (lock_inode env i s) (\<lambda>_ s.
     kbind (get_super env (ucast (i_dev (inode_table s ! i))) s) (\<lambda>sb s.
       case sb of
         None \<Rightarrow> panic ''trying to write inode without device'' s
       | Some k \<Rightarrow>
           kbind (bread (ucast (i_dev (inode_table s ! i)))
                   (inode_block (super_block s ! k) (inode_table s ! i)) s) (\<lambda>bh s.
             case bh of
               None \<Rightarrow> panic ''unable to read i-node block'' s
             | Some b \<Rightarrow>
                 let s = iupd i (\<lambda>x. load_dinode (bmem s) (b_data (bufs s b) + inode_offset x) x) s
                 in kbind (brelse env (Some b) s) (\<lambda>_ s. Done () (unlock_inode i s)))))"

definition write_inode_with :: "(u32 \<Rightarrow> u32 \<Rightarrow> 'a fs_state_scheme \<Rightarrow> ('a fs_state_scheme, nat option) outcome)
    \<Rightarrow> ('a fs_state_scheme \<Rightarrow> 'a fs_state_scheme) \<Rightarrow> nat
    \<Rightarrow> 'a fs_state_scheme \<Rightarrow> ('a fs_state_scheme, unit) outcome" where
  "write_inode_with bread env i s =
     kbind (lock_inode env i s) (\<lambda>_ s.
       if i_dirt (inode_table s ! i) = 0 \<or> i_dev (inode_table s ! i) = 0 then Done () (unlock_inode i s)
       else kbind (get_super env (ucast (i_dev (inode_table s ! i))) s) (\<lambda>sb s.
         case sb of
           None \<Rightarrow> panic ''trying to write inode without device'' s
         | Some k \<Rightarrow>
             kbind (bread (ucast (i_dev (inode_table s ! i)))
                     (inode_block (super_block s ! k) (inode_table s ! i)) s) (\<lambda>bh s.
               case bh of
                 None \<Rightarrow> panic ''unable to read i-node block'' s
               | Some b \<Rightarrow>
                   let x = inode_table s ! i;
                       s = s\<lparr>bmem := put_dinode (b_data (bufs s b) + inode_offset x) x (bmem s)\<rparr>;
                       s = bupd b (\<lambda>h. h\<lparr>b_dirt := 1\<rparr>) s;
                       s = iupd i (\<lambda>x. x\<lparr>i_dirt := 0\<rparr>) s
                   in kbind (brelse env (Some b) s) (\<lambda>_ s. Done () (unlock_inode i s)))))"

primrec sync_inode_list :: "nat list \<Rightarrow> (u32 \<Rightarrow> u32 \<Rightarrow> 'a fs_state_scheme \<Rightarrow> ('a fs_state_scheme, nat option) outcome)
    \<Rightarrow> ('a fs_state_scheme \<Rightarrow> 'a fs_state_scheme)
    \<Rightarrow> 'a fs_state_scheme \<Rightarrow> ('a fs_state_scheme, unit) outcome" where
  "sync_inode_list [] bread env s = Done () s"
| "sync_inode_list (i # is) bread env s =
     kbind (wait_on_inode env i s) (\<lambda>_ s.
     kbind (if i_dirt (inode_table s ! i) \<noteq> 0 \<and> i_pipe (inode_table s ! i) = 0
            then write_inode_with bread env i s else Done () s) (\<lambda>_ s.
       sync_inode_list is bread env s))"

definition sync_inodes_with :: "(u32 \<Rightarrow> u32 \<Rightarrow> 'a fs_state_scheme \<Rightarrow> ('a fs_state_scheme, nat option) outcome)
    \<Rightarrow> ('a fs_state_scheme \<Rightarrow> 'a fs_state_scheme)
    \<Rightarrow> 'a fs_state_scheme \<Rightarrow> ('a fs_state_scheme, unit) outcome" where
  "sync_inodes_with bread env s = sync_inode_list [0..<NR_INODE] bread env s"

section \<open>The knot\<close>

primrec sync_dev_n :: "nat \<Rightarrow> ('a fs_state_scheme \<Rightarrow> 'a fs_state_scheme) \<Rightarrow> u32
    \<Rightarrow> 'a fs_state_scheme \<Rightarrow> ('a fs_state_scheme, u32) outcome" where
  "sync_dev_n 0 env dev s = Halted (Undef ''kernel stack'') s"
| "sync_dev_n (Suc n) env dev s =
     sync_dev_with (sync_inodes_with (bread_with (sync_dev_n n env) env) env) env dev s"

definition sync_dev :: "('a fs_state_scheme \<Rightarrow> 'a fs_state_scheme) \<Rightarrow> u32
    \<Rightarrow> 'a fs_state_scheme \<Rightarrow> ('a fs_state_scheme, u32) outcome" where
  "sync_dev env dev s = sync_dev_n (stack_room s) env dev s"

definition getblk :: "('a fs_state_scheme \<Rightarrow> 'a fs_state_scheme) \<Rightarrow> u32 \<Rightarrow> u32
    \<Rightarrow> 'a fs_state_scheme \<Rightarrow> ('a fs_state_scheme, nat) outcome" where
  "getblk env dev block s = getblk_with (sync_dev env) env dev block s"

definition bread :: "('a fs_state_scheme \<Rightarrow> 'a fs_state_scheme) \<Rightarrow> u32 \<Rightarrow> u32
    \<Rightarrow> 'a fs_state_scheme \<Rightarrow> ('a fs_state_scheme, nat option) outcome" where
  "bread env dev block s = bread_with (sync_dev env) env dev block s"

definition read_inode :: "('a fs_state_scheme \<Rightarrow> 'a fs_state_scheme) \<Rightarrow> nat
    \<Rightarrow> 'a fs_state_scheme \<Rightarrow> ('a fs_state_scheme, unit) outcome" where
  "read_inode env i s = read_inode_with (bread env) env i s"

definition write_inode :: "('a fs_state_scheme \<Rightarrow> 'a fs_state_scheme) \<Rightarrow> nat
    \<Rightarrow> 'a fs_state_scheme \<Rightarrow> ('a fs_state_scheme, unit) outcome" where
  "write_inode env i s = write_inode_with (bread env) env i s"

definition sync_inodes :: "('a fs_state_scheme \<Rightarrow> 'a fs_state_scheme)
    \<Rightarrow> 'a fs_state_scheme \<Rightarrow> ('a fs_state_scheme, unit) outcome" where
  "sync_inodes env s = sync_inodes_with (bread env) env s"

section \<open>Invariants across the cache\<close>

text \<open>
  What the inode layer asks of an invariant: \<open>getblk\<close> keeps it, provided that what runs
  during a sleep and the write-back do, and it says nothing of an inode but its device and number.
\<close>

abbreviation is_dev :: "u32 \<Rightarrow> bool" where
  "is_dev dev \<equiv> ucast (ucast dev :: u16) = dev"

lemma is_dev_ucast [simp]: "is_dev (ucast (d :: u16))"
  by (rule arg_cong [where f = ucast], rule bit_word_eqI) (simp add: bit_simps)

lemma ucast_u16_u32 [simp]: "(ucast (ucast (d :: u16) :: u32) :: u16) = d"
  by (rule bit_word_eqI) (simp add: bit_simps)

lemma ucast_u16_0 [simp]: "(ucast (d :: u16) :: u32) = 0 \<longleftrightarrow> d = 0"
  by (auto dest: arg_cong [where f = "ucast :: u32 \<Rightarrow> u16"])

locale cache_frame = block_frame I for I :: "'a fs_state_scheme \<Rightarrow> bool" +
  assumes I_getblk_with: "(\<And>s. I s \<Longrightarrow> I (env s)) \<Longrightarrow> (\<And>d s. I s \<Longrightarrow> I (final (sync d s))) \<Longrightarrow>
      is_dev dev \<Longrightarrow> I s \<Longrightarrow> I (final (getblk_with sync env dev block s))"
    and I_iupd: "I s \<Longrightarrow> (\<And>x. i_dev (f x) = i_dev x \<and> i_num (f x) = i_num x) \<Longrightarrow> I (iupd i f s)"
    and I_supd: "I s \<Longrightarrow> I (supd k g s)"
begin

lemma I_wait_on_buffer: "(\<And>s. I s \<Longrightarrow> I (env s)) \<Longrightarrow> I s \<Longrightarrow> I (final (wait_on_buffer env b s))"
  unfolding wait_on_buffer_def by (rule I_wait_while)

lemma I_brelse: "(\<And>s. I s \<Longrightarrow> I (env s)) \<Longrightarrow> I s \<Longrightarrow> I (final (brelse env p s))"
proof (cases p)
  case (Some b)
  assume env: "\<And>s. I s \<Longrightarrow> I (env s)" and "I s"
  then have "I (final (kbind (wait_on_buffer env b s) (\<lambda>_ s.
      let c = b_count (bufs s b); s = bupd b (\<lambda>h. h\<lparr>b_count := b_count h - 1\<rparr>) s
      in if c = 0 then panic ''Trying to free free buffer'' s else Done () (wake_up (Some Buffer_wait) s))))"
    by (intro kbind_keeps [where I = I, OF I_wait_on_buffer])
      (simp_all add: Let_def I_count I_wake_up I_panic)
  with Some show ?thesis by (simp add: brelse_def)
qed (simp add: brelse_def)

lemma I_bread_with:
  assumes env: "\<And>s. I s \<Longrightarrow> I (env s)" and sync: "\<And>d s. I s \<Longrightarrow> I (final (sync d s))"
    and "is_dev dev" "I s"
  shows "I (final (bread_with sync env dev block s))"
proof -
  have rel: "I (final (if b_uptodate (bufs u b) \<noteq> 0 then Done (Some b) u
      else kbind (brelse env (Some b) u) (\<lambda>_ s. Done None s)))" if "I u" for u b
    using that by (simp add: kbind_keeps [where I = I] I_brelse env)
  have wait: "I (final (kbind (wait_on_buffer env b u) (\<lambda>_ s. if b_uptodate (bufs s b) \<noteq> 0 then Done (Some b) s
      else kbind (brelse env (Some b) s) (\<lambda>_ s. Done None s))))" if "I u" for u b
    by (rule kbind_keeps [where I = I]) (use rel in \<open>simp_all add: I_wait_on_buffer env that\<close>)
  have read: "I (final (kbind (ll_rw_block env READ b t) (\<lambda>_ s. kbind (wait_on_buffer env b s) (\<lambda>_ s.
      if b_uptodate (bufs s b) \<noteq> 0 then Done (Some b) s
      else kbind (brelse env (Some b) s) (\<lambda>_ s. Done None s)))))" if "I t" for b t
    by (rule kbind_keeps [where I = I]) (use wait in \<open>simp_all add: I_ll_rw_block env that\<close>)
  show ?thesis unfolding bread_with_def
    by (rule kbind_keeps [where I = I]) (use read in \<open>simp_all add: I_getblk_with env sync assms(3,4)\<close>)
qed

lemma I_write_buffers:
  assumes env: "\<And>s. I s \<Longrightarrow> I (env s)"
  shows "I s \<Longrightarrow> I (final (write_buffers bs env dev s))"
proof (induction bs arbitrary: s)
  case (Cons b bs)
  have "I (final (kbind (wait_on_buffer env b s) (\<lambda>_ s.
      kbind (if ucast (b_dev (bufs s b)) = dev \<and> b_dirt (bufs s b) \<noteq> 0
             then ll_rw_block env WRITE b s else Done () s) (\<lambda>_ s. write_buffers bs env dev s))))"
    by (intro kbind_keeps [where I = I])
      (simp_all add: I_wait_on_buffer I_ll_rw_block env Cons.prems Cons.IH)
  with Cons show ?case by simp
qed simp

lemma I_sync_dev_with:
  assumes env: "\<And>s. I s \<Longrightarrow> I (env s)" and inodes: "\<And>s. I s \<Longrightarrow> I (final (si s))" and "I s"
  shows "I (final (sync_dev_with si env dev s))"
proof -
  have a: "I (final (kbind (write_buffers [0..<nr_buffers t] env dev t) (\<lambda>_ s. Done (0 :: u32) s)))" if "I t" for t
    by (rule kbind_keeps [where I = I]) (simp_all add: I_write_buffers env that)
  have b: "I (final (kbind (si t) (\<lambda>_ s.
      kbind (write_buffers [0..<nr_buffers s] env dev s) (\<lambda>_ s. Done (0 :: u32) s))))" if "I t" for t
    by (rule kbind_keeps [where I = I]) (use a in \<open>simp_all add: inodes that\<close>)
  show ?thesis unfolding sync_dev_with_def
    by (rule kbind_keeps [where I = I]) (use b in \<open>simp_all add: I_write_buffers env assms(3)\<close>)
qed

lemma I_lock_inode: "(\<And>s. I s \<Longrightarrow> I (env s)) \<Longrightarrow> I s \<Longrightarrow> I (final (lock_inode env i s))"
  unfolding lock_inode_def by (rule kbind_keeps [where I = I, OF I_wait_while]) (simp_all add: I_iupd)

lemma I_unlock_inode: "I s \<Longrightarrow> I (unlock_inode i s)"
  by (simp add: unlock_inode_def I_iupd I_wake_up)

lemma I_wait_on_inode: "(\<And>s. I s \<Longrightarrow> I (env s)) \<Longrightarrow> I s \<Longrightarrow> I (final (wait_on_inode env i s))"
  unfolding wait_on_inode_def by (rule I_wait_while)

lemma I_lock_super: "(\<And>s. I s \<Longrightarrow> I (env s)) \<Longrightarrow> I s \<Longrightarrow> I (final (lock_super env i s))"
  unfolding lock_super_def by (rule kbind_keeps [where I = I, OF I_wait_while]) (simp_all add: I_supd)

lemma I_free_super: "I s \<Longrightarrow> I (free_super k s)"
  by (simp add: free_super_def I_supd I_wake_up)

lemma I_get_super_loop:
  assumes env: "\<And>s. I s \<Longrightarrow> I (env s)"
  shows "I s \<Longrightarrow> I (final (get_super_loop n env dev s))"
proof (induction n arbitrary: s)
  case (Suc n)
  have "I (final (kbind (wait_on_supper env k s) (\<lambda>_ s.
      if ucast (s_dev (super_block s ! k)) = dev then Done (Some k) s else get_super_loop n env dev s)))" for k
    unfolding wait_on_supper_def
    by (rule kbind_keeps [where I = I, OF I_wait_while [OF env Suc.prems]]) (simp_all add: Suc.IH)
  with Suc.prems show ?case by (simp split: option.split)
qed simp

lemma I_get_super: "(\<And>s. I s \<Longrightarrow> I (env s)) \<Longrightarrow> I s \<Longrightarrow> I (final (get_super env dev s))"
  unfolding get_super_def by (simp add: I_get_super_loop del: get_super_loop.simps)

lemma I_put_inode: "I s \<Longrightarrow> I (iupd i (\<lambda>x. x\<lparr>i_dirt := 0\<rparr>) (bupd b (\<lambda>h. h\<lparr>b_dirt := 1\<rparr>) (s\<lparr>bmem := m\<rparr>)))"
  by (simp add: I_iupd I_dirt I_bmem)

lemma I_write_inode_with:
  assumes env: "\<And>s. I s \<Longrightarrow> I (env s)" and bread: "\<And>d k s. is_dev d \<Longrightarrow> I s \<Longrightarrow> I (final (rd d k s))" and "I s"
  shows "I (final (write_inode_with rd env i s))"
proof -
  have put: "I (final (let x = inode_table t ! i;
        s = t\<lparr>bmem := put_dinode (b_data (bufs t b) + inode_offset x) x (bmem t)\<rparr>;
        s = bupd b (\<lambda>h. h\<lparr>b_dirt := 1\<rparr>) s;
        s = iupd i (\<lambda>x. x\<lparr>i_dirt := 0\<rparr>) s
      in kbind (brelse env (Some b) s) (\<lambda>_ s. Done () (unlock_inode i s))))" if "I t" for t b
    unfolding Let_def
    by (rule kbind_keeps [where I = I]) (simp_all add: I_brelse I_unlock_inode env I_put_inode that)
  show ?thesis unfolding write_inode_with_def
    by (intro kbind_keeps [where I = I])
      (use put in \<open>auto intro!: kbind_keeps [where I = I]
        simp: I_lock_inode I_unlock_inode I_get_super I_panic env bread assms(3) split: option.split\<close>)
qed

lemma I_sync_inodes_with:
  assumes env: "\<And>s. I s \<Longrightarrow> I (env s)" and bread: "\<And>d k s. is_dev d \<Longrightarrow> I s \<Longrightarrow> I (final (rd d k s))" and "I s"
  shows "I (final (sync_inodes_with rd env s))"
proof -
  have "I s \<Longrightarrow> I (final (sync_inode_list xs rd env s))" for xs s
  proof (induction xs arbitrary: s)
    case (Cons i xs)
    show ?case unfolding sync_inode_list.simps
      by (intro kbind_keeps [where I = I])
        (simp_all add: I_wait_on_inode I_write_inode_with env bread Cons)
  qed simp
  with assms(3) show ?thesis by (simp add: sync_inodes_with_def)
qed

lemma I_sync_dev_n:
  assumes env: "\<And>s. I s \<Longrightarrow> I (env s)"
  shows "I s \<Longrightarrow> I (final (sync_dev_n n env dev s))"
proof (induction n arbitrary: dev s)
  case (Suc n)
  have "I (final (bread_with (sync_dev_n n env) env d k s))" if "is_dev d" "I s" for d k s
    by (rule I_bread_with [OF env Suc.IH that]) simp_all
  then have "I (final (sync_inodes_with (bread_with (sync_dev_n n env) env) env s))" if "I s" for s
    using that env by (simp add: I_sync_inodes_with)
  then show ?case by (simp add: I_sync_dev_with env Suc.prems)
qed simp

lemma I_sync_dev: "(\<And>s. I s \<Longrightarrow> I (env s)) \<Longrightarrow> I s \<Longrightarrow> I (final (sync_dev env dev s))"
  by (simp add: sync_dev_def I_sync_dev_n)

lemma I_getblk: "(\<And>s. I s \<Longrightarrow> I (env s)) \<Longrightarrow> is_dev dev \<Longrightarrow> I s \<Longrightarrow> I (final (getblk env dev block s))"
  by (simp add: getblk_def I_getblk_with I_sync_dev)

lemma I_bread: "(\<And>s. I s \<Longrightarrow> I (env s)) \<Longrightarrow> is_dev dev \<Longrightarrow> I s \<Longrightarrow> I (final (bread env dev block s))"
  by (simp add: bread_def I_bread_with I_sync_dev)

lemma I_write_inode: "(\<And>s. I s \<Longrightarrow> I (env s)) \<Longrightarrow> I s \<Longrightarrow> I (final (write_inode env i s))"
  by (simp add: write_inode_def I_write_inode_with I_bread)

lemma I_load_dinode: "I s \<Longrightarrow> I (iupd i (\<lambda>x. load_dinode m (a x) x) s)"
  by (simp add: I_iupd load_dinode_def)

lemma I_read_inode:
  assumes env: "\<And>s. I s \<Longrightarrow> I (env s)" and "I s"
  shows "I (final (read_inode env i s))"
  unfolding read_inode_def read_inode_with_def
  by (intro kbind_keeps [where I = I])
    (auto intro!: kbind_keeps [where I = I] simp: Let_def I_lock_inode I_unlock_inode I_get_super I_panic
      I_brelse I_load_dinode env I_bread assms(2) split: option.split)

lemma I_sync_inodes: "(\<And>s. I s \<Longrightarrow> I (env s)) \<Longrightarrow> I s \<Longrightarrow> I (final (sync_inodes env s))"
  by (simp add: sync_inodes_def I_sync_inodes_with I_bread)

end

section \<open>The cache\<close>

interpretation cache: cache_frame "cache_inv n" for n
proof unfold_locales
  fix env :: "'a fs_state_scheme \<Rightarrow> 'a fs_state_scheme" and s :: "'a fs_state_scheme" and dev block
    and sync :: "u32 \<Rightarrow> 'a fs_state_scheme \<Rightarrow> ('a fs_state_scheme, u32) outcome"
  assume "\<And>s. cache_inv n s \<Longrightarrow> cache_inv n (env s)" "\<And>d s. cache_inv n s \<Longrightarrow> cache_inv n (final (sync d s))"
    "is_dev dev" "cache_inv n s"
  then have "always (getblk_with sync env dev block s) (cache_inv n) (holds n dev block)"
    by (rule getblk_with_always)
  then show "cache_inv n (final (getblk_with sync env dev block s))" by (simp add: always_def)
next
  fix s :: "'a fs_state_scheme"
  assume s: "cache_inv n s"
  show "cache_inv n (iupd i f s)" for i f by (rule cache_inv_same_block [OF s]) (simp_all add: iupd_def)
  show "cache_inv n (supd k g s)" for k g by (rule cache_inv_same_block [OF s]) (simp_all add: supd_def)
qed

section \<open>Taking a fresh buffer\<close>

lemma getblk_fresh:
  assumes wf: "cache_wf s" and dev: "is_dev dev"
    and miss: "\<forall>c \<in> hashed (bufs s) (nr_buffers s). \<not> (b_dev (bufs s c) = ucast dev \<and> b_blocknr (bufs s c) = block)"
    and free: "c < nr_buffers s" "b_count (bufs s c) = 0" "b_dirt (bufs s c) = 0" "b_lock (bufs s c) = 0"
  shows "\<exists>b t. getblk_with sync env dev block s = Done b t \<and> take_buffer b dev block s = Done b t \<and>
    b < nr_buffers s \<and> b_count (bufs s b) = 0 \<and> b_dirt (bufs s b) = 0 \<and> b_lock (bufs s b) = 0"
proof -
  from cache_wf_find [OF wf dev, of block] miss have f: "find_buffer dev block s = Done None s"
    by (auto split: option.splits)
  from scan_free_list_best [OF wf] obtain r
    where r: "scan_free_list (Suc (nr_buffers s)) None (free_list s) s = Done r s"
      "r = None \<longleftrightarrow> (\<forall>c < nr_buffers s. b_count (bufs s c) \<noteq> 0)"
      "\<forall>b. r = Some b \<longrightarrow> b < nr_buffers s \<and> b_count (bufs s b) = 0 \<and>
         (\<forall>c < nr_buffers s. b_count (bufs s c) = 0 \<longrightarrow> BADNESS (bufs s b) \<le> BADNESS (bufs s c))" by blast
  from r(2) free obtain b where b: "r = Some b" by auto
  with r(3) free have "BADNESS (bufs s b) \<le> BADNESS (bufs s c)" by simp
  then have "BADNESS (bufs s b) = 0" using free by (simp add: BADNESS_def)
  then have clean: "b_dirt (bufs s b) = 0" "b_lock (bufs s b) = 0" by (simp_all add: BADNESS_def unat_eq_0)
  have bn: "b < nr_buffers s" "b_count (bufs s b) = 0" using b r(3) by simp_all
  from take_buffer_Done [OF wf bn(1) miss] obtain t where t: "take_buffer b dev block s = Done b t" by blast
  have "get_hash_table env dev block s = Done None s" by (simp add: get_hash_table_def f)
  then have "getblk_with sync env dev block s = Done b t"
    using r(1) f t clean bn by (simp add: getblk_with_def b wait_on_buffer_def del: scan_free_list.simps)
  with t bn clean show ?thesis by blast
qed

section \<open>Properties\<close>

lemma holds_unique:
  assumes "cache_inv n t" "holds n dev block b t" "is_dev dev" "dev \<noteq> 0" "c < n"
    and "b_dev (bufs t c) = ucast dev" "b_blocknr (bufs t c) = block"
  shows "c = b"
proof -
  from assms(3,4) have "(ucast dev :: u16) \<noteq> 0" by auto
  with assms show ?thesis by (auto simp: cache_inv_def cache_wf_def unique_blocks_def hashed_def holds_def)
qed

lemma holds_always:
  assumes "\<And>s. cache_inv n s \<Longrightarrow> cache_inv n (env s)" "is_dev dev" "cache_inv n s"
  shows "always (getblk env dev block s) (cache_inv n) (holds n dev block)"
  unfolding getblk_def by (rule getblk_with_always) (simp_all add: assms cache.I_sync_dev)

text \<open>C9: whatever other tasks do to an ordered cache while getblk sleeps, as long as they leave it
  ordered, getblk leaves it ordered wherever it is cut off or halts, and the buffer it returns carries the
  device and the block asked for and is the only buffer that does.\<close>

theorem getblk_returns_the_block:
  assumes "\<And>s. cache_inv n s \<Longrightarrow> cache_inv n (env s)" "is_dev dev" "dev \<noteq> 0" "cache_inv n s"
  shows "always (getblk env dev block s) (cache_inv n) (\<lambda>b t. b < n \<and> b_dev (bufs t b) = ucast dev \<and>
    b_blocknr (bufs t b) = block \<and>
    (\<forall>c < n. b_dev (bufs t c) = ucast dev \<and> b_blocknr (bufs t c) = block \<longrightarrow> c = b))"
proof (rule always_mono [OF holds_always [OF assms(1,2,4)]])
  fix b and t :: "'a fs_state_scheme" assume "cache_inv n t" "holds n dev block b t"
  with holds_unique [OF this assms(2,3)] show "b < n \<and> b_dev (bufs t b) = ucast dev \<and> b_blocknr (bufs t b) = block \<and>
    (\<forall>c < n. b_dev (bufs t c) = ucast dev \<and> b_blocknr (bufs t c) = block \<longrightarrow> c = b)"
    by (auto simp: holds_def)
qed

theorem getblk_returns_the_block_witness:
  "always (getblk (\<lambda>s. s) 0x301 7 fs_warm) (cache_inv 3) (\<lambda>b t. b < 3 \<and> b_dev (bufs t b) = ucast (0x301 :: u32) \<and>
    b_blocknr (bufs t b) = 7 \<and>
    (\<forall>c < 3. b_dev (bufs t c) = ucast (0x301 :: u32) \<and> b_blocknr (bufs t c) = 7 \<longrightarrow> c = b))"
  by (rule getblk_returns_the_block) (simp_all add: fs_warm_inv)

text \<open>Getblk of a block that is not in the cache returns at once when some buffer is free, clean and
  unlocked: no sleep and no disk access, and the buffer it takes was itself free, clean and unlocked. It now
  carries the block with one user, and every other buffer keeps its block.\<close>

theorem getblk_takes_free_buffer:
  assumes "cache_wf s" "is_dev dev"
    and "\<forall>c \<in> hashed (bufs s) (nr_buffers s). \<not> (b_dev (bufs s c) = ucast dev \<and> b_blocknr (bufs s c) = block)"
    and "c < nr_buffers s" "b_count (bufs s c) = 0" "b_dirt (bufs s c) = 0" "b_lock (bufs s c) = 0"
  shows "\<exists>b t. getblk env dev block s = Done b t \<and> cache_wf t \<and> b < nr_buffers s \<and>
    b_count (bufs s b) = 0 \<and> b_dirt (bufs s b) = 0 \<and> b_lock (bufs s b) = 0 \<and>
    b_dev (bufs t b) = ucast dev \<and> b_blocknr (bufs t b) = block \<and> b_count (bufs t b) = 1 \<and>
    (\<forall>c. c \<noteq> b \<longrightarrow> b_dev (bufs t c) = b_dev (bufs s c) \<and> b_blocknr (bufs t c) = b_blocknr (bufs s c))"
proof -
  from getblk_fresh [OF assms, of "sync_dev env" env] obtain b t
    where t: "getblk env dev block s = Done b t" "take_buffer b dev block s = Done b t" "b < nr_buffers s"
      "b_count (bufs s b) = 0" "b_dirt (bufs s b) = 0" "b_lock (bufs s b) = 0"
    unfolding getblk_def by blast
  with take_buffer_moves [OF assms(1) t(3) assms(3)] show ?thesis by auto
qed

theorem getblk_takes_free_buffer_witness:
  "\<exists>b t. getblk (\<lambda>s. s) 0x301 5 fs_boot = Done b t \<and> cache_wf t \<and> b_blocknr (bufs t b) = 5"
proof -
  have "\<forall>c \<in> hashed (bufs fs_boot) (nr_buffers fs_boot). \<not> (b_dev (bufs fs_boot c) = ucast (0x301 :: u32) \<and> b_blocknr (bufs fs_boot c) = 5)"
    using fs_boot_wf(2) by (auto simp: hashed_def fs_boot_facts(2))
  from getblk_takes_free_buffer [OF fs_boot_wf(1) _ this, of 0 "\<lambda>s. s"] fs_boot_wf(2) [of 0]
  show ?thesis by (auto simp: fs_boot_facts(2))
qed

end
