(* ===== verification/Inode_IO.thy ===== *)
theory Inode_IO
  imports Sync
begin

text \<open>
  What a round trip of an inode through the cache does when nobody else holds the inode, its super
  block or its buffer: \<open>write_inode\<close> puts the disk part of the inode into its slot of the block, and
  \<open>read_inode\<close> of the same number takes it back. No routine sleeps on the way.
\<close>

lemma wake_up_fs [simp]:
  "inode_table (wake_up q s) = inode_table s" "super_block (wake_up q s) = super_block s"
  "hash_table (wake_up q s) = hash_table s" "free_list (wake_up q s) = free_list s"
  "nr_buffers (wake_up q s) = nr_buffers s" "file_table (wake_up q s) = file_table s"
  "stack_room (wake_up q s) = stack_room s" "patience (wake_up q s) = patience s"
  "last_inode (wake_up q s) = last_inode s" "ROOT_DEV (wake_up q s) = ROOT_DEV s"
  by (auto simp: wake_up_def tupd_def Let_def split: option.split)

lemma fs_queue_simps [simp]:
  "hash_table (iupd i f s) = hash_table s" "free_list (iupd i f s) = free_list s" "nr_buffers (iupd i f s) = nr_buffers s"
  "hash_table (supd k g s) = hash_table s" "free_list (supd k g s) = free_list s" "nr_buffers (supd k g s) = nr_buffers s"
  "stack_room (supd k g s) = stack_room s"
  by (simp_all add: iupd_def supd_def)

lemma cache_wf_same:
  assumes "cache_wf s" "\<And>b. same_block (bufs t b) (bufs s b)"
    and "hash_table t = hash_table s" "free_list t = free_list s" "nr_buffers t = nr_buffers s"
  shows "cache_wf t"
  using cache_wf_same_block [OF assms] .

section \<open>The routines on the way\<close>

lemma get_super_free:
  assumes "find_super dev s = Some k" "s_lock (super_block s ! k) = 0" "dev \<noteq> 0"
  shows "get_super env dev s = Done (Some k) s"
proof -
  from assms(1) have "ucast (s_dev (super_block s ! k)) = dev"
    by (auto simp: find_super_def find_Some_iff)
  with assms show ?thesis by (simp add: get_super_def wait_on_supper_def)
qed

lemma find_super_cong: "super_block t = super_block s \<Longrightarrow> find_super dev t = find_super dev s"
  by (simp add: find_super_def)

lemma lock_inode_free: "i_lock (inode_table s ! i) = 0 \<Longrightarrow> lock_inode env i s = Done () (iupd i (\<lambda>x. x\<lparr>i_lock := 1\<rparr>) s)"
  by (simp add: lock_inode_def)

lemma wait_on_inode_free [simp]: "i_lock (inode_table s ! i) = 0 \<Longrightarrow> wait_on_inode env i s = Done () s"
  by (simp add: wait_on_inode_def)

definition in_cache :: "u32 \<Rightarrow> u32 \<Rightarrow> nat \<Rightarrow> 'a fs_state_scheme \<Rightarrow> bool" where
  "in_cache dev block b s \<longleftrightarrow> b < nr_buffers s \<and> b_dev (bufs s b) = ucast dev \<and> b_blocknr (bufs s b) = block \<and>
     b_lock (bufs s b) = 0 \<and> b_uptodate (bufs s b) \<noteq> 0 \<and> b_count (bufs s b) \<noteq> -1"

lemma inc_nonzero: "(c :: 'w::len word) \<noteq> -1 \<Longrightarrow> c + 1 \<noteq> 0"
  by (metis eq_neg_iff_add_eq_0)

lemma bread_cached:
  assumes "cache_wf s" "is_dev dev" "dev \<noteq> 0" "in_cache dev block b s"
  shows "bread env dev block s = Done (Some b) (bupd b (\<lambda>h. h\<lparr>b_count := b_count h + 1\<rparr>) s)"
proof -
  have "(ucast dev :: u16) \<noteq> 0" using assms(2,3) by auto
  then have "b \<in> hashed (bufs s) (nr_buffers s)" using assms(4) by (simp add: hashed_def in_cache_def)
  from getblk_hit [OF assms(1,2) this, of block "sync_dev env" env] assms(4)
  show ?thesis by (simp add: bread_def bread_with_def in_cache_def)
qed

lemma brelse_held:
  assumes "b_lock (bufs s b) = 0" "b_count (bufs s b) \<noteq> 0"
  shows "brelse env (Some b) s = Done () (wake_up (Some Buffer_wait) (bupd b (\<lambda>h. h\<lparr>b_count := b_count h - 1\<rparr>) s))"
  using assms by (simp add: brelse_def wait_on_buffer_def Let_def)

text \<open>An inode that nobody holds, whose super block is free and whose block is in the cache.\<close>

definition at_hand :: "nat \<Rightarrow> nat \<Rightarrow> nat \<Rightarrow> 'a fs_state_scheme \<Rightarrow> bool" where
  "at_hand i k b s \<longleftrightarrow> cache_wf s \<and> i < length (inode_table s) \<and> i_lock (inode_table s ! i) = 0 \<and>
     i_dev (inode_table s ! i) \<noteq> 0 \<and> find_super (ucast (i_dev (inode_table s ! i))) s = Some k \<and>
     s_lock (super_block s ! k) = 0 \<and>
     in_cache (ucast (i_dev (inode_table s ! i))) (inode_block (super_block s ! k) (inode_table s ! i)) b s"

lemma put_dinode_lock [simp]: "put_dinode a (x\<lparr>i_lock := v\<rparr>) m = put_dinode a x m"
  by (simp add: put_dinode_def)

lemma inode_place_lock [simp]: "inode_block sb (x\<lparr>i_lock := v\<rparr>) = inode_block sb x" "inode_offset (x\<lparr>i_lock := v\<rparr>) = inode_offset x"
  by (simp_all add: inode_block_def inode_offset_def)

lemma in_cache_iupd [simp]: "in_cache dev block b (iupd i f s) = in_cache dev block b s"
  by (simp add: in_cache_def)

lemma cache_wf_iupd [simp]: "cache_wf s \<Longrightarrow> cache_wf (iupd i f s)"
  by (erule cache_wf_same) simp_all

lemma i_lock_reset: "i_lock x = 0 \<Longrightarrow> x\<lparr>i_lock := 0\<rparr> = x"
  by (rule m_inode.equality) simp_all

lemma write_inode_at_hand:
  assumes "at_hand i k b s" "i_dirt (inode_table s ! i) \<noteq> 0" "x = inode_table s ! i"
  shows "\<exists>t. write_inode env i s = Done () t \<and> cache_wf t \<and> inode_table t = (inode_table s)[i := x\<lparr>i_dirt := 0\<rparr>] \<and>
    super_block t = super_block s \<and> bmem t = put_dinode (b_data (bufs s b) + inode_offset x) x (bmem s) \<and>
    bufs t = (bufs s)(b := (bufs s b)\<lparr>b_dirt := 1\<rparr>) \<and> nr_buffers t = nr_buffers s"
proof -
  note a = assms(1) [unfolded at_hand_def]
  let ?s1 = "iupd i (\<lambda>x. x\<lparr>i_lock := 1\<rparr>) s"
  let ?s2 = "bupd b (\<lambda>h. h\<lparr>b_count := b_count h + 1\<rparr>) ?s1"
  let ?s3 = "iupd i (\<lambda>x. x\<lparr>i_dirt := 0\<rparr>) (bupd b (\<lambda>h. h\<lparr>b_dirt := 1\<rparr>)
     (?s2\<lparr>bmem := put_dinode (b_data (bufs s b) + inode_offset x) x (bmem s)\<rparr>))"
  let ?t = "unlock_inode i (wake_up (Some Buffer_wait) (bupd b (\<lambda>h. h\<lparr>b_count := b_count h - 1\<rparr>) ?s3))"
  have sup: "get_super env (ucast (i_dev x)) ?s1 = Done (Some k) ?s1"
    by (rule get_super_free) (use a assms(3) in \<open>simp_all add: find_super_cong [of ?s1 s]\<close>)
  have rd: "bread env (ucast (i_dev x)) (inode_block (super_block s ! k) x) ?s1 = Done (Some b) ?s2"
    by (rule bread_cached) (use a assms(3) in simp_all)
  have "b_count (bufs s b) + 1 \<noteq> 0" using a by (auto simp: in_cache_def dest: inc_nonzero)
  then have rel: "brelse env (Some b) ?s3 = Done () (wake_up (Some Buffer_wait) (bupd b (\<lambda>h. h\<lparr>b_count := b_count h - 1\<rparr>) ?s3))"
    by (intro brelse_held) (use a in \<open>simp_all add: in_cache_def\<close>)
  have run: "write_inode env i s = Done () ?t"
    unfolding write_inode_def write_inode_with_def using a assms(2,3) sup rd rel
    by (simp add: lock_inode_free Let_def)
  moreover have "cache_wf ?t" by (rule cache_wf_same [of s]) (use a in \<open>simp_all add: unlock_inode_def same_block_def\<close>)
  moreover have "bufs ?t = (bufs s)(b := (bufs s b)\<lparr>b_dirt := 1\<rparr>)"
    by (auto simp: unlock_inode_def fun_eq_iff intro: buffer_head.equality)
  moreover have "inode_table ?t = (inode_table s)[i := x\<lparr>i_dirt := 0\<rparr>]"
    using a assms(3) by (simp add: unlock_inode_def i_lock_reset)
  ultimately show ?thesis using assms(3) by (intro exI [of _ ?t]) (simp add: unlock_inode_def)
qed

definition disk_part :: "m_inode \<Rightarrow> m_inode \<Rightarrow> m_inode" where
  "disk_part x y = y\<lparr>i_mode := i_mode x, i_uid := i_uid x, i_size := i_size x, i_mtime := i_mtime x,
     i_gid := i_gid x, i_nlinks := i_nlinks x, i_zone := i_zone x\<rparr>"

lemma load_dinode_lock: "load_dinode m a (y\<lparr>i_lock := v\<rparr>) = (load_dinode m a y)\<lparr>i_lock := v\<rparr>"
  by (simp add: load_dinode_def)

lemma i_lock_load [simp]: "i_lock (load_dinode m a y) = i_lock y"
  by (simp add: load_dinode_def)

lemma read_inode_at_hand:
  assumes "at_hand i k b s" "y = inode_table s ! i"
  shows "\<exists>t. read_inode env i s = Done () t \<and> cache_wf t \<and>
    inode_table t = (inode_table s)[i := load_dinode (bmem s) (b_data (bufs s b) + inode_offset y) y] \<and>
    super_block t = super_block s \<and> bmem t = bmem s \<and> bufs t = bufs s \<and> nr_buffers t = nr_buffers s"
proof -
  note a = assms(1) [unfolded at_hand_def]
  let ?s1 = "iupd i (\<lambda>x. x\<lparr>i_lock := 1\<rparr>) s"
  let ?s2 = "bupd b (\<lambda>h. h\<lparr>b_count := b_count h + 1\<rparr>) ?s1"
  let ?s3 = "iupd i (\<lambda>x. load_dinode (bmem s) (b_data (bufs s b) + inode_offset x) x) ?s2"
  let ?t = "unlock_inode i (wake_up (Some Buffer_wait) (bupd b (\<lambda>h. h\<lparr>b_count := b_count h - 1\<rparr>) ?s3))"
  have sup: "get_super env (ucast (i_dev y)) ?s1 = Done (Some k) ?s1"
    by (rule get_super_free) (use a assms(2) in \<open>simp_all add: find_super_cong [of ?s1 s]\<close>)
  have rd: "bread env (ucast (i_dev y)) (inode_block (super_block s ! k) y) ?s1 = Done (Some b) ?s2"
    by (rule bread_cached) (use a assms(2) in simp_all)
  have "b_count (bufs s b) + 1 \<noteq> 0" using a by (auto simp: in_cache_def dest: inc_nonzero)
  then have rel: "brelse env (Some b) ?s3 = Done () (wake_up (Some Buffer_wait) (bupd b (\<lambda>h. h\<lparr>b_count := b_count h - 1\<rparr>) ?s3))"
    by (intro brelse_held) (use a in \<open>simp_all add: in_cache_def\<close>)
  have run: "read_inode env i s = Done () ?t"
    unfolding read_inode_def read_inode_with_def using a assms(2) sup rd rel
    by (simp add: lock_inode_free Let_def)
  moreover have "cache_wf ?t" by (rule cache_wf_same [of s]) (use a in \<open>simp_all add: unlock_inode_def same_block_def\<close>)
  moreover have "bufs ?t = bufs s"
    by (auto simp: unlock_inode_def fun_eq_iff intro: buffer_head.equality)
  moreover have "inode_table ?t = (inode_table s)[i := load_dinode (bmem s) (b_data (bufs s b) + inode_offset y) y]"
    using a assms(2) by (simp add: unlock_inode_def load_dinode_lock i_lock_reset)
  ultimately show ?thesis using assms(2) by (intro exI [of _ ?t]) (simp add: unlock_inode_def)
qed

section \<open>Properties\<close>

text \<open>C17: an inode survives the round trip through the cache, when its block is in the cache and neither it, its super block nor
  that buffer is locked. Written by write_inode, it is clean and its buffer is marked for writing; any other
  unlocked entry of the inode table that has the same device and number and is then read by read_inode takes over
  exactly the part of the inode that is kept on disk: mode, owner, size, times, links and zones.\<close>

theorem inode_round_trip:
  assumes "at_hand i k b s" "i_dirt (inode_table s ! i) \<noteq> 0" "length (i_zone (inode_table s ! i)) = 9"
    and "j < length (inode_table s)" "j \<noteq> i" "i_lock (inode_table s ! j) = 0"
    and "i_dev (inode_table s ! j) = i_dev (inode_table s ! i)" "i_num (inode_table s ! j) = i_num (inode_table s ! i)"
  shows "\<exists>t u. write_inode env i s = Done () t \<and> i_dirt (inode_table t ! i) = 0 \<and> b_dirt (bufs t b) = 1 \<and>
    read_inode env j t = Done () u \<and> cache_wf u \<and>
    inode_table u ! j = disk_part (inode_table s ! i) (inode_table s ! j)"
proof -
  let ?x = "inode_table s ! i" and ?y = "inode_table s ! j"
  note a = assms(1) [unfolded at_hand_def]
  have place: "inode_block sb ?y = inode_block sb ?x" "inode_offset ?y = inode_offset ?x" for sb
    using assms(8) by (simp_all add: inode_block_def inode_offset_def)
  from write_inode_at_hand [OF assms(1,2) refl, of env] obtain t where w: "write_inode env i s = Done () t" "cache_wf t"
    "inode_table t = (inode_table s)[i := ?x\<lparr>i_dirt := 0\<rparr>]" "super_block t = super_block s"
    "bmem t = put_dinode (b_data (bufs s b) + inode_offset ?x) ?x (bmem s)"
    "bufs t = (bufs s)(b := (bufs s b)\<lparr>b_dirt := 1\<rparr>)" "nr_buffers t = nr_buffers s" by blast
  have y: "inode_table t ! j = ?y" using assms(5) w(3) by simp
  have "at_hand j k b t"
    using a w assms(4-8) y place by (simp add: at_hand_def find_super_cong [OF w(4)] in_cache_def)
  from read_inode_at_hand [OF this y [symmetric], of env] obtain u where r: "read_inode env j t = Done () u" "cache_wf u"
    "inode_table u = (inode_table t)[j := load_dinode (bmem t) (b_data (bufs t b) + inode_offset ?y) ?y]" by blast
  have "load_dinode (bmem t) (b_data (bufs t b) + inode_offset ?y) ?y = disk_part ?x ?y"
    using load_put_dinode [OF assms(3)] w(5,6) place by (simp add: disk_part_def)
  moreover have "j < length (inode_table t)" using assms(4) w(3) by simp
  ultimately have "inode_table u ! j = disk_part ?x ?y" using r(3) by simp
  with w r(1,2) a show ?thesis by auto
qed

text \<open>
  The warm cache with its block valid, a super block of device 0x301 whose inodes start at block 7, and
  two entries for inode 5: a changed one and one that is still to be read.
\<close>

definition fs_inodes :: fs_state where
  "fs_inodes = bupd 1 (\<lambda>h. h\<lparr>b_uptodate := 1\<rparr>) (fs_warm\<lparr>
     super_block := (replicate NR_SUPER null_super)[0 := null_super\<lparr>s_dev := 0x301, s_imap_blocks := 3, s_zmap_blocks := 2,
       s_firstdatazone := 10, s_nzones := 100, s_ninodes := 60\<rparr>],
     inode_table := (replicate NR_INODE null_inode)
       [1 := null_inode\<lparr>i_mode := 0x81A4, i_nlinks := 1, i_size := 3000, i_dev := 0x301, i_num := 5, i_count := 1, i_dirt := 1\<rparr>,
        2 := null_inode\<lparr>i_dev := 0x301, i_num := 5, i_count := 1\<rparr>]\<rparr>)"

lemma fs_inodes_cache:
  "cache_wf fs_inodes" "nr_buffers fs_inodes = 3" "in_cache 0x301 7 1 fs_inodes"
proof -
  show "cache_wf fs_inodes"
    by (rule cache_wf_same [OF fs_warm_facts(2)]) (simp_all add: fs_inodes_def same_block_def)
  show "nr_buffers fs_inodes = 3" "in_cache 0x301 7 1 fs_inodes"
    using fs_warm_facts by (simp_all add: fs_inodes_def in_cache_def)
qed

lemma fs_inodes_tables:
  "super_block fs_inodes = (replicate NR_SUPER null_super)[0 := null_super\<lparr>s_dev := 0x301, s_imap_blocks := 3, s_zmap_blocks := 2,
       s_firstdatazone := 10, s_nzones := 100, s_ninodes := 60\<rparr>]"
  "inode_table fs_inodes = (replicate NR_INODE null_inode)
       [1 := null_inode\<lparr>i_mode := 0x81A4, i_nlinks := 1, i_size := 3000, i_dev := 0x301, i_num := 5, i_count := 1, i_dirt := 1\<rparr>,
        2 := null_inode\<lparr>i_dev := 0x301, i_num := 5, i_count := 1\<rparr>]"
  by (simp_all add: fs_inodes_def)

lemma fs_inodes_inv: "cache_inv 3 fs_inodes"
  using fs_inodes_cache(1,2) fs_warm_inv(2) by (simp add: cache_inv_def fs_inodes_def)

lemma fs_inodes_at_hand: "at_hand 1 0 1 fs_inodes"
  using fs_inodes_cache
  by (simp add: at_hand_def fs_inodes_tables find_super_def null_super_def null_inode_def inode_block_def upt_rec cdiv_def)

theorem inode_round_trip_witness:
  "\<exists>t u. write_inode (\<lambda>s. s) 1 fs_inodes = Done () t \<and> read_inode (\<lambda>s. s) 2 t = Done () u \<and>
     i_mode (inode_table u ! 2) = 0x81A4 \<and> i_size (inode_table u ! 2) = 3000"
proof -
  have "\<exists>t u. write_inode (\<lambda>s. s) 1 fs_inodes = Done () t \<and> i_dirt (inode_table t ! 1) = 0 \<and> b_dirt (bufs t 1) = 1 \<and>
    read_inode (\<lambda>s. s) 2 t = Done () u \<and> cache_wf u \<and>
    inode_table u ! 2 = disk_part (inode_table fs_inodes ! 1) (inode_table fs_inodes ! 2)"
    by (rule inode_round_trip [OF fs_inodes_at_hand]) (simp_all add: fs_inodes_tables null_inode_def)
  then show ?thesis by (auto simp: fs_inodes_tables disk_part_def null_inode_def)
qed

end
