(* ===== verification/Zones.thy ===== *)
theory Zones
  imports Inode_IO
begin

text \<open>
  Blocks of a file: the block and inode bitmaps of \<^verbatim>\<open>fs/bitmap.c\<close>, truncation of a file
  (\<^verbatim>\<open>fs/truncate.c\<close>) and the map from a block of a file to a block of the device
  (\<open>_bmap\<close> of \<^verbatim>\<open>fs/inode.c\<close>).
\<close>

abbreviation (input) S_IFMT :: u16 where "S_IFMT \<equiv> 0xF000"

definition S_ISREG :: "u16 \<Rightarrow> bool" where "S_ISREG m \<longleftrightarrow> m AND S_IFMT = 0x8000"
definition S_ISDIR :: "u16 \<Rightarrow> bool" where "S_ISDIR m \<longleftrightarrow> m AND S_IFMT = 0x4000"
definition S_ISCHR :: "u16 \<Rightarrow> bool" where "S_ISCHR m \<longleftrightarrow> m AND S_IFMT = 0x2000"
definition S_ISBLK :: "u16 \<Rightarrow> bool" where "S_ISBLK m \<longleftrightarrow> m AND S_IFMT = 0x6000"

section \<open>Bitmaps\<close>

text \<open>
  \<open>btrl\<close> with a bit offset in a register addresses the bit string that starts at \<open>addr\<close>; the
  result is 1 when the bit was clear already.
\<close>

definition map_bit :: "(u32 \<Rightarrow> u8) \<Rightarrow> u32 \<Rightarrow> nat \<Rightarrow> bool" where
  "map_bit m addr nr = bit (m (addr + of_nat (nr div 8))) (nr mod 8)"

definition clear_bit :: "nat \<Rightarrow> u32 \<Rightarrow> (u32 \<Rightarrow> u8) \<Rightarrow> u32 \<times> (u32 \<Rightarrow> u8)" where
  "clear_bit nr addr m =
     (let a = addr + of_nat (nr div 8)
      in (if map_bit m addr nr then 0 else 1, m(a := m a AND NOT (push_bit (nr mod 8) 1))))"

text \<open>\<open>s_zmap[i]\<close> and \<open>s_imap[i]\<close>; a null entry and an index past the array are undefined.\<close>

definition map_slot :: "nat option list \<Rightarrow> int \<Rightarrow> nat option" where
  "map_slot ms i = (if 0 \<le> i \<and> i < int (length ms) then ms ! nat i else None)"

definition clear_zone_bit :: "nat \<Rightarrow> u32 \<Rightarrow> u32 \<Rightarrow> 'a fs_state_scheme \<Rightarrow> ('a fs_state_scheme, unit) outcome" where
  "clear_zone_bit k dev block s =
     (let first = ucast (s_firstdatazone (super_block s ! k));
          block = block - (first - 1)
      in case map_slot (s_zmap (super_block s ! k)) (cdiv (sint block) 8192) of
           None \<Rightarrow> Halted (Undef ''sb->s_zmap[block/8192]'') s
         | Some z \<Rightarrow>
             (case clear_bit (unat (block AND 8191)) (b_data (bufs s z)) (bmem s) of (res, m) \<Rightarrow>
                let s = s\<lparr>bmem := m\<rparr>
                in if res \<noteq> 0 then panic ''free_block: bit already cleared''
                       (printk ''block (%x:%d) '' [dev, block + first - 1] s)
                   else Done () (bupd z (\<lambda>h. h\<lparr>b_dirt := 1\<rparr>) s)))"

definition free_block :: "('a fs_state_scheme \<Rightarrow> 'a fs_state_scheme) \<Rightarrow> u32 \<Rightarrow> u32
    \<Rightarrow> 'a fs_state_scheme \<Rightarrow> ('a fs_state_scheme, unit) outcome" where
  "free_block env dev block s =
     kbind (get_super env dev s) (\<lambda>sb s.
       case sb of
         None \<Rightarrow> panic ''trying to free block on nonexistent device'' s
       | Some k \<Rightarrow>
           if sint block < uint (s_firstdatazone (super_block s ! k)) \<or> sint block \<ge> uint (s_nzones (super_block s ! k))
           then panic ''trying to free block not in datazone'' s
           else kbind (get_hash_table env dev block s) (\<lambda>bh s.
             case bh of
               None \<Rightarrow> clear_zone_bit k dev block s
             | Some b \<Rightarrow>
                 if b_count (bufs s b) \<noteq> 1
                 then Done () (printk ''trying to free block (%x:%d), count=%d'' [dev, block, ucast (b_count (bufs s b))] s)
                 else kbind (brelse env (Some b) (bupd b (\<lambda>h. h\<lparr>b_dirt := 0, b_uptodate := 0\<rparr>) s)) (\<lambda>_ s.
                   clear_zone_bit k dev block s)))"

text \<open>
  \<open>new_block\<close> and \<open>new_inode\<close> are stubs that return an automatic variable nobody has set.
\<close>

definition new_block :: "u32 \<Rightarrow> 'a fs_state_scheme \<Rightarrow> ('a fs_state_scheme, u32) outcome" where
  "new_block dev s = Halted (Undef ''new_block: j'') s"

definition new_inode :: "u32 \<Rightarrow> 'a fs_state_scheme \<Rightarrow> ('a fs_state_scheme, nat option) outcome" where
  "new_inode dev s = Halted (Undef ''new_inode: inode'') s"

definition free_inode :: "('a fs_state_scheme \<Rightarrow> 'a fs_state_scheme) \<Rightarrow> nat option
    \<Rightarrow> 'a fs_state_scheme \<Rightarrow> ('a fs_state_scheme, unit) outcome" where
  "free_inode env p s =
     (case p of
        None \<Rightarrow> Done () s
      | Some i \<Rightarrow>
          if i_dev (inode_table s ! i) = 0 then Done () (clear_inode i s)
          else if i_count (inode_table s ! i) > 1
          then panic ''free_inode'' (printk ''trying to free inode with count=%d'' [ucast (i_count (inode_table s ! i))] s)
          else if i_nlinks (inode_table s ! i) \<noteq> 0 then panic ''trying to free inode with links'' s
          else kbind (get_super env (ucast (i_dev (inode_table s ! i))) s) (\<lambda>sb s.
            case sb of
              None \<Rightarrow> panic ''trying to free inode on nonexistent device'' s
            | Some k \<Rightarrow>
                let x = inode_table s ! i
                in if i_num x < 1 \<or> i_num x > s_ninodes (super_block s ! k)
                   then panic ''trying to free inode 0 or nonexistant inode'' s
                   else case map_slot (s_imap (super_block s ! k)) (uint (drop_bit 13 (i_num x))) of
                          None \<Rightarrow> panic ''nonexistent imap in superblock'' s
                        | Some b \<Rightarrow>
                            (case clear_bit (unat (i_num x AND 8191)) (b_data (bufs s b)) (bmem s) of (res, m) \<Rightarrow>
                               let s = s\<lparr>bmem := m\<rparr>;
                                   s = (if res \<noteq> 0 then printk ''free_inode: bit already cleared.'' [] s else s);
                                   s = bupd b (\<lambda>h. h\<lparr>b_dirt := 1\<rparr>) s
                               in Done () (clear_inode i s))))"

section \<open>Truncation\<close>

text \<open>The loop over the 512 block numbers from \<open>p\<close> on, each read when its turn comes.\<close>

primrec free_numbers :: "nat list \<Rightarrow> (u32 \<Rightarrow> 'a fs_state_scheme \<Rightarrow> ('a fs_state_scheme, unit) outcome) \<Rightarrow> u32
    \<Rightarrow> 'a fs_state_scheme \<Rightarrow> ('a fs_state_scheme, unit) outcome" where
  "free_numbers [] free p s = Done () s"
| "free_numbers (i # xs) free p s =
     (let z = load16 (bmem s) (p + 2 * of_nat i)
      in kbind (if z \<noteq> 0 then free (ucast z) s else Done () s) (\<lambda>_ s. free_numbers xs free p s))"

definition free_ind :: "('a fs_state_scheme \<Rightarrow> 'a fs_state_scheme) \<Rightarrow> u32 \<Rightarrow> u32
    \<Rightarrow> 'a fs_state_scheme \<Rightarrow> ('a fs_state_scheme, unit) outcome" where
  "free_ind env dev block s =
     (if block = 0 then Done () s
      else kbind (bread env dev block s) (\<lambda>bh s.
           kbind (case bh of
                    None \<Rightarrow> Done () s
                  | Some b \<Rightarrow> kbind (free_numbers [0..<512] (free_block env dev) (b_data (bufs s b)) s) (\<lambda>_ s.
                                brelse env (Some b) s)) (\<lambda>_ s.
             free_block env dev block s)))"

definition free_dind :: "('a fs_state_scheme \<Rightarrow> 'a fs_state_scheme) \<Rightarrow> u32 \<Rightarrow> u32
    \<Rightarrow> 'a fs_state_scheme \<Rightarrow> ('a fs_state_scheme, unit) outcome" where
  "free_dind env dev block s =
     (if block = 0 then Done () s
      else kbind (bread env dev block s) (\<lambda>bh s.
           kbind (case bh of
                    None \<Rightarrow> Done () s
                  | Some b \<Rightarrow> kbind (free_numbers [0..<512] (free_ind env dev) (b_data (bufs s b)) s) (\<lambda>_ s.
                                brelse env (Some b) s)) (\<lambda>_ s.
             free_block env dev block s)))"

primrec free_direct :: "nat list \<Rightarrow> ('a fs_state_scheme \<Rightarrow> 'a fs_state_scheme) \<Rightarrow> nat
    \<Rightarrow> 'a fs_state_scheme \<Rightarrow> ('a fs_state_scheme, unit) outcome" where
  "free_direct [] env i s = Done () s"
| "free_direct (k # ks) env i s =
     kbind (if i_zone (inode_table s ! i) ! k \<noteq> 0
            then kbind (free_block env (ucast (i_dev (inode_table s ! i))) (ucast (i_zone (inode_table s ! i) ! k)) s) (\<lambda>_ s.
                   Done () (iupd i (\<lambda>x. x\<lparr>i_zone := (i_zone x)[k := 0]\<rparr>) s))
            else Done () s) (\<lambda>_ s. free_direct ks env i s)"

definition truncate :: "('a fs_state_scheme \<Rightarrow> 'a fs_state_scheme) \<Rightarrow> nat
    \<Rightarrow> 'a fs_state_scheme \<Rightarrow> ('a fs_state_scheme, unit) outcome" where
  "truncate env i s =
     (if \<not> (S_ISREG (i_mode (inode_table s ! i)) \<or> S_ISDIR (i_mode (inode_table s ! i))) then Done () s
      else kbind (free_direct [0..<7] env i s) (\<lambda>_ s.
           kbind (free_ind env (ucast (i_dev (inode_table s ! i))) (ucast (i_zone (inode_table s ! i) ! 7)) s) (\<lambda>_ s.
           kbind (free_dind env (ucast (i_dev (inode_table s ! i))) (ucast (i_zone (inode_table s ! i) ! 8)) s) (\<lambda>_ s.
             Done () (iupd i (\<lambda>x. x\<lparr>i_zone := (i_zone x)[8 := 0, 7 := 0], i_size := 0, i_dirt := 1\<rparr>) s)))))"

section \<open>From blocks of a file to blocks of the device\<close>

text \<open>
  \<open>if (create && !zone) if ((zone = new_block(dev))) { ctime; dirt }\<close> for entry \<open>k\<close> of the
  inode, and the same for the number at address \<open>a\<close> of buffer \<open>b\<close>.
\<close>

definition make_zone :: "nat \<Rightarrow> nat \<Rightarrow> bool \<Rightarrow> 'a fs_state_scheme \<Rightarrow> ('a fs_state_scheme, unit) outcome" where
  "make_zone i k create s =
     (if create \<and> i_zone (inode_table s ! i) ! k = 0
      then kbind (new_block (ucast (i_dev (inode_table s ! i))) s) (\<lambda>z s.
             let s = iupd i (\<lambda>x. x\<lparr>i_zone := (i_zone x)[k := ucast z]\<rparr>) s
             in Done () (if (ucast z :: u16) \<noteq> 0 then iupd i (\<lambda>x. x\<lparr>i_ctime := CURRENT_TIME s, i_dirt := 1\<rparr>) s else s))
      else Done () s)"

definition zone_entry :: "nat \<Rightarrow> nat \<Rightarrow> u32 \<Rightarrow> bool \<Rightarrow> 'a fs_state_scheme \<Rightarrow> ('a fs_state_scheme, u32) outcome" where
  "zone_entry i b k create s =
     (let a = b_data (bufs s b) + 2 * k; z = ucast (load16 (bmem s) a)
      in if create \<and> z = 0
         then kbind (new_block (ucast (i_dev (inode_table s ! i))) s) (\<lambda>z s.
                Done z (if z \<noteq> 0 then bupd b (\<lambda>h. h\<lparr>b_dirt := 1\<rparr>) (s\<lparr>bmem := put16 a (ucast z) (bmem s)\<rparr>) else s))
         else Done z s)"

definition bmap_block :: "('a fs_state_scheme \<Rightarrow> 'a fs_state_scheme) \<Rightarrow> nat \<Rightarrow> u32 \<Rightarrow> bool
    \<Rightarrow> 'a fs_state_scheme \<Rightarrow> ('a fs_state_scheme, u32) outcome" where
  "bmap_block env i block create s =
     (if sint block < 0 then panic ''_bmap: block<0'' s
      else if sint block \<ge> 7 + 512 + 512 * 512 then panic ''_bmap: block>big'' s
      else if sint block < 7
      then kbind (make_zone i (unat block) create s) (\<lambda>_ s.
             Done (ucast (i_zone (inode_table s ! i) ! unat block)) s)
      else if sint block - 7 < 512
      then kbind (make_zone i 7 create s) (\<lambda>_ s.
             if i_zone (inode_table s ! i) ! 7 = 0 then Done 0 s
             else kbind (bread env (ucast (i_dev (inode_table s ! i))) (ucast (i_zone (inode_table s ! i) ! 7)) s) (\<lambda>bh s.
               case bh of
                 None \<Rightarrow> Done 0 s
               | Some b \<Rightarrow> kbind (zone_entry i b (block - 7) create s) (\<lambda>z s.
                             kbind (brelse env (Some b) s) (\<lambda>_ s. Done z s))))
      else kbind (make_zone i 8 create s) (\<lambda>_ s.
             let block = block - 7 - 512
             in if i_zone (inode_table s ! i) ! 8 = 0 then Done 0 s
                else kbind (bread env (ucast (i_dev (inode_table s ! i))) (ucast (i_zone (inode_table s ! i) ! 8)) s) (\<lambda>bh s.
                  case bh of
                    None \<Rightarrow> Done 0 s
                  | Some b \<Rightarrow> kbind (zone_entry i b (drop_bit 9 block) create s) (\<lambda>z s.
                                kbind (brelse env (Some b) s) (\<lambda>_ s.
                                  if z = 0 then Done 0 s
                                  else kbind (bread env (ucast (i_dev (inode_table s ! i))) z s) (\<lambda>bh s.
                                    case bh of
                                      None \<Rightarrow> Done 0 s
                                    | Some b \<Rightarrow> kbind (zone_entry i b (block AND 511) create s) (\<lambda>z s.
                                                  kbind (brelse env (Some b) s) (\<lambda>_ s. Done z s))))))))"

definition bmap :: "('a fs_state_scheme \<Rightarrow> 'a fs_state_scheme) \<Rightarrow> nat \<Rightarrow> u32
    \<Rightarrow> 'a fs_state_scheme \<Rightarrow> ('a fs_state_scheme, u32) outcome" where
  "bmap env i block s = bmap_block env i block False s"

section \<open>Clearing a bit\<close>

lemma clear_bit_result: "fst (clear_bit nr a m) = (if map_bit m a nr then 0 else 1)"
  by (simp add: clear_bit_def Let_def)

lemma clear_bit_elsewhere: "x \<noteq> a + of_nat (nr div 8) \<Longrightarrow> snd (clear_bit nr a m) x = m x"
  by (simp add: clear_bit_def Let_def)

lemma of_nat_offset_eq: "i < 1024 \<Longrightarrow> j < 1024 \<Longrightarrow> (a :: u32) + of_nat i = a + of_nat j \<longleftrightarrow> i = j"
proof -
  assume "i < 1024" "j < 1024"
  then have lt: "i < 2 ^ 32" "j < 2 ^ 32" by simp_all
  have "unat (of_nat i :: u32) = i" "unat (of_nat j :: u32) = j"
    by (rule unat_of_nat_u32 [OF lt(1)], rule unat_of_nat_u32 [OF lt(2)])
  then show ?thesis by (metis add_left_cancel)
qed

lemma map_bit_clear_bit:
  assumes "nr < 8192" "n < 8192"
  shows "map_bit (snd (clear_bit nr a m)) a n \<longleftrightarrow> n \<noteq> nr \<and> map_bit m a n"
proof (cases "n div 8 = nr div 8")
  case True
  then have "n = nr \<longleftrightarrow> n mod 8 = nr mod 8" by (metis div_mult_mod_eq)
  moreover have "n mod 8 < 8" "nr mod 8 < 8" by simp_all
  ultimately show ?thesis using True
    by (auto simp: map_bit_def clear_bit_def Let_def bit_simps)
next
  case False
  with assms of_nat_offset_eq [of "n div 8" "nr div 8" a] show ?thesis
    by (auto simp: map_bit_def clear_bit_def Let_def)
qed

section \<open>Freeing a block\<close>

text \<open>The bit of a block: \<open>block - s_firstdatazone + 1\<close>, counted from the data zone.\<close>

definition zone_bit :: "super_block \<Rightarrow> u32 \<Rightarrow> nat" where
  "zone_bit sb block = unat block + 1 - unat (s_firstdatazone sb)"

lemma zone_bit_word:
  assumes "unat (s_firstdatazone sb) \<le> unat block" "unat block < 65536"
  shows "unat (block - (ucast (s_firstdatazone sb) - 1)) = zone_bit sb block"
    "cdiv (sint (block - (ucast (s_firstdatazone sb) - 1))) 8192 = int (zone_bit sb block div 8192)"
proof -
  let ?f = "unat (s_firstdatazone sb)" and ?w = "block - (ucast (s_firstdatazone sb) - 1)"
  have "ucast (s_firstdatazone sb) = (of_nat ?f :: u32)" "block = of_nat (unat block)" by simp_all
  then have "?w = of_nat (unat block) + 1 - of_nat ?f" by simp
  also have "\<dots> = of_nat (unat block + 1 - ?f)" using assms(1) by (simp add: of_nat_diff)
  finally have w: "?w = of_nat (zone_bit sb block)" by (simp add: zone_bit_def)
  have lt: "zone_bit sb block < 2 ^ 31" using assms by (simp add: zone_bit_def)
  show "unat ?w = zone_bit sb block" unfolding w using lt by (intro unat_of_nat_u32) simp
  have "sint ?w = int (zone_bit sb block)"
    using sint_of_int [of "int (zone_bit sb block)"] lt unfolding w by simp
  then show "cdiv (sint ?w) 8192 = int (zone_bit sb block div 8192)"
    by (simp add: cdiv_nonneg zdiv_int)
qed

lemma clear_zone_bit_cases:
  assumes "sb = super_block s ! k" "unat (s_firstdatazone sb) \<le> unat block" "unat block < 65536"
    and "map_slot (s_zmap sb) (int (zone_bit sb block div 8192)) = Some z"
  shows "clear_zone_bit k dev block s =
    (let nr = zone_bit sb block mod 8192; s' = s\<lparr>bmem := snd (clear_bit nr (b_data (bufs s z)) (bmem s))\<rparr>
     in if map_bit (bmem s) (b_data (bufs s z)) nr then Done () (bupd z (\<lambda>h. h\<lparr>b_dirt := 1\<rparr>) s')
        else panic ''free_block: bit already cleared'' (printk ''block (%x:%d) '' [dev, block] s'))"
proof -
  have "unat ((block - (ucast (s_firstdatazone sb) - 1)) AND 8191) = zone_bit sb block mod 8192"
    using zone_bit_word(1) [OF assms(2,3)] by (simp add: mask_literals unat_and_mask)
  with assms(1,4) zone_bit_word(2) [OF assms(2,3)] show ?thesis
    by (auto simp: clear_zone_bit_def Let_def clear_bit_result split: prod.split)
      (metis clear_bit_result fst_conv snd_conv one_neq_zero)+
qed

lemma not_cached_miss:
  assumes "cache_wf s" "is_dev dev" "\<forall>c \<in> hashed (bufs s) (nr_buffers s). \<not> (b_dev (bufs s c) = ucast dev \<and> b_blocknr (bufs s c) = block)"
  shows "get_hash_table env dev block s = Done None s"
proof -
  from cache_wf_find [OF assms(1,2), of block] assms(3) have "find_buffer dev block s = Done None s"
    by (auto split: option.splits)
  then show ?thesis by (simp add: get_hash_table_def)
qed

section \<open>The tree of a file's blocks\<close>

text \<open>
  What \<open>bmap\<close> computes, with \<open>at z\<close> the buffer of indirect block \<open>z\<close>: seven direct numbers,
  then 512 in one indirect block, then 512 blocks of 512. \<open>indirects\<close> lists the indirect blocks on the way.
\<close>

definition entry :: "'a fs_state_scheme \<Rightarrow> nat \<Rightarrow> nat \<Rightarrow> u16" where
  "entry s b k = load16 (bmem s) (b_data (bufs s b) + 2 * of_nat k)"

definition zone_of :: "(u16 \<Rightarrow> nat) \<Rightarrow> 'a fs_state_scheme \<Rightarrow> m_inode \<Rightarrow> nat \<Rightarrow> u16" where
  "zone_of at s x n =
     (if n < 7 then i_zone x ! n
      else if n < 7 + 512 then (if i_zone x ! 7 = 0 then 0 else entry s (at (i_zone x ! 7)) (n - 7))
      else if i_zone x ! 8 = 0 then 0
      else let z = entry s (at (i_zone x ! 8)) ((n - 519) div 512)
           in if z = 0 then 0 else entry s (at z) ((n - 519) mod 512))"

definition indirects :: "(u16 \<Rightarrow> nat) \<Rightarrow> 'a fs_state_scheme \<Rightarrow> m_inode \<Rightarrow> nat \<Rightarrow> u16 set" where
  "indirects at s x n =
     (if n < 7 then {}
      else if n < 7 + 512 then {i_zone x ! 7} - {0}
      else if i_zone x ! 8 = 0 then {}
      else {i_zone x ! 8, entry s (at (i_zone x ! 8)) ((n - 519) div 512)} - {0})"

definition same_tables :: "'a fs_state_scheme \<Rightarrow> 'a fs_state_scheme \<Rightarrow> bool" where
  "same_tables s t \<longleftrightarrow> bufs t = bufs s \<and> bmem t = bmem s \<and> inode_table t = inode_table s \<and> super_block t = super_block s \<and>
     hash_table t = hash_table s \<and> free_list t = free_list s \<and> nr_buffers t = nr_buffers s"

text \<open>
  A block in the cache is read and released without sleeping; a task that waits for a buffer may be
  woken, and nothing else changes.
\<close>

definition only_woken :: "'a fs_state_scheme \<Rightarrow> 'a fs_state_scheme \<Rightarrow> bool" where
  "only_woken s t \<longleftrightarrow> (\<exists>tm w. t = s\<lparr>tmem := tm, waitq := w\<rparr> \<and> (\<forall>p. \<exists>st. tm p = (tmem s p)\<lparr>t_state := st\<rparr>))"

lemma only_woken_refl [simp]: "only_woken s s"
proof -
  have "\<exists>st. tmem s p = (tmem s p)\<lparr>t_state := st\<rparr>" for p
    by (rule exI [of _ "t_state (tmem s p)"]) simp
  then show ?thesis by (auto simp: only_woken_def intro!: exI [of _ "tmem s"] exI [of _ "waitq s"])
qed

lemma only_woken_trans:
  assumes "only_woken s t" "only_woken t u"
  shows "only_woken s u"
proof -
  obtain tm w tm' w' where t: "t = s\<lparr>tmem := tm, waitq := w\<rparr>" "\<And>p. \<exists>st. tm p = (tmem s p)\<lparr>t_state := st\<rparr>"
    and u: "u = t\<lparr>tmem := tm', waitq := w'\<rparr>" "\<And>p. \<exists>st. tm' p = (tmem t p)\<lparr>t_state := st\<rparr>"
    using assms unfolding only_woken_def by blast
  have "\<exists>st. tm' p = (tmem s p)\<lparr>t_state := st\<rparr>" for p
    using t(2) [of p] u(2) [of p] t(1) by auto
  with t(1) u(1) show ?thesis by (auto simp: only_woken_def intro!: exI [of _ tm'] exI [of _ w'])
qed

lemma only_woken_wake_up: "only_woken s (wake_up q s)"
proof -
  have id: "\<exists>st. tmem s p = (tmem s p)\<lparr>t_state := st\<rparr>" for p
    by (rule exI [of _ "t_state (tmem s p)"]) simp
  show ?thesis
  proof (cases "q = None \<or> waitq s (the q) = 0")
    case False
    then obtain k where "q = Some k" "waitq s k \<noteq> 0" by auto
    then show ?thesis
      by (auto simp: only_woken_def wake_up_def tupd_def id Let_def
          intro!: exI [of _ "(tmem s)(waitq s k := (tmem s (waitq s k))\<lparr>t_state := TASK_RUNNING\<rparr>)"]
            exI [of _ "(waitq s)(k := 0)"])
  qed (auto simp: wake_up_def split: option.split)
qed

lemma only_wokenD:
  assumes "only_woken s t"
  shows "bufs t = bufs s" "bmem t = bmem s" "inode_table t = inode_table s" "super_block t = super_block s"
    "hash_table t = hash_table s" "free_list t = free_list s" "nr_buffers t = nr_buffers s"
    "pmem t = pmem s" "current t = current s" "file_table t = file_table s" "mem_map t = mem_map s" "task t = task s"
    "patience t = patience s" "t_ldt (tmem t p) = t_ldt (tmem s p)" "t_filp (tmem t p) = t_filp (tmem s p)"
    "t_euid (tmem t p) = t_euid (tmem s p)" "t_egid (tmem t p) = t_egid (tmem s p)"
    "t_root (tmem t p) = t_root (tmem s p)" "t_pwd (tmem t p) = t_pwd (tmem s p)" "CURRENT_TIME t = CURRENT_TIME s"
proof -
  obtain tm w where t: "t = s\<lparr>tmem := tm, waitq := w\<rparr>" "\<exists>st. tm p = (tmem s p)\<lparr>t_state := st\<rparr>"
    using assms unfolding only_woken_def by blast
  then show "bufs t = bufs s" "bmem t = bmem s" "inode_table t = inode_table s" "super_block t = super_block s"
    "hash_table t = hash_table s" "free_list t = free_list s" "nr_buffers t = nr_buffers s"
    "pmem t = pmem s" "current t = current s" "file_table t = file_table s" "mem_map t = mem_map s" "task t = task s"
    "patience t = patience s" "CURRENT_TIME t = CURRENT_TIME s" by (simp_all add: CURRENT_TIME_def)
  from t show "t_ldt (tmem t p) = t_ldt (tmem s p)" "t_filp (tmem t p) = t_filp (tmem s p)"
    "t_euid (tmem t p) = t_euid (tmem s p)" "t_egid (tmem t p) = t_egid (tmem s p)"
    "t_root (tmem t p) = t_root (tmem s p)" "t_pwd (tmem t p) = t_pwd (tmem s p)" by auto
qed

lemma only_woken_same_tables: "only_woken s t \<Longrightarrow> same_tables s t"
  by (simp add: same_tables_def only_wokenD)

lemma bupd_undo: "bupd b (\<lambda>h. h\<lparr>b_count := b_count h - 1\<rparr>) (bupd b (\<lambda>h. h\<lparr>b_count := b_count h + 1\<rparr>) s) = s"
  by (simp add: bupd_def)

text \<open>A block in the cache, read into \<open>b\<close> and given back after a while.\<close>

lemma hold_block:
  assumes "cache_wf s" "is_dev dev" "dev \<noteq> 0" "in_cache dev block b s"
  shows "bread env dev block s = Done (Some b) (bupd b (\<lambda>h. h\<lparr>b_count := b_count h + 1\<rparr>) s)"
    "brelse env (Some b) (bupd b (\<lambda>h. h\<lparr>b_count := b_count h + 1\<rparr>) s) = Done () (wake_up (Some Buffer_wait) s)"
proof -
  show "bread env dev block s = Done (Some b) (bupd b (\<lambda>h. h\<lparr>b_count := b_count h + 1\<rparr>) s)"
    by (rule bread_cached [OF assms])
  have "b_count (bufs s b) + 1 \<noteq> 0" using assms(4) by (auto simp: in_cache_def dest: inc_nonzero)
  then show "brelse env (Some b) (bupd b (\<lambda>h. h\<lparr>b_count := b_count h + 1\<rparr>) s) = Done () (wake_up (Some Buffer_wait) s)"
    using assms(4) by (subst brelse_held) (simp_all add: in_cache_def bupd_undo)
qed

lemma read_entry:
  assumes "cache_wf s" "d \<noteq> 0" "z \<noteq> 0" "in_cache (ucast d) (ucast (z :: u16)) b s"
  shows "\<exists>t. kbind (bread env (ucast (d :: u16)) (ucast z) s) (\<lambda>bh s. case bh of None \<Rightarrow> N s
      | Some b \<Rightarrow> kbind (zone_entry i b k False s) (\<lambda>z s. kbind (brelse env (Some b) s) (\<lambda>_ s. F z s))) =
      F (ucast (entry s b (unat k))) t \<and> only_woken s t"
proof -
  have "is_dev (ucast d :: u32)" "(ucast d :: u32) \<noteq> 0" using assms(2) by simp_all
  note hold = hold_block [OF assms(1) this assms(4), of env]
  have "zone_entry i b k False (bupd b (\<lambda>h. h\<lparr>b_count := b_count h + 1\<rparr>) s) =
      Done (ucast (entry s b (unat k))) (bupd b (\<lambda>h. h\<lparr>b_count := b_count h + 1\<rparr>) s)"
    by (simp add: zone_entry_def entry_def)
  then show ?thesis using only_woken_wake_up [of s "Some Buffer_wait"]
    by (intro exI [of _ "wake_up (Some Buffer_wait) s"]) (simp add: hold)
qed

lemma same_tables_refl [simp]: "same_tables s s"
  by (simp add: same_tables_def)

lemma same_tables_trans: "same_tables s t \<Longrightarrow> same_tables t u \<Longrightarrow> same_tables s u"
  by (simp add: same_tables_def)

lemma cache_wf_same_tables: "cache_wf s \<Longrightarrow> same_tables s t \<Longrightarrow> cache_wf t"
  by (erule cache_wf_same) (simp_all add: same_tables_def)

lemma bmap_number:
  assumes "n < 7 + 512 + 512 * 512"
  shows "unat (of_nat n :: u32) = n" "sint (of_nat n :: u32) = int n"
    "519 \<le> n \<Longrightarrow> unat (drop_bit 9 (of_nat n - 7 - 512 :: u32)) = (n - 519) div 512"
    "519 \<le> n \<Longrightarrow> unat ((of_nat n - 7 - 512 :: u32) AND 511) = (n - 519) mod 512"
    "7 \<le> n \<Longrightarrow> unat (of_nat n - 7 :: u32) = n - 7"
proof -
  have u: "unat (of_nat k :: u32) = k" if "k \<le> n" for k using that assms by (intro unat_of_nat_u32) simp
  show "unat (of_nat n :: u32) = n" by (simp only: u)
  show "sint (of_nat n :: u32) = int n" using sint_of_int [of "int n"] assms by simp
  have "(511 :: u32) = mask 9" by (simp add: mask_eq_exp_minus_1)
  show "unat (of_nat n - 7 :: u32) = n - 7" if "7 \<le> n"
  proof -
    have "of_nat n - 7 = (of_nat (n - 7) :: u32)" using that by (simp add: of_nat_diff)
    then show ?thesis by (simp only: u)
  qed
  assume n: "519 \<le> n"
  then have w: "of_nat n - 7 - 512 = (of_nat (n - 519) :: u32)" by (simp add: of_nat_diff)
  have un: "unat (of_nat (n - 519) :: u32) = n - 519" by (rule u) simp
  show "unat (drop_bit 9 (of_nat n - 7 - 512 :: u32)) = (n - 519) div 512"
    unfolding w unat_shiftr un by simp
  show "unat ((of_nat n - 7 - 512 :: u32) AND 511) = (n - 519) mod 512"
    unfolding w \<open>511 = mask 9\<close> unat_and_mask un by simp
qed

lemma make_zone_read [simp]: "make_zone i k False s = Done () s"
  by (simp add: make_zone_def)

lemma bmap_doubly:
  assumes wf: "cache_wf s" and n: "n < 7 + 512 + 512 * 512" and x: "x = inode_table s ! i" and d: "i_dev x \<noteq> 0"
    and at: "\<forall>z \<in> indirects at s x n. in_cache (ucast (i_dev x)) (ucast z) (at z) s"
    and indirect: "519 \<le> n" "i_zone x ! 8 \<noteq> 0"
  shows "\<exists>t. bmap env i (of_nat n) s = Done (ucast (zone_of at s x n)) t \<and> only_woken s t"
proof -
  note num = bmap_number [OF n]
  define w :: u32 where "w = of_nat n - 519"
  have w_eq: "of_nat n - 7 - 512 = w" by (simp add: w_def)
  have w: "unat (drop_bit 9 w) = (n - 519) div 512" "unat (w AND 511) = (n - 519) mod 512"
    using num(3,4) indirect(1) unfolding w_eq by blast+
  let ?z8 = "i_zone x ! 8" and ?z = "entry s (at (i_zone x ! 8)) ((n - 519) div 512)"
  let ?second = "\<lambda>z s. if z = 0 then Done 0 s
     else kbind (bread env (ucast (i_dev (inode_table s ! i))) z s) (\<lambda>bh s. case bh of None \<Rightarrow> Done 0 s
       | Some b \<Rightarrow> kbind (zone_entry i b (w AND 511) False s) (\<lambda>z s.
           kbind (brelse env (Some b) s) (\<lambda>_ s. Done z s)))"
  have run: "bmap env i (of_nat n) s = kbind (bread env (ucast (i_dev x)) (ucast ?z8) s) (\<lambda>bh s. case bh of None \<Rightarrow> Done 0 s
      | Some b \<Rightarrow> kbind (zone_entry i b (drop_bit 9 w) False s) (\<lambda>z s. kbind (brelse env (Some b) s) (\<lambda>_ s. ?second z s)))"
    unfolding w_def using indirect x n by (simp add: bmap_def bmap_block_def num Let_def)
  from indirect at have "in_cache (ucast (i_dev x)) (ucast ?z8) (at ?z8) s" by (simp add: indirects_def)
  from read_entry [OF wf d indirect(2) this, of env "\<lambda>s. Done 0 s" i "drop_bit 9 w" ?second] obtain t
    where t: "bmap env i (of_nat n) s = ?second (ucast ?z) t" "only_woken s t"
    unfolding run w(1) by blast
  show ?thesis
  proof (cases "?z = 0")
    case True
    with t indirect show ?thesis by (intro exI [of _ t]) (simp add: zone_of_def)
  next
    case False
    with indirect at have c: "in_cache (ucast (i_dev x)) (ucast ?z) (at ?z) t"
      by (simp add: indirects_def in_cache_def only_wokenD [OF t(2)])
    have it: "inode_table t ! i = x" using x by (simp add: only_wokenD [OF t(2)])
    from read_entry [OF cache_wf_same_tables [OF wf only_woken_same_tables [OF t(2)]] d False c, of env "\<lambda>s. Done 0 s" i
        "w AND 511" "\<lambda>z s. Done z s"] obtain u
      where u: "?second (ucast ?z) t = Done (ucast (entry t (at ?z) ((n - 519) mod 512))) u" "only_woken t u"
      using False unfolding it w(2) by auto
    have "entry t (at ?z) = entry s (at ?z)" by (intro ext) (simp add: entry_def only_wokenD [OF t(2)])
    with t u indirect False show ?thesis
      by (intro exI [of _ u]) (auto simp: zone_of_def Let_def intro: only_woken_trans)
  qed
qed

lemma bmap_is_zone_of:
  assumes wf: "cache_wf s" and n: "n < 7 + 512 + 512 * 512" and x: "x = inode_table s ! i" and d: "i_dev x \<noteq> 0"
    and at: "\<forall>z \<in> indirects at s x n. in_cache (ucast (i_dev x)) (ucast z) (at z) s"
  shows "\<exists>t. bmap env i (of_nat n) s = Done (ucast (zone_of at s x n)) t \<and> only_woken s t"
proof -
  note num = bmap_number [OF n]
  consider "n < 7" | "7 \<le> n" "n < 519" "i_zone x ! 7 = 0" | "7 \<le> n" "n < 519" "i_zone x ! 7 \<noteq> 0"
    | "519 \<le> n" "i_zone x ! 8 = 0" | "519 \<le> n" "i_zone x ! 8 \<noteq> 0" by linarith
  then show ?thesis
  proof cases
    case 1
    then show ?thesis using x by (simp add: bmap_def bmap_block_def num zone_of_def)
  next
    case 2
    then show ?thesis using x by (simp add: bmap_def bmap_block_def num zone_of_def)
  next
    case 3
    with at have "in_cache (ucast (i_dev x)) (ucast (i_zone x ! 7)) (at (i_zone x ! 7)) s" by (simp add: indirects_def)
    from read_entry [OF wf d 3(3) this, of env "\<lambda>s. Done 0 s" i "of_nat n - 7" "\<lambda>z s. Done z s"] 3 x n show ?thesis
      by (auto simp: bmap_def bmap_block_def num zone_of_def)
  next
    case 4
    then show ?thesis using x n by (simp add: bmap_def bmap_block_def num zone_of_def)
  next
    case 5
    then show ?thesis by (rule bmap_doubly [OF wf n x d at])
  qed
qed

section \<open>Properties\<close>

text \<open>C16: bmap computes the number of a file's block as the tree of direct, indirect and doubly
  indirect numbers has it, for every block number below 7 + 512 + 512 * 512, when the indirect blocks on the way
  are in the cache: it returns without sleeping, and a task that waited for a buffer may run again, but nothing
  else has changed.\<close>

theorem bmap_walks_the_tree:
  assumes "cache_wf s" "n < 7 + 512 + 512 * 512" "x = inode_table s ! i" "i_dev x \<noteq> 0"
    and "\<forall>z \<in> indirects at s x n. in_cache (ucast (i_dev x)) (ucast z) (at z) s"
  shows "\<exists>t. bmap env i (of_nat n) s = Done (ucast (zone_of at s x n)) t \<and> only_woken s t"
  using assms by (rule bmap_is_zone_of)

definition fs_mapped :: fs_state where
  "fs_mapped = iupd 1 (\<lambda>x. x\<lparr>i_zone := (i_zone x)[7 := 7]\<rparr>) (supd 0 (\<lambda>x. x\<lparr>s_zmap := (s_zmap x)[0 := Some 1]\<rparr>)
     (fs_inodes\<lparr>bmem := (\<lambda>_. 3)\<rparr>))"

lemma fs_mapped_cache: "cache_wf fs_mapped" "in_cache 0x301 7 1 fs_mapped"
proof -
  show "cache_wf fs_mapped" by (rule cache_wf_same [OF fs_inodes_cache(1)]) (simp_all add: fs_mapped_def)
  show "in_cache 0x301 7 1 fs_mapped" using fs_inodes_cache(3) by (simp add: fs_mapped_def in_cache_def)
qed

lemma fs_mapped_tables:
  "i_zone (inode_table fs_mapped ! 1) = (replicate 9 0)[7 := 7]" "i_dev (inode_table fs_mapped ! 1) = 0x301"
  "bmem fs_mapped = (\<lambda>_. 3)" "find_super 0x301 fs_mapped = Some 0" "s_lock (super_block fs_mapped ! 0) = 0"
  "s_firstdatazone (super_block fs_mapped ! 0) = 10" "s_nzones (super_block fs_mapped ! 0) = 100"
  "s_zmap (super_block fs_mapped ! 0) = (replicate 8 None)[0 := Some 1]" "nr_buffers fs_mapped = 3"
  by (simp_all add: fs_mapped_def fs_inodes_tables null_inode_def null_super_def find_super_def upt_rec fs_inodes_cache)

theorem bmap_walks_the_tree_witness:
  "\<exists>t. bmap (\<lambda>s. s) 1 (of_nat 10) fs_mapped = Done 0x303 t"
proof -
  have "\<exists>t. bmap (\<lambda>s. s) 1 (of_nat 10) fs_mapped = Done (ucast (zone_of (\<lambda>_. 1) fs_mapped (inode_table fs_mapped ! 1) 10)) t \<and>
      only_woken fs_mapped t"
    by (rule bmap_walks_the_tree)
      (use fs_mapped_cache in \<open>simp_all add: indirects_def fs_mapped_tables fs_mapped_tables [simplified]\<close>)
  then show ?thesis
    by (auto simp: zone_of_def entry_def fs_mapped_tables fs_mapped_tables [simplified] load16_def)
qed

text \<open>Bmap refuses block numbers out of range: a negative number and one from 7 + 512 + 512 * 512 on
  end in a panic, before anything is touched.\<close>

theorem bmap_refuses_out_of_range:
  assumes "sint block < 0 \<or> 7 + 512 + 512 * 512 \<le> sint block"
  shows "\<exists>msg t. bmap env i block s = Halted (Panic msg) t \<and> msg \<in> {''_bmap: block<0'', ''_bmap: block>big''} \<and>
    same_tables s t"
  using assms by (auto simp: bmap_def bmap_block_def panic_def printk_def same_tables_def)

theorem bmap_refuses_out_of_range_witness:
  "\<exists>msg t. bmap (\<lambda>s. s) 1 (-1) fs_boot = Halted (Panic msg) t"
  using bmap_refuses_out_of_range [of "-1" "\<lambda>s. s" 1 fs_boot] by auto

text \<open>C24: freeing a block of the data zone that is not in the cache clears its bit in the zone map and no
  other bit of that map, changes no other byte of memory and marks the map's buffer for writing; freeing a
  block whose bit is clear already ends in a panic.\<close>

theorem free_block_clears_one_bit:
  assumes "cache_wf s" "is_dev dev" "dev \<noteq> 0" "find_super dev s = Some k" "sb = super_block s ! k" "s_lock sb = 0"
    and "unat (s_firstdatazone sb) \<le> unat block" "unat block < unat (s_nzones sb)"
    and "\<forall>c \<in> hashed (bufs s) (nr_buffers s). \<not> (b_dev (bufs s c) = ucast dev \<and> b_blocknr (bufs s c) = block)"
    and "map_slot (s_zmap sb) (int (zone_bit sb block div 8192)) = Some z"
    and "a = b_data (bufs s z)" "nr = zone_bit sb block mod 8192"
  shows "if map_bit (bmem s) a nr
    then \<exists>t. free_block env dev block s = Done () t \<and> b_dirt (bufs t z) = 1 \<and>
      (\<forall>n < 8192. map_bit (bmem t) a n \<longleftrightarrow> n \<noteq> nr \<and> map_bit (bmem s) a n) \<and>
      (\<forall>x. x \<noteq> a + of_nat (nr div 8) \<longrightarrow> bmem t x = bmem s x)
    else \<exists>t. free_block env dev block s = Halted (Panic ''free_block: bit already cleared'') t"
proof -
  have nz: "unat (s_nzones sb) < 65536" using unsigned_less [of "s_nzones sb", where 'a = nat] by simp
  then have lt: "unat block < 65536" using assms(8) by simp
  from this have "uint block < 65536" using word_less_nat_alt [of block 65536] word_less_alt [of block 65536] by simp
  moreover have "0 \<le> uint block" by simp
  ultimately have "- 2147483648 \<le> uint block" "uint block < 2147483648" by linarith+
  then have eq: "sint block = uint block" using sint_of_int [of "uint block"] by simp
  have "\<not> uint block < uint (s_firstdatazone sb)" "\<not> uint block \<ge> uint (s_nzones sb)"
    using assms(7,8) unfolding unat_eq_nat_uint by (auto simp only: not_less not_le uint_ge_0 zless_nat_conj
      nat_le_eq_zle nat_less_eq_zless le_nat_iff nat_le_iff int_nat_eq split: if_splits)
  then have zone: "\<not> sint block < uint (s_firstdatazone sb)" "\<not> sint block \<ge> uint (s_nzones sb)"
    unfolding eq .
  have run: "free_block env dev block s = clear_zone_bit k dev block s"
    using zone unfolding assms(5)
    by (simp add: free_block_def get_super_free [OF assms(4) assms(6) [unfolded assms(5)] assms(3)]
      not_cached_miss [OF assms(1,2,9)])
  show ?thesis
    unfolding run clear_zone_bit_cases [OF assms(5,7) lt assms(10)] Let_def assms(11,12) [symmetric]
    using map_bit_clear_bit [of nr] clear_bit_elsewhere by (auto simp: panic_def assms(12))
qed

theorem free_block_clears_one_bit_witness:
  "\<exists>t. free_block (\<lambda>s. s) 0x301 18 fs_mapped = Done () t \<and> b_dirt (bufs t 1) = 1"
proof -
  let ?a = "b_data (bufs fs_mapped 1)"
  have miss: "\<forall>c \<in> hashed (bufs fs_mapped) (nr_buffers fs_mapped). \<not> (b_dev (bufs fs_mapped c) = ucast (0x301 :: u32) \<and> b_blocknr (bufs fs_mapped c) = 18)"
  proof (intro ballI)
    fix c assume "c \<in> hashed (bufs fs_mapped) (nr_buffers fs_mapped)"
    then have c: "c < 3" "b_dev (bufs fs_mapped c) \<noteq> 0" by (simp_all add: hashed_def fs_mapped_tables)
    then consider "c = 0" | "c = 1" | "c = 2" by linarith
    then show "\<not> (b_dev (bufs fs_mapped c) = ucast (0x301 :: u32) \<and> b_blocknr (bufs fs_mapped c) = 18)"
      using c(2) fs_warm_facts by cases (simp_all add: fs_mapped_def fs_inodes_def)
  qed
  have "if map_bit (bmem fs_mapped) ?a 9
    then \<exists>t. free_block (\<lambda>s. s) 0x301 18 fs_mapped = Done () t \<and> b_dirt (bufs t 1) = 1 \<and>
      (\<forall>n < 8192. map_bit (bmem t) ?a n \<longleftrightarrow> n \<noteq> 9 \<and> map_bit (bmem fs_mapped) ?a n) \<and>
      (\<forall>x. x \<noteq> ?a + of_nat (9 div 8) \<longrightarrow> bmem t x = bmem fs_mapped x)
    else \<exists>t. free_block (\<lambda>s. s) 0x301 18 fs_mapped = Halted (Panic ''free_block: bit already cleared'') t"
    by (rule free_block_clears_one_bit [OF fs_mapped_cache(1) _ _ fs_mapped_tables(4) refl _ _ _ miss _ refl])
      (simp_all add: fs_mapped_tables zone_bit_def map_slot_def)
  moreover have "map_bit (bmem fs_mapped) ?a 9" by (simp add: map_bit_def fs_mapped_tables)
  ultimately show ?thesis by auto
qed

end
