(* ===== verification/Inodes.thy ===== *)
theory Inodes
  imports Zones
begin

text \<open>
  The table of inodes in memory, \<^verbatim>\<open>fs/inode.c\<close>: taking a free entry (\<open>get_empty_inode\<close>),
  getting the inode of a device and number (\<open>iget\<close>) and giving it back (\<open>iput\<close>).
\<close>

section \<open>iput\<close>

primrec iput_loop :: "nat \<Rightarrow> ('a fs_state_scheme \<Rightarrow> 'a fs_state_scheme) \<Rightarrow> nat
    \<Rightarrow> 'a fs_state_scheme \<Rightarrow> ('a fs_state_scheme, unit) outcome" where
  "iput_loop 0 env i s = Blocked s"
| "iput_loop (Suc n) env i s =
     (if i_count (inode_table s ! i) > 1 then Done () (iupd i (\<lambda>x. x\<lparr>i_count := i_count x - 1\<rparr>) s)
      else if i_nlinks (inode_table s ! i) = 0
      then kbind (truncate env i s) (\<lambda>_ s. free_inode env (Some i) s)
      else if i_dirt (inode_table s ! i) \<noteq> 0
      then kbind (write_inode env i s) (\<lambda>_ s. kbind (wait_on_inode env i s) (\<lambda>_ s. iput_loop n env i s))
      else Done () (iupd i (\<lambda>x. x\<lparr>i_count := i_count x - 1\<rparr>) s))"

definition iput :: "('a fs_state_scheme \<Rightarrow> 'a fs_state_scheme) \<Rightarrow> nat option
    \<Rightarrow> 'a fs_state_scheme \<Rightarrow> ('a fs_state_scheme, unit) outcome" where
  "iput env p s =
     (case p of
        None \<Rightarrow> Done () s
      | Some i \<Rightarrow>
          kbind (wait_on_inode env i s) (\<lambda>_ s.
            if i_count (inode_table s ! i) = 0 then panic ''iput: trying to free free inode'' s
            else if i_pipe (inode_table s ! i) \<noteq> 0
            then let s = iupd i (\<lambda>x. x\<lparr>i_count := i_count x - 1\<rparr>) (wake_up (Some (I_wait i)) s)
                 in if i_count (inode_table s ! i) \<noteq> 0 then Done () s
                    else kbind (free_page (i_size (inode_table s ! i)) s) (\<lambda>_ s.
                           Done () (iupd i (\<lambda>x. x\<lparr>i_count := 0, i_dirt := 0, i_pipe := 0\<rparr>) s))
            else if i_dev (inode_table s ! i) = 0 then Done () (iupd i (\<lambda>x. x\<lparr>i_count := i_count x - 1\<rparr>) s)
            else kbind (if S_ISBLK (i_mode (inode_table s ! i))
                        then kbind (sync_dev env (ucast (i_zone (inode_table s ! i) ! 0)) s) (\<lambda>_ s. wait_on_inode env i s)
                        else Done () s) (\<lambda>_ s.
                   iput_loop (Suc (patience s)) env i s)))"

section \<open>get\_empty\_inode\<close>

text \<open>
  The \<open>for\<close> loop of \<open>get_empty_inode\<close>: \<open>n\<close> more steps of \<open>last_inode\<close>, with the free
  entry seen last in \<open>r\<close>.
\<close>

primrec scan_inodes :: "nat \<Rightarrow> nat option \<Rightarrow> 'a fs_state_scheme \<Rightarrow> nat option \<times> 'a fs_state_scheme" where
  "scan_inodes 0 r s = (r, s)"
| "scan_inodes (Suc n) r s =
     (let l = (if last_inode s + 1 \<ge> NR_INODE then 0 else last_inode s + 1);
          s = s\<lparr>last_inode := l\<rparr>; x = inode_table s ! l
      in if i_count x = 0
         then if i_dirt x = 0 \<and> i_lock x = 0 then (Some l, s) else scan_inodes n (Some l) s
         else scan_inodes n r s)"

text \<open>
  The test \<open>while (inode->i_count)\<close> reads through a null pointer when no entry is free, so the
  message and the panic the code has for this case are not reached.
\<close>

primrec find_empty_inode :: "nat \<Rightarrow> 'a fs_state_scheme \<Rightarrow> ('a fs_state_scheme, nat) outcome" where
  "find_empty_inode 0 s = Blocked s"
| "find_empty_inode (Suc n) s =
     (case scan_inodes NR_INODE None s of
        (None, s) \<Rightarrow> Halted (Undef ''inode->i_count'') s
      | (Some i, s) \<Rightarrow> if i_count (inode_table s ! i) \<noteq> 0 then find_empty_inode n s else Done i s)"

primrec clean_inode :: "nat \<Rightarrow> ('a fs_state_scheme \<Rightarrow> 'a fs_state_scheme) \<Rightarrow> nat
    \<Rightarrow> 'a fs_state_scheme \<Rightarrow> ('a fs_state_scheme, unit) outcome" where
  "clean_inode 0 env i s = Blocked s"
| "clean_inode (Suc n) env i s =
     (if i_dirt (inode_table s ! i) = 0 then Done () s
      else kbind (write_inode env i s) (\<lambda>_ s. kbind (wait_on_inode env i s) (\<lambda>_ s. clean_inode n env i s)))"

definition get_empty_inode :: "('a fs_state_scheme \<Rightarrow> 'a fs_state_scheme)
    \<Rightarrow> 'a fs_state_scheme \<Rightarrow> ('a fs_state_scheme, nat) outcome" where
  "get_empty_inode env s =
     kbind (find_empty_inode (Suc (patience s)) s) (\<lambda>i s.
     kbind (wait_on_inode env i s) (\<lambda>_ s.
     kbind (clean_inode (Suc (patience s)) env i s) (\<lambda>_ s.
       Done i (iupd i (\<lambda>x. x\<lparr>i_count := 1\<rparr>) (clear_inode i s)))))"

section \<open>iget\<close>

text \<open>The code calls the entry it takes in advance \<open>empty\<close>; it is never null.\<close>

definition find_inode :: "u32 \<Rightarrow> u32 \<Rightarrow> 'a fs_state_scheme \<Rightarrow> nat option" where
  "find_inode dev nr s =
     find (\<lambda>i. ucast (i_dev (inode_table s ! i)) = dev \<and> ucast (i_num (inode_table s ! i)) = nr) [0..<NR_INODE]"

definition find_mounted :: "nat \<Rightarrow> 'a fs_state_scheme \<Rightarrow> nat option" where
  "find_mounted i s = find (\<lambda>k. s_imount (super_block s ! k) = Some i) [0..<NR_SUPER]"

primrec iget_loop :: "nat \<Rightarrow> ('a fs_state_scheme \<Rightarrow> 'a fs_state_scheme) \<Rightarrow> nat \<Rightarrow> u32 \<Rightarrow> u32
    \<Rightarrow> 'a fs_state_scheme \<Rightarrow> ('a fs_state_scheme, nat option) outcome" where
  "iget_loop 0 env spare dev nr s = Blocked s"
| "iget_loop (Suc n) env spare dev nr s =
     (case find_inode dev nr s of
        None \<Rightarrow>
          kbind (read_inode env spare (iupd spare (\<lambda>x. x\<lparr>i_dev := ucast dev, i_num := ucast nr\<rparr>) s)) (\<lambda>_ s.
            Done (Some spare) s)
      | Some i \<Rightarrow>
          kbind (wait_on_inode env i s) (\<lambda>_ s.
            if ucast (i_dev (inode_table s ! i)) \<noteq> dev \<or> ucast (i_num (inode_table s ! i)) \<noteq> nr
            then iget_loop n env spare dev nr s
            else
              let s = iupd i (\<lambda>x. x\<lparr>i_count := i_count x + 1\<rparr>) s
              in if i_mount (inode_table s ! i) \<noteq> 0
                 then case find_mounted i s of
                        None \<Rightarrow> kbind (iput env (Some spare) (printk ''Mounted inode hasn't got sb'' [] s)) (\<lambda>_ s.
                                  Done (Some spare) s)
                      | Some k \<Rightarrow> kbind (iput env (Some i) s) (\<lambda>_ s.
                                    iget_loop n env spare (ucast (s_dev (super_block s ! k))) ROOT_INO s)
                 else kbind (iput env (Some spare) s) (\<lambda>_ s. Done (Some i) s)))"

definition iget :: "('a fs_state_scheme \<Rightarrow> 'a fs_state_scheme) \<Rightarrow> u32 \<Rightarrow> u32
    \<Rightarrow> 'a fs_state_scheme \<Rightarrow> ('a fs_state_scheme, nat option) outcome" where
  "iget env dev nr s =
     (if dev = 0 then panic ''iget with dev==0'' s
      else kbind (get_empty_inode env s) (\<lambda>spare s. iget_loop (Suc (patience s)) env spare dev nr s))"

end
