(* ===== verification/Inode_Frame.thy ===== *)
theory Inode_Frame
  imports Inodes
begin

text \<open>
  Invariants through \<open>iget\<close>, \<open>iput\<close>, \<open>truncate\<close> and what they call, proved once for
  every invariant that meets the interface, and the two invariants that do: the order of the buffer
  cache, and that no inode is in the table twice.
\<close>

section \<open>Invariants across iget and iput\<close>

text \<open>
  What these routines need of an invariant beyond the cache: it survives a change of the frame counts
  and of \<open>last_inode\<close>, clearing an entry, and giving an entry the name of an inode that is not
  in the table.
\<close>

locale inode_frame = cache_frame I for I :: "'a fs_state_scheme \<Rightarrow> bool" +
  assumes I_get_hash_table: "(\<And>s. I s \<Longrightarrow> I (env s)) \<Longrightarrow> is_dev dev \<Longrightarrow> I s \<Longrightarrow> I (final (get_hash_table env dev block s))"
    and I_mem_map: "I s \<Longrightarrow> I (s\<lparr>mem_map := mm\<rparr>)"
    and I_last_inode: "I s \<Longrightarrow> I (s\<lparr>last_inode := l\<rparr>)"
    and I_clear: "I s \<Longrightarrow> I (iupd i (\<lambda>_. null_inode) s)"
    and I_rename: "I s \<Longrightarrow> is_dev dev \<Longrightarrow> is_dev nr \<Longrightarrow> find_inode dev nr s = None \<Longrightarrow>
      I (iupd i (\<lambda>x. x\<lparr>i_dev := ucast dev, i_num := ucast nr\<rparr>) s)"
begin

lemma I_clear_inode: "I s \<Longrightarrow> I (clear_inode i s)"
  by (simp add: clear_inode_def I_clear I_waitq)

lemma I_free_page: "I s \<Longrightarrow> I (final (free_page a s))"
  by (simp add: free_page_def mem_map_at_def set_mem_map_def Let_def I_mem_map I_panic)

lemma I_clear_zone_bit: "I s \<Longrightarrow> I (final (clear_zone_bit k dev block s))"
  by (simp add: clear_zone_bit_def Let_def I_bmem I_dirt I_panic I_printk split: option.split prod.split)

lemma I_free_block:
  assumes env: "\<And>s. I s \<Longrightarrow> I (env s)" and "is_dev dev" "I s"
  shows "I (final (free_block env dev block s))"
  unfolding free_block_def
  by (intro kbind_keeps [where I = I])
    (auto intro!: kbind_keeps [where I = I] simp: I_get_super I_get_hash_table I_panic I_printk I_brelse
      I_clear_zone_bit I_flags same_block_def env assms(2,3) split: option.split)

lemma I_free_numbers:
  assumes free: "\<And>z s. is_dev z \<Longrightarrow> I s \<Longrightarrow> I (final (free z s))"
  shows "I s \<Longrightarrow> I (final (free_numbers xs free p s))"
proof (induction xs arbitrary: s)
  case (Cons i xs)
  show ?case unfolding free_numbers.simps Let_def
    by (intro kbind_keeps [where I = I]) (simp_all add: Cons free)
qed simp

lemma I_free_ind:
  assumes env: "\<And>s. I s \<Longrightarrow> I (env s)" and "is_dev dev" "I s"
  shows "I (final (free_ind env dev block s))"
  unfolding free_ind_def using assms(3)
  by (auto intro!: kbind_keeps [where I = I] simp: I_bread I_free_numbers I_free_block I_brelse env assms(2)
      split: option.split)

lemma I_free_dind:
  assumes env: "\<And>s. I s \<Longrightarrow> I (env s)" and "is_dev dev" "I s"
  shows "I (final (free_dind env dev block s))"
  unfolding free_dind_def using assms(3)
  by (auto intro!: kbind_keeps [where I = I] simp: I_bread I_free_numbers I_free_ind I_free_block I_brelse env assms(2)
      split: option.split)

lemma I_free_direct:
  assumes env: "\<And>s. I s \<Longrightarrow> I (env s)"
  shows "I s \<Longrightarrow> I (final (free_direct ks env i s))"
proof (induction ks arbitrary: s)
  case (Cons k ks)
  show ?case unfolding free_direct.simps
    by (intro kbind_keeps [where I = I])
      (simp_all add: Cons kbind_keeps [where I = I] I_free_block I_iupd env)
qed simp

lemma I_truncate:
  assumes env: "\<And>s. I s \<Longrightarrow> I (env s)" and "I s"
  shows "I (final (truncate env i s))"
  unfolding truncate_def using assms(2)
  by (auto intro!: kbind_keeps [where I = I] simp: I_free_direct I_free_ind I_free_dind I_iupd env)

lemma I_free_inode:
  assumes env: "\<And>s. I s \<Longrightarrow> I (env s)" and "I s"
  shows "I (final (free_inode env p s))"
  unfolding free_inode_def Let_def using assms(2)
  by (auto intro!: kbind_keeps [where I = I]
      simp: I_get_super I_clear_inode I_panic I_printk I_bmem I_dirt env split: option.split prod.split)

lemma I_iput_loop:
  assumes env: "\<And>s. I s \<Longrightarrow> I (env s)"
  shows "I s \<Longrightarrow> I (final (iput_loop n env i s))"
proof (induction n arbitrary: s)
  case (Suc n)
  have "I (final (kbind (write_inode env i s) (\<lambda>_ s. kbind (wait_on_inode env i s) (\<lambda>_ s. iput_loop n env i s))))"
    by (intro kbind_keeps [where I = I]) (simp_all add: I_write_inode I_wait_on_inode env Suc)
  moreover have "I (final (kbind (truncate env i s) (\<lambda>_ s. free_inode env (Some i) s)))"
    by (intro kbind_keeps [where I = I]) (simp_all add: I_truncate I_free_inode env Suc)
  ultimately show ?case using Suc.prems by (simp add: I_iupd)
qed simp

lemma I_iput:
  assumes env: "\<And>s. I s \<Longrightarrow> I (env s)" and "I s"
  shows "I (final (iput env p s))"
  unfolding iput_def Let_def using assms(2)
  by (auto intro!: kbind_keeps [where I = I]
      simp: I_wait_on_inode I_panic I_free_page I_iupd I_wake_up I_sync_dev I_iput_loop env
      simp del: iput_loop.simps split: option.split)

lemma I_scan_inodes: "I s \<Longrightarrow> I (snd (scan_inodes n r s))"
  by (induction n arbitrary: r s) (simp_all add: Let_def I_last_inode)

lemma I_find_empty_inode: "I s \<Longrightarrow> I (final (find_empty_inode n s))"
proof (induction n arbitrary: s)
  case (Suc n)
  with I_scan_inodes [OF Suc.prems, of NR_INODE None] show ?case
    by (auto split: prod.split option.split simp del: scan_inodes.simps)
qed simp

lemma I_clean_inode:
  assumes env: "\<And>s. I s \<Longrightarrow> I (env s)"
  shows "I s \<Longrightarrow> I (final (clean_inode n env i s))"
proof (induction n arbitrary: s)
  case (Suc n)
  have "I (final (kbind (write_inode env i s) (\<lambda>_ s. kbind (wait_on_inode env i s) (\<lambda>_ s. clean_inode n env i s))))"
    by (intro kbind_keeps [where I = I]) (simp_all add: I_write_inode I_wait_on_inode env Suc)
  with Suc.prems show ?case by simp
qed simp

lemma I_get_empty_inode:
  assumes env: "\<And>s. I s \<Longrightarrow> I (env s)" and "I s"
  shows "I (final (get_empty_inode env s))"
  unfolding get_empty_inode_def
  by (intro kbind_keeps [where I = I])
    (simp_all add: I_find_empty_inode I_wait_on_inode I_clean_inode I_iupd I_clear_inode env assms(2)
      del: find_empty_inode.simps clean_inode.simps)

lemma I_iget_loop:
  assumes env: "\<And>s. I s \<Longrightarrow> I (env s)"
  shows "is_dev dev \<Longrightarrow> is_dev nr \<Longrightarrow> I s \<Longrightarrow> I (final (iget_loop n env e dev nr s))"
proof (induction n arbitrary: dev nr s)
  case (Suc n)
  have root: "is_dev ROOT_INO" by simp
  show ?case
  proof (cases "find_inode dev nr s")
    case None
    with Suc.prems show ?thesis
      by (auto intro!: kbind_keeps [where I = I] simp: I_read_inode I_rename env)
  next
    case (Some i)
    with Suc.prems show ?thesis
      by (auto intro!: kbind_keeps [where I = I] Suc.IH [OF _ root]
        simp: Let_def I_wait_on_inode I_iput I_iupd I_printk env Suc.IH split: option.split)
  qed
qed simp

lemma I_iget:
  assumes env: "\<And>s. I s \<Longrightarrow> I (env s)" and "is_dev dev" "is_dev nr" "I s"
  shows "I (final (iget env dev nr s))"
  unfolding iget_def
  by (auto intro!: kbind_keeps [where I = I] simp: I_panic I_get_empty_inode I_iget_loop env assms(2-4)
      simp del: iget_loop.simps)

end

section \<open>The cache stays in order\<close>

interpretation cache: inode_frame "cache_inv n" for n
proof unfold_locales
  fix env :: "'a fs_state_scheme \<Rightarrow> 'a fs_state_scheme" and s :: "'a fs_state_scheme" and dev block
  assume "\<And>s. cache_inv n s \<Longrightarrow> cache_inv n (env s)" "is_dev dev" "cache_inv n s"
  then have "always (get_hash_table env dev block s) (cache_inv n)
      (\<lambda>r t. case r of None \<Rightarrow> True | Some b \<Rightarrow> holds n dev block b t)"
    unfolding get_hash_table_def by (rule get_hash_table_loop_always)
  then show "cache_inv n (final (get_hash_table env dev block s))" by (simp add: always_def)
next
  fix s :: "'a fs_state_scheme"
  assume s: "cache_inv n s"
  show "cache_inv n (s\<lparr>mem_map := mm\<rparr>)" for mm by (rule cache_inv_same_block [OF s]) simp_all
  show "cache_inv n (s\<lparr>last_inode := l\<rparr>)" for l by (rule cache_inv_same_block [OF s]) simp_all
  show "cache_inv n (iupd i (\<lambda>_. null_inode) s)" for i by (rule cache_inv_same_block [OF s]) simp_all
  show "cache_inv n (iupd i (\<lambda>x. x\<lparr>i_dev := ucast dev, i_num := ucast nr\<rparr>) s)" for i and dev nr :: u32
    by (rule cache_inv_same_block [OF s]) simp_all
qed

section \<open>No inode is in the table twice\<close>

text \<open>
  An invariant of the tables that sees at most where the data of a buffer lies: \<open>getblk\<close> keeps it.
\<close>

locale table_frame = block_frame I for I :: "'a fs_state_scheme \<Rightarrow> bool" +
  assumes I_queues: "I s \<Longrightarrow> (\<And>b. b_data (bs b) = b_data (bufs s b)) \<Longrightarrow> I (s\<lparr>bufs := bs, hash_table := ht, free_list := fl\<rparr>)"
    and I_table_iupd: "I s \<Longrightarrow> (\<And>x. i_dev (f x) = i_dev x \<and> i_num (f x) = i_num x) \<Longrightarrow> I (iupd i f s)"
    and I_table_supd: "I s \<Longrightarrow> I (supd k g s)"
begin

lemma I_bupd: "I s \<Longrightarrow> (\<And>h. b_data (f h) = b_data h) \<Longrightarrow> I (bupd b f s)"
  using I_queues [where s = s and bs = "(bufs s)(b := f (bufs s b))" and ht = "hash_table s" and fl = "free_list s"] by (simp add: bupd_def)

lemma I_set_hash: "I s \<Longrightarrow> I (set_hash k p s)"
  using I_queues [where s = s and bs = "bufs s" and ht = "(hash_table s)[k := p]" and fl = "free_list s"] by (simp add: set_hash_def)

lemma I_free_list: "I s \<Longrightarrow> I (s\<lparr>free_list := p\<rparr>)"
  using I_queues [where s = s and bs = "bufs s" and ht = "hash_table s" and fl = p] by simp

lemma I_opt_bupd: "I s \<Longrightarrow> (\<And>n h. b_data (f n h) = b_data h) \<Longrightarrow> I (case p of None \<Rightarrow> s | Some n \<Rightarrow> bupd n (f n) s)"
  by (cases p) (simp_all add: I_bupd)

lemma I_remove_from_hash: "I s \<Longrightarrow> I (remove_from_hash b s)"
  by (simp add: remove_from_hash_def Let_def I_opt_bupd I_set_hash del: upd_simps)

lemma I_remove_from_free_list: "I s \<Longrightarrow> I (final (remove_from_free_list b s))"
  by (cases "b_prev_free (bufs s b)"; cases "b_next_free (bufs s b)")
    (simp_all add: remove_from_free_list_def Let_def I_bupd I_free_list I_panic del: upd_simps)

lemma I_remove_from_queues: "I s \<Longrightarrow> I (final (remove_from_queues b s))"
  by (simp add: remove_from_queues_def I_remove_from_hash I_remove_from_free_list)

lemma I_put_on_free_list: "I s \<Longrightarrow> I (final (put_on_free_list b s))"
proof (cases "free_list s")
  case (Some f)
  assume "I s"
  then have "I (bupd b (\<lambda>h. h\<lparr>b_prev_free := v\<rparr>) (bupd b (\<lambda>h. h\<lparr>b_next_free := Some f\<rparr>) s))" for v
    by (intro I_bupd) simp_all
  with Some show ?thesis
    by (simp add: put_on_free_list_def Let_def I_bupd del: upd_simps split: option.split)
qed (simp add: put_on_free_list_def)

lemma I_put_in_hash: "I s \<Longrightarrow> I (put_in_hash b s)"
  by (simp add: put_in_hash_def Let_def I_opt_bupd I_bupd I_set_hash del: upd_simps)

lemma I_insert_into_queues: "I s \<Longrightarrow> I (final (insert_into_queues b s))"
  unfolding insert_into_queues_def
  by (rule kbind_keeps [where I = I]) (simp_all add: I_put_on_free_list I_put_in_hash)

lemma I_take_buffer: "I s \<Longrightarrow> I (final (take_buffer b dev block s))"
  unfolding take_buffer_def
  by (auto intro!: kbind_keeps [where I = I] simp: I_remove_from_queues I_insert_into_queues I_bupd)

lemma I_find_buffer: "I s \<Longrightarrow> I (final (find_buffer dev block s))"
  by (simp add: find_buffer_def split: option.split)

lemma I_get_hash_table_loop:
  assumes env: "\<And>s. I s \<Longrightarrow> I (env s)"
  shows "I s \<Longrightarrow> I (final (get_hash_table_loop n env dev block s))"
proof (induction n arbitrary: s)
  case (Suc n)
  have "I (final (kbind (wait_on_buffer env b (bupd b (\<lambda>h. h\<lparr>b_count := b_count h + 1\<rparr>) t)) (\<lambda>_ s.
      if b_dev (bufs s b) = ucast dev \<and> b_blocknr (bufs s b) = block then Done (Some b) s
      else get_hash_table_loop n env dev block (bupd b (\<lambda>h. h\<lparr>b_count := b_count h - 1\<rparr>) s))))" if "I t" for t b
    unfolding wait_on_buffer_def
    by (intro kbind_keeps [where I = I]) (simp_all add: I_wait_while I_bupd env Suc that del: upd_simps)
  then show ?case unfolding get_hash_table_loop.simps
    by (intro kbind_keeps [where I = I]) (simp_all add: I_find_buffer Suc.prems split: option.split)
qed simp

lemma I_scan_free_list: "I s \<Longrightarrow> I (final (scan_free_list k bh tmp s))"
  by (induction k arbitrary: bh tmp) (simp_all add: Let_def split: option.split)

lemma I_clean_buffer:
  assumes env: "\<And>s. I s \<Longrightarrow> I (env s)" and sync: "\<And>d s. I s \<Longrightarrow> I (final (sync d s))"
  shows "I s \<Longrightarrow> I (final (clean_buffer k sync env b s))"
proof (induction k arbitrary: s)
  case (Suc k)
  have "I (final (kbind (sync (ucast (b_dev (bufs s b))) s) (\<lambda>_ s.
      kbind (wait_while env (\<lambda>s. b_lock (bufs s b) \<noteq> 0) (B_wait b) s) (\<lambda>_ s.
        if b_count (bufs s b) \<noteq> 0 then Done False s else clean_buffer k sync env b s))))"
    by (intro kbind_keeps [where I = I]) (simp_all add: I_wait_while sync env Suc)
  with Suc.prems show ?case by (simp add: wait_on_buffer_def)
qed simp

lemma I_getblk_loop:
  assumes env: "\<And>s. I s \<Longrightarrow> I (env s)" and sync: "\<And>d s. I s \<Longrightarrow> I (final (sync d s))"
  shows "I s \<Longrightarrow> I (final (getblk_loop k sync env dev block s))"
proof (induction k arbitrary: s)
  case (Suc k)
  let ?again = "getblk_loop k sync env dev block"
  have take: "I (final (kbind (find_buffer dev block t) (\<lambda>r s. if r \<noteq> None then ?again s else take_buffer b dev block s)))"
    if "I t" for t b
    by (rule kbind_keeps [where I = I]) (simp_all add: that I_find_buffer I_take_buffer Suc.IH)
  have clean: "I (final (kbind (clean_buffer (Suc (patience t)) sync env b t) (\<lambda>clean s.
      if \<not> clean then ?again s
      else kbind (find_buffer dev block s) (\<lambda>r s. if r \<noteq> None then ?again s else take_buffer b dev block s))))"
    if "I t" for t b
    by (rule kbind_keeps [where I = I])
      (simp_all add: that I_clean_buffer env sync take Suc.IH del: clean_buffer.simps not_None_eq)
  have waited: "I (final (kbind (wait_on_buffer env b t) (\<lambda>_ s.
      if b_count (bufs s b) \<noteq> 0 then ?again s
      else kbind (clean_buffer (Suc (patience s)) sync env b s) (\<lambda>clean s.
        if \<not> clean then ?again s
        else kbind (find_buffer dev block s) (\<lambda>r s. if r \<noteq> None then ?again s else take_buffer b dev block s)))))"
    if "I t" for t b
    by (rule kbind_keeps [where I = I])
      (simp_all add: that wait_on_buffer_def I_wait_while env clean Suc.IH del: clean_buffer.simps not_None_eq)
  have slept: "I (final (kbind (sleep_on env (Some Buffer_wait) t) (\<lambda>_ s. ?again s)))" if "I t" for t
    by (rule kbind_keeps [where I = I]) (simp_all add: that I_sleep_on env Suc.IH)
  have scan: "I (final (kbind (scan_free_list (Suc (nr_buffers t)) None (free_list t) t) (\<lambda>bh s.
      case bh of
        None \<Rightarrow> kbind (sleep_on env (Some Buffer_wait) s) (\<lambda>_ s. ?again s)
      | Some b \<Rightarrow> kbind (wait_on_buffer env b s) (\<lambda>_ s.
          if b_count (bufs s b) \<noteq> 0 then ?again s
          else kbind (clean_buffer (Suc (patience s)) sync env b s) (\<lambda>clean s.
            if \<not> clean then ?again s
            else kbind (find_buffer dev block s) (\<lambda>r s. if r \<noteq> None then ?again s else take_buffer b dev block s))))))"
    if "I t" for t
    by (rule kbind_keeps [where I = I])
      (simp_all add: that I_scan_free_list slept waited del: scan_free_list.simps clean_buffer.simps not_None_eq split: option.split)
  show ?case unfolding getblk_loop.simps get_hash_table_def
    by (rule kbind_keeps [where I = I])
      (simp_all add: I_get_hash_table_loop env scan Suc.prems
        del: get_hash_table_loop.simps scan_free_list.simps clean_buffer.simps not_None_eq split: option.split)
qed simp

end

sublocale table_frame \<subseteq> cache_frame I
  by unfold_locales (simp_all add: getblk_with_def I_getblk_loop I_table_iupd I_table_supd del: getblk_loop.simps)

definition inodes_unique :: "'a fs_state_scheme \<Rightarrow> bool" where
  "inodes_unique s \<longleftrightarrow> (\<forall>i j. i < NR_INODE \<and> j < NR_INODE \<and> i_dev (inode_table s ! i) \<noteq> 0 \<and>
     i_dev (inode_table s ! i) = i_dev (inode_table s ! j) \<and> i_num (inode_table s ! i) = i_num (inode_table s ! j) \<longrightarrow> i = j) \<and>
     length (inode_table s) = NR_INODE"

lemma nth_iupd: "inode_table (iupd i f s) ! j =
    (if j = i \<and> i < length (inode_table s) then f (inode_table s ! i) else inode_table s ! j)"
  by (cases "i < length (inode_table s)") (simp_all add: nth_list_update list_update_beyond not_less)

lemma inodes_unique_rename:
  assumes s: "inodes_unique s" and x: "x = f (inode_table s ! i)"
    and fresh: "i_dev x = 0 \<or> (\<forall>j < NR_INODE. \<not> (i_dev (inode_table s ! j) = i_dev x \<and> i_num (inode_table s ! j) = i_num x))"
  shows "inodes_unique (iupd i f s)"
proof -
  have len: "length (inode_table s) = NR_INODE" using s by (simp add: inodes_unique_def)
  have len': "length (inode_table (iupd i f s)) = NR_INODE" using len by simp
  have "a = b" if a: "a < NR_INODE" "b < NR_INODE" "i_dev (inode_table (iupd i f s) ! a) \<noteq> 0"
      "i_dev (inode_table (iupd i f s) ! a) = i_dev (inode_table (iupd i f s) ! b)"
      "i_num (inode_table (iupd i f s) ! a) = i_num (inode_table (iupd i f s) ! b)" for a b
  proof -
    consider "a = i" "b = i" | "a = i" "b \<noteq> i" | "a \<noteq> i" "b = i" | "a \<noteq> i" "b \<noteq> i" by blast
    then show ?thesis
    proof cases
      case 2 with a fresh len show ?thesis unfolding nth_iupd x by auto
    next
      case 3 with a fresh len show ?thesis unfolding nth_iupd x by simp
    next
      case 4
      with a have "i_dev (inode_table s ! a) \<noteq> 0" "i_dev (inode_table s ! a) = i_dev (inode_table s ! b)"
        "i_num (inode_table s ! a) = i_num (inode_table s ! b)" unfolding nth_iupd by simp_all
      with s a(1,2) show ?thesis unfolding inodes_unique_def by blast
    qed simp
  qed
  with len' show ?thesis unfolding inodes_unique_def by blast
qed

lemma inodes_unique_cong:
  assumes "inodes_unique s" "length (inode_table t) = length (inode_table s)"
    and "\<And>i. i < NR_INODE \<Longrightarrow> i_dev (inode_table t ! i) = i_dev (inode_table s ! i) \<and> i_num (inode_table t ! i) = i_num (inode_table s ! i)"
  shows "inodes_unique t"
  using assms unfolding inodes_unique_def by metis

interpretation unique: table_frame inodes_unique
proof unfold_locales
  fix s :: "'a fs_state_scheme" and f :: "m_inode \<Rightarrow> m_inode" and i
  assume "inodes_unique s" "\<And>x. i_dev (f x) = i_dev x \<and> i_num (f x) = i_num x"
  note same = this
  show "inodes_unique (iupd i f s)"
  proof (rule inodes_unique_cong [OF same(1)])
    fix j show "i_dev (inode_table (iupd i f s) ! j) = i_dev (inode_table s ! j) \<and>
        i_num (inode_table (iupd i f s) ! j) = i_num (inode_table s ! j)"
      using same(2) [of "inode_table s ! i"] by (simp only: nth_iupd) auto
  qed simp
qed (erule inodes_unique_cong; simp add: bupd_def supd_def)+

lemma find_inode_None:
  "find_inode dev nr s = None \<Longrightarrow> i < NR_INODE \<Longrightarrow> \<not> (ucast (i_dev (inode_table s ! i)) = dev \<and> ucast (i_num (inode_table s ! i)) = nr)"
  by (auto simp: find_inode_def find_None_iff)

interpretation unique: inode_frame inodes_unique
proof unfold_locales
  fix env :: "'a fs_state_scheme \<Rightarrow> 'a fs_state_scheme" and s :: "'a fs_state_scheme" and dev block
  assume "\<And>s. inodes_unique s \<Longrightarrow> inodes_unique (env s)" "inodes_unique s"
  then show "inodes_unique (final (get_hash_table env dev block s))"
    by (simp add: get_hash_table_def unique.I_get_hash_table_loop del: get_hash_table_loop.simps)
next
  fix s :: "'a fs_state_scheme"
  assume s: "inodes_unique s"
  show "inodes_unique (s\<lparr>mem_map := mm\<rparr>)" for mm by (rule inodes_unique_cong [OF s]) simp_all
  show "inodes_unique (s\<lparr>last_inode := l\<rparr>)" for l by (rule inodes_unique_cong [OF s]) simp_all
  show "inodes_unique (iupd i (\<lambda>_. null_inode) s)" for i
    by (rule inodes_unique_rename [OF s refl]) (simp add: null_inode_def)
  fix i and dev nr :: u32
  assume d: "is_dev dev" "is_dev nr" "find_inode dev nr s = None"
  have fresh: "\<not> (i_dev (inode_table s ! j) = ucast dev \<and> i_num (inode_table s ! j) = ucast nr)" if "j < NR_INODE" for j
    using find_inode_None [OF d(3) that] d(1,2) by auto
  show "inodes_unique (iupd i (\<lambda>x. x\<lparr>i_dev := ucast dev, i_num := ucast nr\<rparr>) s)"
    by (rule inodes_unique_rename [OF s refl]) (use fresh in simp)
qed

section \<open>Properties\<close>

text \<open>Iget and iput keep every inode in the table at most once, wherever they are cut off or halt
  and whatever runs while they sleep, provided it does so too: no two entries ever carry the same
  non-zero device with the same number.\<close>

theorem inodes_stay_unique:
  assumes "\<And>s. inodes_unique s \<Longrightarrow> inodes_unique (env s)" "is_dev dev" "is_dev nr" "inodes_unique s"
  shows "inodes_unique (final (iget env dev nr s)) \<and> inodes_unique (final (iput env p s)) \<and>
    inodes_unique (final (sync_dev env dev s))"
  using assms by (simp add: unique.I_iget unique.I_iput unique.I_sync_dev)

lemma fs_boot_unique: "inodes_unique fs_boot"
proof -
  have "i_dev (inode_table fs_boot ! i) = 0" if "i < NR_INODE" for i
    using that by (simp add: fs_boot_facts) (simp add: null_inode_def)
  moreover have "length (inode_table fs_boot) = NR_INODE" by (simp add: fs_boot_facts)
  ultimately show ?thesis unfolding inodes_unique_def by blast
qed

theorem inodes_stay_unique_witness:
  "inodes_unique (final (iget (\<lambda>s. s) 0x301 1 fs_boot))"
  by (rule conjunct1 [OF inodes_stay_unique]) (simp_all add: fs_boot_unique)

text \<open>The cache stays in order, every buffer in its ring and its chain and no block in two buffers,
  through iget, iput, truncate and sync_dev, wherever they are cut off or halt.\<close>

theorem cache_ordered_throughout:
  assumes "\<And>s. cache_inv n s \<Longrightarrow> cache_inv n (env s)" "is_dev dev" "is_dev nr" "cache_inv n s"
  shows "cache_inv n (final (iget env dev nr s)) \<and> cache_inv n (final (iput env p s)) \<and>
    cache_inv n (final (truncate env i s)) \<and> cache_inv n (final (sync_dev env dev s))"
  using assms by (simp add: cache.I_iget cache.I_iput cache.I_truncate cache.I_sync_dev)

theorem cache_ordered_throughout_witness:
  "cache_inv 3 (final (iget (\<lambda>s. s) 0x301 5 fs_inodes))"
  by (rule conjunct1 [OF cache_ordered_throughout]) (simp_all add: fs_inodes_inv)

end
