(* ===== verification/User.thy ===== *)
theory User
  imports Memory
begin

text \<open>
  Segments and the memory of a task: the descriptor macros of \<^verbatim>\<open>include/linux/sched.h\<close>
  and \<^verbatim>\<open>include/asm/system.h\<close>, the accesses through the \<open>fs\<close> segment of
  \<^verbatim>\<open>include/asm/segment.h\<close>, and \<open>verify_area\<close> of \<^verbatim>\<open>kernel/fork.c\<close>.
  An access goes through the data descriptor of the running task and the page tables of
  \<^theory_text>\<open>Memory\<close>; a page that is not present is brought in by \<open>do_no_page\<close>, as the page
  fault handler \<^verbatim>\<open>mm/page.s\<close> has it. The kernel runs with the processor's write
  protection off, so a write does not ask whether the page is read only.
\<close>

section \<open>Descriptors\<close>

definition set_base :: "u32 \<Rightarrow> desc_struct \<Rightarrow> desc_struct" where
  "set_base base d = d\<lparr>desc_a := (desc_a d AND 0xffff) OR push_bit 16 base,
     desc_b := (desc_b d AND 0x00ffff00) OR (drop_bit 16 base AND 0xff) OR (base AND 0xff000000)\<rparr>"

text \<open>\<open>_set_limit\<close> keeps the flags in the high half of byte 6; \<open>set_limit\<close> counts in pages.\<close>

definition set_limit_field :: "u32 \<Rightarrow> desc_struct \<Rightarrow> desc_struct" where
  "set_limit_field limit d = d\<lparr>desc_a := (desc_a d AND 0xffff0000) OR (limit AND 0xffff),
     desc_b := (desc_b d AND 0xfff0ffff) OR (limit AND 0x00ff0000)\<rparr>"

definition set_limit :: "u32 \<Rightarrow> desc_struct \<Rightarrow> desc_struct" where
  "set_limit limit d = set_limit_field (drop_bit 12 (limit - 1)) d"

definition get_base :: "desc_struct \<Rightarrow> u32" where
  "get_base d = push_bit 24 (drop_bit 24 (desc_b d)) OR push_bit 16 (desc_b d AND 0xff) OR drop_bit 16 (desc_a d)"

text \<open>The instruction \<open>lsl\<close>: the last valid offset of the segment, in bytes.\<close>

definition lsl :: "desc_struct \<Rightarrow> u32" where
  "lsl d = (let limit = (desc_a d AND 0xffff) OR (desc_b d AND 0xf0000)
            in if bit (desc_b d) 23 then push_bit 12 limit OR 0xfff else limit)"

text \<open>A selector of the local table: entry \<open>segment / 8\<close> of the running task's \<open>ldt\<close>.\<close>

definition get_limit :: "u32 \<Rightarrow> 'a sched_state_scheme \<Rightarrow> u32" where
  "get_limit segment s = lsl (t_ldt (cur s) ! unat (drop_bit 3 segment)) + 1"

text \<open>\<open>_set_tssldt_desc\<close>: a descriptor of 104 bytes at \<open>addr\<close> with the type byte given.\<close>

definition tssldt_desc :: "u32 \<Rightarrow> u32 \<Rightarrow> desc_struct" where
  "tssldt_desc addr type = \<lparr>desc_a = 104 OR push_bit 16 addr,
     desc_b = (drop_bit 16 addr AND 0xff) OR push_bit 8 type OR (addr AND 0xff000000)\<rparr>"

definition set_tss_desc :: "u32 \<Rightarrow> desc_struct" where "set_tss_desc addr = tssldt_desc addr 0x89"
definition set_ldt_desc :: "u32 \<Rightarrow> desc_struct" where "set_ldt_desc addr = tssldt_desc addr 0x82"

section \<open>Bytes of physical memory\<close>

definition byte_at :: "(u32 \<Rightarrow> u32) \<Rightarrow> u32 \<Rightarrow> u8" where
  "byte_at m a = ucast (drop_bit (8 * unat (a AND 3)) (m (a AND NOT 3)))"

definition set_byte :: "u32 \<Rightarrow> u8 \<Rightarrow> (u32 \<Rightarrow> u32) \<Rightarrow> u32 \<Rightarrow> u32" where
  "set_byte a v m = (let k = 8 * unat (a AND 3); w = a AND NOT 3
     in m(w := (m w AND NOT (push_bit k 0xff)) OR push_bit k (ucast v)))"

section \<open>Accesses through fs\<close>

definition linear :: "u32 \<Rightarrow> 'a sched_state_scheme \<Rightarrow> u32" where
  "linear addr s = get_base (t_ldt (cur s) ! 2) + addr"

definition pte_addr :: "u32 \<Rightarrow> 'a mm_state_scheme \<Rightarrow> u32" where
  "pte_addr lin s = (pmem s (dir_entry lin) AND 0xfffff000) + (drop_bit 10 lin AND 0xffc)"

definition present :: "u32 \<Rightarrow> 'a mm_state_scheme \<Rightarrow> bool" where
  "present lin s \<longleftrightarrow> pmem s (dir_entry lin) AND 1 \<noteq> 0 \<and> pmem s (pte_addr lin s) AND 1 \<noteq> 0"

definition phys :: "u32 \<Rightarrow> 'a mm_state_scheme \<Rightarrow> u32" where
  "phys lin s = (pmem s (pte_addr lin s) AND 0xfffff000) + (lin AND 0xfff)"

text \<open>
  The physical address of \<open>fs:addr\<close>, its page brought in first when it is missing; \<open>err\<close> is
  the error code of the fault. An address past the segment raises a protection fault.
\<close>

definition fs_access :: "u32 \<Rightarrow> u32 \<Rightarrow> 'a mm_state_scheme \<Rightarrow> ('a mm_state_scheme, u32) outcome" where
  "fs_access err addr s =
     (if addr > lsl (t_ldt (cur s) ! 2) then Halted (Undef ''fs limit'') s
      else kbind (if present (linear addr s) s then Done () s else do_no_page err (linear addr s) s) (\<lambda>_ s.
             Done (phys (linear addr s) s) s))"

definition get_fs_byte :: "u32 \<Rightarrow> 'a mm_state_scheme \<Rightarrow> ('a mm_state_scheme, u8) outcome" where
  "get_fs_byte addr s = kbind (fs_access 0 addr s) (\<lambda>p s. Done (byte_at (pmem s) p) s)"

definition put_fs_byte :: "u8 \<Rightarrow> u32 \<Rightarrow> 'a mm_state_scheme \<Rightarrow> ('a mm_state_scheme, unit) outcome" where
  "put_fs_byte val addr s = kbind (fs_access 2 addr s) (\<lambda>p s. Done () (s\<lparr>pmem := set_byte p val (pmem s)\<rparr>))"

definition get_fs_word :: "u32 \<Rightarrow> 'a mm_state_scheme \<Rightarrow> ('a mm_state_scheme, u16) outcome" where
  "get_fs_word addr s =
     kbind (get_fs_byte addr s) (\<lambda>b0 s. kbind (get_fs_byte (addr + 1) s) (\<lambda>b1 s.
       Done (ucast b0 OR push_bit 8 (ucast b1)) s))"

definition get_fs_long :: "u32 \<Rightarrow> 'a mm_state_scheme \<Rightarrow> ('a mm_state_scheme, u32) outcome" where
  "get_fs_long addr s =
     kbind (get_fs_word addr s) (\<lambda>w0 s. kbind (get_fs_word (addr + 2) s) (\<lambda>w1 s.
       Done (ucast w0 OR push_bit 16 (ucast w1)) s))"

definition put_fs_word :: "u16 \<Rightarrow> u32 \<Rightarrow> 'a mm_state_scheme \<Rightarrow> ('a mm_state_scheme, unit) outcome" where
  "put_fs_word val addr s =
     kbind (put_fs_byte (ucast val) addr s) (\<lambda>_ s. put_fs_byte (ucast (drop_bit 8 val)) (addr + 1) s)"

definition put_fs_long :: "u32 \<Rightarrow> u32 \<Rightarrow> 'a mm_state_scheme \<Rightarrow> ('a mm_state_scheme, unit) outcome" where
  "put_fs_long val addr s =
     kbind (put_fs_word (ucast val) addr s) (\<lambda>_ s. put_fs_word (ucast (drop_bit 16 val)) (addr + 2) s)"

section \<open>verify\_area\<close>

function verify_loop :: "u32 \<Rightarrow> u32 \<Rightarrow> 'a mm_state_scheme \<Rightarrow> ('a mm_state_scheme, unit) outcome" where
  "verify_loop start len s =
     (if sint len > 0
      then kbind (write_verify start s) (\<lambda>_ s. verify_loop (start + 4096) (len - 4096) s)
      else Done () s)"
  by auto
termination
proof (relation "measure (\<lambda>(start, len, s). nat (sint len))")
  fix start len :: u32 and s t :: "'a mm_state_scheme"
  assume "sint len > 0"
  moreover from this have "sint (len - 4096) = sint len - 4096"
    using sint_range [of len] by (subst sint_minus) simp_all
  ultimately show "((start + 4096, len - 4096, t), start, len, s) \<in> measure (\<lambda>(start, len, s). nat (sint len))"
    by simp
qed simp

declare verify_loop.simps [simp del]

definition verify_area :: "u32 \<Rightarrow> u32 \<Rightarrow> 'a mm_state_scheme \<Rightarrow> ('a mm_state_scheme, unit) outcome" where
  "verify_area addr len s =
     verify_loop ((addr AND 0xfffff000) + get_base (t_ldt (cur s) ! 2)) (len + (addr AND 0xfff)) s"

section \<open>Descriptor fields\<close>

lemma desc_masks:
  "(0xffff :: u32) = mask 16" "(0x00ffff00 :: u32) = push_bit 8 (mask 16)" "(0xff000000 :: u32) = push_bit 24 (mask 8)"
  "(0xffff0000 :: u32) = push_bit 16 (mask 16)" "(0xf0000 :: u32) = push_bit 16 (mask 4)"
  "(0xfff0ffff :: u32) = NOT (push_bit 16 (mask 4))" "(0x00ff0000 :: u32) = push_bit 16 (mask 8)"
  "(0xfff :: u32) = mask 12" "(0xff :: u32) = mask 8" "(0xfffff :: u32) = mask 20" "(3 :: u32) = mask 2"
  by (simp_all add: mask_eq_exp_minus_1)

text \<open>A word by its fields as the descriptors cut it: 16, 4, 4 and 8 bits.\<close>

lemma field_eqI:
  assumes "\<And>n. n < 16 \<Longrightarrow> bit (v :: u32) n = bit w n" "\<And>n. n < 4 \<Longrightarrow> bit v (16 + n) = bit w (16 + n)"
    and "\<And>n. n < 4 \<Longrightarrow> bit v (20 + n) = bit w (20 + n)" "\<And>n. n < 8 \<Longrightarrow> bit v (24 + n) = bit w (24 + n)"
  shows "v = w"
proof (rule bit_word_eqI)
  fix n
  assume "n < LENGTH(32)"
  then consider "n < 16" | "16 \<le> n" "n < 20" | "20 \<le> n" "n < 24" | "24 \<le> n" "n < 32" by fastforce
  then show "bit v n = bit w n"
    using assms(1) [of n] assms(2) [of "n - 16"] assms(3) [of "n - 20"] assms(4) [of "n - 24"] by cases simp_all
qed

lemma bit_past [simp]: "32 \<le> n \<Longrightarrow> \<not> bit (w :: u32) n"
  using bit_imp_le_length [of w n] by auto

lemmas desc_bits = bit_simps add.commute [of _ 16] add.commute [of _ 20] add.commute [of _ 24]

lemma get_base_set_base: "get_base (set_base b d) = b"
  unfolding get_base_def set_base_def desc_masks by (rule field_eqI) (auto simp: bit_simps)

lemma lsl_set_base: "lsl (set_base b d) = lsl d"
proof -
  have "desc_a (set_base b d) AND mask 16 = desc_a d AND mask 16"
    "desc_b (set_base b d) AND push_bit 16 (mask 4) = desc_b d AND push_bit 16 (mask 4)"
    unfolding set_base_def desc_masks by (rule field_eqI; auto simp: bit_simps)+
  moreover have "bit (desc_b (set_base b d)) 23 = bit (desc_b d) 23"
    unfolding set_base_def desc_masks by (auto simp: bit_simps)
  ultimately show ?thesis unfolding lsl_def desc_masks by simp
qed

lemma get_base_set_limit: "get_base (set_limit l d) = get_base d"
  unfolding get_base_def set_limit_def set_limit_field_def desc_masks
  by (rule field_eqI) (auto simp: bit_simps)

lemma set_limit_20: "(desc_a (set_limit l d) AND mask 16) OR (desc_b (set_limit l d) AND push_bit 16 (mask 4)) = drop_bit 12 (l - 1)"
  unfolding set_limit_def set_limit_field_def desc_masks
  by (rule field_eqI) (auto simp: bit_simps)

lemma lsl_set_limit:
  assumes "bit (desc_b d) 23" "l AND 0xfff = 0"
  shows "lsl (set_limit l d) = l - 1"
proof -
  have "\<not> bit (l - 1) 35" by simp
  then have "bit (desc_b (set_limit l d)) 23"
    using assms(1) unfolding set_limit_def set_limit_field_def desc_masks by (simp add: bit_simps)
  then have "lsl (set_limit l d) = push_bit 12 (drop_bit 12 (l - 1)) OR mask 12"
    unfolding lsl_def Let_def desc_masks set_limit_20 by simp
  also have "\<dots> = l - 1"
  proof -
    have l: "take_bit 12 l = 0" using assms(2) unfolding take_bit_eq_mask desc_masks .
    have "l = push_bit 12 (drop_bit 12 l)" using bits_ident [of 12 l] l by simp
    then have neg: "- l = push_bit 12 (- drop_bit 12 l)" by (simp add: push_bit_eq_mult)
    have low: "\<not> bit (- l) n" if "n < 12" for n
      unfolding neg using that by (simp add: bit_push_bit_iff)
    have "bit (l - 1) n" if "n < 12" for n
    proof -
      have "l - 1 = NOT (- l)" by (simp add: not_eq_complement)
      with low [OF that] that show ?thesis by (simp only: bit_not_iff) simp
    qed
    then show ?thesis by (intro bit_word_eqI) (auto simp: bit_simps)
  qed
  finally show ?thesis .
qed

lemma get_base_tssldt: "type AND 0xff = type \<Longrightarrow> get_base (tssldt_desc a type) = a"
proof -
  assume "type AND 0xff = type"
  then have "\<not> bit type n" if "8 \<le> n" for n
    using that by (metis bit_and_iff bit_mask_iff desc_masks(9) not_le)
  then show ?thesis
    unfolding get_base_def tssldt_desc_def desc_masks by (intro field_eqI) (auto simp: bit_simps)
qed

section \<open>Bytes\<close>

lemma byte_index: "unat ((a :: u32) AND 3) < 4"
proof -
  have "unat (a AND mask 2) < 4" by (simp only: unat_and_mask) simp
  then show ?thesis by (simp only: desc_masks)
qed

lemma bit_past8: "8 \<le> n \<Longrightarrow> \<not> bit (w :: u8) n"
  using bit_imp_le_length [of w n] by auto

lemma byte_at_set_byte [simp]: "byte_at (set_byte a v m) a = v"
  using byte_index [of a] unfolding byte_at_def set_byte_def Let_def desc_masks
  by (intro bit_word_eqI) (auto simp: bit_simps)

lemma in_other_word: "b AND NOT 3 \<noteq> a AND NOT 3 \<Longrightarrow> byte_at (set_byte a v m) b = byte_at m b"
  by (simp add: byte_at_def set_byte_def Let_def)

lemma byte_in_word:
  assumes "j < 4" "k < 4" "j \<noteq> k"
  shows "(ucast (drop_bit (8 * j) ((w AND NOT (push_bit (8 * k) (mask 8))) OR push_bit (8 * k) (ucast (v :: u8)))) :: u8) =
    ucast (drop_bit (8 * j) (w :: u32))"
proof (rule bit_word_eqI)
  fix n
  assume "n < LENGTH(8)"
  then have n: "n < 8" by simp
  have "\<not> (8 * k \<le> 8 * j + n \<and> 8 * j + n - 8 * k < 8)" using n assms(3) by linarith
  then show "bit (ucast (drop_bit (8 * j) ((w AND NOT (push_bit (8 * k) (mask 8))) OR push_bit (8 * k) (ucast v))) :: u8) n =
      bit (ucast (drop_bit (8 * j) w) :: u8) n"
    using n assms(1) by (auto simp: bit_simps bit_past8 not_less)
qed

lemma byte_at_other: "b \<noteq> a \<Longrightarrow> byte_at (set_byte a v m) b = byte_at m b"
proof (cases "b AND NOT 3 = a AND NOT 3")
  case True
  assume "b \<noteq> a"
  have "a = (a AND NOT 3) OR (a AND 3)" "b = (b AND NOT 3) OR (b AND 3)"
    by (rule bit_word_eqI, auto simp: bit_simps)+
  with True \<open>b \<noteq> a\<close> have "b AND 3 \<noteq> a AND 3" by metis
  then have "unat (b AND 3) \<noteq> unat (a AND 3)" by (simp add: word_unat_eq_iff)
  from byte_in_word [OF byte_index byte_index this] show ?thesis
    by (simp add: byte_at_def set_byte_def Let_def True desc_masks)
qed (rule in_other_word)

lemma set_byte_word: "w \<noteq> a AND NOT 3 \<Longrightarrow> set_byte a v m w = m w"
  by (simp add: set_byte_def Let_def)

section \<open>What an access finds\<close>

lemma user_pmem [simp]:
  "linear a (s\<lparr>pmem := m\<rparr>) = linear a s" "cur (s\<lparr>pmem := m\<rparr>) = cur s"
  by (simp_all add: linear_def)

lemma fs_access_present:
  "addr \<le> lsl (t_ldt (cur s) ! 2) \<Longrightarrow> present (linear addr s) s \<Longrightarrow> fs_access err addr s = Done (phys (linear addr s) s) s"
  by (simp add: fs_access_def)

lemma pmem_update: "pmem (s\<lparr>pmem := m\<rparr>) a = m a"
  by simp

text \<open>The walk is the same after a write to a word it does not read.\<close>

lemma walk_unchanged:
  assumes "w \<noteq> dir_entry lin" "w \<noteq> pte_addr lin s" "\<And>x. x \<noteq> w \<Longrightarrow> m x = pmem s x"
  shows "pte_addr lin (s\<lparr>pmem := m\<rparr>) = pte_addr lin s" "present lin (s\<lparr>pmem := m\<rparr>) = present lin s"
    "phys lin (s\<lparr>pmem := m\<rparr>) = phys lin s"
proof -
  have d: "m (dir_entry lin) = pmem s (dir_entry lin)" "m (pte_addr lin s) = pmem s (pte_addr lin s)"
    using assms by simp_all
  show p: "pte_addr lin (s\<lparr>pmem := m\<rparr>) = pte_addr lin s" using d by (simp add: pte_addr_def)
  show "present lin (s\<lparr>pmem := m\<rparr>) = present lin s" "phys lin (s\<lparr>pmem := m\<rparr>) = phys lin s"
    using d p by (simp_all add: present_def phys_def)
qed

definition readable :: "u32 \<Rightarrow> 'a mm_state_scheme \<Rightarrow> bool" where
  "readable addr s \<longleftrightarrow> addr \<le> lsl (t_ldt (cur s) ! 2) \<and> present (linear addr s) s"

text \<open>The word a byte lies in is neither of the two words the walk to the address reads.\<close>

definition off_walk :: "u32 \<Rightarrow> u32 \<Rightarrow> 'a mm_state_scheme \<Rightarrow> bool" where
  "off_walk a addr s \<longleftrightarrow> (let w = phys (linear a s) s AND NOT 3
     in w \<noteq> dir_entry (linear addr s) \<and> w \<noteq> pte_addr (linear addr s) s)"

lemma get_fs_byte_readable:
  "readable addr s \<Longrightarrow> get_fs_byte addr s = Done (byte_at (pmem s) (phys (linear addr s) s)) s"
  by (simp add: get_fs_byte_def fs_access_present readable_def)

lemma put_fs_byte_readable:
  "readable addr s \<Longrightarrow> put_fs_byte v addr s = Done () (s\<lparr>pmem := set_byte (phys (linear addr s) s) v (pmem s)\<rparr>)"
  by (simp add: put_fs_byte_def fs_access_present readable_def)

lemma readable_put:
  assumes "off_walk a addr s"
  shows "readable addr (s\<lparr>pmem := set_byte (phys (linear a s) s) v (pmem s)\<rparr>) = readable addr s"
    "phys (linear addr s) (s\<lparr>pmem := set_byte (phys (linear a s) s) v (pmem s)\<rparr>) = phys (linear addr s) s"
  using walk_unchanged [of "phys (linear a s) s AND NOT 3" "linear addr s" s] assms
  by (simp_all add: readable_def off_walk_def Let_def set_byte_word)

section \<open>The pages of an area\<close>

primrec verify_pages :: "u32 list \<Rightarrow> 'a mm_state_scheme \<Rightarrow> ('a mm_state_scheme, unit) outcome" where
  "verify_pages [] s = Done () s"
| "verify_pages (p # ps) s = kbind (write_verify p s) (\<lambda>_ s. verify_pages ps s)"

definition pages_from :: "u32 \<Rightarrow> nat \<Rightarrow> u32 list" where
  "pages_from start n = map (\<lambda>i. start + 4096 * of_nat i) [0..<n]"

lemma pages_from_Suc: "pages_from start (Suc n) = start # pages_from (start + 4096) n"
  by (simp add: pages_from_def upt_conv_Cons map_Suc_upt [symmetric] distrib_left algebra_simps
      del: upt_Suc)

lemma verify_loop_pages:
  "verify_loop start len s = verify_pages (pages_from start (nat ((sint len + 4095) div 4096))) s"
proof (induction start len s rule: verify_loop.induct)
  case (1 start len s)
  show ?case
  proof (cases "sint len > 0")
    case True
    then have "sint (len - 4096) = sint len - 4096"
      using sint_range [of len] by (subst sint_minus) simp_all
    then have "nat ((sint len + 4095) div 4096) = Suc (nat ((sint (len - 4096) + 4095) div 4096))"
      using True by linarith
    then show ?thesis using 1 [OF True] by (simp add: verify_loop.simps [of start] True pages_from_Suc cong: kbind_cong)
  next
    case False
    then have "nat ((sint len + 4095) div 4096) = 0" by linarith
    with False show ?thesis by (simp add: verify_loop.simps [of start] pages_from_def)
  qed
qed

lemma pages_nat: "k = int m \<Longrightarrow> nat ((k + 4095) div 4096) = (m + 4095) div 4096"
  by (simp add: nat_div_distrib nat_add_distrib)

lemma page_of_mod: "page_of p = p \<longleftrightarrow> unat p mod 4096 = 0"
proof -
  have "page_of p = p \<longleftrightarrow> unat (p AND mask 12) = 0" by (simp only: page_of_iff desc_masks unat_eq_0)
  then show ?thesis by (simp only: unat_and_mask) simp
qed

lemma page_of_aligned: "page_of p = p \<Longrightarrow> page_of (p + 4096 * x) = p + 4096 * x"
proof -
  assume "page_of p = p"
  then have p: "unat p mod 4096 = 0" by (simp only: page_of_mod)
  have "unat (p + 4096 * x) mod 4096 = (unat p + 4096 * unat x mod 2 ^ 32) mod 2 ^ 32 mod 4096"
    by (simp add: unat_word_ariths)
  also have "\<dots> = (unat p + 4096 * unat x mod 2 ^ 32) mod 4096" by (rule mod_mod_cancel) simp
  also have "\<dots> = (unat p mod 4096 + 4096 * unat x mod 2 ^ 32 mod 4096) mod 4096" by (simp only: mod_add_eq)
  also have "4096 * unat x mod 2 ^ 32 mod 4096 = 4096 * unat x mod 4096" by (rule mod_mod_cancel) simp
  finally show ?thesis unfolding page_of_mod using p by simp
qed

lemma page_of_plus:
  assumes "page_of p = p" "m < 2 ^ 32"
  shows "page_of (p + of_nat m) = p + 4096 * of_nat (m div 4096)"
proof -
  have "(of_nat m :: u32) = of_nat (4096 * (m div 4096) + m mod 4096)" by simp
  then have "p + of_nat m = (p + 4096 * of_nat (m div 4096)) + of_nat (m mod 4096)"
    by (simp only: of_nat_add of_nat_mult) simp
  moreover have "unat (of_nat (m mod 4096) :: u32) < 4096" by (subst unat_of_nat_u32) simp_all
  ultimately show ?thesis
    using page_of_entry(1) [OF page_of_aligned [OF assms(1)], of "of_nat (m mod 4096)"] by (simp only:)
qed

lemma area_pages:
  assumes "0 < n" "n \<le> 0x7fffe000"
  shows "(\<lambda>j. page_of (addr + of_nat j)) ` {0..<n} =
    set (pages_from (page_of addr) ((unat (addr AND 0xfff) + n + 4095) div 4096))"
proof -
  let ?o = "unat (addr AND 0xfff)" and ?p = "page_of addr"
  have o: "?o < 4096" by (simp only: desc_masks unat_and_mask) simp
  have addr: "addr = ?p + of_nat ?o" by (simp add: page_of_offset)
  have step: "page_of (addr + of_nat j) = ?p + 4096 * of_nat ((?o + j) div 4096)" if "j < n" for j
  proof -
    have "addr + of_nat j = ?p + of_nat (?o + j)" by (subst (1) addr) simp
    moreover have "page_of (?p + of_nat (?o + j)) = ?p + 4096 * of_nat ((?o + j) div 4096)"
      using that assms(2) o by (intro page_of_plus) simp_all
    ultimately show ?thesis by (simp only:)
  qed
  have "(\<lambda>j. (?o + j) div 4096) ` {0..<n} = {0..<(?o + n + 4095) div 4096}"
  proof (intro equalityI subsetI)
    fix i assume "i \<in> {0..<(?o + n + 4095) div 4096}"
    then have i: "4096 * i < ?o + n" by simp
    let ?j = "if i = 0 then 0 else 4096 * i - ?o"
    have "?j < n" "(?o + ?j) div 4096 = i" using i o assms(1) by auto
    then show "i \<in> (\<lambda>j. (?o + j) div 4096) ` {0..<n}" by force
  next
    fix i assume "i \<in> (\<lambda>j. (?o + j) div 4096) ` {0..<n}"
    then obtain j where "j < n" "i = (?o + j) div 4096" by auto
    then show "i \<in> {0..<(?o + n + 4095) div 4096}" by simp
  qed
  then have "set (pages_from ?p ((?o + n + 4095) div 4096)) = (\<lambda>i. ?p + 4096 * of_nat i) ` (\<lambda>j. (?o + j) div 4096) ` {0..<n}"
    by (simp add: pages_from_def)
  also have "\<dots> = (\<lambda>j. page_of (addr + of_nat j)) ` {0..<n}"
    unfolding image_image by (rule image_cong) (simp_all add: step)
  finally show ?thesis ..
qed

section \<open>Properties\<close>

text \<open>The descriptor macros are inverse to each other. set_base is read back by get_base and leaves the
  limit, set_limit leaves the base and, in a descriptor that counts in pages and for a whole number of
  pages, is read back by lsl; the descriptors of a task's TSS and LDT have the base given.\<close>

theorem descriptors_round_trip:
  "get_base (set_base b d) = b \<and> lsl (set_base b d) = lsl d \<and> get_base (set_limit l d) = get_base d \<and>
   (bit (desc_b d) 23 \<and> l AND 0xfff = 0 \<longrightarrow> lsl (set_limit l d) + 1 = l) \<and>
   get_base (set_tss_desc b) = b \<and> get_base (set_ldt_desc b) = b"
  using get_base_set_base lsl_set_base get_base_set_limit lsl_set_limit [of d l]
  by (simp add: set_tss_desc_def set_ldt_desc_def get_base_tssldt)

theorem descriptors_round_trip_witness:
  "lsl (set_limit 0xa0000 \<lparr>desc_a = 0x9f, desc_b = 0xc0fa00\<rparr>) + 1 = 0xa0000 \<and>
   get_base (set_base 0x4000000 \<lparr>desc_a = 0x9f, desc_b = 0xc0fa00\<rparr>) = 0x4000000"
  using descriptors_round_trip [where b = "0x4000000" and d = "\<lparr>desc_a = 0x9f, desc_b = 0xc0fa00\<rparr>" and l = "0xa0000"]
  by (simp add: bit_numeral_rec bit_simps)

text \<open>A byte put through the fs segment into a page that is present is read back at its address and at
  every other address of the task that is mapped to the same byte, every other byte reads as before, and
  the page tables and frame counts stay as they are, whether the page is writable or not: a write by
  the kernel into a page shared copy-on-write changes it for all who share it.\<close>

theorem put_fs_byte_stores:
  assumes "readable addr s" "off_walk addr addr s"
  shows "\<exists>t. put_fs_byte v addr s = Done () t \<and> get_fs_byte addr t = Done v t \<and> mem_map t = mem_map s \<and>
    pmem t (pte_addr (linear addr s) s) = pmem s (pte_addr (linear addr s) s) \<and>
    (\<forall>b. readable b s \<and> off_walk addr b s \<longrightarrow> get_fs_byte b t =
      Done (if phys (linear b s) s = phys (linear addr s) s then v else byte_at (pmem s) (phys (linear b s) s)) t)"
proof -
  let ?p = "phys (linear addr s) s"
  let ?t = "s\<lparr>pmem := set_byte ?p v (pmem s)\<rparr>"
  have "pmem ?t (pte_addr (linear addr s) s) = pmem s (pte_addr (linear addr s) s)"
  proof -
    have "pte_addr (linear addr s) s \<noteq> ?p AND NOT 3" using assms(2) unfolding off_walk_def Let_def by metis
    from set_byte_word [OF this] show ?thesis by (subst pmem_update)
  qed
  moreover have "get_fs_byte b ?t = Done (if phys (linear b s) s = ?p then v else byte_at (pmem s) (phys (linear b s) s)) ?t"
    if "readable b s" "off_walk addr b s" for b
    using that readable_put [of addr b s v] by (simp add: get_fs_byte_readable byte_at_other)
  ultimately show ?thesis
    using put_fs_byte_readable [OF assms(1), of v] assms by (intro exI [of _ ?t]) simp
qed

text \<open>A task whose third page is mapped, read only, to the frame at 2 megabytes.\<close>

definition read_only_page :: mm_state where
  "read_only_page = mm_boot\<lparr>pmem := (\<lambda>_. 0)(0 := 0x5007, 0x5008 := 0x200005)\<rparr>"

lemma read_only_page_walk:
  "linear 0x2345 read_only_page = 0x2345" "dir_entry 0x2345 = 0" "pte_addr 0x2345 read_only_page = 0x5008"
  "phys 0x2345 read_only_page = 0x200345" "readable 0x2345 read_only_page"
  by (simp_all add: read_only_page_def linear_def get_base_def dir_entry_def pte_addr_def phys_def readable_def
      present_def lsl_def mm_boot_def sched_boot_def INIT_TASK_def sched_state.defs mm_state.defs bit_numeral_rec)

theorem put_fs_byte_stores_witness:
  "\<exists>t. put_fs_byte 65 0x2345 read_only_page = Done () t \<and> get_fs_byte 0x2345 t = Done 65 t"
proof -
  have "off_walk 0x2345 0x2345 read_only_page" by (simp add: off_walk_def read_only_page_walk Let_def)
  from put_fs_byte_stores [OF read_only_page_walk(5) this, of 65] show ?thesis by auto
qed

text \<open>C33: verify_area prepares an area of at least one and at most 0x7fffe000 bytes for writing: exactly the pages that
  hold a byte of the area, each once, first the page of the first byte and then each time the page that follows,
  at their linear addresses.\<close>

theorem verify_area_covers:
  assumes "0 < unat n" "unat n \<le> 0x7fffe000" "base = get_base (t_ldt (cur s) ! 2)"
  shows "\<exists>ps. verify_area addr n s = verify_pages (map (\<lambda>p. p + base) ps) s \<and>
    set ps = (\<lambda>j. page_of (addr + of_nat j)) ` {0..<unat n} \<and> distinct ps \<and>
    (\<forall>i < length ps. ps ! i = page_of addr + 4096 * of_nat i)"
proof -
  let ?o = "unat (addr AND 0xfff)"
  let ?k = "(?o + unat n + 4095) div 4096"
  let ?ps = "pages_from (page_of addr) ?k"
  have o: "?o < 4096" by (simp only: desc_masks unat_and_mask) simp
  have "sint (n + (addr AND 0xfff)) = int (unat n + ?o)"
  proof -
    have "n + (addr AND 0xfff) = word_of_int (int (unat n + ?o))" by (simp add: word_of_int_eq_iff flip: uint_nat)
    then show ?thesis by (simp only:) (rule sint_of_int; use o assms(2) in linarith)
  qed
  then have k: "nat ((sint (n + (addr AND 0xfff)) + 4095) div 4096) = ?k"
    unfolding add.commute [of ?o] by (rule pages_nat)
  have "verify_area addr n s = verify_pages (pages_from (page_of addr + base) ?k) s"
    unfolding verify_area_def verify_loop_pages k assms(3) page_of_def ..
  also have "pages_from (page_of addr + base) ?k = map (\<lambda>p. p + base) ?ps"
    by (simp add: pages_from_def algebra_simps)
  finally have "verify_area addr n s = verify_pages (map (\<lambda>p. p + base) ?ps) s" .
  moreover have "set ?ps = (\<lambda>j. page_of (addr + of_nat j)) ` {0..<unat n}"
    using area_pages [OF assms(1,2)] by simp
  moreover have "distinct ?ps"
  proof -
    have "unat (4096 * of_nat i :: u32) = 4096 * i" if "i < ?k" for i
      using unat_of_nat_u32 [of "4096 * i"] that o assms(2) by simp
    then have "inj_on (\<lambda>i. page_of addr + 4096 * of_nat i) {0..<?k}"
      by (intro inj_onI) (metis add_left_cancel atLeastLessThan_iff mult_left_cancel zero_neq_numeral)
    then show ?thesis by (simp add: pages_from_def distinct_map)
  qed
  moreover have "\<forall>i < length ?ps. ?ps ! i = page_of addr + 4096 * of_nat i" by (simp add: pages_from_def del: upt_Suc)
  ultimately show ?thesis by blast
qed

theorem verify_area_covers_witness:
  "\<exists>ps. verify_area 0x2ffe 4 read_only_page = verify_pages (map (\<lambda>p. p + 0) ps) read_only_page \<and>
     set ps = {0x2000, 0x3000} \<and> ps ! 0 = 0x2000"
proof -
  have "get_base (t_ldt (cur read_only_page) ! 2) = 0"
    using read_only_page_walk(1) by (simp add: linear_def)
  from verify_area_covers [where n = 4 and base = 0 and s = read_only_page and addr = "0x2ffe", OF _ _ this [symmetric]]
  obtain ps where v: "verify_area 0x2ffe 4 read_only_page = verify_pages (map (\<lambda>p. p + 0) ps) read_only_page"
    "\<forall>i < length ps. ps ! i = page_of 0x2ffe + 4096 * of_nat i" and
    "set ps = (\<lambda>j. page_of (0x2ffe + of_nat j)) ` {0..<4}" by auto
  moreover have "{0..<4 :: nat} = {0, 1, 2, 3}" by auto
  then have "(\<lambda>j. page_of (0x2ffe + of_nat j)) ` {0..<4} = {0x2000, 0x3000}"
    by (auto simp: page_of_def)
  ultimately have "set ps = {0x2000, 0x3000}" by simp
  moreover from this have "0 < length ps" by (cases ps) auto
  ultimately have "ps ! 0 = 0x2000" using v(2) by (auto simp: page_of_def)
  with v(1) \<open>set ps = {0x2000, 0x3000}\<close> show ?thesis by blast
qed

end
