(* ===== verification/Span.thy ===== *)
theory Span
  imports User
begin

text \<open>
  Runs of bytes in the memory of the running task: what a loop of \<open>get_fs_byte\<close> or
  \<open>put_fs_byte\<close> reads and leaves when all the pages are present, no two addresses are the
  same byte of memory, and no byte is part of the page tables the accesses walk.
\<close>

definition user_bytes :: "u32 \<Rightarrow> nat \<Rightarrow> 'a mm_state_scheme \<Rightarrow> u8 list" where
  "user_bytes p n s = map (\<lambda>i. byte_at (pmem s) (phys (linear (p + of_nat i) s) s)) [0..<n]"

lemma user_bytes_Suc: "user_bytes p (Suc n) s = byte_at (pmem s) (phys (linear p s) s) # user_bytes (p + 1) n s"
  by (simp add: user_bytes_def upt_conv_Cons map_Suc_upt [symmetric] ac_simps del: upt_Suc)

lemma user_bytes_0 [simp]: "user_bytes p 0 s = []"
  by (simp add: user_bytes_def)

lemma length_user_bytes [simp]: "length (user_bytes p n s) = n"
  by (simp add: user_bytes_def)

lemma user_bytes_nth: "i < n \<Longrightarrow> user_bytes p n s ! i = byte_at (pmem s) (phys (linear (p + of_nat i) s) s)"
  by (simp add: user_bytes_def)

definition span :: "u32 \<Rightarrow> nat \<Rightarrow> 'a mm_state_scheme \<Rightarrow> bool" where
  "span a n s \<longleftrightarrow> (\<forall>i < n. readable (a + of_nat i) s) \<and>
     (\<forall>i < n. \<forall>j < n. off_walk (a + of_nat i) (a + of_nat j) s) \<and>
     (\<forall>i < n. \<forall>j < n. i \<noteq> j \<longrightarrow> phys (linear (a + of_nat i) s) s \<noteq> phys (linear (a + of_nat j) s) s)"

text \<open>The bytes of memory a run of addresses stands for.\<close>

definition frame_bytes :: "u32 \<Rightarrow> nat \<Rightarrow> 'a mm_state_scheme \<Rightarrow> u32 set" where
  "frame_bytes a n s = (\<lambda>i. phys (linear (a + of_nat i) s) s) ` {..<n}"

primrec put_bytes :: "u8 list \<Rightarrow> u32 \<Rightarrow> 'a mm_state_scheme \<Rightarrow> ('a mm_state_scheme, unit) outcome" where
  "put_bytes [] a s = Done () s"
| "put_bytes (v # vs) a s = kbind (put_fs_byte v a s) (\<lambda>_ s. put_bytes vs (a + 1) s)"

primrec get_bytes :: "nat \<Rightarrow> u32 \<Rightarrow> 'a mm_state_scheme \<Rightarrow> ('a mm_state_scheme, u8 list) outcome" where
  "get_bytes 0 a s = Done [] s"
| "get_bytes (Suc n) a s = kbind (get_fs_byte a s) (\<lambda>v s. kbind (get_bytes n (a + 1) s) (\<lambda>vs s. Done (v # vs) s))"

lemma get_bytes_readable:
  "\<forall>i < n. readable (a + of_nat i) s \<Longrightarrow> get_bytes n a s = Done (user_bytes a n s) s"
proof (induction n arbitrary: a)
  case (Suc n)
  have "readable a s" using Suc.prems spec [of _ 0] by force
  moreover have "\<forall>i < n. readable (a + 1 + of_nat i) s"
  proof (intro allI impI)
    fix i assume "i < n"
    then show "readable (a + 1 + of_nat i) s" using spec [OF Suc.prems, of "Suc i"] by (simp add: ac_simps)
  qed
  ultimately show ?case using Suc.IH [of "a + 1"] by (simp add: get_fs_byte_readable user_bytes_Suc)
qed simp

section \<open>The view of a task\<close>

text \<open>What a task sees of its memory depends on the frames, the page tables in them and its data descriptor.\<close>

definition same_view :: "'a mm_state_scheme \<Rightarrow> 'a mm_state_scheme \<Rightarrow> bool" where
  "same_view s t \<longleftrightarrow> pmem t = pmem s \<and> t_ldt (cur t) = t_ldt (cur s)"

lemma same_view_sym: "same_view s t \<Longrightarrow> same_view t s"
  by (simp add: same_view_def)

lemma same_view_trans: "same_view s t \<Longrightarrow> same_view t u \<Longrightarrow> same_view s u"
  by (simp add: same_view_def)

lemma same_view_walk:
  assumes "same_view s t"
  shows "linear a t = linear a s" "pte_addr l t = pte_addr l s" "phys l t = phys l s" "readable a t = readable a s"
    "off_walk a b t = off_walk a b s" "span a n t = span a n s" "user_bytes a n t = user_bytes a n s"
proof -
  show l: "linear a t = linear a s" for a using assms by (simp add: linear_def same_view_def)
  show p: "pte_addr l t = pte_addr l s" for l using assms by (simp add: pte_addr_def same_view_def)
  show f: "phys l t = phys l s" for l using assms p by (simp add: phys_def same_view_def)
  show r: "readable a t = readable a s" for a using assms l p by (simp add: readable_def present_def same_view_def)
  show o: "off_walk a b t = off_walk a b s" for a b by (simp add: off_walk_def l f p)
  show "span a n t = span a n s" by (simp add: span_def r o l f)
  show "user_bytes a n t = user_bytes a n s" using assms by (simp add: user_bytes_def l f same_view_def)
qed

section \<open>Writing a run\<close>

lemma walk_put:
  assumes "off_walk a b s"
  shows "pte_addr (linear b s) (s\<lparr>pmem := set_byte (phys (linear a s) s) v (pmem s)\<rparr>) = pte_addr (linear b s) s"
  by (rule walk_unchanged(1) [of "phys (linear a s) s AND NOT 3"])
    (use assms in \<open>simp_all add: off_walk_def Let_def set_byte_word\<close>)

lemma span_put:
  fixes v :: u8
  assumes "span a n s" "k < n"
    and t_def: "t = s\<lparr>pmem := set_byte (phys (linear (a + of_nat k) s) s) v (pmem s)\<rparr>"
  shows "span a n t" "\<And>i. i < n \<Longrightarrow> phys (linear (a + of_nat i) t) t = phys (linear (a + of_nat i) s) s"
proof -
  have off: "\<And>i j. i < n \<Longrightarrow> j < n \<Longrightarrow> off_walk (a + of_nat i) (a + of_nat j) s" using assms(1) by (simp add: span_def)
  have l: "linear b t = linear b s" for b by (simp add: t_def)
  show p: "phys (linear (a + of_nat i) t) t = phys (linear (a + of_nat i) s) s" if "i < n" for i
    unfolding l unfolding t_def by (rule readable_put(2) [OF off [OF assms(2) that]])
  have r: "readable (a + of_nat i) t = readable (a + of_nat i) s" if "i < n" for i
    unfolding t_def by (rule readable_put(1) [OF off [OF assms(2) that]])
  have w: "pte_addr (linear (a + of_nat j) t) t = pte_addr (linear (a + of_nat j) s) s" if "j < n" for j
    unfolding l unfolding t_def by (rule walk_put [OF off [OF assms(2) that]])
  have "off_walk (a + of_nat i) (a + of_nat j) t" if "i < n" "j < n" for i j
  proof -
    have d: "dir_entry (linear (a + of_nat j) t) = dir_entry (linear (a + of_nat j) s)" by (simp only: l)
    show ?thesis using off [OF that] unfolding off_walk_def Let_def p [OF that(1)] w [OF that(2)] d .
  qed
  moreover have "\<forall>i < n. readable (a + of_nat i) t" using assms(1) r by (simp add: span_def)
  moreover have "phys (linear (a + of_nat i) t) t \<noteq> phys (linear (a + of_nat j) t) t" if "i < n" "j < n" "i \<noteq> j" for i j
    using assms(1) that unfolding p [OF that(1)] p [OF that(2)] by (simp add: span_def)
  ultimately show "span a n t" by (simp add: span_def)
qed

text \<open>
  \<open>wrote a n k vs s t\<close>: within the run of \<open>n\<close> addresses from \<open>a\<close>, the bytes from the \<open>k\<close>th on are
  now \<open>vs\<close>, and no other byte of memory has changed.
\<close>

definition wrote :: "u32 \<Rightarrow> nat \<Rightarrow> nat \<Rightarrow> u8 list \<Rightarrow> 'a mm_state_scheme \<Rightarrow> 'a mm_state_scheme \<Rightarrow> bool" where
  "wrote a n k vs s t \<longleftrightarrow> span a n t \<and>
     (\<forall>i < n. phys (linear (a + of_nat i) t) t = phys (linear (a + of_nat i) s) s) \<and>
     (\<forall>i < length vs. byte_at (pmem t) (phys (linear (a + of_nat (k + i)) s) s) = vs ! i) \<and>
     (\<forall>x. (\<forall>i. k \<le> i \<and> i < k + length vs \<longrightarrow> x \<noteq> phys (linear (a + of_nat i) s) s) \<longrightarrow>
        byte_at (pmem t) x = byte_at (pmem s) x)"

lemma wrote_view:
  assumes "wrote a n k vs s t" "same_view s s'" "same_view t t'"
  shows "wrote a n k vs s' t'"
proof -
  have "pmem s' = pmem s" "pmem t' = pmem t" using assms(2,3) by (simp_all add: same_view_def)
  then show ?thesis using assms(1) unfolding wrote_def
    by (simp add: same_view_walk [OF assms(2)] same_view_walk [OF assms(3)])
qed

lemma wrote_nothing: "span a n s \<Longrightarrow> wrote a n k [] s s"
  by (simp add: wrote_def)

lemma wrote_one:
  assumes "span a n s" "k < n"
  shows "put_fs_byte v (a + of_nat k) s = Done () (s\<lparr>pmem := set_byte (phys (linear (a + of_nat k) s) s) v (pmem s)\<rparr>)"
    "wrote a n k [v] s (s\<lparr>pmem := set_byte (phys (linear (a + of_nat k) s) s) v (pmem s)\<rparr>)"
proof -
  obtain t where t: "t = s\<lparr>pmem := set_byte (phys (linear (a + of_nat k) s) s) v (pmem s)\<rparr>" by simp
  have "readable (a + of_nat k) s" using assms by (simp add: span_def)
  from put_fs_byte_readable [OF this, of v]
  show "put_fs_byte v (a + of_nat k) s = Done () (s\<lparr>pmem := set_byte (phys (linear (a + of_nat k) s) s) v (pmem s)\<rparr>)" .
  note sp = span_put [OF assms t]
  have pt: "pmem t = set_byte (phys (linear (a + of_nat k) s) s) v (pmem s)" by (simp add: t)
  have "byte_at (pmem t) x = byte_at (pmem s) x"
    if "\<forall>i. k \<le> i \<and> i < k + 1 \<longrightarrow> x \<noteq> phys (linear (a + of_nat i) s) s" for x
  proof -
    have "x \<noteq> phys (linear (a + of_nat k) s) s" using spec [OF that, of k] by simp
    then show ?thesis unfolding pt by (rule byte_at_other)
  qed
  moreover have "byte_at (pmem t) (phys (linear (a + of_nat k) s) s) = v" unfolding pt by simp
  ultimately show "wrote a n k [v] s (s\<lparr>pmem := set_byte (phys (linear (a + of_nat k) s) s) v (pmem s)\<rparr>)"
    unfolding t [symmetric] wrote_def using sp by simp
qed

lemma wrote_append:
  assumes s: "span a n s" and st: "wrote a n k vs s t" and tu: "wrote a n (k + length vs) ws t u"
    and n: "k + length vs + length ws \<le> n"
  shows "wrote a n k (vs @ ws) s u"
proof -
  let ?p = "\<lambda>i. phys (linear (a + of_nat i) s) s"
  have p: "phys (linear (a + of_nat i) t) t = ?p i" if "i < n" for i using st that by (simp add: wrote_def)
  have apart: "?p i \<noteq> ?p j" if "i < n" "j < n" "i \<noteq> j" for i j using s that by (simp add: span_def)
  have frame: "byte_at (pmem u) x = byte_at (pmem t) x"
    if "\<And>i. k + length vs \<le> i \<Longrightarrow> i < k + length vs + length ws \<Longrightarrow> x \<noteq> ?p i" for x
  proof -
    have "\<forall>i. k + length vs \<le> i \<and> i < k + length vs + length ws \<longrightarrow> x \<noteq> phys (linear (a + of_nat i) t) t"
      using that p n by (metis less_le_trans)
    then show ?thesis using tu unfolding wrote_def by blast
  qed
  have "byte_at (pmem u) (?p (k + i)) = (vs @ ws) ! i" if i: "i < length (vs @ ws)" for i
  proof (cases "i < length vs")
    case True
    have "?p (k + i) \<noteq> ?p j" if "k + length vs \<le> j" "j < k + length vs + length ws" for j
      by (rule apart) (use that True n in simp_all)
    from frame [OF this] have "byte_at (pmem u) (?p (k + i)) = byte_at (pmem t) (?p (k + i))" .
    with True st show ?thesis by (simp add: wrote_def nth_append)
  next
    case False
    then obtain j where j: "i = length vs + j" "j < length ws" using i by (metis add_diff_inverse_nat length_append nat_add_left_cancel_less)
    have "byte_at (pmem u) (phys (linear (a + of_nat (k + length vs + j)) t) t) = ws ! j"
      using tu j(2) unfolding wrote_def by blast
    moreover have "k + length vs + j < n" using j(2) n by simp
    note p [OF this]
    moreover have "k + i = k + length vs + j" "(vs @ ws) ! i = ws ! j" by (simp_all add: j(1) nth_append)
    ultimately show ?thesis by (simp only:)
  qed
  moreover have "byte_at (pmem u) x = byte_at (pmem s) x"
    if x: "\<forall>i. k \<le> i \<and> i < k + length (vs @ ws) \<longrightarrow> x \<noteq> ?p i" for x
  proof -
    have "byte_at (pmem u) x = byte_at (pmem t) x" by (rule frame) (use x in simp)
    also have "\<forall>i. k \<le> i \<and> i < k + length vs \<longrightarrow> x \<noteq> ?p i" using x by simp
    then have "byte_at (pmem t) x = byte_at (pmem s) x" using st unfolding wrote_def by blast
    finally show ?thesis .
  qed
  moreover have "\<forall>i < n. phys (linear (a + of_nat i) u) u = ?p i" using st tu by (simp add: wrote_def)
  moreover have "span a n u" using tu by (simp add: wrote_def)
  ultimately show ?thesis unfolding wrote_def by blast
qed

lemma put_bytes_wrote:
  "span a n s \<Longrightarrow> k + length vs \<le> n \<Longrightarrow>
     \<exists>m. put_bytes vs (a + of_nat k) s = Done () (s\<lparr>pmem := m\<rparr>) \<and> wrote a n k vs s (s\<lparr>pmem := m\<rparr>)"
proof (induction vs arbitrary: k s)
  case Nil
  then show ?case by (intro exI [of _ "pmem s"]) (simp add: wrote_nothing)
next
  case (Cons v vs)
  have k: "k < n" using Cons.prems(2) by simp
  note one = wrote_one [OF Cons.prems(1) k, of v]
  obtain m1 where m1: "m1 = set_byte (phys (linear (a + of_nat k) s) s) v (pmem s)" by simp
  note one = one [folded m1]
  have "span a n (s\<lparr>pmem := m1\<rparr>)" using one(2) by (simp add: wrote_def)
  from Cons.IH [OF this, of "Suc k"] Cons.prems(2) obtain m
    where m: "put_bytes vs (a + of_nat (Suc k)) (s\<lparr>pmem := m1\<rparr>) = Done () (s\<lparr>pmem := m\<rparr>)"
      "wrote a n (Suc k) vs (s\<lparr>pmem := m1\<rparr>) (s\<lparr>pmem := m\<rparr>)" by auto
  have "wrote a n k ([v] @ vs) s (s\<lparr>pmem := m\<rparr>)"
    by (rule wrote_append [OF Cons.prems(1) one(2)]) (use m(2) Cons.prems(2) in simp_all)
  moreover have "put_bytes (v # vs) (a + of_nat k) s = Done () (s\<lparr>pmem := m\<rparr>)"
    using one(1) m(1) by (simp add: ac_simps)
  ultimately show ?case by auto
qed

lemma wrote_all:
  assumes "wrote a (length vs) 0 vs s t"
  shows "user_bytes a (length vs) t = vs" "x \<notin> frame_bytes a (length vs) s \<Longrightarrow> byte_at (pmem t) x = byte_at (pmem s) x"
proof -
  show "user_bytes a (length vs) t = vs"
    by (rule nth_equalityI) (use assms in \<open>simp_all add: user_bytes_nth wrote_def\<close>)
  show "byte_at (pmem t) x = byte_at (pmem s) x" if "x \<notin> frame_bytes a (length vs) s"
    using assms that by (auto simp: wrote_def frame_bytes_def)
qed

lemma put_bytes_span:
  assumes "span a (length vs) s"
  shows "\<exists>m. put_bytes vs a s = Done () (s\<lparr>pmem := m\<rparr>) \<and> span a (length vs) (s\<lparr>pmem := m\<rparr>) \<and>
    user_bytes a (length vs) (s\<lparr>pmem := m\<rparr>) = vs \<and>
    (\<forall>x. x \<notin> frame_bytes a (length vs) s \<longrightarrow> byte_at m x = byte_at (pmem s) x)"
proof -
  obtain m where m: "put_bytes vs a s = Done () (s\<lparr>pmem := m\<rparr>)" "wrote a (length vs) 0 vs s (s\<lparr>pmem := m\<rparr>)"
    using put_bytes_wrote [OF assms, of 0 vs] by auto
  with wrote_all [OF m(2)] show ?thesis by (intro exI [of _ m]) (simp add: wrote_def)
qed

section \<open>Long words\<close>

definition bytes32 :: "u32 \<Rightarrow> u8 list" where
  "bytes32 v = [ucast v, ucast (drop_bit 8 v), ucast (drop_bit 16 v), ucast (drop_bit 24 v)]"

definition word32 :: "u8 list \<Rightarrow> u32" where
  "word32 b = ucast (b ! 0) OR push_bit 8 (ucast (b ! 1)) OR push_bit 16 (ucast (b ! 2)) OR push_bit 24 (ucast (b ! 3))"

lemma length_bytes32 [simp]: "length (bytes32 v) = 4"
  by (simp add: bytes32_def)

lemma word32_bytes32 [simp]: "word32 (bytes32 v) = v"
  unfolding word32_def bytes32_def by (rule field_eqI) (auto simp: bit_simps)

lemma kbind_unit: "kbind m Done = m"
  by (cases m) simp_all

lemma put_fs_long_bytes: "put_fs_long v a s = put_bytes (bytes32 v) a s"
proof -
  have "ucast (ucast v :: u16) = (ucast v :: u8)" "ucast (drop_bit 8 (ucast v :: u16)) = (ucast (drop_bit 8 v) :: u8)"
    "ucast (ucast (drop_bit 16 v) :: u16) = (ucast (drop_bit 16 v) :: u8)"
    "ucast (drop_bit 8 (ucast (drop_bit 16 v) :: u16)) = (ucast (drop_bit 24 v) :: u8)"
    by (rule bit_word_eqI, auto simp: bit_simps less_diff_conv)+
  then show ?thesis
    by (simp add: put_fs_long_def put_fs_word_def bytes32_def kbind_assoc kbind_unit ac_simps)
qed

lemma put_bytes_append:
  "put_bytes (xs @ ys) a s = kbind (put_bytes xs a s) (\<lambda>_ s. put_bytes ys (a + of_nat (length xs)) s)"
  by (induction xs arbitrary: a s) (simp_all add: kbind_assoc ac_simps)

lemma user_bytes_append: "user_bytes a (m + n) s = user_bytes a m s @ user_bytes (a + of_nat m) n s"
  by (induction m arbitrary: a) (simp_all add: user_bytes_Suc ac_simps)

lemma get_fs_long_bytes:
  assumes "\<forall>i < 4. readable (a + of_nat i) s"
  shows "get_fs_long a s = Done (word32 (user_bytes a 4 s)) s"
proof -
  have r: "readable a s" "readable (a + 1) s" "readable (a + 2) s" "readable (a + 3) s"
    using spec [OF assms, of 0] spec [OF assms, of 1] spec [OF assms, of 2] spec [OF assms, of 3] by simp_all
  let ?b = "\<lambda>p. byte_at (pmem s) (phys (linear p s) s)"
  have u: "user_bytes a 4 s = [?b a, ?b (a + 1), ?b (a + 2), ?b (a + 3)]"
  proof -
    have "[0 ..< 4] = [0 :: nat, 1, 2, 3]" by (simp add: upt_rec)
    then show ?thesis unfolding user_bytes_def by simp
  qed
  have j: "ucast (ucast w OR push_bit 8 (ucast x) :: u16) OR push_bit 16 (ucast (ucast y OR push_bit 8 (ucast z) :: u16)) =
      (ucast w OR push_bit 8 (ucast x) OR push_bit 16 (ucast y) OR push_bit 24 (ucast z) :: u32)" for w x y z :: u8
    by (rule bit_word_eqI) (auto simp: bit_simps bit_past8 less_diff_conv not_less)
  show ?thesis unfolding u
    by (simp add: get_fs_long_def get_fs_word_def get_fs_byte_readable r word32_def j add.assoc)
qed

text \<open>A run of long words, as the bytes of the run.\<close>

lemma span_part: "span a n s \<Longrightarrow> k + m \<le> n \<Longrightarrow> \<forall>i < m. readable (a + of_nat k + of_nat i) s"
proof (intro allI impI)
  fix i assume "span a n s" "k + m \<le> n" "i < m"
  then have "readable (a + of_nat (k + i)) s" unfolding span_def by (meson add_less_cancel_left less_le_trans)
  then show "readable (a + of_nat k + of_nat i) s" by (simp add: add.assoc)
qed

lemma longs_of_bytes:
  assumes "span a (4 * length vs) s" "user_bytes a (4 * length vs) s = concat (map bytes32 vs)" "i < length vs"
  shows "get_fs_long (a + 4 * of_nat i) s = Done (vs ! i) s"
proof -
  have r: "\<forall>j < 4. readable (a + of_nat (4 * i) + of_nat j) s"
    by (rule span_part [OF assms(1)]) (use assms(3) in simp)
  have "take 4 (drop (4 * i) (concat (map bytes32 vs))) = bytes32 (vs ! i)" using assms(3)
  proof (induction vs arbitrary: i)
    case (Cons v vs)
    then show ?case by (cases i) simp_all
  qed simp
  moreover have "take 4 (drop (4 * i) (user_bytes a (4 * length vs) s)) = user_bytes (a + of_nat (4 * i)) 4 s"
  proof -
    have n: "4 * length vs = 4 * i + (4 + (4 * length vs - 4 * i - 4))" using assms(3) by simp
    show ?thesis unfolding arg_cong [where f = "\<lambda>k. user_bytes a k s", OF n] user_bytes_append by simp
  qed
  ultimately have "user_bytes (a + of_nat (4 * i)) 4 s = bytes32 (vs ! i)" using assms(2) by simp
  with get_fs_long_bytes [OF r] have "get_fs_long (a + of_nat (4 * i)) s = Done (vs ! i) s" by simp
  then show ?thesis by simp
qed

lemma span_0 [simp]: "span a 0 s"
  by (simp add: span_def)

section \<open>A page of a task\<close>

text \<open>The task's page at 0x2000 is writable and lies in the frame at 2 megabytes.\<close>

definition one_page :: "'a mm_state_scheme \<Rightarrow> bool" where
  "one_page s \<longleftrightarrow> pmem s 0 = 0x5007 \<and> pmem s 0x5008 = 0x200007 \<and>
     get_base (t_ldt (cur s) ! 2) = 0 \<and> 0x2fff \<le> lsl (t_ldt (cur s) ! 2)"

definition user_page :: mm_state where
  "user_page = mm_boot\<lparr>pmem := (\<lambda>_. 0)(0 := 0x5007, 0x5008 := 0x200007)\<rparr>"

lemma page_index: "drop_bit 10 (a :: u32) AND 0xffc = push_bit 2 (drop_bit 12 a AND 0x3ff)"
proof -
  have m: "(0xffc :: u32) = push_bit 2 (mask 10)" "(0x3ff :: u32) = mask 10" by (simp_all add: mask_eq_exp_minus_1)
  show ?thesis unfolding m by (rule bit_word_eqI) (auto simp: bit_simps)
qed

lemma in_third_page:
  assumes "0x2000 \<le> unat (a :: u32)" "unat a < 0x3000"
  shows "dir_entry a = 0" "drop_bit 10 a AND 0xffc = 8"
proof -
  have "unat (drop_bit 20 a) = 0" "unat (drop_bit 12 a) = 2" using assms by (simp_all add: drop_bit_eq_div unat_div)
  then have d: "drop_bit 20 a = 0" "drop_bit 12 a = 2" by (simp_all add: word_unat_eq_iff)
  show "dir_entry a = 0" by (simp add: dir_entry_def d)
  show "drop_bit 10 a AND 0xffc = 8" unfolding page_index d by simp
qed

lemma one_page_walk:
  assumes "one_page s" "0x2000 \<le> unat a" "unat a < 0x3000"
  shows "linear a s = a" "pte_addr a s = 0x5008" "readable a s" "phys a s = 0x200000 + (a AND 0xfff)"
proof -
  show l: "linear a s = a" using assms(1) by (simp add: linear_def one_page_def)
  show p: "pte_addr a s = 0x5008" using assms in_third_page [OF assms(2,3)] by (simp add: pte_addr_def one_page_def)
  show "phys a s = 0x200000 + (a AND 0xfff)" using assms(1) p by (simp add: phys_def one_page_def)
  have "a \<le> 0x2fff" using assms(3) by (simp add: word_le_nat_alt)
  then show "readable a s"
    using assms(1) p in_third_page [OF assms(2,3)] unfolding readable_def present_def l one_page_def
    by (auto intro: order_trans)
qed

lemma drop_aligned: "drop_bit 2 ((p :: u32) AND NOT 3) = drop_bit 2 p"
proof (unfold desc_masks, rule bit_word_eqI)
  fix n
  show "bit (drop_bit 2 (p AND NOT (mask 2))) n = bit (drop_bit 2 p) n"
    using bit_past [of "n + 2" p] by (cases "n < 30") (auto simp: bit_simps)
qed

lemma third_page_mod: "8192 \<le> x \<Longrightarrow> x < 12288 \<Longrightarrow> x mod 4096 = x - (8192 :: nat)"
proof -
  assume x: "8192 \<le> x" "x < 12288"
  have "(2 * 4096 + (x - 8192)) mod 4096 = (x - 8192) mod 4096" by (rule mod_mult_self3)
  with x show ?thesis by simp
qed

lemma high_frame:
  assumes "unat c < 0x200000"
  shows "(0x200000 + ((a :: u32) AND 0xfff)) AND NOT 3 \<noteq> c"
proof
  assume eq: "(0x200000 + (a AND 0xfff)) AND NOT 3 = c"
  have q: "unat (drop_bit 2 p) = unat p div 4" for p :: u32 by (simp add: drop_bit_eq_div unat_div)
  have "unat (a AND 0xfff) < 4096" using unat_and_mask [of a 12] unfolding desc_masks by simp
  then have "unat (0x200000 + (a AND 0xfff)) = 0x200000 + unat (a AND 0xfff)"
    by (subst unat_add_lem [THEN iffD1]) simp_all
  moreover from eq have "drop_bit 2 (0x200000 + (a AND 0xfff)) = drop_bit 2 c" using drop_aligned by metis
  then have "unat (drop_bit 2 (0x200000 + (a AND 0xfff))) = unat (drop_bit 2 c)" by (rule arg_cong)
  then have "unat (0x200000 + (a AND 0xfff)) div 4 = unat c div 4" unfolding q .
  moreover have "0x200000 div 4 \<le> (0x200000 + unat (a AND 0xfff)) div 4" by (rule div_le_mono) simp
  moreover have "unat c div 4 < 0x80000" using assms by (simp add: less_mult_imp_div_less)
  ultimately show False by simp
qed

lemma one_page_span:
  assumes "one_page s" "0x2000 \<le> unat a" "unat a + n \<le> 0x3000"
  shows "span a n s"
proof -
  have u: "unat (a + of_nat i) = unat a + i" if "i < n" for i
    using that assms(2,3) by (subst unat_add_lem [THEN iffD1]) (simp_all add: unat_of_nat take_bit_eq_mod)
  have w: "0x2000 \<le> unat (a + of_nat i)" "unat (a + of_nat i) < 0x3000" if "i < n" for i
    using u [OF that] that assms(2,3) by simp_all
  note walk = one_page_walk [OF assms(1) w] and dir = in_third_page(1) [OF w]
  have "off_walk (a + of_nat i) (a + of_nat j) s" if "i < n" "j < n" for i j
    unfolding off_walk_def Let_def walk(1) [OF that(1) that(1)] walk(1) [OF that(2) that(2)]
        walk(4) [OF that(1) that(1)] walk(2) [OF that(2) that(2)] dir [OF that(2) that(2)]
    by (intro conjI high_frame) simp_all
  moreover have "phys (linear (a + of_nat i) s) s \<noteq> phys (linear (a + of_nat j) s) s" if "i < n" "j < n" "i \<noteq> j" for i j
  proof
    assume eq: "phys (linear (a + of_nat i) s) s = phys (linear (a + of_nat j) s) s"
    then have "(a + of_nat i) AND 0xfff = (a + of_nat j) AND 0xfff"
      unfolding walk(1) [OF that(1) that(1)] walk(1) [OF that(2) that(2)] walk(4) [OF that(1) that(1)] walk(4) [OF that(2) that(2)] by simp
    then have "unat (a + of_nat i) mod 4096 = unat (a + of_nat j) mod 4096"
      using unat_and_mask [of "a + of_nat i" 12] unat_and_mask [of "a + of_nat j" 12] unfolding desc_masks by simp
    then have "unat a + i = unat a + j" using w [OF that(1)] w [OF that(2)] u [OF that(1)] u [OF that(2)]
      third_page_mod [of "unat (a + of_nat i)"] third_page_mod [of "unat (a + of_nat j)"] by linarith
    with that(3) show False by simp
  qed
  ultimately show ?thesis using walk(3) by (simp add: span_def)
qed

lemma one_page_verify:
  assumes "one_page s" "a AND 0xfffff000 = 0x2000" "0 < sint (n + (a AND 0xfff))" "sint (n + (a AND 0xfff)) \<le> 4096"
  shows "verify_area a n s = Done () s"
proof -
  have "sint (n + (a AND 0xfff) - 4096) = sint (n + (a AND 0xfff)) - 4096"
    using assms(3,4) by (subst sint_minus) simp_all
  then have z: "\<not> 0 < sint (n + (a AND 0xfff) - 4096)" using assms(4) by simp
  have "get_base (t_ldt (cur s) ! 2) = 0" "pmem s 0 = 0x5007" "pmem s 0x5008 = 0x200007"
    using assms(1) by (simp_all add: one_page_def)
  moreover have "dir_entry 0x2000 = 0" by (simp add: dir_entry_def)
  ultimately have "write_verify 0x2000 s = Done () s" by (simp add: write_verify_def)
  moreover have "verify_loop b (n + (a AND 0xfff) - 4096) s = Done () s" for b
    using z by (subst verify_loop.simps) simp
  ultimately show ?thesis
    using assms(2,3) \<open>get_base (t_ldt (cur s) ! 2) = 0\<close> unfolding verify_area_def by (subst verify_loop.simps) simp
qed

end
