(* ===== verification/Filedata.thy ===== *)
theory Filedata
  imports Inode_Frame Span
begin

text \<open>
  The bytes of a file as its blocks in the cache hold them, and how a block of a file is read without
  sleeping: the common ground of the directory search and of \<open>file_read\<close>.
\<close>

section \<open>Blocks of a file in the cache\<close>

text \<open>
  Block \<open>j\<close> of the inode \<open>x\<close> is missing or lies in buffer \<open>bf j\<close>, and the indirect blocks on
  the way to it are in the cache too.
\<close>

definition at_hand_block :: "(u16 \<Rightarrow> nat) \<Rightarrow> (nat \<Rightarrow> nat) \<Rightarrow> 'a fs_state_scheme \<Rightarrow> m_inode \<Rightarrow> nat \<Rightarrow> bool" where
  "at_hand_block at bf s x j \<longleftrightarrow> j < 7 + 512 + 512 * 512 \<and>
     (\<forall>z \<in> indirects at s x j. in_cache (ucast (i_dev x)) (ucast z) (at z) s) \<and>
     (zone_of at s x j \<noteq> 0 \<longrightarrow> in_cache (ucast (i_dev x)) (ucast (zone_of at s x j)) (bf j) s)"

definition file_byte :: "(u16 \<Rightarrow> nat) \<Rightarrow> (nat \<Rightarrow> nat) \<Rightarrow> 'a fs_state_scheme \<Rightarrow> m_inode \<Rightarrow> nat \<Rightarrow> u8" where
  "file_byte at bf s x k =
     (if zone_of at s x (k div 1024) = 0 then 0
      else bmem s (b_data (bufs s (bf (k div 1024))) + of_nat (k mod 1024)))"

lemma tables_cong:
  assumes "same_tables s t"
  shows "entry t = entry s" "zone_of at t = zone_of at s" "indirects at t = indirects at s"
    "in_cache d z b t = in_cache d z b s" "at_hand_block at bf t = at_hand_block at bf s"
    "file_byte at bf t = file_byte at bf s"
proof -
  show e: "entry t = entry s" using assms by (intro ext) (simp add: entry_def same_tables_def)
  show z: "zone_of at t = zone_of at s" by (intro ext) (simp only: zone_of_def e)
  show i: "indirects at t = indirects at s" by (intro ext) (simp only: indirects_def e)
  show c: "in_cache d z b t = in_cache d z b s" for d z b using assms by (simp add: in_cache_def same_tables_def)
  show "at_hand_block at bf t = at_hand_block at bf s" by (intro ext) (simp add: at_hand_block_def z i c)
  show "file_byte at bf t = file_byte at bf s" using assms by (intro ext) (simp add: file_byte_def z same_tables_def)
qed

lemma only_woken_view: "only_woken s t \<Longrightarrow> same_view s t"
  by (simp add: same_view_def only_wokenD)

text \<open>\<open>bmap\<close> and, when there is a block, \<open>bread\<close>: the buffer is held once more.\<close>

abbreviation (input) hold :: "nat \<Rightarrow> 'a fs_state_scheme \<Rightarrow> 'a fs_state_scheme" where
  "hold b s \<equiv> bupd b (\<lambda>h. h\<lparr>b_count := b_count h + 1\<rparr>) s"

lemma read_file_block:
  assumes "cache_wf s" "x = inode_table s ! i" "i_dev x \<noteq> 0" "at_hand_block at bf s x j"
  shows "\<exists>t. bmap env i (of_nat j) s = Done (ucast (zone_of at s x j)) t \<and> only_woken s t \<and> cache_wf t \<and>
    (zone_of at s x j \<noteq> 0 \<longrightarrow>
      bread env (ucast (i_dev x)) (ucast (zone_of at s x j)) t = Done (Some (bf j)) (hold (bf j) t) \<and>
      in_cache (ucast (i_dev x)) (ucast (zone_of at s x j)) (bf j) t)"
proof -
  have at: "\<forall>z \<in> indirects at s x j. in_cache (ucast (i_dev x)) (ucast z) (at z) s" and n: "j < 7 + 512 + 512 * 512"
    using assms(4) by (simp_all add: at_hand_block_def)
  obtain t where t: "bmap env i (of_nat j) s = Done (ucast (zone_of at s x j)) t" "only_woken s t"
    using bmap_is_zone_of [OF assms(1) n assms(2,3) at] by blast
  note same = only_woken_same_tables [OF t(2)]
  have wf: "cache_wf t" by (rule cache_wf_same_tables [OF assms(1) same])
  have "bread env (ucast (i_dev x)) (ucast (zone_of at s x j)) t = Done (Some (bf j)) (hold (bf j) t) \<and>
      in_cache (ucast (i_dev x)) (ucast (zone_of at s x j)) (bf j) t" if "zone_of at s x j \<noteq> 0"
  proof -
    have c: "in_cache (ucast (i_dev x)) (ucast (zone_of at s x j)) (bf j) t"
      using assms(4) that by (simp add: at_hand_block_def tables_cong [OF same])
    moreover have "is_dev (ucast (i_dev x) :: u32)" "(ucast (i_dev x) :: u32) \<noteq> 0" using assms(3) by simp_all
    ultimately show ?thesis using hold_block(1) [OF wf] by blast
  qed
  with t wf show ?thesis by blast
qed

section \<open>Counts of open files\<close>

text \<open>How many descriptors of the tasks in the table \<open>tk\<close> refer to entry \<open>f\<close> of the file table.\<close>

definition holders :: "nat \<Rightarrow> (u32 \<Rightarrow> task_struct) \<Rightarrow> u32 list \<Rightarrow> nat" where
  "holders f tm tk = (\<Sum>p \<leftarrow> tk. if p = 0 then 0 else count_list (t_filp (tm p)) (Some f))"

definition files_counted :: "'a fs_state_scheme \<Rightarrow> bool" where
  "files_counted s \<longleftrightarrow> (\<forall>f < length (file_table s). f_count (file_table s ! f) = of_nat (holders f (tmem s) (task s)))"

lemma holders_other: "q \<notin> set tk \<Longrightarrow> holders f (tm(q := x)) tk = holders f tm tk"
  unfolding holders_def by (rule arg_cong [where f = sum_list], rule map_cong) auto

lemma holders_cong: "(\<And>p. p \<in> set tk \<Longrightarrow> p \<noteq> 0 \<Longrightarrow> t_filp (tm p) = t_filp (tm' p)) \<Longrightarrow> holders f tm tk = holders f tm' tk"
  unfolding holders_def by (rule arg_cong [where f = sum_list], rule map_cong) auto

lemma sum_list_slot:
  "n < length xs \<Longrightarrow> sum_list (map g (xs[n := q])) + g (xs ! n) = sum_list (map g xs) + (g q :: nat)"
proof (induction xs arbitrary: n)
  case (Cons x xs)
  then show ?case by (cases n) (auto simp: algebra_simps)
qed simp

lemma holders_slot:
  assumes "n < length tk" "tk ! n = 0" "q \<noteq> 0"
  shows "holders f tm (tk[n := q]) = holders f tm tk + count_list (t_filp (tm q)) (Some f)"
  using sum_list_slot [OF assms(1), of "\<lambda>p. if p = 0 then 0 else count_list (t_filp (tm p)) (Some f)" q] assms(2,3)
  by (simp add: holders_def)

text \<open>
  The tables of descriptors: the running task is in the table of tasks, no task is in it twice, every
  descriptor refers to an entry of the file table, and every entry counts its descriptors.
\<close>

definition descriptors_wf :: "'a fs_state_scheme \<Rightarrow> bool" where
  "descriptors_wf s \<longleftrightarrow> length (task s) = 64 \<and> current s \<in> set (task s) \<and> current s \<noteq> 0 \<and>
     distinct (filter (\<lambda>p. p \<noteq> 0) (task s)) \<and> length (file_table s) = NR_FILE \<and>
     (\<forall>p \<in> set (task s). p \<noteq> 0 \<longrightarrow> length (t_filp (tmem s p)) = NR_OPEN \<and>
        (\<forall>f. Some f \<in> set (t_filp (tmem s p)) \<longrightarrow> f < NR_FILE)) \<and> files_counted s"

lemma count_list_update:
  "n < length xs \<Longrightarrow> count_list (xs[n := y]) z + (if xs ! n = z then 1 else 0) = count_list xs z + (if y = z then 1 else 0)"
proof (induction xs arbitrary: n)
  case (Cons x xs)
  show ?case
  proof (cases n)
    case (Suc m)
    with Cons.prems have "m < length xs" by simp
    from Cons.IH [OF this] Suc show ?thesis by (cases "x = z") simp_all
  qed simp
qed simp

lemma holders_task:
  assumes "p \<in> set tk" "p \<noteq> 0" "distinct (filter (\<lambda>p. p \<noteq> 0) tk)"
  shows "holders f (tm(p := x)) tk + count_list (t_filp (tm p)) (Some f) = holders f tm tk + count_list (t_filp x) (Some f)"
  using assms
proof (induction tk)
  case (Cons q tk)
  show ?case
  proof (cases "q = p")
    case True
    then have "p \<notin> set tk" using Cons.prems by auto
    have eq: "holders f tm' (p # tk) = count_list (t_filp (tm' p)) (Some f) + holders f tm' tk" for tm'
      using Cons.prems(2) by (simp add: holders_def)
    show ?thesis unfolding True eq holders_other [OF \<open>p \<notin> set tk\<close>] by simp
  next
    case False
    then show ?thesis using Cons by (auto simp: holders_def split: if_splits)
  qed
qed simp

lemma holders_bound:
  assumes "\<forall>p \<in> set tk. p \<noteq> 0 \<longrightarrow> length (t_filp (tm p)) \<le> m"
  shows "holders f tm tk \<le> length tk * m"
  using assms
proof (induction tk)
  case (Cons q tk)
  have "count_list (t_filp (tm q)) (Some f) \<le> length (t_filp (tm q))" by (rule count_le_length)
  with Cons show ?case by (force simp: holders_def)
qed (simp add: holders_def)

lemma holders_pos:
  assumes "p \<in> set tk" "p \<noteq> 0" "Some f \<in> set (t_filp (tm p))"
  shows "0 < holders f tm tk"
proof -
  have "count_list (t_filp (tm p)) (Some f) \<noteq> 0" using assms(3) by (simp add: count_list_0_iff)
  with assms(1,2) show ?thesis unfolding holders_def by (induction tk) auto
qed

section \<open>The memory of a buffer\<close>

text \<open>Moving a buffer between the queues does not move its block of memory.\<close>

lemma link_data: "(\<And>h. b_data (g h) = b_data h) \<Longrightarrow> b_data (bufs (case p of None \<Rightarrow> s | Some n \<Rightarrow> bupd n g s) c) = b_data (bufs s c)"
  by (cases p) auto

lemma queues_data:
  "b_data (bufs (remove_from_hash b s) c) = b_data (bufs s c)" "b_data (bufs (put_in_hash b s) c) = b_data (bufs s c)"
  "b_data (bufs (final (remove_from_free_list b s)) c) = b_data (bufs s c)"
  "b_data (bufs (final (put_on_free_list b s)) c) = b_data (bufs s c)"
  by (simp_all add: remove_from_hash_def put_in_hash_def remove_from_free_list_def put_on_free_list_def Let_def link_data
      set_hash_def panic_def printk_def split: option.splits)

lemma take_buffer_data: "b_data (bufs (final (take_buffer b dev block s)) c) = b_data (bufs s c)"
  unfolding take_buffer_def remove_from_queues_def insert_into_queues_def
  by (intro kbind_keeps [where I = "\<lambda>t. b_data (bufs t c) = b_data (bufs s c)"]) (auto simp: queues_data)

lemma fs_mapped_data: "b_data (bufs fs_mapped 1) = 0x1ff800"
proof -
  have "b_data (bufs fs_boot 1) = 0x1ff800"
    by (simp_all add: fs_boot_def buffer_init_def buffer_init_loop_step buffer_init_loop_stop Let_def
      del: buffer_init_loop.simps)
  then have "b_data (bufs fs_warm 1) = 0x1ff800" by (simp add: fs_warm_def take_buffer_data)
  then show ?thesis by (simp add: fs_mapped_def fs_inodes_def)
qed

end
