(* ===== verification/Namei.thy ===== *)
theory Namei
  imports Filedata
begin

text \<open>
  Path names, \<^verbatim>\<open>fs/namei.c\<close>: permissions, the search of a directory for a name
  (\<open>match\<close>, \<open>find_entry\<close>), the walk along a path (\<open>get_dir\<close>, \<open>dir_namei\<close>) and
  \<open>open_namei\<close>. Names lie in the memory of the running task and are read byte by byte through
  \<open>fs\<close>; a directory entry is an address in a buffer, its inode number the two bytes there, its name
  the fourteen bytes that follow.
\<close>

abbreviation (input) MAY_EXEC :: u32 where "MAY_EXEC \<equiv> 1"
abbreviation (input) MAY_WRITE :: u32 where "MAY_WRITE \<equiv> 2"
abbreviation (input) MAY_READ :: u32 where "MAY_READ \<equiv> 3"
abbreviation (input) NAME_LEN :: u32 where "NAME_LEN \<equiv> 14"
abbreviation (input) DIR_ENTRIES_PER_BLOCK :: u32 where "DIR_ENTRIES_PER_BLOCK \<equiv> 64"
abbreviation (input) O_ACCMODE :: u32 where "O_ACCMODE \<equiv> 3"
abbreviation (input) O_WRONLY :: u32 where "O_WRONLY \<equiv> 1"
abbreviation (input) O_CREAT :: u32 where "O_CREAT \<equiv> 0x40"
abbreviation (input) O_EXCL :: u32 where "O_EXCL \<equiv> 0x80"
abbreviation (input) O_TRUNC :: u32 where "O_TRUNC \<equiv> 0x200"
abbreviation (input) I_REGULAR :: u32 where "I_REGULAR \<equiv> 0x8000"

section \<open>Permissions\<close>

definition ACC_MODE :: "u32 \<Rightarrow> u32" where
  "ACC_MODE x = [4, 2, 6, -1] ! unat (x AND O_ACCMODE)"

definition suser :: "'a sched_state_scheme \<Rightarrow> bool" where
  "suser s \<longleftrightarrow> t_euid (cur s) = 0"

definition permission :: "nat \<Rightarrow> u32 \<Rightarrow> 'a fs_state_scheme \<Rightarrow> bool" where
  "permission i m s =
     (let x = inode_table s ! i; mode = ucast (i_mode x) :: u32
      in if i_dev x \<noteq> 0 \<and> i_nlinks x = 0 then False
         else let mode = (if t_euid (cur s) = i_uid x then drop_bit 6 mode
                          else if t_egid (cur s) = ucast (i_gid x) then drop_bit 3 mode
                          else mode)
              in mode AND m AND 7 = m \<or> suser s)"

section \<open>Names in a directory\<close>

text \<open>
  \<open>repe cmpsb\<close> over \<open>len\<close> bytes; with a count of 0 the instruction leaves the zero flag as it
  was, so what \<open>setz\<close> stores is not determined (\<open>find_entry\<close> refuses an empty name before).
\<close>

primrec match_loop :: "nat \<Rightarrow> u32 \<Rightarrow> u32 \<Rightarrow> 'a fs_state_scheme \<Rightarrow> ('a fs_state_scheme, bool) outcome" where
  "match_loop 0 name p s = Done True s"
| "match_loop (Suc n) name p s =
     kbind (get_fs_byte name s) (\<lambda>c s. if c = bmem s p then match_loop n (name + 1) (p + 1) s else Done False s)"

definition match :: "u32 \<Rightarrow> u32 \<Rightarrow> u32 \<Rightarrow> 'a fs_state_scheme \<Rightarrow> ('a fs_state_scheme, bool) outcome" where
  "match len name de s =
     (if de = 0 \<or> load16 (bmem s) de = 0 \<or> sint len > sint NAME_LEN then Done False s
      else if sint len < sint NAME_LEN \<and> bmem s (de + 2 + len) \<noteq> 0 then Done False s
      else if len = 0 then Halted (Undef ''repe cmpsb'') s
      else match_loop (unat len) name (de + 2) s)"

text \<open>
  The block after buffer \<open>b\<close>, at entry \<open>i\<close>: the buffer to go on with and the entry in it, or
  nothing when the block is missing.
\<close>

definition next_dir_block :: "('a fs_state_scheme \<Rightarrow> 'a fs_state_scheme) \<Rightarrow> nat \<Rightarrow> u32 \<Rightarrow> nat
    \<Rightarrow> 'a fs_state_scheme \<Rightarrow> ('a fs_state_scheme, (nat \<times> u32) option) outcome" where
  "next_dir_block env dir i b s =
     kbind (brelse env (Some b) s) (\<lambda>_ s.
     kbind (bmap env dir (i div DIR_ENTRIES_PER_BLOCK) s) (\<lambda>block s.
       if block = 0 then Done None s
       else kbind (bread env (ucast (i_dev (inode_table s ! dir))) block s) (\<lambda>bh s.
              case bh of None \<Rightarrow> Done None s | Some c \<Rightarrow> Done (Some (c, b_data (bufs s c))) s)))"

text \<open>
  The search loop; \<open>bh\<close> is null after a missing block, and the next round reads \<open>bh->b_data\<close>
  through it. Every round counts up \<open>i\<close>, so \<open>entries + 1\<close> rounds are enough.
\<close>

primrec find_entry_loop :: "nat \<Rightarrow> ('a fs_state_scheme \<Rightarrow> 'a fs_state_scheme) \<Rightarrow> nat \<Rightarrow> u32 \<Rightarrow> u32 \<Rightarrow> u32 \<Rightarrow> u32
    \<Rightarrow> nat option \<Rightarrow> u32 \<Rightarrow> 'a fs_state_scheme \<Rightarrow> ('a fs_state_scheme, (nat \<times> u32) option) outcome" where
  "find_entry_loop 0 env dir name namelen entries i bh de s = Blocked s"
| "find_entry_loop (Suc n) env dir name namelen entries i bh de s =
     (if \<not> sint i < sint entries then kbind (brelse env bh s) (\<lambda>_ s. Done None s)
      else case bh of
        None \<Rightarrow> Halted (Undef ''bh->b_data'') s
      | Some b \<Rightarrow>
          kbind (if de \<ge> b_data (bufs s b) + 1024 then next_dir_block env dir i b s else Done (Some (b, de)) s) (\<lambda>r s.
            case r of
              None \<Rightarrow> find_entry_loop n env dir name namelen entries (i + DIR_ENTRIES_PER_BLOCK) None de s
            | Some (b, de) \<Rightarrow>
                kbind (match namelen name de s) (\<lambda>same s.
                  if same then Done (Some (b, de)) s
                  else find_entry_loop n env dir name namelen entries (i + 1) (Some b) (de + 16) s)))"

text \<open>The name \<open>..\<close>: the directory and the length of the name to search with.\<close>

definition is_dots :: "u32 \<Rightarrow> u32 \<Rightarrow> 'a mm_state_scheme \<Rightarrow> ('a mm_state_scheme, bool) outcome" where
  "is_dots name namelen s =
     (if namelen \<noteq> 2 then Done False s
      else kbind (get_fs_byte name s) (\<lambda>c s.
        if c \<noteq> 46 then Done False s else kbind (get_fs_byte (name + 1) s) (\<lambda>c s. Done (c = 46) s)))"

definition leave_root :: "('a fs_state_scheme \<Rightarrow> 'a fs_state_scheme) \<Rightarrow> nat \<Rightarrow> u32
    \<Rightarrow> 'a fs_state_scheme \<Rightarrow> ('a fs_state_scheme, nat \<times> u32) outcome" where
  "leave_root env dir namelen s =
     (if t_root (cur s) = Some dir then Done (dir, 1) s
      else if ucast (i_num (inode_table s ! dir)) = ROOT_INO
      then kbind (get_super env (ucast (i_dev (inode_table s ! dir))) s) (\<lambda>sb s.
             case sb of
               None \<Rightarrow> Halted (Undef ''sb->s_imount'') s
             | Some k \<Rightarrow>
                 if s_imount (super_block s ! k) = None then Done (dir, namelen) s
                 else kbind (iput env (Some dir) s) (\<lambda>_ s.
                        case s_imount (super_block s ! k) of
                          None \<Rightarrow> Halted (Undef ''(*dir)->i_count'') s
                        | Some m \<Rightarrow> Done (m, namelen) (iupd m (\<lambda>x. x\<lparr>i_count := i_count x + 1\<rparr>) s)))
      else Done (dir, namelen) s)"

text \<open>\<open>find_entry\<close> returns the directory it ended in with the buffer and the entry it found.\<close>

definition find_entry :: "('a fs_state_scheme \<Rightarrow> 'a fs_state_scheme) \<Rightarrow> nat \<Rightarrow> u32 \<Rightarrow> u32
    \<Rightarrow> 'a fs_state_scheme \<Rightarrow> ('a fs_state_scheme, nat \<times> (nat \<times> u32) option) outcome" where
  "find_entry env dir name namelen s =
     (let namelen = (if sint namelen > sint NAME_LEN then NAME_LEN else namelen);
          entries = i_size (inode_table s ! dir) div 16
      in if namelen = 0 then Done (dir, None) s
         else kbind (is_dots name namelen s) (\<lambda>dots s.
              kbind (if dots then leave_root env dir namelen s else Done (dir, namelen) s) (\<lambda>(dir, namelen) s.
                let block = i_zone (inode_table s ! dir) ! 0
                in if block = 0 then Done (dir, None) s
                   else kbind (bread env (ucast (i_dev (inode_table s ! dir))) (ucast block) s) (\<lambda>bh s.
                          case bh of
                            None \<Rightarrow> Done (dir, None) s
                          | Some b \<Rightarrow>
                              kbind (find_entry_loop (Suc (unat entries)) env dir name namelen entries 0 (Some b)
                                       (b_data (bufs s b)) s) (\<lambda>r s. Done (dir, r) s)))))"

definition add_entry :: "nat \<Rightarrow> u32 \<Rightarrow> u32 \<Rightarrow> 'a fs_state_scheme
    \<Rightarrow> ('a fs_state_scheme, (nat \<times> u32) option) outcome" where
  "add_entry dir name namelen s = Done None s"

section \<open>Walking a path\<close>

text \<open>
  A path without a terminator is read on until the segment ends; a segment of four gigabytes has
  \<open>path_room\<close> bytes, after which the reading starts over.
\<close>

definition path_room :: nat where "path_room = 2 ^ 32"

text \<open>\<open>for (namelen = 0; (c = get_fs_byte(pathname++)) && (c != '/'); namelen++)\<close>\<close>

primrec scan_name :: "nat \<Rightarrow> u32 \<Rightarrow> u32 \<Rightarrow> 'a mm_state_scheme \<Rightarrow> ('a mm_state_scheme, u8 \<times> u32 \<times> u32) outcome" where
  "scan_name 0 pathname namelen s = Blocked s"
| "scan_name (Suc n) pathname namelen s =
     kbind (get_fs_byte pathname s) (\<lambda>c s.
       if c = 0 \<or> c = 47 then Done (c, pathname + 1, namelen) s
       else scan_name n (pathname + 1) (namelen + 1) s)"

primrec get_dir_loop :: "nat \<Rightarrow> ('a fs_state_scheme \<Rightarrow> 'a fs_state_scheme) \<Rightarrow> nat \<Rightarrow> u32
    \<Rightarrow> 'a fs_state_scheme \<Rightarrow> ('a fs_state_scheme, nat option) outcome" where
  "get_dir_loop 0 env inode pathname s = Blocked s"
| "get_dir_loop (Suc n) env inode pathname s =
     (let thisname = pathname
      in if \<not> S_ISDIR (i_mode (inode_table s ! inode)) \<or> \<not> permission inode MAY_EXEC s
         then kbind (iput env (Some inode) s) (\<lambda>_ s. Done None s)
         else kbind (scan_name path_room pathname 0 s) (\<lambda>(c, pathname, namelen) s.
           if c = 0 then Done (Some inode) s
           else kbind (find_entry env inode thisname namelen s) (\<lambda>(inode, r) s.
             case r of
               None \<Rightarrow> kbind (iput env (Some inode) s) (\<lambda>_ s. Done None s)
             | Some (b, de) \<Rightarrow>
                 let inr = ucast (load16 (bmem s) de); idev = ucast (i_dev (inode_table s ! inode))
                 in kbind (brelse env (Some b) s) (\<lambda>_ s.
                    kbind (iput env (Some inode) s) (\<lambda>_ s.
                    kbind (iget env idev inr s) (\<lambda>i s.
                      case i of None \<Rightarrow> Done None s | Some inode \<Rightarrow> get_dir_loop n env inode pathname s))))))"

definition get_dir :: "('a fs_state_scheme \<Rightarrow> 'a fs_state_scheme) \<Rightarrow> u32
    \<Rightarrow> 'a fs_state_scheme \<Rightarrow> ('a fs_state_scheme, nat option) outcome" where
  "get_dir env pathname s =
     (case t_root (cur s) of
        None \<Rightarrow> panic ''No root indoe'' s
      | Some root \<Rightarrow>
          if i_count (inode_table s ! root) = 0 then panic ''No root indoe'' s
          else case t_pwd (cur s) of
            None \<Rightarrow> panic ''No cwd inode'' s
          | Some pwd \<Rightarrow>
              if i_count (inode_table s ! pwd) = 0 then panic ''No cwd inode'' s
              else kbind (get_fs_byte pathname s) (\<lambda>c s.
                let start = (\<lambda>inode pathname. get_dir_loop path_room env inode pathname
                                (iupd inode (\<lambda>x. x\<lparr>i_count := i_count x + 1\<rparr>) s))
                in if c = 47 then start root (pathname + 1)
                   else if c \<noteq> 0 then start pwd pathname
                   else Done None s))"

text \<open>The loop of \<open>dir_namei\<close>: the length and the address of what follows the last \<open>/\<close>.\<close>

primrec scan_base :: "nat \<Rightarrow> u32 \<Rightarrow> u32 \<Rightarrow> 'a mm_state_scheme \<Rightarrow> ('a mm_state_scheme, u32 \<times> u32) outcome" where
  "scan_base 0 pathname basename s = Blocked s"
| "scan_base (Suc n) pathname basename s =
     kbind (get_fs_byte pathname s) (\<lambda>c s.
       if c = 0 then Done (pathname + 1 - basename - 1, basename) s
       else scan_base n (pathname + 1) (if c = 47 then pathname + 1 else basename) s)"

definition dir_namei :: "('a fs_state_scheme \<Rightarrow> 'a fs_state_scheme) \<Rightarrow> u32
    \<Rightarrow> 'a fs_state_scheme \<Rightarrow> ('a fs_state_scheme, (nat \<times> u32 \<times> u32) option) outcome" where
  "dir_namei env pathname s =
     kbind (get_dir env pathname s) (\<lambda>r s.
       case r of
         None \<Rightarrow> Done None s
       | Some dir \<Rightarrow> kbind (scan_base path_room pathname pathname s) (\<lambda>(namelen, basename) s.
           Done (Some (dir, namelen, basename)) s))"

section \<open>open\_namei\<close>

text \<open>
  The result is the code with what is stored in \<open>*res_inode\<close>, \<open>None\<close> when nothing is.
  \<open>create_file\<close> is the part for a name that is not in the directory.
\<close>

definition create_file :: "('a fs_state_scheme \<Rightarrow> 'a fs_state_scheme) \<Rightarrow> nat \<Rightarrow> u32 \<Rightarrow> u32 \<Rightarrow> u32 \<Rightarrow> u32
    \<Rightarrow> 'a fs_state_scheme \<Rightarrow> ('a fs_state_scheme, u32 \<times> nat option) outcome" where
  "create_file env dir basename namelen flag mode s =
     (if flag AND O_CREAT = 0 then kbind (iput env (Some dir) s) (\<lambda>_ s. Done (-2, None) s)
      else if \<not> permission dir MAY_WRITE s then kbind (iput env (Some dir) s) (\<lambda>_ s. Done (-13, None) s)
      else kbind (new_inode (ucast (i_dev (inode_table s ! dir))) s) (\<lambda>r s.
        case r of
          None \<Rightarrow> kbind (iput env (Some dir) s) (\<lambda>_ s. Done (-28, None) s)
        | Some inode \<Rightarrow>
            kbind (add_entry dir basename namelen
                     (iupd inode (\<lambda>x. x\<lparr>i_uid := t_euid (cur s), i_mode := ucast mode, i_dirt := 1\<rparr>) s)) (\<lambda>r s.
              case r of
                None \<Rightarrow>
                  kbind (iput env (Some inode) (iupd inode (\<lambda>x. x\<lparr>i_nlinks := i_nlinks x - 1\<rparr>) s)) (\<lambda>_ s.
                  kbind (iput env (Some dir) s) (\<lambda>_ s. Done (-28, None) s))
              | Some (b, de) \<Rightarrow>
                  kbind (brelse env (Some b) (bupd b (\<lambda>h. h\<lparr>b_dirt := 1\<rparr>)
                           (s\<lparr>bmem := put16 de (i_num (inode_table s ! inode)) (bmem s)\<rparr>))) (\<lambda>_ s.
                  kbind (iput env (Some dir) s) (\<lambda>_ s. Done (0, Some inode) s)))))"

definition open_existing :: "('a fs_state_scheme \<Rightarrow> 'a fs_state_scheme) \<Rightarrow> nat \<Rightarrow> nat \<Rightarrow> u32 \<Rightarrow> u32
    \<Rightarrow> 'a fs_state_scheme \<Rightarrow> ('a fs_state_scheme, u32 \<times> nat option) outcome" where
  "open_existing env dir b de flag s =
     (let inr = ucast (load16 (bmem s) de); dev = ucast (i_dev (inode_table s ! dir))
      in kbind (brelse env (Some b) s) (\<lambda>_ s.
         kbind (iput env (Some dir) s) (\<lambda>_ s.
           if flag AND O_EXCL \<noteq> 0 then Done (-17, None) s
           else kbind (iget env dev inr s) (\<lambda>r s.
             case r of
               None \<Rightarrow> Done (-13, None) s
             | Some inode \<Rightarrow>
                 if (S_ISDIR (i_mode (inode_table s ! inode)) \<and> flag AND O_ACCMODE \<noteq> 0) \<or>
                    \<not> permission inode (ACC_MODE flag) s
                 then kbind (iput env (Some inode) s) (\<lambda>_ s. Done (-1, None) s)
                 else Done (0, None) s))))"

definition open_namei :: "('a fs_state_scheme \<Rightarrow> 'a fs_state_scheme) \<Rightarrow> u32 \<Rightarrow> u32 \<Rightarrow> u32
    \<Rightarrow> 'a fs_state_scheme \<Rightarrow> ('a fs_state_scheme, u32 \<times> nat option) outcome" where
  "open_namei env pathname flag mode s =
     (let flag = (if flag AND O_TRUNC \<noteq> 0 \<and> flag AND O_ACCMODE = 0 then flag OR O_WRONLY else flag);
          mode = (mode AND (0x1ff AND NOT (ucast (t_umask (cur s))))) OR I_REGULAR
      in kbind (dir_namei env pathname s) (\<lambda>r s.
           case r of
             None \<Rightarrow> Done (-2, None) s
           | Some (dir, namelen, basename) \<Rightarrow>
               if namelen = 0
               then if flag AND (O_ACCMODE OR O_CREAT OR O_TRUNC) = 0 then Done (0, Some dir) s
                    else kbind (iput env (Some dir) s) (\<lambda>_ s. Done (-21, None) s)
               else kbind (find_entry env dir basename namelen s) (\<lambda>(dir, r) s.
                      case r of
                        None \<Rightarrow> create_file env dir basename namelen flag mode s
                      | Some (b, de) \<Rightarrow> open_existing env dir b de flag s)))"

section \<open>What the search finds\<close>

text \<open>
  A directory is a list of entries of 16 bytes. \<open>entry_is s de nm\<close>: the entry at \<open>de\<close> is in
  use and its name, filled up with zeros to fourteen bytes, is \<open>nm\<close>.
\<close>

definition entry_is :: "'a fs_state_scheme \<Rightarrow> u32 \<Rightarrow> u8 list \<Rightarrow> bool" where
  "entry_is s de nm \<longleftrightarrow> load16 (bmem s) de \<noteq> 0 \<and> (length nm < 14 \<longrightarrow> bmem s (de + 2 + of_nat (length nm)) = 0) \<and>
     (\<forall>i < length nm. bmem s (de + 2 + of_nat i) = nm ! i)"

definition dirent :: "(nat \<Rightarrow> nat) \<Rightarrow> 'a fs_state_scheme \<Rightarrow> nat \<Rightarrow> u32" where
  "dirent bf s k = b_data (bufs s (bf (k div 64))) + of_nat (16 * (k mod 64))"

lemma entry_is_cong: "bmem t = bmem s \<Longrightarrow> entry_is t = entry_is s"
  by (intro ext) (simp add: entry_is_def)

lemma match_loop_compares:
  "\<forall>i < n. readable (name + of_nat i) s \<Longrightarrow>
     match_loop n name p s = Done (\<forall>i < n. bmem s (p + of_nat i) = user_bytes name n s ! i) s"
proof (induction n arbitrary: name p)
  case (Suc n)
  have r: "readable name s" using spec [OF Suc.prems, of 0] by simp
  have "\<forall>i < n. readable (name + 1 + of_nat i) s"
  proof (intro allI impI)
    fix i assume "i < n"
    then show "readable (name + 1 + of_nat i) s" using spec [OF Suc.prems, of "Suc i"] by (simp add: ac_simps)
  qed
  note ih = Suc.IH [OF this, of "p + 1"]
  have "(\<forall>i < Suc n. bmem s (p + of_nat i) = user_bytes name (Suc n) s ! i) \<longleftrightarrow>
      byte_at (pmem s) (phys (linear name s) s) = bmem s p \<and>
      (\<forall>i < n. bmem s (p + 1 + of_nat i) = user_bytes (name + 1) n s ! i)"
    unfolding user_bytes_Suc All_less_Suc2 by (auto simp: ac_simps)
  then show ?case using ih by (simp add: get_fs_byte_readable [OF r])
qed simp

lemma match_compares:
  assumes "de \<noteq> 0" "0 < n" "n \<le> 14" "\<forall>i < n. readable (name + of_nat i) s"
  shows "match (of_nat n) name de s = Done (entry_is s de (user_bytes name n s)) s"
proof -
  have u: "unat (of_nat n :: u32) = n" "sint (of_nat n :: u32) = int n"
    using assms(3) sint_of_int [of "int n"] by (simp_all add: unat_of_nat_u32)
  then have "(of_nat n :: u32) \<noteq> 0" using assms(2) by auto
  then show ?thesis
    using assms(1-3) match_loop_compares [OF assms(4), of "de + 2"] by (auto simp: match_def u entry_is_def)
qed

text \<open>A directory of \<open>n\<close> entries without holes, all of whose blocks are in the cache.\<close>

definition dir_at_hand :: "(u16 \<Rightarrow> nat) \<Rightarrow> (nat \<Rightarrow> nat) \<Rightarrow> 'a fs_state_scheme \<Rightarrow> nat \<Rightarrow> nat \<Rightarrow> bool" where
  "dir_at_hand at bf s dir n \<longleftrightarrow> (let x = inode_table s ! dir in i_dev x \<noteq> 0 \<and> i_size x div 16 = of_nat n \<and> 0 < n \<and> n < 2 ^ 24 \<and>
     (\<forall>j. 64 * j < n \<longrightarrow> at_hand_block at bf s x j \<and> zone_of at s x j \<noteq> 0 \<and>
        0 < unat (b_data (bufs s (bf j))) \<and> unat (b_data (bufs s (bf j))) + 1024 < 2 ^ 32))"

lemma dir_words:
  assumes "i < (2 :: nat) ^ 24"
  shows "sint (of_nat i :: u32) = int i" "(of_nat i :: u32) div 64 = of_nat (i div 64)" "unat (of_nat i :: u32) = i"
proof -
  show u: "unat (of_nat i :: u32) = i" using assms by (intro unat_of_nat_u32) simp
  show "sint (of_nat i :: u32) = int i" using sint_of_int [of "int i"] assms by simp
  have "unat (of_nat (i div 64) :: u32) = i div 64" using assms by (intro unat_of_nat_u32) simp
  then show "(of_nat i :: u32) div 64 = of_nat (i div 64)" by (simp add: word_unat_eq_iff unat_div u)
qed

lemma next_dir_block_reads:
  assumes "cache_wf s" "only_woken s t" "dir_at_hand at bf s dir n" "64 * j < n"
    and "in_cache d z b t" "is_dev d" "d \<noteq> 0" "64 * j < 2 ^ 24"
  shows "\<exists>u. next_dir_block env dir (of_nat (64 * j)) b (hold b t) = Done (Some (bf j, dirent bf s (64 * j))) (hold (bf j) u) \<and>
    only_woken s u"
proof -
  let ?x = "inode_table s ! dir" and ?t = "wake_up (Some Buffer_wait) t"
  have wft: "cache_wf t" by (rule cache_wf_same_tables [OF assms(1) only_woken_same_tables [OF assms(2)]])
  have rel: "brelse env (Some b) (hold b t) = Done () ?t" by (rule hold_block(2) [OF wft assms(6,7,5)])
  have w: "only_woken s ?t" by (rule only_woken_trans [OF assms(2) only_woken_wake_up])
  note st = only_woken_same_tables [OF w]
  have x: "?x = inode_table ?t ! dir" "i_dev ?x \<noteq> 0" using only_wokenD(3) [OF w] assms(3) by (simp_all add: dir_at_hand_def Let_def)
  have h: "at_hand_block at bf ?t ?x j" "zone_of at ?t ?x j \<noteq> 0"
    using assms(3,4) by (simp_all add: tables_cong [OF st] dir_at_hand_def Let_def)
  obtain u where u: "bmap env dir (of_nat j) ?t = Done (ucast (zone_of at ?t ?x j)) u" "only_woken ?t u"
    "bread env (ucast (i_dev ?x)) (ucast (zone_of at ?t ?x j)) u = Done (Some (bf j)) (hold (bf j) u)"
    using read_file_block [OF cache_wf_same_tables [OF assms(1) st] x h(1), of env] h(2) by blast
  have su: "only_woken s u" by (rule only_woken_trans [OF w u(2)])
  have "b_data (bufs (hold (bf j) u) (bf j)) = dirent bf s (64 * j)"
    using only_wokenD(1) [OF su] by (simp add: dirent_def)
  moreover have "of_nat (64 * j) div 64 = (of_nat j :: u32)" using dir_words(2) [OF assms(8)] by simp
  moreover have "inode_table u ! dir = ?x" using only_wokenD(3) [OF su] by simp
  moreover have "(ucast (zone_of at ?t ?x j) :: u32) \<noteq> 0" using h(2) by simp
  ultimately have "next_dir_block env dir (of_nat (64 * j)) b (hold b t) = Done (Some (bf j, dirent bf s (64 * j))) (hold (bf j) u)"
    by (simp only: next_dir_block_def rel kbind.simps u(1,3) if_False option.case)
  with su show ?thesis by blast
qed

text \<open>The result of a search for \<open>nm\<close>: the first entry with the name, its buffer held, or none.\<close>

definition found :: "(nat \<Rightarrow> nat) \<Rightarrow> 'a fs_state_scheme \<Rightarrow> nat \<Rightarrow> u8 list \<Rightarrow> (nat \<times> u32) option \<Rightarrow> 'a fs_state_scheme \<Rightarrow> bool" where
  "found bf s n nm r u \<longleftrightarrow>
     (case r of
        None \<Rightarrow> only_woken s u \<and> (\<forall>k < n. \<not> entry_is s (dirent bf s k) nm)
      | Some (b, de) \<Rightarrow> \<exists>k < n. b = bf (k div 64) \<and> de = dirent bf s k \<and> entry_is s de nm \<and>
          (\<forall>k' < k. \<not> entry_is s (dirent bf s k') nm) \<and> (\<exists>v. only_woken s v \<and> u = hold b v))"

lemma dir_block:
  assumes "dir_at_hand at bf s dir n" "only_woken s t" "64 * j < n" "x = inode_table s ! dir"
  shows "in_cache (ucast (i_dev x)) (ucast (zone_of at s x j)) (bf j) t" "(ucast (i_dev x) :: u32) \<noteq> 0"
    "0 < unat (b_data (bufs s (bf j)))" "unat (b_data (bufs s (bf j))) + 1024 < 2 ^ 32"
proof -
  have "at_hand_block at bf s x j" "zone_of at s x j \<noteq> 0" and d: "i_dev x \<noteq> 0" "0 < unat (b_data (bufs s (bf j)))"
    "unat (b_data (bufs s (bf j))) + 1024 < 2 ^ 32"
    using assms(1,3,4) by (simp_all add: dir_at_hand_def Let_def)
  then show "in_cache (ucast (i_dev x)) (ucast (zone_of at s x j)) (bf j) t"
    unfolding tables_cong(4) [OF only_woken_same_tables [OF assms(2)]] by (simp add: at_hand_block_def)
  show "(ucast (i_dev x) :: u32) \<noteq> 0" "0 < unat (b_data (bufs s (bf j)))" "unat (b_data (bufs s (bf j))) + 1024 < 2 ^ 32"
    using d by simp_all
qed

lemma offset_words:
  assumes "unat (b :: u32) + 1024 < 2 ^ 32" "0 < unat b" "k \<le> 64"
  shows "b + of_nat (16 * k) \<noteq> 0" "b + 1024 \<le> b + of_nat (16 * k) \<longleftrightarrow> k = 64"
proof -
  have o: "unat (of_nat (16 * k) :: u32) = 16 * k" using assms(3) by (intro unat_of_nat_u32) simp
  have u: "unat (b + of_nat (16 * k)) = unat b + 16 * k"
    by (subst unat_add_lem [THEN iffD1]) (use o assms in simp_all)
  have u': "unat (b + 1024) = unat b + 1024" by (subst unat_add_lem [THEN iffD1]) (use assms(1) in simp_all)
  show "b + of_nat (16 * k) \<noteq> 0" using u assms(2) by (metis add_is_0 less_irrefl unsigned_0)
  show "b + 1024 \<le> b + of_nat (16 * k) \<longleftrightarrow> k = 64"
    unfolding word_le_nat_alt u u' using assms(3) by auto
qed

text \<open>One entry: it is the one looked for, or the search goes on behind it.\<close>

lemma find_entry_round:
  assumes dir: "dir_at_hand at bf s dir n" and l: "0 < l" "l \<le> 14"
    and rd: "\<forall>i < l. readable (name + of_nat i) s" and nm: "nm = user_bytes name l s"
    and j: "64 * j \<le> i" "i < 64 * (j + 1)" "i < n" "only_woken s t" "\<forall>k < i. \<not> entry_is s (dirent bf s k) nm"
    and de: "de = b_data (bufs s (bf j)) + of_nat (16 * (i - 64 * j))"
    and go_on: "\<forall>k < i + 1. \<not> entry_is s (dirent bf s k) nm \<Longrightarrow>
      \<exists>u r. find_entry_loop m env dir name (of_nat l) (of_nat n) (of_nat (i + 1)) (Some (bf j))
        (b_data (bufs s (bf j)) + of_nat (16 * ((i + 1) - 64 * j))) (hold (bf j) t) = Done r u \<and> found bf s n nm r u"
  shows "\<exists>u r. kbind (match (of_nat l) name de (hold (bf j) t)) (\<lambda>same s.
        if same then Done (Some (bf j, de)) s
        else find_entry_loop m env dir name (of_nat l) (of_nat n) (of_nat i + 1) (Some (bf j)) (de + 16) s) = Done r u \<and>
      found bf s n nm r u"
proof -
  have dv: "i div 64 = j" "i mod 64 = i - 64 * j" using j(1,2) by (simp_all add: div_nat_eqI modulo_nat_def)
  then have de': "de = dirent bf s i" by (simp add: de dirent_def)
  have "64 * j < n" using j(1,3) by simp
  note b = dir_block [OF dir j(4) this refl]
  have nz: "de \<noteq> 0" unfolding de by (rule offset_words(1) [OF b(4,3)]) (use j(2) in simp)
  have sv: "same_view s (hold (bf j) t)"
    using only_woken_view [OF j(4)] by (simp add: same_view_def bupd_def)
  have eq: "match (of_nat l) name de (hold (bf j) t) = Done (entry_is s de nm) (hold (bf j) t)"
    using match_compares [OF nz l, of name "hold (bf j) t"] rd
    by (simp add: same_view_walk [OF sv] nm entry_is_cong [of "hold (bf j) t" s] only_wokenD(2) [OF j(4)])
  show ?thesis
  proof (cases "entry_is s de nm")
    case True
    then have "found bf s n nm (Some (bf j, de)) (hold (bf j) t)"
      unfolding found_def option.case prod.case using j(3-5) dv(1) de' by blast
    with True show ?thesis by (simp add: eq)
  next
    case False
    then have "\<forall>k < i + 1. \<not> entry_is s (dirent bf s k) nm" using j(5) de' by (auto simp: less_Suc_eq)
    note ih = go_on [OF this]
    have "b_data (bufs s (bf j)) + of_nat (16 * ((i + 1) - 64 * j)) = de + 16"
      using j(1) by (simp add: de Suc_diff_le)
    moreover have "of_nat (i + 1) = (of_nat i + 1 :: u32)" by simp
    ultimately show ?thesis using ih unfolding eq kbind.simps if_not_P [OF False] by (simp only:)
  qed
qed

lemma find_entry_loop_finds:
  assumes wf: "cache_wf s" and dir: "dir_at_hand at bf s dir n" and l: "0 < l" "l \<le> 14"
    and rd: "\<forall>i < l. readable (name + of_nat i) s" and nm: "nm = user_bytes name l s"
  shows "64 * j \<le> i \<Longrightarrow> i \<le> 64 * (j + 1) \<Longrightarrow> i \<le> n \<Longrightarrow> 64 * j < n \<Longrightarrow> only_woken s t \<Longrightarrow> n < i + m \<Longrightarrow>
    \<forall>k < i. \<not> entry_is s (dirent bf s k) nm \<Longrightarrow>
    \<exists>u r. find_entry_loop m env dir name (of_nat l) (of_nat n) (of_nat i) (Some (bf j))
        (b_data (bufs s (bf j)) + of_nat (16 * (i - 64 * j))) (hold (bf j) t) = Done r u \<and> found bf s n nm r u"
proof (induction m arbitrary: i j t)
  case (Suc m)
  let ?x = "inode_table s ! dir"
  have n24: "n < 2 ^ 24" using dir by (simp add: dir_at_hand_def Let_def)
  have lt: "sint (of_nat i :: u32) < sint (of_nat n :: u32) \<longleftrightarrow> i < n" if "i \<le> n" for i
    using dir_words(1) [of i] dir_words(1) [of n] n24 that by simp
  note blk = dir_block [OF dir _ _ refl]
  have step: "\<exists>u r. kbind (match (of_nat l) name de (hold (bf j) t)) (\<lambda>same s.
        if same then Done (Some (bf j, de)) s
        else find_entry_loop m env dir name (of_nat l) (of_nat n) (of_nat i + 1) (Some (bf j)) (de + 16) s) = Done r u \<and>
      found bf s n nm r u"
    if "64 * j \<le> i" "i < 64 * (j + 1)" "i < n" "only_woken s t" "n < i + Suc m" "\<forall>k < i. \<not> entry_is s (dirent bf s k) nm"
      and "de = b_data (bufs s (bf j)) + of_nat (16 * (i - 64 * j))" for i j t de
    by (rule find_entry_round [OF dir l rd nm that(1-4,6,7)], rule Suc.IH) (use that in simp_all)
  show ?case
  proof (cases "i < n")
    case False
    then have "i = n" using Suc.prems(3) by simp
    have "brelse env (Some (bf j)) (hold (bf j) t) = Done () (wake_up (Some Buffer_wait) t)"
      by (rule hold_block(2) [OF cache_wf_same_tables [OF wf only_woken_same_tables [OF Suc.prems(5)]] is_dev_ucast
            blk(2,1) [OF Suc.prems(5,4)]])
    moreover have "found bf s n nm None (wake_up (Some Buffer_wait) t)"
      using Suc.prems(7) only_woken_trans [OF Suc.prems(5) only_woken_wake_up] \<open>i = n\<close> by (simp add: found_def)
    ultimately show ?thesis using False lt [OF Suc.prems(3)] by simp
  next
    case True
    let ?b = "b_data (bufs s (bf j))" and ?de = "b_data (bufs s (bf j)) + of_nat (16 * (i - 64 * j))"
    note b = blk [OF Suc.prems(5,4)]
    have bt: "b_data (bufs (hold (bf j) t) (bf j)) = ?b" using only_wokenD(1) [OF Suc.prems(5)] by simp
    have run: "find_entry_loop (Suc m) env dir name (of_nat l) (of_nat n) (of_nat i) (Some (bf j)) ?de (hold (bf j) t) =
        kbind (match (of_nat l) name de (hold c v)) (\<lambda>same s.
          if same then Done (Some (c, de)) s
          else find_entry_loop m env dir name (of_nat l) (of_nat n) (of_nat i + 1) (Some c) (de + 16) s)"
      if "(if ?de \<ge> ?b + 1024 then next_dir_block env dir (of_nat i) (bf j) (hold (bf j) t) else Done (Some (bf j, ?de)) (hold (bf j) t)) =
        Done (Some (c, de)) (hold c v)" for c de v
      using True lt [OF Suc.prems(3)] that by (simp only: find_entry_loop.simps bt not_True_eq_False if_False option.case kbind.simps prod.case)
    have k: "i - 64 * j \<le> 64" using Suc.prems(2) by simp
    note off = offset_words(2) [OF b(4,3) k]
    show ?thesis
    proof (cases "i = 64 * (j + 1)")
      case False
      then have "\<not> ?de \<ge> ?b + 1024" unfolding off using Suc.prems(1,2) by arith
      then have r: "(if ?de \<ge> ?b + 1024 then next_dir_block env dir (of_nat i) (bf j) (hold (bf j) t) else Done (Some (bf j, ?de)) (hold (bf j) t)) =
        Done (Some (bf j, ?de)) (hold (bf j) t)" by (rule if_not_P)
      show ?thesis unfolding run [OF r] by (rule step) (use Suc.prems True False in simp_all)
    next
      case i: True
      then have "?de \<ge> ?b + 1024" unfolding off by simp
      moreover have "64 * (j + 1) < n" "64 * (j + 1) < 2 ^ 24" using True i n24 by simp_all
      from next_dir_block_reads [OF wf Suc.prems(5) dir this(1) b(1) is_dev_ucast b(2) this(2)] obtain u
        where u: "next_dir_block env dir (of_nat i) (bf j) (hold (bf j) t) = Done (Some (bf (j + 1), dirent bf s i)) (hold (bf (j + 1)) u)"
          "only_woken s u" unfolding i by blast
      ultimately have r: "(if ?de \<ge> ?b + 1024 then next_dir_block env dir (of_nat i) (bf j) (hold (bf j) t) else Done (Some (bf j, ?de)) (hold (bf j) t)) =
        Done (Some (bf (j + 1), dirent bf s i)) (hold (bf (j + 1)) u)" by (simp only: if_True)
      have "dirent bf s i = b_data (bufs s (bf (j + 1))) + of_nat (16 * (i - 64 * (j + 1)))" by (simp add: dirent_def i)
      then show ?thesis unfolding run [OF r] by (intro step) (use Suc.prems True i u(2) in simp_all)
    qed
  qed
qed simp

section \<open>Paths\<close>

text \<open>
  \<open>path_at p xs s\<close>: the bytes \<open>xs\<close>, none of them 0, and a 0 lie at \<open>p\<close> in the
  task's memory.
\<close>

definition path_at :: "u32 \<Rightarrow> u8 list \<Rightarrow> 'a mm_state_scheme \<Rightarrow> bool" where
  "path_at p xs s \<longleftrightarrow> (\<forall>i \<le> length xs. readable (p + of_nat i) s) \<and> user_bytes p (Suc (length xs)) s = xs @ [0] \<and> 0 \<notin> set xs"

lemma path_at_byte:
  assumes "path_at p xs s"
  shows "get_fs_byte p s = Done (List.hd (xs @ [0])) s"
proof -
  from assms have a: "\<forall>i \<le> length xs. readable (p + of_nat i) s" "user_bytes p (Suc (length xs)) s = xs @ [0]"
    by (simp_all add: path_at_def)
  have "readable p s" using spec [OF a(1), of 0] by simp
  moreover have "byte_at (pmem s) (phys (linear p s) s) = List.hd (xs @ [0])"
    using arg_cong [OF a(2), of List.hd] unfolding user_bytes_Suc by simp
  ultimately show ?thesis by (simp add: get_fs_byte_readable)
qed

lemma path_at_tail: "path_at p (x # xs) s \<Longrightarrow> path_at (p + 1) xs s"
proof -
  assume a: "path_at p (x # xs) s"
  have "readable (p + 1 + of_nat i) s" if "i \<le> length xs" for i
  proof -
    have "Suc i \<le> length (x # xs)" using that by simp
    then have "readable (p + of_nat (Suc i)) s" using a unfolding path_at_def by blast
    then show ?thesis by (simp add: ac_simps)
  qed
  moreover have "user_bytes (p + 1) (Suc (length xs)) s = xs @ [0]"
    using a unfolding path_at_def user_bytes_Suc [of p] by simp
  ultimately show ?thesis using a by (simp add: path_at_def)
qed

text \<open>The component up to the next \<open>/\<close>, and what follows the last one.\<close>

definition first_name :: "u8 list \<Rightarrow> u8 list" where
  "first_name xs = takeWhile (\<lambda>c. c \<noteq> 47) xs"

definition base_name :: "u8 list \<Rightarrow> u8 list" where
  "base_name xs = rev (takeWhile (\<lambda>c. c \<noteq> 47) (rev xs))"

lemma base_name_Cons: "base_name (c # xs) = (if 47 \<in> set xs \<or> c = 47 then base_name xs else c # xs)"
proof (cases "47 \<in> set xs")
  case True
  then show ?thesis by (auto simp: base_name_def takeWhile_append1)
next
  case False
  have "takeWhile (\<lambda>c. c \<noteq> 47) (rev xs @ [c]) = rev xs @ takeWhile (\<lambda>c. c \<noteq> 47) [c]"
    by (rule takeWhile_append2) (use False in auto)
  then have "base_name (c # xs) = (if c = 47 then xs else c # xs)" by (simp add: base_name_def)
  moreover have "base_name xs = rev (rev xs)" unfolding base_name_def
    by (rule arg_cong [where f = rev]) (use False in \<open>auto simp: takeWhile_eq_all_conv\<close>)
  ultimately show ?thesis using False by simp
qed

lemma base_name_id: "47 \<notin> set xs \<Longrightarrow> base_name xs = xs"
  by (induction xs) (auto simp: base_name_Cons, simp add: base_name_def)

lemma base_name_length: "length (base_name xs) \<le> length xs"
  using length_takeWhile_le [of "\<lambda>c. c \<noteq> 47" "rev xs"] by (simp add: base_name_def)

lemma scan_name_first:
  "path_at p xs s \<Longrightarrow> length xs < n \<Longrightarrow>
     scan_name n p k s = Done (if 47 \<in> set xs then 47 else 0, p + of_nat (length (first_name xs)) + 1,
       k + of_nat (length (first_name xs))) s"
proof (induction xs arbitrary: n p k)
  case Nil
  then obtain m where "n = Suc m" by (cases n) auto
  with path_at_byte [OF Nil.prems(1)] show ?case by (simp add: first_name_def)
next
  case (Cons x xs)
  then obtain m where n: "n = Suc m" by (cases n) auto
  have "x \<noteq> 0" using Cons.prems(1) by (simp add: path_at_def)
  with path_at_byte [OF Cons.prems(1)] Cons.IH [OF path_at_tail [OF Cons.prems(1)], of m "k + 1"] Cons.prems(2) n
  show ?case by (simp add: first_name_def ac_simps)
qed

lemma scan_base_last:
  "path_at p xs s \<Longrightarrow> length xs < n \<Longrightarrow>
     scan_base n p b s = Done (if 47 \<in> set xs then (of_nat (length (base_name xs)), p + of_nat (length xs - length (base_name xs)))
       else (p + of_nat (length xs) - b, b)) s"
proof (induction xs arbitrary: n p b)
  case Nil
  then obtain m where "n = Suc m" by (cases n) auto
  with path_at_byte [OF Nil.prems(1)] show ?case by simp
next
  case (Cons x xs)
  then obtain m where n: "n = Suc m" by (cases n) auto
  have x: "x \<noteq> 0" using Cons.prems(1) by (simp add: path_at_def)
  have "length xs - length (base_name xs) + 1 = length (x # xs) - length (base_name xs)"
    using base_name_length [of xs] by simp
  then have "of_nat (length (x # xs) - length (base_name xs)) = (of_nat (length xs - length (base_name xs)) + 1 :: u32)"
    by (metis of_nat_1 of_nat_add)
  with path_at_byte [OF Cons.prems(1)] Cons.IH [OF path_at_tail [OF Cons.prems(1)], of m] Cons.prems(2) n x
  show ?case by (auto simp: base_name_Cons base_name_id ac_simps)
qed

lemma path_at_view: "same_view s t \<Longrightarrow> path_at p xs t = path_at p xs s"
  by (simp add: path_at_def same_view_walk)

lemma permission_iupd [simp]:
  "permission i m (iupd j (\<lambda>x. x\<lparr>i_count := i_count x + 1\<rparr>) s) = permission i m s"
proof -
  let ?g = "\<lambda>x. x\<lparr>i_count := i_count x + 1\<rparr>"
  let ?y = "inode_table (iupd j ?g s) ! i" and ?x = "inode_table s ! i"
  have "i_mode ?y = i_mode ?x" "i_dev ?y = i_dev ?x" "i_nlinks ?y = i_nlinks ?x" "i_uid ?y = i_uid ?x" "i_gid ?y = i_gid ?x"
    by (simp_all only: nth_iupd if_distrib [of i_mode] if_distrib [of i_dev] if_distrib [of i_nlinks] if_distrib [of i_uid]
        if_distrib [of i_gid]) simp_all
  moreover have "cur (iupd j ?g s) = cur s" "suser (iupd j ?g s) = suser s" by (simp_all add: iupd_def suser_def)
  ultimately show ?thesis unfolding permission_def Let_def by (simp only:)
qed

text \<open>A path of one component: it is looked up in the root directory or in the working directory.\<close>

lemma dir_namei_single:
  assumes path: "path_at p xs s" "length xs < 2 ^ 32"
    and start: "xs = 47 # ys \<and> i = r \<or> xs = ys \<and> xs \<noteq> [] \<and> i = w" "47 \<notin> set ys"
    and dirs: "t_root (cur s) = Some r" "t_pwd (cur s) = Some w" "i_count (inode_table s ! r) \<noteq> 0" "i_count (inode_table s ! w) \<noteq> 0"
    and ok: "S_ISDIR (i_mode (inode_table s ! i))" "permission i MAY_EXEC s"
  shows "dir_namei env p s = Done (Some (i, of_nat (length ys), p + of_nat (length xs - length ys)))
      (iupd i (\<lambda>x. x\<lparr>i_count := i_count x + 1\<rparr>) s)"
proof -
  let ?t = "iupd i (\<lambda>x. x\<lparr>i_count := i_count x + 1\<rparr>) s" and ?q = "p + of_nat (length xs - length ys)"
  have room: "length xs < path_room" "length ys < path_room" using path(2) start(1) by (auto simp: path_room_def)
  have v: "same_view s ?t" by (simp add: same_view_def iupd_def)
  have q: "path_at ?q ys s" using start(1) path(1) path_at_tail [of p 47 ys s] by auto
  have "scan_name path_room ?q 0 ?t = Done (0, ?q + of_nat (length (first_name ys)) + 1, of_nat (length (first_name ys))) ?t"
    using scan_name_first [of ?q ys ?t path_room 0] q room(2) start(2) by (simp add: path_at_view [OF v])
  moreover have "i_mode (inode_table ?t ! i) = i_mode (inode_table s ! i)"
    by (simp only: nth_iupd if_distrib [of i_mode]) simp
  moreover obtain n where "path_room = Suc n" using room(1) by (cases path_room) auto
  then have "get_dir_loop path_room env i ?q ?t = get_dir_loop (Suc n) env i ?q ?t" by (rule arg_cong)
  ultimately have loop: "get_dir_loop path_room env i ?q ?t = Done (Some i) ?t"
    using ok by (simp add: Let_def del: fs_upd_simps)
  have "List.hd (xs @ [0]) = 47 \<and> i = r \<and> ?q = p + 1 \<or> List.hd (xs @ [0]) \<noteq> 47 \<and> List.hd (xs @ [0]) \<noteq> 0 \<and> i = w \<and> ?q = p"
    using start path(1) by (cases xs) (auto simp: path_at_def)
  then have g: "get_dir env p s = Done (Some i) ?t"
    using dirs path_at_byte [OF path(1)] loop by (elim disjE) (simp_all add: get_dir_def Let_def)
  have b: "base_name xs = ys" using start base_name_id [of ys] by (auto simp: base_name_Cons)
  have "scan_base path_room p p ?t = Done (of_nat (length ys), ?q) ?t"
    using scan_base_last [of p xs ?t path_room p] path(1) room(1) b start base_name_id [of xs]
    by (cases "47 \<in> set xs") (auto simp: path_at_view [OF v])
  with g show ?thesis by (simp add: dir_namei_def)
qed

section \<open>Properties\<close>

text \<open>C10: in a directory without holes whose blocks are in the cache, the search for a name of the task's memory
  other than \<open>..\<close> returns the first entry in use with that name, cut off after fourteen bytes, and holds the
  buffer it lies in; with no such entry it returns none. It reads through as many blocks as the directory has,
  gives every other one back and changes nothing else.\<close>

theorem find_entry_finds_first:
  fixes at :: "u16 \<Rightarrow> nat"
  assumes "cache_wf s" "dir_at_hand at bf s dir n" "0 < len" "len < 2 ^ 31"
    and "\<forall>i < min len 14. readable (name + of_nat i) s" "nm = user_bytes name (min len 14) s" "nm \<noteq> [46, 46]"
  shows "\<exists>u r. find_entry env dir name (of_nat len) s = Done (dir, r) u \<and> found bf s n nm r u"
proof -
  let ?x = "inode_table s ! dir" and ?l = "min len 14"
  have l: "0 < ?l" "?l \<le> 14" using assms(3) by simp_all
  have sl: "sint (of_nat len :: u32) = int len" using sint_of_int [of "int len"] assms(4) by simp
  have cut: "(if sint (of_nat len :: u32) > sint NAME_LEN then NAME_LEN else of_nat len) = (of_nat ?l :: u32)"
    unfolding sl by (auto simp: min_def)
  have ul: "unat (of_nat ?l :: u32) = ?l" by (intro unat_of_nat_u32) simp
  then have nz: "(of_nat ?l :: u32) \<noteq> 0" using l(1) by (metis less_irrefl unsigned_0)
  have dots: "is_dots name (of_nat ?l) s = Done False s"
  proof (cases "?l = 2")
    case True
    have r: "readable name s" "readable (name + 1) s"
      using spec [OF assms(5), of 0] spec [OF assms(5), of 1] True by simp_all
    have "user_bytes name 2 s \<noteq> [46, 46]" using assms(6,7) True by simp
    then have "byte_at (pmem s) (phys (linear name s) s) \<noteq> 46 \<or> byte_at (pmem s) (phys (linear (name + 1) s) s) \<noteq> 46"
      by (auto simp: numeral_2_eq_2 user_bytes_Suc)
    then show ?thesis unfolding True by (auto simp: is_dots_def get_fs_byte_readable r)
  next
    case False
    have "(of_nat ?l :: u32) \<noteq> 2"
    proof
      assume "(of_nat ?l :: u32) = 2"
      then have "unat (of_nat ?l :: u32) = 2" by (simp only:) simp
      with ul False show False by simp
    qed
    then show ?thesis unfolding is_dots_def by (rule if_P)
  qed
  have d: "i_size ?x div 16 = of_nat n" "0 < n" "n < 2 ^ 24" "zone_of at s ?x 0 \<noteq> 0"
    using assms(2) by (simp_all add: dir_at_hand_def Let_def)
  have z: "zone_of at s ?x 0 = i_zone ?x ! 0" by (simp add: zone_of_def)
  have un: "unat (of_nat n :: u32) = n" using dir_words(3) [OF d(3)] .
  have j: "64 * 0 < n" using d(2) by simp
  note b = dir_block [OF assms(2) only_woken_refl j refl]
  have rd: "bread env (ucast (i_dev ?x)) (ucast (i_zone ?x ! 0)) s = Done (Some (bf 0)) (hold (bf 0) s)"
    using hold_block(1) [OF assms(1) is_dev_ucast b(2,1)] unfolding z .
  have "\<exists>u r. find_entry_loop (Suc n) env dir name (of_nat ?l) (of_nat n) (of_nat 0) (Some (bf 0))
      (b_data (bufs s (bf 0)) + of_nat (16 * (0 - 64 * 0))) (hold (bf 0) s) = Done r u \<and> found bf s n nm r u"
    by (rule find_entry_loop_finds [OF assms(1,2) l assms(5,6)]) (use d(2) in simp_all)
  then obtain u r where ur: "find_entry_loop (Suc n) env dir name (of_nat ?l) (of_nat n) 0 (Some (bf 0))
      (b_data (bufs s (bf 0))) (hold (bf 0) s) = Done r u" "found bf s n nm r u" by auto
  have "b_data (bufs (hold (bf 0) s) (bf 0)) = b_data (bufs s (bf 0))" by simp
  then have "find_entry env dir name (of_nat len) s = Done (dir, r) u"
    using nz d(4) unfolding z by (simp only: find_entry_def Let_def cut d(1) if_False dots kbind.simps prod.case rd option.case un ur(1))
  with ur(2) show ?thesis by blast
qed

text \<open>
  A directory with the entries \<open>.\<close>, \<open>..\<close> and \<open>a\<close> for inode 5, in block 7, and the name
  \<open>a\<close> in the task's memory.
\<close>

definition fs_dir :: fs_state where
  "fs_dir = fs_mapped\<lparr>current := 0x1000, tmem := (\<lambda>_. INIT_TASK 0x1000 0),
     pmem := (\<lambda>_. 0)(0 := 0x5007, 0x5008 := 0x200007, 0x200000 := 0x61),
     bmem := (\<lambda>_. 0)(0x1ff800 := 1, 0x1ff802 := 46, 0x1ff810 := 1, 0x1ff812 := 46, 0x1ff813 := 46,
       0x1ff820 := 5, 0x1ff822 := 97),
     inode_table := (inode_table fs_mapped)[1 := (inode_table fs_mapped ! 1)\<lparr>i_mode := 0x41ff, i_size := 48,
       i_zone := (replicate 9 0)[0 := 7]\<rparr>]\<rparr>"

lemma fs_dir_simps:
  "i_size (inode_table fs_dir ! 1) = 48" "i_zone (inode_table fs_dir ! 1) = (replicate 9 0)[0 := 7]"
  "i_dev (inode_table fs_dir ! 1) = 0x301" "b_data (bufs fs_dir 1) = 0x1ff800"
  "bmem fs_dir = (\<lambda>_. 0)(0x1ff800 := 1, 0x1ff802 := 46, 0x1ff810 := 1, 0x1ff812 := 46, 0x1ff813 := 46,
       0x1ff820 := 5, 0x1ff822 := 97)" "cache_wf fs_dir" "in_cache 0x301 7 1 fs_dir" "one_page fs_dir"
proof -
  have "length (inode_table fs_mapped) = NR_INODE" by (simp add: fs_mapped_def fs_inodes_tables)
  then show "i_size (inode_table fs_dir ! 1) = 48" "i_zone (inode_table fs_dir ! 1) = (replicate 9 0)[0 := 7]"
    "i_dev (inode_table fs_dir ! 1) = 0x301"
    using fs_mapped_tables(2) by (simp_all add: fs_dir_def)
  show "cache_wf fs_dir" by (rule cache_wf_same [OF fs_mapped_cache(1)]) (simp_all add: fs_dir_def)
  show "in_cache 0x301 7 1 fs_dir" using fs_mapped_cache(2) by (simp add: fs_dir_def in_cache_def)
  show "one_page fs_dir"
    by (simp add: one_page_def fs_dir_def INIT_TASK_def lsl_def get_base_def bit_numeral_rec)
  show "b_data (bufs fs_dir 1) = 0x1ff800" using fs_mapped_data by (simp add: fs_dir_def)
qed (simp add: fs_dir_def)

theorem find_entry_finds_first_witness:
  "\<exists>u. find_entry (\<lambda>s. s) 1 0x2000 1 fs_dir = Done (1, Some (1, 0x1ff820)) u"
proof -
  let ?x = "inode_table fs_dir ! 1"
  have z: "zone_of (\<lambda>_. 1) fs_dir ?x 0 = 7" by (simp add: zone_of_def fs_dir_simps [simplified])
  have j0: "64 * j < (3 :: nat) \<longleftrightarrow> j = 0" for j by auto
  have d: "dir_at_hand (\<lambda>_. 1) (\<lambda>_. 1) fs_dir 1 3"
    using z [simplified] fs_dir_simps(7) [simplified] j0 by (simp add: dir_at_hand_def Let_def fs_dir_simps at_hand_block_def indirects_def fs_dir_simps [simplified])
  have w: "linear 0x2000 fs_dir = 0x2000" "readable 0x2000 fs_dir" "phys 0x2000 fs_dir = 0x200000"
    using one_page_walk [where a = "0x2000", OF fs_dir_simps(8)] by simp_all
  have nm: "user_bytes 0x2000 (min 1 14) fs_dir = [97]"
    by (simp add: user_bytes_Suc w byte_at_def) (simp add: fs_dir_def)
  have "\<exists>u r. find_entry (\<lambda>s. s) 1 0x2000 (of_nat 1) fs_dir = Done (1, r) u \<and> found (\<lambda>_. 1) fs_dir 3 [97] r u"
    by (rule find_entry_finds_first [OF fs_dir_simps(6) d]) (use w nm in simp_all)
  then obtain u r where r: "find_entry (\<lambda>s. s) 1 0x2000 1 fs_dir = Done (1, r) u" "found (\<lambda>_. 1) fs_dir 3 [97] r u" by auto
  have e: "entry_is fs_dir (dirent (\<lambda>_. 1) fs_dir k) [97] \<longleftrightarrow> k = 2" if "k < 3" for k
  proof -
    have "k = 0 \<or> k = 1 \<or> k = 2" using that by auto
    then show ?thesis by (elim disjE) (simp_all add: entry_is_def dirent_def fs_dir_simps fs_dir_simps [simplified] load16_def)
  qed
  have "r = Some (1, 0x1ff820)"
  proof (cases r)
    case None
    then have "\<not> entry_is fs_dir (dirent (\<lambda>_. 1) fs_dir 2) [97]" using r(2) by (simp add: found_def)
    then show ?thesis using e [of 2] by simp
  next
    case (Some p)
    then obtain k where "k < 3" "p = (1, dirent (\<lambda>_. 1) fs_dir k)" "entry_is fs_dir (dirent (\<lambda>_. 1) fs_dir k) [97]"
      using r(2) by (cases p) (auto simp: found_def)
    with e [of k] Some show ?thesis by (simp add: dirent_def fs_dir_simps [simplified])
  qed
  with r(1) show ?thesis by blast
qed

text \<open>A path in the task's memory is split at its slashes: the scan for one component returns the bytes
  before the first slash and stops behind it, or at the end, and the scan for the last component returns the
  address and the length of what follows the last slash, the whole path when there is none.\<close>

theorem path_is_split:
  assumes "path_at p xs s" "length xs < 2 ^ 32"
  shows "scan_name path_room p 0 s = Done (if 47 \<in> set xs then 47 else 0, p + of_nat (length (first_name xs)) + 1,
      of_nat (length (first_name xs))) s \<and>
    scan_base path_room p p s = Done (of_nat (length (base_name xs)), p + of_nat (length xs - length (base_name xs))) s \<and>
    xs = first_name xs @ drop (length (first_name xs)) xs \<and> 47 \<notin> set (first_name xs) \<and>
    drop (length xs - length (base_name xs)) xs = base_name xs \<and> 47 \<notin> set (base_name xs)"
proof -
  have room: "length xs < path_room" using assms(2) by (simp add: path_room_def)
  have "scan_base path_room p p s = Done (of_nat (length (base_name xs)), p + of_nat (length xs - length (base_name xs))) s"
    using scan_base_last [OF assms(1) room, of p] base_name_id [of xs] by (cases "47 \<in> set xs") auto
  moreover have "first_name xs @ drop (length (first_name xs)) xs = xs"
    using takeWhile_dropWhile_id [of "\<lambda>c. c \<noteq> 47" xs] by (simp add: first_name_def dropWhile_eq_drop)
  moreover have "47 \<notin> set (first_name xs)" "47 \<notin> set (base_name xs)"
    by (auto simp: first_name_def base_name_def dest: set_takeWhileD)
  moreover have "drop (length xs - length (base_name xs)) xs = base_name xs"
  proof -
    let ?k = "length (base_name xs)"
    have "take ?k (rev xs) = takeWhile (\<lambda>c. c \<noteq> 47) (rev xs)" by (simp add: base_name_def takeWhile_eq_take [symmetric])
    then have "rev (take ?k (rev xs)) = base_name xs" by (simp add: base_name_def)
    then show ?thesis by (simp add: rev_take)
  qed
  ultimately show ?thesis using scan_name_first [OF assms(1) room, of 0] by simp
qed

theorem path_is_split_witness:
  "scan_base path_room 0x2000 0x2000 (fs_dir\<lparr>pmem := (\<lambda>_. 0)(0 := 0x5007, 0x5008 := 0x200007, 0x200000 := 0x622f61)\<rparr>) =
     Done (1, 0x2002) (fs_dir\<lparr>pmem := (\<lambda>_. 0)(0 := 0x5007, 0x5008 := 0x200007, 0x200000 := 0x622f61)\<rparr>)"
proof -
  obtain s where s: "s = fs_dir\<lparr>pmem := (\<lambda>_. 0)(0 := 0x5007, 0x5008 := 0x200007, 0x200000 := 0x622f61)\<rparr>" by simp
  have o: "one_page s" using fs_dir_simps(8) by (simp add: one_page_def s)
  note w = one_page_walk [OF o]
  have r: "readable (0x2000 + of_nat i) s" "phys (linear (0x2000 + of_nat i) s) s = 0x200000 + of_nat i" if "i < 4" for i
  proof -
    have "i = 0 \<or> i = 1 \<or> i = 2 \<or> i = 3" using that by auto
    then show "readable (0x2000 + of_nat i) s" "phys (linear (0x2000 + of_nat i) s) s = 0x200000 + of_nat i"
      using w [of "0x2000"] w [of "0x2001"] w [of "0x2002"] w [of "0x2003"] by auto
  qed
  have m: "pmem s 0x200000 = 0x622f61" by (simp add: s)
  have "user_bytes 0x2000 (Suc (length [97 :: u8, 47, 98])) s = [97, 47, 98] @ [0]"
  proof -
    have "[0 ..< 4] = [0 :: nat, 1, 2, 3]" by (simp add: upt_rec)
    then show ?thesis using r(2) [of 0] r(2) [of 1] r(2) [of 2] r(2) [of 3] m
      by (simp add: user_bytes_def byte_at_def)
  qed
  then have "path_at 0x2000 [97, 47, 98] s" using r(1) by (auto simp: path_at_def)
  from path_is_split [OF this] show ?thesis unfolding s [symmetric] by (simp add: base_name_def)
qed

end
