(* ===== verification/Ring.thy ===== *)
theory Ring
  imports Prelude
begin

text \<open>
  The character queues of the terminals: \<^verbatim>\<open>struct tty_queue\<close> and the queue macros of
  \<^verbatim>\<open>include/linux/tty.h\<close>, and the functions of \<^verbatim>\<open>kernel/chr_drv/tty_queue.c\<close>.
  A queue is a ring of 1024 bytes with a head, where bytes are put, and a tail, where they are taken;
  the interface \<open>bounded_fifo\<close> says what both sets of operations promise as long as the ring is not
  full, and is shown of both.
\<close>

section \<open>The ring and its macros\<close>

abbreviation (input) TTY_BUF_SIZE :: nat where "TTY_BUF_SIZE \<equiv> 1024"

record tty_queue =
  q_buf :: "u8 list"
  q_head :: u32
  q_tail :: u32

definition INC :: "u32 \<Rightarrow> u32" where "INC a = (a + 1) AND 1023"
definition DEC :: "u32 \<Rightarrow> u32" where "DEC a = (a - 1) AND 1023"
definition EMPTY :: "tty_queue \<Rightarrow> bool" where "EMPTY q \<longleftrightarrow> q_head q = q_tail q"
definition LEFT :: "tty_queue \<Rightarrow> u32" where "LEFT q = (q_tail q - q_head q - 1) AND 1023"
definition LAST :: "tty_queue \<Rightarrow> u8" where "LAST q = q_buf q ! unat (1023 AND (q_head q - 1))"
definition FULL :: "tty_queue \<Rightarrow> bool" where "FULL q \<longleftrightarrow> LEFT q = 0"
definition CHARS :: "tty_queue \<Rightarrow> u32" where "CHARS q = (q_head q - q_tail q) AND 1023"

definition GETCH :: "tty_queue \<Rightarrow> u8 \<times> tty_queue" where
  "GETCH q = (q_buf q ! unat (q_tail q), q\<lparr>q_tail := INC (q_tail q)\<rparr>)"

definition PUTCH :: "u8 \<Rightarrow> tty_queue \<Rightarrow> tty_queue" where
  "PUTCH c q = q\<lparr>q_buf := (q_buf q)[unat (q_head q) := c], q_head := INC (q_head q)\<rparr>"

section \<open>tty\_queue.c\<close>

definition tty_isempty_q :: "tty_queue \<Rightarrow> u32" where
  "tty_isempty_q q = (if q_tail q = q_head q then 1 else 0)"

definition tty_isfull_q :: "tty_queue \<Rightarrow> u32" where
  "tty_isfull_q q = (if (q_head q + 1) mod of_nat TTY_BUF_SIZE = q_tail q then 1 else 0)"

definition tty_pop_q :: "tty_queue \<Rightarrow> u8 \<times> tty_queue" where
  "tty_pop_q q = (q_buf q ! unat (q_tail q), q\<lparr>q_tail := (q_tail q + 1) mod of_nat TTY_BUF_SIZE\<rparr>)"

definition tty_push_q :: "u8 \<Rightarrow> tty_queue \<Rightarrow> u32 \<times> tty_queue" where
  "tty_push_q ch q =
     (if tty_isfull_q q \<noteq> 0 then (-1, q)
      else (0, q\<lparr>q_buf := (q_buf q)[unat (q_head q) := ch], q_head := (q_head q + 1) mod of_nat TTY_BUF_SIZE\<rparr>))"

definition tty_queue_head :: "tty_queue \<Rightarrow> u8" where
  "tty_queue_head q = q_buf q ! unat (q_head q)"

definition tty_queue_tail :: "tty_queue \<Rightarrow> u8" where
  "tty_queue_tail q = q_buf q ! unat (q_tail q)"

text \<open>
  The bytes that the loop of \<open>tty_queue_stat\<close> prints, in order; from an index below 1024 it ends
  within 1024 rounds, or it never does.
\<close>

primrec stat_from :: "nat \<Rightarrow> u32 \<Rightarrow> tty_queue \<Rightarrow> u8 list option" where
  "stat_from 0 i q = None"
| "stat_from (Suc n) i q =
     (if i = q_head q then Some []
      else map_option ((#) (q_buf q ! unat i)) (stat_from n ((i + 1) mod of_nat TTY_BUF_SIZE) q))"

definition tty_queue_stat :: "tty_queue \<Rightarrow> u8 list option" where
  "tty_queue_stat q = stat_from TTY_BUF_SIZE (q_tail q) q"

section \<open>Bounded queues\<close>

text \<open>
  What a client of a bounded queue relies on: \<open>put\<close> appends while there is room, \<open>get\<close> takes
  the first element, \<open>is_mt\<close> and \<open>is_full\<close> tell the two ends of the range apart.
\<close>

locale bounded_fifo =
  fixes contents :: "'q \<Rightarrow> 'a list" and wf :: "'q \<Rightarrow> bool" and cap :: nat
    and put :: "'a \<Rightarrow> 'q \<Rightarrow> 'q" and get :: "'q \<Rightarrow> 'a \<times> 'q"
    and is_mt :: "'q \<Rightarrow> bool" and is_full :: "'q \<Rightarrow> bool"
  assumes length_contents: "wf q \<Longrightarrow> length (contents q) \<le> cap"
    and is_mt_iff: "wf q \<Longrightarrow> is_mt q \<longleftrightarrow> contents q = []"
    and is_full_iff: "wf q \<Longrightarrow> is_full q \<longleftrightarrow> length (contents q) = cap"
    and wf_put: "wf q \<Longrightarrow> wf (put x q)"
    and contents_put: "wf q \<Longrightarrow> \<not> is_full q \<Longrightarrow> contents (put x q) = contents q @ [x]"
    and wf_get: "wf q \<Longrightarrow> wf (snd (get q))"
    and contents_get: "wf q \<Longrightarrow> contents q = x # xs \<Longrightarrow> fst (get q) = x \<and> contents (snd (get q)) = xs"
begin

text \<open>Putting a list, and taking everything out.\<close>

lemma wf_put_all: "wf q \<Longrightarrow> wf (fold put xs q)"
  by (rule fold_keeps) (simp_all add: wf_put)

lemma contents_put_all:
  "wf q \<Longrightarrow> length (contents q) + length xs \<le> cap \<Longrightarrow> contents (fold put xs q) = contents q @ xs"
proof (induction xs arbitrary: q)
  case (Cons x xs)
  then have "\<not> is_full q" by (simp add: is_full_iff)
  with Cons show ?case by (simp add: contents_put wf_put)
qed simp

lemma not_full: "wf q \<Longrightarrow> \<not> is_full q \<longleftrightarrow> length (contents q) < cap"
  using length_contents [of q] by (auto simp: is_full_iff)

primrec take_out :: "nat \<Rightarrow> 'q \<Rightarrow> 'a list \<times> 'q" where
  "take_out 0 q = ([], q)"
| "take_out (Suc n) q =
     (if is_mt q then ([], q) else case get q of (x, q) \<Rightarrow> case take_out n q of (xs, q) \<Rightarrow> (x # xs, q))"

lemma take_out_contents:
  "wf q \<Longrightarrow> fst (take_out n q) = take n (contents q) \<and> contents (snd (take_out n q)) = drop n (contents q) \<and>
     wf (snd (take_out n q))"
proof (induction n arbitrary: q)
  case (Suc n)
  show ?case
  proof (cases "contents q")
    case Nil
    with Suc.prems show ?thesis by (simp add: is_mt_iff)
  next
    case (Cons x xs)
    note step = contents_get [OF Suc.prems Cons]
    from Suc.IH [OF wf_get [OF Suc.prems]] step Cons Suc.prems show ?thesis
      by (auto simp: is_mt_iff split: prod.split)
  qed
qed simp

lemma put_then_take:
  assumes "wf q" "contents q = []" "length xs \<le> cap"
  shows "fst (take_out (length xs) (fold put xs q)) = xs"
proof -
  have "contents (fold put xs q) = xs" using contents_put_all [of q xs] assms by simp
  with take_out_contents [OF wf_put_all [OF assms(1)], of "length xs" xs] show ?thesis by simp
qed

end

section \<open>The ring is a queue\<close>

definition ring_wf :: "tty_queue \<Rightarrow> bool" where
  "ring_wf q \<longleftrightarrow> length (q_buf q) = 1024 \<and> unat (q_head q) < 1024 \<and> unat (q_tail q) < 1024"

definition chars :: "tty_queue \<Rightarrow> nat" where
  "chars q = (unat (q_head q) + 1024 - unat (q_tail q)) mod 1024"

definition ring_contents :: "tty_queue \<Rightarrow> u8 list" where
  "ring_contents q = map (\<lambda>i. q_buf q ! ((unat (q_tail q) + i) mod 1024)) [0..<chars q]"

lemma ring_distance: "(t :: nat) \<le> h \<Longrightarrow> h < 1024 \<Longrightarrow> (h + 1024 - t) mod 1024 = h - t"
proof -
  assume "t \<le> h" "h < 1024"
  then have "h + 1024 - t = (h - t) + 1024" by simp
  then have "(h + 1024 - t) mod 1024 = (h - t) mod 1024" by (simp only: mod_add_self2)
  with \<open>h < 1024\<close> show ?thesis by simp
qed

lemma chars_cases:
  assumes "ring_wf q"
  shows "chars q = (if unat (q_tail q) \<le> unat (q_head q) then unat (q_head q) - unat (q_tail q)
    else unat (q_head q) + 1024 - unat (q_tail q))" "chars q < 1024"
proof -
  show "chars q < 1024" by (simp add: chars_def)
  show "chars q = (if unat (q_tail q) \<le> unat (q_head q) then unat (q_head q) - unat (q_tail q)
    else unat (q_head q) + 1024 - unat (q_tail q))"
  proof (cases "unat (q_tail q) \<le> unat (q_head q)")
    case True
    with assms show ?thesis by (simp add: chars_def ring_wf_def ring_distance)
  qed (use assms in \<open>simp add: chars_def ring_wf_def\<close>)
qed

lemma head_at: "ring_wf q \<Longrightarrow> (unat (q_tail q) + chars q) mod 1024 = unat (q_head q)"
  by (simp add: chars_cases ring_wf_def)

lemma next_index: "unat a < 1024 \<Longrightarrow> unat ((a :: u32) + 1) = unat a + 1"
proof -
  assume "unat a < 1024"
  then have "unat a + 1 < 2 ^ 32" by simp
  then show ?thesis by (simp add: unat_word_ariths)
qed

lemma unat_INC: "unat (INC a) = (unat a + 1) mod 1024"
  by (simp add: INC_def unat_inc_1023)

lemma INC_is_mod: "INC a = (a + 1) mod of_nat 1024"
proof -
  have "(a + 1) mod 1024 = (a + 1) AND 1023"
    using take_bit_eq_mod [of 10 "a + 1"] by (simp add: mask_literals(1) take_bit_eq_mask)
  then show ?thesis by (simp add: INC_def)
qed

lemma full_iff:
  assumes "ring_wf q"
  shows "INC (q_head q) = q_tail q \<longleftrightarrow> chars q = 1023"
proof -
  have "INC (q_head q) = q_tail q \<longleftrightarrow> (unat (q_head q) + 1) mod 1024 = unat (q_tail q)"
    by (simp add: word_unat_eq_iff unat_INC)
  also have "\<dots> \<longleftrightarrow> chars q = 1023"
  proof (cases "unat (q_head q) = 1023")
    case True
    with assms show ?thesis by (auto simp: chars_cases ring_wf_def)
  next
    case False
    with assms have "(unat (q_head q) + 1) mod 1024 = unat (q_head q) + 1" by (simp add: ring_wf_def)
    with assms show ?thesis by (auto simp: chars_cases(1) ring_wf_def)
  qed
  finally show ?thesis .
qed

lemma dvd_word_diff: "1024 dvd unat (a - b :: u32) \<longleftrightarrow> 1024 dvd uint a - uint b"
proof -
  have "1024 dvd unat (a - b) \<longleftrightarrow> 1024 dvd uint (a - b)"
    using int_dvd_int_iff [of 1024 "unat (a - b)"] by simp
  also have "uint (a - b) = (uint a - uint b) mod 2 ^ 32" by (simp add: uint_word_ariths)
  also have "1024 dvd (uint a - uint b) mod 2 ^ 32 \<longleftrightarrow> 1024 dvd uint a - uint b"
    by (rule dvd_mod_iff) simp
  finally show ?thesis .
qed

lemma dvd_1024_small: "- 1024 \<le> (k :: int) \<Longrightarrow> k < 1024 \<Longrightarrow> 1024 dvd k \<longleftrightarrow> k = 0 \<or> k = - 1024"
proof
  assume k: "- 1024 \<le> k" "k < 1024" "1024 dvd k"
  then obtain j where "k = 1024 * j" by (elim dvdE)
  with k have "j = 0 \<or> j = - 1" by linarith
  with \<open>k = 1024 * j\<close> show "k = 0 \<or> k = - 1024" by auto
qed auto

lemma full_arith:
  "(h :: nat) < 1024 \<Longrightarrow> t < 1024 \<Longrightarrow> int t - int (h + 1) = 0 \<or> int t - int (h + 1) = - 1024 \<longleftrightarrow>
     (if t \<le> h then h - t else h + 1024 - t) = 1023"
  by auto

lemma FULL_iff: "ring_wf q \<Longrightarrow> FULL q \<longleftrightarrow> chars q = 1023"
proof -
  assume wf: "ring_wf q"
  let ?h = "unat (q_head q)" and ?t = "unat (q_tail q)"
  have b: "?h < 1024" "?t < 1024" using wf by (simp_all add: ring_wf_def)
  have "FULL q \<longleftrightarrow> 1024 dvd unat (q_tail q - (q_head q + 1))"
    by (simp add: FULL_def LEFT_def word_unat_eq_iff unat_and_1023 diff_diff_eq mod_eq_0_iff_dvd)
  also have "\<dots> \<longleftrightarrow> 1024 dvd int ?t - int (unat (q_head q + 1))"
    unfolding dvd_word_diff by simp
  also have "unat (q_head q + 1) = ?h + 1" by (rule next_index [OF b(1)])
  also have "1024 dvd int ?t - int (?h + 1) \<longleftrightarrow> int ?t - int (?h + 1) = 0 \<or> int ?t - int (?h + 1) = - 1024"
    by (rule dvd_1024_small) (use b in linarith)+
  also have "\<dots> \<longleftrightarrow> chars q = 1023" unfolding chars_cases(1) [OF wf] by (rule full_arith [OF b])
  finally show ?thesis .
qed

lemma wrap: "(t :: nat) < 1024 \<Longrightarrow> i \<le> 1024 \<Longrightarrow> (t + i) mod 1024 = (if t + i < 1024 then t + i else t + i - 1024)"
  by (simp add: mod_if)

lemma wrap_neq: "(t :: nat) < 1024 \<Longrightarrow> i < j \<Longrightarrow> j < 1024 \<Longrightarrow> (t + i) mod 1024 \<noteq> (t + j) mod 1024"
  by (cases "t + i < 1024"; cases "t + j < 1024"; simp add: wrap)

lemma PUTCH_simps [simp]:
  "q_buf (PUTCH c q) = (q_buf q)[unat (q_head q) := c]" "q_head (PUTCH c q) = INC (q_head q)"
  "q_tail (PUTCH c q) = q_tail q"
  by (simp_all add: PUTCH_def)

lemma GETCH_simps [simp]:
  "fst (GETCH q) = q_buf q ! unat (q_tail q)" "q_buf (snd (GETCH q)) = q_buf q" "q_head (snd (GETCH q)) = q_head q"
  "q_tail (snd (GETCH q)) = INC (q_tail q)"
  by (simp_all add: GETCH_def)

lemma ring_wf_PUTCH: "ring_wf q \<Longrightarrow> ring_wf (PUTCH c q)"
  by (simp add: ring_wf_def unat_INC)

lemma ring_wf_GETCH: "ring_wf q \<Longrightarrow> ring_wf (snd (GETCH q))"
  by (simp add: ring_wf_def unat_INC)

lemma ring_inc: "(h :: nat) < 1024 \<Longrightarrow> t < 1024 \<Longrightarrow> ((h + 1) mod 1024 + 1024 - t) mod 1024 = ((h + 1024 - t) mod 1024 + 1) mod 1024"
proof -
  assume b: "h < 1024" "t < 1024"
  obtain d where d: "1024 = t + d" using b(2) by (metis less_imp_add_positive)
  have "((h + 1) mod 1024 + d) mod 1024 = ((h + d) mod 1024 + 1) mod 1024" by (simp add: mod_simps add.commute)
  moreover have "x + 1024 - t = x + d" for x using d by simp
  ultimately show ?thesis by (simp only:)
qed

lemma ring_dec: "(h :: nat) < 1024 \<Longrightarrow> t < 1024 \<Longrightarrow> h \<noteq> t \<Longrightarrow> (h + 1024 - (t + 1) mod 1024) mod 1024 + 1 = (h + 1024 - t) mod 1024"
proof (cases "t = 1023")
  case False
  assume b: "h < 1024" "t < 1024" "h \<noteq> t"
  with False have t: "(t + 1) mod 1024 = t + 1" by simp
  show ?thesis
  proof (cases "t < h")
    case True
    then have "(h + 1024 - (t + 1)) mod 1024 = h - (t + 1)" using b by (intro ring_distance) simp_all
    moreover have "(h + 1024 - t) mod 1024 = h - t" using b True by (intro ring_distance) simp_all
    ultimately show ?thesis using True t by (simp only:)
  next
    case False
    then have "(h + 1024 - (t + 1)) mod 1024 = h + 1024 - (t + 1)" using b by simp
    moreover have "(h + 1024 - t) mod 1024 = h + 1024 - t" using b False by simp
    ultimately show ?thesis using b t by simp
  qed
qed simp

lemma chars_PUTCH: "ring_wf q \<Longrightarrow> chars (PUTCH c q) = (chars q + 1) mod 1024"
  unfolding chars_def PUTCH_simps unat_INC by (rule ring_inc) (simp_all add: ring_wf_def)

lemma chars_GETCH: "ring_wf q \<Longrightarrow> \<not> EMPTY q \<Longrightarrow> chars (snd (GETCH q)) + 1 = chars q"
  unfolding chars_def GETCH_simps unat_INC
  by (rule ring_dec) (simp_all add: ring_wf_def EMPTY_def word_unat_eq_iff)

lemma chars_zero: "ring_wf q \<Longrightarrow> chars q = 0 \<longleftrightarrow> EMPTY q"
  by (auto simp: chars_cases(1) EMPTY_def ring_wf_def word_unat_eq_iff)

lemma contents_PUTCH:
  assumes "ring_wf q" "chars q < 1023"
  shows "ring_contents (PUTCH c q) = ring_contents q @ [c]"
proof -
  have len: "length (q_buf q) = 1024" "unat (q_head q) < 1024" "unat (q_tail q) < 1024"
    using assms(1) by (simp_all add: ring_wf_def)
  have "chars (PUTCH c q) = Suc (chars q)" using chars_PUTCH [OF assms(1), of c] assms(2) by simp
  moreover have "unat (q_head q) \<noteq> (unat (q_tail q) + i) mod 1024" if "i < chars q" for i
  proof -
    have "(unat (q_tail q) + i) mod 1024 \<noteq> (unat (q_tail q) + chars q) mod 1024"
      using that assms(2) len(3) by (intro wrap_neq) simp_all
    then show ?thesis by (metis head_at [OF assms(1)])
  qed
  ultimately show ?thesis
    using len by (simp add: ring_contents_def head_at [OF assms(1)])
qed

lemma contents_GETCH:
  assumes "ring_wf q" "ring_contents q = x # xs"
  shows "fst (GETCH q) = x" "ring_contents (snd (GETCH q)) = xs"
proof -
  let ?at = "\<lambda>i. q_buf q ! ((unat (q_tail q) + i) mod 1024)"
  from assms(2) have "chars q \<noteq> 0" by (cases "chars q") (simp_all add: ring_contents_def)
  then have "chars (snd (GETCH q)) + 1 = chars q" using chars_GETCH [OF assms(1)] chars_zero [OF assms(1)] by simp
  then have "[0..<chars q] = 0 # map Suc [0..<chars (snd (GETCH q))]"
    by (metis Suc_eq_plus1 map_Suc_upt upt_conv_Cons zero_less_Suc)
  with assms(2) have "x # xs = ?at 0 # map (\<lambda>i. ?at (Suc i)) [0..<chars (snd (GETCH q))]"
    by (simp add: ring_contents_def comp_def)
  moreover have "?at (Suc i) = q_buf q ! ((unat (q_tail (snd (GETCH q))) + i) mod 1024)" for i
    by (simp add: unat_INC mod_simps add.commute add.left_commute)
  moreover have "unat (q_tail q) mod 1024 = unat (q_tail q)" using assms(1) by (simp add: ring_wf_def)
  ultimately show "fst (GETCH q) = x" "ring_contents (snd (GETCH q)) = xs"
    by (simp_all add: ring_contents_def comp_def)
qed

interpretation macro: bounded_fifo ring_contents ring_wf 1023 PUTCH GETCH EMPTY FULL
proof unfold_locales
  fix q x xs
  assume wf: "ring_wf q"
  have len: "length (ring_contents q) = chars q" by (simp add: ring_contents_def)
  show "length (ring_contents q) \<le> 1023" using chars_cases(2) [OF wf] len by simp
  show "EMPTY q \<longleftrightarrow> ring_contents q = []" using chars_zero [OF wf] len by (metis length_0_conv)
  show "FULL q \<longleftrightarrow> length (ring_contents q) = 1023" using FULL_iff [OF wf] len by simp
  show "ring_wf (PUTCH x q)" by (rule ring_wf_PUTCH [OF wf])
  show "ring_wf (snd (GETCH q))" by (rule ring_wf_GETCH [OF wf])
  show "\<not> FULL q \<Longrightarrow> ring_contents (PUTCH x q) = ring_contents q @ [x]"
    using FULL_iff [OF wf] chars_cases(2) [OF wf] by (intro contents_PUTCH [OF wf]) simp
  show "ring_contents q = x # xs \<Longrightarrow> fst (GETCH q) = x \<and> ring_contents (snd (GETCH q)) = xs"
    using contents_GETCH [OF wf] by simp
qed

text \<open>The functions are the macros, behind a test for a full ring.\<close>

lemma tty_isempty_q_EMPTY: "tty_isempty_q q \<noteq> 0 \<longleftrightarrow> EMPTY q"
  by (auto simp: tty_isempty_q_def EMPTY_def)

lemma tty_isfull_q_FULL: "ring_wf q \<Longrightarrow> tty_isfull_q q \<noteq> 0 \<longleftrightarrow> FULL q"
  unfolding tty_isfull_q_def INC_is_mod [symmetric] by (simp add: FULL_iff full_iff)

lemma tty_pop_q_GETCH: "tty_pop_q q = GETCH q"
  unfolding tty_pop_q_def INC_is_mod [symmetric] GETCH_def ..

lemma tty_push_q_PUTCH: "ring_wf q \<Longrightarrow> tty_push_q c q = (if FULL q then (-1, q) else (0, PUTCH c q))"
  unfolding tty_push_q_def INC_is_mod [symmetric] PUTCH_def by (simp add: tty_isfull_q_FULL)

interpretation calls: bounded_fifo ring_contents ring_wf 1023 "\<lambda>c q. snd (tty_push_q c q)" tty_pop_q
  "\<lambda>q. tty_isempty_q q \<noteq> 0" "\<lambda>q. tty_isfull_q q \<noteq> 0"
  by unfold_locales
    (auto simp: tty_isempty_q_EMPTY tty_isfull_q_FULL tty_pop_q_GETCH tty_push_q_PUTCH macro.length_contents
      macro.is_mt_iff macro.is_full_iff macro.wf_put macro.wf_get macro.contents_put
      dest: macro.contents_get)

lemma stat_from_contents:
  assumes "ring_wf q"
  shows "unat i < 1024 \<Longrightarrow> chars (q\<lparr>q_tail := i\<rparr>) < n \<Longrightarrow> stat_from n i q = Some (ring_contents (q\<lparr>q_tail := i\<rparr>))"
proof (induction n arbitrary: i)
  case (Suc n)
  let ?q = "q\<lparr>q_tail := i\<rparr>"
  have wf: "ring_wf ?q" using assms Suc.prems(1) by (simp add: ring_wf_def)
  show ?case
  proof (cases "EMPTY ?q")
    case True
    then show ?thesis using macro.is_mt_iff [OF wf] by (simp add: EMPTY_def)
  next
    case False
    with macro.is_mt_iff [OF wf] obtain x xs where c: "ring_contents ?q = x # xs" by (cases "ring_contents ?q") auto
    note get = contents_GETCH [OF wf c]
    have "stat_from n (INC i) q = Some (ring_contents (q\<lparr>q_tail := INC i\<rparr>))"
    proof (rule Suc.IH)
      show "unat (INC i) < 1024" by (simp add: unat_INC)
      show "chars (q\<lparr>q_tail := INC i\<rparr>) < n"
        using chars_GETCH [OF wf False] Suc.prems(2) by (simp add: chars_def)
    qed
    then show ?thesis using False get c
      by (simp add: EMPTY_def INC_is_mod GETCH_def eq_commute [of i])
  qed
qed simp

section \<open>Overrun and taking back\<close>

lemma chars_PUTCH_all: "ring_wf q \<Longrightarrow> chars (fold PUTCH xs q) = (chars q + length xs) mod 1024"
proof (induction xs arbitrary: q)
  case (Cons x xs)
  from Cons.IH [OF ring_wf_PUTCH [OF Cons.prems]] show ?case
    by (simp add: chars_PUTCH [OF Cons.prems] mod_simps)
qed (simp add: chars_cases(2))

text \<open>
  \<open>PUTCH\<close> does not ask for room: the byte that fills the ring up makes it empty, so of a long run of
  bytes only those after the last multiple of 1024 are left.
\<close>

lemma contents_overrun:
  "ring_wf q \<Longrightarrow> EMPTY q \<Longrightarrow> ring_contents (fold PUTCH xs q) = drop (1024 * (length xs div 1024)) xs"
proof (induction "length xs" arbitrary: xs q rule: less_induct)
  case less
  show ?case
  proof (cases "length xs < 1024")
    case True
    then show ?thesis using macro.contents_put_all [OF less.prems(1), of xs] macro.is_mt_iff [OF less.prems(1)] less.prems(2)
      by simp
  next
    case False
    let ?q = "fold PUTCH (take 1024 xs) q"
    have wf: "ring_wf ?q" by (rule macro.wf_put_all [OF less.prems(1)])
    have "chars ?q = 0"
      using chars_PUTCH_all [OF less.prems(1), of "take 1024 xs"] chars_zero [OF less.prems(1)] less.prems(2) False by simp
    then have "EMPTY ?q" using chars_zero [OF wf] by simp
    from less.hyps [OF _ wf this, of "drop 1024 xs"] False
    have "ring_contents (fold PUTCH (drop 1024 xs) ?q) = drop (1024 * ((length xs - 1024) div 1024)) (drop 1024 xs)"
      by simp
    moreover have "fold PUTCH (drop 1024 xs) ?q = fold PUTCH xs q"
      by (metis append_take_drop_id comp_apply fold_append)
    moreover have "1024 * ((length xs - 1024) div 1024) + 1024 = 1024 * (length xs div 1024)"
      using False by (simp add: le_div_geq)
    ultimately show ?thesis by simp
  qed
qed

lemma unat_DEC: "unat (DEC a) = (unat a + 1023) mod 1024"
  by (simp add: DEC_def unat_dec_1023)

lemma INC_DEC: "unat a < 1024 \<Longrightarrow> INC (DEC a) = a"
  by (simp add: word_unat_eq_iff unat_INC unat_DEC mod_simps)

lemma contents_DEC:
  assumes "ring_wf q" "\<not> EMPTY q"
  shows "ring_wf (q\<lparr>q_head := DEC (q_head q)\<rparr>)" "ring_contents q \<noteq> []"
    "ring_contents (q\<lparr>q_head := DEC (q_head q)\<rparr>) = butlast (ring_contents q)"
    "q_buf q ! unat (DEC (q_head q)) = last (ring_contents q)"
proof -
  let ?q = "q\<lparr>q_head := DEC (q_head q)\<rparr>" and ?c = "q_buf q ! unat (DEC (q_head q))"
  show wf: "ring_wf ?q" using assms(1) by (simp add: ring_wf_def unat_DEC)
  have h: "unat (q_head q) < 1024" using assms(1) by (simp add: ring_wf_def)
  have q: "PUTCH ?c ?q = q" by (simp add: PUTCH_def INC_DEC [OF h])
  then have "chars q = (chars ?q + 1) mod 1024" using chars_PUTCH [OF wf, of ?c] by simp
  then have "chars ?q \<noteq> 1023" using chars_zero [OF assms(1)] assms(2) by auto
  then have "chars ?q < 1023" using chars_cases(2) [OF wf] by simp
  from contents_PUTCH [OF wf this, of ?c] have c: "ring_contents q = ring_contents ?q @ [?c]" by (simp only: q)
  then show "ring_contents q \<noteq> []" "ring_contents ?q = butlast (ring_contents q)" "?c = last (ring_contents q)"
    by simp_all
qed

end
