(* ===== verification/Text.thy ===== *)
theory Text
  imports Prelude
begin

text \<open>
  The string and memory functions of \<^verbatim>\<open>include/string.h\<close>, over a flat memory of bytes.
  Each is a few string instructions of the 80386; the definitions follow the instructions, with
  \<open>repne scasb\<close>, \<open>repe cmpsb\<close>, \<open>rep movsb\<close> and \<open>rep stosb\<close> as functions of the count register.
  A loop that only ends at a terminator is a \<open>partial_function\<close>: \<open>None\<close> says that it never ends.
\<close>

type_synonym mem = "u32 \<Rightarrow> u8"

section \<open>The string instructions\<close>

primrec movsb_up :: "nat \<Rightarrow> u32 \<Rightarrow> u32 \<Rightarrow> mem \<Rightarrow> mem" where
  "movsb_up 0 si di m = m"
| "movsb_up (Suc n) si di m = movsb_up n (si + 1) (di + 1) (m(di := m si))"

primrec movsb_down :: "nat \<Rightarrow> u32 \<Rightarrow> u32 \<Rightarrow> mem \<Rightarrow> mem" where
  "movsb_down 0 si di m = m"
| "movsb_down (Suc n) si di m = movsb_down n (si - 1) (di - 1) (m(di := m si))"

primrec stosb :: "nat \<Rightarrow> u8 \<Rightarrow> u32 \<Rightarrow> mem \<Rightarrow> mem" where
  "stosb 0 al di m = m"
| "stosb (Suc n) al di m = stosb n al (di + 1) (m(di := al))"

text \<open>\<open>repne scasb\<close>: the count and the address left, and whether the byte was found.\<close>

primrec repne_scasb :: "nat \<Rightarrow> u8 \<Rightarrow> u32 \<Rightarrow> mem \<Rightarrow> nat \<times> u32 \<times> bool" where
  "repne_scasb 0 al di m = (0, di, False)"
| "repne_scasb (Suc n) al di m = (if m di = al then (n, di + 1, True) else repne_scasb n al (di + 1) m)"

text \<open>\<open>repe cmpsb\<close>: the address \<open>esi\<close> left, and the first pair of bytes that differ.\<close>

primrec repe_cmpsb :: "nat \<Rightarrow> u32 \<Rightarrow> u32 \<Rightarrow> mem \<Rightarrow> u32 \<times> (u8 \<times> u8) option" where
  "repe_cmpsb 0 si di m = (si, None)"
| "repe_cmpsb (Suc n) si di m = (if m si = m di then repe_cmpsb n (si + 1) (di + 1) m else (si + 1, Some (m si, m di)))"

text \<open>What the comparing functions return for a byte of \<open>ct\<close> and a different byte of \<open>cs\<close>: \<open>jl\<close> reads them signed.\<close>

definition cmp_result :: "u8 \<Rightarrow> u8 \<Rightarrow> u32" where
  "cmp_result t c = (if sint t < sint c then 1 else -1)"

section \<open>Memory functions\<close>

definition memcpy :: "u32 \<Rightarrow> u32 \<Rightarrow> u32 \<Rightarrow> mem \<Rightarrow> u32 \<times> mem" where
  "memcpy dest src n m = (dest, movsb_up (unat n) src dest m)"

definition memmove :: "u32 \<Rightarrow> u32 \<Rightarrow> u32 \<Rightarrow> mem \<Rightarrow> u32 \<times> mem" where
  "memmove dest src n m =
     (dest, if dest < src then movsb_up (unat n) src dest m
            else movsb_down (unat n) (src + n - 1) (dest + n - 1) m)"

definition memset :: "u32 \<Rightarrow> u8 \<Rightarrow> u32 \<Rightarrow> mem \<Rightarrow> u32 \<times> mem" where
  "memset s c n m = (s, stosb (unat n) c s m)"

text \<open>With a count of 0 the jump after \<open>repe cmpsb\<close> tests a flag set by earlier code: \<open>None\<close>.\<close>

definition memcmp :: "u32 \<Rightarrow> u32 \<Rightarrow> u32 \<Rightarrow> mem \<Rightarrow> u32 option" where
  "memcmp cs ct n m =
     (if n = 0 then None
      else case snd (repe_cmpsb (unat n) ct cs m) of None \<Rightarrow> Some 0 | Some (t, c) \<Rightarrow> Some (cmp_result t c))"

definition memchr :: "u32 \<Rightarrow> u8 \<Rightarrow> u32 \<Rightarrow> mem \<Rightarrow> u32" where
  "memchr cs c n m =
     (if n = 0 then 0
      else case repne_scasb (unat n) c cs m of (_, di, found) \<Rightarrow> if found then di - 1 else 1 - 1)"

section \<open>String functions\<close>

text \<open>\<open>repne scasb\<close> from \<open>p\<close> for the byte 0 with \<open>ecx = 0xffffffff\<close>, and \<open>notl\<close>, \<open>decl\<close>: the length.\<close>

abbreviation (input) ecx_max :: nat where "ecx_max \<equiv> 0xffffffff"

definition strlen :: "u32 \<Rightarrow> mem \<Rightarrow> u32" where
  "strlen s m = NOT (of_nat (fst (repne_scasb ecx_max 0 s m))) - 1"

partial_function (option) copy_loop :: "u32 \<Rightarrow> u32 \<Rightarrow> mem \<Rightarrow> mem option" where
  "copy_loop si di m = (if m si = 0 then Some (m(di := 0)) else copy_loop (si + 1) (di + 1) (m(di := m si)))"

definition strcpy :: "u32 \<Rightarrow> u32 \<Rightarrow> mem \<Rightarrow> (u32 \<times> mem) option" where
  "strcpy dest src m = map_option (Pair dest) (copy_loop src dest m)"

text \<open>
  \<open>decl\<close> and \<open>js\<close> at the head of a loop: it is left when the count less one is negative, so an \<open>int\<close>
  count gives this many rounds.
\<close>

definition rounds :: "u32 \<Rightarrow> nat" where
  "rounds n = (if sint (n - 1) < 0 then 0 else unat n)"

primrec strncpy_loop :: "nat \<Rightarrow> u32 \<Rightarrow> u32 \<Rightarrow> mem \<Rightarrow> mem" where
  "strncpy_loop 0 si di m = m"
| "strncpy_loop (Suc n) si di m =
     (if m si = 0 then stosb n 0 (di + 1) (m(di := 0)) else strncpy_loop n (si + 1) (di + 1) (m(di := m si)))"

definition strncpy :: "u32 \<Rightarrow> u32 \<Rightarrow> u32 \<Rightarrow> mem \<Rightarrow> u32 \<times> mem" where
  "strncpy dest src n m = (dest, strncpy_loop (rounds n) src dest m)"

definition strcat :: "u32 \<Rightarrow> u32 \<Rightarrow> mem \<Rightarrow> (u32 \<times> mem) option" where
  "strcat dest src m =
     (case repne_scasb ecx_max 0 dest m of (_, di, _) \<Rightarrow> map_option (Pair dest) (copy_loop src (di - 1) m))"

text \<open>The copying loop of \<open>strncat\<close> leaves at its terminator too, and then stores one more.\<close>

primrec strncat_loop :: "nat \<Rightarrow> u32 \<Rightarrow> u32 \<Rightarrow> mem \<Rightarrow> mem" where
  "strncat_loop 0 si di m = m(di := 0)"
| "strncat_loop (Suc n) si di m =
     (if m si = 0 then m(di := 0, di + 1 := 0) else strncat_loop n (si + 1) (di + 1) (m(di := m si)))"

definition strncat :: "u32 \<Rightarrow> u32 \<Rightarrow> u32 \<Rightarrow> mem \<Rightarrow> u32 \<times> mem" where
  "strncat dest src n m =
     (case repne_scasb ecx_max 0 dest m of (_, di, _) \<Rightarrow> (dest, strncat_loop (rounds n) src (di - 1) m))"

partial_function (option) strcmp :: "u32 \<Rightarrow> u32 \<Rightarrow> mem \<Rightarrow> u32 option" where
  "strcmp cs ct m =
     (if m ct \<noteq> m cs then Some (cmp_result (m ct) (m cs))
      else if m ct = 0 then Some 0 else strcmp (cs + 1) (ct + 1) m)"

primrec strncmp_loop :: "nat \<Rightarrow> u32 \<Rightarrow> u32 \<Rightarrow> mem \<Rightarrow> u32" where
  "strncmp_loop 0 cs ct m = 0"
| "strncmp_loop (Suc n) cs ct m =
     (if m ct \<noteq> m cs then cmp_result (m ct) (m cs)
      else if m ct = 0 then 0 else strncmp_loop n (cs + 1) (ct + 1) m)"

definition strncmp :: "u32 \<Rightarrow> u32 \<Rightarrow> u32 \<Rightarrow> mem \<Rightarrow> u32" where
  "strncmp cs ct n m = strncmp_loop (rounds n) cs ct m"

partial_function (option) strchr :: "u32 \<Rightarrow> u8 \<Rightarrow> mem \<Rightarrow> u32 option" where
  "strchr s c m = (if m s = c then Some s else if m s = 0 then Some (1 - 1) else strchr (s + 1) c m)"

partial_function (option) strrchr_loop :: "u32 \<Rightarrow> u32 \<Rightarrow> u8 \<Rightarrow> mem \<Rightarrow> u32 option" where
  "strrchr_loop edx si c m =
     (let edx = (if m si = c then si else edx) in if m si = 0 then Some edx else strrchr_loop edx (si + 1) c m)"

definition strrchr :: "u32 \<Rightarrow> u8 \<Rightarrow> mem \<Rightarrow> u32 option" where
  "strrchr s c m = strrchr_loop 0 s c m"

text \<open>Whether a byte is among the first \<open>edx\<close> bytes at \<open>ct\<close>, as the inner \<open>repne scasb\<close> finds out.\<close>

definition among :: "u8 \<Rightarrow> u32 \<Rightarrow> u32 \<Rightarrow> mem \<Rightarrow> bool" where
  "among al ct edx m = snd (snd (repne_scasb (unat edx) al ct m))"

partial_function (option) span_loop :: "bool \<Rightarrow> u32 \<Rightarrow> u32 \<Rightarrow> u32 \<Rightarrow> mem \<Rightarrow> u32 option" where
  "span_loop accept si ct edx m =
     (if m si = 0 \<or> among (m si) ct edx m \<noteq> accept then Some si else span_loop accept (si + 1) ct edx m)"

definition strspn :: "u32 \<Rightarrow> u32 \<Rightarrow> mem \<Rightarrow> u32 option" where
  "strspn cs ct m = map_option (\<lambda>si. si - cs) (span_loop True cs ct (strlen ct m) m)"

definition strcspn :: "u32 \<Rightarrow> u32 \<Rightarrow> mem \<Rightarrow> u32 option" where
  "strcspn cs ct m = map_option (\<lambda>si. si - cs) (span_loop False cs ct (strlen ct m) m)"

definition strpbrk :: "u32 \<Rightarrow> u32 \<Rightarrow> mem \<Rightarrow> u32 option" where
  "strpbrk cs ct m = map_option (\<lambda>si. if m si = 0 then 0 else si) (span_loop False cs ct (strlen ct m) m)"

text \<open>\<open>strstr\<close>: after a mismatch the loop ends when the byte of \<open>cs\<close> compared last is the terminator.\<close>

partial_function (option) strstr_loop :: "u32 \<Rightarrow> u32 \<Rightarrow> u32 \<Rightarrow> mem \<Rightarrow> u32 option" where
  "strstr_loop si ct edx m =
     (case repe_cmpsb (unat edx) si ct m of
        (_, None) \<Rightarrow> Some si
      | (si1, Some _) \<Rightarrow> if m (si1 - 1) = 0 then Some 0 else strstr_loop (si + 1) ct edx m)"

definition strstr :: "u32 \<Rightarrow> u32 \<Rightarrow> mem \<Rightarrow> u32 option" where
  "strstr cs ct m = strstr_loop cs ct (strlen ct m) m"

section \<open>Copying\<close>

text \<open>What a copy of \<open>n\<close> bytes should leave, whatever the two areas share.\<close>

definition moved :: "nat \<Rightarrow> u32 \<Rightarrow> u32 \<Rightarrow> mem \<Rightarrow> mem" where
  "moved n src dest m = (\<lambda>a. if unat (a - dest) < n then m (src + (a - dest)) else m a)"

lemma unat_sub_one: "(x :: u32) \<noteq> 0 \<Longrightarrow> unat x = Suc (unat (x - 1))"
  using unat_minus_one [of x] unat_gt_0 [of x] by simp

lemma unat_minus_1: "unat (- 1 :: u32) = 2 ^ 32 - 1"
  by (simp add: unsigned_minus_1_eq_mask mask_eq_exp_minus_1)

lemma movsb_up_moved:
  "n \<le> 2 ^ 32 \<Longrightarrow> (\<And>i j. i < n \<Longrightarrow> j < i \<Longrightarrow> src + of_nat i \<noteq> dest + of_nat j) \<Longrightarrow>
     movsb_up n src dest m = moved n src dest m"
proof (induction n arbitrary: src dest m)
  case (Suc n)
  let ?m = "m(dest := m src)"
  have "movsb_up n (src + 1) (dest + 1) ?m = moved n (src + 1) (dest + 1) ?m"
  proof (rule Suc.IH)
    fix i j assume "i < n" "j < i"
    then show "src + 1 + of_nat i \<noteq> dest + 1 + of_nat j"
      using Suc.prems(2) [of "Suc i" "Suc j"] by (simp add: ac_simps)
  qed (use Suc.prems(1) in simp)
  also have "\<dots> = moved (Suc n) src dest m"
  proof
    fix a
    show "moved n (src + 1) (dest + 1) ?m a = moved (Suc n) src dest m a"
    proof (cases "a = dest")
      case True
      then show ?thesis using Suc.prems(1) unat_minus_1 by (simp add: moved_def)
    next
      case False
      then have d: "a - dest \<noteq> 0" by simp
      have k: "unat (a - dest) = Suc (unat (a - (dest + 1)))"
        using unat_sub_one [OF d] by (simp add: diff_diff_eq)
      have "src + (a - dest) \<noteq> dest" if "unat (a - dest) < Suc n"
        using Suc.prems(2) [OF that, of 0] k by simp
      then show ?thesis using False k by (simp add: moved_def algebra_simps)
    qed
  qed
  finally show ?case by simp
qed (simp add: moved_def)

lemma movsb_down_moved:
  "n \<le> 2 ^ 32 \<Longrightarrow> (\<And>i j. j < n \<Longrightarrow> i < j \<Longrightarrow> src + of_nat i \<noteq> dest + of_nat j) \<Longrightarrow>
     movsb_down n (src + of_nat n - 1) (dest + of_nat n - 1) m = moved n src dest m"
proof (induction n arbitrary: m)
  case (Suc n)
  let ?m = "m(dest + of_nat n := m (src + of_nat n))"
  have n: "unat (of_nat n :: u32) = n" using Suc.prems(1) by (intro unat_of_nat_u32) simp
  have "movsb_down (Suc n) (src + of_nat (Suc n) - 1) (dest + of_nat (Suc n) - 1) m =
      movsb_down n (src + of_nat n - 1) (dest + of_nat n - 1) ?m" by simp
  also have "\<dots> = moved n src dest ?m"
    by (rule Suc.IH) (use Suc.prems in simp_all)
  also have "\<dots> = moved (Suc n) src dest m"
  proof
    fix a
    show "moved n src dest ?m a = moved (Suc n) src dest m a"
    proof (cases "a = dest + of_nat n")
      case True
      then show ?thesis using n by (simp add: moved_def)
    next
      case False
      have "unat (a - dest) \<noteq> n"
      proof
        assume "unat (a - dest) = n"
        then have "of_nat n = a - dest" by auto
        with False show False by simp
      qed
      moreover have "src + (a - dest) \<noteq> dest + of_nat n" if "unat (a - dest) < n"
        using Suc.prems(2) [of n "unat (a - dest)"] that by simp
      ultimately show ?thesis using False by (auto simp: moved_def less_Suc_eq)
    qed
  qed
  finally show ?case .
qed (simp add: moved_def)

lemma place_inj:
  "unat a + i < 2 ^ 32 \<Longrightarrow> unat b + j < 2 ^ 32 \<Longrightarrow> (a :: u32) + of_nat i = b + of_nat j \<Longrightarrow> unat a + i = unat b + j"
proof -
  assume b: "unat a + i < 2 ^ 32" "unat b + j < 2 ^ 32" and eq: "a + of_nat i = b + of_nat j"
  have "a + of_nat i = of_nat (unat a + i)" "b + of_nat j = of_nat (unat b + j)" by simp_all
  then have "unat (of_nat (unat a + i) :: u32) = unat (of_nat (unat b + j) :: u32)" using eq by (simp only:)
  then show ?thesis by (simp only: unat_of_nat_u32 [OF b(1)] unat_of_nat_u32 [OF b(2)])
qed

lemma memmove_moved:
  assumes "unat dest + unat n \<le> 2 ^ 32" "unat src + unat n \<le> 2 ^ 32"
  shows "memmove dest src n m = (dest, moved (unat n) src dest m)"
proof (cases "dest < src")
  case True
  have "movsb_up (unat n) src dest m = moved (unat n) src dest m"
  proof (rule movsb_up_moved)
    fix i j assume "i < unat n" "j < i"
    with True assms show "src + of_nat i \<noteq> dest + of_nat j"
      using place_inj [of src i dest j] by (auto simp: word_less_nat_alt)
  qed (use unsigned_less [of n, where 'a = nat] in simp)
  with True show ?thesis by (simp add: memmove_def)
next
  case False
  have "movsb_down (unat n) (src + of_nat (unat n) - 1) (dest + of_nat (unat n) - 1) m = moved (unat n) src dest m"
  proof (rule movsb_down_moved)
    fix i j assume "j < unat n" "i < j"
    with False assms show "src + of_nat i \<noteq> dest + of_nat j"
      using place_inj [of src i dest j] by (auto simp: word_less_nat_alt)
  qed (use unsigned_less [of n, where 'a = nat] in simp)
  with False show ?thesis by (simp add: memmove_def)
qed

section \<open>Strings\<close>

primrec cstring :: "mem \<Rightarrow> u32 \<Rightarrow> u8 list \<Rightarrow> bool" where
  "cstring m p [] \<longleftrightarrow> m p = 0"
| "cstring m p (x # xs) \<longleftrightarrow> m p = x \<and> x \<noteq> 0 \<and> cstring m (p + 1) xs"

lemma cstring_cong:
  "(\<And>i. i \<le> length xs \<Longrightarrow> m' (q + of_nat i) = m (p + of_nat i)) \<Longrightarrow> cstring m' q xs = cstring m p xs"
proof (induction xs arbitrary: p q)
  case Nil
  from Nil.prems [of 0] show ?case by simp
next
  case (Cons x xs)
  have "m' (q + 1 + of_nat i) = m (p + 1 + of_nat i)" if "i \<le> length xs" for i
    using Cons.prems [of "Suc i"] that by (simp add: ac_simps)
  from Cons.IH [OF this] Cons.prems [of 0] show ?case by simp
qed

lemma scasb_cstring:
  "cstring m p xs \<Longrightarrow> length xs < n \<Longrightarrow> repne_scasb n 0 p m = (n - length xs - 1, p + of_nat (length xs) + 1, True)"
proof (induction xs arbitrary: p n)
  case Nil
  then show ?case by (cases n) simp_all
next
  case (Cons x xs)
  then show ?case by (cases n) (simp_all add: ac_simps)
qed

lemma strlen_cstring:
  assumes "cstring m p xs" "length xs < ecx_max"
  shows "strlen p m = of_nat (length xs)"
proof -
  have "(of_nat (ecx_max - length xs - 1) :: u32) = of_nat ecx_max - of_nat (length xs) - 1"
    using assms(2) by (simp add: of_nat_diff)
  then show ?thesis using assms by (simp add: strlen_def scasb_cstring not_eq_complement)
qed

lemma copy_loop_cstring:
  "cstring m src xs \<Longrightarrow> (\<And>i j. i \<le> length xs \<Longrightarrow> j < i \<Longrightarrow> src + of_nat i \<noteq> dest + of_nat j) \<Longrightarrow>
     copy_loop src dest m = Some (movsb_up (Suc (length xs)) src dest m)"
proof (induction xs arbitrary: src dest m)
  case Nil
  then show ?case by (simp add: copy_loop.simps fun_upd_def)
next
  case (Cons x xs)
  let ?m = "m(dest := m src)"
  have "cstring ?m (src + 1) xs = cstring m (src + 1) xs"
  proof (rule cstring_cong)
    fix i assume "i \<le> length xs"
    with Cons.prems(2) [of "Suc i" 0] show "?m (src + 1 + of_nat i) = m (src + 1 + of_nat i)"
      by (simp add: ac_simps)
  qed
  with Cons.prems(1) have "cstring ?m (src + 1) xs" by simp
  then have "copy_loop (src + 1) (dest + 1) ?m = Some (movsb_up (Suc (length xs)) (src + 1) (dest + 1) ?m)"
  proof (rule Cons.IH)
    fix i j assume "i \<le> length xs" "j < i"
    with Cons.prems(2) [of "Suc i" "Suc j"] show "src + 1 + of_nat i \<noteq> dest + 1 + of_nat j"
      by (simp add: ac_simps)
  qed
  then show ?case using Cons.prems(1) by (subst copy_loop.simps) simp
qed

text \<open>
  \<open>strcmp\<close> orders strings by their first different bytes as signed numbers, the terminator included:
  the order of the bytes above 127 is not the one of the C standard.
\<close>

lemma strcmp_cstring:
  "cstring m cs xs \<Longrightarrow> cstring m ct ys \<Longrightarrow> strcmp cs ct m =
     Some (if xs = ys then 0
           else if ord.lexordp (\<lambda>a b. sint a < sint b) (xs @ [0]) (ys @ [0]) then -1 else 1)"
proof (induction xs arbitrary: cs ct ys)
  case Nil
  then show ?case
    by (cases ys) (auto simp: strcmp.simps [of cs] cmp_result_def ord.lexordp_simps sint_inj [of _ 0, simplified])
next
  case (Cons x xs)
  show ?case
  proof (cases ys)
    case Nil
    with Cons.prems show ?thesis
      by (auto simp: strcmp.simps [of cs] cmp_result_def ord.lexordp_simps sint_inj [of _ 0, simplified])
  next
    case (Cons y zs)
    with Cons.prems Cons.IH [of "cs + 1" "ct + 1" zs] sint_inj [of x y] show ?thesis
      by (auto simp: strcmp.simps [of cs] cmp_result_def ord.lexordp_simps)
  qed
qed

lemma moved_at: "i < n \<Longrightarrow> n \<le> 2 ^ 32 \<Longrightarrow> moved n src dest m (dest + of_nat i) = m (src + of_nat i)"
proof -
  assume "i < n" "n \<le> 2 ^ 32"
  then have "unat (of_nat i :: u32) = i" by (intro unat_of_nat_u32) simp
  with \<open>i < n\<close> show ?thesis by (simp add: moved_def)
qed

lemma moved_elsewhere: "(\<And>i. i < n \<Longrightarrow> a \<noteq> dest + of_nat i) \<Longrightarrow> moved n src dest m a = m a"
proof -
  assume elsewhere: "\<And>i. i < n \<Longrightarrow> a \<noteq> dest + of_nat i"
  have "a = dest + of_nat (unat (a - dest))" by simp
  with elsewhere [of "unat (a - dest)"] show ?thesis by (auto simp: moved_def)
qed

section \<open>Properties\<close>

text \<open>Memmove moves n bytes whatever the two areas share: afterwards the destination holds what the source
  held before, byte by byte, and no other byte is changed, as long as neither area wraps around the end of
  the address space.\<close>

theorem memmove_moves:
  assumes "unat dest + unat n \<le> 2 ^ 32" "unat src + unat n \<le> 2 ^ 32"
  shows "\<exists>m'. memmove dest src n m = (dest, m') \<and>
    (\<forall>i < unat n. m' (dest + of_nat i) = m (src + of_nat i)) \<and>
    (\<forall>a. (\<forall>i < unat n. a \<noteq> dest + of_nat i) \<longrightarrow> m' a = m a)"
proof -
  have n: "unat n \<le> 2 ^ 32" using unsigned_less [of n, where 'a = nat] by simp
  show ?thesis
    unfolding memmove_moved [OF assms]
    by (intro exI [of _ "moved (unat n) src dest m"]) (simp add: moved_at [OF _ n] moved_elsewhere)
qed

theorem memmove_moves_witness:
  "\<exists>m'. memmove 1002 1000 4 (\<lambda>a. ucast a) = (1002, m') \<and> m' 1002 = (232 :: u8) \<and> m' 1003 = 233 \<and> m' 1006 = 238"
proof -
  obtain m' where m': "memmove 1002 1000 4 (\<lambda>a. ucast a) = (1002, m')"
    "\<forall>i < 4. m' (1002 + of_nat i) = (ucast (1000 + of_nat i :: u32) :: u8)"
    "\<forall>a. (\<forall>i < 4. a \<noteq> 1002 + of_nat i) \<longrightarrow> m' a = (ucast a :: u8)"
    using memmove_moves [of 1002 4 1000 "\<lambda>a. ucast a"] by auto
  have "m' 1002 = 232" "m' 1003 = 233" using m'(2) [rule_format, of 0] m'(2) [rule_format, of 1] by simp_all
  moreover have "m' 1006 = 238"
  proof -
    have "\<forall>i < 4. (1006 :: u32) \<noteq> 1002 + of_nat i"
    proof (intro allI impI notI)
      fix i assume "i < (4 :: nat)" "(1006 :: u32) = 1002 + of_nat i"
      with place_inj [of 1006 0 1002 i] show False by simp
    qed
    with m'(3) [rule_format, of 1006] show ?thesis by simp
  qed
  ultimately show ?thesis using m'(1) by blast
qed

text \<open>Strcpy makes a copy that the other string functions take for the original: when the areas share no
  byte, it returns, the destination is the string copied with its terminator, the source is unchanged, as is
  every byte outside the destination, strlen of the copy is its length and strcmp finds no difference.\<close>

theorem strcpy_copies:
  assumes "cstring m src xs" "length xs < ecx_max"
    and "\<forall>i \<le> length xs. \<forall>j \<le> length xs. src + of_nat i \<noteq> dest + of_nat j"
  shows "\<exists>m'. strcpy dest src m = Some (dest, m') \<and> cstring m' dest xs \<and> cstring m' src xs \<and>
    strlen dest m' = of_nat (length xs) \<and> strcmp dest src m' = Some 0 \<and>
    (\<forall>a. (\<forall>i \<le> length xs. a \<noteq> dest + of_nat i) \<longrightarrow> m' a = m a)"
proof -
  let ?n = "Suc (length xs)"
  let ?m = "moved ?n src dest m"
  have n: "?n \<le> 2 ^ 32" using assms(2) by simp
  have "movsb_up ?n src dest m = ?m"
    by (rule movsb_up_moved [OF n]) (use assms(3) in auto)
  then have run: "strcpy dest src m = Some (dest, ?m)"
    using copy_loop_cstring [OF assms(1), of dest] assms(3) by (simp add: strcpy_def)
  have d: "cstring ?m dest xs"
    using cstring_cong [of xs ?m dest m src] moved_at [OF _ n] assms(1) by (simp add: less_Suc_eq_le)
  have s: "cstring ?m src xs"
    using cstring_cong [of xs ?m src m src] moved_elsewhere [of ?n] assms(1,3) by (simp add: less_Suc_eq_le)
  have "\<forall>a. (\<forall>i \<le> length xs. a \<noteq> dest + of_nat i) \<longrightarrow> ?m a = m a"
    using moved_elsewhere [of ?n] by (simp add: less_Suc_eq_le)
  with run d s strlen_cstring [OF d assms(2)] strcmp_cstring [OF d s] show ?thesis by auto
qed

theorem strcpy_copies_witness:
  "\<exists>m'. strcpy 200 100 ((\<lambda>_. 0)(100 := 104, 101 := 105)) = Some (200, m') \<and> strlen 200 m' = 2 \<and>
     strcmp 200 100 m' = Some 0"
proof -
  let ?m = "(\<lambda>_. 0)(100 := 104, 101 := 105) :: mem"
  have "cstring ?m 100 [104, 105]" by simp
  moreover have "\<forall>i \<le> length [104, 105 :: u8]. \<forall>j \<le> length [104, 105 :: u8]. (100 :: u32) + of_nat i \<noteq> 200 + of_nat j"
  proof (intro allI impI notI)
    fix i j assume "i \<le> length [104, 105 :: u8]" "j \<le> length [104, 105 :: u8]" "(100 :: u32) + of_nat i = 200 + of_nat j"
    with place_inj [of 100 i 200 j] show False by simp
  qed
  ultimately have "\<exists>m'. strcpy 200 100 ?m = Some (200, m') \<and> cstring m' 200 [104, 105] \<and> cstring m' 100 [104, 105] \<and>
    strlen 200 m' = of_nat (length [104, 105 :: u8]) \<and> strcmp 200 100 m' = Some 0 \<and>
    (\<forall>a. (\<forall>i \<le> length [104, 105 :: u8]. a \<noteq> 200 + of_nat i) \<longrightarrow> m' a = ?m a)"
    by (intro strcpy_copies) simp_all
  then show ?thesis by auto
qed

end
