(* ===== verification/Console.thy ===== *)
theory Console
  imports Fs User Ring Text
begin

text \<open>
  The screen, \<^verbatim>\<open>kernel/chr_drv/console.c\<close>, and the state of the terminals that
  \<^verbatim>\<open>include/linux/tty.h\<close>, \<^verbatim>\<open>tty_io.c\<close> and \<^verbatim>\<open>do_keyboard.c\<close> share.
  The screen memory from 0xB8000 on is the byte store \<open>vmem\<close>: two bytes per cell, 80 cells per row,
  25 rows. \<open>video_x\<close> and \<open>video_y\<close> are \<open>int\<close>s.
\<close>

section \<open>Terminals\<close>

datatype tty_fn = Con_write

record tty_struct =
  tt_write :: "tty_fn option"
  tt_pgrp :: u32
  tt_flags :: u32
  tt_read_q :: tty_queue
  tt_write_q :: tty_queue
  tt_buffer :: tty_queue

abbreviation (input) TTY_ECHO :: u32 where "TTY_ECHO \<equiv> 1"

record tty_state = fs_state +
  tty_table :: "tty_struct list"
  video_x :: u32
  video_y :: u32
  vmem :: "u32 \<Rightarrow> u8"
  caps :: u8
  lshift :: u8
  rshift :: u8
  lctrl :: u8
  rctrl :: u8
  lalt :: u8
  ralt :: u8
  stale :: "nat \<Rightarrow> nat option"  \<comment> \<open>what the stack holds where \<open>sys_open\<close> has its variable \<open>inode\<close>, at its next calls\<close>

definition ttyupd :: "nat \<Rightarrow> (tty_struct \<Rightarrow> tty_struct) \<Rightarrow> 'a tty_state_scheme \<Rightarrow> 'a tty_state_scheme" where
  "ttyupd n f s = s\<lparr>tty_table := (tty_table s)[n := f (tty_table s ! n)]\<rparr>"

section \<open>The screen\<close>

abbreviation (input) VIDEO_MEM :: u32 where "VIDEO_MEM \<equiv> 0xB8000"
abbreviation (input) VIDEO_X_SZ :: u32 where "VIDEO_X_SZ \<equiv> 80"
abbreviation (input) VIDEO_Y_SZ :: u32 where "VIDEO_Y_SZ \<equiv> 25"
abbreviation (input) TAB_LEN :: int where "TAB_LEN \<equiv> 8"
abbreviation (input) WHITE_ON_BLACK :: u8 where "WHITE_ON_BLACK \<equiv> 0x0f"
abbreviation (input) REG_SCREEN_CTRL :: u32 where "REG_SCREEN_CTRL \<equiv> 0x3D4"
abbreviation (input) REG_SCREEN_DATA :: u32 where "REG_SCREEN_DATA \<equiv> 0x3D5"

definition update_cursor :: "u32 \<Rightarrow> u32 \<Rightarrow> 'a tty_state_scheme \<Rightarrow> 'a tty_state_scheme" where
  "update_cursor row col s =
     (let pos = row * VIDEO_X_SZ + col;
          s = outb 0x0f REG_SCREEN_CTRL s;
          s = outb (pos AND 0xff) REG_SCREEN_DATA s;
          s = outb 0x0e REG_SCREEN_CTRL s
      in outb (drop_bit 8 pos AND 0xff) REG_SCREEN_DATA s)"

definition get_cursor :: "'a tty_state_scheme \<Rightarrow> u32 \<times> 'a tty_state_scheme" where
  "get_cursor s =
     (case inb REG_SCREEN_DATA (outb 0x0f REG_SCREEN_CTRL s) of (hi, s) \<Rightarrow>
      case inb REG_SCREEN_DATA (outb 0x0e REG_SCREEN_CTRL s) of (lo, s) \<Rightarrow>
        (push_bit 8 (ucast hi) + ucast lo, s))"

definition video_getx :: "'a tty_state_scheme \<Rightarrow> u32" where "video_getx s = video_x s"
definition video_gety :: "'a tty_state_scheme \<Rightarrow> u32" where "video_gety s = video_y s"

definition video_putchar_at :: "u8 \<Rightarrow> u32 \<Rightarrow> u32 \<Rightarrow> u8 \<Rightarrow> 'a tty_state_scheme \<Rightarrow> 'a tty_state_scheme" where
  "video_putchar_at ch x y attr s =
     (let x = (if sint x \<ge> 80 then 80 else x); y = (if sint y \<ge> 25 then 25 else y);
          a = VIDEO_MEM + 2 * (x + 80 * y)
      in s\<lparr>vmem := (vmem s)(a := ch, a + 1 := attr)\<rparr>)"

text \<open>The local \<open>memcpy\<close>: \<open>items\<close> items of \<open>n\<close> bytes, from the first byte on.\<close>

definition con_memcpy :: "u32 \<Rightarrow> u32 \<Rightarrow> nat \<Rightarrow> nat \<Rightarrow> (u32 \<Rightarrow> u8) \<Rightarrow> u32 \<Rightarrow> u8" where
  "con_memcpy dest src items n m =
     fold (\<lambda>i m. fold (\<lambda>j m. m(dest + of_nat (i * n + j) := m (src + of_nat (i * n + j)))) [0..<n] m) [0..<items] m"

definition roll_screen :: "'a tty_state_scheme \<Rightarrow> 'a tty_state_scheme" where
  "roll_screen s =
     (let s = s\<lparr>vmem := fold (\<lambda>i. con_memcpy (VIDEO_MEM + (of_nat i - 1) * 80 * 2) (VIDEO_MEM + of_nat i * 80 * 2) 80 2)
        [1..<25] (vmem s)\<rparr>
      in fold (\<lambda>i. video_putchar_at 32 (of_nat i) (VIDEO_Y_SZ - 1) WHITE_ON_BLACK) [0..<80] s)"

text \<open>\<open>while (video_x % TAB_LEN) video_x++\<close> stops within 8 rounds.\<close>

primrec tab_stop :: "nat \<Rightarrow> u32 \<Rightarrow> u32" where
  "tab_stop 0 x = x"
| "tab_stop (Suc n) x = (if cmod (sint x) TAB_LEN \<noteq> 0 then tab_stop n (x + 1) else x)"

definition put_glyph :: "u8 \<Rightarrow> 'a tty_state_scheme \<Rightarrow> 'a tty_state_scheme" where
  "put_glyph ch s =
     (if ch = 10 then s\<lparr>video_x := 0, video_y := video_y s + 1\<rparr>
      else if ch = 9 then s\<lparr>video_x := tab_stop 8 (video_x s)\<rparr>
      else if ch = 8
      then let s = s\<lparr>video_x := video_x s - 1\<rparr>;
               s = (if sint (video_x s) < 0
                    then let s = s\<lparr>video_x := VIDEO_X_SZ, video_y := video_y s - 1\<rparr>
                         in if sint (video_y s) < 0 then s\<lparr>video_y := 0\<rparr> else s
                    else s)
           in video_putchar_at 32 (video_x s) (video_y s) WHITE_ON_BLACK s
      else let s = video_putchar_at ch (video_x s) (video_y s) WHITE_ON_BLACK s
           in s\<lparr>video_x := video_x s + 1\<rparr>)"

definition video_putchar :: "u8 \<Rightarrow> 'a tty_state_scheme \<Rightarrow> 'a tty_state_scheme" where
  "video_putchar ch s =
     (let s = put_glyph ch s;
          s = (if sint (video_x s) \<ge> 80 then s\<lparr>video_x := 0, video_y := video_y s + 1\<rparr> else s);
          s = (if sint (video_y s) \<ge> 25 then (roll_screen s)\<lparr>video_x := 0, video_y := VIDEO_Y_SZ - 1\<rparr> else s)
      in update_cursor (video_y s) (video_x s) s)"

definition video_clear :: "'a tty_state_scheme \<Rightarrow> 'a tty_state_scheme" where
  "video_clear s =
     fold (\<lambda>x. fold (\<lambda>y. video_putchar_at 32 (of_nat x) (of_nat y) WHITE_ON_BLACK) [0..<25]) [0..<80]
       (s\<lparr>video_x := 0, video_y := 0\<rparr>)"

definition video_init :: "'a tty_state_scheme \<Rightarrow> 'a tty_state_scheme" where
  "video_init s =
     (let s = video_clear (s\<lparr>video_x := 0, video_y := 0\<rparr>) in update_cursor (video_y s) (video_x s) s)"

text \<open>
  \<open>con_write\<close> prints the write queue until it is empty: a well-formed queue holds fewer than 1024
  bytes, so 1024 rounds are enough.
\<close>

primrec con_write_loop :: "nat \<Rightarrow> nat \<Rightarrow> 'a tty_state_scheme \<Rightarrow> ('a tty_state_scheme, unit) outcome" where
  "con_write_loop 0 n s = Blocked s"
| "con_write_loop (Suc k) n s =
     (let q = tt_write_q (tty_table s ! n) in
      if EMPTY q then Done () s
      else case GETCH q of (ch, q) \<Rightarrow>
        con_write_loop k n (video_putchar ch (ttyupd n (\<lambda>t. t\<lparr>tt_write_q := q\<rparr>) s)))"

definition con_write :: "nat \<Rightarrow> 'a tty_state_scheme \<Rightarrow> ('a tty_state_scheme, unit) outcome" where
  "con_write n s = con_write_loop TTY_BUF_SIZE n s"

text \<open>The keyboard part of \<open>con_init\<close>: the trap gate is a matter of the interrupt table.\<close>

definition con_init :: "'a tty_state_scheme \<Rightarrow> 'a tty_state_scheme" where
  "con_init s =
     (case inb 0x21 s of (v, s) \<Rightarrow>
      case inb 0x61 (outb (ucast v AND 0xfd) 0x21 s) of (a, s) \<Rightarrow>
        outb (ucast a) 0x61 (outb (ucast a OR 0x80) 0x61 s))"

section \<open>The screen as a list of cells\<close>

text \<open>Cell \<open>k\<close>, counted along the rows, is the byte at \<open>vaddr k\<close> and the attribute after it.\<close>

definition vaddr :: "nat \<Rightarrow> u32" where
  "vaddr k = VIDEO_MEM + of_nat (2 * k)"

definition screen :: "mem \<Rightarrow> (u8 \<times> u8) list" where
  "screen m = map (\<lambda>k. (m (vaddr k), m (vaddr k + 1))) [0..<2000]"

lemma length_screen [simp]: "length (screen m) = 2000"
  by (simp add: screen_def)

lemma vaddr_byte: "vaddr k + of_nat b = VIDEO_MEM + of_nat (2 * k + b)"
  by (simp add: vaddr_def)

lemma vaddr_inj:
  assumes "j \<le> 4000" "k \<le> 4000" "a < 2" "b < 2"
  shows "vaddr j + of_nat a = vaddr k + of_nat b \<longleftrightarrow> j = k \<and> a = b"
proof
  assume "vaddr j + of_nat a = vaddr k + of_nat b"
  then have "2 * j + a = 2 * k + b"
    using place_inj [of VIDEO_MEM "2 * j + a" VIDEO_MEM "2 * k + b"] assms unfolding vaddr_byte by simp
  with assms(3,4) show "j = k \<and> a = b" by presburger
qed simp

lemma vaddr_neq [simp]:
  "j \<le> 4000 \<Longrightarrow> k \<le> 4000 \<Longrightarrow> vaddr j = vaddr k \<longleftrightarrow> j = k" "j \<le> 4000 \<Longrightarrow> k \<le> 4000 \<Longrightarrow> vaddr j \<noteq> vaddr k + 1"
  "j \<le> 4000 \<Longrightarrow> k \<le> 4000 \<Longrightarrow> vaddr j + 1 \<noteq> vaddr k"
  using vaddr_inj [of j k 0 0] vaddr_inj [of j k 0 1] vaddr_inj [of j k 1 0] by simp_all

lemma putchar_at_cell:
  assumes "x \<le> 80" "y < 25"
  shows "video_putchar_at ch (of_nat x) (of_nat y) attr s =
    s\<lparr>vmem := (vmem s)(vaddr (x + 80 * y) := ch, vaddr (x + 80 * y) + 1 := attr)\<rparr>"
proof -
  have "sint (of_nat x :: u32) = int x" "sint (of_nat y :: u32) = int y"
    using assms sint_of_int [of "int x"] sint_of_int [of "int y"] by simp_all
  then have "(if sint (of_nat x :: u32) \<ge> 80 then 80 else of_nat x) = (of_nat x :: u32)"
    "(if sint (of_nat y :: u32) \<ge> 25 then 25 else of_nat y) = (of_nat y :: u32)"
    using assms by auto
  then show ?thesis by (simp add: video_putchar_at_def vaddr_def Let_def algebra_simps)
qed

lemma screen_put:
  "k < 2000 \<Longrightarrow> screen (m(vaddr k := ch, vaddr k + 1 := attr)) = (screen m)[k := (ch, attr)]"
  by (rule nth_equalityI) (auto simp: screen_def nth_list_update)

section \<open>Scrolling\<close>

lemma fold_movsb: "fold (\<lambda>k m. m(dest + of_nat k := m (src + of_nat k))) [0..<n] m = movsb_up n src dest m"
proof (induction n arbitrary: src dest m)
  case (Suc n)
  have "fold (\<lambda>k m. m(dest + of_nat k := m (src + of_nat k))) [0..<Suc n] m =
      fold (\<lambda>k m. m(dest + 1 + of_nat k := m (src + 1 + of_nat k))) [0..<n] (m(dest := m src))"
    by (simp add: upt_conv_Cons map_Suc_upt [symmetric] fold_map comp_def ac_simps del: upt_Suc)
  also have "\<dots> = movsb_up n (src + 1) (dest + 1) (m(dest := m src))" by (rule Suc.IH)
  finally show ?case by (simp only: movsb_up.simps)
qed simp

lemma con_memcpy_movsb: "con_memcpy dest src items n m = movsb_up (items * n) src dest m"
proof -
  have flat: "fold f [0..<items * n] = fold (\<lambda>i. fold (\<lambda>j. f (i * n + j)) [0..<n]) [0..<items]" for f :: "nat \<Rightarrow> mem \<Rightarrow> mem"
  proof (induction items)
    case (Suc k)
    have "[0..<Suc k * n] = [0..<k * n] @ [k * n..<k * n + n]"
      using upt_add_eq_append [of 0 "k * n" n] by (simp add: add.commute)
    moreover have "[k * n..<k * n + n] = map (\<lambda>j. k * n + j) [0..<n]"
      using map_add_upt [of "k * n" n] by (simp add: add.commute)
    ultimately have "[0..<Suc k * n] = [0..<k * n] @ map (\<lambda>j. k * n + j) [0..<n]" by simp
    with Suc show ?case by (simp add: fold_map comp_def)
  qed simp
  show ?thesis unfolding con_memcpy_def fold_movsb [symmetric] flat ..
qed

lemma row_move:
  assumes "1 \<le> i" "i < 25" "k < 2000" "b < 2"
  shows "con_memcpy (VIDEO_MEM + (of_nat i - 1) * 80 * 2) (VIDEO_MEM + of_nat i * 80 * 2) 80 2 m (vaddr k + of_nat b) =
    (if 80 * (i - 1) \<le> k \<and> k < 80 * i then m (vaddr (k + 80) + of_nat b) else m (vaddr k + of_nat b))"
proof -
  let ?d = "vaddr (80 * (i - 1))" and ?s = "vaddr (80 * i)"
  have d: "VIDEO_MEM + (of_nat i - 1) * 80 * 2 = ?d" "VIDEO_MEM + of_nat i * 80 * 2 = ?s"
    using assms(1) by (simp_all add: vaddr_def of_nat_diff)
  have "movsb_up 160 ?s ?d m = moved 160 ?s ?d m"
  proof (rule movsb_up_moved)
    fix p q assume pq: "p < 160" "q < (p :: nat)"
    obtain i' where "i = Suc i'" using assms(1) by (cases i) auto
    with pq assms(1,2) place_inj [of VIDEO_MEM "2 * (80 * i) + p" VIDEO_MEM "2 * (80 * (i - 1)) + q"]
    show "?s + of_nat p \<noteq> ?d + of_nat q" unfolding vaddr_byte by auto
  qed simp
  moreover have "moved 160 ?s ?d m (vaddr k + of_nat b) =
      (if 80 * (i - 1) \<le> k \<and> k < 80 * i then m (vaddr (k + 80) + of_nat b) else m (vaddr k + of_nat b))"
  proof (cases "80 * (i - 1) \<le> k \<and> k < 80 * i")
    case True
    define j where "j = 2 * (k - 80 * (i - 1)) + b"
    have "j < 160" using True assms(1,4) unfolding j_def by (cases i) auto
    then have "moved 160 ?s ?d m (?d + of_nat j) = m (?s + of_nat j)" by (rule moved_at) simp
    moreover have "2 * (80 * (i - 1)) + j = 2 * k + b" "2 * (80 * i) + j = 2 * (k + 80) + b"
      using True assms(1) unfolding j_def by (cases i; simp)+
    ultimately show ?thesis using True unfolding vaddr_byte by (simp only: if_True simp_thms)
  next
    case False
    have "vaddr k + of_nat b \<noteq> ?d + of_nat j" if "j < 160" for j
      using that False assms place_inj [of VIDEO_MEM "2 * k + b" VIDEO_MEM "2 * (80 * (i - 1)) + j"]
      unfolding vaddr_byte by (cases i) auto
    then have "moved 160 ?s ?d m (vaddr k + of_nat b) = m (vaddr k + of_nat b)" by (rule moved_elsewhere)
    with False show ?thesis by auto
  qed
  ultimately show ?thesis unfolding d con_memcpy_movsb by simp
qed

lemma rows_move:
  assumes "k < 2000" "b < 2"
  shows "n \<le> 24 \<Longrightarrow> fold (\<lambda>i. con_memcpy (VIDEO_MEM + (of_nat i - 1) * 80 * 2) (VIDEO_MEM + of_nat i * 80 * 2) 80 2) [1..<Suc n] m
      (vaddr k + of_nat b) = (if k < 80 * n then m (vaddr (k + 80) + of_nat b) else m (vaddr k + of_nat b))"
  using assms(1)
proof (induction n arbitrary: k)
  case (Suc n)
  let ?move = "\<lambda>i. con_memcpy (VIDEO_MEM + (of_nat i - 1) * 80 * 2) (VIDEO_MEM + of_nat i * 80 * 2) 80 2"
  let ?m = "fold ?move [1..<Suc n] m"
  have ih: "?m (vaddr j + of_nat b) = (if j < 80 * n then m (vaddr (j + 80) + of_nat b) else m (vaddr j + of_nat b))"
    if "j < 2000" for j using Suc.IH [OF _ that] Suc.prems(1) by simp
  have "fold ?move [1..<Suc (Suc n)] m (vaddr k + of_nat b) = ?move (Suc n) ?m (vaddr k + of_nat b)" by simp
  also have "\<dots> = (if 80 * (Suc n - 1) \<le> k \<and> k < 80 * Suc n then ?m (vaddr (k + 80) + of_nat b) else ?m (vaddr k + of_nat b))"
    by (rule row_move) (use Suc.prems assms(2) in simp_all)
  also have "\<dots> = (if k < 80 * Suc n then m (vaddr (k + 80) + of_nat b) else m (vaddr k + of_nat b))"
    using ih [of k] ih [of "k + 80"] Suc.prems by auto
  finally show ?case .
qed simp

text \<open>Bytes outside the screen are not touched.\<close>

definition off_screen :: "u32 \<Rightarrow> bool" where
  "off_screen a \<longleftrightarrow> (\<forall>k < 2000. a \<noteq> vaddr k \<and> a \<noteq> vaddr k + 1)"

definition same_off_screen :: "mem \<Rightarrow> mem \<Rightarrow> bool" where
  "same_off_screen m m' \<longleftrightarrow> (\<forall>a. off_screen a \<longrightarrow> m' a = m a)"

lemma same_off_screen_refl [simp]: "same_off_screen m m"
  by (simp add: same_off_screen_def)

lemma same_off_screen_trans: "same_off_screen l m \<Longrightarrow> same_off_screen m n \<Longrightarrow> same_off_screen l n"
  by (simp add: same_off_screen_def)

lemma same_off_screen_put: "k < 2000 \<Longrightarrow> same_off_screen m (m(vaddr k := c, vaddr k + 1 := d))"
  by (auto simp: same_off_screen_def off_screen_def)

lemma same_off_screen_row:
  assumes "1 \<le> i" "i < 25"
  shows "same_off_screen m (con_memcpy (VIDEO_MEM + (of_nat i - 1) * 80 * 2) (VIDEO_MEM + of_nat i * 80 * 2) 80 2 m)"
  unfolding same_off_screen_def
proof (intro allI impI)
  fix a assume a: "off_screen a"
  obtain i' where i: "i = Suc i'" using assms(1) by (cases i) auto
  let ?d = "vaddr (80 * i')" and ?s = "vaddr (80 * i)"
  have d: "VIDEO_MEM + (of_nat i - 1) * 80 * 2 = ?d" "VIDEO_MEM + of_nat i * 80 * 2 = ?s"
    by (simp_all add: vaddr_def i)
  have move: "movsb_up 160 ?s ?d m = moved 160 ?s ?d m"
  proof (rule movsb_up_moved)
    fix p q assume "p < 160" "q < (p :: nat)"
    with i assms(2) place_inj [of VIDEO_MEM "2 * (80 * i) + p" VIDEO_MEM "2 * (80 * i') + q"]
    show "?s + of_nat p \<noteq> ?d + of_nat q" unfolding vaddr_byte by auto
  qed simp
  have "a \<noteq> ?d + of_nat j" if "j < 160" for j
  proof -
    have "a \<noteq> vaddr (80 * i' + j div 2) + of_nat (j mod 2)"
      using a that assms(2) i unfolding off_screen_def by (cases "j mod 2 = 0") (auto simp: mod2_eq_if)
    moreover have "2 * (80 * i' + j div 2) + j mod 2 = 2 * (80 * i') + j" by simp
    ultimately show ?thesis unfolding vaddr_byte by (simp only:) simp
  qed
  then have "moved 160 ?s ?d m a = m a" by (rule moved_elsewhere)
  then show "con_memcpy (VIDEO_MEM + (of_nat i - 1) * 80 * 2) (VIDEO_MEM + of_nat i * 80 * 2) 80 2 m a = m a"
    unfolding d con_memcpy_movsb using move by simp
qed

lemma same_off_screen_fold:
  "(\<And>i m. i \<in> set is \<Longrightarrow> same_off_screen m (f i m)) \<Longrightarrow> same_off_screen m (fold f is m)"
  by (rule fold_keeps [where I = "same_off_screen m"]) (auto intro: same_off_screen_trans)

lemma blank_row:
  "n \<le> 80 \<Longrightarrow> \<exists>m'. fold (\<lambda>i. video_putchar_at 32 (of_nat i) (VIDEO_Y_SZ - 1) WHITE_ON_BLACK) [0..<n] s = s\<lparr>vmem := m'\<rparr> \<and>
     screen m' = take 1920 (screen (vmem s)) @ replicate n (32, WHITE_ON_BLACK) @ drop (1920 + n) (screen (vmem s)) \<and>
     same_off_screen (vmem s) m'"
proof (induction n)
  case 0
  then show ?case by (intro exI [of _ "vmem s"]) simp
next
  case (Suc n)
  then obtain m' where m': "fold (\<lambda>i. video_putchar_at 32 (of_nat i) (VIDEO_Y_SZ - 1) WHITE_ON_BLACK) [0..<n] s = s\<lparr>vmem := m'\<rparr>"
    "screen m' = take 1920 (screen (vmem s)) @ replicate n (32, WHITE_ON_BLACK) @ drop (1920 + n) (screen (vmem s))"
    "same_off_screen (vmem s) m'" by auto
  let ?m = "m'(vaddr (n + 1920) := 32, vaddr (n + 1920) + 1 := WHITE_ON_BLACK)"
  have "video_putchar_at 32 (of_nat n) (VIDEO_Y_SZ - 1) WHITE_ON_BLACK (s\<lparr>vmem := m'\<rparr>) = s\<lparr>vmem := ?m\<rparr>"
    using putchar_at_cell [of n 24 32 WHITE_ON_BLACK "s\<lparr>vmem := m'\<rparr>"] Suc.prems by simp
  moreover have "screen ?m = take 1920 (screen (vmem s)) @ replicate (Suc n) (32, WHITE_ON_BLACK) @ drop (1920 + Suc n) (screen (vmem s))"
    using Suc.prems by (subst screen_put) (simp_all add: m'(2) list_update_append Cons_nth_drop_Suc [symmetric] replicate_append_same)
  moreover have "same_off_screen (vmem s) ?m"
    by (rule same_off_screen_trans [OF m'(3)], rule same_off_screen_put) (use Suc.prems in simp)
  moreover have "fold (\<lambda>i. video_putchar_at 32 (of_nat i) (VIDEO_Y_SZ - 1) WHITE_ON_BLACK) [0..<Suc n] s =
      video_putchar_at 32 (of_nat n) (VIDEO_Y_SZ - 1) WHITE_ON_BLACK (s\<lparr>vmem := m'\<rparr>)"
    using m'(1) by simp
  ultimately show ?case by metis
qed

lemma roll_screen_rolls:
  "\<exists>m'. roll_screen s = s\<lparr>vmem := m'\<rparr> \<and> screen m' = drop 80 (screen (vmem s)) @ replicate 80 (32, WHITE_ON_BLACK) \<and>
     same_off_screen (vmem s) m'"
proof -
  let ?rows = "fold (\<lambda>i. con_memcpy (VIDEO_MEM + (of_nat i - 1) * 80 * 2) (VIDEO_MEM + of_nat i * 80 * 2) 80 2) [1..<25] (vmem s)"
  have at: "?rows (vaddr k + of_nat b) = (if k < 1920 then vmem s (vaddr (k + 80) + of_nat b) else vmem s (vaddr k + of_nat b))"
    if "k < 2000" "b < 2" for k b
    using rows_move [OF that, of 24 "vmem s"] by simp
  have "take 1920 (screen ?rows) = drop 80 (screen (vmem s))"
  proof (rule nth_equalityI)
    fix k assume "k < length (take 1920 (screen ?rows))"
    then have "k < 1920" by simp
    then show "take 1920 (screen ?rows) ! k = drop 80 (screen (vmem s)) ! k"
      using at [of k 0] at [of k 1] by (simp add: screen_def add.commute [of 80 k])
  qed simp
  moreover have "same_off_screen (vmem s) ?rows"
    by (rule same_off_screen_fold) (rule same_off_screen_row; simp)
  ultimately show ?thesis
    using blank_row [of 80 "s\<lparr>vmem := ?rows\<rparr>"] unfolding roll_screen_def Let_def
    by (auto intro: same_off_screen_trans)
qed

section \<open>What a terminal shows\<close>

text \<open>
  The screen as its user sees it: the cells and the place of the cursor, in natural numbers. A backspace
  at the left margin blanks the cell under the cursor, or the second row's first cell when the cursor is
  in the corner, and does not move back to the row above.
\<close>

type_synonym terminal = "(u8 \<times> u8) list \<times> nat \<times> nat"

abbreviation (input) blank :: "u8 \<times> u8" where "blank \<equiv> (32, WHITE_ON_BLACK)"

definition glyph_on :: "u8 \<Rightarrow> terminal \<Rightarrow> terminal" where
  "glyph_on ch t =
     (case t of (scr, x, y) \<Rightarrow>
        if ch = 10 then (scr, 0, y + 1)
        else if ch = 9 then (scr, (x + 7) div 8 * 8, y)
        else if ch = 8
        then if 0 < x then (scr[x - 1 + 80 * y := blank], x - 1, y)
             else if 0 < y then (scr[80 * y := blank], 80, y - 1) else (scr[80 := blank], 80, 0)
        else (scr[x + 80 * y := (ch, WHITE_ON_BLACK)], x + 1, y))"

definition char_on :: "u8 \<Rightarrow> terminal \<Rightarrow> terminal" where
  "char_on ch t =
     (case glyph_on ch t of (scr, x, y) \<Rightarrow>
        let y = (if 80 \<le> x then y + 1 else y); x = (if 80 \<le> x then 0 else x)
        in if 25 \<le> y then (drop 80 scr @ replicate 80 blank, 0, 24) else (scr, x, y))"

definition shown :: "'a tty_state_scheme \<Rightarrow> terminal" where
  "shown s = (screen (vmem s), unat (video_x s), unat (video_y s))"

definition on_screen :: "'a tty_state_scheme \<Rightarrow> bool" where
  "on_screen s \<longleftrightarrow> unat (video_x s) < 80 \<and> unat (video_y s) < 25"

text \<open>Everything but the screen, its cursor and the ports is as it was.\<close>

definition same_but_screen :: "'a tty_state_scheme \<Rightarrow> 'a tty_state_scheme \<Rightarrow> bool" where
  "same_but_screen s t \<longleftrightarrow> (\<exists>m x y os. t = s\<lparr>vmem := m, video_x := x, video_y := y, outs := os\<rparr> \<and> same_off_screen (vmem s) m)"

lemma small_word:
  assumes "n < 2147483648"
  shows "unat (of_nat n :: u32) = n" "sint (of_nat n :: u32) = int n"
  using assms unat_of_nat_u32 [of n] sint_of_int [of "int n"] by simp_all

lemma small_word_sint: "unat (w :: u32) < 2147483648 \<Longrightarrow> sint w = int (unat w)"
  using small_word(2) [of "unat w"] by simp

lemma tab_stop_at:
  "x + n \<le> 1000 \<Longrightarrow> \<exists>k \<le> n. 8 dvd x + k \<Longrightarrow> tab_stop n (of_nat x) = of_nat ((x + 7) div 8 * 8)"
proof (induction n arbitrary: x)
  case 0
  then have "8 dvd x" by simp
  then have "(x + 7) div 8 * 8 = x" by presburger
  then show ?case by simp
next
  case (Suc n)
  have c: "cmod (sint (of_nat x :: u32)) 8 = int (x mod 8)"
    using Suc.prems(1) by (simp add: small_word cmod_nonneg zmod_int)
  show ?case
  proof (cases "8 dvd x")
    case True
    then have "(x + 7) div 8 * 8 = x" by presburger
    with c True show ?thesis by (simp add: dvd_eq_mod_eq_0)
  next
    case False
    from Suc.prems(2) obtain k where k: "k \<le> Suc n" "8 dvd x + k" by blast
    with False have "0 < k" by (cases k) auto
    with k have "k - 1 \<le> n" "8 dvd x + 1 + (k - 1)" by auto
    then have "tab_stop n (of_nat (x + 1)) = of_nat ((x + 1 + 7) div 8 * 8)"
      using Suc.prems(1) by (intro Suc.IH) (simp, blast)
    moreover have "(x + 1 + 7) div 8 * 8 = (x + 7) div 8 * 8"
    proof -
      from False obtain q r where x: "x = 8 * q + r" "0 < r" "r < 8"
        by (metis dvd_eq_mod_eq_0 mod_less_divisor mult_div_mod_eq neq0_conv zero_less_numeral)
      have "(x + 1 + 7) div 8 = q + 1" "(x + 7) div 8 = q + 1" using x by simp_all
      then show ?thesis by simp
    qed
    ultimately show ?thesis using c False by (simp add: dvd_eq_mod_eq_0 add.commute)
  qed
qed

lemma tab_stop_8: "x < 80 \<Longrightarrow> tab_stop 8 (of_nat x) = of_nat ((x + 7) div 8 * 8)"
proof (rule tab_stop_at)
  have "8 dvd x + (8 - x mod 8)" "8 - x mod 8 \<le> 8" by presburger+
  then show "\<exists>k \<le> 8. 8 dvd x + k" by blast
qed simp

lemma same_but_screenI:
  "t = s\<lparr>vmem := m, video_x := x, video_y := y, outs := os\<rparr> \<Longrightarrow> same_off_screen (vmem s) m \<Longrightarrow> same_but_screen s t"
  unfolding same_but_screen_def by blast

lemma same_but_screen_refl [simp]: "same_but_screen s s"
  by (rule same_but_screenI [where m = "vmem s" and x = "video_x s" and y = "video_y s" and os = "outs s"]) simp_all

lemma same_but_screen_trans: "same_but_screen s t \<Longrightarrow> same_but_screen t u \<Longrightarrow> same_but_screen s u"
proof -
  assume "same_but_screen s t" "same_but_screen t u"
  then obtain m x y os m' x' y' os' where "t = s\<lparr>vmem := m, video_x := x, video_y := y, outs := os\<rparr>"
    "same_off_screen (vmem s) m" "u = t\<lparr>vmem := m', video_x := x', video_y := y', outs := os'\<rparr>"
    "same_off_screen (vmem t) m'" unfolding same_but_screen_def by blast
  then show ?thesis
    by (intro same_but_screenI [where m = m' and x = x' and y = y' and os = os'])
      (auto intro: same_off_screen_trans)
qed

lemma same_but_screen_put:
  assumes "x \<le> 80" "y < 25" "x + 80 * y < 2000"
  shows "same_but_screen s (video_putchar_at ch (of_nat x) (of_nat y) attr s)"
    "screen (vmem (video_putchar_at ch (of_nat x) (of_nat y) attr s)) = (screen (vmem s))[x + 80 * y := (ch, attr)]"
    "video_x (video_putchar_at ch (of_nat x) (of_nat y) attr s) = video_x s"
    "video_y (video_putchar_at ch (of_nat x) (of_nat y) attr s) = video_y s"
proof -
  note eq = putchar_at_cell [OF assms(1,2), of ch attr s]
  let ?m = "(vmem s)(vaddr (x + 80 * y) := ch, vaddr (x + 80 * y) + 1 := attr)"
  show "same_but_screen s (video_putchar_at ch (of_nat x) (of_nat y) attr s)"
    by (rule same_but_screenI [where m = ?m and x = "video_x s" and y = "video_y s" and os = "outs s"])
      (use same_off_screen_put [OF assms(3)] in \<open>simp_all add: eq\<close>)
  show "screen (vmem (video_putchar_at ch (of_nat x) (of_nat y) attr s)) = (screen (vmem s))[x + 80 * y := (ch, attr)]"
    using screen_put [OF assms(3), of "vmem s" ch attr] by (simp add: eq)
  show "video_x (video_putchar_at ch (of_nat x) (of_nat y) attr s) = video_x s"
    "video_y (video_putchar_at ch (of_nat x) (of_nat y) attr s) = video_y s" by (simp_all add: eq)
qed

text \<open>The writing of one character, in three steps.\<close>

lemma same_but_screen_cursor: "same_but_screen s (s\<lparr>video_x := x, video_y := y\<rparr>)"
  by (rule same_but_screenI [where m = "vmem s" and x = x and y = y and os = "outs s"]) simp_all

lemma same_but_screen_x: "same_but_screen s (s\<lparr>video_x := x\<rparr>)"
  by (rule same_but_screenI [where m = "vmem s" and x = x and y = "video_y s" and os = "outs s"]) simp_all

lemma backspace_shown:
  assumes "shown s = (scr, x, y)" "x < 80" "y < 25"
  shows "shown (put_glyph 8 s) = glyph_on 8 (scr, x, y) \<and> same_but_screen s (put_glyph 8 s)"
proof (cases x)
  case 0
  have scr: "screen (vmem s) = scr" and vx: "video_x s = of_nat x" and vy: "video_y s = of_nat y"
    using assms(1) by (auto simp: shown_def)
  let ?y = "y - 1"
  have neg: "sint (of_nat x - 1 :: u32) < 0" using 0 by simp
  have "(if sint (of_nat y - 1 :: u32) < 0 then 0 else of_nat y - 1) = (of_nat ?y :: u32)"
  proof (cases y)
    case (Suc z)
    then have "of_nat y - 1 = (of_nat z :: u32)" by simp
    then show ?thesis using Suc assms(3) small_word(2) [of z] by simp
  qed simp
  then have run: "put_glyph 8 s = video_putchar_at 32 (of_nat 80) (of_nat ?y) WHITE_ON_BLACK
      (s\<lparr>video_x := of_nat 80, video_y := of_nat ?y\<rparr>)"
    using neg vx vy unfolding put_glyph_def Let_def by (auto split: if_splits)
  have at: "80 + 80 * ?y < 2000" using assms(3) by linarith
  have at2: "80 + 80 * ?y = (if 0 < y then 80 * y else 80)" by (cases y) simp_all
  note put = same_but_screen_put [OF _ _ at, where s = "s\<lparr>video_x := of_nat 80, video_y := of_nat ?y\<rparr>" and ch = 32 and attr = "WHITE_ON_BLACK"]
  have "same_but_screen s (put_glyph 8 s)"
    unfolding run by (rule same_but_screen_trans [OF same_but_screen_cursor put(1)]) (use assms(3) in simp_all)
  moreover have "shown (put_glyph 8 s) = (scr[80 + 80 * ?y := blank], 80, ?y)"
    unfolding run shown_def using put(2-4) assms(3) scr small_word(1) [of 80] small_word(1) [of ?y] by simp
  ultimately show ?thesis using 0 at2 by (simp add: glyph_on_def)
next
  case (Suc z)
  have scr: "screen (vmem s) = scr" and vx: "video_x s = of_nat x" and vy: "video_y s = of_nat y"
    using assms(1) by (auto simp: shown_def)
  have vx1: "video_x s - 1 = of_nat z" by (simp add: vx Suc)
  have "\<not> sint (of_nat z :: u32) < 0" using small_word(2) [of z] assms(2) Suc by simp
  then have run: "put_glyph 8 s = video_putchar_at 32 (of_nat z) (of_nat y) WHITE_ON_BLACK (s\<lparr>video_x := of_nat z\<rparr>)"
    by (simp add: put_glyph_def vx1 vy)
  have at: "z + 80 * y < 2000" "z \<le> 80" using assms(2,3) Suc by simp_all
  note put = same_but_screen_put [OF at(2) assms(3) at(1), where s = "s\<lparr>video_x := of_nat z\<rparr>" and ch = 32 and attr = "WHITE_ON_BLACK"]
  have "same_but_screen s (put_glyph 8 s)"
    unfolding run by (rule same_but_screen_trans [OF same_but_screen_x put(1)])
  moreover have "shown (put_glyph 8 s) = (scr[z + 80 * y := blank], z, y)"
    unfolding run shown_def using put(2-4) assms(3) scr vy small_word(1) [of z] small_word(1) [of y] at by simp
  ultimately show ?thesis using Suc by (simp add: glyph_on_def)
qed

lemma put_glyph_shown:
  assumes "shown s = (scr, x, y)" "x < 80" "y < 25"
  shows "shown (put_glyph ch s) = glyph_on ch (scr, x, y) \<and> same_but_screen s (put_glyph ch s)"
proof -
  have scr: "screen (vmem s) = scr" and vx: "video_x s = of_nat x" and vy: "video_y s = of_nat y"
    using assms(1) by (auto simp: shown_def)
  note w = small_word
  consider "ch = 10" | "ch = 9" | "ch = 8" | "ch \<noteq> 10" "ch \<noteq> 9" "ch \<noteq> 8" by blast
  then show ?thesis
  proof cases
    case 1
    have "unat (of_nat y + 1 :: u32) = y + 1" using w(1) [of "y + 1"] assms(3) by (simp add: add.commute)
    then show ?thesis using 1 scr vy same_but_screen_cursor
      by (simp add: put_glyph_def glyph_on_def shown_def)
  next
    case 2
    have "unat (of_nat ((x + 7) div 8 * 8) :: u32) = (x + 7) div 8 * 8"
      by (rule w(1)) (use assms(2) in simp)
    then show ?thesis using 2 scr vx vy assms(2,3) same_but_screen_x
      by (simp add: put_glyph_def glyph_on_def shown_def tab_stop_8 w)
  next
    case 3
    then show ?thesis using backspace_shown [OF assms] by simp
  next
    case 4
    have at: "x + 80 * y < 2000" "x \<le> 80" using assms(2,3) by simp_all
    note put = same_but_screen_put [OF at(2) assms(3) at(1), where s = s and ch = ch and attr = "WHITE_ON_BLACK"]
    have run: "put_glyph ch s = (video_putchar_at ch (of_nat x) (of_nat y) WHITE_ON_BLACK s)\<lparr>video_x := of_nat (x + 1), video_y := of_nat y\<rparr>"
      using 4 vx vy put(3,4) unfolding put_glyph_def Let_def by (simp add: add.commute)
    have "same_but_screen s (put_glyph ch s)"
      unfolding run by (rule same_but_screen_trans [OF put(1) same_but_screen_cursor])
    moreover have "shown (put_glyph ch s) = (scr[x + 80 * y := (ch, WHITE_ON_BLACK)], x + 1, y)"
      unfolding run shown_def using put(2) scr w(1) [of "x + 1"] w(1) [of y] assms(2,3) by (simp add: add.commute)
    ultimately show ?thesis using 4 by (simp add: glyph_on_def)
  qed
qed

lemma update_cursor_same: "same_but_screen s (update_cursor r c s)" "shown (update_cursor r c s) = shown s"
proof -
  show "shown (update_cursor r c s) = shown s" by (simp add: update_cursor_def outb_def shown_def Let_def)
  have "\<exists>os. update_cursor r c s = s\<lparr>outs := os\<rparr>" by (simp add: update_cursor_def outb_def Let_def) blast
  then obtain os where "update_cursor r c s = s\<lparr>outs := os\<rparr>" ..
  then show "same_but_screen s (update_cursor r c s)"
    by (intro same_but_screenI [where m = "vmem s" and x = "video_x s" and y = "video_y s" and os = os]) simp_all
qed

lemma glyph_on_bounds: "glyph_on ch (scr, x, y) = (scr', x', y') \<Longrightarrow> x < 80 \<Longrightarrow> y < 25 \<Longrightarrow> x' \<le> 80 \<and> y' \<le> 25 \<and> (x' = 80 \<longrightarrow> y' < 25)"
  by (auto simp: glyph_on_def split: if_splits)

lemma video_putchar_char_on:
  assumes "on_screen s"
  shows "shown (video_putchar ch s) = char_on ch (shown s)" "on_screen (video_putchar ch s)"
    "same_but_screen s (video_putchar ch s)"
proof -
  obtain scr x y where s: "shown s = (scr, x, y)" by (cases "shown s")
  with assms have xy: "x < 80" "y < 25" by (auto simp: shown_def on_screen_def)
  let ?g = "put_glyph ch s"
  obtain scr' x' y' where g: "glyph_on ch (scr, x, y) = (scr', x', y')" by (cases "glyph_on ch (scr, x, y)")
  from put_glyph_shown [OF s xy, of ch] have p: "shown ?g = (scr', x', y')" "same_but_screen s ?g"
    unfolding g by simp_all
  then have w: "screen (vmem ?g) = scr'" "video_x ?g = of_nat x'" "video_y ?g = of_nat y'"
    by (auto simp: shown_def)
  note b = glyph_on_bounds [OF g xy]
  let ?w = "if sint (video_x ?g) \<ge> 80 then ?g\<lparr>video_x := 0, video_y := video_y ?g + 1\<rparr> else ?g"
  define x2 y2 where "x2 = (if 80 \<le> x' then 0 else x')" and "y2 = (if 80 \<le> x' then y' + 1 else y')"
  have w2: "shown ?w = (scr', x2, y2)" "same_but_screen ?g ?w" "video_y ?w = of_nat y2" "video_x ?w = of_nat x2"
    using w b small_word [of x'] small_word [of y'] small_word(1) [of "y' + 1"] same_but_screen_cursor [of ?g]
    by (auto simp: shown_def x2_def y2_def add.commute)
  have y2: "y2 \<le> 25" "x2 < 80" using b by (auto simp: y2_def x2_def)
  let ?r = "if sint (video_y ?w) \<ge> 25 then (roll_screen ?w)\<lparr>video_x := 0, video_y := VIDEO_Y_SZ - 1\<rparr> else ?w"
  have r: "shown ?r = (if 25 \<le> y2 then (drop 80 scr' @ replicate 80 blank, 0, 24) else (scr', x2, y2)) \<and> same_but_screen ?w ?r"
  proof (cases "25 \<le> y2")
    case False
    then have "\<not> sint (video_y ?w) \<ge> 25" using w2(3) small_word(2) [of y2] y2 by simp
    then have "?r = ?w" by (simp only: if_False)
    with False w2(1) show ?thesis by simp
  next
    case True
    then have c: "sint (video_y ?w) \<ge> 25" using w2(3) small_word(2) [of y2] y2 by simp
    obtain m' where m': "roll_screen ?w = ?w\<lparr>vmem := m'\<rparr>"
      "screen m' = drop 80 (screen (vmem ?w)) @ replicate 80 blank" "same_off_screen (vmem ?w) m'"
      using roll_screen_rolls [of ?w] by blast
    have r: "?r = ?w\<lparr>vmem := m', video_x := 0, video_y := VIDEO_Y_SZ - 1\<rparr>" unfolding m'(1) using c by (simp only: if_True)
    have "same_but_screen ?w ?r"
      unfolding r by (rule same_but_screenI [where m = m' and x = 0 and y = "VIDEO_Y_SZ - 1" and os = "outs ?w"])
        (use m'(3) in simp_all)
    moreover have "shown ?r = (drop 80 scr' @ replicate 80 blank, 0, 24)"
      unfolding r using m'(2) w2(1) by (simp add: shown_def)
    ultimately show ?thesis using True by (simp only: if_True simp_thms)
  qed
  have run: "video_putchar ch s = update_cursor (video_y ?r) (video_x ?r) ?r"
    unfolding video_putchar_def Let_def ..
  show "same_but_screen s (video_putchar ch s)"
    unfolding run by (rule same_but_screen_trans [OF same_but_screen_trans [OF p(2) w2(2)]
        same_but_screen_trans [OF r [THEN conjunct2] update_cursor_same(1)]])
  have c: "char_on ch (shown s) = (if 25 \<le> y2 then (drop 80 scr' @ replicate 80 blank, 0, 24) else (scr', x2, y2))"
    unfolding char_on_def s g by (simp add: Let_def x2_def y2_def)
  show *: "shown (video_putchar ch s) = char_on ch (shown s)"
    unfolding run update_cursor_same(2) c using r by (rule conjunct1)
  have "unat (video_x (video_putchar ch s)) = fst (snd (char_on ch (shown s)))"
    "unat (video_y (video_putchar ch s)) = snd (snd (char_on ch (shown s)))" unfolding * [symmetric] by (simp_all add: shown_def)
  then show "on_screen (video_putchar ch s)" unfolding on_screen_def c using y2 by simp
qed

end
