(* ===== verification/Tty.thy ===== *)
theory Tty
  imports Console Cache Span
begin

text \<open>
  The terminals: \<^verbatim>\<open>kernel/chr_drv/tty_io.c\<close> and the keyboard interrupt of
  \<^verbatim>\<open>kernel/chr_drv/do_keyboard.c\<close>. A key goes through the read queue to the line
  buffer, where a reader takes it, and is echoed through the write queue to the screen.
\<close>

section \<open>Output and echo\<close>

definition tty_init :: "'a tty_state_scheme \<Rightarrow> 'a tty_state_scheme" where
  "tty_init s = con_init (ttyupd 0 (\<lambda>t. t\<lparr>tt_write := Some Con_write\<rparr>) s)"

definition tty_write :: "nat \<Rightarrow> 'a tty_state_scheme \<Rightarrow> ('a tty_state_scheme, unit) outcome" where
  "tty_write n s =
     (case tt_write (tty_table s ! n) of
        None \<Rightarrow> Halted (Undef ''tty->write'') s
      | Some Con_write \<Rightarrow> con_write n s)"

text \<open>
  One byte of \<open>copy_to_buffer\<close>: \<open>echo\<close> is what follows the \<open>switch\<close>, which tests
  \<open>flags | TTY_ECHO\<close>. \<open>buf[head - 1]\<close> with a head of 0 is the byte before the array: in
  \<open>struct tty_struct\<close> the member before \<open>buffer\<close>, whose first member \<open>buf\<close> is, is \<open>write_q\<close>, and its
  last byte is the highest of \<open>write_q.tail\<close>.
\<close>

definition echo :: "nat \<Rightarrow> u8 \<Rightarrow> 'a tty_state_scheme \<Rightarrow> ('a tty_state_scheme, unit) outcome" where
  "echo n ch s =
     (if tt_flags (tty_table s ! n) OR TTY_ECHO \<noteq> 0
      then tty_write n (ttyupd n (\<lambda>t. t\<lparr>tt_write_q := PUTCH ch (tt_write_q t)\<rparr>) s)
      else Done () s)"

definition before_head :: "tty_struct \<Rightarrow> u8" where
  "before_head t =
     (let q = tt_buffer t in
      if q_head q = 0 then ucast (drop_bit 24 (q_tail (tt_write_q t))) else q_buf q ! unat (q_head q - 1))"

definition take_char :: "nat \<Rightarrow> u8 \<Rightarrow> 'a tty_state_scheme \<Rightarrow> ('a tty_state_scheme, unit) outcome" where
  "take_char n ch s =
     (let q = tt_buffer (tty_table s ! n) in
      if ch = 8
      then if EMPTY q then Done () s
           else if before_head (tty_table s ! n) = 10 then Done () s
           else echo n ch (ttyupd n (\<lambda>t. t\<lparr>tt_buffer := q\<lparr>q_head := DEC (q_head q)\<rparr>\<rparr>) s)
      else if ch = -1 \<or> ch = 10
      then echo n ch (wake_up (Some (Tty_wait 0)) (ttyupd n (\<lambda>t. t\<lparr>tt_buffer := PUTCH ch q\<rparr>) s))
      else echo n ch (if FULL q then s else ttyupd n (\<lambda>t. t\<lparr>tt_buffer := PUTCH ch q\<rparr>) s))"

text \<open>A well-formed read queue holds fewer than 1024 bytes.\<close>

primrec copy_to_buffer_loop :: "nat \<Rightarrow> nat \<Rightarrow> 'a tty_state_scheme \<Rightarrow> ('a tty_state_scheme, unit) outcome" where
  "copy_to_buffer_loop 0 n s = Blocked s"
| "copy_to_buffer_loop (Suc k) n s =
     (let q = tt_read_q (tty_table s ! n) in
      if EMPTY q then Done () s
      else case GETCH q of (ch, q) \<Rightarrow>
        kbind (take_char n ch (ttyupd n (\<lambda>t. t\<lparr>tt_read_q := q\<rparr>) s)) (\<lambda>_ s. copy_to_buffer_loop k n s))"

definition copy_to_buffer :: "nat \<Rightarrow> 'a tty_state_scheme \<Rightarrow> ('a tty_state_scheme, unit) outcome" where
  "copy_to_buffer n s = copy_to_buffer_loop TTY_BUF_SIZE n s"

section \<open>Reading and writing\<close>

text \<open>Every round sleeps, so \<open>patience\<close> bounds the rounds.\<close>

primrec sleep_if_empty_loop :: "nat \<Rightarrow> ('a tty_state_scheme \<Rightarrow> 'a tty_state_scheme) \<Rightarrow> nat
    \<Rightarrow> 'a tty_state_scheme \<Rightarrow> ('a tty_state_scheme, unit) outcome" where
  "sleep_if_empty_loop 0 env n s = Blocked s"
| "sleep_if_empty_loop (Suc k) env n s =
     (if t_signal (cur s) = 0 \<and> EMPTY (tt_buffer (tty_table s ! n))
      then kbind (interruptible_sleep_on env (Some (Tty_wait n)) s) (\<lambda>_ s. sleep_if_empty_loop k env n s)
      else Done () s)"

definition sleep_if_empty :: "('a tty_state_scheme \<Rightarrow> 'a tty_state_scheme) \<Rightarrow> nat
    \<Rightarrow> 'a tty_state_scheme \<Rightarrow> ('a tty_state_scheme, unit) outcome" where
  "sleep_if_empty env n s = sleep_if_empty_loop (Suc (patience s)) env n s"

definition wait_for_keypress :: "('a tty_state_scheme \<Rightarrow> 'a tty_state_scheme)
    \<Rightarrow> 'a tty_state_scheme \<Rightarrow> ('a tty_state_scheme, unit) outcome" where
  "wait_for_keypress env s = sleep_if_empty env 0 s"

text \<open>The loop of \<open>tty_read\<close>: \<open>nr\<close> bytes still wanted, the next for \<open>p\<close>, \<open>len\<close> read so far.\<close>

primrec tty_read_loop :: "nat \<Rightarrow> ('a tty_state_scheme \<Rightarrow> 'a tty_state_scheme) \<Rightarrow> nat \<Rightarrow> u32 \<Rightarrow> u32
    \<Rightarrow> 'a tty_state_scheme \<Rightarrow> ('a tty_state_scheme, u32) outcome" where
  "tty_read_loop 0 env n p len s = Done len s"
| "tty_read_loop (Suc nr) env n p len s =
     kbind (if EMPTY (tt_buffer (tty_table s ! n)) then sleep_if_empty env n s else Done () s) (\<lambda>_ s.
       case GETCH (tt_buffer (tty_table s ! n)) of (ch, q) \<Rightarrow>
         kbind (put_fs_byte ch p (ttyupd n (\<lambda>t. t\<lparr>tt_buffer := q\<rparr>) s)) (\<lambda>_ s.
           if ch = 10 \<or> ch = -1 then Done (len + 1) s else tty_read_loop nr env n (p + 1) (len + 1) s))"

definition tty_read :: "('a tty_state_scheme \<Rightarrow> 'a tty_state_scheme) \<Rightarrow> u32 \<Rightarrow> u32 \<Rightarrow> u32
    \<Rightarrow> 'a tty_state_scheme \<Rightarrow> ('a tty_state_scheme, u32) outcome" where
  "tty_read env channel buf nr s =
     (if channel > 2 \<or> sint nr < 0 then Done (-1) s
      else if unat channel \<ge> length (tty_table s) \<and> nr \<noteq> 0 then Halted (Undef ''tty_table[channel]'') s
      else tty_read_loop (unat nr) env (unat channel) buf 0 s)"

primrec user_write_loop :: "nat \<Rightarrow> nat \<Rightarrow> u32 \<Rightarrow> 'a tty_state_scheme \<Rightarrow> ('a tty_state_scheme, unit) outcome" where
  "user_write_loop 0 n p s = Done () s"
| "user_write_loop (Suc k) n p s =
     kbind (get_fs_byte p s) (\<lambda>c s.
       user_write_loop k n (p + 1) (ttyupd n (\<lambda>t. t\<lparr>tt_write_q := PUTCH c (tt_write_q t)\<rparr>) s))"

definition user_tty_write :: "u32 \<Rightarrow> u32 \<Rightarrow> u32 \<Rightarrow> 'a tty_state_scheme \<Rightarrow> ('a tty_state_scheme, u32) outcome" where
  "user_tty_write channel buf nr s =
     (if unat channel \<ge> length (tty_table s) then Halted (Undef ''tty_table[channel]'') s
      else kbind (user_write_loop (nat (sint nr)) (unat channel) buf s) (\<lambda>_ s.
           kbind (tty_write (unat channel) s) (\<lambda>_ s. Done nr s)))"

section \<open>The keyboard\<close>

text \<open>The two tables as bytes, the terminator of the string included.\<close>

definition scancode_table :: "u8 list" where
  "scancode_table =
    [46, 46, 49, 50, 51, 52, 53, 54, 55, 56, 57, 48, 45, 61, 8, 46, 113, 119, 101, 114, 116, 121, 117,
     105, 111, 112, 91, 93, 10, 46, 97, 115, 100, 102, 103, 104, 106, 107, 108, 59, 39, 96, 46, 92, 122,
     120, 99, 118, 98, 110, 109, 44, 46, 47, 46, 42, 46, 32, 46, 46, 46, 46, 46, 46, 46, 46, 46, 46, 46,
     46, 46, 55, 56, 57, 52, 53, 54, 49, 50, 51, 48, 46, 46, 46, 46, 46, 46, 0]"

definition shift_scancode_table :: "u8 list" where
  "shift_scancode_table =
    [46, 46, 33, 64, 35, 36, 37, 94, 38, 42, 40, 41, 95, 43, 8, 46, 81, 87, 69, 82, 84, 89, 85, 73, 79,
     80, 123, 125, 10, 46, 65, 83, 68, 70, 71, 72, 74, 75, 76, 58, 34, 126, 46, 124, 90, 88, 67, 86, 66,
     78, 77, 60, 62, 63, 46, 42, 46, 32, 46, 46, 46, 46, 46, 46, 46, 46, 46, 46, 46, 46, 46, 55, 56, 57,
     52, 53, 54, 49, 50, 51, 48, 46, 46, 46, 46, 46, 46, 0]"

definition toupper :: "u8 \<Rightarrow> u8" where
  "toupper ch = (if 97 \<le> sint ch \<and> sint ch \<le> 122 then ch - 97 + 65 else ch)"

abbreviation (input) CAPS :: u16 where "CAPS \<equiv> 0x3A"
abbreviation (input) LCTRL :: u16 where "LCTRL \<equiv> 0x1D"
abbreviation (input) LALT :: u16 where "LALT \<equiv> 0x38"
abbreviation (input) LSHIFT :: u16 where "LSHIFT \<equiv> 0x2A"

definition RELEASE_CHAR :: "u16 \<Rightarrow> bool" where "RELEASE_CHAR a \<longleftrightarrow> a AND 0x80 \<noteq> 0"

text \<open>The byte a pressed key gives, with \<open>ch = ' '\<close> left for keys under control or alt.\<close>

definition key_char :: "u16 \<Rightarrow> 'a tty_state_scheme \<Rightarrow> u8 option" where
  "key_char scancode s =
     (let shift = lshift s \<noteq> 0 \<or> rshift s \<noteq> 0;
          cap_out = (if caps s \<noteq> 0 then \<not> shift else shift);
          look = (\<lambda>tab. if unat scancode < length tab
                        then Some (if cap_out then toupper (tab ! unat scancode) else tab ! unat scancode) else None)
      in if shift then look shift_scancode_table
         else if lctrl s \<noteq> 0 \<or> rctrl s \<noteq> 0 then Some 32
         else if lalt s \<noteq> 0 \<or> ralt s \<noteq> 0 then Some 32
         else look scancode_table)"

definition do_keyboard_interrupt :: "u16 \<Rightarrow> 'a tty_state_scheme \<Rightarrow> ('a tty_state_scheme, unit) outcome" where
  "do_keyboard_interrupt scancode s =
     (if RELEASE_CHAR scancode
      then let s = (if scancode = LCTRL OR 0x80 then s\<lparr>lctrl := 0\<rparr> else s);
               s = (if scancode = LALT OR 0x80 then s\<lparr>lalt := 0\<rparr> else s);
               s = (if scancode = LSHIFT OR 0x80 then s\<lparr>lshift := 0\<rparr> else s)
           in Done () s
      else if scancode = LCTRL then Done () (s\<lparr>lctrl := 1\<rparr>)
      else if scancode = LALT then Done () (s\<lparr>lalt := 1\<rparr>)
      else if scancode = LSHIFT then Done () (s\<lparr>lshift := 1\<rparr>)
      else if scancode = CAPS then Done () (s\<lparr>caps := (if caps s = 0 then 1 else 0)\<rparr>)
      else case key_char scancode s of
             None \<Rightarrow> Halted (Undef ''scancode_table'') s
           | Some ch \<Rightarrow> copy_to_buffer 0 (ttyupd 0 (\<lambda>t. t\<lparr>tt_read_q := PUTCH ch (tt_read_q t)\<rparr>) s))"

section \<open>What the screen shows\<close>

lemma ttyupd_simps [simp]:
  "tty_table (ttyupd n f s) = (tty_table s)[n := f (tty_table s ! n)]" "vmem (ttyupd n f s) = vmem s"
  "video_x (ttyupd n f s) = video_x s" "video_y (ttyupd n f s) = video_y s" "pmem (ttyupd n f s) = pmem s"
  "current (ttyupd n f s) = current s" "tmem (ttyupd n f s) = tmem s"
  by (simp_all add: ttyupd_def)

lemma ttyupd_ttyupd: "ttyupd n f (ttyupd n g s) = ttyupd n (\<lambda>t. f (g t)) s"
  by (cases "n < length (tty_table s)") (simp_all add: ttyupd_def not_less list_update_beyond)

lemma shown_ttyupd [simp]: "shown (ttyupd n f s) = shown s" "on_screen (ttyupd n f s) = on_screen s"
  by (simp_all add: shown_def on_screen_def)

lemma video_putchars:
  "on_screen s \<Longrightarrow> shown (fold video_putchar cs s) = fold char_on cs (shown s) \<and> on_screen (fold video_putchar cs s) \<and>
     same_but_screen s (fold video_putchar cs s)"
proof (induction cs arbitrary: s)
  case (Cons c cs)
  from Cons.IH [OF video_putchar_char_on(2) [OF Cons.prems, of c]] video_putchar_char_on [OF Cons.prems, of c]
  show ?case by (auto intro: same_but_screen_trans)
qed simp

lemma same_but_screenD:
  "same_but_screen s t \<Longrightarrow> tty_table t = tty_table s" "same_but_screen s t \<Longrightarrow> pmem t = pmem s"
  "same_but_screen s t \<Longrightarrow> waitq t = waitq s"
  by (auto simp: same_but_screen_def)

text \<open>
  \<open>con_write\<close> prints what is in the queue, in order, and leaves it empty: the queue is used through
  the interface of \<open>Ring\<close>.
\<close>

lemma con_write_loop_prints:
  "on_screen s \<Longrightarrow> n < length (tty_table s) \<Longrightarrow> ring_wf (tt_write_q (tty_table s ! n)) \<Longrightarrow>
     length (ring_contents (tt_write_q (tty_table s ! n))) < k \<Longrightarrow>
     \<exists>t q. con_write_loop k n s = Done () t \<and>
       shown t = fold char_on (ring_contents (tt_write_q (tty_table s ! n))) (shown s) \<and> on_screen t \<and>
       tty_table t = (tty_table s)[n := (tty_table s ! n)\<lparr>tt_write_q := q\<rparr>] \<and> ring_wf q \<and> ring_contents q = []"
proof (induction k arbitrary: s)
  case (Suc k)
  let ?q = "tt_write_q (tty_table s ! n)"
  note wf = Suc.prems(3)
  show ?case
  proof (cases "ring_contents ?q")
    case Nil
    then show ?thesis using Suc.prems macro.is_mt_iff [OF wf]
      by (intro exI [of _ s] exI [of _ ?q]) simp
  next
    case (Cons c cs)
    then have ne: "\<not> EMPTY ?q" using macro.is_mt_iff [OF wf] by simp
    obtain q where g: "GETCH ?q = (c, q)" "ring_contents q = cs"
      using macro.contents_get [OF wf Cons] by (cases "GETCH ?q") auto
    have wq: "ring_wf q" using macro.wf_get [OF wf] g by simp
    let ?s = "video_putchar c (ttyupd n (\<lambda>t. t\<lparr>tt_write_q := q\<rparr>) s)"
    have on: "on_screen (ttyupd n (\<lambda>t. t\<lparr>tt_write_q := q\<rparr>) s)" using Suc.prems(1) by simp
    note put = video_putchar_char_on [OF on, of c]
    have tab: "tty_table ?s = (tty_table s)[n := (tty_table s ! n)\<lparr>tt_write_q := q\<rparr>]"
      using same_but_screenD(1) [OF put(3)] by simp
    have "\<exists>t q'. con_write_loop k n ?s = Done () t \<and>
        shown t = fold char_on (ring_contents (tt_write_q (tty_table ?s ! n))) (shown ?s) \<and> on_screen t \<and>
        tty_table t = (tty_table ?s)[n := (tty_table ?s ! n)\<lparr>tt_write_q := q'\<rparr>] \<and> ring_wf q' \<and> ring_contents q' = []"
      by (rule Suc.IH) (use Suc.prems put(2) wq g Cons in \<open>simp_all add: tab\<close>)
    then show ?thesis using Suc.prems(2) ne g Cons put(1) by (auto simp: tab)
  qed
qed simp

lemma con_write_prints:
  assumes "on_screen s" "n < length (tty_table s)" "ring_wf (tt_write_q (tty_table s ! n))"
  shows "\<exists>t q. con_write n s = Done () t \<and>
    shown t = fold char_on (ring_contents (tt_write_q (tty_table s ! n))) (shown s) \<and> on_screen t \<and>
    tty_table t = (tty_table s)[n := (tty_table s ! n)\<lparr>tt_write_q := q\<rparr>] \<and> ring_wf q \<and> ring_contents q = []"
  unfolding con_write_def
  by (rule con_write_loop_prints [OF assms]) (use macro.length_contents [OF assms(3)] in simp)

section \<open>Bytes of the caller\<close>

lemma walk_ttyupd [simp]:
  "linear a (ttyupd n f s) = linear a s" "phys l (ttyupd n f s) = phys l s" "readable a (ttyupd n f s) = readable a s"
  "user_bytes a k (ttyupd n f s) = user_bytes a k s"
  by (simp_all add: linear_def phys_def pte_addr_def readable_def present_def user_bytes_def)

lemma nonneg_unat: "0 \<le> sint (w :: u32) \<Longrightarrow> nat (sint w) = unat w"
proof -
  assume "0 \<le> sint w"
  then have "take_bit 32 (sint w) = sint w" using sint_range(2) [of w] by (intro take_bit_int_eq_self) simp_all
  moreover have "uint w = take_bit 32 (sint w)" using uint_sint [of w] by simp
  ultimately have "uint w = sint w" by (simp only:)
  then have "nat (sint w) = nat (uint w)" by (simp only:)
  then show ?thesis by (simp only: unat_eq_nat_uint)
qed

lemma user_write_loop_puts:
  "\<forall>i < k. readable (p + of_nat i) s \<Longrightarrow>
     user_write_loop k n p s = Done () (ttyupd n (\<lambda>t. t\<lparr>tt_write_q := fold PUTCH (user_bytes p k s) (tt_write_q t)\<rparr>) s)"
proof (induction k arbitrary: p s)
  case 0
  then show ?case by (simp add: ttyupd_def user_bytes_def)
next
  case (Suc k)
  from Suc.prems have r: "readable p s" using spec [of _ 0] by force
  let ?c = "byte_at (pmem s) (phys (linear p s) s)"
  let ?s = "ttyupd n (\<lambda>t. t\<lparr>tt_write_q := PUTCH ?c (tt_write_q t)\<rparr>) s"
  have "\<forall>i < k. readable (p + 1 + of_nat i) ?s"
  proof (intro allI impI)
    fix i assume "i < k"
    with Suc.prems have "readable (p + of_nat (Suc i)) s" by (simp only: Suc_less_eq)
    then show "readable (p + 1 + of_nat i) ?s" by (simp add: ac_simps)
  qed
  from Suc.IH [OF this] show ?case
    by (simp add: get_fs_byte_readable [OF r] user_bytes_Suc ttyupd_ttyupd)
qed

section \<open>Properties\<close>

text \<open>C18: the console shows a run of characters as the terminal of cells and cursor does: printing them changes the
  screen and the cursor as the terminal prescribes, keeps the cursor on the screen, and touches no byte of
  memory outside the 80 by 25 cells and no other part of the state than the log of what is written to ports.\<close>

theorem characters_appear:
  assumes "on_screen s"
  shows "shown (fold video_putchar cs s) = fold char_on cs (shown s) \<and> on_screen (fold video_putchar cs s) \<and>
    same_but_screen s (fold video_putchar cs s)"
  using assms by (rule video_putchars)

text \<open>A console with an empty screen and empty queues.\<close>

definition empty_queue :: tty_queue where
  "empty_queue = \<lparr>q_buf = replicate 1024 0, q_head = 0, q_tail = 0\<rparr>"

definition tty_boot :: tty_state where
  "tty_boot = fs_state.extend fs_raw (tty_state.fields
     [\<lparr>tt_write = Some Con_write, tt_pgrp = 0, tt_flags = 1, tt_read_q = empty_queue, tt_write_q = empty_queue,
       tt_buffer = empty_queue\<rparr>] 0 0 (\<lambda>_. 0) 0 0 0 0 0 0 0 (\<lambda>_. None))"

lemma empty_queue_wf: "ring_wf empty_queue" "EMPTY empty_queue" "ring_contents empty_queue = []"
  by (simp_all add: empty_queue_def ring_wf_def EMPTY_def ring_contents_def chars_def)

lemma tty_boot_simps [simp]:
  "tty_table tty_boot = [\<lparr>tt_write = Some Con_write, tt_pgrp = 0, tt_flags = 1, tt_read_q = empty_queue,
     tt_write_q = empty_queue, tt_buffer = empty_queue\<rparr>]"
  "video_x tty_boot = 0" "video_y tty_boot = 0" "on_screen tty_boot" "pmem tty_boot = (\<lambda>_. 0)"
  "lshift tty_boot = 0" "rshift tty_boot = 0" "caps tty_boot = 0" "lctrl tty_boot = 0" "rctrl tty_boot = 0"
  "lalt tty_boot = 0" "ralt tty_boot = 0"
  by (simp_all add: tty_boot_def fs_state.defs tty_state.defs on_screen_def fs_raw_def blk_state.defs blk_boot_def
      mm_state.defs mm_boot_def sched_state.defs sched_boot_def)

theorem characters_appear_witness:
  "snd (shown (fold video_putchar [65, 10, 66] tty_boot)) = (1, 1)"
proof -
  have "shown (fold video_putchar [65, 10, 66] tty_boot) = fold char_on [65, 10, 66] (shown tty_boot)"
    using characters_appear [of tty_boot "[65, 10, 66]"] by simp
  then show ?thesis by (simp add: shown_def char_on_def glyph_on_def)
qed

text \<open>C32: of the bytes a task writes to its terminal, the screen shows those after the last multiple of 1024 and no
  others: the write queue is filled without asking whether it is full, and every 1024th byte makes it empty
  again. A write of fewer than 1024 readable bytes is shown in full, in order; a write of 1024 shows nothing.
  The call returns the count it was given.\<close>

theorem user_write_shows:
  assumes "on_screen s" "unat channel < length (tty_table s)" "tt = tty_table s ! unat channel"
    and "tt_write tt = Some Con_write" "ring_wf (tt_write_q tt)" "EMPTY (tt_write_q tt)"
    and "0 \<le> sint nr" "\<forall>i < unat nr. readable (buf + of_nat i) s"
  shows "\<exists>t. user_tty_write channel buf nr s = Done nr t \<and> on_screen t \<and>
    shown t = fold char_on (drop (1024 * (unat nr div 1024)) (user_bytes buf (unat nr) s)) (shown s)"
proof -
  let ?n = "unat channel" and ?bs = "user_bytes buf (unat nr) s"
  let ?q = "fold PUTCH ?bs (tt_write_q tt)"
  let ?s = "ttyupd ?n (\<lambda>t. t\<lparr>tt_write_q := fold PUTCH ?bs (tt_write_q t)\<rparr>) s"
  have tab: "tty_table ?s ! ?n = tt\<lparr>tt_write_q := ?q\<rparr>" using assms(2,3) by simp
  have "length ?bs = unat nr" by (simp add: user_bytes_def)
  then have c: "ring_contents ?q = drop (1024 * (unat nr div 1024)) ?bs"
    using contents_overrun [OF assms(5,6), of ?bs] by simp
  have wf: "ring_wf (tt_write_q (tty_table ?s ! ?n))" unfolding tab using macro.wf_put_all [OF assms(5)] by simp
  obtain t where t: "con_write ?n ?s = Done () t" "shown t = fold char_on (ring_contents ?q) (shown s)" "on_screen t"
    using con_write_prints [OF _ _ wf] assms(1,2) unfolding tab by auto
  have "tty_write ?n ?s = Done () t" unfolding tty_write_def tab using assms(4) t(1) by simp
  moreover have "user_write_loop (nat (sint nr)) ?n buf s = Done () ?s"
    unfolding nonneg_unat [OF assms(7)] by (rule user_write_loop_puts [OF assms(8)])
  ultimately show ?thesis using t(2,3) assms(2) by (simp add: user_tty_write_def c)
qed

text \<open>The console of a task whose third page is mapped and holds AB at 0x2344.\<close>

definition tty_user :: tty_state where
  "tty_user = tty_boot\<lparr>pmem := (\<lambda>_. 0)(0 := 0x5007, 0x5008 := 0x200005, 0x200344 := 0x4241)\<rparr>"

lemmas tty_user_defs = tty_user_def linear_def get_base_def dir_entry_def pte_addr_def phys_def readable_def
  on_screen_def present_def lsl_def tty_boot_def fs_state.defs tty_state.defs fs_raw_def blk_state.defs blk_boot_def
  shown_def mm_state.defs mm_boot_def sched_state.defs sched_boot_def INIT_TASK_def bit_numeral_rec byte_at_def

lemma tty_user_readable: "readable 0x2344 tty_user" "readable 0x2345 tty_user"
  by (simp_all add: tty_user_defs)

lemma tty_user_bytes: "user_bytes 0x2344 2 tty_user = [65, 66]"
proof -
  have "[0 ..< 2] = [0 :: nat, 1]" by (simp add: upt_conv_Cons)
  then show ?thesis unfolding user_bytes_def by (simp add: tty_user_defs)
qed

lemma tty_user_screen: "tty_table tty_user = tty_table tty_boot" "on_screen tty_user" "snd (shown tty_user) = (0, 0)"
  by (simp_all add: tty_user_defs)

theorem user_write_shows_witness:
  "\<exists>t. user_tty_write 0 0x2344 2 tty_user = Done 2 t \<and> snd (shown t) = (2, 0)"
proof -
  have r: "\<forall>i < unat (2 :: u32). readable (0x2344 + of_nat i) tty_user"
  proof (intro allI impI)
    fix i assume "i < unat (2 :: u32)"
    then have "i = 0 \<or> i = 1" by auto
    then show "readable (0x2344 + of_nat i) tty_user" using tty_user_readable by auto
  qed
  have "\<exists>t. user_tty_write 0 0x2344 2 tty_user = Done 2 t \<and> on_screen t \<and>
      shown t = fold char_on (drop (1024 * (unat (2 :: u32) div 1024)) (user_bytes 0x2344 (unat (2 :: u32)) tty_user)) (shown tty_user)"
    by (rule user_write_shows [OF tty_user_screen(2) _ refl _ _ _ _ r])
      (simp_all add: tty_user_screen(1) empty_queue_wf)
  then obtain t where t: "user_tty_write 0 0x2344 2 tty_user = Done 2 t" "shown t = fold char_on [65, 66] (shown tty_user)"
    by (auto simp: tty_user_bytes)
  obtain scr where "shown tty_user = (scr, 0, 0)" using tty_user_screen(3) by (cases "shown tty_user") auto
  with t show ?thesis by (simp add: char_on_def glyph_on_def)
qed

text \<open>The line after a key, \<open>kept\<close> saying that backspace leaves a newline alone.\<close>

definition edit_line :: "bool \<Rightarrow> u8 \<Rightarrow> u8 list \<Rightarrow> u8 list" where
  "edit_line kept c line =
     (if c = 8 then if line = [] \<or> last line = 10 \<and> kept then line else butlast line else line @ [c])"

text \<open>The byte that backspace tests is the last of the line, unless the head is at the start of the array.\<close>

lemma before_head_last:
  assumes "ring_wf (tt_buffer t)" "\<not> EMPTY (tt_buffer t)" "ring_wf (tt_write_q t)"
  shows "before_head t = 10 \<longleftrightarrow> last (ring_contents (tt_buffer t)) = 10 \<and> q_head (tt_buffer t) \<noteq> 0"
proof (cases "q_head (tt_buffer t) = 0")
  case True
  have "unat (q_tail (tt_write_q t)) < 1024" using assms(3) by (simp add: ring_wf_def)
  then have "drop_bit 24 (q_tail (tt_write_q t)) = 0" by (simp add: word_unat_eq_iff unat_div drop_bit_eq_div)
  with True show ?thesis by (simp add: before_head_def)
next
  case False
  let ?h = "q_head (tt_buffer t)"
  have "unat (?h - 1) = unat (DEC ?h)"
  proof -
    have "unat ?h = Suc (unat (?h - 1))" by (rule unat_sub_one [OF False])
    moreover have "unat ?h < 1024" using assms(1) by (simp add: ring_wf_def)
    ultimately show ?thesis by (simp add: unat_DEC)
  qed
  then show ?thesis using False contents_DEC(4) [OF assms(1,2)] by (simp add: before_head_def)
qed

lemma contents_put_empty: "ring_wf q \<Longrightarrow> EMPTY q \<Longrightarrow> ring_contents (PUTCH c q) = [c]"
  using macro.contents_put_all [of q "[c]"] macro.is_mt_iff [of q] by simp

lemma or_one_nonzero: "(x :: u32) OR 1 \<noteq> 0"
proof
  assume "x OR 1 = 0"
  then have "\<not> bit (x OR 1) 0" by simp
  then show False by (simp add: bit_or_iff)
qed

lemma echo_shows:
  assumes "on_screen s" "tty_table s = [tt]" "tt_write tt = Some Con_write" "ring_wf (tt_write_q tt)" "EMPTY (tt_write_q tt)"
  shows "\<exists>t q. echo 0 c s = Done () t \<and> shown t = char_on c (shown s) \<and> on_screen t \<and>
    tty_table t = [tt\<lparr>tt_write_q := q\<rparr>] \<and> EMPTY q"
proof -
  let ?s = "ttyupd 0 (\<lambda>t. t\<lparr>tt_write_q := PUTCH c (tt_write_q t)\<rparr>) s"
  have tab: "tty_table ?s ! 0 = tt\<lparr>tt_write_q := PUTCH c (tt_write_q tt)\<rparr>" using assms(2) by simp
  have wf: "ring_wf (tt_write_q (tty_table ?s ! 0))" unfolding tab using macro.wf_put [OF assms(4)] by simp
  obtain t q where "con_write 0 ?s = Done () t" "shown t = char_on c (shown s)" "on_screen t"
    "tty_table t = [tt\<lparr>tt_write_q := q\<rparr>]" "ring_wf q" "ring_contents q = []"
    using con_write_prints [OF _ _ wf] assms(1,2) contents_put_empty [OF assms(4,5)] unfolding tab by auto
  then show ?thesis
    using tab assms(3) macro.is_mt_iff [of q] or_one_nonzero by (auto simp: echo_def tty_write_def)
qed

lemma wake_up_tty [simp]:
  "tty_table (wake_up q s) = tty_table s" "shown (wake_up q s) = shown s" "on_screen (wake_up q s) = on_screen s"
  by (auto simp: wake_up_def tupd_def Let_def shown_def on_screen_def split: option.split)

lemma take_char_edits:
  assumes "on_screen s" "tty_table s = [tt]" "tt_write tt = Some Con_write" "ring_wf (tt_write_q tt)"
    and "ring_wf (tt_buffer tt)" "EMPTY (tt_write_q tt)" "line = ring_contents (tt_buffer tt)" "length line < 1023"
    and "edited = edit_line (q_head (tt_buffer tt) \<noteq> 0) c line"
  shows "\<exists>t u. take_char 0 c s = Done () t \<and> on_screen t \<and> tty_table t = [u] \<and>
    ring_contents (tt_buffer u) = edited \<and> tt_read_q u = tt_read_q tt \<and> EMPTY (tt_write_q u) \<and>
    shown t = (if c = 8 \<and> edited = line then shown s else char_on c (shown s))"
proof -
  let ?b = "tt_buffer tt"
  have at: "tty_table s ! 0 = tt" using assms(2) by simp
  have mt: "EMPTY ?b \<longleftrightarrow> line = []" using macro.is_mt_iff [OF assms(5)] assms(7) by simp
  have full: "\<not> FULL ?b" using macro.is_full_iff [OF assms(5)] assms(7,8) by simp
  show ?thesis
  proof (cases "c = 8")
    case True
    show ?thesis
    proof (cases "line = [] \<or> before_head tt = 10")
      case True
      then have "edited = line" using \<open>c = 8\<close> before_head_last [OF assms(5) _ assms(4)] mt assms(7,9) by (auto simp: edit_line_def)
      with True \<open>c = 8\<close> assms(1,2,6,7) mt show ?thesis by (auto simp: take_char_def at Let_def simp del: EMPTY_def)
    next
      case False
      then have ne: "\<not> EMPTY ?b" "before_head tt \<noteq> 10" using mt by simp_all
      note dec = contents_DEC [OF assms(5) ne(1)]
      have ed: "edited = butlast line" using \<open>c = 8\<close> False before_head_last [OF assms(5) ne(1) assms(4)] assms(7,9)
        by (auto simp: edit_line_def)
      let ?q = "?b\<lparr>q_head := DEC (q_head ?b)\<rparr>"
      have "butlast line \<noteq> line" using False by (metis append_butlast_last_id append_self_conv list.distinct(1))
      moreover obtain t q where "echo 0 c (ttyupd 0 (\<lambda>t. t\<lparr>tt_buffer := ?q\<rparr>) s) = Done () t"
        "shown t = char_on c (shown s)" "on_screen t" "tty_table t = [tt\<lparr>tt_buffer := ?q, tt_write_q := q\<rparr>]" "EMPTY q"
        using echo_shows [of "ttyupd 0 (\<lambda>t. t\<lparr>tt_buffer := ?q\<rparr>) s" "tt\<lparr>tt_buffer := ?q\<rparr>" c] assms by auto
      ultimately show ?thesis using \<open>c = 8\<close> ne ed dec(3) assms(7) by (simp add: take_char_def at)
    qed
  next
    case False
    let ?q = "PUTCH c ?b"
    have line: "ring_contents ?q = line @ [c]" using macro.contents_put [OF assms(5) full] assms(7) by simp
    let ?u = "tt\<lparr>tt_buffer := ?q\<rparr>" and ?s = "ttyupd 0 (\<lambda>t. t\<lparr>tt_buffer := PUTCH c ?b\<rparr>) s"
    let ?r = "if c = -1 \<or> c = 10 then wake_up (Some (Tty_wait 0)) ?s else ?s"
    have "take_char 0 c s = echo 0 c ?r" using False full by (simp add: take_char_def at Let_def)
    moreover have "\<exists>t q. echo 0 c ?r = Done () t \<and> shown t = char_on c (shown ?r) \<and> on_screen t \<and>
        tty_table t = [?u\<lparr>tt_write_q := q\<rparr>] \<and> EMPTY q"
      by (rule echo_shows) (use assms in auto)
    moreover have "shown ?r = shown s" by simp
    ultimately show ?thesis using False line assms(9) by (auto simp: edit_line_def)
  qed
qed

text \<open>C31: the keyboard edits a line: when the line buffer has room and the queues are drained, a key adds its character
  to the end of the line and echoes it, and backspace takes back and echoes the last character of the line.
  At an empty line backspace changes and shows nothing, nor after a newline, with one exception: when the
  line ends at the start of the ring, the byte tested, buf[head - 1], lies before the array, and
  backspace takes back the newline too. The read queue is left empty and the write queue too.\<close>

theorem key_edits_line:
  assumes "on_screen s" "tty_table s = [tt]" "tt_write tt = Some Con_write"
    and "ring_wf (tt_read_q tt)" "ring_wf (tt_write_q tt)" "ring_wf (tt_buffer tt)"
    and "EMPTY (tt_read_q tt)" "EMPTY (tt_write_q tt)"
    and "line = ring_contents (tt_buffer tt)" "length line < 1023"
    and "\<not> RELEASE_CHAR code" "code \<notin> {LCTRL, LALT, LSHIFT, CAPS}" "key_char code s = Some c"
    and "edited = (if c \<noteq> 8 then line @ [c]
      else if line = [] \<or> last line = 10 \<and> q_head (tt_buffer tt) \<noteq> 0 then line else butlast line)"
  shows "\<exists>t u. do_keyboard_interrupt code s = Done () t \<and> on_screen t \<and> tty_table t = [u] \<and>
    ring_contents (tt_buffer u) = edited \<and> EMPTY (tt_read_q u) \<and> EMPTY (tt_write_q u) \<and>
    shown t = (if c = 8 \<and> edited = line then shown s else char_on c (shown s))"
proof -
  let ?rq = "PUTCH c (tt_read_q tt)"
  let ?s1 = "ttyupd 0 (\<lambda>t. t\<lparr>tt_read_q := PUTCH c (tt_read_q t)\<rparr>) s"
  have rq: "ring_wf ?rq" "ring_contents ?rq = [c]"
    using macro.wf_put [OF assms(4)] contents_put_empty [OF assms(4,7)] by simp_all
  obtain q where g: "GETCH ?rq = (c, q)" "ring_contents q = []" "ring_wf q"
    using macro.contents_get [OF rq(1), of c "[]"] macro.wf_get [OF rq(1)] rq(2) by (cases "GETCH ?rq") auto
  have mt: "\<not> EMPTY ?rq" "EMPTY q" using macro.is_mt_iff [OF rq(1)] macro.is_mt_iff [OF g(3)] rq(2) g(2) by simp_all
  let ?s2 = "ttyupd 0 (\<lambda>t. t\<lparr>tt_read_q := q\<rparr>) ?s1"
  let ?tt = "tt\<lparr>tt_read_q := q\<rparr>"
  have tab: "tty_table ?s1 = [tt\<lparr>tt_read_q := ?rq\<rparr>]" "tty_table ?s2 = [?tt]" using assms(2) by simp_all
  have sh: "shown ?s2 = shown s" by simp
  have "\<exists>t u. take_char 0 c ?s2 = Done () t \<and> on_screen t \<and> tty_table t = [u] \<and>
      ring_contents (tt_buffer u) = edited \<and> tt_read_q u = tt_read_q ?tt \<and> EMPTY (tt_write_q u) \<and>
      shown t = (if c = 8 \<and> edited = line then shown ?s2 else char_on c (shown ?s2))"
    by (rule take_char_edits [where s = ?s2 and tt = ?tt and c = c and line = line])
      (use assms tab in \<open>simp_all add: edit_line_def\<close>)
  then obtain t u where t: "take_char 0 c ?s2 = Done () t" "on_screen t" "tty_table t = [u]"
    "ring_contents (tt_buffer u) = edited" "tt_read_q u = q" "EMPTY (tt_write_q u)"
    "shown t = (if c = 8 \<and> edited = line then shown s else char_on c (shown s))"
    unfolding sh by (auto simp del: EMPTY_def)
  have "tt_read_q (tty_table t ! 0) = q" using t(3,5) by simp
  then have idle: "copy_to_buffer_loop (Suc k) 0 t = Done () t" for k using mt(2) by simp
  have "tt_read_q (tty_table ?s1 ! 0) = ?rq" unfolding tab(1) by simp
  then have "copy_to_buffer_loop (Suc (Suc 1022)) 0 ?s1 = kbind (take_char 0 c ?s2) (\<lambda>_. copy_to_buffer_loop (Suc 1022) 0)"
    using mt(1) g(1) by (simp only: copy_to_buffer_loop.simps(2) [of "Suc 1022"] Let_def if_False prod.case)
  moreover have "TTY_BUF_SIZE = Suc (Suc 1022)" by simp
  ultimately have "copy_to_buffer 0 ?s1 = Done () t"
    unfolding copy_to_buffer_def t(1) kbind.simps idle by (simp only:)
  then have "do_keyboard_interrupt code s = Done () t"
    using assms(11-13) by (simp add: do_keyboard_interrupt_def)
  with t mt(2) show ?thesis by auto
qed

theorem key_edits_line_witness:
  "\<exists>t u. do_keyboard_interrupt 0x1E tty_boot = Done () t \<and> tty_table t = [u] \<and> ring_contents (tt_buffer u) = [97]"
proof -
  have k: "key_char 0x1E tty_boot = Some 97" by (simp add: key_char_def scancode_table_def)
  have "\<exists>t u. do_keyboard_interrupt 0x1E tty_boot = Done () t \<and> on_screen t \<and> tty_table t = [u] \<and>
      ring_contents (tt_buffer u) = [97] \<and> EMPTY (tt_read_q u) \<and> EMPTY (tt_write_q u) \<and>
      shown t = (if (97 :: u8) = 8 \<and> [97] = ([] :: u8 list) then shown tty_boot else char_on 97 (shown tty_boot))"
    by (rule key_edits_line [OF tty_boot_simps(4,1) _ _ _ _ _ _ _ _ _ _ k])
      (simp_all add: empty_queue_wf RELEASE_CHAR_def)
  then show ?thesis by auto
qed

end
