(* ===== verification/Mm_Frame.thy ===== *)
theory Mm_Frame
  imports Span
begin

text \<open>
  What survives memory management. The routines of \<^theory_text>\<open>Memory\<close> and the user accesses
  change physical memory, the frame counts and the kernel log, and nothing else: an invariant that does
  not speak of these three is carried through every one of them, however it ends.
\<close>

locale mm_frame =
  fixes I :: "'a mm_state_scheme \<Rightarrow> bool"
  assumes I_pmem: "I s \<Longrightarrow> I (s\<lparr>pmem := m\<rparr>)"
    and I_mem_map: "I s \<Longrightarrow> I (s\<lparr>mem_map := mm\<rparr>)"
    and I_klog: "I s \<Longrightarrow> I (s\<lparr>klog := k\<rparr>)"
begin

lemma I_store: "I s \<Longrightarrow> I (store a v s)"
  by (simp add: store_def I_pmem)

lemma I_set_mem_map: "I s \<Longrightarrow> I (set_mem_map n v s)"
  by (simp add: set_mem_map_def I_mem_map)

lemma I_print: "I s \<Longrightarrow> I (printk f as s)"
  by (simp add: printk_def I_klog)

lemma I_panic: "I s \<Longrightarrow> I (final (panic str s))"
  by (simp add: panic_def I_print)

lemma I_oom: "I s \<Longrightarrow> I (final (oom s))"
  by (simp add: oom_def I_panic)

lemma I_mem_map_at: "I s \<Longrightarrow> I (final (mem_map_at n s))"
  by (simp add: mem_map_at_def)

lemmas mm_updates = I_pmem I_store I_set_mem_map I_print I_panic I_oom I_mem_map_at

lemma I_get_free_page: "I s \<Longrightarrow> I (snd (get_free_page s))"
  by (simp add: get_free_page_def mm_updates split: option.split)

lemma I_free_page: "I s \<Longrightarrow> I (final (free_page addr s))"
  unfolding free_page_def Let_def
  by (auto intro!: kbind_keeps [where I = I] simp: mm_updates)

lemma I_free_entries: "I s \<Longrightarrow> I (final (free_entries n p s))"
  by (induction n arbitrary: p s) (auto intro!: kbind_keeps [where I = I] simp: mm_updates I_free_page)

lemma I_free_dirs: "I s \<Longrightarrow> I (final (free_dirs n d s))"
  by (induction n arbitrary: d s)
    (auto intro!: kbind_keeps [where I = I] simp: mm_updates I_free_page I_free_entries)

lemma I_free_page_tables: "I s \<Longrightarrow> I (final (free_page_tables from sz s))"
  unfolding free_page_tables_def
  by (auto intro!: kbind_keeps [where I = I] simp: mm_updates I_free_dirs)

lemma I_put_page: "I s \<Longrightarrow> I (final (put_page p a s))"
  unfolding put_page_def Let_def split_beta
  by (rule kbind_keeps [where I = I]) (simp_all add: mm_updates I_get_free_page)

lemma I_un_wp_page: "I s \<Longrightarrow> I (final (un_wp_page e s))"
  unfolding un_wp_page_def Let_def split_beta
  by (rule kbind_keeps [where I = I]) (simp_all add: mm_updates I_get_free_page)

lemma I_write_verify: "I s \<Longrightarrow> I (final (write_verify a s))"
  by (simp add: write_verify_def Let_def I_un_wp_page)

lemma I_verify_loop: "I s \<Longrightarrow> I (final (verify_loop a n s))"
proof (induction a n s rule: verify_loop.induct)
  case (1 a n s)
  show ?case
    by (subst verify_loop.simps) (use 1 in \<open>auto intro!: kbind_keeps [where I = I] I_write_verify\<close>)
qed

lemma I_verify_area: "I s \<Longrightarrow> I (final (verify_area a n s))"
  by (simp add: verify_area_def I_verify_loop)

lemma I_do_no_page: "I s \<Longrightarrow> I (final (do_no_page e a s))"
  unfolding do_no_page_def split_beta
  by (auto intro!: kbind_keeps [where I = I] simp: mm_updates I_get_free_page I_put_page I_free_page)

lemma I_get_empty_page: "I s \<Longrightarrow> I (final (get_empty_page a s))"
  unfolding get_empty_page_def split_beta
  by (auto intro!: kbind_keeps [where I = I] simp: mm_updates I_get_free_page I_put_page I_free_page)

lemma I_copy_entries: "I s \<Longrightarrow> I (final (copy_entries n f t s))"
  by (induction n arbitrary: f t s) (auto intro!: kbind_keeps [where I = I] simp: Let_def mm_updates)

lemma I_copy_dirs: "I s \<Longrightarrow> I (final (copy_dirs n nr f t s))"
proof (induction n arbitrary: f t s)
  case (Suc n)
  then show ?case
    unfolding copy_dirs.simps Let_def split_beta
    by (auto intro!: kbind_keeps [where I = I] simp: mm_updates I_get_free_page I_copy_entries)
qed simp

lemma I_copy_page_tables: "I s \<Longrightarrow> I (final (copy_page_tables f t n s))"
  by (simp add: copy_page_tables_def I_copy_dirs I_panic)

section \<open>User accesses\<close>

lemma I_fs_access: "I s \<Longrightarrow> I (final (fs_access e a s))"
  unfolding fs_access_def by (auto intro!: kbind_keeps [where I = I] simp: I_do_no_page)

lemma I_get_fs_byte: "I s \<Longrightarrow> I (final (get_fs_byte a s))"
  unfolding get_fs_byte_def by (auto intro!: kbind_keeps [where I = I] simp: I_fs_access)

lemma I_put_fs_byte: "I s \<Longrightarrow> I (final (put_fs_byte v a s))"
  unfolding put_fs_byte_def by (auto intro!: kbind_keeps [where I = I] simp: I_fs_access I_pmem)

lemma I_put_bytes: "I s \<Longrightarrow> I (final (put_bytes vs a s))"
  by (induction vs arbitrary: a s) (auto intro!: kbind_keeps [where I = I] simp: I_put_fs_byte)

lemma I_put_fs_long: "I s \<Longrightarrow> I (final (put_fs_long v a s))"
  by (simp add: put_fs_long_bytes I_put_bytes)

end

text \<open>The scheduler's part of the state is such an invariant.\<close>

definition sched_part :: "'a sched_state_scheme \<Rightarrow> (u32 \<Rightarrow> task_struct) \<times> u32 list \<times> u32 \<times> u32 \<times> u32 \<times> nat \<times> (wq \<Rightarrow> u32)" where
  "sched_part s = (tmem s, task s, current s, jiffies s, last_pid s, patience s, waitq s)"

interpretation sched_kept: mm_frame "\<lambda>s. sched_part s = k" for k
  by unfold_locales (simp_all add: sched_part_def)

lemma sched_part_verify_area: "verify_area a n s = Done x t \<Longrightarrow> sched_part t = sched_part s"
  using sched_kept.I_verify_area [of s "sched_part s" a n] by simp

lemma sched_part_cur: "sched_part t = sched_part s \<Longrightarrow> cur t = cur s"
  by (simp add: sched_part_def)

end
