(* ===== verification/Files.thy ===== *)
theory Files
  imports Namei Tty Mm_Frame
begin

text \<open>
  Open files: \<open>open\<close> and \<open>close\<close> (\<^verbatim>\<open>fs/open.c\<close>), \<open>dup\<close>
  (\<^verbatim>\<open>fs/fcntl.c\<close>) and \<open>read\<close> (\<^verbatim>\<open>fs/read_write.c\<close>,
  \<^verbatim>\<open>fs/file_dev.c\<close>). A descriptor is an index of the task's table \<open>filp\<close>, whose entries
  point into \<open>file_table\<close>, whose entries point into the table of inodes.
\<close>

section \<open>Descriptors\<close>

abbreviation (input) set_filp :: "nat \<Rightarrow> nat option \<Rightarrow> 'a sched_state_scheme \<Rightarrow> 'a sched_state_scheme" where
  "set_filp fd p s \<equiv> tupd (current s) (\<lambda>t. t\<lparr>t_filp := (t_filp t)[fd := p]\<rparr>) s"

abbreviation (input) keep_on_exec :: "nat \<Rightarrow> 'a sched_state_scheme \<Rightarrow> 'a sched_state_scheme" where
  "keep_on_exec fd s \<equiv> tupd (current s) (\<lambda>t. t\<lparr>t_close_on_exec := t_close_on_exec t AND NOT (push_bit fd 1)\<rparr>) s"

definition free_fd :: "nat \<Rightarrow> 'a sched_state_scheme \<Rightarrow> nat option" where
  "free_fd arg s = find (\<lambda>fd. t_filp (cur s) ! fd = None) [arg..<NR_OPEN]"

definition free_file :: "'a fs_state_scheme \<Rightarrow> nat option" where
  "free_file s = find (\<lambda>i. f_count (file_table s ! i) = 0) [0..<NR_FILE]"

definition dupfd :: "u32 \<Rightarrow> u32 \<Rightarrow> 'a fs_state_scheme \<Rightarrow> u32 \<times> 'a fs_state_scheme" where
  "dupfd fd arg s =
     (if unat fd \<ge> NR_OPEN then (-9, s)
      else case t_filp (cur s) ! unat fd of
        None \<Rightarrow> (-9, s)
      | Some f \<Rightarrow>
          if unat arg \<ge> NR_OPEN then (-22, s)
          else case free_fd (unat arg) s of
                 None \<Rightarrow> (-24, s)
               | Some arg \<Rightarrow>
                   (of_nat arg, fupd f (\<lambda>x. x\<lparr>f_count := f_count x + 1\<rparr>) (set_filp arg (Some f) (keep_on_exec arg s))))"

definition sys_dup :: "u32 \<Rightarrow> 'a fs_state_scheme \<Rightarrow> u32 \<times> 'a fs_state_scheme" where
  "sys_dup fildes s = dupfd fildes 0 s"

definition sys_close :: "('a fs_state_scheme \<Rightarrow> 'a fs_state_scheme) \<Rightarrow> u32
    \<Rightarrow> 'a fs_state_scheme \<Rightarrow> ('a fs_state_scheme, u32) outcome" where
  "sys_close env fd s =
     (if unat fd \<ge> NR_OPEN then Done (-22) s
      else let s = keep_on_exec (unat fd) s
           in case t_filp (cur s) ! unat fd of
                None \<Rightarrow> Done (-22) s
              | Some f \<Rightarrow>
                  let s = set_filp (unat fd) None s
                  in if f_count (file_table s ! f) = 0 then panic ''Close: file count is 0'' s
                     else let s = fupd f (\<lambda>x. x\<lparr>f_count := f_count x - 1\<rparr>) s
                          in if f_count (file_table s ! f) \<noteq> 0 then Done 0 s
                             else kbind (iput env (f_inode (file_table s ! f)) s) (\<lambda>_ s. Done 0 s))"

section \<open>open\<close>

text \<open>
  \<open>give_up fd f code\<close>: the descriptor and the entry are free again. \<open>open_chr\<close> is what a
  character device does with the terminal of the task; \<open>None\<close> goes on with the opening.
\<close>

abbreviation (input) give_up :: "nat \<Rightarrow> nat \<Rightarrow> 'a fs_state_scheme \<Rightarrow> 'a fs_state_scheme" where
  "give_up fd f s \<equiv> fupd f (\<lambda>x. x\<lparr>f_count := 0\<rparr>) (set_filp fd None s)"

definition open_chr :: "('a tty_state_scheme \<Rightarrow> 'a tty_state_scheme) \<Rightarrow> nat \<Rightarrow> nat \<Rightarrow> nat
    \<Rightarrow> 'a tty_state_scheme \<Rightarrow> ('a tty_state_scheme, u32 option) outcome" where
  "open_chr env fd f inode s =
     (let z = ucast (i_zone (inode_table s ! inode) ! 0) :: u32
      in if MAJOR z = 4
         then if t_leader (cur s) \<noteq> 0 \<and> sint (t_tty (cur s)) < 0
              then let s = tupd (current s) (\<lambda>t. t\<lparr>t_tty := MINOR z\<rparr>) s; n = unat (t_tty (cur s))
                   in if n \<ge> length (tty_table s) then Halted (Undef ''tty_table[current->tty]'') s
                      else Done None (ttyupd n (\<lambda>t. t\<lparr>tt_pgrp := t_pgrp (cur s)\<rparr>) s)
              else Done None s
         else if MAJOR z = 5 \<and> sint (t_tty (cur s)) < 0
         then kbind (iput env (Some inode) s) (\<lambda>_ s. Done (Some (-1)) (give_up fd f s))
         else Done None s)"

text \<open>
  The local variable \<open>inode\<close> is only set when \<open>open_namei\<close> stores a result in it: with none
  stored the code goes on with what the stack held there. The field \<open>stale\<close> of the state is this value for
  the next calls: an entry of the inode table, or another address (\<open>None\<close>), whose use the model does not
  follow. \<open>check_disk_change\<close>, called for a block device, does nothing.
\<close>

definition sys_open :: "('a tty_state_scheme \<Rightarrow> 'a tty_state_scheme) \<Rightarrow> u32 \<Rightarrow> u32 \<Rightarrow> u32
    \<Rightarrow> 'a tty_state_scheme \<Rightarrow> ('a tty_state_scheme, u32) outcome" where
  "sys_open env filename flag mode s =
     (let inode = stale s 0;
          s = s\<lparr>stale := \<lambda>n. stale s (Suc n)\<rparr>;
          mode = mode AND (0x1ff AND NOT (ucast (t_umask (cur s))))
      in case free_fd 0 s of
        None \<Rightarrow> Done (-22) s
      | Some fd \<Rightarrow>
          let s = keep_on_exec fd s
          in case free_file s of
            None \<Rightarrow> Done (-22) s
          | Some f \<Rightarrow>
              kbind (open_namei env filename flag mode
                       (fupd f (\<lambda>x. x\<lparr>f_count := f_count x + 1\<rparr>) (set_filp fd (Some f) s))) (\<lambda>(i, res) s.
                if sint i < 0 then Done i (give_up fd f s)
                else case (case res of None \<Rightarrow> inode | Some n \<Rightarrow> Some n) of
                  None \<Rightarrow> Halted (Undef ''inode->i_mode'') s
                | Some inode \<Rightarrow>
                    kbind (if S_ISCHR (i_mode (inode_table s ! inode)) then open_chr env fd f inode s
                           else Done None s) (\<lambda>r s.
                      case r of
                        Some code \<Rightarrow> Done code s
                      | None \<Rightarrow>
                          Done (of_nat fd) (fupd f (\<lambda>x. x\<lparr>f_mode := i_mode (inode_table s ! inode),
                            f_flags := ucast flag, f_count := 1, f_inode := Some inode, f_pos := 0\<rparr>) s))))"

section \<open>read\<close>

primrec put_block :: "nat \<Rightarrow> u32 \<Rightarrow> u32 \<Rightarrow> 'a fs_state_scheme \<Rightarrow> ('a fs_state_scheme, unit) outcome" where
  "put_block 0 p buf s = Done () s"
| "put_block (Suc n) p buf s = kbind (put_fs_byte (bmem s p) buf s) (\<lambda>_ s. put_block n (p + 1) (buf + 1) s)"

primrec put_zeros :: "nat \<Rightarrow> u32 \<Rightarrow> 'a mm_state_scheme \<Rightarrow> ('a mm_state_scheme, unit) outcome" where
  "put_zeros 0 buf s = Done () s"
| "put_zeros (Suc n) buf s = kbind (put_fs_byte 0 buf s) (\<lambda>_ s. put_zeros n (buf + 1) s)"

text \<open>
  A round of \<open>file_read\<close>: \<open>position_block\<close> finds the block at the position of the file, \<open>None\<close>
  when it cannot be read, \<open>Some None\<close> when the file has no such block; \<open>copy_chunk\<close> moves the
  position on and copies the bytes from offset \<open>nr\<close> of the block.
\<close>

definition position_block :: "('a fs_state_scheme \<Rightarrow> 'a fs_state_scheme) \<Rightarrow> nat \<Rightarrow> nat
    \<Rightarrow> 'a fs_state_scheme \<Rightarrow> ('a fs_state_scheme, nat option option) outcome" where
  "position_block env inode filp s =
     kbind (bmap env inode (word_of_int (cdiv (sint (f_pos (file_table s ! filp))) 1024)) s) (\<lambda>nr s.
       if nr = 0 then Done (Some None) s
       else kbind (bread env (ucast (i_dev (inode_table s ! inode))) nr s) (\<lambda>bh s.
              case bh of None \<Rightarrow> Done None s | Some b \<Rightarrow> Done (Some (Some b)) s))"

definition copy_chunk :: "('a fs_state_scheme \<Rightarrow> 'a fs_state_scheme) \<Rightarrow> nat \<Rightarrow> nat option \<Rightarrow> u32 \<Rightarrow> u32 \<Rightarrow> u32
    \<Rightarrow> 'a fs_state_scheme \<Rightarrow> ('a fs_state_scheme, unit) outcome" where
  "copy_chunk env filp bh nr n buf s =
     (let s = fupd filp (\<lambda>x. x\<lparr>f_pos := f_pos x + n\<rparr>) s
      in case bh of
           Some b \<Rightarrow> kbind (put_block (nat (sint n)) (nr + b_data (bufs s b)) buf s) (\<lambda>_ s. brelse env (Some b) s)
         | None \<Rightarrow> put_zeros (nat (sint n)) buf s)"

text \<open>
  The loop: the number of bytes still left when it ends. A round takes at least one byte off
  \<open>left\<close>, so \<open>left\<close> rounds are enough.
\<close>

primrec file_read_loop :: "nat \<Rightarrow> ('a fs_state_scheme \<Rightarrow> 'a fs_state_scheme) \<Rightarrow> nat \<Rightarrow> nat \<Rightarrow> u32 \<Rightarrow> u32
    \<Rightarrow> 'a fs_state_scheme \<Rightarrow> ('a fs_state_scheme, u32) outcome" where
  "file_read_loop 0 env inode filp buf left s = (if left = 0 then Done left s else Blocked s)"
| "file_read_loop (Suc n) env inode filp buf left s =
     (if left = 0 then Done left s
      else kbind (position_block env inode filp s) (\<lambda>bh s.
        case bh of
          None \<Rightarrow> Done left s
        | Some bh \<Rightarrow>
            let nr = word_of_int (cmod (sint (f_pos (file_table s ! filp))) 1024);
                chars = (if sint (1024 - nr) < sint left then 1024 - nr else left)
            in kbind (copy_chunk env filp bh nr chars buf s) (\<lambda>_ s.
                 file_read_loop n env inode filp (buf + chars) (left - chars) s)))"

definition file_read :: "('a fs_state_scheme \<Rightarrow> 'a fs_state_scheme) \<Rightarrow> nat \<Rightarrow> nat \<Rightarrow> u32 \<Rightarrow> u32
    \<Rightarrow> 'a fs_state_scheme \<Rightarrow> ('a fs_state_scheme, u32) outcome" where
  "file_read env inode filp buf want s =
     (if sint want \<le> 0 then Done 0 s
      else kbind (file_read_loop (unat want) env inode filp buf want s) (\<lambda>left s.
             Done (if want - left \<noteq> 0 then want - left else -99)
               (iupd inode (\<lambda>x. x\<lparr>i_atime := CURRENT_TIME s\<rparr>) s)))"

text \<open>The count the caller gives is overwritten with the size of the file.\<close>

definition sys_read :: "('a fs_state_scheme \<Rightarrow> 'a fs_state_scheme) \<Rightarrow> u32 \<Rightarrow> u32 \<Rightarrow> u32
    \<Rightarrow> 'a fs_state_scheme \<Rightarrow> ('a fs_state_scheme, u32) outcome" where
  "sys_read env fd buf want s =
     (if unat fd \<ge> NR_OPEN \<or> sint want < 0 then Done (-22) s
      else case t_filp (cur s) ! unat fd of
        None \<Rightarrow> Done (-22) s
      | Some f \<Rightarrow>
          (case f_inode (file_table s ! f) of
             None \<Rightarrow> Halted (Undef ''inode->i_mode'') s
           | Some inode \<Rightarrow>
               let x = inode_table s ! inode
               in if S_ISDIR (i_mode x) \<or> S_ISREG (i_mode x)
                  then let want = i_size x; pos = f_pos (file_table s ! f);
                           want = (if want + pos > i_size x then i_size x - pos else want)
                       in if sint want \<le> 0 then Done 0 s else file_read env inode f buf want s
                  else Done (-22) (printk ''(Read)inode->i_mode=%x'' [ucast (i_mode x)] s)))"

section \<open>What a read copies\<close>

text \<open>The routines that write into a task's memory leave the buffers alone.\<close>

interpretation bytes_kept: mm_frame "\<lambda>s :: 'a fs_state_scheme. bmem s = m" for m
  by unfold_locales simp_all

lemma put_fs_byte_bmem: "put_fs_byte v a (s :: 'a fs_state_scheme) = Done u t \<Longrightarrow> bmem t = bmem s"
  using bytes_kept.I_put_fs_byte [of s "bmem s" v a] by simp

lemma put_block_bytes:
  "put_block n p buf (s :: 'a fs_state_scheme) = put_bytes (map (\<lambda>i. bmem s (p + of_nat i)) [0..<n]) buf s"
proof (induction n arbitrary: p buf s)
  case (Suc n)
  have shift: "map (\<lambda>i. bmem s (p + of_nat i)) [0..<Suc n] = bmem s p # map (\<lambda>i. bmem s (p + 1 + of_nat i)) [0..<n]" for p
    by (simp add: upt_conv_Cons map_Suc_upt [symmetric] ac_simps del: upt_Suc)
  have "kbind (put_fs_byte (bmem s p) buf s) (\<lambda>_ s. put_block n (p + 1) (buf + 1) s) =
      kbind (put_fs_byte (bmem s p) buf s) (\<lambda>_ t. put_bytes (map (\<lambda>i. bmem s (p + 1 + of_nat i)) [0..<n]) (buf + 1) t)"
    by (rule kbind_cong [OF refl]) (simp only: Suc.IH put_fs_byte_bmem)
  then show ?case unfolding shift by simp
qed simp

lemma put_zeros_bytes: "put_zeros n buf s = put_bytes (replicate n 0) buf s"
  by (induction n arbitrary: buf s) simp_all

text \<open>
  \<open>read_on f n s t\<close>: besides the memory of the task, only the position of the open file has moved,
  and tasks that waited for a buffer may have been woken.
\<close>

definition read_on :: "nat \<Rightarrow> nat \<Rightarrow> 'a fs_state_scheme \<Rightarrow> 'a fs_state_scheme \<Rightarrow> bool" where
  "read_on f n s t \<longleftrightarrow> (\<exists>m. only_woken (fupd f (\<lambda>x. x\<lparr>f_pos := f_pos x + of_nat n\<rparr>) (s\<lparr>pmem := m\<rparr>)) t)"

lemma only_woken_fupd:
  "only_woken s t \<Longrightarrow> only_woken (fupd f g (s\<lparr>pmem := m\<rparr>)) (fupd f g (t\<lparr>pmem := m\<rparr>))"
proof -
  assume "only_woken s t"
  then obtain tm w where t: "t = s\<lparr>tmem := tm, waitq := w\<rparr>" "\<And>p. \<exists>st. tm p = (tmem s p)\<lparr>t_state := st\<rparr>"
    unfolding only_woken_def by blast
  then show ?thesis unfolding only_woken_def by (intro exI [of _ tm] exI [of _ w]) (simp add: fupd_def)
qed

lemma read_on_trans:
  assumes "read_on f n s t" "read_on f k t u"
  shows "read_on f (n + k) s u"
proof -
  obtain m m' where t: "only_woken (fupd f (\<lambda>x. x\<lparr>f_pos := f_pos x + of_nat n\<rparr>) (s\<lparr>pmem := m\<rparr>)) t"
    and u: "only_woken (fupd f (\<lambda>x. x\<lparr>f_pos := f_pos x + of_nat k\<rparr>) (t\<lparr>pmem := m'\<rparr>)) u"
    using assms by (auto simp: read_on_def)
  have "fupd f (\<lambda>x. x\<lparr>f_pos := f_pos x + of_nat k\<rparr>) ((fupd f (\<lambda>x. x\<lparr>f_pos := f_pos x + of_nat n\<rparr>) (s\<lparr>pmem := m\<rparr>))\<lparr>pmem := m'\<rparr>) =
      fupd f (\<lambda>x. x\<lparr>f_pos := f_pos x + of_nat (n + k)\<rparr>) (s\<lparr>pmem := m'\<rparr>)"
    by (cases "f < length (file_table s)") (simp_all add: fupd_def list_update_beyond not_less ac_simps)
  with only_woken_trans [OF only_woken_fupd [OF t] u] show ?thesis by (auto simp: read_on_def)
qed

lemma read_onD:
  assumes "read_on f n s t"
  shows "same_tables s t" "length (file_table t) = length (file_table s)" "t_ldt (cur t) = t_ldt (cur s)"
    "f < length (file_table s) \<Longrightarrow> file_table t ! f = (file_table s ! f)\<lparr>f_pos := f_pos (file_table s ! f) + of_nat n\<rparr>"
    "g \<noteq> f \<Longrightarrow> file_table t ! g = file_table s ! g" "t_filp (cur t) = t_filp (cur s)" "CURRENT_TIME t = CURRENT_TIME s"
proof -
  obtain m where m: "only_woken (fupd f (\<lambda>x. x\<lparr>f_pos := f_pos x + of_nat n\<rparr>) (s\<lparr>pmem := m\<rparr>)) t"
    using assms by (auto simp: read_on_def)
  note d = only_wokenD [OF m]
  show "same_tables s t" using d by (simp add: same_tables_def fupd_def)
  show "length (file_table t) = length (file_table s)" "t_ldt (cur t) = t_ldt (cur s)" "g \<noteq> f \<Longrightarrow> file_table t ! g = file_table s ! g"
    "t_filp (cur t) = t_filp (cur s)" "CURRENT_TIME t = CURRENT_TIME s"
    using d by (simp_all add: fupd_def CURRENT_TIME_def)
  show "f < length (file_table s) \<Longrightarrow> file_table t ! f = (file_table s ! f)\<lparr>f_pos := f_pos (file_table s ! f) + of_nat n\<rparr>"
    using d by (simp add: fupd_def)
qed

text \<open>The position and the bytes left as the words of the code.\<close>

lemma read_words:
  assumes "pos + l < 2 ^ 31"
  shows "word_of_int (cdiv (sint (of_nat pos :: u32)) 1024) = (of_nat (pos div 1024) :: u32)"
    "word_of_int (cmod (sint (of_nat pos :: u32)) 1024) = (of_nat (pos mod 1024) :: u32)"
    "(if sint (1024 - of_nat (pos mod 1024) :: u32) < sint (of_nat l :: u32) then 1024 - of_nat (pos mod 1024) else of_nat l) =
       (of_nat (min (1024 - pos mod 1024) l) :: u32)"
    "nat (sint (of_nat (min (1024 - pos mod 1024) l) :: u32)) = min (1024 - pos mod 1024) l"
proof -
  have si: "sint (of_nat k :: u32) = int k" if "k \<le> pos + l" for k
    using sint_of_int [of "int k"] that assms by simp
  have w: "word_of_int (int k) = (of_nat k :: u32)" for k by simp
  have "cdiv (int pos) 1024 = int (pos div 1024)" "cmod (int pos) 1024 = int (pos mod 1024)"
    by (simp_all add: cdiv_nonneg cmod_nonneg zdiv_int zmod_int)
  then show "word_of_int (cdiv (sint (of_nat pos :: u32)) 1024) = (of_nat (pos div 1024) :: u32)"
    "word_of_int (cmod (sint (of_nat pos :: u32)) 1024) = (of_nat (pos mod 1024) :: u32)"
    unfolding si [of pos, simplified] by (simp_all only: w)
  have "pos mod 1024 < 1024" by simp
  then have d: "1024 - of_nat (pos mod 1024) = (of_nat (1024 - pos mod 1024) :: u32)" by (simp add: of_nat_diff)
  have s: "sint (of_nat (1024 - pos mod 1024) :: u32) = int (1024 - pos mod 1024)"
    using sint_of_int [of "int (1024 - pos mod 1024)"] by simp
  have m: "(if int a < int l then of_nat a else of_nat l) = (of_nat (min a l) :: u32)" for a by (auto simp: min_def)
  show "(if sint (1024 - of_nat (pos mod 1024) :: u32) < sint (of_nat l :: u32) then 1024 - of_nat (pos mod 1024) else of_nat l) =
       (of_nat (min (1024 - pos mod 1024) l) :: u32)"
    unfolding d s si [of l, simplified] by (rule m)
  show "nat (sint (of_nat (min (1024 - pos mod 1024) l) :: u32)) = min (1024 - pos mod 1024) l"
    using si [of "min (1024 - pos mod 1024) l"] by simp
qed

section \<open>A round of the loop\<close>

lemma chunk_bytes:
  assumes "c \<le> 1024 - pos mod 1024"
  shows "map (file_byte at bf s x) [pos..<pos + c] =
    (if zone_of at s x (pos div 1024) = 0 then replicate c 0
     else map (\<lambda>i. bmem s (of_nat (pos mod 1024) + b_data (bufs s (bf (pos div 1024))) + of_nat i)) [0..<c])"
proof -
  have "(pos + i) div 1024 = pos div 1024 \<and> (pos + i) mod 1024 = pos mod 1024 + i" if "i < c" for i
  proof -
    have q: "(1024 * q + j) div 1024 = q \<and> (1024 * q + j) mod 1024 = j" if "j < 1024" for q j :: nat
      using that by simp
    have "pos mod 1024 + i < 1024" using that assms by linarith
    from q [OF this, of "pos div 1024"] have "(1024 * (pos div 1024) + pos mod 1024 + i) div 1024 = pos div 1024 \<and>
        (1024 * (pos div 1024) + pos mod 1024 + i) mod 1024 = pos mod 1024 + i" by (simp only: add.assoc)
    then show ?thesis by (simp only: mult_div_mod_eq)
  qed
  then show ?thesis by (intro nth_equalityI) (simp_all add: file_byte_def ac_simps)
qed

abbreviation (input) advanced :: "nat \<Rightarrow> nat \<Rightarrow> 'a fs_state_scheme \<Rightarrow> 'a fs_state_scheme" where
  "advanced f c \<equiv> fupd f (\<lambda>x. x\<lparr>f_pos := f_pos x + of_nat c\<rparr>)"

lemma put_bytes_seen:
  assumes "span a n s" "k + length vs \<le> n" "same_view s v"
  shows "\<exists>m. put_bytes vs (a + of_nat k) v = Done () (v\<lparr>pmem := m\<rparr>) \<and> (\<forall>u. same_view (v\<lparr>pmem := m\<rparr>) u \<longrightarrow> wrote a n k vs s u)"
  using put_bytes_wrote [of a n v k vs] assms wrote_view [OF _ same_view_sym [OF assms(3)]]
  by (auto simp: same_view_walk [OF assms(3)])

lemma advanced_view: "only_woken s t \<Longrightarrow> same_view s (advanced f c t)"
  using only_woken_view [of s t] by (simp add: same_view_def fupd_def)

lemma advanced_wf: "cache_wf t \<Longrightarrow> cache_wf ((advanced f c t)\<lparr>pmem := m\<rparr>)"
  by (rule cache_wf_same) (simp_all add: fupd_def)

lemma advanced_read_on:
  assumes "only_woken s t" "only_woken ((advanced f c t)\<lparr>pmem := m\<rparr>) u"
  shows "read_on f c s u"
proof -
  have "(advanced f c t)\<lparr>pmem := m\<rparr> = advanced f c (t\<lparr>pmem := m\<rparr>)" by (simp add: fupd_def)
  with assms(2) have "only_woken (advanced f c (s\<lparr>pmem := m\<rparr>)) u"
    using only_woken_trans [OF only_woken_fupd [OF assms(1)]] by (simp only:)
  then show ?thesis by (auto simp: read_on_def)
qed

text \<open>One piece of the file is copied to the task: from a hole, which reads as zeros, or from a block.\<close>

lemma copy_hole:
  assumes "only_woken s t" "cache_wf t" "span a n s" "k + c \<le> n" "nat (sint (of_nat c :: u32)) = c"
  shows "\<exists>v. copy_chunk env f None q (of_nat c) (a + of_nat k) t = Done () v \<and> cache_wf v \<and>
    read_on f c s v \<and> wrote a n k (replicate c 0) s v"
proof -
  obtain m where m: "put_bytes (replicate c 0) (a + of_nat k) (advanced f c t) = Done () ((advanced f c t)\<lparr>pmem := m\<rparr>)"
    "wrote a n k (replicate c 0) s ((advanced f c t)\<lparr>pmem := m\<rparr>)"
    using put_bytes_seen [OF assms(3) _ advanced_view [OF assms(1)], of k "replicate c 0"] assms(4) by (force simp: same_view_def)
  have "copy_chunk env f None q (of_nat c) (a + of_nat k) t = Done () ((advanced f c t)\<lparr>pmem := m\<rparr>)"
    by (simp only: copy_chunk_def Let_def option.case assms(5) put_zeros_bytes m(1))
  with m(2) advanced_wf [OF assms(2)] advanced_read_on [OF assms(1) only_woken_refl] show ?thesis by blast
qed

lemma copy_block:
  fixes d :: u16
  assumes "only_woken s t" "cache_wf t" "span a n s" "k + c \<le> n" "nat (sint (of_nat c :: u32)) = c"
    and "in_cache (ucast d) z b t" "d \<noteq> 0" and vs: "vs = map (\<lambda>i. bmem s (q + b_data (bufs s b) + of_nat i)) [0..<c]"
  shows "\<exists>v. copy_chunk env f (Some b) q (of_nat c) (a + of_nat k) (hold b t) = Done () v \<and> cache_wf v \<and>
    read_on f c s v \<and> wrote a n k vs s v"
proof -
  note d = only_wokenD [OF assms(1)]
  have "same_view s (advanced f c (hold b t))" using advanced_view [OF assms(1)] by (simp add: same_view_def fupd_def bupd_def)
  from put_bytes_seen [OF assms(3) _ this, of k vs] assms(4) obtain m
    where m: "put_bytes vs (a + of_nat k) (advanced f c (hold b t)) = Done () ((advanced f c (hold b t))\<lparr>pmem := m\<rparr>)"
      "\<And>u. same_view ((advanced f c (hold b t))\<lparr>pmem := m\<rparr>) u \<Longrightarrow> wrote a n k vs s u" by (auto simp: vs)
  let ?u = "(advanced f c t)\<lparr>pmem := m\<rparr>"
  let ?v = "wake_up (Some Buffer_wait) ?u"
  have hu: "(advanced f c (hold b t))\<lparr>pmem := m\<rparr> = hold b ?u" by (simp add: fupd_def bupd_def)
  have dt: "b_data (bufs (advanced f c (hold b t)) b) = b_data (bufs s b)" "bmem (advanced f c (hold b t)) = bmem s"
    using d by (simp_all add: fupd_def bupd_def)
  have put: "put_block c (q + b_data (bufs (advanced f c (hold b t)) b)) (a + of_nat k) (advanced f c (hold b t)) = Done () (hold b ?u)"
    using m(1) unfolding put_block_bytes dt hu vs .
  have rel: "brelse env (Some b) (hold b ?u) = Done () ?v"
    by (rule hold_block(2) [OF advanced_wf [OF assms(2)], of "ucast d" z]) (use assms(6,7) in \<open>simp_all add: in_cache_def fupd_def\<close>)
  have wk: "only_woken ?u ?v" by (rule only_woken_wake_up)
  have "copy_chunk env f (Some b) q (of_nat c) (a + of_nat k) (hold b t) = Done () ?v"
    by (simp only: copy_chunk_def Let_def option.case assms(5) put kbind.simps rel)
  moreover have "wrote a n k vs s ?v"
  proof (rule m(2) [unfolded hu])
    have "same_view (hold b ?u) ?u" by (simp add: same_view_def bupd_def)
    then show "same_view (hold b ?u) ?v" by (rule same_view_trans [OF _ only_woken_view [OF wk]])
  qed
  moreover have "cache_wf ?v" by (rule cache_wf_same_tables [OF advanced_wf [OF assms(2)] only_woken_same_tables [OF wk]])
  ultimately show ?thesis using advanced_read_on [OF assms(1) wk] by blast
qed

lemma file_read_round:
  fixes at :: "u16 \<Rightarrow> nat" and bf :: "nat \<Rightarrow> nat"
  assumes wf: "cache_wf s" and x: "x = inode_table s ! i" "i_dev x \<noteq> 0" and f: "f < length (file_table s)"
    and p: "f_pos (file_table s ! f) = of_nat pos" "pos + l < 2 ^ 31" "0 < l" and b: "at_hand_block at bf s x (pos div 1024)"
    and c: "c = min (1024 - pos mod 1024) l" and sp: "span a n s" "k + c \<le> n"
  shows "\<exists>t. file_read_loop (Suc r) env i f (a + of_nat k) (of_nat l) s =
      file_read_loop r env i f (a + of_nat (k + c)) (of_nat (l - c)) t \<and> cache_wf t \<and>
    read_on f c s t \<and> wrote a n k (map (file_byte at bf s x) [pos..<pos + c]) s t"
proof -
  let ?z = "zone_of at s x (pos div 1024)" and ?b = "bf (pos div 1024)"
  let ?vs = "map (file_byte at bf s x) [pos..<pos + c]"
  note w = read_words [OF p(2), folded c]
  obtain t where t: "bmap env i (of_nat (pos div 1024)) s = Done (ucast ?z) t" "only_woken s t" "cache_wf t"
    and rd: "?z \<noteq> 0 \<Longrightarrow> bread env (ucast (i_dev x)) (ucast ?z) t = Done (Some ?b) (hold ?b t)"
      "?z \<noteq> 0 \<Longrightarrow> in_cache (ucast (i_dev x)) (ucast ?z) ?b t"
    using read_file_block [OF wf x b, of env] by blast
  note d = only_wokenD [OF t(2)]
  have "(of_nat l :: u32) \<noteq> 0" using p(2,3) unat_of_nat_u32 [of l] by auto
  moreover have "of_nat l - of_nat c = (of_nat (l - c) :: u32)" using c by (simp add: of_nat_diff)
  moreover have "a + of_nat k + of_nat c = a + of_nat (k + c)" by simp
  ultimately have run: "file_read_loop (Suc r) env i f (a + of_nat k) (of_nat l) s =
      file_read_loop r env i f (a + of_nat (k + c)) (of_nat (l - c)) v"
    if "position_block env i f s = Done (Some bh) u" "file_table u = file_table s"
      "copy_chunk env f bh (of_nat (pos mod 1024)) (of_nat c) (a + of_nat k) u = Done () v" for bh u v
    by (simp only: file_read_loop.simps that p(1) w kbind.simps if_False Let_def option.case)
  show ?thesis
  proof (cases "?z = 0")
    case True
    then have "?vs = replicate c 0" using chunk_bytes [of c pos at bf s x] c by simp
    moreover have "position_block env i f s = Done (Some None) t"
      by (simp only: position_block_def p(1) w t(1) True kbind.simps unsigned_0 refl if_True)
    moreover note copy_hole [OF t(2,3) sp w(4), of env f "of_nat (pos mod 1024)"]
    ultimately show ?thesis using run d by metis
  next
    case False
    have "?vs = map (\<lambda>i. bmem s (of_nat (pos mod 1024) + b_data (bufs s ?b) + of_nat i)) [0..<c]"
      using chunk_bytes [of c pos at bf s x] c False by simp
    from copy_block [OF t(2,3) sp w(4) rd(2) [OF False] x(2) this, of env f] obtain v
      where v: "copy_chunk env f (Some ?b) (of_nat (pos mod 1024)) (of_nat c) (a + of_nat k) (hold ?b t) = Done () v"
        "cache_wf v" "read_on f c s v" "wrote a n k ?vs s v" by blast
    have nz: "(ucast ?z :: u32) \<noteq> 0" using False by simp
    have it: "inode_table t ! i = x" using d x(1) by simp
    have "position_block env i f s = Done (Some (Some ?b)) (hold ?b t)"
      using nz by (simp only: position_block_def p(1) w t(1) it rd(1) [OF False] kbind.simps if_False option.case)
    from run [OF this _ v(1)] v(2-4) d show ?thesis by (auto simp: bupd_def)
  qed
qed

lemma read_on_0 [simp]: "read_on f 0 s s"
proof -
  have "fupd f (\<lambda>x. x\<lparr>f_pos := f_pos x + of_nat 0\<rparr>) (s\<lparr>pmem := pmem s\<rparr>) = s" by (simp add: fupd_def)
  then show ?thesis unfolding read_on_def by (intro exI [of _ "pmem s"]) (simp only: only_woken_refl)
qed

lemma file_read_loop_copies:
  fixes at :: "u16 \<Rightarrow> nat" and bf :: "nat \<Rightarrow> nat"
  shows "cache_wf s \<Longrightarrow> x = inode_table s ! i \<Longrightarrow> i_dev x \<noteq> 0 \<Longrightarrow> f < length (file_table s) \<Longrightarrow>
    f_pos (file_table s ! f) = of_nat pos \<Longrightarrow> pos + l < 2 ^ 31 \<Longrightarrow>
    \<forall>j. pos div 1024 \<le> j \<and> 1024 * j < pos + l \<longrightarrow> at_hand_block at bf s x j \<Longrightarrow>
    span a n s \<Longrightarrow> k + l \<le> n \<Longrightarrow> l \<le> r \<Longrightarrow>
    \<exists>t. file_read_loop r env i f (a + of_nat k) (of_nat l) s = Done 0 t \<and> read_on f l s t \<and>
      wrote a n k (map (file_byte at bf s x) [pos..<pos + l]) s t"
proof (induction l arbitrary: s k pos r rule: less_induct)
  case (less l)
  note wf = less.prems(1) and x = less.prems(2,3) and fl = less.prems(4) and fp = less.prems(5) and lim = less.prems(6)
    and here = less.prems(7) and sp = less.prems(8) and kl = less.prems(9) and lr = less.prems(10)
  show ?case
  proof (cases "l = 0")
    case True
    have "file_read_loop r env i f b 0 s = Done 0 s" for b by (cases r) simp_all
    then show ?thesis unfolding True using sp by (intro exI [of _ s]) (simp add: wrote_nothing)
  next
    case False
    with lr obtain r' where r: "r = Suc r'" "l \<le> Suc r'" by (cases r) auto
    define c where "c = min (1024 - pos mod 1024) l"
    have c: "0 < c" "c \<le> l" using False by (simp_all add: c_def)
    have "1024 * (pos div 1024) \<le> pos" by simp
    then have "1024 * (pos div 1024) < pos + l" using False by linarith
    then have b: "at_hand_block at bf s x (pos div 1024)" using here by simp
    have "k + c \<le> n" "0 < l" using kl c False by simp_all
    from file_read_round [OF wf x fl fp lim this(2) b c_def sp this(1), of r' env] obtain t
      where t: "file_read_loop r env i f (a + of_nat k) (of_nat l) s =
          file_read_loop r' env i f (a + of_nat (k + c)) (of_nat (l - c)) t"
        "cache_wf t" "read_on f c s t" "wrote a n k (map (file_byte at bf s x) [pos..<pos + c]) s t"
      unfolding r(1) by blast
    note d = read_onD [OF t(3)] and cong = tables_cong [OF read_onD(1) [OF t(3)]]
    have "\<forall>j. (pos + c) div 1024 \<le> j \<and> 1024 * j < (pos + c) + (l - c) \<longrightarrow> at_hand_block at bf t x j"
      unfolding cong using here c(2) div_le_mono [of pos "pos + c" 1024] by simp
    moreover have "x = inode_table t ! i" "f < length (file_table t)" using x(1) fl d by (simp_all add: same_tables_def)
    moreover have "f_pos (file_table t ! f) = of_nat (pos + c)" using d(4) [OF fl] fp by simp
    moreover have "span a n t" using t(4) by (simp add: wrote_def)
    ultimately have "\<exists>u. file_read_loop r' env i f (a + of_nat (k + c)) (of_nat (l - c)) t = Done 0 u \<and> read_on f (l - c) t u \<and>
        wrote a n (k + c) (map (file_byte at bf t x) [pos + c..<pos + c + (l - c)]) t u"
      by (intro less.IH) (use c t(2) x(2) lim kl r(2) in simp_all)
    then obtain u where u: "file_read_loop r' env i f (a + of_nat (k + c)) (of_nat (l - c)) t = Done 0 u" "read_on f (l - c) t u"
      "wrote a n (k + c) (map (file_byte at bf s x) [pos + c..<pos + l]) t u"
      unfolding cong using c by auto
    have "wrote a n k (map (file_byte at bf s x) [pos..<pos + c] @ map (file_byte at bf s x) [pos + c..<pos + l]) s u"
      by (rule wrote_append [OF sp t(4)]) (use u(3) c kl in simp_all)
    moreover have "[pos..<pos + c] @ [pos + c..<pos + l] = [pos..<pos + l]"
      using upt_add_eq_append [of pos "pos + c" "l - c"] c by simp
    ultimately have "wrote a n k (map (file_byte at bf s x) [pos..<pos + l]) s u" by (metis map_append)
    moreover have "read_on f l s u" using read_on_trans [OF t(3) u(2)] c by simp
    ultimately show ?thesis using t(1) u(1) by auto
  qed
qed

lemma file_read_copies:
  fixes at :: "u16 \<Rightarrow> nat" and bf :: "nat \<Rightarrow> nat"
  assumes "cache_wf s" "x = inode_table s ! i" "i_dev x \<noteq> 0" "f < length (file_table s)"
    and "f_pos (file_table s ! f) = of_nat pos" "pos + n < 2 ^ 31" "0 < n"
    and "\<forall>j. pos div 1024 \<le> j \<and> 1024 * j < pos + n \<longrightarrow> at_hand_block at bf s x j" "span buf n s"
  shows "\<exists>t. file_read env i f buf (of_nat n) s = Done (of_nat n) t \<and>
    user_bytes buf n t = map (file_byte at bf s x) [pos..<pos + n] \<and>
    (\<forall>b. b \<notin> frame_bytes buf n s \<longrightarrow> byte_at (pmem t) b = byte_at (pmem s) b) \<and>
    file_table t = (file_table s)[f := (file_table s ! f)\<lparr>f_pos := of_nat (pos + n)\<rparr>] \<and>
    inode_table t = (inode_table s)[i := x\<lparr>i_atime := CURRENT_TIME s\<rparr>] \<and> bufs t = bufs s \<and> bmem t = bmem s \<and>
    t_filp (cur t) = t_filp (cur s)"
proof -
  have u: "unat (of_nat n :: u32) = n" "sint (of_nat n :: u32) = int n"
    using assms(6) sint_of_int [of "int n"] by (simp_all add: unat_of_nat_u32)
  then have nz: "(of_nat n :: u32) \<noteq> 0" "\<not> sint (of_nat n :: u32) \<le> 0" using assms(7) by auto
  obtain t where t: "file_read_loop n env i f buf (of_nat n) s = Done 0 t" "read_on f n s t"
    "wrote buf n 0 (map (file_byte at bf s x) [pos..<pos + n]) s t"
    using file_read_loop_copies [OF assms(1-6,8,9), of 0 n env] by auto
  let ?t = "iupd i (\<lambda>x. x\<lparr>i_atime := CURRENT_TIME t\<rparr>) t"
  have run: "file_read env i f buf (of_nat n) s = Done (of_nat n) ?t"
    unfolding file_read_def u(1) t(1) using nz by simp
  note d = read_onD [OF t(2)]
  have tb: "bufs t = bufs s" "bmem t = bmem s" "inode_table t = inode_table s" using d(1) by (simp_all add: same_tables_def)
  have ft: "file_table t = (file_table s)[f := (file_table s ! f)\<lparr>f_pos := of_nat (pos + n)\<rparr>]"
  proof (rule nth_equalityI)
    fix g assume "g < length (file_table t)"
    then show "file_table t ! g = (file_table s)[f := (file_table s ! f)\<lparr>f_pos := of_nat (pos + n)\<rparr>] ! g"
      using d(2,4) d(5) [of g] assms(4,5) by (cases "g = f") simp_all
  qed (use d(2) in simp)
  have vw: "same_view t ?t" by (simp add: same_view_def iupd_def)
  have "user_bytes buf n t = map (file_byte at bf s x) [pos..<pos + n]"
    using wrote_all(1) [of buf "map (file_byte at bf s x) [pos..<pos + n]" s t] t(3) by simp
  then have ub: "user_bytes buf n ?t = map (file_byte at bf s x) [pos..<pos + n]" unfolding same_view_walk(7) [OF vw] .
  have "byte_at (pmem ?t) b = byte_at (pmem s) b" if "b \<notin> frame_bytes buf n s" for b
    using wrote_all(2) [of buf "map (file_byte at bf s x) [pos..<pos + n]" s t b] t(3) that by (simp add: iupd_def)
  then show ?thesis using run ub ft tb assms(2) d(6,7)

    by (intro exI [of _ ?t]) (simp add: iupd_def)
qed

section \<open>Descriptors and counts\<close>

lemma descriptors_wf_set:
  assumes wf: "descriptors_wf s" and d: "d < NR_OPEN" and same: "task t = task s" "current t = current s"
    "\<And>q. q \<noteq> current s \<Longrightarrow> tmem t q = tmem s q" "length (file_table t) = length (file_table s)"
    and y: "t_filp (cur t) = (t_filp (cur s))[d := y]" "\<And>f. y = Some f \<Longrightarrow> f < NR_FILE"
    and c: "\<And>f. f < NR_FILE \<Longrightarrow> f_count (file_table t ! f) + of_bool (t_filp (cur s) ! d = Some f) =
      f_count (file_table s ! f) + of_bool (y = Some f)"
  shows "descriptors_wf t"
proof -
  let ?c = "current s"
  have w: "?c \<in> set (task s)" "?c \<noteq> 0" "distinct (filter (\<lambda>p. p \<noteq> 0) (task s))" "length (file_table s) = NR_FILE"
    "length (t_filp (cur s)) = NR_OPEN" using wf by (auto simp: descriptors_wf_def)
  have tm: "tmem t = (tmem s)(?c := tmem t ?c)" using same(3) by (auto simp: fun_eq_iff)
  have h: "holders f (tmem t) (task s) + of_bool (t_filp (cur s) ! d = Some f) = holders f (tmem s) (task s) + of_bool (y = Some f)" for f
  proof -
    have "holders f (tmem t) (task s) + count_list (t_filp (cur s)) (Some f) =
        holders f (tmem s) (task s) + count_list ((t_filp (cur s))[d := y]) (Some f)"
      using holders_task [OF w(1-3), of f "tmem s" "tmem t ?c"] tm y(1) same(2) by simp
    moreover have "count_list ((t_filp (cur s))[d := y]) (Some f) + of_bool (t_filp (cur s) ! d = Some f) =
        count_list (t_filp (cur s)) (Some f) + of_bool (y = Some f)"
      using count_list_update [of d "t_filp (cur s)" y "Some f"] w(5) d by (simp add: of_bool_def)
    ultimately show ?thesis by linarith
  qed
  have "f_count (file_table t ! f) = of_nat (holders f (tmem t) (task s))" if "f < NR_FILE" for f
  proof -
    have "f_count (file_table t ! f) + of_bool (t_filp (cur s) ! d = Some f) =
        of_nat (holders f (tmem s) (task s)) + of_bool (y = Some f)"
      using c [OF that] wf that by (simp add: descriptors_wf_def files_counted_def)
    also have "\<dots> = of_nat (holders f (tmem t) (task s)) + of_bool (t_filp (cur s) ! d = Some f)"
      using arg_cong [OF h [of f], of "of_nat :: nat \<Rightarrow> u16"] by simp
    finally show ?thesis by simp
  qed
  then have "files_counted t" using w(4) same by (simp add: files_counted_def)
  moreover have "length (t_filp (tmem t p)) = NR_OPEN \<and> (\<forall>f. Some f \<in> set (t_filp (tmem t p)) \<longrightarrow> f < NR_FILE)"
    if "p \<in> set (task s)" "p \<noteq> 0" for p
  proof (cases "p = ?c")
    case True
    then have "t_filp (tmem t p) = (t_filp (cur s))[d := y]" using y(1) same(2) by simp
    moreover have "\<forall>f. Some f \<in> set (t_filp (cur s)) \<longrightarrow> f < NR_FILE" using wf by (auto simp: descriptors_wf_def)
    ultimately show ?thesis using w(5) y(2) set_update_subset_insert [of "t_filp (cur s)" d y] by auto
  next
    case False
    with same(3) wf that show ?thesis by (simp add: descriptors_wf_def)
  qed
  ultimately show ?thesis using wf same unfolding descriptors_wf_def by simp
qed

text \<open>A descriptor in use: its entry counts at least one, and never as many as the counter can hold.\<close>

lemma descriptors_wf_entry:
  assumes "descriptors_wf s" "fd < NR_OPEN" "t_filp (cur s) ! fd = Some f"
  shows "f < NR_FILE" "f_count (file_table s ! f) \<noteq> 0" "f_count (file_table s ! f) \<noteq> -1"
proof -
  have w: "current s \<in> set (task s)" "current s \<noteq> 0" "length (t_filp (cur s)) = NR_OPEN" "length (task s) = 64"
    "length (file_table s) = NR_FILE" "\<forall>p \<in> set (task s). p \<noteq> 0 \<longrightarrow> length (t_filp (tmem s p)) \<le> NR_OPEN"
    using assms(1) by (auto simp: descriptors_wf_def)
  have m: "Some f \<in> set (t_filp (cur s))" using assms(2,3) w(3) by (metis nth_mem)
  then show "f < NR_FILE" using assms(1) w(1,2) unfolding descriptors_wf_def by blast
  then have c: "f_count (file_table s ! f) = of_nat (holders f (tmem s) (task s))"
    using assms(1) w(5) by (simp add: descriptors_wf_def files_counted_def)
  have b: "0 < holders f (tmem s) (task s)" "holders f (tmem s) (task s) \<le> 1280"
    using holders_pos [where p = "current s" and tm = "tmem s", OF w(1,2) m] holders_bound [OF w(6), of f] w(4) by simp_all
  then have "unat (f_count (file_table s ! f)) = holders f (tmem s) (task s)"
    unfolding c by (simp add: unat_of_nat)
  with b show "f_count (file_table s ! f) \<noteq> 0" "f_count (file_table s ! f) \<noteq> -1"
    by (auto simp: unsigned_minus_1_eq_mask mask_eq_exp_minus_1)
qed

lemma free_fd_Some:
  "free_fd a s = Some d \<longleftrightarrow> a \<le> d \<and> d < NR_OPEN \<and> t_filp (cur s) ! d = None \<and> (\<forall>j. a \<le> j \<and> j < d \<longrightarrow> t_filp (cur s) ! j \<noteq> None)"
proof
  assume "free_fd a s = Some d"
  then obtain i where i: "i < NR_OPEN - a" "t_filp (cur s) ! ([a..<NR_OPEN] ! i) = None" "d = [a..<NR_OPEN] ! i"
    "\<forall>j < i. t_filp (cur s) ! ([a..<NR_OPEN] ! j) \<noteq> None"
    unfolding free_fd_def find_Some_iff by auto
  have d: "d = a + i" using i(1,3) by simp
  have "t_filp (cur s) ! j \<noteq> None" if "a \<le> j" "j < d" for j
  proof -
    have "j - a < i" "a + (j - a) = j" using that d by linarith+
    with i(1,4) show ?thesis by (metis less_diff_conv2 nth_upt add.commute less_trans less_diff_conv)
  qed
  with i d show "a \<le> d \<and> d < NR_OPEN \<and> t_filp (cur s) ! d = None \<and> (\<forall>j. a \<le> j \<and> j < d \<longrightarrow> t_filp (cur s) ! j \<noteq> None)"
    by simp
next
  assume d: "a \<le> d \<and> d < NR_OPEN \<and> t_filp (cur s) ! d = None \<and> (\<forall>j. a \<le> j \<and> j < d \<longrightarrow> t_filp (cur s) ! j \<noteq> None)"
  have "t_filp (cur s) ! ([a..<NR_OPEN] ! j) \<noteq> None" if "j < d - a" for j
  proof -
    have "a + j < NR_OPEN" "a + j < d" using that d by linarith+
    then have "[a..<NR_OPEN] ! j = a + j" "a \<le> a + j" "a + j < d" by (simp_all only: nth_upt le_add1)
    with d show ?thesis by metis
  qed
  moreover have "d - a < NR_OPEN - a" "a + (d - a) = d" using d by linarith+
  ultimately show "free_fd a s = Some d" unfolding free_fd_def find_Some_iff using d
    by (intro exI [of _ "d - a"]) simp
qed

section \<open>Properties\<close>

text \<open>C8: reading an open regular file or directory copies its bytes from the position of the file to its
  end into the memory of the task, whatever count the caller asks for: the bytes of its blocks in the cache, zeros
  for the blocks it has not. No other byte of memory changes, the position is the end, so the next read returns 0.\<close>

theorem sys_read_returns_rest:
  fixes at :: "u16 \<Rightarrow> nat" and bf :: "nat \<Rightarrow> nat"
  assumes "cache_wf s" "unat fd < NR_OPEN" "0 \<le> sint want" "t_filp (cur s) ! unat fd = Some f" "f < length (file_table s)"
    and "f_inode (file_table s ! f) = Some i" "x = inode_table s ! i" "i_dev x \<noteq> 0" "S_ISREG (i_mode x) \<or> S_ISDIR (i_mode x)"
    and "i_size x = of_nat n" "f_pos (file_table s ! f) = of_nat pos" "pos < n" "n < 2 ^ 31"
    and "\<forall>j. pos div 1024 \<le> j \<and> 1024 * j < n \<longrightarrow> at_hand_block at bf s x j" "span buf (n - pos) s"
  shows "\<exists>t. sys_read env fd buf want s = Done (of_nat (n - pos)) t \<and>
    user_bytes buf (n - pos) t = drop pos (map (file_byte at bf s x) [0..<n]) \<and>
    (\<forall>b. b \<notin> frame_bytes buf (n - pos) s \<longrightarrow> byte_at (pmem t) b = byte_at (pmem s) b) \<and>
    bufs t = bufs s \<and> bmem t = bmem s \<and> inode_table t = (inode_table s)[i := x\<lparr>i_atime := CURRENT_TIME s\<rparr>] \<and>
    f_pos (file_table t ! f) = of_nat n \<and> sys_read env fd buf want t = Done 0 t"
proof -
  let ?k = "n - pos"
  have u: "unat (of_nat n :: u32) = n" "unat (of_nat pos :: u32) = pos" using assms(12,13) by (simp_all add: unat_of_nat_u32)
  have sn: "sint (of_nat n :: u32) = int n" using assms(13) sint_of_int [of "int n"] by simp
  have over: "(of_nat n + of_nat pos > (of_nat n :: u32)) \<longleftrightarrow> 0 < pos"
  proof -
    have "unat (of_nat n + of_nat pos :: u32) = n + pos"
      using unat_of_nat_u32 [of "n + pos"] assms(12,13) by simp
    then show ?thesis by (simp add: word_less_nat_alt u)
  qed
  have want: "(if of_nat n + of_nat pos > (of_nat n :: u32) then of_nat n - of_nat pos else of_nat n) = (of_nat ?k :: u32)"
    using assms(12) by (auto simp: over of_nat_diff)
  have sk: "\<not> sint (of_nat ?k :: u32) \<le> 0" using assms(12,13) sint_of_int [of "int ?k"] by simp
  have lim: "pos + ?k = n" using assms(12) by simp
  have here: "\<forall>j. pos div 1024 \<le> j \<and> 1024 * j < pos + ?k \<longrightarrow> at_hand_block at bf s x j" using assms(14) lim by simp
  obtain t where t: "file_read env i f buf (of_nat ?k) s = Done (of_nat ?k) t"
    "user_bytes buf ?k t = map (file_byte at bf s x) [pos..<pos + ?k]"
    "\<forall>b. b \<notin> frame_bytes buf ?k s \<longrightarrow> byte_at (pmem t) b = byte_at (pmem s) b"
    "file_table t = (file_table s)[f := (file_table s ! f)\<lparr>f_pos := of_nat n\<rparr>]"
    "inode_table t = (inode_table s)[i := x\<lparr>i_atime := CURRENT_TIME s\<rparr>]" "bufs t = bufs s" "bmem t = bmem s"
    "t_filp (cur t) = t_filp (cur s)"
    using file_read_copies [OF assms(1,7,8,5,11) _ _ here assms(15), of env] assms(12,13) lim by auto
  have run: "sys_read env fd buf want' v = (let want = i_size y; pos = f_pos (file_table v ! f);
        want = (if want + pos > i_size y then i_size y - pos else want)
      in if sint want \<le> 0 then Done 0 v else file_read env i f buf want v)"
    if "0 \<le> sint want'" "t_filp (cur v) ! unat fd = Some f" "f_inode (file_table v ! f) = Some i" "y = inode_table v ! i"
      "S_ISREG (i_mode y) \<or> S_ISDIR (i_mode y)" for want' v y
    using that assms(2) by (auto simp: sys_read_def Let_def)
  have "sys_read env fd buf want s = Done (of_nat ?k) t"
    unfolding run [OF assms(3,4,6,7,9)] Let_def assms(10,11) want using sk t(1) by simp
  moreover have "sys_read env fd buf want t = Done 0 t"
  proof -
    let ?y = "inode_table t ! i"
    have y: "i_size ?y = of_nat n" "i_mode ?y = i_mode x"
      unfolding t(5) using assms(7,10) by (cases "i < length (inode_table s)"; simp add: list_update_beyond not_less)+
    have fd: "t_filp (cur t) ! unat fd = Some f" "f_inode (file_table t ! f) = Some i" "f_pos (file_table t ! f) = of_nat n"
      using t(4,8) assms(4-6) by simp_all
    have "unat (of_nat n + of_nat n :: u32) = n + n" using unat_of_nat_u32 [of "n + n"] assms(13) by simp
    then have "of_nat n < (of_nat n + of_nat n :: u32)" using assms(12) by (simp add: word_less_nat_alt u)
    then show ?thesis unfolding run [OF assms(3) fd(1,2) refl assms(9) [folded y(2)]] Let_def y(1) fd(3) by simp
  qed
  moreover have "map (file_byte at bf s x) [pos..<n] = drop pos (map (file_byte at bf s x) [0..<n])" by (simp add: drop_map)
  ultimately show ?thesis using t lim assms(5) by (intro exI [of _ t]) simp
qed

text \<open>
  A file of 1030 bytes, open as descriptor 0: its first block is block 7, in buffer 1, all of whose bytes
  are 3, and it has no second block.
\<close>

definition fs_reading :: fs_state where
  "fs_reading = fs_mapped\<lparr>current := 0x1000,
     tmem := (\<lambda>_. (INIT_TASK 0x1000 0)\<lparr>t_filp := (replicate 20 None)[0 := Some 0]\<rparr>), task := 0x1000 # replicate 63 0,
     pmem := (\<lambda>_. 0)(0 := 0x5007, 0x5008 := 0x200007),
     file_table := (replicate NR_FILE null_file)[0 := null_file\<lparr>f_count := 1, f_inode := Some 1\<rparr>],
     inode_table := (inode_table fs_mapped)[1 := (inode_table fs_mapped ! 1)\<lparr>i_mode := 0x8000, i_size := 1030,
       i_zone := (replicate 9 0)[0 := 7]\<rparr>]\<rparr>"

lemma fs_reading_simps:
  "current fs_reading = 0x1000" "cur fs_reading = (INIT_TASK 0x1000 0)\<lparr>t_filp := (replicate 20 None)[0 := Some 0]\<rparr>"
  "file_table fs_reading = (replicate NR_FILE null_file)[0 := null_file\<lparr>f_count := 1, f_inode := Some 1\<rparr>]"
  "task fs_reading = 0x1000 # replicate 63 0"
  "tmem fs_reading p = (INIT_TASK 0x1000 0)\<lparr>t_filp := (replicate 20 None)[0 := Some 0]\<rparr>"
  "bmem fs_reading = (\<lambda>_. 3)" "i_size (inode_table fs_reading ! 1) = 1030" "i_mode (inode_table fs_reading ! 1) = 0x8000"
  "i_zone (inode_table fs_reading ! 1) = (replicate 9 0)[0 := 7]" "i_dev (inode_table fs_reading ! 1) = 0x301"
proof -
  have "length (inode_table fs_mapped) = NR_INODE" by (simp add: fs_mapped_def fs_inodes_tables)
  then show "i_size (inode_table fs_reading ! 1) = 1030" "i_mode (inode_table fs_reading ! 1) = 0x8000"
    "i_zone (inode_table fs_reading ! 1) = (replicate 9 0)[0 := 7]" "i_dev (inode_table fs_reading ! 1) = 0x301"
    using fs_mapped_tables(2) by (simp_all add: fs_reading_def)
qed (simp_all add: fs_reading_def fs_mapped_tables)

lemma fs_reading_cache: "cache_wf fs_reading" "in_cache 0x301 7 1 fs_reading" "one_page fs_reading"
proof -
  show "cache_wf fs_reading" by (rule cache_wf_same [OF fs_mapped_cache(1)]) (simp_all add: fs_reading_def)
  show "in_cache 0x301 7 1 fs_reading" using fs_mapped_cache(2) by (simp add: fs_reading_def in_cache_def)
  show "one_page fs_reading"
    by (simp add: one_page_def fs_reading_simps INIT_TASK_def lsl_def get_base_def bit_numeral_rec) (simp add: fs_reading_def)
qed

theorem sys_read_returns_rest_witness:
  "\<exists>t. sys_read (\<lambda>s. s) 0 0x2000 5 fs_reading = Done 1030 t \<and>
     user_bytes 0x2000 1030 t = replicate 1024 3 @ replicate 6 0"
proof -
  let ?x = "inode_table fs_reading ! 1"
  have z: "zone_of (\<lambda>_. 1) fs_reading ?x j = (if j = 0 then 7 else 0)" if "j < 7" for j
    using that by (cases j) (simp_all add: zone_of_def fs_reading_simps [simplified])
  have b: "\<forall>j. 0 div 1024 \<le> j \<and> 1024 * j < 1030 \<longrightarrow> at_hand_block (\<lambda>_. 1) (\<lambda>_. 1) fs_reading ?x j"
    using z fs_reading_cache(2) by (auto simp: at_hand_block_def indirects_def fs_reading_simps [simplified])
  have sp: "span 0x2000 (1030 - 0) fs_reading" by (rule one_page_span [OF fs_reading_cache(3)]) simp_all
  have "\<exists>t. sys_read (\<lambda>s. s) 0 0x2000 5 fs_reading = Done (of_nat (1030 - 0)) t \<and>
    user_bytes 0x2000 (1030 - 0) t = drop 0 (map (file_byte (\<lambda>_. 1) (\<lambda>_. 1) fs_reading ?x) [0..<1030]) \<and>
    (\<forall>b. b \<notin> frame_bytes 0x2000 (1030 - 0) fs_reading \<longrightarrow> byte_at (pmem t) b = byte_at (pmem fs_reading) b) \<and>
    bufs t = bufs fs_reading \<and> bmem t = bmem fs_reading \<and>
    inode_table t = (inode_table fs_reading)[1 := ?x\<lparr>i_atime := CURRENT_TIME fs_reading\<rparr>] \<and>
    f_pos (file_table t ! 0) = of_nat 1030 \<and> sys_read (\<lambda>s. s) 0 0x2000 5 t = Done 0 t"
    by (rule sys_read_returns_rest [OF fs_reading_cache(1) _ _ _ _ _ refl _ _ _ _ _ _ b sp])
      (simp_all add: fs_reading_simps fs_reading_simps [simplified] null_file_def S_ISREG_def)
  moreover have "map (file_byte (\<lambda>_. 1) (\<lambda>_. 1) fs_reading ?x) [0..<1030] = replicate 1024 3 @ replicate 6 0"
  proof -
    have "file_byte (\<lambda>_. 1) (\<lambda>_. 1) fs_reading ?x k = (if k < 1024 then 3 else 0)" if "k < 1030" for k
    proof -
      have "k div 1024 < 7" "k div 1024 = 0 \<longleftrightarrow> k < 1024" using that by (auto simp: less_mult_imp_div_less)
      with z [of "k div 1024"] show ?thesis unfolding file_byte_def by (simp add: fs_reading_simps(6))
    qed
    then show ?thesis by (intro nth_equalityI) (simp_all add: nth_append)
  qed
  ultimately show ?thesis by auto
qed

text \<open>C29: dup returns the lowest free descriptor and makes it refer to the same open file, whose count goes up
  by one; closing it again returns 0 and leaves the descriptors and the file table as they were.\<close>

theorem dup_close_round_trip:
  assumes "descriptors_wf s" "unat fd < NR_OPEN" "t_filp (cur s) ! unat fd = Some f" "free_fd 0 s = Some d"
  shows "\<exists>t u. sys_dup fd s = (of_nat d, t) \<and> t_filp (cur s) ! d = None \<and> (\<forall>j < d. t_filp (cur s) ! j \<noteq> None) \<and>
    t_filp (cur t) = (t_filp (cur s))[d := Some f] \<and> f_count (file_table t ! f) = f_count (file_table s ! f) + 1 \<and>
    sys_close env (of_nat d) t = Done 0 u \<and> file_table u = file_table s \<and> t_filp (cur u) = t_filp (cur s)"
proof -
  note e = descriptors_wf_entry [OF assms(1-3)]
  from assms(4) have d: "d < NR_OPEN" "t_filp (cur s) ! d = None" "\<forall>j < d. t_filp (cur s) ! j \<noteq> None"
    by (simp_all add: free_fd_Some)
  have l: "length (t_filp (cur s)) = NR_OPEN" "length (file_table s) = NR_FILE" using assms(1) by (auto simp: descriptors_wf_def)
  have u: "unat (of_nat d :: u32) = d" using d(1) by (intro unat_of_nat_u32) simp
  obtain t where t: "t = fupd f (\<lambda>x. x\<lparr>f_count := f_count x + 1\<rparr>) (set_filp d (Some f) (keep_on_exec d s))" by simp
  have dup: "sys_dup fd s = (of_nat d, t)" using assms(2-4) by (simp add: sys_dup_def dupfd_def t)
  have tt: "current t = current s" "t_filp (cur t) = (t_filp (cur s))[d := Some f]"
    "file_table t = (file_table s)[f := (file_table s ! f)\<lparr>f_count := f_count (file_table s ! f) + 1\<rparr>]"
    by (simp_all add: t fupd_def tupd_def)
  have nz: "f_count (file_table s ! f) + 1 \<noteq> 0" using e(3) by (metis add_eq_0_iff2)
  obtain v where v: "v = fupd f (\<lambda>x. x\<lparr>f_count := f_count x - 1\<rparr>) (set_filp d None (keep_on_exec d t))" by simp
  have "sys_close env (of_nat d) t = Done 0 v"
    using d(1) tt l e nz by (simp add: sys_close_def u Let_def fupd_def tupd_def v)
  moreover have "file_table v = file_table s" using e(1) l tt by (simp add: v fupd_def tupd_def)
  moreover have "t_filp (cur v) = t_filp (cur s)"
    using d(1,2) l tt list_update_id [of "t_filp (cur s)" d] by (simp add: v fupd_def tupd_def)
  ultimately show ?thesis using dup d tt e(1) l by auto
qed

lemma fs_reading_wf: "descriptors_wf fs_reading" "free_fd 0 fs_reading = Some 1"
proof -
  have r: "count_list (replicate n None) (Some g) = 0" for n and g :: nat by (induction n) simp_all
  have c: "count_list ((replicate 20 None)[0 := Some 0]) (Some g) = (if g = 0 then 1 else 0)" for g :: nat
    using r [of 19 g] by (simp add: numeral_eq_Suc)
  have z: "(\<Sum>p \<leftarrow> replicate n 0. if p = 0 then 0 else k) = (0 :: nat)" for n k by (induction n) simp_all
  have "holders g (tmem fs_reading) (task fs_reading) = (if g = 0 then 1 else 0)" for g
    using z [of 63] by (simp add: holders_def fs_reading_simps(4,5) c)
  then have "files_counted fs_reading"
    by (auto simp: files_counted_def fs_reading_simps(3) null_file_def nth_list_update)
  moreover have "f < NR_FILE" if "Some f \<in> set ((replicate 20 None)[0 := Some 0])" for f
    using that set_update_subset_insert [of "replicate 20 None" 0 "Some 0"] by auto
  moreover have "filter (\<lambda>p. p \<noteq> 0) (replicate n (0 :: u32)) = []" for n by simp
  ultimately show "descriptors_wf fs_reading"
    unfolding descriptors_wf_def fs_reading_simps(1,3,4,5) by simp
  show "free_fd 0 fs_reading = Some 1" by (simp add: free_fd_Some fs_reading_simps)
qed

theorem dup_close_round_trip_witness:
  "\<exists>t u. sys_dup 0 fs_reading = (1, t) \<and> f_count (file_table t ! 0) = 2 \<and> sys_close (\<lambda>s. s) 1 t = Done 0 u \<and>
     file_table u = file_table fs_reading"
proof -
  have "t_filp (cur fs_reading) ! unat 0 = Some 0" by (simp add: fs_reading_simps)
  from dup_close_round_trip [OF fs_reading_wf(1) _ this fs_reading_wf(2), of "\<lambda>s. s"] show ?thesis
    by (auto simp: fs_reading_simps(3) null_file_def)
qed

lemma sys_dup_wf:
  assumes "descriptors_wf s"
  shows "descriptors_wf (snd (sys_dup fd s))"
proof (cases "unat fd < NR_OPEN \<and> t_filp (cur s) ! unat fd \<noteq> None \<and> free_fd 0 s \<noteq> None")
  case True
  have len: "length (file_table s) = NR_FILE" "length (t_filp (cur s)) = NR_OPEN" using assms by (auto simp: descriptors_wf_def)
  from True obtain f d where f: "unat fd < NR_OPEN" "t_filp (cur s) ! unat fd = Some f" "free_fd 0 s = Some d" by auto
  note e = descriptors_wf_entry [OF assms f(1,2)]
  have "descriptors_wf (fupd f (\<lambda>x. x\<lparr>f_count := f_count x + 1\<rparr>) (set_filp d (Some f) (keep_on_exec d s)))"
    using f(3) e len unfolding free_fd_Some
    by (intro descriptors_wf_set [where y = "Some f" and d = d, OF assms])
      (auto simp: fupd_def tupd_def nth_list_update)
  with f show ?thesis by (simp add: sys_dup_def dupfd_def)
next
  case False
  then have "snd (sys_dup fd s) = s" by (auto simp: sys_dup_def dupfd_def split: option.split)
  with assms show ?thesis by simp
qed

lemma sys_close_wf:
  assumes "descriptors_wf s"
  shows "\<exists>u i. descriptors_wf u \<and> (sys_close env fd s = Done 0 u \<or> sys_close env fd s = Done (-22) u \<or>
     sys_close env fd s = kbind (iput env i u) (\<lambda>_ s. Done 0 s))"
proof (cases "unat fd < NR_OPEN")
  case False
  then have "sys_close env fd s = Done (-22) s" by (simp add: sys_close_def)
  with assms show ?thesis by blast
next
  case True
  have len: "length (file_table s) = NR_FILE" "length (t_filp (cur s)) = NR_OPEN" using assms by (auto simp: descriptors_wf_def)
  let ?s = "keep_on_exec (unat fd) s"
  show ?thesis
  proof (cases "t_filp (cur s) ! unat fd")
    case None
    have "descriptors_wf ?s"
      using True len None list_update_id [of "t_filp (cur s)" "unat fd"]
      by (intro descriptors_wf_set [where y = None and d = "unat fd", OF assms]) (auto simp: tupd_def)
    moreover have "sys_close env fd s = Done (-22) ?s" using True None by (simp add: sys_close_def Let_def tupd_def)
    ultimately show ?thesis by blast
  next
    case (Some f)
    let ?u = "fupd f (\<lambda>x. x\<lparr>f_count := f_count x - 1\<rparr>) (set_filp (unat fd) None ?s)"
    note e = descriptors_wf_entry [OF assms True Some]
    have "descriptors_wf ?u"
      using True e len Some by (intro descriptors_wf_set [where y = None and d = "unat fd", OF assms])
        (auto simp: fupd_def tupd_def nth_list_update)
    moreover have "sys_close env fd s = (if f_count (file_table ?u ! f) \<noteq> 0 then Done 0 ?u
        else kbind (iput env (f_inode (file_table ?u ! f)) ?u) (\<lambda>_ s. Done 0 s))"
      using True Some e(2) by (simp add: sys_close_def Let_def fupd_def tupd_def)
    ultimately show ?thesis by (metis (mono_tags))
  qed
qed

text \<open>C11: dup and close keep the tables of descriptors in order: every descriptor refers to an entry of the
  file table and every entry counts its descriptors. Close never panics on a count of 0: it returns, or its last
  step gives the inode of the closed file back, with the tables in order before.\<close>

theorem descriptors_stay_counted:
  assumes "descriptors_wf s"
  shows "descriptors_wf (snd (sys_dup fd s)) \<and>
    (\<exists>u i. descriptors_wf u \<and> (sys_close env fd s = Done 0 u \<or> sys_close env fd s = Done (-22) u \<or>
       sys_close env fd s = kbind (iput env i u) (\<lambda>_ s. Done 0 s)))"
  using sys_dup_wf [OF assms] sys_close_wf [OF assms] by blast

theorem descriptors_stay_counted_witness:
  "descriptors_wf (snd (sys_dup 0 fs_reading))"
  by (rule conjunct1 [OF descriptors_stay_counted [OF fs_reading_wf(1)]])

text \<open>\<open>open_namei\<close> stores an inode only for a path that ends in a slash: that of the directory. Otherwise it
  succeeds only when the last name is found there, and stores nothing.\<close>

lemma create_file_fails: "create_file env dir base len flag mode s = Done (c, r) t \<Longrightarrow> sint c < 0"
  by (auto simp: create_file_def add_entry_def kbind_Done_iff split: if_splits option.splits)

lemma open_existing_stores_none: "open_existing env dir b de flag s = Done (c, r) t \<Longrightarrow> r = None"
  by (auto simp: open_existing_def Let_def kbind_Done_iff split: if_splits option.splits)

lemma truncating_flag:
  assumes "f = (if flag AND O_TRUNC \<noteq> 0 \<and> flag AND O_ACCMODE = 0 then flag OR O_WRONLY else flag)"
  shows "f AND (O_ACCMODE OR O_CREAT OR O_TRUNC) = 0 \<longleftrightarrow> flag AND (O_ACCMODE OR O_CREAT OR O_TRUNC) = 0"
proof (cases "flag AND O_TRUNC \<noteq> 0 \<and> flag AND O_ACCMODE = 0")
  case True
  have "bit ((flag OR 1) AND (O_ACCMODE OR O_CREAT OR O_TRUNC)) 0" by (simp add: bit_simps)
  then have "(flag OR 1) AND (O_ACCMODE OR O_CREAT OR O_TRUNC) \<noteq> 0" by (metis bit_0_eq bot_apply bot_bool_def)
  moreover have "flag AND (O_ACCMODE OR O_CREAT OR O_TRUNC) \<noteq> 0"
  proof
    assume "flag AND (O_ACCMODE OR O_CREAT OR O_TRUNC) = 0"
    then have "(flag AND (O_ACCMODE OR O_CREAT OR O_TRUNC)) AND O_TRUNC = 0" by simp
    then have "flag AND O_TRUNC = 0" by (simp add: and.assoc)
    with True show False by simp
  qed
  ultimately show ?thesis unfolding assms if_P [OF True] by simp
next
  case False
  show ?thesis unfolding assms if_not_P [OF False] ..
qed

lemma open_namei_result:
  assumes "open_namei env p flag mode s = Done (c, res) t" "0 \<le> sint c"
  shows "\<exists>dir len base u. dir_namei env p s = Done (Some (dir, len, base)) u \<and>
    (if len = 0 then res = Some dir \<and> flag AND (O_ACCMODE OR O_CREAT OR O_TRUNC) = 0
     else res = None \<and> (\<exists>d b de x. find_entry env dir base len u = Done (d, Some (b, de)) x))"
proof -
  define f where "f = (if flag AND O_TRUNC \<noteq> 0 \<and> flag AND O_ACCMODE = 0 then flag OR O_WRONLY else flag)"
  from assms(1) obtain r u where r: "dir_namei env p s = Done r u" by (auto simp: open_namei_def Let_def)
  with assms obtain dir len base where d: "r = Some (dir, len, base)"
    by (cases r) (auto simp: open_namei_def Let_def)
  show ?thesis
  proof (cases "len = 0")
    case True
    with assms r d have "f AND (O_ACCMODE OR O_CREAT OR O_TRUNC) = 0" "res = Some dir"
      unfolding open_namei_def f_def [symmetric] by (auto simp: Let_def split: if_splits)
    with r d True show ?thesis using truncating_flag [OF f_def] by auto
  next
    case False
    with assms(1) r d obtain d' q x where q: "find_entry env dir base len u = Done (d', q) x"
      unfolding open_namei_def f_def [symmetric] by (auto simp: Let_def)
    with assms r d False obtain b de where "q = Some (b, de)" "open_existing env d' b de f x = Done (c, res) t"
      unfolding open_namei_def f_def [symmetric] by (cases q) (auto simp: Let_def dest: create_file_fails)
    with r d q False show ?thesis by (auto dest: open_existing_stores_none)
  qed
qed

lemma set_all_fields:
  "(x :: file_struct)\<lparr>f_mode := a, f_flags := b, f_count := c, f_inode := d, f_pos := e\<rparr> =
    \<lparr>f_mode = a, f_flags = b, f_count = c, f_inode = d, f_pos = e\<rparr>"
  by (cases x) simp

lemma open_chr_fails: "open_chr env fd f inode s = Done (Some c) t \<Longrightarrow> sint c < 0"
  by (auto simp: open_chr_def Let_def split: if_splits)

text \<open>C30: open, with a descriptor and an entry of the file table free (the lowest of each are taken): for a path whose
  last component is empty, opened for reading alone, it returns the descriptor, and the entry is open on that
  directory, at position 0 (unless it is a character device). It returns a descriptor in one other
  case: the path has a last component that is found in its directory. Then the entry is not open on the file
  found: open_namei never stores it, and the entry gets what the local variable inode of sys_open held
  before, an uninitialised pointer.\<close>

theorem open_stores_inode:
  fixes s :: "'a tty_state_scheme"
  assumes "free_fd 0 s = Some fd" "free_file s = Some f"
    and "w = fupd f (\<lambda>x. x\<lparr>f_count := f_count x + 1\<rparr>) (set_filp fd (Some f) (keep_on_exec fd (s\<lparr>stale := \<lambda>n. stale s (Suc n)\<rparr>)))"
    and "opened = (\<lambda>i u. fupd f (\<lambda>_. \<lparr>f_mode = i_mode (inode_table u ! i), f_flags = ucast flag, f_count = 1, f_inode = Some i, f_pos = 0\<rparr>) u)"
  shows "(\<forall>dir base u. dir_namei env p w = Done (Some (dir, 0, base)) u \<and> flag AND (O_ACCMODE OR O_CREAT OR O_TRUNC) = 0 \<and>
      \<not> S_ISCHR (i_mode (inode_table u ! dir)) \<longrightarrow> sys_open env p flag mode s = Done (of_nat fd) (opened dir u)) \<and>
    (\<forall>v t. sys_open env p flag mode s = Done v t \<and> 0 \<le> sint v \<longrightarrow> v = of_nat fd \<and>
      (\<exists>dir len base u i x. dir_namei env p w = Done (Some (dir, len, base)) u \<and> t = opened i x \<and>
        (if len = 0 then i = dir \<and> flag AND (O_ACCMODE OR O_CREAT OR O_TRUNC) = 0
         else stale s 0 = Some i \<and> (\<exists>d b de y. find_entry env dir base len u = Done (d, Some (b, de)) y))))"
proof -
  let ?mode = "mode AND (0x1ff AND NOT (ucast (t_umask (cur s))))"
  have fd: "free_fd 0 (s\<lparr>stale := l\<rparr>) = Some fd" "free_file (tupd q g (s\<lparr>stale := l\<rparr>)) = Some f" for q g l
    using assms(1,2) by (simp_all add: free_fd_def free_file_def tupd_def)
  have run: "sys_open env p flag mode s = kbind (open_namei env p flag ?mode w) (\<lambda>(i, res) s'.
        if sint i < 0 then Done i (give_up fd f s')
        else case (case res of None \<Rightarrow> stale s 0 | Some n \<Rightarrow> Some n) of
          None \<Rightarrow> Halted (Undef ''inode->i_mode'') s'
        | Some inode \<Rightarrow>
            kbind (if S_ISCHR (i_mode (inode_table s' ! inode)) then open_chr env fd f inode s' else Done None s') (\<lambda>r s'.
              case r of Some code \<Rightarrow> Done code s' | None \<Rightarrow> Done (of_nat fd) (opened inode s')))"
    unfolding sys_open_def Let_def fd option.case set_all_fields assms(3,4) by simp
  show ?thesis
  proof (intro conjI allI impI, elim conjE)
    fix dir base u
    assume d: "dir_namei env p w = Done (Some (dir, 0, base)) u" "flag AND (O_ACCMODE OR O_CREAT OR O_TRUNC) = 0"
      "\<not> S_ISCHR (i_mode (inode_table u ! dir))"
    from d(1,2) have "open_namei env p flag ?mode w = Done (0, Some dir) u"
      unfolding open_namei_def using truncating_flag [OF refl, of flag] by (simp add: Let_def)
    then show "sys_open env p flag mode s = Done (of_nat fd) (opened dir u)" unfolding run using d(3) by simp
  next
    fix v t assume v: "sys_open env p flag mode s = Done v t \<and> 0 \<le> sint v"
    then obtain c res u where n: "open_namei env p flag ?mode w = Done (c, res) u"
      unfolding run by (auto elim!: kbind_DoneE)
    have pos: "0 \<le> sint c"
    proof (rule ccontr)
      assume "\<not> 0 \<le> sint c"
      then have "v = c" using v unfolding run n by simp
      with v \<open>\<not> 0 \<le> sint c\<close> show False by simp
    qed
    with v obtain i where i: "(case res of None \<Rightarrow> stale s 0 | Some n \<Rightarrow> Some n) = Some i"
      unfolding run n by (cases "case res of None \<Rightarrow> stale s 0 | Some n \<Rightarrow> Some n") simp_all
    have end': "v = of_nat fd \<and> (\<exists>x. t = opened i x)"
      using v pos i unfolding run n by (auto simp: kbind_Done_iff dest: open_chr_fails split: if_splits option.splits)
    from open_namei_result [OF n pos] obtain dir len base y where d: "dir_namei env p w = Done (Some (dir, len, base)) y"
      "if len = 0 then res = Some dir \<and> flag AND (O_ACCMODE OR O_CREAT OR O_TRUNC) = 0
       else res = None \<and> (\<exists>d b de x. find_entry env dir base len y = Done (d, Some (b, de)) x)" by blast
    have "if len = 0 then i = dir \<and> flag AND (O_ACCMODE OR O_CREAT OR O_TRUNC) = 0
         else stale s 0 = Some i \<and> (\<exists>d b de x. find_entry env dir base len y = Done (d, Some (b, de)) x)"
      using d(2) i by (cases "len = 0") auto
    with end' d(1) show "v = of_nat fd"
      "\<exists>dir len base u i x. dir_namei env p w = Done (Some (dir, len, base)) u \<and> t = opened i x \<and>
        (if len = 0 then i = dir \<and> flag AND (O_ACCMODE OR O_CREAT OR O_TRUNC) = 0
         else stale s 0 = Some i \<and> (\<exists>d b de y. find_entry env dir base len u = Done (d, Some (b, de)) y))" by blast+
  qed
qed

text \<open>The initial task with the root inode as root and working directory, about to open \<open>/\<close>.\<close>

definition tty_root :: tty_state where
  "tty_root = tty_boot\<lparr>current := 0x1000, tmem := (\<lambda>_. (INIT_TASK 0x1000 0)\<lparr>t_root := Some 1, t_pwd := Some 1\<rparr>),
     pmem := (\<lambda>_. 0)(0 := 0x5007, 0x5008 := 0x200007, 0x200000 := 0x2f),
     inode_table := (replicate NR_INODE null_inode)[1 := null_inode\<lparr>i_mode := 0x41ed, i_nlinks := 2, i_dev := 0x301, i_num := 1,
       i_count := 1\<rparr>]\<rparr>"

lemma tty_root_simps:
  "current tty_root = 0x1000" "tmem tty_root = (\<lambda>_. (INIT_TASK 0x1000 0)\<lparr>t_root := Some 1, t_pwd := Some 1\<rparr>)"
  "file_table tty_root = replicate NR_FILE null_file"
  "inode_table tty_root ! 1 = null_inode\<lparr>i_mode := 0x41ed, i_nlinks := 2, i_dev := 0x301, i_num := 1, i_count := 1\<rparr>"
  "one_page tty_root" "path_at 0x2000 [47] tty_root"
proof -
  show o: "one_page tty_root"
    by (simp add: one_page_def tty_root_def INIT_TASK_def lsl_def get_base_def bit_numeral_rec)
  have w: "readable a tty_root \<and> phys (linear a tty_root) tty_root = 0x200000 + (a AND 0xfff)" if "a = 0x2000 \<or> a = 0x2001" for a
    using one_page_walk [OF o, of a] that by auto
  have "user_bytes 0x2000 (Suc (length [47 :: u8])) tty_root = [47] @ [0]"
    using w [of "0x2000"] w [of "0x2001"] by (simp add: user_bytes_Suc byte_at_def) (simp add: tty_root_def)
  moreover have "readable (0x2000 + of_nat i) tty_root" if "i \<le> 1" for i
    using w [of "0x2000"] w [of "0x2001"] that by (cases i) auto
  ultimately show "path_at 0x2000 [47] tty_root" by (simp add: path_at_def)
qed (simp_all add: tty_root_def tty_boot_def fs_state.defs)

theorem open_stores_inode_witness:
  "\<exists>t. sys_open (\<lambda>s. s) 0x2000 0 0 tty_root = Done 0 t \<and> f_inode (file_table t ! 0) = Some 1"
proof -
  define v where "v = fupd 0 (\<lambda>x. x\<lparr>f_count := f_count x + 1\<rparr>) (set_filp 0 (Some 0) (keep_on_exec 0 (tty_root\<lparr>stale := \<lambda>n. stale tty_root (Suc n)\<rparr>)))"
  have fd: "free_fd 0 tty_root = Some 0" by (simp add: free_fd_Some tty_root_simps INIT_TASK_def)
  have ff: "free_file tty_root = Some 0"
    by (simp add: free_file_def tupd_def tty_root_simps null_file_def upt_rec)
  have sv: "same_view tty_root v" by (simp add: v_def same_view_def fupd_def tupd_def)
  have vc: "t_root (cur v) = Some 1" "t_pwd (cur v) = Some 1" "inode_table v ! 1 = inode_table tty_root ! 1" "suser v"
    "length (file_table v) = NR_FILE" "length (inode_table v) = NR_INODE"
    by (simp_all add: v_def fupd_def tupd_def tty_root_simps suser_def INIT_TASK_def) (simp add: tty_root_def)
  have d: "dir_namei (\<lambda>s. s) 0x2000 v = Done (Some (1, of_nat (length ([] :: u8 list)), 0x2000 + of_nat (length [47 :: u8] - length ([] :: u8 list))))
      (iupd 1 (\<lambda>x. x\<lparr>i_count := i_count x + 1\<rparr>) v)"
    by (rule dir_namei_single [where xs = "[47]" and r = 1 and w = 1])
      (use tty_root_simps(6) vc in \<open>simp_all add: path_at_view [OF sv] tty_root_simps(4) [simplified] permission_def S_ISDIR_def Let_def null_inode_def\<close>)
  define u where "u = iupd 1 (\<lambda>x. x\<lparr>i_count := i_count x + 1\<rparr>) v"
  have d': "dir_namei (\<lambda>s. s) 0x2000 v = Done (Some (1, 0, 0x2001)) u" using d by (simp add: u_def)
  have chr: "\<not> S_ISCHR (i_mode (inode_table u ! 1))"
    using vc(3,6) by (simp add: u_def tty_root_simps(4) [simplified] S_ISCHR_def)
  have "length (file_table u) = NR_FILE" using vc(5) by (simp add: u_def iupd_def)
  with mp [OF spec [OF spec [OF spec [OF conjunct1 [OF open_stores_inode [OF fd ff v_def refl]]]]], OF conjI [OF d' conjI [OF _ chr]], of 0]
  show ?thesis by (simp add: fupd_def)
qed

end
