(* ===== verification/Super.thy ===== *)
theory Super
  imports Tty Filedata
begin

text \<open>
  Mounting the root file system, the rest of \<^verbatim>\<open>fs/super.c\<close>: \<open>read_super\<close> reads the
  super block and the two bitmaps of a device into the cache, \<open>mount_root\<close> sets the tables up, gets
  the root inode and counts what is free. \<open>check_disk_change\<close>, called first by \<open>read_super\<close>,
  does nothing.
\<close>

section \<open>read\_super\<close>

text \<open>
  \<open>for (i = 0; i < blocks; i++)\<close> over one of the two arrays of slots: the number of the next block
  to read. The arrays have eight slots and the code does not check the number of blocks.
\<close>

primrec read_maps :: "nat \<Rightarrow> (nat \<Rightarrow> nat option \<Rightarrow> super_block \<Rightarrow> super_block) \<Rightarrow> nat
    \<Rightarrow> ('a fs_state_scheme \<Rightarrow> 'a fs_state_scheme) \<Rightarrow> u32 \<Rightarrow> nat \<Rightarrow> u32
    \<Rightarrow> 'a fs_state_scheme \<Rightarrow> ('a fs_state_scheme, u32) outcome" where
  "read_maps 0 put i env dev k block s = Done block s"
| "read_maps (Suc n) put i env dev k block s =
     (if i \<ge> 8 then Halted (Undef ''s_imap[i]'') s
      else kbind (bread env dev block s) (\<lambda>bh s.
             let s = supd k (put i bh) s
             in if bh = None then Done block s else read_maps n put (i + 1) env dev k (block + 1) s))"

definition put_imap :: "nat \<Rightarrow> nat option \<Rightarrow> super_block \<Rightarrow> super_block" where
  "put_imap i b x = x\<lparr>s_imap := (s_imap x)[i := b]\<rparr>"

definition put_zmap :: "nat \<Rightarrow> nat option \<Rightarrow> super_block \<Rightarrow> super_block" where
  "put_zmap i b x = x\<lparr>s_zmap := (s_zmap x)[i := b]\<rparr>"

primrec release_slots :: "nat list \<Rightarrow> ('a fs_state_scheme \<Rightarrow> 'a fs_state_scheme) \<Rightarrow> (super_block \<Rightarrow> nat option list) \<Rightarrow> nat
    \<Rightarrow> 'a fs_state_scheme \<Rightarrow> ('a fs_state_scheme, unit) outcome" where
  "release_slots [] env slots k s = Done () s"
| "release_slots (i # is) env slots k s =
     kbind (brelse env (slots (super_block s ! k) ! i) s) (\<lambda>_ s. release_slots is env slots k s)"

text \<open>The way out of \<open>read_super\<close> on an error.\<close>

definition drop_super :: "nat \<Rightarrow> 'a fs_state_scheme \<Rightarrow> ('a fs_state_scheme, nat option) outcome" where
  "drop_super k s = Done None (free_super k (supd k (\<lambda>x. x\<lparr>s_dev := 0\<rparr>) s))"

text \<open>\<open>s_imap[0]->b_data[0] |= 1\<close>\<close>

definition reserve_first :: "nat option \<Rightarrow> 'a fs_state_scheme \<Rightarrow> ('a fs_state_scheme, unit) outcome" where
  "reserve_first slot s =
     (case slot of
        None \<Rightarrow> Halted (Undef ''s_imap[0]->b_data'') s
      | Some b \<Rightarrow> let a = b_data (bufs s b) in Done () (s\<lparr>bmem := (bmem s)(a := bmem s a OR 1)\<rparr>))"

definition load_maps :: "('a fs_state_scheme \<Rightarrow> 'a fs_state_scheme) \<Rightarrow> u32 \<Rightarrow> nat
    \<Rightarrow> 'a fs_state_scheme \<Rightarrow> ('a fs_state_scheme, nat option) outcome" where
  "load_maps env dev k s =
     (let s = supd k (\<lambda>x. x\<lparr>s_imap := replicate 8 None, s_zmap := replicate 8 None\<rparr>) s
      in kbind (read_maps (unat (s_imap_blocks (super_block s ! k))) put_imap 0 env dev k 2 s) (\<lambda>block s.
         kbind (read_maps (unat (s_zmap_blocks (super_block s ! k))) put_zmap 0 env dev k block s) (\<lambda>block s.
           if block \<noteq> 2 + ucast (s_imap_blocks (super_block s ! k)) + ucast (s_zmap_blocks (super_block s ! k))
           then kbind (release_slots [0..<8] env s_imap k s) (\<lambda>_ s.
                kbind (release_slots [0..<8] env s_zmap k s) (\<lambda>_ s. drop_super k s))
           else kbind (reserve_first (s_imap (super_block s ! k) ! 0) s) (\<lambda>_ s.
                kbind (reserve_first (s_zmap (super_block s ! k) ! 0) s) (\<lambda>_ s.
                  Done (Some k) (free_super k s))))))"

definition free_slot :: "'a fs_state_scheme \<Rightarrow> nat option" where
  "free_slot s = find (\<lambda>k. s_dev (super_block s ! k) = 0) [0..<NR_SUPER]"

definition read_super :: "('a fs_state_scheme \<Rightarrow> 'a fs_state_scheme) \<Rightarrow> u32
    \<Rightarrow> 'a fs_state_scheme \<Rightarrow> ('a fs_state_scheme, nat option) outcome" where
  "read_super env dev s =
     (if dev = 0 then Done None s
      else kbind (get_super env dev s) (\<lambda>r s.
        if r \<noteq> None then Done r s
        else case free_slot s of
          None \<Rightarrow> Done None s
        | Some k \<Rightarrow>
            kbind (lock_super env k (supd k (\<lambda>x. x\<lparr>s_dev := ucast dev, s_isup := None, s_imount := None,
                     s_time := 0, s_rd_only := 0, s_dirt := 0\<rparr>) s)) (\<lambda>_ s.
            kbind (bread env dev 1 s) (\<lambda>bh s.
              case bh of
                None \<Rightarrow> drop_super k s
              | Some b \<Rightarrow>
                  kbind (brelse env (Some b) (supd k (load_dsuper (bmem s) (b_data (bufs s b))) s)) (\<lambda>_ s.
                    if s_magic (super_block s ! k) \<noteq> SUPER_MAGIC then drop_super k s
                    else load_maps env dev k s)))))"

section \<open>mount\_root\<close>

text \<open>
  The loop \<open>while (--i >= 0)\<close> over bits \<open>i - 1\<close> down to 0 of a bitmap of blocks of 8192 bits:
  the number of bits that are clear, added to \<open>free\<close>. \<open>i\<close> stays below 65536, so the slot is
  one of the eight.
\<close>

primrec count_free :: "nat \<Rightarrow> nat option list \<Rightarrow> u32 \<Rightarrow> 'a fs_state_scheme \<Rightarrow> ('a fs_state_scheme, u32) outcome" where
  "count_free 0 slots free s = Done free s"
| "count_free (Suc i) slots free s =
     (case slots ! (i div 8192) of
        None \<Rightarrow> Halted (Undef ''p->s_zmap[i>>13]->b_data'') s
      | Some b \<Rightarrow> count_free i slots (if map_bit (bmem s) (b_data (bufs s b)) (i mod 8192) then free else free + 1) s)"

definition reset_tables :: "'a fs_state_scheme \<Rightarrow> 'a fs_state_scheme" where
  "reset_tables s = fold (\<lambda>i. fupd i (\<lambda>x. x\<lparr>f_count := 0\<rparr>)) [0..<NR_FILE] s"

definition reset_supers :: "'a fs_state_scheme \<Rightarrow> 'a fs_state_scheme" where
  "reset_supers s =
     fold (\<lambda>k s. (supd k (\<lambda>x. x\<lparr>s_dev := 0, s_lock := 0\<rparr>) s)\<lparr>waitq := (waitq s)(S_wait k := 0)\<rparr>) [0..<NR_SUPER] s"

definition mount_root :: "('a tty_state_scheme \<Rightarrow> 'a tty_state_scheme)
    \<Rightarrow> 'a tty_state_scheme \<Rightarrow> ('a tty_state_scheme, unit) outcome" where
  "mount_root env s =
     (let s = reset_tables s
      in kbind (if MAJOR (ROOT_DEV s) = 2
                then wait_for_keypress env (printk ''Insert root floppy and press ENTER'' [] s) else Done () s) (\<lambda>_ s.
         let s = reset_supers s
         in kbind (read_super env (ROOT_DEV s) s) (\<lambda>p s.
            case p of
              None \<Rightarrow> panic ''Unable to mount root'' s
            | Some p \<Rightarrow> kbind (iget env (ROOT_DEV s) ROOT_INO s) (\<lambda>mi s.
                case mi of
                  None \<Rightarrow> panic ''Unable to read root i-node'' s
                | Some mi \<Rightarrow>
                    let s = iupd mi (\<lambda>x. x\<lparr>i_count := i_count x + 3\<rparr>) s;
                        s = supd p (\<lambda>x. x\<lparr>s_isup := Some mi, s_imount := Some mi\<rparr>) s;
                        s = tupd (current s) (\<lambda>t. t\<lparr>t_pwd := Some mi, t_root := Some mi\<rparr>) s
                    in kbind (count_free (unat (s_nzones (super_block s ! p))) (s_zmap (super_block s ! p)) 0 s) (\<lambda>free s.
                       let s = printk ''%d/%d free blocks'' [free, ucast (s_nzones (super_block s ! p))] s
                       in kbind (count_free (unat (s_ninodes (super_block s ! p)) + 1) (s_imap (super_block s ! p)) 0 s) (\<lambda>free s.
                            Done () (printk ''%d/%d free inodes'' [free, ucast (s_ninodes (super_block s ! p))] s)))))))"

section \<open>Counting\<close>

definition clear_bits :: "nat option list \<Rightarrow> 'a fs_state_scheme \<Rightarrow> nat \<Rightarrow> nat set" where
  "clear_bits slots s n = {i. i < n \<and> (\<forall>b. slots ! (i div 8192) = Some b \<longrightarrow> \<not> map_bit (bmem s) (b_data (bufs s b)) (i mod 8192))}"

lemma clear_bits_Suc:
  "slots ! (n div 8192) = Some b \<Longrightarrow> clear_bits slots s (Suc n) =
     (if map_bit (bmem s) (b_data (bufs s b)) (n mod 8192) then clear_bits slots s n else insert n (clear_bits slots s n))"
  by (auto simp: clear_bits_def less_Suc_eq)

lemma count_free_counts:
  "\<forall>i < n. slots ! (i div 8192) \<noteq> None \<Longrightarrow>
     count_free n slots free s = Done (free + of_nat (card (clear_bits slots s n))) s"
proof (induction n arbitrary: free)
  case 0
  then show ?case by (simp add: clear_bits_def)
next
  case (Suc n)
  then obtain b where b: "slots ! (n div 8192) = Some b" by auto
  have "n \<notin> clear_bits slots s n" "finite (clear_bits slots s n)" by (simp_all add: clear_bits_def)
  with Suc b show ?case by (simp add: clear_bits_Suc ac_simps)
qed

section \<open>Loading the maps\<close>

text \<open>\<open>held B s t\<close>: the buffers of \<open>B\<close> have one user more, otherwise the cache is as before.\<close>

definition held :: "nat set \<Rightarrow> 'a fs_state_scheme \<Rightarrow> 'a fs_state_scheme \<Rightarrow> bool" where
  "held B s t \<longleftrightarrow> (\<forall>c. bufs t c = (if c \<in> B then (bufs s c)\<lparr>b_count := b_count (bufs s c) + 1\<rparr> else bufs s c)) \<and>
     bmem t = bmem s \<and> hash_table t = hash_table s \<and> free_list t = free_list s \<and> nr_buffers t = nr_buffers s"

lemma held_empty: "held {} s s"
  by (simp add: held_def)

lemma held_more: "held A s t \<Longrightarrow> held B t u \<Longrightarrow> A \<inter> B = {} \<Longrightarrow> held (A \<union> B) s u"
  unfolding held_def by auto

lemma held_in_cache: "held B s t \<Longrightarrow> c \<notin> B \<Longrightarrow> in_cache d z c t = in_cache d z c s"
  by (simp add: held_def in_cache_def)

lemma held_wf: "cache_wf s \<Longrightarrow> held B s t \<Longrightarrow> cache_wf t"
  by (erule cache_wf_same) (simp_all add: held_def same_block_def)

lemma fold_upt_Suc: "fold f [0..<Suc n] x = fold (\<lambda>j. f (Suc j)) [0..<n] (f 0 x)"
  by (simp add: upt_conv_Cons map_Suc_upt [symmetric] fold_map comp_def del: upt_Suc)

lemma read_maps_loads:
  "cache_wf s \<Longrightarrow> is_dev dev \<Longrightarrow> dev \<noteq> 0 \<Longrightarrow> i + n \<le> 8 \<Longrightarrow> k < length (super_block s) \<Longrightarrow>
     \<forall>j < n. in_cache dev (block + of_nat j) (mb (p + j)) s \<Longrightarrow>
     \<exists>t. read_maps n put i env dev k block s = Done (block + of_nat n) t \<and> held ((\<lambda>j. mb (p + j)) ` {..<n}) s t \<and>
       super_block t = (super_block s)[k := fold (\<lambda>j. put (i + j) (Some (mb (p + j)))) [0..<n] (super_block s ! k)]"
proof (induction n arbitrary: i block p s)
  case 0
  then show ?case by (simp add: held_empty)
next
  case (Suc n)
  let ?b = "mb p" and ?t = "supd k (put i (Some (mb p))) (hold (mb p) s)"
  have c: "in_cache dev block ?b s" using spec [OF Suc.prems(6), of 0] by simp
  note rd = hold_block(1) [OF Suc.prems(1-3) c, of env]
  have h: "held {?b} s ?t" by (simp add: held_def)
  have later: "in_cache dev (block + 1 + of_nat j) (mb (p + 1 + j)) s \<and> mb (p + 1 + j) \<noteq> ?b" if "j < n" for j
  proof -
    have "in_cache dev (block + of_nat (Suc j)) (mb (p + Suc j)) s" using Suc.prems(6) that by blast
    then have l: "in_cache dev (block + 1 + of_nat j) (mb (p + 1 + j)) s" by (simp add: ac_simps)
    have "j + 1 < 2 ^ 32" using that Suc.prems(4) by simp
    then have "unat (of_nat (j + 1) :: u32) = j + 1" by (rule unat_of_nat_u32)
    then have "(of_nat (j + 1) :: u32) \<noteq> 0" by auto
    then have "block + 1 + of_nat j \<noteq> block" by (simp add: add.assoc add.commute)
    with l c show ?thesis by (auto simp: in_cache_def)
  qed
  have "\<exists>u. read_maps n put (i + 1) env dev k (block + 1) ?t = Done (block + 1 + of_nat n) u \<and>
      held ((\<lambda>j. mb (p + 1 + j)) ` {..<n}) ?t u \<and>
      super_block u = (super_block ?t)[k := fold (\<lambda>j. put (i + 1 + j) (Some (mb (p + 1 + j)))) [0..<n] (super_block ?t ! k)]"
  proof (rule Suc.IH [OF held_wf [OF Suc.prems(1) h] Suc.prems(2,3)])
    show "\<forall>j < n. in_cache dev (block + 1 + of_nat j) (mb (p + 1 + j)) ?t"
      using later held_in_cache [OF h] by simp
  qed (use Suc.prems in simp_all)
  then obtain u where u: "read_maps n put (i + 1) env dev k (block + 1) ?t = Done (block + 1 + of_nat n) u"
    "held ((\<lambda>j. mb (p + 1 + j)) ` {..<n}) ?t u"
    "super_block u = (super_block ?t)[k := fold (\<lambda>j. put (i + 1 + j) (Some (mb (p + 1 + j)))) [0..<n] (super_block ?t ! k)]" by blast
  have "(\<lambda>j. mb (p + j)) ` {..<Suc n} = {?b} \<union> (\<lambda>j. mb (p + 1 + j)) ` {..<n}"
    by (auto simp: lessThan_Suc_eq_insert_0 image_iff)
  moreover have "{?b} \<inter> (\<lambda>j. mb (p + 1 + j)) ` {..<n} = {}" using later by fastforce
  ultimately have "held ((\<lambda>j. mb (p + j)) ` {..<Suc n}) s u" using held_more [OF h u(2)] by (simp only:)
  moreover have "super_block u = (super_block s)[k := fold (\<lambda>j. put (i + j) (Some (mb (p + j)))) [0..<Suc n] (super_block s ! k)]"
    unfolding fold_upt_Suc u(3) using Suc.prems(5) by (simp add: supd_def)
  moreover have "read_maps (Suc n) put i env dev k block s = Done (block + of_nat (Suc n)) u"
    using u(1) Suc.prems(4) by (simp add: rd ac_simps)
  ultimately show ?case by blast
qed

lemma fold_slots: "n \<le> length xs \<Longrightarrow> fold (\<lambda>j ys. ys[j := g j]) [0..<n] xs = map g [0..<n] @ drop n xs"
proof (induction n)
  case (Suc n)
  then show ?case by (simp add: list_update_append Cons_nth_drop_Suc [symmetric])
qed simp

lemma fold_put_imap:
  "fold (\<lambda>j. put_imap (0 + j) (g j)) ns x = x\<lparr>s_imap := fold (\<lambda>j ys. ys[j := g j]) ns (s_imap x)\<rparr>"
  "fold (\<lambda>j. put_zmap (0 + j) (g j)) ns x = x\<lparr>s_zmap := fold (\<lambda>j ys. ys[j := g j]) ns (s_zmap x)\<rparr>"
  by (induction ns arbitrary: x) (simp_all add: put_imap_def put_zmap_def)

definition filled :: "(nat \<Rightarrow> nat) \<Rightarrow> nat \<Rightarrow> nat option list" where
  "filled mb n = map (\<lambda>j. Some (mb j)) [0..<n] @ replicate (8 - n) None"

text \<open>Both bitmaps are read into the cache, behind one another from block 2 on.\<close>

lemma both_maps_read:
  assumes wf: "cache_wf s" "is_dev dev" "dev \<noteq> 0" and k: "k < length (super_block s)" and x: "x = super_block s ! k"
    and ib: "ib \<le> 8" and zb: "zb \<le> 8" and here: "\<forall>j < ib + zb. in_cache dev (2 + of_nat j) (mb j) s"
  shows "\<exists>t1 t2. read_maps ib put_imap 0 env dev k 2 (supd k (\<lambda>x. x\<lparr>s_imap := replicate 8 None, s_zmap := replicate 8 None\<rparr>) s) =
      Done (2 + of_nat ib) t1 \<and> super_block t1 ! k = x\<lparr>s_imap := filled mb ib, s_zmap := replicate 8 None\<rparr> \<and>
    read_maps zb put_zmap 0 env dev k (2 + of_nat ib) t1 = Done (2 + of_nat ib + of_nat zb) t2 \<and>
    super_block t2 = (super_block s)[k := x\<lparr>s_imap := filled mb ib, s_zmap := filled (\<lambda>j. mb (ib + j)) zb\<rparr>] \<and>
    held (mb ` {..<ib + zb}) s t2"
proof -
  let ?s = "supd k (\<lambda>x. x\<lparr>s_imap := replicate 8 None, s_zmap := replicate 8 None\<rparr>) s"
  have h0: "held {} s ?s" by (simp add: held_def)
  have x0: "super_block ?s ! k = x\<lparr>s_imap := replicate 8 None, s_zmap := replicate 8 None\<rparr>" using k x by simp
  obtain t1 where t1: "read_maps ib put_imap 0 env dev k 2 ?s = Done (2 + of_nat ib) t1"
    "held ((\<lambda>j. mb (0 + j)) ` {..<ib}) ?s t1"
    "super_block t1 = (super_block ?s)[k := fold (\<lambda>j. put_imap (0 + j) (Some (mb (0 + j)))) [0..<ib] (super_block ?s ! k)]"
    using read_maps_loads [OF held_wf [OF wf(1) h0] wf(2,3), of 0 ib k 2 mb 0 put_imap env] here k ib
      held_in_cache [OF h0] by auto
  have x1: "super_block t1 ! k = x\<lparr>s_imap := filled mb ib, s_zmap := replicate 8 None\<rparr>"
    unfolding t1(3) fold_put_imap x0 using k ib by (simp add: fold_slots filled_def)
  have "super_block t1 = (super_block s)[k := super_block t1 ! k]" unfolding t1(3) using k by (simp add: supd_def)
  then have u1: "super_block t1 = (super_block s)[k := x\<lparr>s_imap := filled mb ib, s_zmap := replicate 8 None\<rparr>]"
    unfolding x1 .
  have l1: "k < length (super_block t1)" using k by (simp add: t1(3))
  have apart: "mb j \<noteq> mb i" if "j < ib + zb" "i < ib + zb" "i \<noteq> j" for i j
  proof -
    have "unat (of_nat i :: u32) = i" "unat (of_nat j :: u32) = j" using that ib zb by (simp_all add: unat_of_nat_u32)
    then have "(2 + of_nat j :: u32) \<noteq> 2 + of_nat i" using that(3) by (metis add_left_cancel)
    with here that show ?thesis by (metis in_cache_def)
  qed
  have h1: "held (mb ` {..<ib}) s t1" using held_more [OF h0 t1(2)] by simp
  have "in_cache dev (2 + of_nat ib + of_nat j) (mb (ib + j)) t1" if "j < zb" for j
  proof -
    have "mb (ib + j) \<notin> mb ` {..<ib}" using that apart by fastforce
    moreover have "in_cache dev (2 + of_nat (ib + j)) (mb (ib + j)) s" using spec [OF here, of "ib + j"] that by simp
    ultimately show ?thesis by (simp add: held_in_cache [OF h1] add.assoc)
  qed
  then obtain t2 where t2: "read_maps zb put_zmap 0 env dev k (2 + of_nat ib) t1 = Done (2 + of_nat ib + of_nat zb) t2"
    "held ((\<lambda>j. mb (ib + j)) ` {..<zb}) t1 t2"
    "super_block t2 = (super_block t1)[k := fold (\<lambda>j. put_zmap (0 + j) (Some (mb (ib + j)))) [0..<zb] (super_block t1 ! k)]"
    using read_maps_loads [OF held_wf [OF wf(1) h1] wf(2,3), of 0 zb k "2 + of_nat ib" mb ib put_zmap env] l1 zb by auto
  have x2: "super_block t2 = (super_block s)[k := x\<lparr>s_imap := filled mb ib, s_zmap := filled (\<lambda>j. mb (ib + j)) zb\<rparr>]"
    unfolding t2(3) fold_put_imap x1 using zb by (simp add: u1 fold_slots filled_def)
  have ivl: "{..<ib + zb} = {..<ib} \<union> (\<lambda>j. ib + j) ` {..<zb}"
  proof -
    have "x \<in> (\<lambda>j. ib + j) ` {..<zb}" if "x < ib + zb" "\<not> x < ib" for x
      by (rule image_eqI [of _ _ "x - ib"]) (use that in auto)
    then show ?thesis by fastforce
  qed
  have "mb ` {..<ib} \<union> (\<lambda>j. mb (ib + j)) ` {..<zb} = mb ` {..<ib + zb}"
    unfolding ivl image_Un image_image ..
  moreover have "mb ` {..<ib} \<inter> (\<lambda>j. mb (ib + j)) ` {..<zb} = {}" using apart by fastforce
  ultimately have "held (mb ` {..<ib + zb}) s t2" using held_more [OF h1 t2(2)] by simp
  with t1(1) x1 t2(1) x2 show ?thesis by blast
qed

lemma load_maps_loads:
  assumes wf: "cache_wf s" "is_dev dev" "dev \<noteq> 0" and k: "k < length (super_block s)" and x: "x = super_block s ! k"
    and ib: "ib = unat (s_imap_blocks x)" "0 < ib" "ib \<le> 8" and zb: "zb = unat (s_zmap_blocks x)" "0 < zb" "zb \<le> 8"
    and here: "\<forall>j < ib + zb. in_cache dev (2 + of_nat j) (mb j) s"
  shows "\<exists>t. load_maps env dev k s = Done (Some k) t \<and> cache_wf t \<and>
    super_block t = (super_block s)[k := x\<lparr>s_imap := filled mb ib, s_zmap := filled (\<lambda>j. mb (ib + j)) zb, s_lock := 0\<rparr>] \<and>
    bufs t = (\<lambda>c. if c \<in> mb ` {..<ib + zb} then (bufs s c)\<lparr>b_count := b_count (bufs s c) + 1\<rparr> else bufs s c) \<and>
    bmem t = (\<lambda>a. if a = b_data (bufs s (mb 0)) \<or> a = b_data (bufs s (mb ib)) then bmem s a OR 1 else bmem s a)"
proof -
  let ?s = "supd k (\<lambda>x. x\<lparr>s_imap := replicate 8 None, s_zmap := replicate 8 None\<rparr>) s"
  have x0: "super_block ?s ! k = x\<lparr>s_imap := replicate 8 None, s_zmap := replicate 8 None\<rparr>" using k x by simp
  obtain t1 t2 where t1: "read_maps ib put_imap 0 env dev k 2 ?s = Done (2 + of_nat ib) t1"
    and x1: "super_block t1 ! k = x\<lparr>s_imap := filled mb ib, s_zmap := replicate 8 None\<rparr>"
    and t2: "read_maps zb put_zmap 0 env dev k (2 + of_nat ib) t1 = Done (2 + of_nat ib + of_nat zb) t2"
    and x2: "super_block t2 = (super_block s)[k := x\<lparr>s_imap := filled mb ib, s_zmap := filled (\<lambda>j. mb (ib + j)) zb\<rparr>]"
    and h2: "held (mb ` {..<ib + zb}) s t2"
    using both_maps_read [OF wf k x ib(3) zb(3) here, of env] by blast
  let ?m = "\<lambda>a. if a = b_data (bufs s (mb 0)) \<or> a = b_data (bufs s (mb ib)) then bmem s a OR 1 else bmem s a"
  let ?y = "x\<lparr>s_imap := filled mb ib, s_zmap := filled (\<lambda>j. mb (ib + j)) zb\<rparr>" and ?u = "free_super k (t2\<lparr>bmem := ?m\<rparr>)"
  have y: "super_block t2 ! k = ?y" using k by (simp add: x2)
  have b2: "bmem t2 = bmem s" "b_data (bufs t2 c) = b_data (bufs s c)" for c using h2 by (simp_all add: held_def)
  have first: "filled mb ib ! 0 = Some (mb 0)" "filled (\<lambda>j. mb (ib + j)) zb ! 0 = Some (mb ib)"
    using ib(2) zb(2) by (simp_all add: filled_def nth_append)
  have "kbind (reserve_first (s_imap (super_block t2 ! k) ! 0) t2) (\<lambda>_ s.
      kbind (reserve_first (s_zmap (super_block s ! k) ! 0) s) (\<lambda>_ s. Done (Some k) (free_super k s))) = Done (Some k) ?u"
  proof -
    have "(bmem s)(b_data (bufs s (mb 0)) := bmem s (b_data (bufs s (mb 0))) OR 1,
        b_data (bufs s (mb ib)) := ((bmem s)(b_data (bufs s (mb 0)) := bmem s (b_data (bufs s (mb 0))) OR 1)) (b_data (bufs s (mb ib))) OR 1) = ?m"
      by (auto simp: fun_eq_iff or.assoc)
    then show ?thesis by (simp add: reserve_first_def y first Let_def b2)
  qed
  moreover have w: "(of_nat ib :: u32) = ucast (s_imap_blocks x)" "(of_nat zb :: u32) = ucast (s_zmap_blocks x)"
    by (simp_all add: ib(1) zb(1))
  ultimately have run: "load_maps env dev k s = Done (Some k) ?u"
    unfolding load_maps_def Let_def x0 using x1 y t1 t2
    by (simp add: ib(1) [symmetric] zb(1) [symmetric] w del: fs_upd_simps)
  have wk: "only_woken (supd k (\<lambda>x. x\<lparr>s_lock := 0\<rparr>) (t2\<lparr>bmem := ?m\<rparr>)) ?u"
    unfolding free_super_def by (rule only_woken_wake_up)
  note d = only_wokenD [OF wk]
  have "cache_wf t2" by (rule held_wf [OF wf(1) h2])
  then have "cache_wf (supd k (\<lambda>x. x\<lparr>s_lock := 0\<rparr>) (t2\<lparr>bmem := ?m\<rparr>))" by (rule cache_wf_same) simp_all
  then have "cache_wf ?u" by (rule cache_wf_same_tables [OF _ only_woken_same_tables [OF wk]])
  moreover have "bufs ?u = (\<lambda>c. if c \<in> mb ` {..<ib + zb} then (bufs s c)\<lparr>b_count := b_count (bufs s c) + 1\<rparr> else bufs s c)"
    using h2 by (auto simp: d held_def)
  moreover have "super_block ?u = (super_block s)[k := x\<lparr>s_imap := filled mb ib, s_zmap := filled (\<lambda>j. mb (ib + j)) zb, s_lock := 0\<rparr>]"
    using k by (simp add: d x2)
  moreover have "bmem ?u = ?m" by (simp add: d)
  ultimately show ?thesis using run by blast
qed

lemma free_slot_free: "free_slot s = Some k \<Longrightarrow> k < NR_SUPER \<and> s_dev (super_block s ! k) = 0"
  by (auto simp: free_slot_def find_Some_iff)

text \<open>The entry that \<open>read_super\<close> fills from the super block in buffer \<open>b\<close>.\<close>

definition loaded_super :: "u32 \<Rightarrow> nat \<Rightarrow> nat \<Rightarrow> 'a fs_state_scheme \<Rightarrow> super_block" where
  "loaded_super dev b k s = load_dsuper (bmem s) (b_data (bufs s b))
     ((super_block s ! k)\<lparr>s_dev := ucast dev, s_isup := None, s_imount := None, s_time := 0, s_rd_only := 0, s_dirt := 0\<rparr>)"

lemma load_dsuper_lock: "load_dsuper m a (x\<lparr>s_lock := v\<rparr>) = (load_dsuper m a x)\<lparr>s_lock := v\<rparr>"
  by (simp add: load_dsuper_def)

lemma read_super_starts:
  assumes wf: "cache_wf s" "is_dev dev" "dev \<noteq> 0" and l: "length (super_block s) = NR_SUPER"
    and k: "find_super dev s = None" "free_slot s = Some k" "s_lock (super_block s ! k) = 0" and b: "in_cache dev 1 b s"
  shows "\<exists>u. only_woken (s\<lparr>super_block := (super_block s)[k := (loaded_super dev b k s)\<lparr>s_lock := 1\<rparr>]\<rparr>) u \<and>
    read_super env dev s = (if s_magic (loaded_super dev b k s) \<noteq> SUPER_MAGIC then drop_super k u else load_maps env dev k u)"
proof -
  let ?i = "\<lambda>x. x\<lparr>s_dev := ucast dev, s_isup := None, s_imount := None, s_time := 0, s_rd_only := 0, s_dirt := 0\<rparr>"
  let ?t = "s\<lparr>super_block := (super_block s)[k := (?i (super_block s ! k))\<lparr>s_lock := 1\<rparr>]\<rparr>"
  let ?v = "s\<lparr>super_block := (super_block s)[k := (loaded_super dev b k s)\<lparr>s_lock := 1\<rparr>]\<rparr>"
  have kl: "k < length (super_block s)" using free_slot_free [OF k(2)] l by simp
  have g: "get_super env dev s = Done None s" using k(1) wf(3) by (simp add: get_super_def)
  have lk: "lock_super env k (supd k ?i s) = Done () ?t" using k(3) kl by (simp add: lock_super_def supd_def)
  have t: "cache_wf ?t" "in_cache dev 1 b ?t" using b by (auto intro: cache_wf_same [OF wf(1)] simp: in_cache_def)
  have v: "cache_wf ?v" "in_cache dev 1 b ?v" using b by (auto intro: cache_wf_same [OF wf(1)] simp: in_cache_def)
  have load: "supd k (load_dsuper (bmem s) (b_data (bufs s b))) (bupd b (\<lambda>h. h\<lparr>b_count := b_count h + 1\<rparr>) ?t) =
      bupd b (\<lambda>h. h\<lparr>b_count := b_count h + 1\<rparr>) ?v"
    using kl by (simp add: supd_def bupd_def loaded_super_def load_dsuper_lock)
  have "super_block (wake_up (Some Buffer_wait) ?v) ! k = (loaded_super dev b k s)\<lparr>s_lock := 1\<rparr>" using kl by simp
  then have "read_super env dev s = (if s_magic (loaded_super dev b k s) \<noteq> SUPER_MAGIC
      then drop_super k (wake_up (Some Buffer_wait) ?v) else load_maps env dev k (wake_up (Some Buffer_wait) ?v))"
    unfolding read_super_def using wf(3) load by (simp add: g k(2) lk hold_block [OF t(1) wf(2,3) t(2)] hold_block(2) [OF v(1) wf(2,3) v(2)])
  then show ?thesis using only_woken_wake_up by blast
qed

section \<open>Properties\<close>

text \<open>C13: read_super of a device that has no super block in memory yet, with a free and unlocked entry and block 1 of
  the device in the cache, whatever this block holds: the entry is filled from its first 18 bytes. A wrong magic
  number then gives no super block and leaves the entry free and unlocked, and no buffer and no byte of the cache
  changes. With the right one, and if it announces one to eight blocks of each bitmap and these blocks, from
  block 2 on, are in the cache, the entry is returned, its slots hold the buffers of the two bitmaps in order
  and nothing else, each of these buffers has one user more, and bit 0 of both bitmaps is taken; no other byte in
  the cache changes.\<close>

theorem read_super_loads:
  assumes wf: "cache_wf s" "is_dev dev" "dev \<noteq> 0" and l: "length (super_block s) = NR_SUPER"
    and k: "find_super dev s = None" "free_slot s = Some k" "s_lock (super_block s ! k) = 0" and b: "in_cache dev 1 b s"
    and d: "d = b_data (bufs s b)" and x: "x = (super_block s ! k)\<lparr>s_ninodes := load16 (bmem s) d, s_nzones := load16 (bmem s) (d + 2),
      s_imap_blocks := load16 (bmem s) (d + 4), s_zmap_blocks := load16 (bmem s) (d + 6), s_firstdatazone := load16 (bmem s) (d + 8),
      s_log_zone_size := load16 (bmem s) (d + 10), s_max_size := load32 (bmem s) (d + 12), s_magic := load16 (bmem s) (d + 16),
      s_dev := ucast dev, s_isup := None, s_imount := None, s_time := 0, s_rd_only := 0, s_dirt := 0\<rparr>"
    "ib = unat (s_imap_blocks x)" "zb = unat (s_zmap_blocks x)"
  shows "(s_magic x \<noteq> SUPER_MAGIC \<longrightarrow> (\<exists>t. read_super env dev s = Done None t \<and> cache_wf t \<and>
      super_block t = (super_block s)[k := x\<lparr>s_dev := 0, s_lock := 0\<rparr>] \<and> bufs t = bufs s \<and> bmem t = bmem s)) \<and>
    (s_magic x = SUPER_MAGIC \<and> 0 < ib \<and> ib \<le> 8 \<and> 0 < zb \<and> zb \<le> 8 \<and> (\<forall>j < ib + zb. in_cache dev (2 + of_nat j) (mb j) s) \<longrightarrow>
      (\<exists>t. read_super env dev s = Done (Some k) t \<and> cache_wf t \<and>
        super_block t = (super_block s)[k := x\<lparr>s_imap := filled mb ib, s_zmap := filled (\<lambda>j. mb (ib + j)) zb, s_lock := 0\<rparr>] \<and>
        bufs t = (\<lambda>c. if c \<in> mb ` {..<ib + zb} then (bufs s c)\<lparr>b_count := b_count (bufs s c) + 1\<rparr> else bufs s c) \<and>
        bmem t = (\<lambda>a. if a = b_data (bufs s (mb 0)) \<or> a = b_data (bufs s (mb ib)) then bmem s a OR 1 else bmem s a)))"
proof -
  have ld: "loaded_super dev b k s = x" by (simp add: loaded_super_def load_dsuper_def d x(1))
  let ?v = "s\<lparr>super_block := (super_block s)[k := x\<lparr>s_lock := 1\<rparr>]\<rparr>"
  obtain u where u: "only_woken ?v u"
    "read_super env dev s = (if s_magic x \<noteq> SUPER_MAGIC then drop_super k u else load_maps env dev k u)"
    using read_super_starts [OF wf l k b] unfolding ld by blast
  note w = only_wokenD [OF u(1)]
  have kl: "k < length (super_block s)" using free_slot_free [OF k(2)] l by simp
  have "cache_wf ?v" by (rule cache_wf_same [OF wf(1)]) simp_all
  then have wfu: "cache_wf u" by (rule cache_wf_same_tables [OF _ only_woken_same_tables [OF u(1)]])
  show ?thesis
  proof (intro conjI impI)
    assume m: "s_magic x = SUPER_MAGIC \<and> 0 < ib \<and> ib \<le> 8 \<and> 0 < zb \<and> zb \<le> 8 \<and> (\<forall>j < ib + zb. in_cache dev (2 + of_nat j) (mb j) s)"
    let ?x = "x\<lparr>s_lock := 1\<rparr>"
    have h: "\<forall>j < ib + zb. in_cache dev (2 + of_nat j) (mb j) u" using m by (simp add: in_cache_def w)
    have y: "k < length (super_block u)" "?x = super_block u ! k" "ib = unat (s_imap_blocks ?x)" "zb = unat (s_zmap_blocks ?x)"
      using kl x(2,3) by (simp_all add: w)
    have n: "0 < ib" "ib \<le> 8" "0 < zb" "zb \<le> 8" using m by simp_all
    obtain t where "load_maps env dev k u = Done (Some k) t" "cache_wf t"
      "super_block t = (super_block u)[k := ?x\<lparr>s_imap := filled mb ib, s_zmap := filled (\<lambda>j. mb (ib + j)) zb, s_lock := 0\<rparr>]"
      "bufs t = (\<lambda>c. if c \<in> mb ` {..<ib + zb} then (bufs u c)\<lparr>b_count := b_count (bufs u c) + 1\<rparr> else bufs u c)"
      "bmem t = (\<lambda>a. if a = b_data (bufs u (mb 0)) \<or> a = b_data (bufs u (mb ib)) then bmem u a OR 1 else bmem u a)"
      using load_maps_loads [OF wfu wf(2,3) y(1-3) n(1,2) y(4) n(3,4) h, of env] by blast
    then show "\<exists>t. read_super env dev s = Done (Some k) t \<and> cache_wf t \<and>
        super_block t = (super_block s)[k := x\<lparr>s_imap := filled mb ib, s_zmap := filled (\<lambda>j. mb (ib + j)) zb, s_lock := 0\<rparr>] \<and>
        bufs t = (\<lambda>c. if c \<in> mb ` {..<ib + zb} then (bufs s c)\<lparr>b_count := b_count (bufs s c) + 1\<rparr> else bufs s c) \<and>
        bmem t = (\<lambda>a. if a = b_data (bufs s (mb 0)) \<or> a = b_data (bufs s (mb ib)) then bmem s a OR 1 else bmem s a)"
      using m u(2) by (intro exI [of _ t]) (simp add: w cong: if_cong)
  next
    assume m: "s_magic x \<noteq> SUPER_MAGIC"
    let ?w = "supd k (\<lambda>x. x\<lparr>s_lock := 0\<rparr>) (supd k (\<lambda>x. x\<lparr>s_dev := 0\<rparr>) u)" and ?t = "free_super k (supd k (\<lambda>x. x\<lparr>s_dev := 0\<rparr>) u)"
    have o: "only_woken ?w ?t" unfolding free_super_def by (rule only_woken_wake_up)
    have "cache_wf ?w" by (rule cache_wf_same [OF wfu]) simp_all
    then have "cache_wf ?t" by (rule cache_wf_same_tables [OF _ only_woken_same_tables [OF o]])
    moreover have "super_block ?w = (super_block s)[k := x\<lparr>s_dev := 0, s_lock := 0\<rparr>]"
      using kl by (simp add: supd_def w)
    ultimately show "\<exists>t. read_super env dev s = Done None t \<and> cache_wf t \<and>
      super_block t = (super_block s)[k := x\<lparr>s_dev := 0, s_lock := 0\<rparr>] \<and> bufs t = bufs s \<and> bmem t = bmem s"
      using m u(2) by (intro exI [of _ ?t]) (simp add: drop_super_def only_wokenD [OF o] w)
  qed
qed

text \<open>A cache that holds the super block and one block of each bitmap of device 0x301, with nothing mounted.\<close>

definition one_block :: fs_state where
  "one_block = final (take_buffer 0 0x301 1 fs_boot)"

definition two_blocks :: fs_state where
  "two_blocks = final (take_buffer 1 0x301 2 one_block)"

definition disk_cache :: fs_state where
  "disk_cache = final (take_buffer 2 0x301 3 two_blocks)"

lemma take_buffer_step:
  assumes "cache_wf s" "nr_buffers s = 3" "b < 3" "\<forall>c < 3. b_dev (bufs s c) \<noteq> 0 \<longrightarrow> b_blocknr (bufs s c) \<noteq> block"
  shows "cache_wf (final (take_buffer b 0x301 block s))" "nr_buffers (final (take_buffer b 0x301 block s)) = 3"
    "b_dev (bufs (final (take_buffer b 0x301 block s)) c) = (if c = b then 0x301 else b_dev (bufs s c))"
    "b_blocknr (bufs (final (take_buffer b 0x301 block s)) c) = (if c = b then block else b_blocknr (bufs s c))"
proof -
  have "\<forall>c \<in> hashed (bufs s) (nr_buffers s). \<not> (b_dev (bufs s c) = ucast (0x301 :: u32) \<and> b_blocknr (bufs s c) = block)"
    using assms(2,4) by (auto simp: hashed_def)
  from take_buffer_moves [OF assms(1) _ this, of b] assms(2,3)
  show "cache_wf (final (take_buffer b 0x301 block s))" "nr_buffers (final (take_buffer b 0x301 block s)) = 3"
    "b_dev (bufs (final (take_buffer b 0x301 block s)) c) = (if c = b then 0x301 else b_dev (bufs s c))"
    "b_blocknr (bufs (final (take_buffer b 0x301 block s)) c) = (if c = b then block else b_blocknr (bufs s c))"
    by (auto simp del: One_nat_def)
qed

lemma less_3: "(\<forall>c < 3. P c) \<longleftrightarrow> P 0 \<and> P 1 \<and> P (2 :: nat)"
  by (auto simp: less_Suc_eq numeral_3_eq_3 numeral_2_eq_2)

lemma disk_cache_facts:
  "cache_wf disk_cache" "nr_buffers disk_cache = 3"
  "c < 3 \<Longrightarrow> b_dev (bufs disk_cache c) = 0x301 \<and> b_blocknr (bufs disk_cache c) = of_nat (c + 1) \<and>
     b_data (bufs disk_cache c) = 0x1ffc00 - 1024 * of_nat c"
proof -
  have d0: "b_dev (bufs fs_boot 0) = 0" "b_dev (bufs fs_boot 1) = 0" "b_dev (bufs fs_boot 2) = 0" using fs_boot_wf(2) by simp_all
  note a = take_buffer_step [OF fs_boot_wf(1) fs_boot_facts(2), of 0 1, folded one_block_def]
  have a': "cache_wf one_block" "nr_buffers one_block = 3" "b_dev (bufs one_block c) = (if c = 0 then 0x301 else b_dev (bufs fs_boot c))"
    "b_blocknr (bufs one_block c) = (if c = 0 then 1 else b_blocknr (bufs fs_boot c))" for c
    by (rule a; use d0 in \<open>simp add: less_3\<close>)+
  note b = take_buffer_step [OF a'(1,2), of 1 2, folded two_blocks_def]
  have b': "cache_wf two_blocks" "nr_buffers two_blocks = 3" "b_dev (bufs two_blocks c) = (if c = 1 then 0x301 else b_dev (bufs one_block c))"
    "b_blocknr (bufs two_blocks c) = (if c = 1 then 2 else b_blocknr (bufs one_block c))" for c
    by (rule b; use d0 in \<open>simp add: less_3 a'\<close>)+
  note e = take_buffer_step [OF b'(1,2), of 2 3, folded disk_cache_def]
  have e': "cache_wf disk_cache" "nr_buffers disk_cache = 3" "b_dev (bufs disk_cache c) = (if c = 2 then 0x301 else b_dev (bufs two_blocks c))"
    "b_blocknr (bufs disk_cache c) = (if c = 2 then 3 else b_blocknr (bufs two_blocks c))" for c
    by (rule e; use d0 in \<open>simp add: less_3 a' b'\<close>)+
  show "cache_wf disk_cache" "nr_buffers disk_cache = 3" by (fact e')+
  have "\<forall>c < 3. b_data (bufs fs_boot c) = 0x1ffc00 - 1024 * of_nat c"
    unfolding less_3 by (simp add: fs_boot_def buffer_init_def buffer_init_loop_step buffer_init_loop_stop Let_def
      del: buffer_init_loop.simps)
  then have "\<forall>c < 3. b_data (bufs disk_cache c) = 0x1ffc00 - 1024 * of_nat c"
    by (simp add: disk_cache_def two_blocks_def one_block_def take_buffer_data)
  moreover have "\<forall>c < 3. b_dev (bufs disk_cache c) = 0x301 \<and> b_blocknr (bufs disk_cache c) = of_nat (c + 1)"
    unfolding less_3 by (simp add: e' b' a')
  ultimately show "c < 3 \<Longrightarrow> b_dev (bufs disk_cache c) = 0x301 \<and> b_blocknr (bufs disk_cache c) = of_nat (c + 1) \<and>
     b_data (bufs disk_cache c) = 0x1ffc00 - 1024 * of_nat c" by blast
qed

definition fs_disk :: fs_state where
  "fs_disk = disk_cache\<lparr>bufs := (\<lambda>c. (bufs disk_cache c)\<lparr>b_uptodate := 1, b_lock := 0, b_count := 0\<rparr>),
     super_block := replicate NR_SUPER null_super,
     bmem := (\<lambda>_. 0)(0x1ffc04 := 1, 0x1ffc06 := 1, 0x1ffc10 := 0x7F, 0x1ffc11 := 0x13)\<rparr>"

theorem read_super_loads_witness:
  "\<exists>t. read_super (\<lambda>s. s) 0x301 fs_disk = Done (Some 0) t \<and> s_dev (super_block t ! 0) = 0x301 \<and>
     s_imap (super_block t ! 0) ! 0 = Some 1 \<and> s_zmap (super_block t ! 0) ! 0 = Some 2 \<and> bmem t 0x1ff800 = 1"
proof -
  have wf: "cache_wf fs_disk" by (rule cache_wf_same [OF disk_cache_facts(1)]) (simp_all add: fs_disk_def same_block_def)
  have c: "in_cache 0x301 (of_nat (j + 1)) j fs_disk \<and> b_data (bufs fs_disk j) = 0x1ffc00 - 1024 * of_nat j" if "j < 3" for j
    using disk_cache_facts(2) disk_cache_facts(3) [OF that] that by (simp add: in_cache_def fs_disk_def)
  have s: "super_block fs_disk = replicate 8 null_super" by (simp add: fs_disk_def)
  let ?d = "b_data (bufs fs_disk 0)"
  define x where "x = (super_block fs_disk ! 0)\<lparr>s_ninodes := load16 (bmem fs_disk) ?d, s_nzones := load16 (bmem fs_disk) (?d + 2),
      s_imap_blocks := load16 (bmem fs_disk) (?d + 4), s_zmap_blocks := load16 (bmem fs_disk) (?d + 6),
      s_firstdatazone := load16 (bmem fs_disk) (?d + 8), s_log_zone_size := load16 (bmem fs_disk) (?d + 10),
      s_max_size := load32 (bmem fs_disk) (?d + 12), s_magic := load16 (bmem fs_disk) (?d + 16),
      s_dev := ucast (0x301 :: u32), s_isup := None, s_imount := None, s_time := 0, s_rd_only := 0, s_dirt := 0\<rparr>"
  have x: "x = null_super\<lparr>s_dev := 0x301, s_imap_blocks := 1, s_zmap_blocks := 1, s_magic := 0x137F\<rparr>"
    using c [of 0] by (simp add: x_def s load16_def load32_def) (simp add: fs_disk_def null_super_def)
  have k: "find_super 0x301 fs_disk = None" "free_slot fs_disk = Some 0" "s_lock (super_block fs_disk ! 0) = 0" "length (super_block fs_disk) = NR_SUPER"
    by (simp_all add: s find_super_def free_slot_def null_super_def upt_rec)
  have n: "1 = unat (s_imap_blocks x)" "1 = unat (s_zmap_blocks x)" "s_magic x = SUPER_MAGIC" by (simp_all add: x)
  have m: "\<forall>j < 1 + 1. in_cache 0x301 (2 + of_nat j) (Suc j) fs_disk"
    using c [of 1] c [of 2] by (auto simp: less_Suc_eq numeral_2_eq_2)
  have dv: "is_dev 0x301" "(0x301 :: u32) \<noteq> 0" by simp_all
  have "in_cache 0x301 1 0 fs_disk" using c [of 0] by simp
  note r = conjunct2 [OF read_super_loads [OF wf dv k(4,1,2,3) this refl x_def n(1,2), where mb = Suc and env = "\<lambda>s. s"]]
  have "\<exists>t. read_super (\<lambda>s. s) 0x301 fs_disk = Done (Some 0) t \<and> cache_wf t \<and>
        super_block t = (super_block fs_disk)[0 := x\<lparr>s_imap := filled Suc 1, s_zmap := filled (\<lambda>j. Suc (1 + j)) 1, s_lock := 0\<rparr>] \<and>
        bufs t = (\<lambda>c. if c \<in> Suc ` {..<1 + 1} then (bufs fs_disk c)\<lparr>b_count := b_count (bufs fs_disk c) + 1\<rparr> else bufs fs_disk c) \<and>
        bmem t = (\<lambda>a. if a = b_data (bufs fs_disk (Suc 0)) \<or> a = b_data (bufs fs_disk (Suc 1)) then bmem fs_disk a OR 1 else bmem fs_disk a)"
    by (rule mp [OF r]) (use m n(3) in simp)
  moreover have "bmem fs_disk 0x1ff800 = 0" by (simp add: fs_disk_def)
  ultimately show ?thesis using c [of 1] by (auto simp: x s filled_def null_super_def)
qed

end
