(* ===== verification/Setup.thy ===== *)
theory Setup
  imports Super
begin

text \<open>
  \<open>sys_setup\<close> of \<^verbatim>\<open>kernel/blk_drv/hd.c\<close>, the call by which the first user process
  brings the disks up: the geometry of the drives from the BIOS tables at \<open>bios\<close> in the memory \<open>m\<close> of the
  kernel, the partition tables from the disks, then the root file system. \<open>rd_load\<close> does nothing.
\<close>

section \<open>sys\_setup\<close>

definition read_geometry :: "mem \<Rightarrow> u32 \<Rightarrow> nat \<Rightarrow> 'a blk_state_scheme \<Rightarrow> 'a blk_state_scheme" where
  "read_geometry m bios drive s =
     s\<lparr>hd_info := (hd_info s)[drive :=
       \<lparr>head = ucast (m (bios + 2)), sect = ucast (m (bios + 14)), cyl = ucast (load16 m bios),
        wpcom = ucast (load16 m (bios + 5)), lzone = ucast (load16 m (bios + 12)), ctl = ucast (m (bios + 8))\<rparr>]\<rparr>"

definition whole_disk :: "nat \<Rightarrow> 'a blk_state_scheme \<Rightarrow> 'a blk_state_scheme" where
  "whole_disk i s =
     (let x = hd_info s ! i
      in s\<lparr>hd_parts := (hd_parts s)[i * 5 := \<lparr>start_sect = 0, nr_sects = head x * sect x * cyl x\<rparr>]\<rparr>)"

text \<open>One entry of \<open>struct partition\<close>: 16 bytes, \<open>start_sect\<close> at 8 and \<open>nr_sects\<close> at 12.\<close>

definition set_partition :: "u32 \<Rightarrow> nat \<Rightarrow> nat \<Rightarrow> 'a blk_state_scheme \<Rightarrow> 'a blk_state_scheme" where
  "set_partition p drive i s =
     (let a = p + 16 * of_nat (i - 1)
      in s\<lparr>hd_parts := (hd_parts s)[i + 5 * drive := \<lparr>start_sect = load32 (bmem s) (a + 8), nr_sects = load32 (bmem s) (a + 12)\<rparr>]\<rparr>)"

definition read_partitions :: "('a fs_state_scheme \<Rightarrow> 'a fs_state_scheme) \<Rightarrow> nat \<Rightarrow> 'a fs_state_scheme \<Rightarrow> ('a fs_state_scheme, unit) outcome" where
  "read_partitions env drive s =
     kbind (bread env (0x300 + of_nat drive * 5) 0 s) (\<lambda>bh s.
       case bh of
         None \<Rightarrow> panic '''' (printk ''Unable to read partition table of drive %d'' [of_nat drive] s)
       | Some b \<Rightarrow>
           let d = b_data (bufs s b)
           in if bmem s (d + 510) \<noteq> 0x55 \<or> bmem s (d + 511) \<noteq> 0xAA
              then panic '''' (printk ''Bad partition table on drive %d'' [of_nat drive] s)
              else brelse env (Some b) (fold (set_partition (d + 0x1BE) drive) [1, 2, 3, 4] s))"

primrec all_partitions :: "nat list \<Rightarrow> ('a fs_state_scheme \<Rightarrow> 'a fs_state_scheme) \<Rightarrow> 'a fs_state_scheme \<Rightarrow> ('a fs_state_scheme, unit) outcome" where
  "all_partitions [] env s = Done () s"
| "all_partitions (d # ds) env s = kbind (read_partitions env d s) (\<lambda>_ s. all_partitions ds env s)"

definition sys_setup :: "('a tty_state_scheme \<Rightarrow> 'a tty_state_scheme) \<Rightarrow> mem \<Rightarrow> u32 \<Rightarrow> 'a tty_state_scheme
    \<Rightarrow> ('a tty_state_scheme, u32) outcome" where
  "sys_setup env m bios s =
     (if \<not> callable s then Done (-1) s
      else
        let s = s\<lparr>callable := False\<rparr>;
            s = read_geometry m (bios + 16) 1 (read_geometry m bios 0 s);
            s = s\<lparr>NR_HD := if cyl (hd_info s ! 1) \<noteq> 0 then 2 else 1\<rparr>;
            s = fold whole_disk [0..<NR_HD s] s
        in kbind (all_partitions [0..<NR_HD s] env s) (\<lambda>_ s.
           let s = printk (if NR_HD s > 1 then ''Partition tables ok.'' else ''Partition table ok.'') [] s
           in kbind (mount_root env s) (\<lambda>_ s. Done 0 s)))"

section \<open>The partition table\<close>

text \<open>The four entries of the table in the block of buffer \<open>b\<close>.\<close>

definition partition_of :: "nat \<Rightarrow> 'a blk_state_scheme \<Rightarrow> nat \<Rightarrow> hd_struct" where
  "partition_of b s i = (let a = b_data (bufs s b) + 0x1BE + 16 * of_nat (i - 1)
     in \<lparr>start_sect = load32 (bmem s) (a + 8), nr_sects = load32 (bmem s) (a + 12)\<rparr>)"

lemma set_partitions:
  "fold (set_partition (b_data (bufs s b) + 0x1BE) drive) [1, 2, 3, 4] s = s\<lparr>hd_parts := (hd_parts s)
     [1 + 5 * drive := partition_of b s 1, 2 + 5 * drive := partition_of b s 2, 3 + 5 * drive := partition_of b s 3,
      4 + 5 * drive := partition_of b s 4]\<rparr>"
  by (simp add: set_partition_def partition_of_def Let_def)

lemma read_partitions_cached:
  assumes "cache_wf s" "drive < 2" "in_cache (0x300 + of_nat drive * 5) 0 b s"
    and "bmem s (b_data (bufs s b) + 510) = 0x55" "bmem s (b_data (bufs s b) + 511) = 0xAA"
  shows "read_partitions env drive s = Done () (wake_up (Some Buffer_wait) (s\<lparr>hd_parts := (hd_parts s)
     [1 + 5 * drive := partition_of b s 1, 2 + 5 * drive := partition_of b s 2, 3 + 5 * drive := partition_of b s 3,
      4 + 5 * drive := partition_of b s 4]\<rparr>))"
proof -
  let ?dev = "0x300 + of_nat drive * 5 :: u32" and ?h = "bupd b (\<lambda>h. h\<lparr>b_count := b_count h + 1\<rparr>)"
  have d: "is_dev ?dev" "?dev \<noteq> 0" using assms(2) by (auto simp: less_2_cases_iff)
  let ?p = "(hd_parts s)[1 + 5 * drive := partition_of b s 1, 2 + 5 * drive := partition_of b s 2, 3 + 5 * drive := partition_of b s 3,
      4 + 5 * drive := partition_of b s 4]"
  have f: "fold (set_partition (b_data (bufs s b) + 0x1BE) drive) [1, 2, 3, 4] (?h s) = ?h (s\<lparr>hd_parts := ?p\<rparr>)"
    using set_partitions [of "?h s" b drive] by (simp add: partition_of_def bupd_def Let_def)
  have "cache_wf (s\<lparr>hd_parts := ?p\<rparr>)" "in_cache ?dev 0 b (s\<lparr>hd_parts := ?p\<rparr>)"
    using assms(3) by (auto intro: cache_wf_same [OF assms(1)] simp: in_cache_def)
  from hold_block(2) [OF this(1) d this(2)] show ?thesis
    unfolding read_partitions_def hold_block(1) [OF assms(1) d assms(3)] kbind.simps Let_def
    using assms(4,5) f by simp
qed

text \<open>C28: sys_setup on a machine with one drive (the second BIOS table has no cylinders) whose first block is in the
  cache and carries the signature 0xAA55: the call is used up, the geometry of both drives is read from the two
  BIOS tables of 16 bytes (cylinders at 0, heads at 2, precompensation at 5, control byte at 8, landing zone at
  12, sectors at 14), there is one drive, its entry 0 covers the whole disk and the entries 1 to 4 are start and
  size from the partition table at 0x1BE of the block; beside tasks that are woken nothing else of the state
  changes before the root file system is mounted, and the call returns 0 after that. A second call is
  refused.\<close>

theorem sys_setup_reads_partitions:
  assumes "cache_wf s" "in_cache 0x300 0 b s" "length (hd_info s) = 2" "load16 m (bios + 16) = 0"
    and "bmem s (b_data (bufs s b) + 510) = 0x55" "bmem s (b_data (bufs s b) + 511) = 0xAA"
    and "x = map (\<lambda>p. \<lparr>head = ucast (m (p + 2)), sect = ucast (m (p + 14)), cyl = ucast (load16 m p),
      wpcom = ucast (load16 m (p + 5)), lzone = ucast (load16 m (p + 12)), ctl = ucast (m (p + 8))\<rparr>) [bios, bios + 16]"
    and "row = (\<lambda>i. let p = b_data (bufs s b) + 0x1BE + 16 * i
      in \<lparr>start_sect = load32 (bmem s) (p + 8), nr_sects = load32 (bmem s) (p + 12)\<rparr>)"
  shows "if callable s
    then \<exists>u. sys_setup env m bios s = kbind (mount_root env (printk ''Partition table ok.'' [] u)) (\<lambda>_ s. Done 0 s) \<and>
      only_woken (s\<lparr>callable := False, hd_info := x, NR_HD := 1, hd_parts := (hd_parts s)
        [0 := \<lparr>start_sect = 0, nr_sects = head (x ! 0) * sect (x ! 0) * cyl (x ! 0)\<rparr>,
         1 := row 0, 2 := row 1, 3 := row 2, 4 := row 3]\<rparr>) u
    else sys_setup env m bios s = Done (-1) s"
proof (cases "callable s")
  case True
  let ?w = "\<lparr>start_sect = 0, nr_sects = head (x ! 0) * sect (x ! 0) * cyl (x ! 0)\<rparr>"
  let ?s = "s\<lparr>callable := False, hd_info := x, NR_HD := 1, hd_parts := (hd_parts s)[0 := ?w]\<rparr>"
  let ?t = "s\<lparr>callable := False, hd_info := x, NR_HD := 1, hd_parts := (hd_parts s)
        [0 := ?w, 1 := partition_of b s 1, 2 := partition_of b s 2, 3 := partition_of b s 3, 4 := partition_of b s 4]\<rparr>"
  have x: "x = hd_info (read_geometry m (bios + 16) 1 (read_geometry m bios 0 s))"
    using assms(3) by (auto simp: assms(7) read_geometry_def length_Suc_conv numeral_2_eq_2 add.assoc)
  have parts: "partition_of b s 1 = row 0" "partition_of b s 2 = row 1" "partition_of b s 3 = row 2" "partition_of b s 4 = row 3"
    by (simp_all add: partition_of_def assms(8) Let_def)
  have c: "cyl (x ! 1) = 0" using assms(4) by (simp add: assms(7))
  have "cache_wf ?s" "in_cache (0x300 + of_nat 0 * 5) 0 b ?s"
    using assms(2) by (auto intro: cache_wf_same [OF assms(1)] simp: in_cache_def)
  from read_partitions_cached [OF this(1) _ this(2), of env] assms(5,6)
  have r: "read_partitions env 0 ?s = Done () (wake_up (Some Buffer_wait) ?t)" by (simp add: partition_of_def)
  have g: "read_geometry m (bios + 16) 1 (read_geometry m bios 0 (s\<lparr>callable := False\<rparr>)) = s\<lparr>callable := False, hd_info := x\<rparr>"
    unfolding x by (simp add: read_geometry_def)
  have w: "whole_disk 0 (s\<lparr>callable := False, hd_info := x, NR_HD := 1\<rparr>) = ?s" by (simp add: whole_disk_def Let_def)
  have n: "NR_HD ?t = 1" "NR_HD (wake_up (Some Buffer_wait) ?t) = NR_HD ?t" by (simp_all add: wake_up_def tupd_def)
  have one: "[0..<1] = [0 :: nat]" by simp
  have "sys_setup env m bios s = kbind (mount_root env (printk ''Partition table ok.'' [] (wake_up (Some Buffer_wait) ?t))) (\<lambda>_ s. Done 0 s)"
    unfolding sys_setup_def Let_def g using True c r w n by (simp add: one [simplified])
  with True only_woken_wake_up [of ?t "Some Buffer_wait"] show ?thesis unfolding parts [symmetric] by auto
qed (simp add: sys_setup_def)

text \<open>A machine whose cache holds block 0 of device 0x300, with one partition that starts at sector 1.\<close>

definition tty_cache :: tty_state where
  "tty_cache = final (buffer_init 0x1ff000 0x200000 tty_boot)"

definition tty_disk :: tty_state where
  "tty_disk = final (take_buffer 0 0x300 0 tty_cache)"

definition setup_boot :: tty_state where
  "setup_boot = tty_disk\<lparr>bufs := (\<lambda>c. (bufs tty_disk c)\<lparr>b_uptodate := 1, b_lock := 0, b_count := 0\<rparr>), callable := True,
     hd_info := [disk_info, disk_info], hd_parts := replicate 10 \<lparr>start_sect = 0, nr_sects = 0\<rparr>,
     bmem := (\<lambda>_. 0)(0x1ffdfe := 0x55, 0x1ffdff := 0xAA, 0x1ffdc6 := 1)\<rparr>"

lemma setup_boot_cache: "cache_wf setup_boot" "in_cache 0x300 0 0 setup_boot" "b_data (bufs setup_boot 0) = 0x1ffc00"
proof -
  have n: "nr_buffers tty_boot = 0" by (simp add: tty_boot_def fs_state.defs)
  have run: "buffer_init 0x1ff000 0x200000 tty_boot = Done () tty_cache" "nr_buffers tty_cache = 3" "b_data (bufs tty_cache 0) = 0x1ffc00"
    by (simp_all add: tty_cache_def n buffer_init_def buffer_init_loop_step buffer_init_loop_stop Let_def del: buffer_init_loop.simps)
  have wf: "cache_wf tty_cache" and free: "\<forall>b < 3. b_dev (bufs tty_cache b) = 0"
    using buffer_init_wf [OF run(1) n] run(2) by auto
  have "\<forall>c \<in> hashed (bufs tty_cache) (nr_buffers tty_cache). \<not> (b_dev (bufs tty_cache c) = ucast (0x300 :: u32) \<and> b_blocknr (bufs tty_cache c) = 0)"
    using free by (auto simp: hashed_def run(2))
  from take_buffer_moves [OF wf _ this, of 0] run(2)
  have t: "cache_wf tty_disk" "nr_buffers tty_disk = 3" "b_dev (bufs tty_disk 0) = 0x300" "b_blocknr (bufs tty_disk 0) = 0"
    by (auto simp: tty_disk_def)
  show "cache_wf setup_boot" by (rule cache_wf_same [OF t(1)]) (simp_all add: setup_boot_def same_block_def)
  show "in_cache 0x300 0 0 setup_boot" using t(2-4) by (simp add: in_cache_def setup_boot_def)
  show "b_data (bufs setup_boot 0) = 0x1ffc00" using run(3) by (simp add: setup_boot_def tty_disk_def take_buffer_data)
qed

theorem sys_setup_reads_partitions_witness:
  "\<exists>u. sys_setup (\<lambda>s. s) ((\<lambda>_. 0)(0x90082 := 4)) 0x90080 setup_boot =
       kbind (mount_root (\<lambda>s. s) (printk ''Partition table ok.'' [] u)) (\<lambda>_ s. Done 0 s) \<and>
     \<not> callable u \<and> head (hd_info u ! 0) = 4 \<and> start_sect (hd_parts u ! 1) = 1"
proof -
  let ?m = "(\<lambda>_ :: u32. 0 :: u8)(0x90082 := 4)"
  define x where "x = map (\<lambda>p. \<lparr>head = ucast (?m (p + 2)), sect = ucast (?m (p + 14)), cyl = ucast (load16 ?m p),
      wpcom = ucast (load16 ?m (p + 5)), lzone = ucast (load16 ?m (p + 12)), ctl = ucast (?m (p + 8))\<rparr>) [0x90080 :: u32, 0x90080 + 16]"
  define row where "row = (\<lambda>i. let p = b_data (bufs setup_boot 0) + 0x1BE + 16 * i
      in \<lparr>start_sect = load32 (bmem setup_boot) (p + 8), nr_sects = load32 (bmem setup_boot) (p + 12)\<rparr>)"
  have c: "callable setup_boot" "length (hd_info setup_boot) = 2" "length (hd_parts setup_boot) = 10" by (simp_all add: setup_boot_def)
  have sig: "bmem setup_boot (b_data (bufs setup_boot 0) + 510) = 0x55" "bmem setup_boot (b_data (bufs setup_boot 0) + 511) = 0xAA"
    unfolding setup_boot_cache(3) by (simp_all add: setup_boot_def)
  have one: "load16 ?m (0x90080 + 16) = 0" by (simp add: load16_def)
  obtain u where u: "sys_setup (\<lambda>s. s) ?m 0x90080 setup_boot = kbind (mount_root (\<lambda>s. s) (printk ''Partition table ok.'' [] u)) (\<lambda>_ s. Done 0 s)"
    "only_woken (setup_boot\<lparr>callable := False, hd_info := x, NR_HD := 1, hd_parts := (hd_parts setup_boot)
        [0 := \<lparr>start_sect = 0, nr_sects = head (x ! 0) * sect (x ! 0) * cyl (x ! 0)\<rparr>,
         1 := row 0, 2 := row 1, 3 := row 2, 4 := row 3]\<rparr>) u"
    using sys_setup_reads_partitions [OF setup_boot_cache(1,2) c(2) one sig x_def row_def, of "\<lambda>s. s"] unfolding if_P [OF c(1)] by blast
  have "start_sect (row 0) = 1"
    unfolding row_def Let_def setup_boot_cache(3) by (simp add: setup_boot_def load32_def load16_def)
  moreover obtain tm w where "u = setup_boot\<lparr>callable := False, hd_info := x, NR_HD := 1, hd_parts := (hd_parts setup_boot)
        [0 := \<lparr>start_sect = 0, nr_sects = head (x ! 0) * sect (x ! 0) * cyl (x ! 0)\<rparr>,
         1 := row 0, 2 := row 1, 3 := row 2, 4 := row 3],
         tmem := tm, waitq := w\<rparr>"
    using u(2) by (auto simp: only_woken_def)
  moreover have "head (x ! 0) = 4" by (simp add: x_def)
  ultimately have "\<not> callable u \<and> head (hd_info u ! 0) = 4 \<and> start_sect (hd_parts u ! 1) = 1" using c(3) by simp
  with u(1) show ?thesis by blast
qed

end
