(* ===== verification/File_Frame.thy ===== *)
theory File_Frame
  imports Files Setup
begin

text \<open>
  Invariants through the file system calls: the frame of \<^theory_text>\<open>Inode_Frame\<close> carried on
  through \<open>bmap\<close>, the search in directories, the walk along a path, open files, \<open>read\<close>,
  \<open>read_super\<close> and the partition tables, sleeping included.
\<close>

locale file_frame = inode_frame I + mm: mm_frame I for I :: "'a fs_state_scheme \<Rightarrow> bool" +
  assumes I_file_table: "I s \<Longrightarrow> I (s\<lparr>file_table := ft\<rparr>)"
    and I_hd_info: "I s \<Longrightarrow> I (s\<lparr>hd_info := hi\<rparr>)"
    and I_hd_parts: "I s \<Longrightarrow> I (s\<lparr>hd_parts := hp\<rparr>)"
    and I_NR_HD: "I s \<Longrightarrow> I (s\<lparr>NR_HD := n\<rparr>)"
    and I_callable: "I s \<Longrightarrow> I (s\<lparr>callable := c\<rparr>)"
begin

section \<open>Blocks of a file\<close>

lemma I_new_block: "I s \<Longrightarrow> I (final (new_block dev s))"
  by (simp add: new_block_def)

lemma I_make_zone: "I s \<Longrightarrow> I (final (make_zone i k create s))"
  unfolding make_zone_def Let_def
  by (auto intro!: kbind_keeps [where I = I] I_new_block simp: I_iupd)

lemma I_zone_entry: "I s \<Longrightarrow> I (final (zone_entry i b k create s))"
  unfolding zone_entry_def Let_def
  by (auto intro!: kbind_keeps [where I = I] I_new_block simp: I_dirt I_bmem)

lemma I_bmap:
  assumes env: "\<And>s. I s \<Longrightarrow> I (env s)" and "I s"
  shows "I (final (bmap env i block s))"
  unfolding bmap_def bmap_block_def using assms(2)
  by (auto intro!: kbind_keeps [where I = I]
      simp: I_make_zone I_zone_entry I_bread I_brelse I_panic env Let_def split: option.split)

section \<open>Names and paths\<close>

lemma I_match_loop: "I s \<Longrightarrow> I (final (match_loop n name p s))"
  by (induction n arbitrary: name p s) (auto intro!: kbind_keeps [where I = I] simp: mm.I_get_fs_byte)

lemma I_match: "I s \<Longrightarrow> I (final (match len name de s))"
  by (simp add: match_def I_match_loop)

lemma I_next_dir_block:
  assumes env: "\<And>s. I s \<Longrightarrow> I (env s)" and "I s"
  shows "I (final (next_dir_block env dir i b s))"
  unfolding next_dir_block_def using assms(2)
  by (auto intro!: kbind_keeps [where I = I] simp: I_bmap I_bread I_brelse env split: option.split)

lemma I_find_entry_loop:
  assumes env: "\<And>s. I s \<Longrightarrow> I (env s)"
  shows "I s \<Longrightarrow> I (final (find_entry_loop n env dir name namelen entries i bh de s))"
proof (induction n arbitrary: i bh de s)
  case (Suc n)
  have "I (final (kbind (if de \<ge> b_data (bufs s b) + 1024 then next_dir_block env dir i b s else Done (Some (b, de)) s) (\<lambda>r s.
      case r of None \<Rightarrow> find_entry_loop n env dir name namelen entries (i + DIR_ENTRIES_PER_BLOCK) None de s
      | Some (b, de) \<Rightarrow> kbind (match namelen name de s) (\<lambda>same s. if same then Done (Some (b, de)) s
          else find_entry_loop n env dir name namelen entries (i + 1) (Some b) (de + 16) s))))" for b
    by (rule kbind_keeps [where I = I])
      (auto intro!: kbind_keeps [where I = I] simp: I_next_dir_block I_match env Suc split: option.split)
  then show ?case using Suc.prems
    by (auto intro!: kbind_keeps [where I = I] simp: I_brelse env split: option.split)
qed simp

lemma I_is_dots: "I s \<Longrightarrow> I (final (is_dots name namelen s))"
  unfolding is_dots_def by (auto intro!: kbind_keeps [where I = I] simp: mm.I_get_fs_byte)

lemma I_leave_root:
  assumes env: "\<And>s. I s \<Longrightarrow> I (env s)" and "I s"
  shows "I (final (leave_root env dir namelen s))"
  unfolding leave_root_def using assms(2)
  by (auto intro!: kbind_keeps [where I = I] simp: I_get_super I_iput I_iupd env split: option.split)

lemma I_find_entry:
  assumes env: "\<And>s. I s \<Longrightarrow> I (env s)" and "I s"
  shows "I (final (find_entry env dir name namelen s))"
  unfolding find_entry_def Let_def using assms(2)
  by (auto intro!: kbind_keeps [where I = I] simp: I_is_dots I_leave_root I_bread I_find_entry_loop env
      simp del: find_entry_loop.simps split: option.split prod.split)

lemma I_scan_name: "I s \<Longrightarrow> I (final (scan_name n pathname namelen s))"
  by (induction n arbitrary: pathname namelen s) (auto intro!: kbind_keeps [where I = I] simp: mm.I_get_fs_byte)

lemma I_scan_base: "I s \<Longrightarrow> I (final (scan_base n pathname basename s))"
  by (induction n arbitrary: pathname basename s) (auto intro!: kbind_keeps [where I = I] simp: mm.I_get_fs_byte)

lemma I_get_dir_loop:
  assumes env: "\<And>s. I s \<Longrightarrow> I (env s)"
  shows "I s \<Longrightarrow> I (final (get_dir_loop n env inode pathname s))"
proof (induction n arbitrary: inode pathname s)
  case (Suc n)
  then show ?case unfolding get_dir_loop.simps Let_def
    by (auto intro!: kbind_keeps [where I = I] simp: I_iput I_scan_name I_find_entry I_brelse I_iget env
        simp del: scan_name.simps split: option.split prod.split)
qed simp

lemma I_get_dir:
  assumes env: "\<And>s. I s \<Longrightarrow> I (env s)" and "I s"
  shows "I (final (get_dir env pathname s))"
  unfolding get_dir_def Let_def using assms(2)
  by (auto intro!: kbind_keeps [where I = I] simp: I_panic mm.I_get_fs_byte I_get_dir_loop I_iupd env
      simp del: get_dir_loop.simps split: option.split)

lemma I_dir_namei:
  assumes env: "\<And>s. I s \<Longrightarrow> I (env s)" and "I s"
  shows "I (final (dir_namei env pathname s))"
  unfolding dir_namei_def using assms(2)
  by (auto intro!: kbind_keeps [where I = I] simp: I_get_dir I_scan_base env
      simp del: scan_base.simps split: option.split prod.split)

lemma I_create_file:
  assumes env: "\<And>s. I s \<Longrightarrow> I (env s)" and "I s"
  shows "I (final (create_file env dir basename namelen flag mode s))"
  unfolding create_file_def new_inode_def using assms(2)
  by (auto intro!: kbind_keeps [where I = I] simp: I_iput env)

lemma I_open_existing:
  assumes env: "\<And>s. I s \<Longrightarrow> I (env s)" and "I s"
  shows "I (final (open_existing env dir b de flag s))"
  unfolding open_existing_def Let_def using assms(2)
  by (auto intro!: kbind_keeps [where I = I] simp: I_brelse I_iput I_iget env split: option.split)

lemma I_open_namei:
  assumes env: "\<And>s. I s \<Longrightarrow> I (env s)" and "I s"
  shows "I (final (open_namei env pathname flag mode s))"
  unfolding open_namei_def Let_def using assms(2)
  by (auto intro!: kbind_keeps [where I = I] simp: I_dir_namei I_iput I_find_entry I_create_file I_open_existing env
      split: option.split prod.split)

section \<open>Open files\<close>

lemma I_fupd: "I s \<Longrightarrow> I (fupd f g s)"
  by (simp add: fupd_def I_file_table)

lemma I_dupfd: "I s \<Longrightarrow> I (snd (dupfd fd arg s))"
  by (auto simp: dupfd_def I_fupd I_tupd split: option.split)

lemma I_sys_close:
  assumes env: "\<And>s. I s \<Longrightarrow> I (env s)" and "I s"
  shows "I (final (sys_close env fd s))"
  unfolding sys_close_def Let_def using assms(2)
  by (auto intro!: kbind_keeps [where I = I] simp: I_fupd I_tupd I_iput I_panic env split: option.split)

lemma I_put_block: "I s \<Longrightarrow> I (final (put_block n p buf s))"
  by (induction n arbitrary: p buf s) (auto intro!: kbind_keeps [where I = I] simp: mm.I_put_fs_byte)

lemma I_put_zeros: "I s \<Longrightarrow> I (final (put_zeros n buf s))"
  by (induction n arbitrary: buf s) (auto intro!: kbind_keeps [where I = I] simp: mm.I_put_fs_byte)

lemma I_position_block:
  assumes env: "\<And>s. I s \<Longrightarrow> I (env s)" and "I s"
  shows "I (final (position_block env inode filp s))"
  unfolding position_block_def using assms(2)
  by (auto intro!: kbind_keeps [where I = I] simp: I_bmap I_bread env split: option.split)

lemma I_copy_chunk:
  assumes env: "\<And>s. I s \<Longrightarrow> I (env s)" and "I s"
  shows "I (final (copy_chunk env filp bh nr n buf s))"
  unfolding copy_chunk_def Let_def using assms(2)
  by (auto intro!: kbind_keeps [where I = I] simp: I_fupd I_put_block I_put_zeros I_brelse env split: option.split)

lemma I_file_read_loop:
  assumes env: "\<And>s. I s \<Longrightarrow> I (env s)"
  shows "I s \<Longrightarrow> I (final (file_read_loop n env inode filp buf left s))"
proof (induction n arbitrary: buf left s)
  case (Suc n)
  then show ?case unfolding file_read_loop.simps Let_def
    by (auto intro!: kbind_keeps [where I = I] simp: I_position_block I_copy_chunk env split: option.split)
qed simp

lemma I_sys_read:
  assumes env: "\<And>s. I s \<Longrightarrow> I (env s)" and "I s"
  shows "I (final (sys_read env fd buf want s))"
  unfolding sys_read_def file_read_def Let_def using assms(2)
  by (auto intro!: kbind_keeps [where I = I] simp: I_file_read_loop I_iupd I_printk env
      simp del: file_read_loop.simps split: option.split)

section \<open>Super blocks and partition tables\<close>

lemma I_read_maps:
  assumes env: "\<And>s. I s \<Longrightarrow> I (env s)" and "is_dev dev"
  shows "I s \<Longrightarrow> I (final (read_maps n put i env dev k block s))"
proof (induction n arbitrary: i block s)
  case (Suc n)
  then show ?case unfolding read_maps.simps Let_def
    by (auto intro!: kbind_keeps [where I = I] simp: I_bread I_supd env assms(2))
qed simp

lemma I_release_slots:
  assumes env: "\<And>s. I s \<Longrightarrow> I (env s)"
  shows "I s \<Longrightarrow> I (final (release_slots is env slots k s))"
  by (induction "is" arbitrary: s) (auto intro!: kbind_keeps [where I = I] simp: I_brelse env)

lemma I_drop_super: "I s \<Longrightarrow> I (final (drop_super k s))"
  by (simp add: drop_super_def I_free_super I_supd)

lemma I_reserve_first: "I s \<Longrightarrow> I (final (reserve_first slot s))"
  by (simp add: reserve_first_def Let_def I_bmem split: option.split)

lemma I_load_maps:
  assumes env: "\<And>s. I s \<Longrightarrow> I (env s)" and "is_dev dev" "I s"
  shows "I (final (load_maps env dev k s))"
  unfolding load_maps_def Let_def
  by (auto intro!: kbind_keeps [where I = I] simp: I_read_maps I_release_slots I_drop_super I_reserve_first
      I_free_super I_supd env assms(2,3) simp del: release_slots.simps)

lemma I_read_super:
  assumes env: "\<And>s. I s \<Longrightarrow> I (env s)" and "is_dev dev" "I s"
  shows "I (final (read_super env dev s))"
  unfolding read_super_def
  by (auto intro!: kbind_keeps [where I = I] simp: I_get_super I_lock_super I_supd I_bread I_drop_super I_brelse
      I_load_maps env assms(2,3) split: option.split)

lemma I_count_free: "I s \<Longrightarrow> I (final (count_free n slots free s))"
  by (induction n arbitrary: free) (auto split: option.split)

lemma I_reset_tables: "I s \<Longrightarrow> I (reset_tables s)"
  unfolding reset_tables_def by (rule fold_keeps) (simp_all add: I_fupd)

lemma I_reset_supers: "I s \<Longrightarrow> I (reset_supers s)"
  unfolding reset_supers_def by (rule fold_keeps) (simp_all add: I_supd I_waitq)

lemma I_read_partitions:
  assumes env: "\<And>s. I s \<Longrightarrow> I (env s)" and "drive < 2" "I s"
  shows "I (final (read_partitions env drive s))"
proof -
  have "is_dev (0x300 + of_nat drive * 5)" using assms(2) by (auto simp: less_2_cases_iff)
  moreover have "I (fold (set_partition p drive) is s)" if "I s" for p "is" s
    by (rule fold_keeps) (use that in \<open>simp_all add: set_partition_def Let_def I_hd_parts\<close>)
  ultimately show ?thesis unfolding read_partitions_def Let_def using assms(3)
    by (auto intro!: kbind_keeps [where I = I] simp: I_bread I_brelse I_panic I_printk env
        simp del: fold.simps split: option.split)
qed

lemma I_all_partitions:
  assumes env: "\<And>s. I s \<Longrightarrow> I (env s)"
  shows "\<forall>d \<in> set ds. d < 2 \<Longrightarrow> I s \<Longrightarrow> I (final (all_partitions ds env s))"
  by (induction ds arbitrary: s) (auto intro!: kbind_keeps [where I = I] simp: I_read_partitions env)

lemma I_find_disks: "I s \<Longrightarrow> I (fold whole_disk ds (s\<lparr>NR_HD := n\<rparr>))"
  by (rule fold_keeps) (simp_all add: whole_disk_def Let_def I_hd_parts I_NR_HD)

end

end
