(* ===== verification/Fork.thy ===== *)
theory Fork
  imports Tty Mm_Frame Filedata
begin

text \<open>
  The creation of a task, \<^verbatim>\<open>kernel/fork.c\<close>: \<open>find_empty_process\<close> chooses a process
  number and a slot, \<open>copy_process\<close> fills the slot with a copy of the running task that shares its
  memory and its open files. The global descriptor table and the coprocessor join the state here; what
  \<open>fnsave\<close> leaves in the coprocessor is a parameter.
\<close>

record proc_state = tty_state +
  gdt :: "desc_struct list"
  fpu :: "u32 list"
  fninit :: "u32 list \<Rightarrow> u32 list"

abbreviation (input) FIRST_TSS_ENTRY :: nat where "FIRST_TSS_ENTRY \<equiv> 4"
abbreviation (input) FIRST_LDT_ENTRY :: nat where "FIRST_LDT_ENTRY \<equiv> 5"

text \<open>Offsets of the members \<open>ldt\<close> and \<open>tss\<close> of \<open>struct task_struct\<close>.\<close>

abbreviation (input) ldt_offset :: u32 where "ldt_offset \<equiv> 720"
abbreviation (input) tss_offset :: u32 where "tss_offset \<equiv> 744"

section \<open>A process number and a slot\<close>

definition pid_used :: "u32 \<Rightarrow> 'a sched_state_scheme \<Rightarrow> bool" where
  "pid_used pid s \<longleftrightarrow> (\<exists>i \<in> set [0..<NR_TASKS]. task s ! i \<noteq> 0 \<and> t_pid (tmem s (task s ! i)) = pid)"

text \<open>Of 65 process numbers in a row one is free (\<open>pid_loop_enough\<close>), so 65 rounds are enough.\<close>

primrec pid_loop :: "nat \<Rightarrow> u32 \<Rightarrow> 'a sched_state_scheme \<Rightarrow> 'a sched_state_scheme option" where
  "pid_loop 0 tmp s = None"
| "pid_loop (Suc n) tmp s =
     (if \<not> pid_used (last_pid s) s then Some s
      else let l = last_pid s + 1 in
        if l = tmp then Some (s\<lparr>last_pid := l\<rparr>)
        else pid_loop n tmp (s\<lparr>last_pid := if sint l < 0 then 1 else l\<rparr>))"

definition find_empty_process :: "'a sched_state_scheme \<Rightarrow> ('a sched_state_scheme, u32) outcome" where
  "find_empty_process s =
     (case pid_loop (Suc NR_TASKS) (last_pid s) s of
        None \<Rightarrow> Blocked s
      | Some t \<Rightarrow> Done (case List.find (\<lambda>i. task t ! i = 0) [1..<NR_TASKS] of Some i \<Rightarrow> of_nat i | None \<Rightarrow> -1) t)"

section \<open>The copy\<close>

definition set_bases :: "u32 \<Rightarrow> task_struct \<Rightarrow> task_struct" where
  "set_bases base t = t\<lparr>t_start_code := base,
     t_ldt := (t_ldt t)[1 := set_base base (t_ldt t ! 1), 2 := set_base base (t_ldt t ! 2)]\<rparr>"

definition copy_mem :: "nat \<Rightarrow> u32 \<Rightarrow> 'a mm_state_scheme \<Rightarrow> ('a mm_state_scheme, u32) outcome" where
  "copy_mem nr p s =
     (let code_limit = get_limit 0x0f s;
          data_limit = get_limit 0x17 s;
          old_code_base = get_base (t_ldt (cur s) ! 1);
          old_data_base = get_base (t_ldt (cur s) ! 2)
      in if old_code_base \<noteq> old_data_base then panic ''Codeseg not fully overlapped with dataseg'' s
         else if data_limit < code_limit then panic ''bad data limit'' s
         else
           let new_base = of_nat nr * 0x4000000;
               s1 = tupd p (set_bases new_base) s
           in kbind (copy_page_tables old_data_base new_base data_limit s1) (\<lambda>r s.
                if r \<noteq> 0
                then kbind (free_page_tables new_base data_limit (printk ''free_page_tables: from copy_mem'' [] s))
                       (\<lambda>_ s. Done (-1) s)
                else Done 0 s))"

text \<open>The registers on the kernel stack, which \<open>copy_process\<close> has as its arguments.\<close>

record fork_frame =
  ff_ebp :: u32
  ff_edi :: u32
  ff_esi :: u32
  ff_gs :: u32
  ff_ebx :: u32
  ff_ecx :: u32
  ff_edx :: u32
  ff_fs :: u32
  ff_es :: u32
  ff_ds :: u32
  ff_eip :: u32
  ff_cs :: u32
  ff_eflags :: u32
  ff_esp :: u32
  ff_ss :: u32

definition child_tss :: "nat \<Rightarrow> u32 \<Rightarrow> fork_frame \<Rightarrow> tss_struct \<Rightarrow> tss_struct" where
  "child_tss nr p r t = t\<lparr>tss_back_link := 0, tss_esp0 := 4096 + p, tss_ss0 := 0x10,
     tss_eip := ff_eip r, tss_eflags := ff_eflags r, tss_eax := 0, tss_ecx := ff_ecx r, tss_ebx := ff_ebx r,
     tss_edx := ff_edx r, tss_esp := ff_esp r, tss_ebp := ff_ebp r, tss_esi := ff_esi r, tss_edi := ff_edi r,
     tss_es := ff_es r AND 0xffff, tss_cs := ff_cs r AND 0xffff, tss_ds := ff_ds r AND 0xffff,
     tss_ss := ff_ss r AND 0xffff, tss_fs := ff_fs r AND 0xffff, tss_gs := ff_gs r AND 0xffff,
     tss_ldt := LDT_sel (of_nat nr), tss_trace_bitmap := 0x80000000\<rparr>"

definition child_task :: "nat \<Rightarrow> u32 \<Rightarrow> fork_frame \<Rightarrow> 'a sched_state_scheme \<Rightarrow> task_struct" where
  "child_task nr p r s = (cur s)\<lparr>t_state := TASK_UNINTERRUPTIBLE, t_pid := last_pid s, t_father := t_pid (cur s),
     t_counter := t_priority (cur s), t_signal := 0, t_alarm := 0, t_leader := 0, t_utime := 0, t_stime := 0,
     t_cutime := 0, t_cstime := 0, t_start_time := jiffies s, t_tss := child_tss nr p r (t_tss (cur s))\<rparr>"

definition save_fpu :: "u32 \<Rightarrow> 'a proc_state_scheme \<Rightarrow> 'a proc_state_scheme" where
  "save_fpu p s =
     (if last_task_used_math s = current s
      then (tupd p (\<lambda>t. t\<lparr>t_tss := (t_tss t)\<lparr>tss_i387 := fpu s\<rparr>\<rparr>) s)\<lparr>fpu := fninit s (fpu s)\<rparr>
      else s)"

definition share_file :: "u32 \<Rightarrow> nat \<Rightarrow> 'a fs_state_scheme \<Rightarrow> 'a fs_state_scheme" where
  "share_file p i s = (case t_filp (tmem s p) ! i of None \<Rightarrow> s | Some f \<Rightarrow> fupd f (\<lambda>h. h\<lparr>f_count := f_count h + 1\<rparr>) s)"

definition share_inode :: "nat option \<Rightarrow> 'a fs_state_scheme \<Rightarrow> 'a fs_state_scheme" where
  "share_inode i s = (case i of None \<Rightarrow> s | Some i \<Rightarrow> iupd i (\<lambda>n. n\<lparr>i_count := i_count n + 1\<rparr>) s)"

definition copy_process :: "nat \<Rightarrow> fork_frame \<Rightarrow> 'a proc_state_scheme \<Rightarrow> ('a proc_state_scheme, u32) outcome" where
  "copy_process nr r s =
     (case get_free_page s of (p, s) \<Rightarrow>
        if p = 0 then Done (-1) s
        else
          let s1 = s\<lparr>task := (task s)[nr := p]\<rparr>;
              s2 = save_fpu p (tupd p (\<lambda>_. child_task nr p r s1) s1)
          in kbind (copy_mem nr p s2) (\<lambda>e s.
               if e \<noteq> 0 then kbind (free_page p (s\<lparr>task := (task s)[nr := 0]\<rparr>)) (\<lambda>_ s. Done (-1) s)
               else
                 let s3 = fold (share_file p) [0..<NR_OPEN] s;
                     s4 = share_inode (t_pwd (cur s3)) s3;
                     s5 = share_inode (t_root (cur s4)) s4;
                     s6 = share_inode (t_executable (cur s5)) s5;
                     s7 = s6\<lparr>gdt := (gdt s6)[2 * nr + FIRST_TSS_ENTRY := set_tss_desc (p + tss_offset),
                            2 * nr + FIRST_LDT_ENTRY := set_ldt_desc (p + ldt_offset)]\<rparr>
                 in Done (last_pid s7) (tupd p (\<lambda>t. t\<lparr>t_state := TASK_RUNNING\<rparr>) s7)))"

section \<open>Process numbers\<close>

lemma pid_used_last_pid [simp]: "pid_used pid (s\<lparr>last_pid := l\<rparr>) = pid_used pid s"
  by (simp add: pid_used_def)

text \<open>The \<open>k\<close>-th number after \<open>p\<close>, as a natural number: after 2147483647 comes 1.\<close>

definition nth_pid :: "nat \<Rightarrow> nat \<Rightarrow> nat" where
  "nth_pid p k = (if p + k < 2 ^ 31 then p + k else p + k - 2 ^ 31 + 1)"

lemma nth_pid_inj:
  assumes "p < 2 ^ 31" "j \<le> 64" "k \<le> 64" "nth_pid p j = nth_pid p k"
  shows "j = k"
  using assms by (simp add: nth_pid_def split: if_splits)

lemma nth_pid_bound: "p < 2 ^ 31 \<Longrightarrow> k \<le> 64 \<Longrightarrow> nth_pid p k < 2 ^ 31"
  unfolding nth_pid_def by (simp add: less_diff_conv2)

lemma int_small: "int n < 2147483648 \<longleftrightarrow> n < 2147483648"
  by simp

lemma sint_small: "unat (w :: u32) < 2 ^ 31 \<Longrightarrow> sint w = int (unat w)"
  using sint_of_int [of "uint w", OF order_trans [OF _ uint_ge_0]] int_small [of "unat w"] by simp

lemma nonneg_iff: "0 \<le> sint (w :: u32) \<longleftrightarrow> unat w < 2 ^ 31"
proof
  assume n: "0 \<le> sint w"
  then have "take_bit 32 (sint w) = sint w" using sint_range(2) [of w] by (intro take_bit_int_eq_self) simp_all
  moreover have "uint w = take_bit 32 (sint w)" using uint_sint [of w] by simp
  ultimately have "uint w = sint w" by (simp only:)
  then have "uint w < 2147483648" using sint_range(2) [of w] by (simp only:)
  then show "unat w < 2 ^ 31" using int_small [of "unat w"] by simp
qed (simp add: sint_small)

text \<open>The loop's step from one number to the next.\<close>

lemma next_pid:
  assumes "p < 2 ^ 31" "k < 64"
  shows "(if sint (of_nat (nth_pid p k) + 1 :: u32) < 0 then 1 else of_nat (nth_pid p k) + 1) = (of_nat (nth_pid p (Suc k)) :: u32)"
    "(of_nat (nth_pid p k) + 1 :: u32) \<noteq> of_nat p"
proof -
  let ?n = "nth_pid p k"
  have n: "?n < 2 ^ 31" using nth_pid_bound assms by simp
  then have u: "unat (of_nat ?n + 1 :: u32) = ?n + 1"
    by (subst unat_add_lem [THEN iffD1]) (simp_all add: unat_of_nat take_bit_eq_mod)
  have neg: "sint (of_nat ?n + 1 :: u32) < 0 \<longleftrightarrow> 2 ^ 31 \<le> ?n + 1"
    using nonneg_iff [of "of_nat ?n + 1"] u by linarith
  show "(if sint (of_nat ?n + 1 :: u32) < 0 then 1 else of_nat ?n + 1) = (of_nat (nth_pid p (Suc k)) :: u32)"
  proof (cases "2 ^ 31 \<le> ?n + 1")
    case True
    then have "p + k = 2 ^ 31 - 1" using n assms by (simp add: nth_pid_def split: if_splits)
    then have "nth_pid p (Suc k) = 1" by (simp add: nth_pid_def)
    with True neg show ?thesis by simp
  next
    case False
    then have "nth_pid p (Suc k) = ?n + 1" using assms by (simp add: nth_pid_def split: if_splits)
    with False neg show ?thesis by simp
  qed
  have "?n + 1 \<noteq> p"
  proof (cases "p + k < 2 ^ 31")
    case False
    then have "?n + 1 + 2 ^ 31 = p + k + 2" by (simp add: nth_pid_def)
    with assms(2) show ?thesis by auto
  qed (simp add: nth_pid_def)
  then show "(of_nat ?n + 1 :: u32) \<noteq> of_nat p"
    using u assms(1) by (auto simp: word_unat_eq_iff unat_of_nat take_bit_eq_mod)
qed

text \<open>The tasks' numbers are at most 64, the numbers tried are 65 different ones.\<close>

lemma some_pid_free:
  assumes "p < 2 ^ 31"
  shows "\<exists>k \<le> 64. \<not> pid_used (of_nat (nth_pid p k)) s"
proof (rule ccontr)
  assume "\<not> ?thesis"
  then have all: "\<forall>k \<in> {..64}. pid_used (of_nat (nth_pid p k)) s" by auto
  let ?f = "\<lambda>k. of_nat (nth_pid p k) :: u32"
  have "inj_on ?f {..64}"
  proof (rule inj_onI)
    fix j k assume jk: "j \<in> {..64}" "k \<in> {..64}" "?f j = ?f k"
    have "nth_pid p j < 2 ^ 32" "nth_pid p k < 2 ^ 32"
      using nth_pid_bound [OF assms, of j] nth_pid_bound [OF assms, of k] jk(1,2) by simp_all
    then have "nth_pid p j = nth_pid p k" using jk(3) by (simp add: word_unat_eq_iff unat_of_nat take_bit_eq_mod)
    then show "j = k" using nth_pid_inj [OF assms] jk(1,2) by simp
  qed
  then have "card (?f ` {..64}) = 65" by (simp add: card_image)
  moreover have "?f ` {..64} \<subseteq> (\<lambda>i. t_pid (tmem s (task s ! i))) ` {..<64}"
    using all by (force simp: pid_used_def)
  then have "card (?f ` {..64}) \<le> card ((\<lambda>i. t_pid (tmem s (task s ! i))) ` {..<64})" by (rule card_mono [rotated]) simp
  moreover have "card ((\<lambda>i. t_pid (tmem s (task s ! i))) ` {..<64}) \<le> card {..<(64 :: nat)}" by (rule card_image_le) simp
  ultimately show False by simp
qed

lemma pid_loop_stops:
  assumes "p < 2 ^ 31" "k + n = 65" "last_pid s = of_nat (nth_pid p k)"
    and "\<exists>j. k \<le> j \<and> j \<le> 64 \<and> \<not> pid_used (of_nat (nth_pid p j)) s"
  shows "\<exists>j \<le> 64. pid_loop n (of_nat p) s = Some (s\<lparr>last_pid := of_nat (nth_pid p j)\<rparr>) \<and> \<not> pid_used (of_nat (nth_pid p j)) s"
  using assms(2-4)
proof (induction n arbitrary: k s)
  case 0
  then show ?case by auto
next
  case (Suc n)
  show ?case
  proof (cases "pid_used (last_pid s) s")
    case False
    moreover have "s\<lparr>last_pid := of_nat (nth_pid p k)\<rparr> = s" using Suc.prems(2) [symmetric] by simp
    ultimately show ?thesis using Suc.prems(1,2) by (intro exI [of _ k]) simp
  next
    case True
    have k: "k \<le> 64" using Suc.prems(1) by simp
    obtain j where j: "k \<le> j" "j \<le> 64" "\<not> pid_used (of_nat (nth_pid p j)) s" using Suc.prems(3) by blast
    with True Suc.prems(2) have "j \<noteq> k" by auto
    with j have "Suc k \<le> j" "k < 64" by simp_all
    let ?s = "s\<lparr>last_pid := of_nat (nth_pid p (Suc k))\<rparr>"
    have "\<exists>j \<le> 64. pid_loop n (of_nat p) ?s = Some (?s\<lparr>last_pid := of_nat (nth_pid p j)\<rparr>) \<and> \<not> pid_used (of_nat (nth_pid p j)) ?s"
      by (rule Suc.IH [of "Suc k"]) (use Suc.prems(1) j \<open>Suc k \<le> j\<close> in \<open>auto simp del: of_nat_Suc\<close>)
    moreover have "pid_loop (Suc n) (of_nat p) s = pid_loop n (of_nat p) ?s"
      using True next_pid [OF assms(1) \<open>k < 64\<close>] by (simp add: Suc.prems(2) Let_def del: of_nat_Suc)
    ultimately show ?thesis by simp
  qed
qed

section \<open>The copy of a task\<close>

text \<open>The parts of the state a fork changes beside memory.\<close>

definition tables :: "'a proc_state_scheme \<Rightarrow> (u32 \<Rightarrow> task_struct) \<times> u32 list \<times> u32 \<times> u32 \<times> file_struct list \<times> m_inode list \<times> desc_struct list \<times>
    u32 \<times> u32 \<times> u32 list" where
  "tables s = (tmem s, task s, current s, last_pid s, file_table s, inode_table s, gdt s, jiffies s, last_task_used_math s, fpu s)"

interpretation tables_kept: mm_frame "\<lambda>s. tables s = k" for k
  by unfold_locales (simp_all add: tables_def)

lemma copy_mem_tables:
  fixes s :: "'a proc_state_scheme"
  assumes "copy_mem nr p s = Done e t"
  shows "tables t = tables (tupd p (set_bases (of_nat nr * 0x4000000)) s)"
proof -
  let ?s = "tupd p (set_bases (of_nat nr * 0x4000000)) s" and ?l = "get_limit 0x17 s" and ?n = "of_nat nr * 0x4000000 :: u32"
  let ?o = "get_base (t_ldt (cur s) ! 2)"
  have k: "tables (final (copy_page_tables ?o ?n ?l ?s)) = tables ?s"
    by (rule tables_kept.I_copy_page_tables) (rule refl)
  have c: "kbind (copy_page_tables ?o ?n ?l ?s) (\<lambda>r s. if r \<noteq> 0
      then kbind (free_page_tables ?n ?l (printk ''free_page_tables: from copy_mem'' [] s)) (\<lambda>_ s. Done (-1) s)
      else Done 0 s) = Done e t"
    using assms by (simp add: copy_mem_def Let_def panic_def split: if_splits)
  then obtain r u where u: "copy_page_tables ?o ?n ?l ?s = Done r u"
    and rest: "(if r \<noteq> 0 then kbind (free_page_tables ?n ?l (printk ''free_page_tables: from copy_mem'' [] u)) (\<lambda>_ s. Done (-1) s)
      else Done 0 u) = Done e t" by (rule kbind_DoneE)
  have tu: "tables u = tables ?s" using k u by simp
  show ?thesis
  proof (cases "r = 0")
    case True
    with rest tu show ?thesis by simp
  next
    case False
    have "tables (printk ''free_page_tables: from copy_mem'' [] u) = tables ?s"
      by (rule tables_kept.I_print) (rule tu)
    from tables_kept.I_free_page_tables [OF this, of ?n ?l] rest False show ?thesis by auto
  qed
qed

lemma share_file_simps:
  "tmem (share_file p i s) = tmem s" "task (share_file p i s) = task s" "current (share_file p i s) = current s"
  "length (file_table (share_file p i s)) = length (file_table s)"
  "f < length (file_table s) \<Longrightarrow> f_count (file_table (share_file p i s) ! f) =
    f_count (file_table s ! f) + (if t_filp (tmem s p) ! i = Some f then 1 else 0)"
  by (auto simp: share_file_def fupd_def nth_list_update split: option.split)

lemma share_files:
  "tmem (fold (share_file p) is s) = tmem s" "task (fold (share_file p) is s) = task s"
  "current (fold (share_file p) is s) = current s"
  "length (file_table (fold (share_file p) is s)) = length (file_table s)"
  by (induction "is" arbitrary: s) (simp_all add: share_file_simps)

lemma share_files_proc: "gdt (fold (share_file p) is s) = gdt s" "last_pid (fold (share_file p) is s) = last_pid s"
  by (induction "is" arbitrary: s) (simp_all add: share_file_def fupd_def split: option.split)

lemma share_files_count:
  "f < length (file_table s) \<Longrightarrow> f_count (file_table (fold (share_file p) is s) ! f) =
     f_count (file_table s ! f) + of_nat (count_list (map ((!) (t_filp (tmem s p))) is) (Some f))"
  by (induction "is" arbitrary: s) (simp_all add: share_file_simps add.assoc)

lemma share_inode_simps [simp]:
  "tmem (share_inode i s) = tmem s" "task (share_inode i s) = task s" "current (share_inode i s) = current s"
  "file_table (share_inode i s) = file_table s"
  by (simp_all add: share_inode_def iupd_def split: option.split)

lemma share_inode_proc: "gdt (share_inode i s) = gdt s" "last_pid (share_inode i s) = last_pid s"
  by (simp_all add: share_inode_def iupd_def split: option.split)

lemma save_fpu_simps [simp]:
  "task (save_fpu p s) = task s" "current (save_fpu p s) = current s" "last_pid (save_fpu p s) = last_pid s"
  "file_table (save_fpu p s) = file_table s" "gdt (save_fpu p s) = gdt s" "pmem (save_fpu p s) = pmem s" "inode_table (save_fpu p s) = inode_table s"
  "q \<noteq> p \<Longrightarrow> tmem (save_fpu p s) q = tmem s q"
  "t_filp (tmem (save_fpu p s) p) = t_filp (tmem s p)" "t_pid (tmem (save_fpu p s) p) = t_pid (tmem s p)"
  "t_father (tmem (save_fpu p s) p) = t_father (tmem s p)" "t_sigaction (tmem (save_fpu p s) p) = t_sigaction (tmem s p)"
  "t_ldt (tmem (save_fpu p s) p) = t_ldt (tmem s p)" "t_signal (tmem (save_fpu p s) p) = t_signal (tmem s p)"
  "tss_eax (t_tss (tmem (save_fpu p s) p)) = tss_eax (t_tss (tmem s p))"
  "tss_eip (t_tss (tmem (save_fpu p s) p)) = tss_eip (t_tss (tmem s p))"
  "tss_esp (t_tss (tmem (save_fpu p s) p)) = tss_esp (t_tss (tmem s p))"
  by (simp_all add: save_fpu_def tupd_def)

lemma get_free_page_tables:
  fixes s :: "'a proc_state_scheme"
  shows "tables (snd (get_free_page s)) = tables s"
  by (rule tables_kept.I_get_free_page) (rule refl)

text \<open>The last part of \<open>copy_process\<close>: the child shares the files and inodes and becomes runnable.\<close>

lemma shared_child:
  fixes w :: "'a proc_state_scheme"
  assumes "(let s3 = fold (share_file p) [0..<NR_OPEN] w;
                s4 = share_inode (t_pwd (cur s3)) s3;
                s5 = share_inode (t_root (cur s4)) s4;
                s6 = share_inode (t_executable (cur s5)) s5;
                s7 = s6\<lparr>gdt := (gdt s6)[2 * nr + FIRST_TSS_ENTRY := set_tss_desc (p + tss_offset),
                       2 * nr + FIRST_LDT_ENTRY := set_ldt_desc (p + ldt_offset)]\<rparr>
            in Done (last_pid s7) (tupd p (\<lambda>t. t\<lparr>t_state := TASK_RUNNING\<rparr>) s7)) = Done v t"
    and "length (t_filp (tmem w p)) = 20"
  shows "v = last_pid w" "tmem t = (tmem w)(p := (tmem w p)\<lparr>t_state := TASK_RUNNING\<rparr>)" "task t = task w"
    "gdt t = (gdt w)[2 * nr + 4 := set_tss_desc (p + 744), 2 * nr + 5 := set_ldt_desc (p + 720)]"
    "length (file_table t) = length (file_table w)"
    "f < length (file_table w) \<Longrightarrow>
      f_count (file_table t ! f) = f_count (file_table w ! f) + of_nat (count_list (t_filp (tmem w p)) (Some f))"
proof -
  let ?s3 = "fold (share_file p) [0..<20] w"
  let ?s4 = "share_inode (t_pwd (cur ?s3)) ?s3"
  let ?s5 = "share_inode (t_root (cur ?s4)) ?s4"
  obtain s6 where s6: "s6 = share_inode (t_executable (cur ?s5)) ?s5" by simp
  have p6: "tmem s6 = tmem w" "task s6 = task w" "gdt s6 = gdt w" "last_pid s6 = last_pid w" "file_table s6 = file_table ?s3"
    unfolding s6 by (simp_all add: share_inode_proc share_files share_files_proc)
  have t: "v = last_pid s6"
    "t = tupd p (\<lambda>t. t\<lparr>t_state := TASK_RUNNING\<rparr>) (s6\<lparr>gdt := (gdt s6)[2 * nr + FIRST_TSS_ENTRY := set_tss_desc (p + tss_offset),
       2 * nr + FIRST_LDT_ENTRY := set_ldt_desc (p + ldt_offset)]\<rparr>)"
    using assms(1) unfolding Let_def s6 [symmetric] by auto
  show "v = last_pid w" "tmem t = (tmem w)(p := (tmem w p)\<lparr>t_state := TASK_RUNNING\<rparr>)" "task t = task w"
    "gdt t = (gdt w)[2 * nr + 4 := set_tss_desc (p + 744), 2 * nr + 5 := set_ldt_desc (p + 720)]"
    "length (file_table t) = length (file_table w)"
    unfolding t by (simp_all add: tupd_def p6 share_files share_files_proc)
  have "map ((!) (t_filp (tmem w p))) [0..<20] = t_filp (tmem w p)" using map_nth [of "t_filp (tmem w p)"] assms(2) by simp
  then show "f < length (file_table w) \<Longrightarrow>
      f_count (file_table t ! f) = f_count (file_table w ! f) + of_nat (count_list (t_filp (tmem w p)) (Some f))"
    using share_files_count [of f w p "[0..<20]"] unfolding t by (simp add: tupd_def p6)
qed

text \<open>The task structure the child ends with, and the registers a task state segment holds in the order of the
  arguments of \<open>copy_process\<close>.\<close>

definition child_final :: "nat \<Rightarrow> u32 \<Rightarrow> fork_frame \<Rightarrow> 'a proc_state_scheme \<Rightarrow> task_struct" where
  "child_final nr p r s =
     (set_bases (of_nat nr * 0x4000000) (tmem (save_fpu p (tupd p (\<lambda>_. child_task nr p r s) s)) p))\<lparr>t_state := TASK_RUNNING\<rparr>"

definition tss_frame :: "tss_struct \<Rightarrow> fork_frame" where
  "tss_frame t = \<lparr>ff_ebp = tss_ebp t, ff_edi = tss_edi t, ff_esi = tss_esi t, ff_gs = tss_gs t, ff_ebx = tss_ebx t,
     ff_ecx = tss_ecx t, ff_edx = tss_edx t, ff_fs = tss_fs t, ff_es = tss_es t, ff_ds = tss_ds t, ff_eip = tss_eip t,
     ff_cs = tss_cs t, ff_eflags = tss_eflags t, ff_esp = tss_esp t, ff_ss = tss_ss t\<rparr>"

lemma child_final_task:
  assumes "p \<noteq> current s"
  shows "child_final nr p r s = (cur s)\<lparr>t_state := TASK_RUNNING, t_pid := last_pid s, t_father := t_pid (cur s),
      t_counter := t_priority (cur s), t_signal := 0, t_alarm := 0, t_leader := 0, t_utime := 0, t_stime := 0,
      t_cutime := 0, t_cstime := 0, t_start_time := jiffies s, t_start_code := of_nat nr * 0x4000000,
      t_ldt := (t_ldt (cur s))[1 := set_base (of_nat nr * 0x4000000) (t_ldt (cur s) ! 1),
        2 := set_base (of_nat nr * 0x4000000) (t_ldt (cur s) ! 2)],
      t_tss := t_tss (child_final nr p r s)\<rparr>"
  by (simp add: child_final_def save_fpu_def set_bases_def tupd_def child_task_def)

lemma child_final_filp: "p \<noteq> current s \<Longrightarrow> t_filp (child_final nr p r s) = t_filp (cur s)"
  by (simp add: child_final_def save_fpu_def set_bases_def tupd_def child_task_def)

lemma child_final_tss:
  assumes "p \<noteq> current s"
  shows "tss_frame (t_tss (child_final nr p r s)) = r\<lparr>ff_gs := ff_gs r AND 0xffff, ff_fs := ff_fs r AND 0xffff, ff_es := ff_es r AND 0xffff,
      ff_ds := ff_ds r AND 0xffff, ff_cs := ff_cs r AND 0xffff, ff_ss := ff_ss r AND 0xffff\<rparr>"
    "tss_eax (t_tss (child_final nr p r s)) = 0" "tss_esp0 (t_tss (child_final nr p r s)) = p + 4096"
    "tss_ss0 (t_tss (child_final nr p r s)) = 0x10" "tss_ldt (t_tss (child_final nr p r s)) = LDT_sel (of_nat nr)"
    "tss_i387 (t_tss (child_final nr p r s)) = (if last_task_used_math s = current s then fpu s else tss_i387 (t_tss (cur s)))"
  by (simp_all add: child_final_def save_fpu_def set_bases_def tupd_def child_task_def child_tss_def tss_frame_def)

text \<open>What \<open>copy_process\<close> leaves when it returns: no task, or the child in its slot.\<close>

lemma copy_process_leaves:
  fixes s :: "'a proc_state_scheme"
  assumes "copy_process nr r s = Done v t" "task s ! nr = 0" "length (task s) = 64" "nr < 64" "length (t_filp (cur s)) = 20"
    and "p = fst (get_free_page s)" "p \<noteq> current s"
  shows "(v = -1 \<and> task t = task s \<and> file_table t = file_table s \<and> (\<forall>q. q \<noteq> p \<longrightarrow> tmem t q = tmem s q)) \<or>
    (p \<noteq> 0 \<and> v = last_pid s \<and> task t = (task s)[nr := p] \<and> (\<forall>q. q \<noteq> p \<longrightarrow> tmem t q = tmem s q) \<and>
     length (file_table t) = length (file_table s) \<and>
     (\<forall>f < length (file_table s). f_count (file_table t ! f) =
        f_count (file_table s ! f) + of_nat (count_list (t_filp (cur s)) (Some f))) \<and>
     gdt t = (gdt s)[2 * nr + 4 := set_tss_desc (p + 744), 2 * nr + 5 := set_ldt_desc (p + 720)] \<and>
     tmem t p = child_final nr p r s)"
proof (cases "p = 0")
  case True
  then show ?thesis
    using assms(1,6) get_free_page_tables [of s] by (auto simp: copy_process_def split_beta tables_def)
next
  case False
  let ?u = "snd (get_free_page s)"
  have u: "tmem ?u = tmem s" "task ?u = task s" "current ?u = current s" "last_pid ?u = last_pid s"
    "file_table ?u = file_table s" "gdt ?u = gdt s" "jiffies ?u = jiffies s"
    "last_task_used_math ?u = last_task_used_math s" "fpu ?u = fpu s"
    using get_free_page_tables [of s] by (simp_all add: tables_def)
  let ?s1 = "?u\<lparr>task := (task ?u)[nr := p]\<rparr>"
  let ?s2 = "save_fpu p (tupd p (\<lambda>_. child_task nr p r ?s1) ?s1)"
  let ?base = "of_nat nr * 0x4000000 :: u32"
  have "kbind (copy_mem nr p ?s2) (\<lambda>e s.
               if e \<noteq> 0 then kbind (free_page p (s\<lparr>task := (task s)[nr := 0]\<rparr>)) (\<lambda>_ s. Done (-1) s)
               else
                 let s3 = fold (share_file p) [0..<NR_OPEN] s;
                     s4 = share_inode (t_pwd (cur s3)) s3;
                     s5 = share_inode (t_root (cur s4)) s4;
                     s6 = share_inode (t_executable (cur s5)) s5;
                     s7 = s6\<lparr>gdt := (gdt s6)[2 * nr + FIRST_TSS_ENTRY := set_tss_desc (p + tss_offset),
                            2 * nr + FIRST_LDT_ENTRY := set_ldt_desc (p + ldt_offset)]\<rparr>
                 in Done (last_pid s7) (tupd p (\<lambda>t. t\<lparr>t_state := TASK_RUNNING\<rparr>) s7)) = Done v t"
    using assms(1) False unfolding copy_process_def split_beta assms(6) [symmetric] Let_def by (simp only: if_False)
  then obtain e w where w: "copy_mem nr p ?s2 = Done e w"
    and rest: "(if e \<noteq> 0 then kbind (free_page p (w\<lparr>task := (task w)[nr := 0]\<rparr>)) (\<lambda>_ s. Done (-1) s)
               else
                 let s3 = fold (share_file p) [0..<NR_OPEN] w;
                     s4 = share_inode (t_pwd (cur s3)) s3;
                     s5 = share_inode (t_root (cur s4)) s4;
                     s6 = share_inode (t_executable (cur s5)) s5;
                     s7 = s6\<lparr>gdt := (gdt s6)[2 * nr + FIRST_TSS_ENTRY := set_tss_desc (p + tss_offset),
                            2 * nr + FIRST_LDT_ENTRY := set_ldt_desc (p + ldt_offset)]\<rparr>
                 in Done (last_pid s7) (tupd p (\<lambda>t. t\<lparr>t_state := TASK_RUNNING\<rparr>) s7)) = Done v t" by (rule kbind_DoneE)
  have tw: "tables w = tables (tupd p (set_bases ?base) ?s2)" by (rule copy_mem_tables [OF w])
  obtain c where c: "c = set_bases ?base (tmem ?s2 p)" by simp
  have wt: "tmem w p = c" "q \<noteq> p \<Longrightarrow> tmem w q = tmem s q" for q using tw u by (simp_all add: tables_def tupd_def c)
  have wk: "task w = (task s)[nr := p]" "file_table w = file_table s" "gdt w = gdt s" "current w = current s" "last_pid w = last_pid s"
    using tw u by (simp_all add: tables_def tupd_def)
  have cf: "c\<lparr>t_state := TASK_RUNNING\<rparr> = child_final nr p r s" "t_filp c = t_filp (cur s)"
    using u by (simp_all add: c child_final_def set_bases_def tupd_def child_task_def save_fpu_def)
  show ?thesis
  proof (cases "e = 0")
    case False
    let ?w = "w\<lparr>task := (task w)[nr := 0]\<rparr>"
    have "(task s)[nr := 0] = task s" using assms(2) by (metis list_update_id)
    then have "task ?w = task s" using wk(1) by simp
    moreover have "tables (final (free_page p ?w)) = tables ?w" by (rule tables_kept.I_free_page) (rule refl)
    ultimately show ?thesis using rest False wt(2) wk by (auto simp: tables_def kbind_Done_iff)
  next
    case True
    have "\<not> e \<noteq> 0" using True by simp
    note t = shared_child [OF rest [unfolded if_not_P [OF this]]]
    have l: "length (t_filp (tmem w p)) = 20" using assms(5) wt(1) cf(2) by simp
    have tt: "tmem t = (tmem w)(p := c\<lparr>t_state := TASK_RUNNING\<rparr>)" using t(2) [OF l] wt(1) by simp
    show ?thesis
      by (rule disjI2) (simp add: \<open>p \<noteq> 0\<close> t(1,3,4,5) [OF l] t(6) [OF l] wt(1) cf(2) wk, simp add: tt wt(2) cf(1))
  qed
qed

section \<open>Properties\<close>

text \<open>C36: the search for a process number always ends, with a number that no task in the table has and that is not
  negative, even when the numbers wrap around after 2147483647; it changes nothing else, and returns the
  lowest empty slot above 0, or -1 exactly when there is none.\<close>

theorem find_empty_process_ends:
  assumes "0 \<le> sint (last_pid s)"
  shows "\<exists>v l. find_empty_process s = Done v (s\<lparr>last_pid := l\<rparr>) \<and> 0 \<le> sint l \<and>
    (\<forall>i < 64. task s ! i \<noteq> 0 \<longrightarrow> t_pid (tmem s (task s ! i)) \<noteq> l) \<and>
    (if \<forall>i \<in> {1..<64}. task s ! i \<noteq> 0 then v = -1
     else unat v \<in> {1..<64} \<and> task s ! unat v = 0 \<and> (\<forall>j \<in> {1..<unat v}. task s ! j \<noteq> 0))"
proof -
  let ?p = "unat (last_pid s)"
  have p: "?p < 2 ^ 31" using assms nonneg_iff by blast
  have l: "of_nat ?p = last_pid s" by simp
  have "last_pid s = of_nat (nth_pid ?p 0)" using p by (simp add: nth_pid_def)
  moreover have "\<exists>j. 0 \<le> j \<and> j \<le> 64 \<and> \<not> pid_used (of_nat (nth_pid ?p j)) s" using some_pid_free [OF p, of s] by auto
  ultimately obtain j where j: "j \<le> 64" "pid_loop 65 (of_nat ?p) s = Some (s\<lparr>last_pid := of_nat (nth_pid ?p j)\<rparr>)"
    "\<not> pid_used (of_nat (nth_pid ?p j)) s"
    using pid_loop_stops [OF p, of 0 65 s] by auto
  let ?l = "of_nat (nth_pid ?p j) :: u32" and ?f = "List.find (\<lambda>i. task s ! i = 0) [1..<64]"
  have "unat ?l < 2 ^ 31" using nth_pid_bound [OF p j(1)] by (simp add: unat_of_nat take_bit_eq_mod)
  then have nn: "0 \<le> sint ?l" using nonneg_iff by blast
  have "pid_loop (Suc 64) (last_pid s) s = Some (s\<lparr>last_pid := ?l\<rparr>)" using j(2) unfolding l by simp
  then have call: "find_empty_process s = Done (case ?f of Some i \<Rightarrow> of_nat i | None \<Rightarrow> -1) (s\<lparr>last_pid := ?l\<rparr>)"
    unfolding find_empty_process_def by (simp only: option.case) simp
  have fresh: "\<forall>i < 64. task s ! i \<noteq> 0 \<longrightarrow> t_pid (tmem s (task s ! i)) \<noteq> ?l" using j(3) by (auto simp: pid_used_def)
  show ?thesis
  proof (cases ?f)
    case None
    then have "\<forall>i \<in> {1..<64}. task s ! i \<noteq> 0" by (auto simp: find_None_iff)
    with None show ?thesis using call nn fresh by (intro exI [of _ "-1"] exI [of _ ?l]) simp
  next
    case (Some i)
    then obtain k where k: "k < 63" "i = [1..<64] ! k" "task s ! i = 0" "\<forall>j < k. task s ! ([1..<64] ! j) \<noteq> 0"
      by (auto simp: find_Some_iff)
    then have i: "i = Suc k" by simp
    then have "unat (of_nat i :: u32) = i" using k(1) by (simp add: unat_of_nat take_bit_eq_mod del: of_nat_Suc)
    moreover have "\<forall>j \<in> {1..<i}. task s ! j \<noteq> 0"
    proof
      fix j assume "j \<in> {1..<i}"
      then have "j - 1 < k" "[1..<64] ! (j - 1) = j" using i k(1) by auto
      with k(4) show "task s ! j \<noteq> 0" by metis
    qed
    moreover have "\<not> (\<forall>i \<in> {1..<64}. task s ! i \<noteq> 0)" using k i by (intro notI) (drule bspec [of _ _ i], auto)
    ultimately show ?thesis using Some call nn fresh k(1,3) i
      by (intro exI [of _ "of_nat i"] exI [of _ ?l]) (auto simp del: of_nat_Suc)
  qed
qed

text \<open>C12: fork makes one new task: when copy_process returns a process number, the child sits in the slot given, in a
  page that was free, and its task structure is the caller's (its open files and signal handlers among the rest)
  except that it has that number, the caller as its father, a full time slice, no signal, no alarm, no leadership
  and no times, starts now and has its own 64 megabytes of addresses; its task state holds every register
  of the call (the segment registers cut to 16 bits) except that eax, which is what it is returned, is 0, with the
  end of its page as its kernel stack, its local table's selector and the coprocessor's state, which is the one now in the
  coprocessor if the caller was the last to use it; the descriptors of the slot lead to its task state and its local table,
  and every other task stays as it was. When it fails it returns -1 and no task is left behind.\<close>

theorem fork_copies_task:
  fixes s :: "'a proc_state_scheme"
  assumes "copy_process nr r s = Done v t" "task s ! nr = 0" "length (task s) = 64" "1 \<le> nr" "nr < 64"
    and "length (t_filp (cur s)) = 20" "length (t_ldt (cur s)) = 3" "length (gdt s) = 256"
    and "p = fst (get_free_page s)" "p \<noteq> current s" "c = tmem t p"
  shows "(\<forall>q. q \<noteq> p \<longrightarrow> tmem t q = tmem s q) \<and>
    (if p = 0 then v = -1 \<and> task t = task s else
      (v = -1 \<and> task t = task s) \<or>
      (v = last_pid s \<and> task t = (task s)[nr := p] \<and> (\<exists>k < PAGING_PAGES. mem_map s ! k = 0 \<and> p = frame k) \<and>
       t_pid c = v \<and> t_father c = t_pid (cur s) \<and> t_state c = TASK_RUNNING \<and> t_signal c = 0 \<and>
       t_filp c = t_filp (cur s) \<and> t_sigaction c = t_sigaction (cur s) \<and>
       get_base (t_ldt c ! 1) = of_nat nr * 0x4000000 \<and> get_base (t_ldt c ! 2) = of_nat nr * 0x4000000 \<and>
       lsl (t_ldt c ! 2) = lsl (t_ldt (cur s) ! 2) \<and>
       tss_frame (t_tss c) = r\<lparr>ff_gs := ff_gs r AND 0xffff, ff_fs := ff_fs r AND 0xffff, ff_es := ff_es r AND 0xffff,
         ff_ds := ff_ds r AND 0xffff, ff_cs := ff_cs r AND 0xffff, ff_ss := ff_ss r AND 0xffff\<rparr> \<and>
       tss_eax (t_tss c) = 0 \<and> tss_esp0 (t_tss c) = p + 4096 \<and> tss_ss0 (t_tss c) = 0x10 \<and> tss_ldt (t_tss c) = LDT_sel (of_nat nr) \<and>
       tss_i387 (t_tss c) = (if last_task_used_math s = current s then fpu s else tss_i387 (t_tss (cur s))) \<and>
       c = (cur s)\<lparr>t_state := TASK_RUNNING, t_pid := v, t_father := t_pid (cur s), t_counter := t_priority (cur s),
         t_signal := 0, t_alarm := 0, t_leader := 0, t_utime := 0, t_stime := 0, t_cutime := 0, t_cstime := 0,
         t_start_time := jiffies s, t_start_code := of_nat nr * 0x4000000, t_ldt := t_ldt c, t_tss := t_tss c\<rparr> \<and>
       get_base (gdt t ! (2 * nr + 4)) = p + tss_offset \<and> get_base (gdt t ! (2 * nr + 5)) = p + ldt_offset))"
proof -
  have fr: "\<exists>k < PAGING_PAGES. mem_map s ! k = 0 \<and> p = frame k" if "p \<noteq> 0"
    using that assms(9) by (auto simp: get_free_page_def dest!: scan_free_Some split: option.splits)
  from copy_process_leaves [OF assms(1-3,5,6,9,10)] show ?thesis
  proof (elim disjE)
    assume "v = -1 \<and> task t = task s \<and> file_table t = file_table s \<and> (\<forall>q. q \<noteq> p \<longrightarrow> tmem t q = tmem s q)"
    then show ?thesis by auto
  next
    assume "p \<noteq> 0 \<and> v = last_pid s \<and> task t = (task s)[nr := p] \<and> (\<forall>q. q \<noteq> p \<longrightarrow> tmem t q = tmem s q) \<and>
     length (file_table t) = length (file_table s) \<and>
     (\<forall>f < length (file_table s). f_count (file_table t ! f) =
        f_count (file_table s ! f) + of_nat (count_list (t_filp (cur s)) (Some f))) \<and>
     gdt t = (gdt s)[2 * nr + 4 := set_tss_desc (p + 744), 2 * nr + 5 := set_ldt_desc (p + 720)] \<and>
     tmem t p = child_final nr p r s"
    then have d: "p \<noteq> 0" "v = last_pid s" "task t = (task s)[nr := p]" "\<forall>q. q \<noteq> p \<longrightarrow> tmem t q = tmem s q" "c = child_final nr p r s"
      "gdt t = (gdt s)[2 * nr + 4 := set_tss_desc (p + 744), 2 * nr + 5 := set_ldt_desc (p + 720)]"
      by (simp_all add: assms(11))
    define x where "x = t_tss c"
    note tss = child_final_tss [OF assms(10), of nr r, folded d(5), folded x_def]
    have c: "c = (cur s)\<lparr>t_state := TASK_RUNNING, t_pid := last_pid s, t_father := t_pid (cur s),
      t_counter := t_priority (cur s), t_signal := 0, t_alarm := 0, t_leader := 0, t_utime := 0, t_stime := 0,
      t_cutime := 0, t_cstime := 0, t_start_time := jiffies s, t_start_code := of_nat nr * 0x4000000,
      t_ldt := (t_ldt (cur s))[1 := set_base (of_nat nr * 0x4000000) (t_ldt (cur s) ! 1),
        2 := set_base (of_nat nr * 0x4000000) (t_ldt (cur s) ! 2)], t_tss := x\<rparr>"
      unfolding x_def d(5) by (rule child_final_task [OF assms(10)])
    have g: "get_base (gdt t ! (2 * nr + 4)) = p + tss_offset" "get_base (gdt t ! (2 * nr + 5)) = p + ldt_offset"
      unfolding d(6) using assms(5,8) by (simp_all add: set_tss_desc_def set_ldt_desc_def get_base_tssldt)
    show ?thesis unfolding g x_def [symmetric]
      using assms(7) fr [OF d(1)] d(1-4) by (simp add: c tss get_base_set_base lsl_set_base)
  qed
qed

text \<open>C21: the count of every entry of the file table stays the number of descriptors that refer to it when a task forks,
  whether the fork succeeds or fails.\<close>

theorem fork_counts_files:
  fixes s :: "'a proc_state_scheme"
  assumes "copy_process nr r s = Done v t" "task s ! nr = 0" "length (task s) = 64" "nr < 64"
    and "length (t_filp (cur s)) = 20" "current s \<in> set (task s)" "current s \<noteq> 0"
    and "fst (get_free_page s) \<notin> set (task s) - {0}" "files_counted s"
  shows "files_counted t"
proof -
  let ?p = "fst (get_free_page s)"
  have ne: "?p \<noteq> current s" using assms(6-8) by auto
  have h: "holders f (tmem t) (task s) = holders f (tmem s) (task s)" if "\<forall>q. q \<noteq> ?p \<longrightarrow> tmem t q = tmem s q" for f
  proof (rule holders_cong)
    fix q assume "q \<in> set (task s)" "q \<noteq> 0"
    then have "q \<noteq> ?p" using assms(8) by auto
    with that show "t_filp (tmem t q) = t_filp (tmem s q)" by simp
  qed
  from copy_process_leaves [OF assms(1-5) refl ne] show ?thesis
  proof (elim disjE)
    assume "v = -1 \<and> task t = task s \<and> file_table t = file_table s \<and> (\<forall>q. q \<noteq> ?p \<longrightarrow> tmem t q = tmem s q)"
    then show ?thesis using assms(9) h by (auto simp: files_counted_def)
  next
    assume "?p \<noteq> 0 \<and> v = last_pid s \<and> task t = (task s)[nr := ?p] \<and> (\<forall>q. q \<noteq> ?p \<longrightarrow> tmem t q = tmem s q) \<and>
     length (file_table t) = length (file_table s) \<and>
     (\<forall>f < length (file_table s). f_count (file_table t ! f) =
        f_count (file_table s ! f) + of_nat (count_list (t_filp (cur s)) (Some f))) \<and>
     gdt t = (gdt s)[2 * nr + 4 := set_tss_desc (?p + 744), 2 * nr + 5 := set_ldt_desc (?p + 720)] \<and>
     tmem t ?p = child_final nr ?p r s"
    moreover have "t_filp (child_final nr ?p r s) = t_filp (cur s)" by (rule child_final_filp [OF ne])
    ultimately have t: "?p \<noteq> 0" "task t = (task s)[nr := ?p]" "\<forall>q. q \<noteq> ?p \<longrightarrow> tmem t q = tmem s q"
      "length (file_table t) = length (file_table s)" "t_filp (tmem t ?p) = t_filp (cur s)"
      "\<forall>f < length (file_table s). f_count (file_table t ! f) =
        f_count (file_table s ! f) + of_nat (count_list (t_filp (cur s)) (Some f))" by simp_all
    have "holders f (tmem t) (task t) = holders f (tmem s) (task s) + count_list (t_filp (cur s)) (Some f)" for f
      using holders_slot [of nr "task s" ?p f "tmem t"] assms(2-4) t(1,5) h [OF t(3)] unfolding t(2) by simp
    then show ?thesis using assms(9) t(4,6) by (simp add: files_counted_def)
  qed
qed

text \<open>The initial task, about to fork, with empty page tables and all of main memory free.\<close>

definition fork_boot :: proc_state where
  "fork_boot = tty_state.extend (tty_boot\<lparr>last_pid := 1\<rparr>)
     (proc_state.fields (replicate 256 \<lparr>desc_a = 0, desc_b = 0\<rparr>) (replicate 27 0) (\<lambda>x. x))"

lemma fork_boot_simps:
  "tmem fork_boot = (\<lambda>_. INIT_TASK 0x1000 0)" "current fork_boot = 0x1000" "task fork_boot = 0x1000 # replicate 63 0"
  "last_pid fork_boot = 1" "pmem fork_boot = (\<lambda>_. 0)" "mem_map fork_boot = replicate PAGING_PAGES 0"
  "last_task_used_math fork_boot = 0" "gdt fork_boot = replicate 256 \<lparr>desc_a = 0, desc_b = 0\<rparr>"
  by (simp_all add: fork_boot_def tty_state.defs proc_state.defs tty_boot_def fs_state.defs fs_raw_def blk_state.defs
      blk_boot_def mm_state.defs mm_boot_def sched_state.defs sched_boot_def)

lemma empty_dirs_copy:
  assumes "pmem s = (\<lambda>_. 0)" "n \<le> 1"
  shows "copy_dirs n nr a b s = Done 0 s"
  using assms by (cases n) simp_all

lemma fork_boot_page: "get_free_page fork_boot = (0xfff000, (set_mem_map 3839 1 fork_boot)\<lparr>pmem := \<lambda>_. 0\<rparr>)"
proof -
  have "clear_page p (\<lambda>_. 0) = (\<lambda>_. 0)" for p by (simp add: clear_page_def fun_eq_iff)
  then show ?thesis using get_free_page_boot [OF fork_boot_simps(6)] by (simp add: fork_boot_simps(5) frame_def)
qed

lemma copy_process_returns:
  assumes "get_free_page s = (p, u)" "p \<noteq> 0" "s1 = u\<lparr>task := (task u)[nr := p]\<rparr>"
    and "copy_mem nr p (save_fpu p (tupd p (\<lambda>_. child_task nr p r s1) s1)) = Done 0 w"
  shows "\<exists>t. copy_process nr r s = Done (last_pid w) t"
  unfolding copy_process_def assms(1) prod.case Let_def assms(3) [symmetric] assms(4)
  using assms(2) by (simp add: share_inode_proc share_files_proc)

lemma fork_boot_forks: "\<exists>t. copy_process 1 r fork_boot = Done 1 t"
proof -
  let ?u = "(set_mem_map 3839 1 fork_boot)\<lparr>pmem := \<lambda>_. 0\<rparr>"
  let ?s1 = "?u\<lparr>task := (task ?u)[1 := 0xfff000]\<rparr>"
  let ?s2 = "save_fpu 0xfff000 (tupd 0xfff000 (\<lambda>_. child_task 1 0xfff000 r ?s1) ?s1)"
  have c: "current ?s2 = 0x1000" "tmem ?s2 0x1000 = INIT_TASK 0x1000 0" "pmem ?s2 = (\<lambda>_. 0)" "last_pid ?s2 = 1"
    by (simp_all add: fork_boot_simps set_mem_map_def save_fpu_def tupd_def)
  have l: "lsl \<lparr>desc_a = 0x9f, desc_b = 0xc0fa00\<rparr> + 1 = 0xa0000" "lsl \<lparr>desc_a = 0x9f, desc_b = 0xc0f200\<rparr> + 1 = 0xa0000"
    "get_base \<lparr>desc_a = 0x9f, desc_b = 0xc0fa00\<rparr> = 0" "get_base \<lparr>desc_a = 0x9f, desc_b = 0xc0f200\<rparr> = 0"
    by (simp_all add: lsl_def get_base_def bit_numeral_rec)
  obtain s2 where s2: "s2 = ?s2" by simp
  have c: "current s2 = 0x1000" "tmem s2 0x1000 = INIT_TASK 0x1000 0" "pmem s2 = (\<lambda>_. 0)" "last_pid s2 = 1"
    unfolding s2 using c by simp_all
  let ?s3 = "tupd 0xfff000 (set_bases 0x4000000) s2"
  have "copy_page_tables 0 0x4000000 0xa0000 ?s3 = Done 0 ?s3"
    unfolding copy_page_tables_def by (subst empty_dirs_copy) (simp_all add: c(3) tupd_def)
  moreover have "t_ldt (cur s2) = [\<lparr>desc_a = 0, desc_b = 0\<rparr>, \<lparr>desc_a = 0x9f, desc_b = 0xc0fa00\<rparr>, \<lparr>desc_a = 0x9f, desc_b = 0xc0f200\<rparr>]"
    unfolding c(1,2) by (simp add: INIT_TASK_def)
  moreover from this have "get_limit 0x0f s2 = 0xa0000" "get_limit 0x17 s2 = 0xa0000" "get_base (t_ldt (cur s2) ! 1) = 0"
    "get_base (t_ldt (cur s2) ! 2) = 0"
    using l by (simp_all add: get_limit_def)
  moreover have "of_nat 1 * 0x4000000 = (0x4000000 :: u32)" by simp
  ultimately have "copy_mem 1 0xfff000 s2 = Done 0 ?s3"
    unfolding copy_mem_def Let_def by (simp only: kbind.simps if_False less_irrefl simp_thms)
  then have m: "copy_mem 1 0xfff000 ?s2 = Done 0 ?s3" unfolding s2 .
  have "last_pid ?s3 = 1" using c(4) by (simp add: tupd_def)
  then show ?thesis
    using copy_process_returns [OF fork_boot_page _ refl m] unfolding \<open>last_pid ?s3 = 1\<close> by simp
qed

theorem find_empty_process_ends_witness:
  "\<exists>v l. find_empty_process fork_boot = Done v (fork_boot\<lparr>last_pid := l\<rparr>) \<and> task fork_boot ! unat v = 0"
proof -
  have "\<not> (\<forall>i \<in> {1..<64}. task fork_boot ! i \<noteq> 0)"
    by (intro notI) (drule bspec [of _ _ 1], simp_all add: fork_boot_simps)
  note full = this
  have "0 \<le> sint (last_pid fork_boot)" by (simp add: fork_boot_simps(4))
  from find_empty_process_ends [OF this] obtain v l
    where v: "find_empty_process fork_boot = Done v (fork_boot\<lparr>last_pid := l\<rparr>)"
      "if \<forall>i \<in> {1..<64}. task fork_boot ! i \<noteq> 0 then v = -1
       else unat v \<in> {1..<64} \<and> task fork_boot ! unat v = 0 \<and> (\<forall>j \<in> {1..<unat v}. task fork_boot ! j \<noteq> 0)" by blast
  from v(2) have "task fork_boot ! unat v = 0" unfolding if_not_P [OF full] by (elim conjE)
  with v(1) show ?thesis by blast
qed

lemma fork_boot_sizes:
  "length (t_filp (cur fork_boot)) = 20" "length (t_ldt (cur fork_boot)) = 3" "length (gdt fork_boot) = 256"
  "length (task fork_boot) = 64" "task fork_boot ! 1 = 0"
  by (simp_all add: fork_boot_simps INIT_TASK_def)

theorem fork_copies_task_witness:
  "\<forall>r. \<exists>t. copy_process 1 r fork_boot = Done 1 t \<and> t_pid (tmem t 0xfff000) = 1 \<and> tss_eax (t_tss (tmem t 0xfff000)) = 0 \<and>
     get_base (t_ldt (tmem t 0xfff000) ! 2) = 0x4000000"
proof
  fix r
  obtain t where t: "copy_process 1 r fork_boot = Done 1 t" using fork_boot_forks by blast
  have "0xfff000 = fst (get_free_page fork_boot)" "0xfff000 \<noteq> current fork_boot"
    by (simp_all add: fork_boot_page fork_boot_simps)
  from fork_copies_task [OF t fork_boot_sizes(5,4) _ _ fork_boot_sizes(1-3) this refl]
  show "\<exists>t. copy_process 1 r fork_boot = Done 1 t \<and> t_pid (tmem t 0xfff000) = 1 \<and> tss_eax (t_tss (tmem t 0xfff000)) = 0 \<and>
     get_base (t_ldt (tmem t 0xfff000) ! 2) = 0x4000000"
    using t by auto
qed

theorem fork_counts_files_witness:
  "\<forall>r. \<exists>t. copy_process 1 r fork_boot = Done 1 t \<and> files_counted t"
proof
  fix r
  obtain t where t: "copy_process 1 r fork_boot = Done 1 t" using fork_boot_forks by blast
  have "files_counted fork_boot"
  proof -
    have "count_list (replicate n None) (Some f) = 0" for n f by (induction n) simp_all
    then have "holders f (tmem fork_boot) (task fork_boot) = 0" for f
      by (simp add: holders_def fork_boot_simps INIT_TASK_def)
    moreover have "file_table fork_boot = replicate NR_FILE null_file"
      by (simp add: fork_boot_def tty_state.defs proc_state.defs tty_boot_def fs_state.defs)
    ultimately show ?thesis by (simp add: files_counted_def null_file_def)
  qed
  then have "files_counted t"
    using fork_counts_files [OF t fork_boot_sizes(5,4) _ fork_boot_sizes(1)] by (simp add: fork_boot_page fork_boot_simps(2,3))
  with t show "\<exists>t. copy_process 1 r fork_boot = Done 1 t \<and> files_counted t" by blast
qed

end
