(* ===== verification/Traps.thy ===== *)
theory Traps
  imports Fork
begin

text \<open>
  The interrupt table: the gates of \<^verbatim>\<open>include/asm/system.h\<close>, the trap handlers and
  \<open>trap_init\<close> of \<^verbatim>\<open>kernel/traps.c\<close>, and \<open>sched_init\<close> of
  \<^verbatim>\<open>kernel/sched.c\<close>. The table joins the state here. Where the assembler routines that the
  gates point to are linked is a parameter \<open>adr\<close>; the words of the kernel stack are a parameter \<open>stk\<close>.
\<close>

text \<open>The entry points of \<^verbatim>\<open>kernel/asm.s\<close>, \<^verbatim>\<open>mm/page.s\<close> and \<^verbatim>\<open>kernel/system_call.s\<close>.\<close>

datatype handler = Divide_error | Debug | Nmi | Int3 | Overflow | Bounds | Device_not_available | Double_fault
  | Coprocessor_segment_overrun | Invalid_TSS | Segment_not_present | Stack_segment | General_protection
  | Page_fault | Reserved | Coprocessor_error | Irq13 | Parallel_interrupt | Timer_interrupt | System_call
  | Hd_interrupt | Keyboard_interrupt

record boot_state = proc_state +
  idt :: "desc_struct list"

section \<open>Gates\<close>

text \<open>\<open>_set_gate\<close>: \<open>edx\<close> is the address, \<open>eax\<close> the selector 8 in the upper half.\<close>

definition gate :: "u32 \<Rightarrow> u32 \<Rightarrow> u32 \<Rightarrow> desc_struct" where
  "gate type dpl addr =
     \<lparr>desc_a = 0x00080000 OR (addr AND 0xffff),
      desc_b = (addr AND 0xffff0000) OR (0x8000 + push_bit 13 dpl + push_bit 8 type)\<rparr>"

definition set_gate :: "nat \<Rightarrow> u32 \<Rightarrow> u32 \<Rightarrow> u32 \<Rightarrow> 'a boot_state_scheme \<Rightarrow> 'a boot_state_scheme" where
  "set_gate n type dpl addr s = s\<lparr>idt := (idt s)[n := gate type dpl addr]\<rparr>"

definition set_trap_gate :: "nat \<Rightarrow> u32 \<Rightarrow> 'a boot_state_scheme \<Rightarrow> 'a boot_state_scheme" where
  "set_trap_gate n addr = set_gate n 0xF 0 addr"

definition set_intr_gate :: "nat \<Rightarrow> u32 \<Rightarrow> 'a boot_state_scheme \<Rightarrow> 'a boot_state_scheme" where
  "set_intr_gate n addr = set_gate n 0xE 0 addr"

definition set_system_gate :: "nat \<Rightarrow> u32 \<Rightarrow> 'a boot_state_scheme \<Rightarrow> 'a boot_state_scheme" where
  "set_system_gate n addr = set_gate n 0xF 3 addr"

section \<open>Handlers\<close>

text \<open>The characters \<open>\<newline>\<close> and \<open>\t\<close> of the formats.\<close>

abbreviation (input) NL :: string where "NL \<equiv> [CHR 0x0A]"
abbreviation (input) TAB :: string where "TAB \<equiv> [CHR 0x09]"

text \<open>\<open>die\<close> ends in \<open>for(;;);\<close>, so it has no state to return with.\<close>

definition die :: "string \<Rightarrow> u32 \<Rightarrow> u32 \<Rightarrow> (u32 \<Rightarrow> u32) \<Rightarrow> 'a sched_state_scheme \<Rightarrow> ('a sched_state_scheme, unit) outcome" where
  "die str esp nr stk s =
     (let s = printk (str @ '': %x'') [nr AND 0xffff] s;
          s = printk (''EIP: 0x%x:0x%x'' @ NL @ '' EFLAGS: 0x%x'' @ NL @ '' ESP 0x%x:0x%x'')
                [stk (esp + 4), stk esp, stk (esp + 8), stk (esp + 16), stk (esp + 12)] s;
          s = printk ''base 0x%x, limit 0x%x'' [get_base (t_ldt (cur s) ! 1), get_limit 0x17 s] s;
          s = printk ''No Process now, System HALT!   :('' [] s
      in Blocked s)"

definition do_double_fault where "do_double_fault = die ''double fault''"
definition do_general_protection where "do_general_protection = die ''general protection''"
definition do_divide_error where "do_divide_error = die ''divide error''"
definition do_nmi where "do_nmi = die ''nmi''"
definition do_debug where "do_debug = die ''debug''"
definition do_overflow where "do_overflow = die ''overflow''"
definition do_bounds where "do_bounds = die ''bounds''"
definition do_invalid_op where "do_invalid_op = die ''invalid operand''"
definition do_device_not_available where "do_device_not_available = die ''device not available''"
definition do_coprocessor_segment_overrun where "do_coprocessor_segment_overrun = die ''coprocessor segment overrun''"
definition do_invalid_TSS where "do_invalid_TSS = die ''invalid TSS''"
definition do_segment_not_present where "do_segment_not_present = die ''segment not present''"
definition do_stack_segment where "do_stack_segment = die ''stack segment''"
definition do_coprocessor_error where "do_coprocessor_error = die ''coprocessor error''"
definition do_reserved where "do_reserved = die ''reserved(15, 17-47)error''"

text \<open>The registers as \<^verbatim>\<open>kernel/asm.s\<close> pushes them, and the task register \<open>tr\<close> as \<open>str\<close> reads it.\<close>

definition do_int3 :: "u32 \<Rightarrow> u32 \<Rightarrow> u32 \<Rightarrow> u32 \<Rightarrow> u32 \<Rightarrow> u32 \<Rightarrow> u32 \<Rightarrow> u32 \<Rightarrow> u32 \<Rightarrow> u32 \<Rightarrow> u32 \<Rightarrow> u32 \<Rightarrow> u32
    \<Rightarrow> (u32 \<Rightarrow> u32) \<Rightarrow> 'a sched_state_scheme \<Rightarrow> 'a sched_state_scheme" where
  "do_int3 esp error_code fs es ds ebp esi edi edx ecx ebx eax tr stk s =
     (let row = ''%x'' @ TAB @ ''%x'' @ TAB @ ''%x'' @ TAB @ ''%x'';
          s = printk (''eax'' @ TAB @ ''ebx'' @ TAB @ ''ecx'' @ TAB @ ''edx'' @ TAB @ NL @ row) [eax, ebx, ecx, edx] s;
          s = printk (''esi'' @ TAB @ ''edi'' @ TAB @ ''ebp'' @ TAB @ ''esp'' @ TAB @ NL @ row) [esi, edi, ebp, esp] s;
          s = printk (''ds'' @ TAB @ ''es'' @ TAB @ ''fs'' @ TAB @ ''tr'' @ NL @ row) [ds, es, fs, tr] s;
          s = printk ''EIP: %x    CS:%x     EFLAGS: %x'' [stk esp, stk (esp + 4), stk (esp + 8)] s
      in printk ''errno = %d'' [error_code] s)"

definition do_stub :: "u32 \<Rightarrow> u32 \<Rightarrow> 'a sched_state_scheme \<Rightarrow> 'a sched_state_scheme" where
  "do_stub esp error_code s = printk ''stub interrupt! %x, %x'' [esp, error_code] s"

section \<open>trap\_init and sched\_init\<close>

definition reserve_traps :: "(handler \<Rightarrow> u32) \<Rightarrow> 'a boot_state_scheme \<Rightarrow> 'a boot_state_scheme" where
  "reserve_traps adr s = fold (\<lambda>i. set_trap_gate i (adr Reserved)) [17..<48] s"

definition trap_init :: "(handler \<Rightarrow> u32) \<Rightarrow> 'a boot_state_scheme \<Rightarrow> 'a boot_state_scheme" where
  "trap_init adr s =
     (let s = set_trap_gate 0 (adr Divide_error) s;
          s = set_trap_gate 1 (adr Debug) s;
          s = set_trap_gate 2 (adr Nmi) s;
          s = set_system_gate 3 (adr Int3) s;
          s = set_system_gate 4 (adr Overflow) s;
          s = set_system_gate 5 (adr Bounds) s;
          s = set_trap_gate 6 (adr Double_fault) s;
          s = set_trap_gate 7 (adr Device_not_available) s;
          s = set_trap_gate 8 (adr Double_fault) s;
          s = set_trap_gate 9 (adr Coprocessor_segment_overrun) s;
          s = set_trap_gate 10 (adr Invalid_TSS) s;
          s = set_trap_gate 11 (adr Segment_not_present) s;
          s = set_trap_gate 12 (adr Stack_segment) s;
          s = set_trap_gate 13 (adr General_protection) s;
          s = set_trap_gate 14 (adr Page_fault) s;
          s = set_trap_gate 15 (adr Reserved) s;
          s = set_trap_gate 16 (adr Coprocessor_error) s;
          s = reserve_traps adr s;
          s = set_trap_gate 45 (adr Irq13) s;
          (v, s) = inb 0x21 s;
          s = outb (ucast (v AND 0xfb)) 0x21 s;
          (v, s) = inb 0xA1 s;
          s = outb (ucast (v AND 0xdf)) 0xA1 s
      in set_trap_gate 39 (adr Parallel_interrupt) s)"

text \<open>
  \<open>init_task.task\<close> lies at \<open>init_task\<close>. The flag NT and the registers \<open>tr\<close> and \<open>ldtr\<close> are not
  part of the state.
\<close>

definition clear_slot :: "nat \<Rightarrow> 'a proc_state_scheme \<Rightarrow> 'a proc_state_scheme" where
  "clear_slot i s =
     s\<lparr>task := (task s)[i := 0],
       gdt := (gdt s)[2 * i + 4 := \<lparr>desc_a = 0, desc_b = 0\<rparr>, 2 * i + 5 := \<lparr>desc_a = 0, desc_b = 0\<rparr>]\<rparr>"

definition clear_slots :: "'a proc_state_scheme \<Rightarrow> 'a proc_state_scheme" where
  "clear_slots s = fold clear_slot [1..<NR_TASKS] s"

definition sched_init :: "(handler \<Rightarrow> u32) \<Rightarrow> 'a boot_state_scheme \<Rightarrow> 'a boot_state_scheme" where
  "sched_init adr s =
     (let divisor = 11931 :: u32;
          s = s\<lparr>gdt := (gdt s)[FIRST_TSS_ENTRY := set_tss_desc (init_task s + tss_offset)]\<rparr>;
          s = s\<lparr>gdt := (gdt s)[FIRST_LDT_ENTRY := set_ldt_desc (init_task s + ldt_offset)]\<rparr>;
          s = clear_slots s;
          s = outb 0x36 0x43 s;
          s = outb (divisor AND 0xff) 0x40 s;
          s = outb (drop_bit 8 divisor) 0x40 s;
          s = set_intr_gate 0x20 (adr Timer_interrupt) s;
          (v, s) = inb 0x21 s;
          s = outb (ucast (v AND 0xfe)) 0x21 s
      in set_system_gate 0x80 (adr System_call) s)"

section \<open>Reading a gate\<close>

definition gate_offset :: "desc_struct \<Rightarrow> u32" where
  "gate_offset d = (desc_b d AND 0xffff0000) OR (desc_a d AND 0xffff)"

definition gate_selector :: "desc_struct \<Rightarrow> u32" where
  "gate_selector d = drop_bit 16 (desc_a d)"

definition gate_dpl :: "desc_struct \<Rightarrow> u32" where
  "gate_dpl d = drop_bit 13 (desc_b d) AND 3"

definition gate_type :: "desc_struct \<Rightarrow> u32" where
  "gate_type d = drop_bit 8 (desc_b d) AND 0xf"

definition gate_present :: "desc_struct \<Rightarrow> bool" where
  "gate_present d \<longleftrightarrow> drop_bit 15 (desc_b d) AND 1 = 1"

definition gate_is :: "u32 \<Rightarrow> u32 \<Rightarrow> u32 \<Rightarrow> desc_struct \<Rightarrow> bool" where
  "gate_is type dpl addr d \<longleftrightarrow> gate_offset d = addr \<and> gate_selector d = 8 \<and> gate_type d = type \<and> gate_dpl d = dpl \<and> gate_present d"

lemma gate_fields:
  "gate_is 0xF 0 addr (gate 0xF 0 addr)" "gate_is 0xE 0 addr (gate 0xE 0 addr)" "gate_is 0xF 3 addr (gate 0xF 3 addr)"
proof -
  have split: "(addr AND 0xffff0000) OR (addr AND 0xffff) = addr"
  proof -
    have "(addr AND 0xffff0000) OR (addr AND 0xffff) = addr AND (0xffff0000 OR 0xffff)" by (rule bit.conj_disj_distrib [symmetric])
    also have "(0xffff0000 OR 0xffff :: u32) = - 1" by simp
    finally show ?thesis by simp
  qed
  show "gate_is 0xF 0 addr (gate 0xF 0 addr)" "gate_is 0xE 0 addr (gate 0xE 0 addr)" "gate_is 0xF 3 addr (gate 0xF 3 addr)"
    using split by (simp_all add: gate_is_def gate_def gate_offset_def gate_selector_def gate_type_def gate_dpl_def gate_present_def
      bit.conj_disj_distrib2 drop_bit_or drop_bit_and and.assoc)
qed

section \<open>The tables after start-up\<close>

lemma set_gate_idt [simp]:
  "idt (set_trap_gate n a s) = (idt s)[n := gate 0xF 0 a]" "idt (set_intr_gate n a s) = (idt s)[n := gate 0xE 0 a]"
  "idt (set_system_gate n a s) = (idt s)[n := gate 0xF 3 a]"
  by (simp_all add: set_trap_gate_def set_intr_gate_def set_system_gate_def set_gate_def)

lemma port_idt [simp]: "idt (outb v p s) = idt s" "idt (snd (inb p s)) = idt s"
  by (simp_all add: outb_def inb_def)

lemma fold_gates:
  "length (idt (fold (\<lambda>i. set_trap_gate i a) ns s)) = length (idt s)"
  "n < length (idt s) \<Longrightarrow> idt (fold (\<lambda>i. set_trap_gate i a) ns s) ! n = (if n \<in> set ns then gate 0xF 0 a else idt s ! n)"
  by (induction ns arbitrary: s) (auto simp: nth_list_update)

lemma reserve_traps_idt:
  "length (idt (reserve_traps adr s)) = length (idt s)"
  "n < length (idt s) \<Longrightarrow> idt (reserve_traps adr s) ! n = (if 17 \<le> n \<and> n < 48 then gate 0xF 0 (adr Reserved) else idt s ! n)"
  unfolding reserve_traps_def by (simp_all only: fold_gates set_upt atLeastLessThan_iff)

text \<open>The vectors that \<open>trap_init\<close> sets, in order.\<close>

definition trap_handlers :: "handler list" where
  "trap_handlers = [Divide_error, Debug, Nmi, Int3, Overflow, Bounds, Double_fault, Device_not_available, Double_fault,
     Coprocessor_segment_overrun, Invalid_TSS, Segment_not_present, Stack_segment, General_protection, Page_fault,
     Reserved, Coprocessor_error] @ (replicate 31 Reserved)[39 - 17 := Parallel_interrupt, 45 - 17 := Irq13]"

lemma trap_init_idt:
  "idt (trap_init adr s) = (let t = reserve_traps adr
     (s\<lparr>idt := (idt s)[0 := gate 0xF 0 (adr Divide_error), 1 := gate 0xF 0 (adr Debug), 2 := gate 0xF 0 (adr Nmi),
       3 := gate 0xF 3 (adr Int3), 4 := gate 0xF 3 (adr Overflow), 5 := gate 0xF 3 (adr Bounds), 6 := gate 0xF 0 (adr Double_fault),
       7 := gate 0xF 0 (adr Device_not_available), 8 := gate 0xF 0 (adr Double_fault), 9 := gate 0xF 0 (adr Coprocessor_segment_overrun),
       10 := gate 0xF 0 (adr Invalid_TSS), 11 := gate 0xF 0 (adr Segment_not_present), 12 := gate 0xF 0 (adr Stack_segment),
       13 := gate 0xF 0 (adr General_protection), 14 := gate 0xF 0 (adr Page_fault), 15 := gate 0xF 0 (adr Reserved),
       16 := gate 0xF 0 (adr Coprocessor_error)]\<rparr>)
     in (idt t)[45 := gate 0xF 0 (adr Irq13), 39 := gate 0xF 0 (adr Parallel_interrupt)])"
  by (simp add: trap_init_def Let_def inb_def set_trap_gate_def set_system_gate_def set_gate_def)

lemma trap_init_nth:
  assumes "length (idt s) = 256" "n < 256"
  shows "idt (trap_init adr s) ! n =
    (if n < 48 then gate 0xF (if n \<in> {3, 4, 5} then 3 else 0) (adr (trap_handlers ! n)) else idt s ! n)"
proof -
  have len: "length (idt (s\<lparr>idt := xs\<rparr>)) = length xs" for xs by simp
  consider "n \<in> set [0..<17]" | "17 \<le> n" "n < 48" | "48 \<le> n" by force
  then show ?thesis
  proof cases
    case 1
    have "[0..<17] = [0, 1, 2, 3, 4, 5, 6, 7, 8, 9, 10, 11, 12, 13, 14, 15, 16 :: nat]" by (simp add: upt_rec)
    with 1 have "n \<in> {0, 1, 2, 3, 4, 5, 6, 7, 8, 9, 10, 11, 12, 13, 14, 15, 16}" by (simp del: set_upt)
    then show ?thesis using assms(1) unfolding trap_init_idt Let_def
      by (elim insertE emptyE; simp add: reserve_traps_idt trap_handlers_def)
  next
    case 2
    obtain xs where xs: "length xs = 17" "trap_handlers = xs @ (replicate 31 Reserved)[39 - 17 := Parallel_interrupt, 45 - 17 := Irq13]"
      by (rule that [OF _ trap_handlers_def]) simp
    have "trap_handlers ! n = (replicate 31 Reserved)[39 - 17 := Parallel_interrupt, 45 - 17 := Irq13] ! (n - 17)"
      unfolding xs(2) nth_append xs(1) using 2 by simp
    also have "\<dots> = (if n = 39 then Parallel_interrupt else if n = 45 then Irq13 else Reserved)"
      using 2 by (auto simp: nth_list_update)
    finally show ?thesis using 2 assms unfolding trap_init_idt Let_def
      by (auto simp: reserve_traps_idt nth_list_update)
  next
    case 3
    then show ?thesis using assms unfolding trap_init_idt Let_def by (simp add: reserve_traps_idt)
  qed
qed

end
