(* ===== verification/Boot.thy ===== *)
theory Boot
  imports Traps
begin

text \<open>
  Starting the kernel, \<open>main\<close> of \<^verbatim>\<open>init/main.c\<close> up to the move to user mode: the tables of
  all components are set up one after the other. Where the kernel image ends is the parameter
  \<open>end_addr\<close>, the word at 0x901FC that holds the root device is the parameter \<open>root\<close>. The parameters
  of the drives that \<open>main\<close> saves for \<open>sys_setup\<close> are an argument of that call.
\<close>

section \<open>The sequence\<close>

text \<open>The parts of \<open>con_init\<close> and of \<open>hd_init\<close> that set gates, with the rest of them.\<close>

definition tty_start :: "(handler \<Rightarrow> u32) \<Rightarrow> 'a boot_state_scheme \<Rightarrow> 'a boot_state_scheme" where
  "tty_start adr s = tty_init (set_trap_gate 0x21 (adr Keyboard_interrupt) s)"

definition hd_start :: "(handler \<Rightarrow> u32) \<Rightarrow> 'a boot_state_scheme \<Rightarrow> 'a boot_state_scheme" where
  "hd_start adr s = hd_init (set_intr_gate 0x2E (adr Hd_interrupt) s)"

definition start_kernel :: "(handler \<Rightarrow> u32) \<Rightarrow> u32 \<Rightarrow> u16 \<Rightarrow> 'a boot_state_scheme \<Rightarrow> ('a boot_state_scheme, unit) outcome" where
  "start_kernel adr end_addr root s =
     (let s = s\<lparr>ROOT_DEV := ucast root\<rparr>;
          buffer_memory_end = 1 * 1024 * 1024;
          main_memory_start = buffer_memory_end;
          s = video_init s;
          s = trap_init adr s;
          s = sched_init adr s;
          s = tty_start adr s
      in kbind (buffer_init end_addr buffer_memory_end s) (\<lambda>_ s.
         let s = blk_dev_init s;
             s = hd_start adr s;
             s = printk ''Welcome to Linux0.1 Kernel Mode(NO)'' [] s
         in mem_init main_memory_start 0x300000 s))"

section \<open>What each step leaves alone\<close>

definition set_up :: "'a proc_state_scheme \<Rightarrow> desc_struct list \<times> u32 list \<times> u32 \<times> request list \<times> blk_dev_struct list" where
  "set_up s = (gdt s, task s, init_task s, request s, blk_dev s)"

definition cached :: "'a fs_state_scheme \<Rightarrow> (nat \<Rightarrow> buffer_head) \<times> nat option list \<times> nat option \<times> nat" where
  "cached s = (bufs s, hash_table s, free_list s, nr_buffers s)"

lemma gate_leaves [simp]:
  "set_up (set_trap_gate n a s) = set_up s" "set_up (set_intr_gate n a s) = set_up s" "set_up (set_system_gate n a s) = set_up s"
  "cached (set_trap_gate n a s) = cached s" "cached (set_intr_gate n a s) = cached s" "cached (set_system_gate n a s) = cached s"
  by (simp_all add: set_up_def cached_def set_trap_gate_def set_intr_gate_def set_system_gate_def set_gate_def)

lemma fields_leave [simp]:
  "set_up (s\<lparr>outs := os\<rparr>) = set_up s" "set_up (s\<lparr>in_time := n\<rparr>) = set_up s" "set_up (s\<lparr>vmem := m\<rparr>) = set_up s"
  "set_up (s\<lparr>video_x := x\<rparr>) = set_up s" "set_up (s\<lparr>video_y := x\<rparr>) = set_up s" "set_up (s\<lparr>tty_table := ts\<rparr>) = set_up s"
  "set_up (s\<lparr>mem_map := mm\<rparr>) = set_up s" "set_up (s\<lparr>HIGH_MEMORY := x\<rparr>) = set_up s" "set_up (s\<lparr>ROOT_DEV := x\<rparr>) = set_up s"
  "set_up (s\<lparr>klog := l\<rparr>) = set_up s" "set_up (s\<lparr>bufs := bs\<rparr>) = set_up s" "set_up (s\<lparr>waitq := w\<rparr>) = set_up s"
  "set_up (s\<lparr>nr_buffers := n\<rparr>) = set_up s" "set_up (s\<lparr>free_list := fl\<rparr>) = set_up s" "set_up (s\<lparr>hash_table := h\<rparr>) = set_up s"
  "cached (s\<lparr>outs := os\<rparr>) = cached s" "cached (s\<lparr>in_time := n\<rparr>) = cached s" "cached (t\<lparr>vmem := m\<rparr>) = cached t"
  "cached (t\<lparr>video_x := x\<rparr>) = cached t" "cached (t\<lparr>video_y := x\<rparr>) = cached t" "cached (t\<lparr>tty_table := ts\<rparr>) = cached t"
  "cached (s\<lparr>mem_map := mm\<rparr>) = cached s" "cached (s\<lparr>HIGH_MEMORY := x\<rparr>) = cached s" "cached (s\<lparr>ROOT_DEV := x\<rparr>) = cached s"
  "cached (s\<lparr>klog := l\<rparr>) = cached s" "cached (t\<lparr>request := r\<rparr>) = cached t" "cached (t\<lparr>blk_dev := b\<rparr>) = cached t"
  "cached (s\<lparr>gdt := g\<rparr>) = cached s" "cached (s\<lparr>task := tk\<rparr>) = cached s"
  by (simp_all add: set_up_def cached_def)

lemma port_leaves [simp]:
  "set_up (outb v p s) = set_up s" "set_up (snd (inb p s)) = set_up s" "cached (outb v p s) = cached s" "cached (snd (inb p s)) = cached s"
  by (simp_all add: outb_def inb_def)

lemma video_cells:
  fixes s :: "'a boot_state_scheme"
  shows "\<exists>m. fold (\<lambda>x. fold (\<lambda>y. video_putchar_at c (f x) (g y) a) ys) xs s = s\<lparr>vmem := m\<rparr>"
proof -
  have row: "\<exists>m. fold (\<lambda>y. video_putchar_at c x (g y) a) ys s = s\<lparr>vmem := m\<rparr>" for x and s :: "'a boot_state_scheme"
  proof (induction ys arbitrary: s)
    case Nil
    show ?case by (intro exI [of _ "vmem s"]) simp
  next
    case (Cons y ys)
    have "\<exists>m. video_putchar_at c x (g y) a s = s\<lparr>vmem := m\<rparr>" by (simp add: video_putchar_at_def Let_def) blast
    then obtain m where "video_putchar_at c x (g y) a s = s\<lparr>vmem := m\<rparr>" ..
    with Cons.IH [of "s\<lparr>vmem := m\<rparr>"] show ?case by auto
  qed
  show ?thesis
  proof (induction xs arbitrary: s)
    case Nil
    show ?case by (intro exI [of _ "vmem s"]) simp
  next
    case (Cons x xs)
    obtain m where "fold (\<lambda>y. video_putchar_at c (f x) (g y) a) ys s = s\<lparr>vmem := m\<rparr>" using row by blast
    with Cons.IH [of "s\<lparr>vmem := m\<rparr>"] show ?case by auto
  qed
qed

lemma video_init_leaves: "set_up (video_init s) = set_up s" "cached (video_init s) = cached s" "idt (video_init s) = idt s"
proof -
  let ?s = "s\<lparr>video_x := 0, video_y := 0\<rparr>"
  obtain m where m: "video_clear ?s = ?s\<lparr>vmem := m\<rparr>"
    using video_cells [of 32 of_nat of_nat WHITE_ON_BLACK "[0..<25]" "[0..<80]" ?s] by (auto simp: video_clear_def)
  show "set_up (video_init s) = set_up s" "cached (video_init s) = cached s" "idt (video_init s) = idt s"
    unfolding video_init_def m Let_def update_cursor_def by (simp_all add: set_up_def cached_def outb_def)
qed

lemma reserve_traps_leaves [simp]: "set_up (reserve_traps adr s) = set_up s" "cached (reserve_traps adr s) = cached s"
proof -
  have "set_up (fold (\<lambda>i. set_trap_gate i a) ns s) = set_up s \<and> cached (fold (\<lambda>i. set_trap_gate i a) ns s) = cached s" for ns a
    by (induction ns arbitrary: s) simp_all
  then show "set_up (reserve_traps adr s) = set_up s" "cached (reserve_traps adr s) = cached s"
    by (simp_all only: reserve_traps_def)
qed

lemma trap_init_leaves: "set_up (trap_init adr s) = set_up s" "cached (trap_init adr s) = cached s"
  by (simp_all add: trap_init_def Let_def split_beta)

lemma tty_start_leaves: "set_up (tty_start adr s) = set_up s" "cached (tty_start adr s) = cached s"
  "idt (tty_start adr s) = (idt s)[0x21 := gate 0xF 0 (adr Keyboard_interrupt)]"
  by (simp_all add: tty_start_def tty_init_def con_init_def Let_def split_beta ttyupd_def)

lemma slots_of:
  "length (task (fold clear_slot ns s)) = length (task s)" "length (gdt (fold clear_slot ns s)) = length (gdt s)"
  "n < length (task s) \<Longrightarrow> task (fold clear_slot ns s) ! n = (if n \<in> set ns then 0 else task s ! n)"
  "n < length (gdt s) \<Longrightarrow> gdt (fold clear_slot ns s) ! n =
     (if \<exists>i \<in> set ns. n = 2 * i + 4 \<or> n = 2 * i + 5 then \<lparr>desc_a = 0, desc_b = 0\<rparr> else gdt s ! n)"
  "init_task (fold clear_slot ns s) = init_task s" "request (fold clear_slot ns s) = request s"
  "blk_dev (fold clear_slot ns s) = blk_dev s" "cached (fold clear_slot ns s) = cached s"
  by (induction ns arbitrary: s) (auto simp: clear_slot_def nth_list_update cached_def)

lemma slots_idt: "idt (fold clear_slot ns s) = idt s"
  by (induction ns arbitrary: s) (simp_all add: clear_slot_def)

lemma clear_slots_facts:
  "length (task (clear_slots s)) = length (task s)" "length (gdt (clear_slots s)) = length (gdt s)"
  "n < length (task s) \<Longrightarrow> task (clear_slots s) ! n = (if 1 \<le> n \<and> n < 64 then 0 else task s ! n)"
  "n < length (gdt s) \<Longrightarrow> gdt (clear_slots s) ! n = (if 6 \<le> n \<and> n < 132 then \<lparr>desc_a = 0, desc_b = 0\<rparr> else gdt s ! n)"
  "init_task (clear_slots s) = init_task s" "request (clear_slots s) = request s" "blk_dev (clear_slots s) = blk_dev s"
  "cached (clear_slots s) = cached s" "idt (clear_slots s) = idt s"
proof -
  have "(\<exists>i \<in> {1..<64}. n = 2 * i + 4 \<or> n = 2 * i + 5) \<longleftrightarrow> 6 \<le> n \<and> n < 132" by (auto intro!: bexI [of _ "(n - 4) div 2"])
  then show "length (task (clear_slots s)) = length (task s)" "length (gdt (clear_slots s)) = length (gdt s)"
    "n < length (task s) \<Longrightarrow> task (clear_slots s) ! n = (if 1 \<le> n \<and> n < 64 then 0 else task s ! n)"
    "n < length (gdt s) \<Longrightarrow> gdt (clear_slots s) ! n = (if 6 \<le> n \<and> n < 132 then \<lparr>desc_a = 0, desc_b = 0\<rparr> else gdt s ! n)"
    "init_task (clear_slots s) = init_task s" "request (clear_slots s) = request s" "blk_dev (clear_slots s) = blk_dev s"
    "cached (clear_slots s) = cached s" "idt (clear_slots s) = idt s"
    unfolding clear_slots_def by (simp_all only: slots_of slots_idt set_upt atLeastLessThan_iff Bex_def)
qed

lemma sched_init_leaves:
  "cached (sched_init adr s) = cached s"
  "idt (sched_init adr s) = (idt s)[0x20 := gate 0xE 0 (adr Timer_interrupt), 0x80 := gate 0xF 3 (adr System_call)]"
  "set_up (sched_init adr s) = set_up (clear_slots (s\<lparr>gdt := (gdt s)[4 := set_tss_desc (init_task s + tss_offset),
     5 := set_ldt_desc (init_task s + ldt_offset)]\<rparr>))"
  by (simp_all add: sched_init_def Let_def split_beta clear_slots_facts)

text \<open>The global descriptor table with the two descriptors of task 0 and no other task.\<close>

definition gdt_started :: "u32 \<Rightarrow> desc_struct list \<Rightarrow> nat \<Rightarrow> desc_struct" where
  "gdt_started p g n = (if n = 4 then set_tss_desc (p + tss_offset) else if n = 5 then set_ldt_desc (p + ldt_offset)
     else if 6 \<le> n \<and> n < 132 then \<lparr>desc_a = 0, desc_b = 0\<rparr> else g ! n)"

lemma sched_init_facts:
  assumes "length (task s) = NR_TASKS" "length (gdt s) = 256"
  shows "request (sched_init adr s) = request s" "blk_dev (sched_init adr s) = blk_dev s" "init_task (sched_init adr s) = init_task s"
    "task (sched_init adr s) = task s ! 0 # replicate 63 0" "length (gdt (sched_init adr s)) = 256"
    "n < 256 \<Longrightarrow> gdt (sched_init adr s) ! n = gdt_started (init_task s) (gdt s) n"
proof -
  let ?s = "s\<lparr>gdt := (gdt s)[4 := set_tss_desc (init_task s + tss_offset), 5 := set_ldt_desc (init_task s + ldt_offset)]\<rparr>"
  have f: "request (sched_init adr s) = request (clear_slots ?s)" "blk_dev (sched_init adr s) = blk_dev (clear_slots ?s)"
    "init_task (sched_init adr s) = init_task (clear_slots ?s)" "task (sched_init adr s) = task (clear_slots ?s)"
    "gdt (sched_init adr s) = gdt (clear_slots ?s)"
    using sched_init_leaves(3) [of adr s] by (simp_all add: set_up_def)
  show "request (sched_init adr s) = request s" "blk_dev (sched_init adr s) = blk_dev s" "init_task (sched_init adr s) = init_task s"
    "length (gdt (sched_init adr s)) = 256"
    using assms by (simp_all add: f clear_slots_facts)
  show "n < 256 \<Longrightarrow> gdt (sched_init adr s) ! n = gdt_started (init_task s) (gdt s) n"
    using assms by (simp add: f clear_slots_facts gdt_started_def)
  show "task (sched_init adr s) = task s ! 0 # replicate 63 0"
  proof (rule nth_equalityI)
    show "length (task (sched_init adr s)) = length (task s ! 0 # replicate 63 0)" using assms by (simp add: f clear_slots_facts)
  next
    fix i assume "i < length (task (sched_init adr s))"
    then have "i < 64" using assms by (simp add: f clear_slots_facts)
    then show "task (sched_init adr s) ! i = (task s ! 0 # replicate 63 0) ! i"
      using assms by (cases i) (simp_all add: f clear_slots_facts)
  qed
qed

lemma buffer_init_loop_leaves:
  "buffer_init_loop k e b i s = Done j t \<Longrightarrow> set_up t = set_up s \<and> idt t = idt s"
proof (induction k arbitrary: b i s)
  case (Suc k)
  then show ?case by (cases "b - 1024 \<ge> e + 36 * of_nat (i + 1)") (auto simp: Let_def bupd_def dest!: Suc.IH)
qed simp

lemma buffer_init_leaves: "buffer_init e b s = Done () t \<Longrightarrow> set_up t = set_up s \<and> idt t = idt s"
proof -
  assume r: "buffer_init e b s = Done () t"
  let ?b = "if b = 0x100000 then 640 * 1024 else b"
  obtain j u where l: "buffer_init_loop (Suc (2 ^ 22)) e ?b 0 s = Done j u" "j \<noteq> 0"
    using r unfolding buffer_init_def Let_def by (cases "buffer_init_loop (Suc (2 ^ 22)) e ?b 0 s") (auto split: if_splits)
  from buffer_init_loop_leaves [OF l(1)] r l(2) show ?thesis
    unfolding buffer_init_def Let_def l(1) by (auto simp: bupd_def)
qed

lemma rupd_all:
  "i < length (request s) \<Longrightarrow> request (fold (\<lambda>i. rupd i f) [0..<n] s) ! i = (if i < n then f (request s ! i) else request s ! i)"
  "length (request (fold (\<lambda>i. rupd i f) [0..<n] s)) = length (request s)"
  "cached (fold (\<lambda>i. rupd i f) [0..<n] s) = cached s" "idt (fold (\<lambda>i. rupd i f) [0..<n] s) = idt s"
  "gdt (fold (\<lambda>i. rupd i f) [0..<n] s) = gdt s" "task (fold (\<lambda>i. rupd i f) [0..<n] s) = task s"
  "blk_dev (fold (\<lambda>i. rupd i f) [0..<n] s) = blk_dev s"
  by (induction n) (auto simp: rupd_def nth_list_update less_Suc_eq)

lemma blk_dev_init_leaves:
  "length (request s) = NR_REQUEST \<Longrightarrow> i < NR_REQUEST \<Longrightarrow>
     r_dev (request (blk_dev_init s) ! i) = -1 \<and> r_next (request (blk_dev_init s) ! i) = None"
  "cached (blk_dev_init s) = cached s" "idt (blk_dev_init s) = idt s" "gdt (blk_dev_init s) = gdt s"
  "task (blk_dev_init s) = task s" "blk_dev (blk_dev_init s) = blk_dev s"
  unfolding blk_dev_init_def by (simp_all only: rupd_all) simp_all

lemma hd_start_leaves:
  "cached (hd_start adr s) = cached s" "idt (hd_start adr s) = (idt s)[0x2E := gate 0xE 0 (adr Hd_interrupt)]"
  "gdt (hd_start adr s) = gdt s" "task (hd_start adr s) = task s" "request (hd_start adr s) = request s"
  "blk_dev (hd_start adr s) = (blk_dev s)[3 := (blk_dev s ! 3)\<lparr>request_fn := Some Do_hd_request\<rparr>]"
  by (simp_all add: hd_start_def hd_init_def Let_def split_beta dupd_def set_intr_gate_def set_gate_def outb_def inb_def cached_def)

lemma clear_map_leaves: "clear_map n i s = Done () t \<Longrightarrow> set_up t = set_up s \<and> idt t = idt s \<and> cached t = cached s"
proof (induction n arbitrary: i s)
  case (Suc n)
  then show ?case by (auto simp: mem_map_at_def set_mem_map_def split: if_splits dest!: Suc.IH)
qed simp

section \<open>The inode table and the root device\<close>

text \<open>No step touches the inode table, and the root device stays as \<open>main\<close> sets it first.\<close>

definition rooted :: "'a fs_state_scheme \<Rightarrow> m_inode list \<times> u32" where
  "rooted s = (inode_table s, ROOT_DEV s)"

lemma gate_rooted [simp]:
  "rooted (set_trap_gate n a s) = rooted s" "rooted (set_intr_gate n a s) = rooted s" "rooted (set_system_gate n a s) = rooted s"
  "rooted (outb v p s) = rooted s" "rooted (snd (inb p s)) = rooted s" "rooted (printk f as s) = rooted s"
  by (simp_all add: rooted_def set_trap_gate_def set_intr_gate_def set_system_gate_def set_gate_def outb_def inb_def printk_def)

lemma field_rooted [simp]:
  "rooted (t\<lparr>tty_table := ts\<rparr>) = rooted t" "rooted (s\<lparr>blk_dev := b\<rparr>) = rooted s" "rooted (s\<lparr>gdt := g\<rparr>) = rooted s"
  "rooted (s\<lparr>HIGH_MEMORY := x\<rparr>) = rooted s" "rooted (s\<lparr>mem_map := mm\<rparr>) = rooted s"
  by (simp_all add: rooted_def)

lemma video_init_rooted: "rooted (video_init s) = rooted s" for s :: "'a boot_state_scheme"
proof -
  let ?s = "s\<lparr>video_x := 0, video_y := 0\<rparr>"
  obtain m where m: "video_clear ?s = ?s\<lparr>vmem := m\<rparr>"
    using video_cells [of 32 of_nat of_nat WHITE_ON_BLACK "[0..<25]" "[0..<80]" ?s] by (auto simp: video_clear_def)
  show ?thesis unfolding video_init_def m Let_def update_cursor_def by (simp add: rooted_def outb_def)
qed

lemma trap_init_rooted: "rooted (trap_init adr s) = rooted s"
proof -
  have "rooted (reserve_traps adr s) = rooted s" for s :: "'a boot_state_scheme"
    unfolding reserve_traps_def by (rule fold_keeps [where I = "\<lambda>t. rooted t = rooted s"]) simp_all
  then show ?thesis by (simp add: trap_init_def Let_def split_beta)
qed

lemma sched_init_rooted: "rooted (sched_init adr s) = rooted s"
proof -
  have "rooted (clear_slots s) = rooted s" for s :: "'a boot_state_scheme"
    unfolding clear_slots_def
    by (rule fold_keeps [where I = "\<lambda>t. rooted t = rooted s"]) (simp_all add: clear_slot_def rooted_def)
  then show ?thesis by (simp add: sched_init_def Let_def split_beta)
qed

lemma tty_start_rooted: "rooted (tty_start adr s) = rooted s"
  by (simp add: tty_start_def tty_init_def con_init_def Let_def split_beta ttyupd_def)

lemma buffer_init_rooted: "buffer_init e b s = Done () t \<Longrightarrow> rooted t = rooted s"
proof -
  assume r: "buffer_init e b s = Done () t"
  have loop: "buffer_init_loop k e b i s = Done j t \<Longrightarrow> rooted t = rooted s" for k b i j and s t :: "'a fs_state_scheme"
  proof (induction k arbitrary: b i s)
    case (Suc k)
    then show ?case
      by (cases "b - 1024 \<ge> e + 36 * of_nat (i + 1)") (auto simp: Let_def bupd_def rooted_def dest!: Suc.IH)
  qed simp
  let ?b = "if b = 0x100000 then 640 * 1024 else b"
  obtain j u where l: "buffer_init_loop (Suc (2 ^ 22)) e ?b 0 s = Done j u" "j \<noteq> 0"
    using r unfolding buffer_init_def Let_def by (cases "buffer_init_loop (Suc (2 ^ 22)) e ?b 0 s") (auto split: if_splits)
  from loop [OF l(1)] r l(2) show ?thesis
    unfolding buffer_init_def Let_def l(1) by (auto simp: bupd_def rooted_def)
qed

lemma drivers_rooted: "rooted (hd_start adr (blk_dev_init s)) = rooted s"
proof -
  have "rooted (blk_dev_init s) = rooted s"
    unfolding blk_dev_init_def
    by (rule fold_keeps [where I = "\<lambda>t. rooted t = rooted s"]) (simp_all add: rupd_def rooted_def)
  then show ?thesis by (simp add: hd_start_def hd_init_def Let_def split_beta dupd_def)
qed

lemma clear_map_rooted: "clear_map n i s = Done () t \<Longrightarrow> rooted t = rooted s"
proof (induction n arbitrary: i s)
  case (Suc n)
  then show ?case by (auto simp: mem_map_at_def set_mem_map_def rooted_def split: if_splits dest!: Suc.IH)
qed simp

lemma start_kernel_rooted:
  assumes "start_kernel adr end_addr root s = Done () t"
  shows "inode_table t = inode_table s" "ROOT_DEV t = ucast root"
proof -
  define u where "u = tty_start adr (sched_init adr (trap_init adr (video_init (s\<lparr>ROOT_DEV := ucast root\<rparr>))))"
  from assms obtain w where w: "buffer_init end_addr 0x100000 u = Done () w"
    and t: "mem_init 0x100000 0x300000 (printk ''Welcome to Linux0.1 Kernel Mode(NO)'' [] (hd_start adr (blk_dev_init w))) = Done () t"
    unfolding start_kernel_def Let_def u_def by (auto elim!: kbind_DoneE)
  from clear_map_rooted [OF t [unfolded mem_init_def]] buffer_init_rooted [OF w]
  have "rooted t = rooted u" by (simp add: drivers_rooted)
  also have "rooted u = rooted (s\<lparr>ROOT_DEV := ucast root\<rparr>)"
    by (simp add: u_def tty_start_rooted sched_init_rooted trap_init_rooted video_init_rooted)
  finally show "inode_table t = inode_table s" "ROOT_DEV t = ucast root" by (simp_all add: rooted_def)
qed

section \<open>The started kernel\<close>

text \<open>The type, the privilege level and the handler of the vectors that are set.\<close>

definition boot_vector :: "nat \<Rightarrow> (u32 \<times> u32 \<times> handler) option" where
  "boot_vector n =
     (if n = 0x20 then Some (0xE, 0, Timer_interrupt) else if n = 0x21 then Some (0xF, 0, Keyboard_interrupt)
      else if n = 0x2E then Some (0xE, 0, Hd_interrupt) else if n = 0x80 then Some (0xF, 3, System_call)
      else if n < 48 then Some (0xF, if n \<in> {3, 4, 5} then 3 else 0, trap_handlers ! n) else None)"

lemma boot_idt:
  assumes "length (idt s) = 256" "n < 256"
  shows "case boot_vector n of Some (ty, dpl, h) \<Rightarrow>
      gate_is ty dpl (adr h) ((idt (trap_init adr s))[0x20 := gate 0xE 0 (adr Timer_interrupt), 0x80 := gate 0xF 3 (adr System_call),
        0x21 := gate 0xF 0 (adr Keyboard_interrupt), 0x2E := gate 0xE 0 (adr Hd_interrupt)] ! n)
    | None \<Rightarrow> (idt (trap_init adr s))[0x20 := gate 0xE 0 (adr Timer_interrupt), 0x80 := gate 0xF 3 (adr System_call),
        0x21 := gate 0xF 0 (adr Keyboard_interrupt), 0x2E := gate 0xE 0 (adr Hd_interrupt)] ! n = idt s ! n"
proof -
  have "length (idt (trap_init adr s)) = 256"
    using assms(1) by (simp add: trap_init_idt Let_def reserve_traps_idt)
  then show ?thesis using assms
    by (simp add: boot_vector_def nth_list_update trap_init_nth gate_fields)
qed

text \<open>The start in three parts: up to the traps and the terminal, the cache, and the drivers with the memory map.\<close>

lemma early_start:
  assumes "length (task s) = NR_TASKS" "length (gdt s) = 256" "length (idt s) = 256"
    and "u = tty_start adr (sched_init adr (trap_init adr (video_init (s\<lparr>ROOT_DEV := ucast root\<rparr>))))"
  shows "cached u = cached s" "task u = task s ! 0 # replicate 63 0" "request u = request s" "blk_dev u = blk_dev s"
    and "n < 256 \<Longrightarrow> gdt u ! n = gdt_started (init_task s) (gdt s) n"
    and "n < 256 \<Longrightarrow> case boot_vector n of
        Some (ty, dpl, h) \<Rightarrow> gate_is ty dpl (adr h) ((idt u)[0x2E := gate 0xE 0 (adr Hd_interrupt)] ! n)
      | None \<Rightarrow> (idt u)[0x2E := gate 0xE 0 (adr Hd_interrupt)] ! n = idt s ! n"
proof -
  define v where "v = video_init (s\<lparr>ROOT_DEV := ucast root\<rparr>)"
  have v: "set_up v = set_up s" "cached v = cached s" "idt v = idt s"
    using video_init_leaves [of "s\<lparr>ROOT_DEV := ucast root\<rparr>"] by (simp_all add: v_def)
  have u: "u = tty_start adr (sched_init adr (trap_init adr v))" by (simp add: assms(4) v_def)
  let ?t = "trap_init adr v"
  have "set_up ?t = set_up s" by (simp add: trap_init_leaves v)
  then have t: "task ?t = task s" "gdt ?t = gdt s" "init_task ?t = init_task s" "request ?t = request s" "blk_dev ?t = blk_dev s"
    by (simp_all add: set_up_def)
  note si = sched_init_facts [where s = ?t and adr = adr, unfolded t, OF assms(1,2)]
  show "cached u = cached s" by (simp add: u tty_start_leaves sched_init_leaves trap_init_leaves v)
  have "set_up u = set_up (sched_init adr ?t)" by (simp add: u tty_start_leaves)
  then show "task u = task s ! 0 # replicate 63 0" "request u = request s" "blk_dev u = blk_dev s"
    "n < 256 \<Longrightarrow> gdt u ! n = gdt_started (init_task s) (gdt s) n"
    using si by (auto simp: set_up_def)
  have iu: "idt u = (idt ?t)[0x20 := gate 0xE 0 (adr Timer_interrupt), 0x80 := gate 0xF 3 (adr System_call), 0x21 := gate 0xF 0 (adr Keyboard_interrupt)]"
    by (simp add: u tty_start_leaves sched_init_leaves)
  show "n < 256 \<Longrightarrow> case boot_vector n of
        Some (ty, dpl, h) \<Rightarrow> gate_is ty dpl (adr h) ((idt u)[0x2E := gate 0xE 0 (adr Hd_interrupt)] ! n)
      | None \<Rightarrow> (idt u)[0x2E := gate 0xE 0 (adr Hd_interrupt)] ! n = idt s ! n"
    using boot_idt [of v n adr, unfolded v(3), OF assms(3)] unfolding iu .
qed

lemma middle_start:
  assumes "nr_buffers u = 0" "1024 \<le> unat end_addr" "unat end_addr + 36 \<le> 0x9FC00"
  shows "\<exists>w. buffer_init end_addr 0x100000 u = Done () w \<and> cache_wf w \<and> 0 < nr_buffers w \<and>
    (\<forall>b < nr_buffers w. b_dev (bufs w b) = 0 \<and> b_count (bufs w b) = 0 \<and> b_lock (bufs w b) = 0 \<and> b_dirt (bufs w b) = 0) \<and>
    blocks_apart (bufs w) end_addr (nr_buffers w) \<and> set_up w = set_up u \<and> idt w = idt u"
proof -
  have "unat (end_addr + 36) = unat end_addr + 36" using assms(3) by (subst unat_add_lem [THEN iffD1]) simp_all
  then have e: "end_addr + 36 \<le> 0xA0000 - 1024" "unat end_addr < 0x40000000" using assms(3) by (simp_all add: word_le_nat_alt)
  obtain w where "buffer_init end_addr 0x100000 u = Done () w" "cache_wf w" "0 < nr_buffers w"
    "\<forall>b < nr_buffers w. b_dev (bufs w b) = 0 \<and> b_count (bufs w b) = 0 \<and> b_lock (bufs w b) = 0 \<and> b_dirt (bufs w b) = 0"
    "blocks_apart (bufs w) end_addr (nr_buffers w)"
    using buffer_init_ok [OF assms(1,2) e(2), of "0xA0000" "0x100000"] e(1) by (auto simp: block_end_ok_def)
  with buffer_init_leaves [OF this(1)] show ?thesis by auto
qed

lemma late_start:
  assumes "x = printk ''Welcome to Linux0.1 Kernel Mode(NO)'' [] (hd_start adr (blk_dev_init w))"
    and "length (request w) = NR_REQUEST" "length (blk_dev w) = NR_BLK_DEV"
  shows "\<exists>t. mem_init 0x100000 0x300000 x = Done () t \<and>
    (\<forall>k < PAGING_PAGES. mem_map t ! k = (if 0x100000 \<le> frame k \<and> frame k < 0x300000 then 0 else USED)) \<and>
    cached t = cached w \<and> task t = task w \<and> gdt t = gdt w \<and> idt t = (idt w)[0x2E := gate 0xE 0 (adr Hd_interrupt)] \<and>
    (\<forall>i < NR_REQUEST. r_dev (request t ! i) = -1) \<and> request_fn (blk_dev t ! 3) = Some Do_hd_request"
proof -
  have x: "cached x = cached w" "task x = task w" "gdt x = gdt w" "idt x = (idt w)[0x2E := gate 0xE 0 (adr Hd_interrupt)]"
    "request x = request (blk_dev_init w)" "blk_dev x = (blk_dev w)[3 := (blk_dev w ! 3)\<lparr>request_fn := Some Do_hd_request\<rparr>]"
    by (simp_all add: assms(1) printk_def hd_start_leaves blk_dev_init_leaves)
  obtain t where t: "mem_init 0x100000 0x300000 x = Done () t"
    "\<forall>k < PAGING_PAGES. mem_map t ! k = (if 0x100000 \<le> frame k \<and> frame k < 0x300000 then 0 else USED)"
    using mem_init_spec [of "0x100000" "0x300000" x] by auto
  have "set_up t = set_up x" "idt t = idt x" "cached t = cached x"
    using clear_map_leaves [OF t(1) [unfolded mem_init_def]] by (simp_all add: set_up_def cached_def)
  then show ?thesis using t x assms(2,3) blk_dev_init_leaves(1) [of w] by (intro exI [of _ t]) (auto simp: set_up_def)
qed

lemma start_kernel_runs:
  assumes "nr_buffers s = 0" "length (task s) = NR_TASKS" "length (gdt s) = 256" "length (idt s) = 256"
    and "length (request s) = NR_REQUEST" "length (blk_dev s) = NR_BLK_DEV"
    and "1024 \<le> unat end_addr" "unat end_addr + 36 \<le> 0x9FC00"
  shows "\<exists>t. start_kernel adr end_addr root s = Done () t \<and>
    cache_wf t \<and> 0 < nr_buffers t \<and> blocks_apart (bufs t) end_addr (nr_buffers t) \<and>
    (\<forall>b < nr_buffers t. b_dev (bufs t b) = 0 \<and> b_count (bufs t b) = 0 \<and> b_lock (bufs t b) = 0 \<and> b_dirt (bufs t b) = 0) \<and>
    (\<forall>k < PAGING_PAGES. mem_map t ! k = (if 0x100000 \<le> frame k \<and> frame k < 0x300000 then 0 else USED)) \<and>
    task t = task s ! 0 # replicate 63 0 \<and> (\<forall>n < 256. gdt t ! n = gdt_started (init_task s) (gdt s) n) \<and>
    (\<forall>n < 256. case boot_vector n of Some (ty, dpl, h) \<Rightarrow> gate_is ty dpl (adr h) (idt t ! n) | None \<Rightarrow> idt t ! n = idt s ! n) \<and>
    (\<forall>i < NR_REQUEST. r_dev (request t ! i) = -1) \<and> request_fn (blk_dev t ! 3) = Some Do_hd_request"
proof -
  obtain u where u: "u = tty_start adr (sched_init adr (trap_init adr (video_init (s\<lparr>ROOT_DEV := ucast root\<rparr>))))" by simp
  note early = early_start [OF assms(2-4) u]
  have "nr_buffers u = 0" using early(1) assms(1) by (simp add: cached_def)
  from middle_start [OF this assms(7,8)] obtain w where w: "buffer_init end_addr 0x100000 u = Done () w" "cache_wf w" "0 < nr_buffers w"
    "\<forall>b < nr_buffers w. b_dev (bufs w b) = 0 \<and> b_count (bufs w b) = 0 \<and> b_lock (bufs w b) = 0 \<and> b_dirt (bufs w b) = 0"
    "blocks_apart (bufs w) end_addr (nr_buffers w)" "set_up w = set_up u" "idt w = idt u" by blast
  have w': "task w = task u" "gdt w = gdt u" "request w = request u" "blk_dev w = blk_dev u" using w(6) by (simp_all add: set_up_def)
  obtain x where x: "x = printk ''Welcome to Linux0.1 Kernel Mode(NO)'' [] (hd_start adr (blk_dev_init w))" by simp
  from late_start [OF x] obtain t where t: "mem_init 0x100000 0x300000 x = Done () t"
    "\<forall>k < PAGING_PAGES. mem_map t ! k = (if 0x100000 \<le> frame k \<and> frame k < 0x300000 then 0 else USED)"
    "cached t = cached w" "task t = task w" "gdt t = gdt w" "idt t = (idt w)[0x2E := gate 0xE 0 (adr Hd_interrupt)]"
    "\<forall>i < NR_REQUEST. r_dev (request t ! i) = -1" "request_fn (blk_dev t ! 3) = Some Do_hd_request"
    using assms(5,6) w'(3,4) early(3,4) by auto
  have "start_kernel adr end_addr root s = Done () t"
    unfolding start_kernel_def Let_def using w(1) t(1) by (simp add: u x)
  moreover have "cache_wf t"
    by (rule cache_wf_same [OF w(2)]) (use t(3) in \<open>simp_all add: cached_def same_block_def\<close>)
  moreover have "nr_buffers t = nr_buffers w" "bufs t = bufs w" using t(3) by (simp_all add: cached_def)
  moreover have "case boot_vector n of Some (ty, dpl, h) \<Rightarrow> gate_is ty dpl (adr h) (idt t ! n) | None \<Rightarrow> idt t ! n = idt s ! n"
    if "n < 256" for n
    using early(6) [OF that] unfolding t(6) w(7) .
  ultimately show ?thesis using t(2,4,5,7,8) w(3-5) early(2,5) w'(1,2) by auto
qed

text \<open>C7: the kernel starts: when the image ends with room for one buffer below 640 KB, main gets to the move to
  user mode. It leaves an ordered cache whose blocks are disjoint, lie between the image and 640 KB and are
  all free, exactly the frames from 1 MB to 3 MB free, only task 0 in the task array, its two descriptors in
  the global descriptor table, every request free, the hard disk driver installed, and in the interrupt table
  the handler of every vector below 48 and of the system calls, user programs being admitted to the vectors
  3, 4, 5 and 0x80 only; vector 6, the invalid opcode, gets the handler of double faults.\<close>

theorem start_kernel_ready:
  assumes "nr_buffers s = 0" "length (task s) = NR_TASKS" "length (gdt s) = 256" "length (idt s) = 256"
    and "length (request s) = NR_REQUEST" "length (blk_dev s) = NR_BLK_DEV"
    and "1024 \<le> unat end_addr" "unat end_addr + 36 \<le> 0x9FC00"
  shows "\<exists>t. start_kernel adr end_addr root s = Done () t \<and>
    cache_wf t \<and> 0 < nr_buffers t \<and> blocks_apart (bufs t) end_addr (nr_buffers t) \<and>
    (\<forall>b < nr_buffers t. b_dev (bufs t b) = 0 \<and> b_count (bufs t b) = 0 \<and> b_lock (bufs t b) = 0 \<and> b_dirt (bufs t b) = 0) \<and>
    (\<forall>k < PAGING_PAGES. mem_map t ! k = (if 0x100000 \<le> frame k \<and> frame k < 0x300000 then 0 else USED)) \<and>
    task t = task s ! 0 # replicate 63 0 \<and> (\<forall>n < 256. gdt t ! n = gdt_started (init_task s) (gdt s) n) \<and>
    (\<forall>n < 256. case boot_vector n of Some (ty, dpl, h) \<Rightarrow> gate_is ty dpl (adr h) (idt t ! n) | None \<Rightarrow> idt t ! n = idt s ! n) \<and>
    (\<forall>i < NR_REQUEST. r_dev (request t ! i) = -1) \<and> request_fn (blk_dev t ! 3) = Some Do_hd_request"
  using assms by (rule start_kernel_runs)

definition boot_raw :: boot_state where
  "boot_raw = proc_state.extend fork_boot (boot_state.fields (replicate 256 \<lparr>desc_a = 0, desc_b = 0\<rparr>))"

lemma boot_raw_tables:
  "nr_buffers boot_raw = 0" "length (task boot_raw) = 64" "length (gdt boot_raw) = 256" "length (idt boot_raw) = 256"
  "length (request boot_raw) = 32" "length (blk_dev boot_raw) = 7"
  by (simp_all add: boot_raw_def boot_state.defs proc_state.defs fork_boot_def tty_state.defs tty_boot_def fs_state.defs
    fs_raw_def blk_state.defs blk_boot_def mm_state.defs mm_boot_def sched_state.defs sched_boot_def)

theorem start_kernel_ready_witness:
  "\<forall>adr. \<exists>t. start_kernel adr 0x20000 0x301 boot_raw = Done () t \<and> cache_wf t \<and>
     gate_is 0xF 0 (adr Double_fault) (idt t ! 6) \<and> gate_is 0xF 3 (adr System_call) (idt t ! 0x80)"
proof
  fix adr
  have "\<exists>t. start_kernel adr 0x20000 0x301 boot_raw = Done () t \<and>
    cache_wf t \<and> 0 < nr_buffers t \<and> blocks_apart (bufs t) 0x20000 (nr_buffers t) \<and>
    (\<forall>b < nr_buffers t. b_dev (bufs t b) = 0 \<and> b_count (bufs t b) = 0 \<and> b_lock (bufs t b) = 0 \<and> b_dirt (bufs t b) = 0) \<and>
    (\<forall>k < PAGING_PAGES. mem_map t ! k = (if 0x100000 \<le> frame k \<and> frame k < 0x300000 then 0 else USED)) \<and>
    task t = task boot_raw ! 0 # replicate 63 0 \<and> (\<forall>n < 256. gdt t ! n = gdt_started (init_task boot_raw) (gdt boot_raw) n) \<and>
    (\<forall>n < 256. case boot_vector n of Some (ty, dpl, h) \<Rightarrow> gate_is ty dpl (adr h) (idt t ! n) | None \<Rightarrow> idt t ! n = idt boot_raw ! n) \<and>
    (\<forall>i < NR_REQUEST. r_dev (request t ! i) = -1) \<and> request_fn (blk_dev t ! 3) = Some Do_hd_request"
    by (rule start_kernel_ready) (simp_all add: boot_raw_tables)
  then obtain t where t: "start_kernel adr 0x20000 0x301 boot_raw = Done () t" "cache_wf t"
    "\<forall>n < 256. case boot_vector n of Some (ty, dpl, h) \<Rightarrow> gate_is ty dpl (adr h) (idt t ! n) | None \<Rightarrow> idt t ! n = idt boot_raw ! n"
    by blast
  have "gate_is 0xF 0 (adr Double_fault) (idt t ! 6)" "gate_is 0xF 3 (adr System_call) (idt t ! 0x80)"
    using t(3) [rule_format, of 6] t(3) [rule_format, of "0x80"] by (simp_all add: boot_vector_def trap_handlers_def)
  with t show "\<exists>t. start_kernel adr 0x20000 0x301 boot_raw = Done () t \<and> cache_wf t \<and>
     gate_is 0xF 0 (adr Double_fault) (idt t ! 6) \<and> gate_is 0xF 3 (adr System_call) (idt t ! 0x80)" by blast
qed

end
