(* ===== verification/Signal.thy ===== *)
theory Signal
  imports Mm_Frame
begin

text \<open>
  Signals as a task sees them, \<^verbatim>\<open>kernel/signal.c\<close>: the mask, the installation of a handler
  with \<open>sigaction\<close>, and \<open>do_signal\<close>, which makes the return from a system call enter the
  handler with a frame on the user stack from which the library's restorer continues the program.
\<close>

abbreviation (input) SA_NOMASK :: u32 where "SA_NOMASK \<equiv> 0x40000000"
abbreviation (input) SA_ONESHOT :: u32 where "SA_ONESHOT \<equiv> 0x80000000"

definition sigupd :: "nat \<Rightarrow> (sigaction \<Rightarrow> sigaction) \<Rightarrow> 'a sched_state_scheme \<Rightarrow> 'a sched_state_scheme" where
  "sigupd k f s = tupd (current s) (\<lambda>t. t\<lparr>t_sigaction := (t_sigaction t)[k := f (t_sigaction t ! k)]\<rparr>) s"

section \<open>Entering a handler\<close>

text \<open>
  The arguments of \<open>do_signal\<close> are the registers the system call pushed on the kernel stack; the
  assignments to \<open>eip\<close> and \<open>esp\<close> change them there, and the return pops them.
\<close>

record syscall_frame =
  sf_eax :: u32
  sf_ebx :: u32
  sf_ecx :: u32
  sf_edx :: u32
  sf_fs :: u32
  sf_es :: u32
  sf_ds :: u32
  sf_eip :: u32
  sf_cs :: u32
  sf_eflags :: u32
  sf_esp :: u32
  sf_ss :: u32

primrec put_longs :: "u32 list \<Rightarrow> u32 \<Rightarrow> 'a mm_state_scheme \<Rightarrow> ('a mm_state_scheme, unit) outcome" where
  "put_longs [] tmp_esp s = Done () s"
| "put_longs (v # vs) tmp_esp s = kbind (put_fs_long v tmp_esp s) (\<lambda>_ s. put_longs vs (tmp_esp + 4) s)"

definition do_signal :: "u32 \<Rightarrow> syscall_frame \<Rightarrow> 'a mm_state_scheme \<Rightarrow> ('a mm_state_scheme, syscall_frame) outcome" where
  "do_signal signr r s =
     (if sint signr < 1 \<or> sint signr > 32 then Halted (Undef ''sigaction'') s
      else
        let k = unat (signr - 1);
            sa = t_sigaction (cur s) ! k
        in if sa_handler sa = 1 then Done r s
           else if sa_handler sa = 0 then (if signr = SIGCHLD then Done r s else Done r s)
           else
             let s1 = (if sa_flags sa AND SA_ONESHOT \<noteq> 0 then sigupd k (\<lambda>sa. sa\<lparr>sa_handler := 0\<rparr>) s else s);
                 nomask = (sa_flags sa AND SA_NOMASK \<noteq> 0);
                 longs = (if nomask then 7 else 8);
                 esp = sf_esp r - 4 * longs
             in kbind (verify_area esp (longs * 4) s1) (\<lambda>_ s.
                kbind (put_longs ([sa_restorer sa, signr] @ (if nomask then [] else [t_blocked (cur s)]) @
                         [sf_eax r, sf_ecx r, sf_edx r, sf_eflags r, sf_eip r]) esp s) (\<lambda>_ s.
                Done (r\<lparr>sf_eip := sa_handler sa, sf_esp := esp\<rparr>)
                  (tupd (current s) (\<lambda>t. t\<lparr>t_blocked := t_blocked t OR sa_mask sa\<rparr>) s))))"

section \<open>The mask\<close>

definition sys_sgetmask :: "'a sched_state_scheme \<Rightarrow> u32" where
  "sys_sgetmask s = t_blocked (cur s)"

definition sys_ssetmask :: "u32 \<Rightarrow> 'a sched_state_scheme \<Rightarrow> u32 \<times> 'a sched_state_scheme" where
  "sys_ssetmask newmask s =
     (t_blocked (cur s), tupd (current s) (\<lambda>t. t\<lparr>t_blocked := newmask AND NOT (push_bit (unat (SIGKILL - 1)) 1)\<rparr>) s)"

section \<open>sigaction\<close>

text \<open>\<open>struct sigaction\<close> as the 16 bytes the copies move.\<close>

definition set_byte32 :: "nat \<Rightarrow> u8 \<Rightarrow> u32 \<Rightarrow> u32" where
  "set_byte32 j b w = (w AND NOT (push_bit (8 * j) 0xff)) OR push_bit (8 * j) (ucast b)"

definition sa_put :: "nat \<Rightarrow> u8 \<Rightarrow> sigaction \<Rightarrow> sigaction" where
  "sa_put i b sa =
     (if i < 4 then sa\<lparr>sa_handler := set_byte32 i b (sa_handler sa)\<rparr>
      else if i < 8 then sa\<lparr>sa_mask := set_byte32 (i - 4) b (sa_mask sa)\<rparr>
      else if i < 12 then sa\<lparr>sa_flags := set_byte32 (i - 8) b (sa_flags sa)\<rparr>
      else sa\<lparr>sa_restorer := set_byte32 (i - 12) b (sa_restorer sa)\<rparr>)"

definition sa_bytes :: "sigaction \<Rightarrow> u8 list" where
  "sa_bytes sa = bytes32 (sa_handler sa) @ bytes32 (sa_mask sa) @ bytes32 (sa_flags sa) @ bytes32 (sa_restorer sa)"

primrec get_new_loop :: "nat \<Rightarrow> nat \<Rightarrow> u32 \<Rightarrow> nat \<Rightarrow> 'a mm_state_scheme \<Rightarrow> ('a mm_state_scheme, unit) outcome" where
  "get_new_loop 0 i from k s = Done () s"
| "get_new_loop (Suc n) i from k s =
     kbind (get_fs_byte from s) (\<lambda>b s. get_new_loop n (Suc i) (from + 1) k (sigupd k (sa_put i b) s))"

definition get_new :: "u32 \<Rightarrow> nat \<Rightarrow> 'a mm_state_scheme \<Rightarrow> ('a mm_state_scheme, unit) outcome" where
  "get_new from k s = get_new_loop 16 0 from k s"

definition save_old :: "sigaction \<Rightarrow> u32 \<Rightarrow> 'a mm_state_scheme \<Rightarrow> ('a mm_state_scheme, unit) outcome" where
  "save_old from to s = kbind (verify_area to 16 s) (\<lambda>_ s. put_bytes (sa_bytes from) to s)"

definition sys_sigaction :: "u32 \<Rightarrow> u32 \<Rightarrow> u32 \<Rightarrow> 'a mm_state_scheme \<Rightarrow> ('a mm_state_scheme, u32) outcome" where
  "sys_sigaction signum action old_action s =
     (if sint signum < 1 \<or> sint signum > 32 \<or> signum = SIGKILL then Done (-1) s
      else
        let k = unat (signum - 1);
            tmp = t_sigaction (cur s) ! k
        in kbind (get_new action k s) (\<lambda>_ s.
           kbind (if old_action \<noteq> 0 then save_old tmp old_action s else Done () s) (\<lambda>_ s.
             Done 0 (sigupd k (\<lambda>sa. if sa_flags sa AND SA_NOMASK \<noteq> 0 then sa\<lparr>sa_mask := 0\<rparr>
               else sa\<lparr>sa_mask := sa_mask sa OR push_bit k 1\<rparr>) s))))"

section \<open>The frame on the user stack\<close>

lemma put_longs_bytes: "put_longs vs a s = put_bytes (concat (map bytes32 vs)) a s"
  by (induction vs arbitrary: a s) (simp_all add: put_fs_long_bytes put_bytes_append)

lemma length_longs: "length (concat (map bytes32 vs)) = 4 * length vs"
  by (induction vs) simp_all

lemma put_longs_span:
  assumes "span a (4 * length vs) s"
  shows "\<exists>m. put_longs vs a s = Done () (s\<lparr>pmem := m\<rparr>) \<and> span a (4 * length vs) (s\<lparr>pmem := m\<rparr>) \<and>
    (\<forall>i < length vs. get_fs_long (a + 4 * of_nat i) (s\<lparr>pmem := m\<rparr>) = Done (vs ! i) (s\<lparr>pmem := m\<rparr>)) \<and>
    (\<forall>x. x \<notin> frame_bytes a (4 * length vs) s \<longrightarrow> byte_at m x = byte_at (pmem s) x)"
  using put_bytes_span [of a "concat (map bytes32 vs)" s] assms longs_of_bytes [of a vs]
  unfolding put_longs_bytes length_longs by metis

lemma walk_tupd [simp]:
  assumes "\<And>t. t_ldt (f t) = t_ldt t"
  shows "t_ldt (cur (tupd p f s)) = t_ldt (cur s)" "linear a (tupd p f s) = linear a s"
    "phys l (tupd p f s) = phys l s" "present l (tupd p f s) = present l s" "readable a (tupd p f s) = readable a s"
  using assms by (simp_all add: tupd_def linear_def phys_def pte_addr_def present_def readable_def)

lemma get_fs_long_tupd:
  assumes "\<And>t. t_ldt (f t) = t_ldt t" "\<forall>i < 4. readable (a + of_nat i) s"
  shows "get_fs_long a (tupd p f s) = Done (word32 (user_bytes a 4 s)) (tupd p f s)"
proof -
  have "user_bytes a 4 (tupd p f s) = user_bytes a 4 s"
    using assms(1) by (simp add: user_bytes_def walk_tupd(2,3)) (simp add: tupd_def)
  with get_fs_long_bytes [of a "tupd p f s"] assms show ?thesis by (simp add: walk_tupd(5))
qed

section \<open>Properties\<close>

definition handler_frame :: "u32 \<Rightarrow> sigaction \<Rightarrow> syscall_frame \<Rightarrow> u32 \<Rightarrow> u32 list" where
  "handler_frame signr sa r blocked =
     [sa_restorer sa, signr] @ (if sa_flags sa AND SA_NOMASK \<noteq> 0 then [] else [blocked]) @
     [sf_eax r, sf_ecx r, sf_edx r, sf_eflags r, sf_eip r]"

lemma cur_tupd: "cur (tupd (current s) f s) = f (cur s)"
  by (simp add: tupd_def)

lemma tupd_mm_simps [simp]:
  "pmem (tupd p f s) = pmem s" "mem_map (tupd p f s) = mem_map s" "current (tupd p f s) = current s"
  by (simp_all add: tupd_def)

lemma cur_sigupd:
  "t_blocked (cur (sigupd k f s)) = t_blocked (cur s)" "current (sigupd k f s) = current s"
  "t_sigaction (cur (sigupd k f s)) = (t_sigaction (cur s))[k := f (t_sigaction (cur s) ! k)]"
  by (simp_all add: sigupd_def cur_tupd)

lemma sigaction_sigupd:
  "k < length (t_sigaction (cur s)) \<Longrightarrow> t_sigaction (cur (sigupd k f s)) ! k = f (t_sigaction (cur s) ! k)"
  by (simp only: cur_sigupd(3) nth_list_update_eq)

lemma tmem_sigupd: "tmem (sigupd k f s) (current s) =
    (cur s)\<lparr>t_sigaction := (t_sigaction (cur s))[k := f (t_sigaction (cur s) ! k)]\<rparr>"
  by (simp add: sigupd_def tupd_def)

lemma do_signal_enters:
  assumes "1 \<le> sint signr" "sint signr \<le> 32" "k = unat (signr - 1)" "k < length (t_sigaction (cur s))"
    and "sa = t_sigaction (cur s) ! k" "sa_handler sa \<noteq> 0" "sa_handler sa \<noteq> 1"
    and "fr = handler_frame signr sa r (t_blocked (cur s))" "esp = sf_esp r - 4 * of_nat (length fr)"
    and "verify_area esp (4 * of_nat (length fr))
      (if sa_flags sa AND SA_ONESHOT \<noteq> 0 then sigupd k (\<lambda>sa. sa\<lparr>sa_handler := 0\<rparr>) s else s) = Done () u"
    and "span esp (4 * length fr) u"
  shows "\<exists>t. do_signal signr r s = Done (r\<lparr>sf_eip := sa_handler sa, sf_esp := esp\<rparr>) t \<and>
    (\<forall>i < length fr. get_fs_long (esp + 4 * of_nat i) t = Done (fr ! i) t) \<and>
    t_blocked (cur t) = t_blocked (cur s) OR sa_mask sa \<and> t_signal (cur t) = t_signal (cur s) \<and> current t = current s \<and>
    sa_handler (t_sigaction (cur t) ! k) = (if sa_flags sa AND SA_ONESHOT \<noteq> 0 then 0 else sa_handler sa) \<and>
    (\<forall>x. x \<notin> frame_bytes esp (4 * length fr) u \<longrightarrow> byte_at (pmem t) x = byte_at (pmem u) x)"
proof -
  let ?s1 = "if sa_flags sa AND SA_ONESHOT \<noteq> 0 then sigupd k (\<lambda>sa. sa\<lparr>sa_handler := 0\<rparr>) s else s"
  let ?longs = "if sa_flags sa AND SA_NOMASK \<noteq> 0 then 7 else 8 :: u32"
  have len: "of_nat (length fr) = ?longs" using assms(8) by (simp add: handler_frame_def)
  have cu: "cur u = cur ?s1" using sched_part_cur [OF sched_part_verify_area [OF assms(10)]] .
  then have b: "t_blocked (cur u) = t_blocked (cur s)" by (auto simp: cur_sigupd tmem_sigupd)
  obtain m where m: "put_longs fr esp u = Done () (u\<lparr>pmem := m\<rparr>)"
    "span esp (4 * length fr) (u\<lparr>pmem := m\<rparr>)"
    "\<forall>i < length fr. get_fs_long (esp + 4 * of_nat i) (u\<lparr>pmem := m\<rparr>) = Done (fr ! i) (u\<lparr>pmem := m\<rparr>)"
    "\<forall>x. x \<notin> frame_bytes esp (4 * length fr) u \<longrightarrow> byte_at m x = byte_at (pmem u) x"
    using put_longs_span [OF assms(11)] by blast
  let ?t = "tupd (current u) (\<lambda>t. t\<lparr>t_blocked := t_blocked t OR sa_mask sa\<rparr>) (u\<lparr>pmem := m\<rparr>)"
  have call: "do_signal signr r s = Done (r\<lparr>sf_eip := sa_handler sa, sf_esp := esp\<rparr>) ?t"
  proof -
    have "[sa_restorer sa, signr] @ (if sa_flags sa AND SA_NOMASK \<noteq> 0 then [] else [t_blocked (cur u)]) @
        [sf_eax r, sf_ecx r, sf_edx r, sf_eflags r, sf_eip r] = fr"
      using assms(8) b by (simp add: handler_frame_def)
    moreover have "\<not> (sint signr < 1 \<or> sint signr > 32)" using assms(1,2) by simp
    moreover have "esp = sf_esp r - 4 * ?longs" using assms(9) len by simp
    moreover have "verify_area esp (?longs * 4) ?s1 = Done () u" using assms(10) unfolding len by (simp only: mult.commute)
    ultimately show ?thesis
      using assms(6,7) m(1) unfolding do_signal_def Let_def assms(3) [symmetric] assms(5) [symmetric]
      by (simp only: if_False kbind.simps) simp
  qed
  moreover have "get_fs_long (esp + 4 * of_nat i) ?t = Done (fr ! i) ?t" if "i < length fr" for i
  proof -
    let ?v = "u\<lparr>pmem := m\<rparr>"
    have r: "\<forall>j < 4. readable (esp + 4 * of_nat i + of_nat j) ?v"
      using span_part [OF m(2), of "4 * i" 4] that by simp
    from get_fs_long_bytes [OF r] m(3) that have "word32 (user_bytes (esp + 4 * of_nat i) 4 ?v) = fr ! i" by simp
    with get_fs_long_tupd [OF _ r] show ?thesis by simp
  qed
  moreover have "sa_handler (t_sigaction (cur ?t) ! k) = (if sa_flags sa AND SA_ONESHOT \<noteq> 0 then 0 else sa_handler sa)"
    using cu assms(4,5) by (auto simp: cur_tupd cur_sigupd tmem_sigupd)
  moreover have "t_signal (cur ?t) = t_signal (cur s)" using cu by (auto simp: cur_tupd cur_sigupd tmem_sigupd)
  moreover have "current ?t = current s"
    using sched_part_verify_area [OF assms(10)] by (auto simp: sched_part_def cur_sigupd split: if_splits)
  ultimately show ?thesis using m(4) b by (intro exI [of _ ?t]) (simp add: cur_tupd)
qed

text \<open>A signal with a handler enters it: when the words below the user's stack pointer can be written, the system
  call returns to the handler with the stack pointer moved below a frame that holds, from its lowest
  address, the restorer, the signal, the mask (unless the handler is not to be masked), eax, ecx, edx, the flags and
  the interrupted address. The handler's mask is blocked from then on, a one-shot handler is
  forgotten, and no other byte of memory changes.\<close>

theorem signal_enters_handler:
  assumes "1 \<le> sint signr" "sint signr \<le> 32" "k = unat (signr - 1)" "k < length (t_sigaction (cur s))"
    and "sa = t_sigaction (cur s) ! k" "sa_handler sa \<noteq> 0" "sa_handler sa \<noteq> 1"
    and "fr = handler_frame signr sa r (t_blocked (cur s))" "esp = sf_esp r - 4 * of_nat (length fr)"
    and "verify_area esp (4 * of_nat (length fr))
      (if sa_flags sa AND SA_ONESHOT \<noteq> 0 then sigupd k (\<lambda>sa. sa\<lparr>sa_handler := 0\<rparr>) s else s) = Done () u"
    and "span esp (4 * length fr) u"
  shows "\<exists>t. do_signal signr r s = Done (r\<lparr>sf_eip := sa_handler sa, sf_esp := esp\<rparr>) t \<and>
    (\<forall>i < length fr. get_fs_long (esp + 4 * of_nat i) t = Done (fr ! i) t) \<and>
    t_blocked (cur t) = t_blocked (cur s) OR sa_mask sa \<and>
    sa_handler (t_sigaction (cur t) ! k) = (if sa_flags sa AND SA_ONESHOT \<noteq> 0 then 0 else sa_handler sa) \<and>
    (\<forall>x. x \<notin> frame_bytes esp (4 * length fr) u \<longrightarrow> byte_at (pmem t) x = byte_at (pmem u) x)"
  using do_signal_enters [OF assms] by blast

definition sa_of :: "u8 list \<Rightarrow> sigaction" where
  "sa_of b = \<lparr>sa_handler = word32 b, sa_mask = word32 (drop 4 b), sa_flags = word32 (drop 8 b), sa_restorer = word32 (drop 12 b)\<rparr>"

definition masked :: "nat \<Rightarrow> sigaction \<Rightarrow> sigaction" where
  "masked k sa = sa\<lparr>sa_mask := if sa_flags sa AND SA_NOMASK \<noteq> 0 then 0 else sa_mask sa OR push_bit k 1\<rparr>"

lemma sa_of_bytes [simp]: "sa_of (sa_bytes sa) = sa"
proof -
  have "word32 (bytes32 v @ xs) = v" for v xs
    using word32_bytes32 [of v] by (simp add: word32_def bytes32_def nth_append)
  then show ?thesis by (simp add: sa_of_def sa_bytes_def)
qed

lemma length_sa_bytes [simp]: "length (sa_bytes sa) = 16"
  by (simp add: sa_bytes_def)

lemma set_bytes32: "set_byte32 3 d (set_byte32 2 c (set_byte32 1 b (set_byte32 0 a w))) = word32 (a # b # c # d # xs)"
  unfolding set_byte32_def word32_def desc_masks
  by (rule bit_word_eqI) (auto simp: bit_simps bit_past8 not_less)

definition sa_put_all :: "nat \<Rightarrow> u8 list \<Rightarrow> sigaction \<Rightarrow> sigaction" where
  "sa_put_all i bs sa = fold (\<lambda>(j, b). sa_put j b) (zip [i ..< i + length bs] bs) sa"

lemma sa_put_all_Cons: "sa_put_all i (b # bs) sa = sa_put_all (Suc i) bs (sa_put i b sa)"
  by (simp add: sa_put_all_def upt_conv_Cons del: upt_Suc)

lemma sa_put_all_Nil [simp]: "sa_put_all i [] sa = sa"
  by (simp add: sa_put_all_def)

lemma length16:
  assumes "length xs = 16"
  obtains a b c d e f g h i j k l m n p q where "xs = [a, b, c, d, e, f, g, h, i, j, k, l, m, n, p, q]"
  using assms that by (auto simp: length_Suc_conv numeral_Bit0 numeral_Bit1)

lemma sa_put_bytes: "length bs = 16 \<Longrightarrow> sa_put_all 0 bs sa = sa_of bs"
proof (erule length16)
  fix a b c d e f g h i j k l m n p q :: u8
  assume bs: "bs = [a, b, c, d, e, f, g, h, i, j, k, l, m, n, p, q]"
  have "sa_put_all 0 bs sa =
    sa\<lparr>sa_handler := set_byte32 3 d (set_byte32 2 c (set_byte32 1 b (set_byte32 0 a (sa_handler sa)))),
       sa_mask := set_byte32 3 h (set_byte32 2 g (set_byte32 1 f (set_byte32 0 e (sa_mask sa)))),
       sa_flags := set_byte32 3 l (set_byte32 2 k (set_byte32 1 j (set_byte32 0 i (sa_flags sa)))),
       sa_restorer := set_byte32 3 q (set_byte32 2 p (set_byte32 1 n (set_byte32 0 m (sa_restorer sa))))\<rparr>"
    by (simp add: bs sa_put_all_Cons sa_put_def numeral_2_eq_2 numeral_3_eq_3)
  then show ?thesis unfolding set_bytes32 [where xs = "[]"]
    by (cases sa) (simp add: sa_of_def bs word32_def)
qed

lemma tupd_tupd: "tupd p f (tupd p g s) = tupd p (\<lambda>t. f (g t)) s"
  by (simp add: tupd_def)

lemma sigupd_sigupd: "sigupd k f (sigupd k g s) = sigupd k (\<lambda>sa. f (g sa)) s"
proof (cases "k < length (t_sigaction (cur s))")
  case True
  then show ?thesis by (simp add: sigupd_def tupd_def)
next
  case False
  then show ?thesis by (simp add: sigupd_def tupd_def list_update_beyond)
qed

lemma walk_sigupd [simp]:
  "linear a (sigupd k f s) = linear a s" "phys l (sigupd k f s) = phys l s" "readable a (sigupd k f s) = readable a s"
  "pmem (sigupd k f s) = pmem s" "user_bytes a n (sigupd k f s) = user_bytes a n s"
  by (simp_all add: sigupd_def walk_tupd user_bytes_def)

lemma get_new_loop_reads:
  "\<forall>j < n. readable (from + of_nat j) s \<Longrightarrow>
    get_new_loop n i from k s = Done () (sigupd k (sa_put_all i (user_bytes from n s)) s)"
proof (induction n arbitrary: i "from" s)
  case 0
  have "sigupd k (\<lambda>sa. sa) s = s" by (simp add: sigupd_def tupd_def)
  then show ?case by (simp add: sa_put_all_Nil [abs_def])
next
  case (Suc n)
  have r: "readable from s" using Suc.prems spec [of _ 0] by force
  let ?b = "byte_at (pmem s) (phys (linear from s) s)"
  have "\<forall>j < n. readable (from + 1 + of_nat j) (sigupd k (sa_put i ?b) s)"
  proof (intro allI impI)
    fix j assume "j < n"
    then show "readable (from + 1 + of_nat j) (sigupd k (sa_put i ?b) s)"
      using spec [OF Suc.prems, of "Suc j"] by (simp add: ac_simps)
  qed
  from Suc.IH [OF this, of "Suc i"] show ?case
    by (simp add: get_fs_byte_readable [OF r] user_bytes_Suc sigupd_sigupd sa_put_all_Cons)
qed

lemma get_new_reads:
  "\<forall>j < 16. readable (from + of_nat j) s \<Longrightarrow>
    get_new from k s = Done () (sigupd k (\<lambda>_. sa_of (user_bytes from 16 s)) s)"
proof -
  assume r: "\<forall>j < 16. readable (from + of_nat j) s"
  have "sa_put_all 0 (user_bytes from 16 s) = (\<lambda>_. sa_of (user_bytes from 16 s))"
    by (rule ext) (simp add: sa_put_bytes)
  with get_new_loop_reads [OF r, of 0 k] show ?thesis by (simp add: get_new_def)
qed

lemma sigupd_masked: "(\<lambda>sa. if sa_flags sa AND SA_NOMASK \<noteq> 0 then sa\<lparr>sa_mask := 0\<rparr> else sa\<lparr>sa_mask := sa_mask sa OR push_bit k 1\<rparr>)
    = masked k"
  by (simp add: fun_eq_iff masked_def)

text \<open>Sigaction exchanges the action of a signal: the 16 bytes at the new action, read as its four words, become the
  action, with the signal itself added to its mask (or the mask emptied under SA_NOMASK), the previous
  action is left at the old address byte for byte, and giving it back installs it again. SIGKILL and numbers
  outside 1 to 32 are refused and change nothing.\<close>

theorem sigaction_exchanges:
  assumes "1 \<le> sint sig" "sint sig \<le> 32" "sig \<noteq> SIGKILL" "k = unat (sig - 1)" "k < length (t_sigaction (cur s))"
    and "\<forall>i < 16. readable (new + of_nat i) s" "old \<noteq> 0"
    and "verify_area old 16 (sigupd k (\<lambda>_. sa_of (user_bytes new 16 s)) s) = Done () u" "span old 16 u"
  shows "(\<exists>t v. sys_sigaction sig new old s = Done 0 t \<and>
      t_sigaction (cur t) ! k = masked k (sa_of (user_bytes new 16 s)) \<and>
      user_bytes old 16 t = sa_bytes (t_sigaction (cur s) ! k) \<and>
      sys_sigaction sig old 0 t = Done 0 v \<and> t_sigaction (cur v) ! k = masked k (t_sigaction (cur s) ! k)) \<and>
    (\<forall>bad. bad = SIGKILL \<or> sint bad < 1 \<or> 32 < sint bad \<longrightarrow> sys_sigaction bad new old s = Done (-1) s)"
proof (rule conjI)
  let ?prev = "t_sigaction (cur s) ! k" and ?new = "sa_of (user_bytes new 16 s)"
  have ok: "\<not> (sint sig < 1 \<or> sint sig > 32 \<or> sig = SIGKILL)" using assms(1-3) by auto
  have sp: "sched_part u = sched_part (sigupd k (\<lambda>_. ?new) s)" by (rule sched_part_verify_area [OF assms(8)])
  have cu: "t_sigaction (cur u) = (t_sigaction (cur s))[k := ?new]"
    using sched_part_cur [OF sp] by (simp add: cur_sigupd(2) tmem_sigupd)
  obtain m where m: "put_bytes (sa_bytes ?prev) old u = Done () (u\<lparr>pmem := m\<rparr>)" "span old 16 (u\<lparr>pmem := m\<rparr>)"
    "user_bytes old 16 (u\<lparr>pmem := m\<rparr>) = sa_bytes ?prev"
    using put_bytes_span [of old "sa_bytes ?prev" u] assms(9) by auto
  let ?t = "sigupd k (masked k) (u\<lparr>pmem := m\<rparr>)"
  have t: "sys_sigaction sig new old s = Done 0 ?t"
    using ok assms(7,8) m(1) get_new_reads [OF assms(6), of k]
    unfolding sys_sigaction_def Let_def assms(4) [symmetric] sigupd_masked
    by (simp add: save_old_def)
  have kt: "k < length (t_sigaction (cur u))" using cu assms(5) by simp
  then have act: "t_sigaction (cur ?t) ! k = masked k ?new"
    by (simp add: cur_sigupd(2) tmem_sigupd [where s = "u\<lparr>pmem := m\<rparr>", simplified] cu)
  have old: "user_bytes old 16 ?t = sa_bytes ?prev" using m(3) by simp
  have "\<forall>i < 16. readable (old + of_nat i) ?t" using m(2) unfolding span_def walk_sigupd by blast
  from get_new_reads [OF this, of k] old
  have "get_new old k ?t = Done () (sigupd k (\<lambda>_. ?prev) ?t)" by simp
  then have "sys_sigaction sig old 0 ?t = Done 0 (sigupd k (masked k) (sigupd k (\<lambda>_. ?prev) ?t))"
    using ok unfolding sys_sigaction_def Let_def assms(4) [symmetric] sigupd_masked by simp
  moreover have "t_sigaction (cur (sigupd k (masked k) (sigupd k (\<lambda>_. ?prev) ?t))) ! k = masked k ?prev"
    unfolding sigupd_sigupd by (rule sigaction_sigupd) (use kt in simp)
  ultimately show "\<exists>t v. sys_sigaction sig new old s = Done 0 t \<and>
      t_sigaction (cur t) ! k = masked k ?new \<and> user_bytes old 16 t = sa_bytes ?prev \<and>
      sys_sigaction sig old 0 t = Done 0 v \<and> t_sigaction (cur v) ! k = masked k ?prev"
    using t act old by blast
qed (auto simp: sys_sigaction_def)

text \<open>A task with a handler at 0x1000 for signal 2, its stack in the page at 0x2000.\<close>

definition with_handler :: mm_state where
  "with_handler = sigupd 1 (\<lambda>_. \<lparr>sa_handler = 0x1000, sa_mask = 2, sa_flags = 0, sa_restorer = 0x1100\<rparr>) user_page"

lemma with_handler_simps:
  "t_sigaction (cur with_handler) = (replicate 32 \<lparr>sa_handler = 0, sa_mask = 0, sa_flags = 0, sa_restorer = 0\<rparr>)
     [1 := \<lparr>sa_handler = 0x1000, sa_mask = 2, sa_flags = 0, sa_restorer = 0x1100\<rparr>]"
  "t_blocked (cur with_handler) = 0" "one_page with_handler"
  by (simp_all add: with_handler_def sigupd_def tupd_def user_page_def one_page_def mm_boot_def sched_boot_def
      INIT_TASK_def sched_state.defs mm_state.defs get_base_def lsl_def bit_numeral_rec)

definition call_frame :: syscall_frame where
  "call_frame = \<lparr>sf_eax = 3, sf_ebx = 0, sf_ecx = 0, sf_edx = 0, sf_fs = 0x17, sf_es = 0x10, sf_ds = 0x10,
     sf_eip = 0x500, sf_cs = 0xf, sf_eflags = 0x202, sf_esp = 0x2800, sf_ss = 0x17\<rparr>"

theorem signal_enters_handler_witness:
  "\<exists>t. do_signal 2 call_frame with_handler = Done (call_frame\<lparr>sf_eip := 0x1000, sf_esp := 0x27e0\<rparr>) t \<and>
    get_fs_long 0x27e0 t = Done 0x1100 t \<and> get_fs_long 0x27e4 t = Done 2 t \<and> t_blocked (cur t) = 2"
proof -
  let ?sa = "\<lparr>sa_handler = 0x1000, sa_mask = 2, sa_flags = 0, sa_restorer = 0x1100\<rparr>"
  let ?fr = "[0x1100, 2, 0, 3, 0, 0, 0x202, 0x500] :: u32 list"
  have v: "verify_area 0x27e0 32 with_handler = Done () with_handler"
    by (rule one_page_verify [OF with_handler_simps(3)]) simp_all
  have "\<exists>t. do_signal 2 call_frame with_handler = Done (call_frame\<lparr>sf_eip := sa_handler ?sa, sf_esp := 0x27e0\<rparr>) t \<and>
    (\<forall>i < length ?fr. get_fs_long (0x27e0 + 4 * of_nat i) t = Done (?fr ! i) t) \<and>
    t_blocked (cur t) = t_blocked (cur with_handler) OR sa_mask ?sa \<and>
    sa_handler (t_sigaction (cur t) ! 1) = (if sa_flags ?sa AND SA_ONESHOT \<noteq> 0 then 0 else sa_handler ?sa) \<and>
    (\<forall>x. x \<notin> frame_bytes 0x27e0 (4 * length ?fr) with_handler \<longrightarrow> byte_at (pmem t) x = byte_at (pmem with_handler) x)"
  proof (rule signal_enters_handler)
    show "span 0x27e0 (4 * length ?fr) with_handler" by (rule one_page_span [OF with_handler_simps(3)]) simp_all
    show "verify_area 0x27e0 (4 * of_nat (length ?fr)) (if sa_flags ?sa AND SA_ONESHOT \<noteq> 0
        then sigupd 1 (\<lambda>sa. sa\<lparr>sa_handler := 0\<rparr>) with_handler else with_handler) = Done () with_handler"
      using v by simp
  qed (simp_all add: with_handler_simps call_frame_def handler_frame_def)
  then obtain t where t: "do_signal 2 call_frame with_handler = Done (call_frame\<lparr>sf_eip := 0x1000, sf_esp := 0x27e0\<rparr>) t"
    "\<forall>i < 8. get_fs_long (0x27e0 + 4 * of_nat i) t = Done (?fr ! i) t" "t_blocked (cur t) = 2"
    by (auto simp: with_handler_simps)
  show ?thesis using t spec [OF t(2), of 0] spec [OF t(2), of 1] by auto
qed

theorem sigaction_exchanges_witness:
  "\<exists>t. sys_sigaction 2 0x2100 0x2200 with_handler = Done 0 t \<and>
    user_bytes 0x2200 16 t = sa_bytes \<lparr>sa_handler = 0x1000, sa_mask = 2, sa_flags = 0, sa_restorer = 0x1100\<rparr>"
proof -
  let ?s = "sigupd 1 (\<lambda>_. sa_of (user_bytes 0x2100 16 with_handler)) with_handler"
  have op: "one_page ?s"
    using with_handler_simps(3) by (simp add: one_page_def sigupd_def tupd_def)
  have r: "\<forall>i < 16. readable (0x2100 + of_nat i) with_handler"
    using one_page_span [OF with_handler_simps(3), of "0x2100" 16] by (simp add: span_def)
  have "verify_area 0x2200 16 ?s = Done () ?s" by (rule one_page_verify [OF op]) simp_all
  moreover have "span 0x2200 16 ?s" by (rule one_page_span [OF op]) simp_all
  ultimately show ?thesis
    using sigaction_exchanges [where sig = 2 and k = 1 and s = with_handler and new = "0x2100" and old = "0x2200" and u = ?s] r
    by (auto simp: with_handler_simps)
qed

end
