(* ===== verification/Exit.thy ===== *)
theory Exit
  imports Mm_Frame
begin

text \<open>
  Signals between tasks and the end of a task, \<^verbatim>\<open>kernel/exit.c\<close>: \<open>send_sig\<close> and
  \<open>kill\<close>, \<open>do_exit\<close>, \<open>waitpid\<close>, and \<open>release\<close>, which frees a dead task's slot.
\<close>

abbreviation (input) EPERM :: u32 where "EPERM \<equiv> 1"
abbreviation (input) EINTR :: u32 where "EINTR \<equiv> 4"
abbreviation (input) ECHILD :: u32 where "ECHILD \<equiv> 10"
abbreviation (input) EINVAL :: u32 where "EINVAL \<equiv> 22"
abbreviation (input) WNOHANG :: u32 where "WNOHANG \<equiv> 1"
abbreviation (input) WUNTRACED :: u32 where "WUNTRACED \<equiv> 2"

section \<open>Releasing a task\<close>

primrec release_loop :: "('a mm_state_scheme \<Rightarrow> 'a mm_state_scheme) \<Rightarrow> u32 \<Rightarrow> nat list
    \<Rightarrow> 'a mm_state_scheme \<Rightarrow> ('a mm_state_scheme, unit) outcome" where
  "release_loop env p [] s = Done () s"
| "release_loop env p (i # is) s =
     (if task s ! i = p
      then kbind (free_page p (s\<lparr>task := (task s)[i := 0]\<rparr>)) (\<lambda>_ s.
           kbind (schedule env s) (\<lambda>_ s. release_loop env p is s))
      else release_loop env p is s)"

definition release :: "('a mm_state_scheme \<Rightarrow> 'a mm_state_scheme) \<Rightarrow> u32
    \<Rightarrow> 'a mm_state_scheme \<Rightarrow> ('a mm_state_scheme, unit) outcome" where
  "release env p s =
     (if p = 0 then Done () s
      else kbind (release_loop env p [1..<NR_TASKS] s) (\<lambda>_ s. panic ''trying to release non-existent task'' s))"

section \<open>Sending signals\<close>

definition send_sig :: "u32 \<Rightarrow> u32 \<Rightarrow> u32 \<Rightarrow> 'a sched_state_scheme \<Rightarrow> u32 \<times> 'a sched_state_scheme" where
  "send_sig sig p priv s =
     (if p = 0 \<or> sint sig < 1 \<or> sint sig > 32 then (- EINVAL, s)
      else if priv \<noteq> 0 \<or> t_euid (cur s) = t_euid (tmem s p)
      then (0, tupd p (\<lambda>t. t\<lparr>t_signal := t_signal t OR push_bit (unat (sig - 1)) 1\<rparr>) s)
      else (- EPERM, s))"

definition kill_one :: "u32 \<Rightarrow> u32 \<Rightarrow> nat \<Rightarrow> u32 \<times> 'a sched_state_scheme \<Rightarrow> u32 \<times> 'a sched_state_scheme" where
  "kill_one pid sig i rs =
     (let s = snd rs; p = task s ! i in
      if p \<noteq> 0 \<and> t_pid (tmem s p) = pid
      then case send_sig sig p 1 s of (err, s) \<Rightarrow> (if err \<noteq> 0 then err else fst rs, s)
      else rs)"

definition sys_kill :: "u32 \<Rightarrow> u32 \<Rightarrow> 'a sched_state_scheme \<Rightarrow> u32 \<times> 'a sched_state_scheme" where
  "sys_kill pid sig s =
     (if sint pid > 0 then fold (kill_one pid sig) (down 1 NR_TASKS) (0, s) else (0, s))"

definition has_pid :: "u32 \<Rightarrow> 'a sched_state_scheme \<Rightarrow> nat \<Rightarrow> bool" where
  "has_pid pid s i \<longleftrightarrow> task s ! i \<noteq> 0 \<and> t_pid (tmem s (task s ! i)) = pid"

definition tell_father :: "('a mm_state_scheme \<Rightarrow> 'a mm_state_scheme) \<Rightarrow> u32
    \<Rightarrow> 'a mm_state_scheme \<Rightarrow> ('a mm_state_scheme, unit) outcome" where
  "tell_father env pid s =
     (case (if pid \<noteq> 0 then List.find (has_pid pid s) [0..<NR_TASKS] else None) of
        Some i \<Rightarrow> Done () (tupd (task s ! i) (\<lambda>t. t\<lparr>t_signal := t_signal t OR push_bit (unat (SIGCHLD - 1)) 1\<rparr>) s)
      | None \<Rightarrow> release env (current s) (printk ''BAD BAD - no father found'' [] s))"

section \<open>Exit\<close>

definition orphan_one :: "nat \<Rightarrow> 'a sched_state_scheme \<Rightarrow> 'a sched_state_scheme" where
  "orphan_one i s =
     (let p = task s ! i in
      if p \<noteq> 0 \<and> t_father (tmem s p) = t_pid (cur s)
      then let s1 = tupd p (\<lambda>t. t\<lparr>t_father := 1\<rparr>) s in
        if t_state (tmem s1 p) = TASK_ZOMBIE then snd (send_sig SIGCHLD (task s1 ! 1) 1 s1) else s1
      else s)"

definition do_exit :: "('a mm_state_scheme \<Rightarrow> 'a mm_state_scheme) \<Rightarrow> u32
    \<Rightarrow> 'a mm_state_scheme \<Rightarrow> ('a mm_state_scheme, u32) outcome" where
  "do_exit env code s =
     kbind (free_page_tables (get_base (t_ldt (cur s) ! 1)) (get_limit 0x0f s) s) (\<lambda>_ s.
     kbind (free_page_tables (get_base (t_ldt (cur s) ! 2)) (get_limit 0x17 s) s) (\<lambda>_ s.
       let s1 = fold orphan_one [0..<NR_TASKS] s;
           s2 = tupd (current s1) (\<lambda>t. t\<lparr>t_state := TASK_ZOMBIE, t_exit_code := code\<rparr>) s1
       in kbind (tell_father env (t_father (cur s2)) s2) (\<lambda>_ s.
          kbind (schedule env s) (\<lambda>_ s. Done (-1) s))))"

definition sys_exit :: "('a mm_state_scheme \<Rightarrow> 'a mm_state_scheme) \<Rightarrow> u32
    \<Rightarrow> 'a mm_state_scheme \<Rightarrow> ('a mm_state_scheme, u32) outcome" where
  "sys_exit env error_code s = do_exit env (push_bit 8 (error_code AND 0xff)) s"

section \<open>waitpid\<close>

text \<open>
  The scan over the tasks goes on with \<open>flag\<close>, or the call returns from inside it (\<open>Inr\<close>).
\<close>

definition is_waited :: "u32 \<Rightarrow> 'a sched_state_scheme \<Rightarrow> u32 \<Rightarrow> bool" where
  "is_waited pid s p \<longleftrightarrow>
     p \<noteq> 0 \<and> p \<noteq> current s \<and> t_father (tmem s p) = t_pid (cur s) \<and>
     (if sint pid > 0 then t_pid (tmem s p) = pid
      else if pid = 0 then t_pgrp (tmem s p) = t_pgrp (cur s)
      else if pid \<noteq> -1 then t_pgrp (tmem s p) = - pid
      else True)"

primrec wait_scan :: "('a mm_state_scheme \<Rightarrow> 'a mm_state_scheme) \<Rightarrow> u32 \<Rightarrow> u32 \<Rightarrow> u32 \<Rightarrow> nat list \<Rightarrow> u32
    \<Rightarrow> 'a mm_state_scheme \<Rightarrow> ('a mm_state_scheme, u32 + u32) outcome" where
  "wait_scan env pid stat_addr options [] flag s = Done (Inl flag) s"
| "wait_scan env pid stat_addr options (i # is) flag s =
     (let p = task s ! i; t = tmem s p in
      if \<not> is_waited pid s p then wait_scan env pid stat_addr options is flag s
      else if t_state t = TASK_STOPPED then
        if options AND WUNTRACED = 0 then wait_scan env pid stat_addr options is flag s
        else kbind (put_fs_long 0x7f stat_addr s) (\<lambda>_ s. Done (Inr (t_pid (tmem s p))) s)
      else if t_state t = TASK_ZOMBIE then
        let s1 = tupd (current s) (\<lambda>c. c\<lparr>t_cutime := t_cutime c + t_utime t, t_cstime := t_cstime c + t_stime t\<rparr>) s
        in kbind (release env p s1) (\<lambda>_ s.
           kbind (put_fs_long (t_exit_code t) stat_addr s) (\<lambda>_ s. Done (Inr (t_pid t)) s))
      else wait_scan env pid stat_addr options is 1 s)"

primrec wait_loop :: "nat \<Rightarrow> ('a mm_state_scheme \<Rightarrow> 'a mm_state_scheme) \<Rightarrow> u32 \<Rightarrow> u32 \<Rightarrow> u32
    \<Rightarrow> 'a mm_state_scheme \<Rightarrow> ('a mm_state_scheme, u32) outcome" where
  "wait_loop 0 env pid stat_addr options s = Blocked s"
| "wait_loop (Suc n) env pid stat_addr options s =
     kbind (wait_scan env pid stat_addr options (down 1 NR_TASKS) 0 s) (\<lambda>r s.
       case r of
         Inr v \<Rightarrow> Done v s
       | Inl flag \<Rightarrow>
           if flag \<noteq> 0 then
             if options AND WNOHANG \<noteq> 0 then Done 0 s
             else kbind (schedule env (tupd (current s) (\<lambda>t. t\<lparr>t_state := TASK_INTERRUPTIBLE\<rparr>) s)) (\<lambda>_ s.
               let s1 = tupd (current s) (\<lambda>t. t\<lparr>t_signal := t_signal t AND NOT (push_bit (unat (SIGCHLD - 1)) 1)\<rparr>) s
               in if t_signal (cur s1) = 0 then wait_loop n env pid stat_addr options s1
                  else Done (- EINTR) s1)
           else Done (- ECHILD) s)"

text \<open>Every further round has called \<open>schedule\<close>, so \<open>patience\<close> bounds the rounds.\<close>

definition sys_waitpid :: "('a mm_state_scheme \<Rightarrow> 'a mm_state_scheme) \<Rightarrow> u32 \<Rightarrow> u32 \<Rightarrow> u32
    \<Rightarrow> 'a mm_state_scheme \<Rightarrow> ('a mm_state_scheme, u32) outcome" where
  "sys_waitpid env pid stat_addr options s =
     kbind (verify_area stat_addr 4 s) (\<lambda>_ s. wait_loop (Suc (patience s)) env pid stat_addr options s)"

section \<open>What the calls do\<close>

lemma tupd_sched_simps [simp]:
  "task (tupd p f s) = task s" "current (tupd p f s) = current s" "tmem (tupd p f s) = (tmem s)(p := f (tmem s p))"
  by (simp_all add: tupd_def)

abbreviation (input) with_signal :: "u32 \<Rightarrow> task_struct \<Rightarrow> task_struct" where
  "with_signal sig t \<equiv> t\<lparr>t_signal := t_signal t OR push_bit (unat (sig - 1)) 1\<rparr>"

lemma with_signal_idem: "with_signal sig (with_signal sig t) = with_signal sig t"
  by (simp add: or.assoc)

text \<open>Some slot of the list holds the task \<open>p\<close>, and it has the number \<open>pid\<close>.\<close>

definition hit :: "u32 \<Rightarrow> nat list \<Rightarrow> 'a sched_state_scheme \<Rightarrow> u32 \<Rightarrow> bool" where
  "hit pid is s p \<longleftrightarrow> p \<noteq> 0 \<and> p \<in> (\<lambda>i. task s ! i) ` set is \<and> t_pid (tmem s p) = pid"

definition killed :: "u32 \<Rightarrow> u32 \<Rightarrow> nat list \<Rightarrow> 'a sched_state_scheme \<Rightarrow> 'a sched_state_scheme" where
  "killed pid sig is s = s\<lparr>tmem := \<lambda>p. if hit pid is s p then with_signal sig (tmem s p) else tmem s p\<rparr>"

lemma kill_one_good:
  assumes "1 \<le> sint sig" "sint sig \<le> 32"
  shows "kill_one pid sig i (r, s) = (r, killed pid sig [i] s)"
proof -
  let ?p = "task s ! i"
  have "s\<lparr>tmem := tmem s\<rparr> = s" by simp
  moreover have "(\<lambda>p. if p = ?p then with_signal sig (tmem s p) else tmem s p) = (tmem s)(?p := with_signal sig (tmem s ?p))"
    by (simp add: fun_eq_iff)
  ultimately show ?thesis
    using assms by (auto simp: kill_one_def killed_def hit_def send_sig_def tupd_def Let_def fun_eq_iff cong: if_cong)
qed

lemma killed_Cons: "killed pid sig is (killed pid sig [i] s) = killed pid sig (i # is) s"
proof -
  have h: "hit pid is (killed pid sig [i] s) p = hit pid is s p" for p
    by (simp add: hit_def killed_def)
  have "hit pid (i # is) s p = (hit pid [i] s p \<or> hit pid is s p)" for p by (auto simp: hit_def)
  then have "(\<lambda>p. if hit pid is (killed pid sig [i] s) p then with_signal sig (tmem (killed pid sig [i] s) p) else tmem (killed pid sig [i] s) p)
      = (\<lambda>p. if hit pid (i # is) s p then with_signal sig (tmem s p) else tmem s p)"
    unfolding h by (auto simp: killed_def fun_eq_iff or.assoc)
  then show ?thesis unfolding killed_def [of pid sig "is"] killed_def [of pid sig "i # is"] by (simp add: killed_def [of pid sig "[i]"])
qed

lemma kill_all_good:
  assumes "1 \<le> sint sig" "sint sig \<le> 32"
  shows "fold (kill_one pid sig) is (r, s) = (r, killed pid sig is s)"
proof (induction "is" arbitrary: s)
  case Nil
  then show ?case by (simp add: killed_def hit_def)
next
  case (Cons i "is")
  then show ?case by (simp add: kill_one_good [OF assms] killed_Cons)
qed

lemma kill_all_bad:
  assumes "\<not> (1 \<le> sint sig \<and> sint sig \<le> 32)"
  shows "fold (kill_one pid sig) is (r, s) = (if \<exists>p. hit pid is s p then - EINVAL else r, s)"
proof (induction "is" arbitrary: r)
  case Nil
  then show ?case by (simp add: hit_def)
next
  case (Cons i "is")
  have "kill_one pid sig i (r, s) = (if \<exists>p. hit pid [i] s p then - EINVAL else r, s)"
    using assms by (auto simp: kill_one_def send_sig_def Let_def hit_def)
  moreover have "(\<exists>p. hit pid (i # is) s p) = ((\<exists>p. hit pid [i] s p) \<or> (\<exists>p. hit pid is s p))" by (auto simp: hit_def)
  ultimately show ?case using Cons.IH by auto
qed

lemma release_never_returns: "p \<noteq> 0 \<Longrightarrow> release env p s \<noteq> Done x t"
  by (cases "release_loop env p [1..<NR_TASKS] s") (simp_all add: release_def panic_def)

text \<open>The run of \<open>release\<close> for a task in a slot: it gives the slot and the page free, gives the processor away, and
  when it gets it back it looks on through the table and panics.\<close>

lemma release_loop_skip:
  assumes "\<forall>j \<in> set is. task s ! j \<noteq> p"
  shows "release_loop env p (is @ js) s = release_loop env p js s"
  using assms by (induction "is") simp_all

lemma release_runs:
  assumes "p \<noteq> 0" "i \<in> {1..<64}" "task s ! i = p" "\<forall>j \<in> {1..<i}. task s ! j \<noteq> p"
  shows "kbind (release env p s) f = kbind (free_page p (s\<lparr>task := (task s)[i := 0]\<rparr>)) (\<lambda>_ s.
    kbind (schedule env s) (\<lambda>_ s. kbind (release_loop env p [Suc i..<64] s) (\<lambda>_ s.
      panic ''trying to release non-existent task'' s)))"
proof -
  have "[1..<n] = [1..<i] @ i # [Suc i..<n]" if "1 \<le> i" "i < n" for n
    using that upt_add_eq_append [of 1 i "n - i"] upt_conv_Cons [of i n] by (simp del: upt_Suc)
  then have "[1..<64] = [1..<i] @ i # [Suc i..<64]" using assms(2) by (simp only: atLeastLessThan_iff)
  then have "release_loop env p [1..<64] s = release_loop env p (i # [Suc i..<64]) s"
    using release_loop_skip [of "[1..<i]" s p env "i # [Suc i..<64]"] assms(4) by (simp only: set_upt)
  then have "release env p s = kbind (release_loop env p (i # [Suc i..<64]) s) (\<lambda>_ s. panic ''trying to release non-existent task'' s)"
    using assms(1) by (simp only: release_def if_False)
  then show ?thesis using assms(3) by (simp only: release_loop.simps simp_thms if_True kbind_assoc panic_def kbind.simps)
qed

text \<open>A waited child answers when it has ended, or has stopped and the caller asked for that.\<close>

definition answers :: "u32 \<Rightarrow> u32 \<Rightarrow> 'a sched_state_scheme \<Rightarrow> nat \<Rightarrow> bool" where
  "answers pid opt s i \<longleftrightarrow> is_waited pid s (task s ! i) \<and>
     (t_state (tmem s (task s ! i)) = TASK_ZOMBIE \<or> t_state (tmem s (task s ! i)) = TASK_STOPPED \<and> opt AND WUNTRACED \<noteq> 0)"

lemma wait_scan_skip:
  assumes "\<forall>i \<in> set is. \<not> answers pid opt s i"
  shows "wait_scan env pid a opt (is @ js) f s = wait_scan env pid a opt js
    (if \<exists>i \<in> set is. is_waited pid s (task s ! i) \<and> t_state (tmem s (task s ! i)) \<noteq> TASK_STOPPED then 1 else f) s"
  using assms by (induction "is" arbitrary: f) (auto simp: answers_def Let_def)

lemma down_split: "i \<in> {1..<n} \<Longrightarrow> down 1 n = down (Suc i) n @ i # down 1 i"
proof -
  assume "i \<in> {1..<n}"
  then have "[1..<n] = [1..<i] @ i # [Suc i..<n]"
    using upt_add_eq_append [of 1 i "n - i"] upt_conv_Cons [of i n] by (simp del: upt_Suc)
  then show ?thesis by (simp add: down_def del: upt_Suc)
qed

section \<open>The children of a task that ends\<close>

definition child :: "nat list \<Rightarrow> 'a sched_state_scheme \<Rightarrow> u32 \<Rightarrow> bool" where
  "child is s p \<longleftrightarrow> p \<noteq> 0 \<and> p \<in> (\<lambda>i. task s ! i) ` set is \<and> t_father (tmem s p) = t_pid (cur s)"

definition dead_child :: "nat list \<Rightarrow> 'a sched_state_scheme \<Rightarrow> bool" where
  "dead_child is s \<longleftrightarrow> (\<exists>p. child is s p \<and> t_state (tmem s p) = TASK_ZOMBIE)"

abbreviation (input) adopted :: "bool \<Rightarrow> task_struct \<Rightarrow> task_struct" where
  "adopted c t \<equiv> if c then t\<lparr>t_father := 1\<rparr> else t"

abbreviation (input) told :: "bool \<Rightarrow> task_struct \<Rightarrow> task_struct" where
  "told c t \<equiv> if c then t\<lparr>t_signal := t_signal t OR push_bit 16 1\<rparr> else t"

definition orphaned :: "nat list \<Rightarrow> 'a sched_state_scheme \<Rightarrow> 'a sched_state_scheme" where
  "orphaned is s = s\<lparr>tmem := \<lambda>p. told (p = task s ! 1 \<and> p \<noteq> 0 \<and> dead_child is s) (adopted (child is s p) (tmem s p))\<rparr>"

lemma orphaned_simps [simp]:
  "task (orphaned is s) = task s" "current (orphaned is s) = current s"
  "t_pid (tmem (orphaned is s) p) = t_pid (tmem s p)" "t_state (tmem (orphaned is s) p) = t_state (tmem s p)"
  "t_father (tmem (orphaned is s) p) = (if child is s p then 1 else t_father (tmem s p))"
  by (simp_all add: orphaned_def)

lemma tmem_orphaned: "tmem (orphaned is s) p =
    told (p = task s ! 1 \<and> p \<noteq> 0 \<and> dead_child is s) (adopted (child is s p) (tmem s p))"
  by (simp add: orphaned_def)

lemma told_adopted: "told (a \<and> b \<and> z) (adopted e (told (a \<and> b \<and> d) (adopted c t))) =
    told (a \<and> b \<and> (d \<or> z)) (adopted (c \<or> e) t)"
  by (cases a; cases b; cases z; cases e; cases d; cases c) (simp_all add: or.assoc)

lemma tupd_update: "tupd p f s = s\<lparr>tmem := \<lambda>q. if q = p then f (tmem s q) else tmem s q\<rparr>"
  unfolding tupd_def by (rule arg_cong [where f = "\<lambda>m. s\<lparr>tmem := m\<rparr>"]) (simp add: fun_eq_iff)

lemma chld_update: "snd (send_sig SIGCHLD p 1 s) = s\<lparr>tmem := \<lambda>q. told (q = p \<and> q \<noteq> 0) (tmem s q)\<rparr>"
proof (cases "p = 0")
  case True
  then have "(\<lambda>q. told (q = p \<and> q \<noteq> 0) (tmem s q)) = tmem s" by (simp add: fun_eq_iff)
  then show ?thesis using True by (simp add: send_sig_def)
next
  case False
  then have "snd (send_sig SIGCHLD p 1 s) = tupd p (\<lambda>t. t\<lparr>t_signal := t_signal t OR push_bit 16 1\<rparr>) s"
    by (simp add: send_sig_def)
  also have "\<dots> = s\<lparr>tmem := \<lambda>q. told (q = p \<and> q \<noteq> 0) (tmem s q)\<rparr>"
    unfolding tupd_update by (rule arg_cong [where f = "\<lambda>m. s\<lparr>tmem := m\<rparr>"]) (use False in \<open>simp add: fun_eq_iff\<close>)
  finally show ?thesis .
qed

lemma orphan_one_orphaned: "orphan_one i (orphaned is s) = orphaned (is @ [i]) s"
proof -
  let ?p = "task s ! i" and ?s = "orphaned is s"
  have c: "child (is @ [i]) s q \<longleftrightarrow> child is s q \<or> q = ?p \<and> ?p \<noteq> 0 \<and> t_father (tmem s ?p) = t_pid (cur s)" for q
    by (auto simp: child_def)
  have d: "dead_child (is @ [i]) s \<longleftrightarrow> dead_child is s \<or>
      (?p \<noteq> 0 \<and> t_father (tmem s ?p) = t_pid (cur s) \<and> t_state (tmem s ?p) = TASK_ZOMBIE)"
    unfolding dead_child_def c by blast
  have dd: "child is s ?p \<Longrightarrow> t_state (tmem s ?p) = TASK_ZOMBIE \<Longrightarrow> dead_child is s" by (auto simp: dead_child_def)
  have ck: "child is s ?p \<Longrightarrow> ?p \<noteq> 0 \<and> t_father (tmem s ?p) = t_pid (cur s)" by (simp add: child_def)
  show ?thesis
  proof (cases "?p \<noteq> 0 \<and> t_father (tmem ?s ?p) = t_pid (cur ?s)")
    case False
    then have "orphan_one i ?s = ?s" by (auto simp: orphan_one_def Let_def)
    moreover have "child (is @ [i]) s = child is s" "dead_child (is @ [i]) s = dead_child is s"
      using False c d dd ck by (auto simp: fun_eq_iff split: if_splits)
    then have "orphaned (is @ [i]) s = orphaned is s" unfolding orphaned_def by (simp only:)
    ultimately show ?thesis by (simp only:)
  next
    case True
    let ?z = "t_state (tmem s ?p) = TASK_ZOMBIE"
    have cp: "t_father (tmem s ?p) = t_pid (cur s)" using True ck by (auto split: if_splits)
    have one: "orphan_one i ?s = (let s1 = tupd ?p (\<lambda>t. t\<lparr>t_father := 1\<rparr>) ?s in
        if ?z then snd (send_sig SIGCHLD (task s ! 1) 1 s1) else s1)"
      using True unfolding orphan_one_def Let_def orphaned_simps by simp
    have "orphan_one i ?s = s\<lparr>tmem := \<lambda>q. told (q = task s ! 1 \<and> q \<noteq> 0 \<and> ?z) (adopted (q = ?p) (tmem ?s q))\<rparr>"
      unfolding one Let_def chld_update tupd_update by (cases ?z) (simp_all add: orphaned_def [of "is" s] cong: if_cong)
    also have "(\<lambda>q. told (q = task s ! 1 \<and> q \<noteq> 0 \<and> ?z) (adopted (q = ?p) (tmem ?s q))) = tmem (orphaned (is @ [i]) s)"
    proof (rule ext)
      fix q
      have cq: "child (is @ [i]) s q \<longleftrightarrow> child is s q \<or> q = ?p" unfolding c using True cp by blast
      have dq: "dead_child (is @ [i]) s \<longleftrightarrow> dead_child is s \<or> ?z" unfolding d using True cp by blast
      show "told (q = task s ! 1 \<and> q \<noteq> 0 \<and> ?z) (adopted (q = ?p) (tmem ?s q)) = tmem (orphaned (is @ [i]) s) q"
        unfolding tmem_orphaned cq dq by (rule told_adopted)
    qed
    finally show ?thesis by (simp add: orphaned_def)
  qed
qed

lemma orphan_all: "fold orphan_one is s = orphaned is s"
proof (induction "is" rule: rev_induct)
  case Nil
  then show ?case by (simp add: orphaned_def child_def dead_child_def)
qed (simp add: orphan_one_orphaned)

section \<open>Properties\<close>

text \<open>Kill with a positive pid and a signal from 1 to 32 adds the signal to every task in slots 1 to 63 with that
  pid and changes nothing else; with any other signal number it changes nothing and fails with EINVAL
  exactly when there is such a task; with pid 0 or a negative pid it does nothing and returns 0.\<close>

theorem kill_signals:
  "(sint pid > 0 \<and> 1 \<le> sint sig \<and> sint sig \<le> 32 \<longrightarrow>
      sys_kill pid sig s = (0, s\<lparr>tmem := \<lambda>p. if p \<noteq> 0 \<and> (\<exists>i \<in> {1..<64}. task s ! i = p) \<and> t_pid (tmem s p) = pid
        then (tmem s p)\<lparr>t_signal := t_signal (tmem s p) OR push_bit (unat (sig - 1)) 1\<rparr> else tmem s p\<rparr>)) \<and>
   (sint pid > 0 \<and> \<not> (1 \<le> sint sig \<and> sint sig \<le> 32) \<longrightarrow>
      sys_kill pid sig s = (if \<exists>i \<in> {1..<64}. task s ! i \<noteq> 0 \<and> t_pid (tmem s (task s ! i)) = pid then - EINVAL else 0, s)) \<and>
   (sint pid \<le> 0 \<longrightarrow> sys_kill pid sig s = (0, s))"
proof -
  have h: "hit pid (down 1 64) s p \<longleftrightarrow> p \<noteq> 0 \<and> (\<exists>i \<in> {1..<64}. task s ! i = p) \<and> t_pid (tmem s p) = pid" for p
    by (auto simp: hit_def)
  have e: "(\<exists>p. hit pid (down 1 64) s p) \<longleftrightarrow> (\<exists>i \<in> {1..<64}. task s ! i \<noteq> 0 \<and> t_pid (tmem s (task s ! i)) = pid)"
    unfolding h by blast
  show ?thesis
    using kill_all_good [of sig pid "down 1 64" 0 s] kill_all_bad [of sig pid "down 1 64" 0 s]
    unfolding sys_kill_def killed_def h e by auto
qed

text \<open>C35: waitpid that may not hang, of the children that its argument selects (by number, by group, or all), decides at
  the one in the highest slot that has ended, or has stopped when the caller asked for these. With none it
  returns 0 if some child has not stopped, ECHILD otherwise, and changes nothing besides preparing the status
  word. A stopped one is returned with the status 0x7f. At one that has ended the call never returns,
  although the comments of release and waitpid promise it: it adds the child's times to the caller's, frees
  the child's slot and page, gives the processor away, and panics when it gets it back.\<close>

theorem waitpid_nohang:
  fixes s u :: "'a mm_state_scheme"
  assumes "verify_area a 4 s = Done () u" "opt AND WNOHANG \<noteq> 0"
    and "kids = {i \<in> {1..<64}. task u ! i \<noteq> 0 \<and> task u ! i \<noteq> current u \<and> t_father (tmem u (task u ! i)) = t_pid (cur u) \<and>
      (if 0 < sint pid then t_pid (tmem u (task u ! i)) = pid
       else if pid = 0 then t_pgrp (tmem u (task u ! i)) = t_pgrp (cur u)
       else pid = -1 \<or> t_pgrp (tmem u (task u ! i)) = - pid)}"
    and "ready = {i \<in> kids. t_state (tmem u (task u ! i)) = TASK_ZOMBIE \<or>
      t_state (tmem u (task u ! i)) = TASK_STOPPED \<and> opt AND WUNTRACED \<noteq> 0}"
  shows "(ready = {} \<longrightarrow> sys_waitpid env pid a opt s =
      Done (if \<exists>i \<in> kids. t_state (tmem u (task u ! i)) \<noteq> TASK_STOPPED then 0 else - ECHILD) u) \<and>
    (\<forall>i \<in> ready. (\<forall>j \<in> ready. j \<le> i) \<longrightarrow> (let p = task u ! i; c = tmem u p in
      if t_state c = TASK_STOPPED
      then sys_waitpid env pid a opt s = kbind (put_fs_long 0x7f a u) (\<lambda>_ t. Done (t_pid (tmem t p)) t)
      else (\<forall>v t. sys_waitpid env pid a opt s \<noteq> Done v t) \<and>
        ((\<forall>j \<in> {1..<i}. task u ! j \<noteq> p) \<longrightarrow> sys_waitpid env pid a opt s =
          kbind (free_page p (u\<lparr>tmem := (tmem u)(current u := (cur u)\<lparr>
            t_cutime := t_cutime (cur u) + t_utime c, t_cstime := t_cstime (cur u) + t_stime c\<rparr>), task := (task u)[i := 0]\<rparr>)) (\<lambda>_ s.
          kbind (schedule env s) (\<lambda>_ s. kbind (release_loop env p [Suc i..<64] s) (\<lambda>_ s.
            panic ''trying to release non-existent task'' s))))))"
proof -
  have k: "i \<in> kids \<longleftrightarrow> is_waited pid u (task u ! i)" if "i \<in> {1..<64}" for i
    using that by (auto simp: assms(3) is_waited_def)
  have r: "i \<in> ready \<longleftrightarrow> answers pid opt u i" if "i \<in> {1..<64}" for i
    using k [OF that] by (simp add: assms(4) answers_def)
  have kids64: "kids \<subseteq> {1..<64}" unfolding assms(3) by blast
  then have in64: "ready \<subseteq> {1..<64}" unfolding assms(4) by blast
  have call: "sys_waitpid env pid a opt s = wait_loop (Suc (patience u)) env pid a opt u"
    unfolding sys_waitpid_def assms(1) by (simp only: kbind.simps)
  show ?thesis
  proof (intro conjI ballI impI)
    assume "ready = {}"
    then have "\<forall>i \<in> set (down 1 64). \<not> answers pid opt u i" using r by auto
    from wait_scan_skip [OF this, of env a "[]" 0]
    have "wait_scan env pid a opt (down 1 64) 0 u = Done (Inl (if \<exists>i \<in> set (down 1 64). is_waited pid u (task u ! i) \<and>
        t_state (tmem u (task u ! i)) \<noteq> TASK_STOPPED then 1 else 0)) u" by (simp only: append_Nil2 wait_scan.simps)
    moreover have "(\<exists>i \<in> set (down 1 64). is_waited pid u (task u ! i) \<and> t_state (tmem u (task u ! i)) \<noteq> TASK_STOPPED) \<longleftrightarrow>
        (\<exists>i \<in> kids. t_state (tmem u (task u ! i)) \<noteq> TASK_STOPPED)"
      using k kids64 unfolding set_down by blast
    ultimately show "sys_waitpid env pid a opt s =
        Done (if \<exists>i \<in> kids. t_state (tmem u (task u ! i)) \<noteq> TASK_STOPPED then 0 else - ECHILD) u"
      unfolding call using assms(2) by simp
  next
    fix i assume i: "i \<in> ready" and top: "\<forall>j \<in> ready. j \<le> i"
    then have i64: "i \<in> {1..<64}" using in64 by blast
    obtain p c where p: "p = task u ! i" "c = tmem u p" by simp
    let ?u = "u\<lparr>tmem := (tmem u)(current u := (cur u)\<lparr>
            t_cutime := t_cutime (cur u) + t_utime c, t_cstime := t_cstime (cur u) + t_stime c\<rparr>)\<rparr>"
    have w: "is_waited pid u p" "t_state c = TASK_ZOMBIE \<or> t_state c = TASK_STOPPED \<and> opt AND WUNTRACED \<noteq> 0"
      using r [OF i64] i by (simp_all add: answers_def p)
    have "\<forall>j \<in> set (down (Suc i) 64). \<not> answers pid opt u j"
    proof
      fix j assume "j \<in> set (down (Suc i) 64)"
      then have "j \<in> {1..<64}" "\<not> j \<le> i" by simp_all
      then show "\<not> answers pid opt u j" using top r by blast
    qed
    from wait_scan_skip [OF this, of env a "i # down 1 i" 0] obtain f where
      scan: "wait_scan env pid a opt (down 1 64) 0 u = wait_scan env pid a opt (i # down 1 i) f u"
      unfolding down_split [OF i64] by blast
    have run: "if t_state c = TASK_STOPPED
      then sys_waitpid env pid a opt s = kbind (put_fs_long 0x7f a u) (\<lambda>_ t. Done (t_pid (tmem t p)) t)
      else \<exists>f. sys_waitpid env pid a opt s = kbind (release env p ?u) f"
      unfolding call wait_loop.simps scan using w
      by (auto simp: p Let_def kbind_assoc tupd_def)
    have nr: "release env p ?u \<noteq> Done v t" for v t using w(1) by (intro release_never_returns) (simp add: is_waited_def)
    then have never: "kbind (release env p ?u) f \<noteq> Done v t" for f :: "unit \<Rightarrow> 'a mm_state_scheme \<Rightarrow> ('a mm_state_scheme, u32) outcome" and v t
      by (simp add: kbind_Done_iff)
    have enters: "kbind (release env p ?u) f = kbind (free_page p (u\<lparr>tmem := (tmem u)(current u := (cur u)\<lparr>
            t_cutime := t_cutime (cur u) + t_utime c, t_cstime := t_cstime (cur u) + t_stime c\<rparr>), task := (task u)[i := 0]\<rparr>)) (\<lambda>_ s.
          kbind (schedule env s) (\<lambda>_ s. kbind (release_loop env p [Suc i..<64] s) (\<lambda>_ s.
            panic ''trying to release non-existent task'' s)))" if "\<forall>j \<in> {1..<i}. task u ! j \<noteq> p"
      for f :: "unit \<Rightarrow> 'a mm_state_scheme \<Rightarrow> ('a mm_state_scheme, u32) outcome"
      using release_runs [OF _ i64, of p ?u env f] that w(1) by (simp add: is_waited_def p del: upt_Suc)
    show "let p = task u ! i; c = tmem u p in
      if t_state c = TASK_STOPPED
      then sys_waitpid env pid a opt s = kbind (put_fs_long 0x7f a u) (\<lambda>_ t. Done (t_pid (tmem t p)) t)
      else (\<forall>v t. sys_waitpid env pid a opt s \<noteq> Done v t) \<and>
        ((\<forall>j \<in> {1..<i}. task u ! j \<noteq> p) \<longrightarrow> sys_waitpid env pid a opt s =
          kbind (free_page p (u\<lparr>tmem := (tmem u)(current u := (cur u)\<lparr>
            t_cutime := t_cutime (cur u) + t_utime c, t_cstime := t_cstime (cur u) + t_stime c\<rparr>), task := (task u)[i := 0]\<rparr>)) (\<lambda>_ s.
          kbind (schedule env s) (\<lambda>_ s. kbind (release_loop env p [Suc i..<64] s) (\<lambda>_ s.
            panic ''trying to release non-existent task'' s))))"
    proof (cases "t_state c = TASK_STOPPED")
      case True
      show ?thesis using run unfolding p [symmetric] Let_def if_P [OF True] .
    next
      case False
      with run obtain f where f: "sys_waitpid env pid a opt s = kbind (release env p ?u) f" by auto
      show ?thesis unfolding p [symmetric] Let_def if_not_P [OF False] f by (intro conjI allI impI never enters)
    qed
  qed
qed

text \<open>The initial task with one child, which has ended.\<close>

definition family :: mm_state where
  "family = user_page\<lparr>task := (task user_page)[1 := 0x20000],
     tmem := (tmem user_page)(0x20000 := (cur user_page)\<lparr>t_pid := 5, t_father := 0, t_state := TASK_ZOMBIE\<rparr>)\<rparr>"

lemma family_simps:
  "task family ! 1 = 0x20000" "t_pid (tmem family 0x20000) = 5" "t_state (tmem family 0x20000) = TASK_ZOMBIE"
  "t_father (tmem family 0x20000) = 0" "t_pid (cur family) = 0" "current family \<noteq> 0x20000" "one_page family"
  "\<And>i. i \<in> {2..<64} \<Longrightarrow> task family ! i = 0"
  by (auto simp: family_def user_page_def one_page_def mm_boot_def sched_boot_def nth_Cons' 
      INIT_TASK_def sched_state.defs mm_state.defs get_base_def lsl_def bit_numeral_rec)

lemma family_slots: "i \<in> {1..<64} \<Longrightarrow> task family ! i \<in> {0, 0x20000}"
  using family_simps(1) family_simps(8) [of i] by (cases "i = 1") auto

theorem kill_signals_witness:
  "sys_kill 5 9 family = (0, family\<lparr>tmem := \<lambda>p. if p \<noteq> 0 \<and> (\<exists>i \<in> {1..<64}. task family ! i = p) \<and> t_pid (tmem family p) = 5
     then (tmem family p)\<lparr>t_signal := t_signal (tmem family p) OR 0x100\<rparr> else tmem family p\<rparr>) \<and>
   sys_kill 5 33 family = (- EINVAL, family) \<and> sys_kill (-1) 9 family = (0, family)"
proof -
  have "\<exists>i \<in> {1..<64}. task family ! i \<noteq> 0 \<and> t_pid (tmem family (task family ! i)) = 5"
    by (rule bexI [of _ 1]) (simp_all only: family_simps(1,2), simp_all)
  then show ?thesis
    using kill_signals [of 5 9 family] kill_signals [of 5 33 family] kill_signals [of "-1" 9 family] by (simp cong: if_cong)
qed

theorem waitpid_nohang_witness:
  "(\<forall>v t. sys_waitpid (\<lambda>s. s) 5 0x2100 WNOHANG family \<noteq> Done v t) \<and> sys_waitpid (\<lambda>s. s) 6 0x2100 WNOHANG family = Done (- ECHILD) family"
proof -
  have v: "verify_area 0x2100 4 family = Done () family" by (rule one_page_verify [OF family_simps(7)]) simp_all
  define kids where "kids pid = {i \<in> {1..<64}. task family ! i \<noteq> 0 \<and> task family ! i \<noteq> current family \<and>
      t_father (tmem family (task family ! i)) = t_pid (cur family) \<and>
      (if 0 < sint pid then t_pid (tmem family (task family ! i)) = pid
       else if pid = 0 then t_pgrp (tmem family (task family ! i)) = t_pgrp (cur family)
       else pid = -1 \<or> t_pgrp (tmem family (task family ! i)) = - pid)}" for pid :: u32
  define ready where "ready pid = {i \<in> kids pid. t_state (tmem family (task family ! i)) = TASK_ZOMBIE \<or>
      t_state (tmem family (task family ! i)) = TASK_STOPPED \<and> (WNOHANG :: u32) AND WUNTRACED \<noteq> 0}" for pid
  note nohang = waitpid_nohang [OF v _ kids_def ready_def, where env = "\<lambda>s. s"]
  have only: "i = 1" if "i \<in> kids pid" for i pid
  proof (rule ccontr)
    assume "i \<noteq> 1"
    with that have "i \<in> {2..<64}" "task family ! i \<noteq> 0" by (auto simp: kids_def)
    then show False using family_simps(8) [of i] by simp
  qed
  have "1 \<notin> kids 6" using family_simps(2) unfolding kids_def mem_Collect_eq family_simps(1) by simp
  then have "kids 6 = {}" using only [of _ 6] by blast
  then have "ready 6 = {}" "kids 6 = {}" by (simp_all add: ready_def)
  then have six: "sys_waitpid (\<lambda>s. s) 6 0x2100 WNOHANG family = Done (- ECHILD) family"
    using conjunct1 [OF nohang [of 6]] by simp
  have r5: "1 \<in> ready 5"
    using family_simps(2-6) unfolding ready_def kids_def mem_Collect_eq family_simps(1) by simp
  have top: "\<forall>j \<in> ready 5. j \<le> 1" using only [of _ 5] by (auto simp: ready_def)
  have "t_state (tmem family (task family ! 1)) \<noteq> TASK_STOPPED" unfolding family_simps(1,3) by simp
  note five = mp [OF bspec [OF conjunct2 [OF nohang [of 5]] r5] top, unfolded Let_def if_not_P [OF this]]
  show ?thesis by (rule conjI [OF conjunct1 [OF five] six]) simp_all
qed

lemma child_64: "child [0..<64] s p \<longleftrightarrow> p \<noteq> 0 \<and> (\<exists>i < 64. task s ! i = p) \<and> t_father (tmem s p) = t_pid (cur s)"
  by (auto simp: child_def)

text \<open>What the call leaves in the task structures: \<open>z\<close> when the children have a new father and the task is a zombie,
  \<open>v\<close> when a father at \<open>d\<close> has been told.\<close>

lemma exit_marks:
  assumes "me = current u" "kids = {p. p \<noteq> 0 \<and> (\<exists>i < 64. task u ! i = p) \<and> t_father (tmem u p) = t_pid (tmem u me)}"
    and "init = {p. p = task u ! 1 \<and> p \<noteq> 0 \<and> (\<exists>q \<in> kids. t_state (tmem u q) = TASK_ZOMBIE)}"
    and "after = (\<lambda>sent p. (tmem u p)\<lparr>t_father := if p \<in> kids then 1 else t_father (tmem u p),
      t_state := if p = me then TASK_ZOMBIE else t_state (tmem u p),
      t_exit_code := if p = me then code else t_exit_code (tmem u p),
      t_signal := if p \<in> sent then t_signal (tmem u p) OR push_bit 16 1 else t_signal (tmem u p)\<rparr>)"
    and "z = tupd me (\<lambda>t. t\<lparr>t_state := TASK_ZOMBIE, t_exit_code := code\<rparr>) (orphaned [0..<64] u)"
    and "v = tupd d (\<lambda>t. t\<lparr>t_signal := t_signal t OR push_bit 16 1\<rparr>) z"
  shows "z = u\<lparr>tmem := after init\<rparr>" "v = u\<lparr>tmem := after (insert d init)\<rparr>"
proof -
  have kid: "child [0..<64] u p \<longleftrightarrow> p \<in> kids" for p
    using assms(2) by (simp add: child_64 assms(1))
  have dead: "dead_child [0..<64] u \<longleftrightarrow> (\<exists>p \<in> kids. t_state (tmem u p) = TASK_ZOMBIE)"
    by (auto simp: dead_child_def kid)
  have i: "p \<in> init \<longleftrightarrow> p = task u ! 1 \<and> p \<noteq> 0 \<and> dead_child [0..<64] u" for p by (simp add: assms(3) dead)
  have o: "tmem (orphaned [0..<64] u) p = told (p \<in> init) (adopted (p \<in> kids) (tmem u p))" for p
    unfolding tmem_orphaned kid i ..
  have "tmem z p = after init p" for p
    by (cases "p = me"; cases "p \<in> kids"; cases "p \<in> init") (simp_all add: assms(4,5) o)
  then have tz: "tmem z = after init" by (simp add: fun_eq_iff)
  have "tmem v p = after (insert d init) p" for p
    unfolding assms(6) by (cases "p = d"; cases "p \<in> init") (simp_all add: tz, simp_all add: assms(4) or.assoc)
  then have tv: "tmem v = after (insert d init)" by (simp add: fun_eq_iff)
  show "z = u\<lparr>tmem := after init\<rparr>" unfolding tz [symmetric] by (simp add: assms(5) tupd_def orphaned_def)
  show "v = u\<lparr>tmem := after (insert d init)\<rparr>" unfolding tv [symmetric] by (simp add: assms(5,6) tupd_def orphaned_def)
qed

text \<open>C34: a task that ends, once its two segments are freed, becomes a zombie with its exit code, the tasks it is the
  father of get the number 1 as their father, SIGCHLD goes to the task in slot 1 when one of these has ended
  already and to the first task in the table that has the father's number, no task structure changes in any
  other way and nothing else does, and the processor goes to the next task. When no task has the father's
  number, or it is 0, the call never returns: with the same changes and a message it frees the slot and the
  page of the running task itself, gives the processor away, and panics when it gets it back.\<close>

theorem exit_leaves_zombie:
  assumes "free_page_tables (get_base (t_ldt (cur s) ! 1)) (get_limit 0x0f s) s = Done x s'"
    and "free_page_tables (get_base (t_ldt (cur s') ! 2)) (get_limit 0x17 s') s' = Done y u"
    and "me = current u" "me \<noteq> 0" "father = t_father (tmem u me)" "father \<noteq> t_pid (tmem u me)"
    and "kids = {p. p \<noteq> 0 \<and> (\<exists>i < 64. task u ! i = p) \<and> t_father (tmem u p) = t_pid (tmem u me)}"
    and "init = {p. p = task u ! 1 \<and> p \<noteq> 0 \<and> (\<exists>q \<in> kids. t_state (tmem u q) = TASK_ZOMBIE)}"
    and "after = (\<lambda>sent p. (tmem u p)\<lparr>t_father := if p \<in> kids then 1 else t_father (tmem u p),
      t_state := if p = me then TASK_ZOMBIE else t_state (tmem u p),
      t_exit_code := if p = me then code else t_exit_code (tmem u p),
      t_signal := if p \<in> sent then t_signal (tmem u p) OR push_bit 16 1 else t_signal (tmem u p)\<rparr>)"
    and "fathers = {i. i < 64 \<and> task u ! i \<noteq> 0 \<and> t_pid (tmem u (task u ! i)) = father}"
    and "w = u\<lparr>tmem := after init, klog := klog u @ [(''BAD BAD - no father found'', [])]\<rparr>"
  shows "(\<forall>i \<in> fathers. father \<noteq> 0 \<and> (\<forall>j \<in> fathers. i \<le> j) \<longrightarrow>
      do_exit env code s = kbind (schedule env (u\<lparr>tmem := after (insert (task u ! i) init)\<rparr>)) (\<lambda>_ s. Done (-1) s)) \<and>
    (father = 0 \<or> fathers = {} \<longrightarrow>
      (\<forall>v t. do_exit env code s \<noteq> Done v t) \<and>
      (\<forall>i \<in> {1..<64}. task u ! i = me \<and> (\<forall>j \<in> {1..<i}. task u ! j \<noteq> me) \<longrightarrow>
        do_exit env code s = kbind (free_page me (w\<lparr>task := (task u)[i := 0]\<rparr>)) (\<lambda>_ s.
          kbind (schedule env s) (\<lambda>_ s. kbind (release_loop env me [Suc i..<64] s) (\<lambda>_ s.
            panic ''trying to release non-existent task'' s)))))"
proof -
  let ?z = "tupd me (\<lambda>t. t\<lparr>t_state := TASK_ZOMBIE, t_exit_code := code\<rparr>) (orphaned [0..<64] u)"
  note marks = exit_marks [OF assms(3,7-9) refl refl]
  have "me \<notin> kids" using assms(5-7) by auto
  then have fz: "t_father (cur ?z) = father" unfolding marks(1) using assms(3,5) by (simp add: assms(9))
  have pids: "has_pid father ?z i \<longleftrightarrow> task u ! i \<noteq> 0 \<and> t_pid (tmem u (task u ! i)) = father" for i
    by (simp add: has_pid_def)
  have run: "do_exit env code s = kbind (tell_father env father ?z) (\<lambda>_ s. kbind (schedule env s) (\<lambda>_ s. Done (-1) s))"
    using assms(1,2) fz by (simp add: do_exit_def Let_def orphan_all assms(3))
  have none: "tell_father env father ?z = release env me w" if "father = 0 \<or> fathers = {}"
  proof -
    have "(if father \<noteq> 0 then List.find (has_pid father ?z) [0..<64] else None) = None"
      using that pids by (auto simp: find_None_iff assms(10))
    moreover have "printk ''BAD BAD - no father found'' [] ?z = w" unfolding marks(1) by (simp add: printk_def assms(11))
    ultimately show ?thesis unfolding tell_father_def by (simp add: assms(3))
  qed
  show ?thesis
  proof (intro conjI ballI impI allI)
    fix i assume i: "i \<in> fathers" and f: "father \<noteq> 0 \<and> (\<forall>j \<in> fathers. i \<le> j)"
    have i64: "i < 64" using i by (simp add: assms(10))
    have h: "has_pid father ?z j \<longleftrightarrow> j \<in> fathers" if "j < 64" for j
      unfolding pids using that by (simp add: assms(10))
    have "\<not> has_pid father ?z j" if "j < i" for j
    proof -
      have "j < 64" using that i64 by simp
      then show ?thesis using f h [of j] that by (auto simp: not_le)
    qed
    then have "List.find (has_pid father ?z) [0..<64] = Some i"
      using i i64 h [of i] unfolding find_Some_iff by (intro exI [of _ i]) (simp del: upt_Suc)
    then have "tell_father env father ?z = Done () (tupd (task u ! i) (\<lambda>t. t\<lparr>t_signal := t_signal t OR push_bit 16 1\<rparr>) ?z)"
      using f by (simp add: tell_father_def)
    then show "do_exit env code s = kbind (schedule env (u\<lparr>tmem := after (insert (task u ! i) init)\<rparr>)) (\<lambda>_ s. Done (-1) s)"
      unfolding run marks(2) by (simp only: kbind.simps)
  next
    fix v t assume "father = 0 \<or> fathers = {}"
    with release_never_returns [OF assms(4)] show "do_exit env code s \<noteq> Done v t"
      unfolding run by (auto simp: kbind_Done_iff none)
  next
    fix i assume f: "father = 0 \<or> fathers = {}" and i: "i \<in> {1..<64}" "task u ! i = me \<and> (\<forall>j \<in> {1..<i}. task u ! j \<noteq> me)"
    have tw: "task w = task u" by (simp add: assms(11))
    show "do_exit env code s = kbind (free_page me (w\<lparr>task := (task u)[i := 0]\<rparr>)) (\<lambda>_ s.
          kbind (schedule env s) (\<lambda>_ s. kbind (release_loop env me [Suc i..<64] s) (\<lambda>_ s.
            panic ''trying to release non-existent task'' s)))"
      unfolding run none [OF f]
      by (rule release_runs [OF assms(4) i(1), of w, unfolded tw, OF conjunct1 [OF i(2)] conjunct2 [OF i(2)]])
  qed
qed

text \<open>A task with pid 2, whose father is the task in slot 1 and whose child, in slot 3, has ended.\<close>

definition leaving :: mm_state where
  "leaving = family\<lparr>task := (task family)[2 := 0x30000, 3 := 0x40000], current := 0x30000,
     tmem := (tmem family)(0x30000 := (cur family)\<lparr>t_pid := 2, t_father := 5,
         t_ldt := map (set_base 0x8000000) (t_ldt (cur family))\<rparr>,
       0x40000 := (cur family)\<lparr>t_pid := 3, t_father := 2, t_state := TASK_ZOMBIE\<rparr>)\<rparr>"

lemma leaving_simps:
  "current leaving = 0x30000" "t_pid (tmem leaving 0x30000) = 2" "t_father (tmem leaving 0x30000) = 5"
  "task leaving ! 1 = 0x20000" "task leaving ! 3 = 0x40000" "t_pid (tmem leaving 0x20000) = 5"
  "t_father (tmem leaving 0x40000) = 2" "t_state (tmem leaving 0x40000) = TASK_ZOMBIE"
  "t_ldt (tmem leaving 0x30000) = map (set_base 0x8000000) [\<lparr>desc_a = 0, desc_b = 0\<rparr>,
     \<lparr>desc_a = 0x9f, desc_b = 0xc0fa00\<rparr>, \<lparr>desc_a = 0x9f, desc_b = 0xc0f200\<rparr>]" "pmem leaving 128 = 0"
  by (simp_all add: leaving_def family_def user_page_def mm_boot_def sched_boot_def INIT_TASK_def
      sched_state.defs mm_state.defs)

lemma leaving_first: "t_pid (tmem leaving (task leaving ! 0)) = 0"
  by (simp add: leaving_def family_def user_page_def mm_boot_def sched_boot_def INIT_TASK_def
      sched_state.defs mm_state.defs)

theorem exit_leaves_zombie_witness:
  "\<exists>v. do_exit (\<lambda>s. s) 0x700 leaving = kbind (schedule (\<lambda>s. s) v) (\<lambda>_ s. Done (-1) s) \<and>
    t_state (tmem v 0x30000) = TASK_ZOMBIE \<and> t_exit_code (tmem v 0x30000) = 0x700 \<and> t_father (tmem v 0x40000) = 1 \<and>
    bit (t_signal (tmem v 0x20000)) 16"
proof -
  have b: "get_base (t_ldt (cur leaving) ! 1) = 0x8000000" "get_base (t_ldt (cur leaving) ! 2) = 0x8000000"
    by (simp_all add: leaving_simps get_base_set_base)
  have f: "free_page_tables 0x8000000 (get_limit seg leaving) leaving = Done 0 leaving" if "seg = 0x0f \<or> seg = 0x17" for seg
  proof -
    have "lsl \<lparr>desc_a = 0x9f, desc_b = 0xc0fa00\<rparr> + 1 = 0xa0000" "lsl \<lparr>desc_a = 0x9f, desc_b = 0xc0f200\<rparr> + 1 = 0xa0000"
      by (simp_all add: lsl_def bit_numeral_rec)
    then have "get_limit seg leaving = 0xa0000"
      using that by (auto simp: get_limit_def leaving_simps(1,9) lsl_set_base)
    then show ?thesis by (simp add: free_page_tables_def dir_entry_def leaving_simps(10))
  qed
  have free: "free_page_tables (get_base (t_ldt (cur leaving) ! 1)) (get_limit 0x0f leaving) leaving = Done 0 leaving"
    "free_page_tables (get_base (t_ldt (cur leaving) ! 2)) (get_limit 0x17 leaving) leaving = Done 0 leaving"
    unfolding b by (rule f, simp)+
  have p: "0x30000 = current leaving" "(0x30000 :: u32) \<noteq> 0" "5 = t_father (tmem leaving 0x30000)"
    "5 \<noteq> t_pid (tmem leaving 0x30000)" by (simp_all add: leaving_simps(1-3))
  obtain kids where kids: "kids = {p. p \<noteq> 0 \<and> (\<exists>i < 64. task leaving ! i = p) \<and> t_father (tmem leaving p) = t_pid (tmem leaving 0x30000)}"
    by simp
  have k: "0x40000 \<in> kids" using leaving_simps(2,5,7) by (auto simp: kids intro!: exI [of _ 3])
  obtain fathers where fs: "fathers = {i. i < 64 \<and> task leaving ! i \<noteq> 0 \<and> t_pid (tmem leaving (task leaving ! i)) = 5}" by simp
  have "1 \<in> fathers" by (simp add: fs leaving_simps(6) leaving_simps(4) [simplified])
  moreover have "0 \<notin> fathers" by (simp add: fs leaving_first)
  ultimately have least: "\<forall>j \<in> fathers. 1 \<le> j" by (metis One_nat_def Suc_leI gr0I)
  note z = bspec [OF conjunct1 [OF exit_leaves_zombie [OF free p kids refl refl fs refl, where env = "\<lambda>s. s" and code = "0x700"]] \<open>1 \<in> fathers\<close>]
  show ?thesis
    by (rule exI, rule conjI, rule mp [OF z]) (use k least leaving_simps(4) in \<open>simp_all add: bit_or_iff bit_push_bit_iff bit_1_iff\<close>)
qed

end
