(* ===== verification/Format.thy ===== *)
theory Format
  imports Text Fs
begin

text \<open>
  Formatted output, \<^verbatim>\<open>kernel/vsprintf.c\<close>: \<open>_sprintnum\<close> writes a number, \<open>vsprintf\<close> a format
  with its arguments. Both work on a flat memory of bytes that holds the format, the arguments behind
  \<open>va_list\<close>, the strings among them and the destination. The destination gets no terminator. What they
  write is compared with \<open>render\<close>, a function of the format and the list of the arguments.
\<close>

section \<open>Numbers\<close>

text \<open>\<open>char digits[] = "0123456789ABCDEF"\<close>, with its terminator.\<close>

definition digit_chars :: "u8 list" where
  "digit_chars = [48, 49, 50, 51, 52, 53, 54, 55, 56, 57, 65, 66, 67, 68, 69, 70, 0]"

definition digit_at :: "int \<Rightarrow> u8 option" where
  "digit_at i = (if 0 \<le> i \<and> i < 17 then Some (digit_chars ! nat i) else None)"

text \<open>\<open>while (num)\<close>: the digits from the last to the first, \<open>None\<close> for an access out of \<open>digits\<close> or \<open>buf\<close>.\<close>

function digit_loop :: "int \<Rightarrow> int \<Rightarrow> u8 list \<Rightarrow> u8 list option" where
  "digit_loop base num buf =
     (if num = 0 then Some buf
      else case digit_at (cmod num base) of
          None \<Rightarrow> None
        | Some c \<Rightarrow> if length buf \<ge> 50 then None else digit_loop base (cdiv num base) (buf @ [c]))"
  by pat_completeness auto
termination by (relation "measure (\<lambda>(base, num, buf). 50 - length buf)") auto

declare digit_loop.simps [simp del]

text \<open>\<open>*dest++ = buf[i]\<close> for the bytes of a list.\<close>

primrec store_bytes :: "u8 list \<Rightarrow> u32 \<Rightarrow> mem \<Rightarrow> mem" where
  "store_bytes [] dest m = m"
| "store_bytes (c # cs) dest m = store_bytes cs (dest + 1) (m(dest := c))"

definition sprintnum :: "u32 \<Rightarrow> u32 \<Rightarrow> int \<Rightarrow> bool \<Rightarrow> mem \<Rightarrow> (mem, u32) outcome" where
  "sprintnum dest num base sign m =
     (case (if sign \<and> sint num < 0 then (dest + 1, - num, 1, m(dest := 45)) else (dest, num, 0, m)) of (dest, num, len, m) \<Rightarrow>
        if num = 0 then Done (len + 1) (m(dest := 48))
        else case digit_loop base (sint num) [] of
            None \<Rightarrow> Halted (Undef ''digits[num % base]'') m
          | Some buf \<Rightarrow> Done (len + of_nat (length buf)) (store_bytes (rev buf) dest m))"

section \<open>vsprintf\<close>

text \<open>
  A loop over a string ends at its terminator; in an address space of \<open>2 ^ 32\<close> bytes without one it never
  ends. The bound is on the bytes of the string.
\<close>

definition string_room :: nat where "string_room = 2 ^ 32"

text \<open>\<open>while(*s) *dest_ptr++ = ( *s++)\<close>\<close>

primrec put_string :: "nat \<Rightarrow> u32 \<Rightarrow> u32 \<Rightarrow> mem \<Rightarrow> (mem, u32) outcome" where
  "put_string 0 s dest m = Blocked m"
| "put_string (Suc n) s dest m = (if m s = 0 then Done dest m else put_string n (s + 1) (dest + 1) (m(dest := m s)))"

text \<open>The \<open>switch\<close>: the new \<open>dest_ptr\<close> and \<open>ap\<close>. Every argument takes four bytes.\<close>

definition convert :: "u8 \<Rightarrow> u32 \<Rightarrow> u32 \<Rightarrow> mem \<Rightarrow> (mem, u32 \<times> u32) outcome" where
  "convert c dest ap m =
     (if c = 100 then kbind (sprintnum dest (load32 m ap) 10 True m) (\<lambda>n m. Done (dest + n, ap + 4) m)
      else if c = 117 then kbind (sprintnum dest (load32 m ap) 10 False m) (\<lambda>n m. Done (dest + n, ap + 4) m)
      else if c = 120 then kbind (sprintnum dest (load32 m ap) 16 True m) (\<lambda>n m. Done (dest + n, ap + 4) m)
      else if c = 115 then kbind (put_string string_room (load32 m ap) dest m) (\<lambda>d m. Done (d, ap + 4) m)
      else if c = 99 then Done (dest + 1, ap + 4) (m(dest := m ap))
      else if c = 37 then Done (dest + 1, ap) (m(dest := 37))
      else Done (dest, ap) m)"

primrec vsprintf_loop :: "nat \<Rightarrow> u32 \<Rightarrow> u32 \<Rightarrow> u32 \<Rightarrow> mem \<Rightarrow> (mem, u32) outcome" where
  "vsprintf_loop 0 dest fmt ap m = Blocked m"
| "vsprintf_loop (Suc n) dest fmt ap m =
     (if m fmt = 0 then Done dest m
      else if m fmt \<noteq> 37 then vsprintf_loop n (dest + 1) (fmt + 1) ap (m(dest := m fmt))
      else if m (fmt + 1) = 0 then Done dest m
      else kbind (convert (m (fmt + 1)) dest ap m) (\<lambda>(dest, ap) m. vsprintf_loop n dest (fmt + 2) ap m))"

definition vsprintf :: "u32 \<Rightarrow> u32 \<Rightarrow> u32 \<Rightarrow> mem \<Rightarrow> (mem, unit) outcome" where
  "vsprintf dest fmt ap m = kbind (vsprintf_loop string_room dest fmt ap m) (\<lambda>_ m. Done () m)"

section \<open>What a number reads\<close>

function digits_of :: "nat \<Rightarrow> nat \<Rightarrow> u8 list" where
  "digits_of base n = (if n = 0 \<or> base < 2 then [] else digits_of base (n div base) @ [digit_chars ! (n mod base)])"
  by pat_completeness auto
termination by (relation "measure snd") auto

declare digits_of.simps [simp del]

definition show_num :: "nat \<Rightarrow> int \<Rightarrow> u8 list" where
  "show_num base n = (if n < 0 then [45] else []) @ (if n = 0 then [48] else digits_of base (nat \<bar>n\<bar>))"

definition digit_value :: "u8 \<Rightarrow> nat" where
  "digit_value c = (if c \<le> 57 then unat c - 48 else unat c - 55)"

definition read_num :: "nat \<Rightarrow> u8 list \<Rightarrow> int" where
  "read_num base cs =
     (if cs \<noteq> [] \<and> List.hd cs = 45 then - int (foldl (\<lambda>n c. n * base + digit_value c) 0 (List.tl cs))
      else int (foldl (\<lambda>n c. n * base + digit_value c) 0 cs))"

lemma digit_value_char: "i < 16 \<Longrightarrow> digit_value (digit_chars ! i) = i \<and> digit_chars ! i \<noteq> 45 \<and> digit_chars ! i \<noteq> 0"
proof -
  have "list_all (\<lambda>i. digit_value (digit_chars ! i) = i \<and> digit_chars ! i \<noteq> 45 \<and> digit_chars ! i \<noteq> 0) [0..<16]"
    by code_simp
  then show "i < 16 \<Longrightarrow> ?thesis" by (auto simp: list_all_iff)
qed

lemma foldl_digits_of:
  "2 \<le> base \<Longrightarrow> base \<le> 16 \<Longrightarrow> foldl (\<lambda>n c. n * base + digit_value c) 0 (digits_of base n) = n"
proof (induction base n rule: digits_of.induct)
  case (1 base n)
  show ?case
  proof (cases "n = 0")
    case False
    have "n mod base < base" using 1(2) by simp
    then have "n mod base < 16" using 1(3) by simp
    then show ?thesis using 1 False by (subst digits_of.simps) (simp add: digit_value_char)
  qed (simp add: digits_of.simps)
qed

lemma digits_of_chars: "base \<le> 16 \<Longrightarrow> c \<in> set (digits_of base n) \<Longrightarrow> c \<noteq> 45 \<and> c \<noteq> 0"
proof (induction base n rule: digits_of.induct)
  case (1 base n)
  show ?case
  proof (cases "n = 0 \<or> base < 2")
    case False
    have "n mod base < base" using False by simp
    then have "n mod base < 16" using 1(2) by simp
    then show ?thesis using 1 False by (subst (asm) (2) digits_of.simps) (auto simp: digit_value_char)
  qed (use 1(3) in \<open>simp add: digits_of.simps\<close>)
qed

text \<open>Reading back what \<open>show_num\<close> gives.\<close>

lemma read_show_num: "2 \<le> base \<Longrightarrow> base \<le> 16 \<Longrightarrow> read_num base (show_num base n) = n"
  using digits_of_chars [of base _ "nat \<bar>n\<bar>"] foldl_digits_of [of base "nat \<bar>n\<bar>"]
  by (cases "digits_of base (nat \<bar>n\<bar>)") (auto simp: read_num_def show_num_def digit_value_def)

section \<open>Numbers as written\<close>

lemma digit_at_char: "0 \<le> i \<Longrightarrow> i < 16 \<Longrightarrow> digit_at i = Some (digit_chars ! nat i)"
  by (simp add: digit_at_def)

lemma div_small: "2 \<le> base \<Longrightarrow> (n :: nat) < 2 ^ Suc k \<Longrightarrow> n div base < 2 ^ k"
proof (rule less_mult_imp_div_less)
  assume "2 \<le> base" "n < 2 ^ Suc k"
  then have "n < 2 ^ k * 2" "2 ^ k * 2 \<le> 2 ^ k * base" by simp_all
  then show "n < 2 ^ k * base" by (rule less_le_trans)
qed

text \<open>The loop collects the digits of a positive number, last one first, when \<open>buf\<close> has the room.\<close>

lemma digit_loop_digits:
  assumes "2 \<le> base" "base \<le> 16"
  shows "n < 2 ^ k \<Longrightarrow> length buf + k \<le> 50 \<Longrightarrow> digit_loop (int base) (int n) buf = Some (buf @ rev (digits_of base n))"
proof (induction k arbitrary: n buf)
  case 0
  then show ?case by (simp add: digit_loop.simps digits_of.simps)
next
  case (Suc k)
  show ?case
  proof (cases "n = 0")
    case False
    have "n mod base < base" using assms by simp
    then have c: "digit_at (int (n mod base)) = Some (digit_chars ! (n mod base))" using assms(2) by (simp add: digit_at_def)
    have "cmod (int n) (int base) = int (n mod base)" "cdiv (int n) (int base) = int (n div base)"
      using assms(1) by (simp_all add: cmod_nonneg cdiv_nonneg zmod_int zdiv_int)
    moreover have "digit_loop (int base) (int (n div base)) (buf @ [digit_chars ! (n mod base)]) =
        Some ((buf @ [digit_chars ! (n mod base)]) @ rev (digits_of base (n div base)))"
      by (rule Suc.IH) (use Suc.prems div_small [OF assms(1)] in simp_all)
    ultimately show ?thesis using False c assms(1) Suc.prems(2)
      by (subst digit_loop.simps, subst digits_of.simps) simp
  qed (simp add: digit_loop.simps digits_of.simps)
qed

text \<open>A negative number runs into a negative index, at the latest with its first digit.\<close>

lemma cdiv_toward_zero: "n < 0 \<Longrightarrow> 0 < b \<Longrightarrow> cdiv n b = - (- n div b) \<and> cmod n b = - (- n mod b)"
  using minus_mult_div_eq_mod [of "- n" b] by (simp add: cdiv_def cmod_def)

lemma digit_loop_negative: "2 \<le> base \<Longrightarrow> n < 0 \<Longrightarrow> digit_loop base n buf = None"
proof (induction base n buf rule: digit_loop.induct)
  case (1 base n buf)
  note c = cdiv_toward_zero [OF 1(3), of base]
  show ?case
  proof (cases "- n mod base = 0")
    case True
    have "0 < - n div base"
    proof (rule ccontr)
      assume "\<not> 0 < - n div base"
      then have "- n div base = 0" using 1(2,3) by (simp add: pos_imp_zdiv_nonneg_iff order_antisym)
      with True show False using 1(3) mult_div_mod_eq [of base "- n"] by simp
    qed
    then show ?thesis using 1 c True by (subst digit_loop.simps) (auto split: option.split)
  next
    case False
    have "0 \<le> - n mod base" using 1(2) by simp
    with False have "0 < - n mod base" by linarith
    then have "cmod n base < 0" using c 1(2) by simp
    then show ?thesis using 1(3) by (subst digit_loop.simps) (simp add: digit_at_def)
  qed
qed

lemma store_bytes_append: "store_bytes (xs @ ys) dest m = store_bytes ys (dest + of_nat (length xs)) (store_bytes xs dest m)"
  by (induction xs arbitrary: dest m) (simp_all add: ac_simps)

lemma store_bytes_other: "(\<And>i. i < length xs \<Longrightarrow> a \<noteq> dest + of_nat i) \<Longrightarrow> store_bytes xs dest m a = m a"
proof (induction xs arbitrary: dest m)
  case (Cons x xs)
  have "a \<noteq> dest + 1 + of_nat i" if "i < length xs" for i
    using Cons.prems [of "Suc i"] that by (simp add: ac_simps)
  then show ?case using Cons.IH Cons.prems [of 0] by simp
qed simp

lemma store_bytes_at: "length xs \<le> 2 ^ 32 \<Longrightarrow> i < length xs \<Longrightarrow> store_bytes xs dest m (dest + of_nat i) = xs ! i"
proof (induction xs arbitrary: dest m i)
  case (Cons x xs)
  show ?case
  proof (cases i)
    case 0
    have "dest \<noteq> dest + 1 + of_nat j" if "j < length xs" for j
    proof -
      have "unat (of_nat (Suc j) :: u32) = Suc j" using that Cons.prems(1) by (intro unat_of_nat_u32) simp
      then have "(1 :: u32) + of_nat j \<noteq> 0" by auto
      then show ?thesis by (simp add: add.assoc)
    qed
    then show ?thesis using 0 store_bytes_other [of xs dest "dest + 1"] by simp
  next
    case (Suc j)
    then show ?thesis using Cons.IH [of j "dest + 1"] Cons.prems by (simp add: ac_simps)
  qed
qed simp

lemma sint_negated: "(num :: u32) \<noteq> 0x80000000 \<Longrightarrow> sint (- num) = - sint num"
proof -
  assume "num \<noteq> 0x80000000"
  have "sint num \<noteq> - (2 ^ 31)"
  proof
    assume "sint num = - (2 ^ 31)"
    then have "sint num = sint (0x80000000 :: u32)" by simp
    with \<open>num \<noteq> 0x80000000\<close> show False unfolding sint_inj by simp
  qed
  then have "- (2 ^ 31) < sint num" using sint_range(1) [of num] by simp
  then show ?thesis using sint_minus [of 0 num] sint_range(2) [of num] by simp
qed

text \<open>What a conversion of a number writes, when it does not run out of \<open>digits\<close>.\<close>

lemma sprintnum_shows:
  assumes "2 \<le> base" "base \<le> 16" "if sign then num \<noteq> 0x80000000 else 0 \<le> sint num"
  shows "sprintnum dest num (int base) sign m =
    Done (of_nat (length (show_num base (sint num)))) (store_bytes (show_num base (sint num)) dest m)"
proof -
  have loop: "digit_loop (int base) (sint w) [] = Some (rev (digits_of base (nat (sint w))))" if "0 \<le> sint w" for w :: u32
  proof -
    have "sint w < 2 ^ 31" using sint_lt [of w] by simp
    then have "nat (sint w) < 2 ^ 31" using that by simp
    from digit_loop_digits [OF assms(1,2) this, of "[]"] that show ?thesis by simp
  qed
  show ?thesis
  proof (cases "sint num < 0")
    case True
    then have s: "sign" "num \<noteq> 0x80000000" using assms(3) by (auto split: if_splits)
    have n: "sint (- num) = - sint num" by (rule sint_negated) (rule s(2))
    have z: "num \<noteq> 0" using True by auto
    show ?thesis using True s(1) z loop [of "- num"] n
      by (simp add: sprintnum_def show_num_def add.commute)
  next
    case False
    have "num = 0 \<longleftrightarrow> sint num = 0" using sint_inj [of num 0] by simp
    with False loop [of num] show ?thesis
      by (auto simp: sprintnum_def show_num_def)
  qed
qed

section \<open>The text of a format\<close>

text \<open>
  The text that a format stands for, as a function of the words of the arguments and of the strings that
  some of them point to; \<open>sx\<close> says whether \<open>%x\<close> takes a sign, as it does in \<open>vsprintf\<close> and does
  not in \<open>s_printk\<close>. \<open>None\<close>: an argument is missing, is no string, or is a number whose
  conversion runs out of \<open>digits\<close>.
\<close>

definition arg_text :: "bool \<Rightarrow> (u32 \<Rightarrow> u8 list option) \<Rightarrow> u8 \<Rightarrow> u32 \<Rightarrow> u8 list option" where
  "arg_text sx str d a =
     (if d = 115 then str a
      else if d = 99 then Some [ucast a]
      else if (if d = 117 \<or> d = 120 \<and> \<not> sx then 0 \<le> sint a else a \<noteq> 0x80000000) then Some (show_num (if d = 120 then 16 else 10) (sint a))
      else None)"

fun render :: "bool \<Rightarrow> (u32 \<Rightarrow> u8 list option) \<Rightarrow> u8 list \<Rightarrow> u32 list \<Rightarrow> u8 list option" where
  "render sx str [] args = Some []"
| "render sx str [c] args = (if c = 37 then Some [] else Some [c])"
| "render sx str (c # d # f) args =
     (if c \<noteq> 37 then map_option (Cons c) (render sx str (d # f) args)
      else if d = 37 then map_option (Cons 37) (render sx str f args)
      else if d \<notin> {99, 100, 115, 117, 120} then render sx str f args
      else case args of
          [] \<Rightarrow> None
        | a # args \<Rightarrow>
            case arg_text sx str d a of None \<Rightarrow> None | Some x \<Rightarrow> map_option (append x) (render sx str f args))"

definition area :: "u32 \<Rightarrow> nat \<Rightarrow> u32 set" where
  "area a n = (\<lambda>i. a + of_nat i) ` {..<n}"

lemma area_Suc: "area a (Suc n) = insert a (area (a + 1) n)"
  by (simp add: area_def lessThan_Suc_eq_insert_0 image_image ac_simps)

lemma area_0 [simp]: "area a 0 = {}"
  by (simp add: area_def)

lemma area_append: "area a (m + n) = area a m \<union> area (a + of_nat m) n"
  by (induction m arbitrary: a) (simp_all add: area_Suc ac_simps)

definition agree :: "u32 set \<Rightarrow> mem \<Rightarrow> mem \<Rightarrow> bool" where
  "agree K m t \<longleftrightarrow> (\<forall>a \<in> K. t a = m a)"

lemma agree_store: "agree K m t \<Longrightarrow> area dest (length xs) \<inter> K = {} \<Longrightarrow> agree K m (store_bytes xs dest t)"
proof (induction xs arbitrary: dest t)
  case (Cons x xs)
  then have "agree K m (t(dest := x))" "area (dest + 1) (length xs) \<inter> K = {}"
    by (auto simp: agree_def area_Suc)
  then show ?case using Cons.IH by simp
qed simp

lemma agree_load32:
  assumes "agree K m t" "area a 4 \<subseteq> K"
  shows "load32 t a = load32 m a" "t a = m a"
proof -
  have "area a 4 = {a, a + 1, a + 2, a + 3}" by (auto simp: area_def image_iff numeral_eq_Suc lessThan_Suc)
  then show "load32 t a = load32 m a" "t a = m a"
    using assms by (simp_all add: agree_def load32_def load16_def ac_simps)
qed

lemma load32_byte: "ucast (load32 m a) = m a"
  by (rule bit_word_eqI) (simp add: load32_def load16_def bit_simps)

lemma put_string_stores:
  "cstring m p xs \<Longrightarrow> agree K m t \<Longrightarrow> area p (Suc (length xs)) \<subseteq> K \<Longrightarrow> area dest (length xs) \<inter> K = {} \<Longrightarrow> length xs < n \<Longrightarrow>
     put_string n p dest t = Done (dest + of_nat (length xs)) (store_bytes xs dest t)"
proof (induction xs arbitrary: p dest t n)
  case Nil
  then show ?case by (cases n) (auto simp: agree_def area_Suc)
next
  case (Cons x xs)
  obtain k where n: "n = Suc k" using Cons.prems(5) by (cases n) auto
  have "t p = x" "x \<noteq> 0" using Cons.prems(1-3) by (auto simp: agree_def area_Suc)
  moreover have "put_string k (p + 1) (dest + 1) (t(dest := x)) =
      Done (dest + 1 + of_nat (length xs)) (store_bytes xs (dest + 1) (t(dest := x)))"
  proof (rule Cons.IH)
    show "agree K m (t(dest := x))" using agree_store [OF Cons.prems(2), of dest "[x]"] Cons.prems(4) by (simp add: area_Suc)
  qed (use Cons.prems n in \<open>simp_all add: area_Suc\<close>)
  ultimately show ?case by (simp add: n ac_simps)
qed

text \<open>The words behind \<open>va_list\<close>, and the strings among them, inside of an area that is not written.\<close>

definition args_at :: "u32 set \<Rightarrow> mem \<Rightarrow> u32 \<Rightarrow> u32 list \<Rightarrow> bool" where
  "args_at K m ap args \<longleftrightarrow> area ap (4 * length args) \<subseteq> K \<and> (\<forall>j < length args. load32 m (ap + 4 * of_nat j) = args ! j)"

definition strings_at :: "u32 set \<Rightarrow> mem \<Rightarrow> (u32 \<Rightarrow> u8 list option) \<Rightarrow> bool" where
  "strings_at K m str \<longleftrightarrow>
     (\<forall>p xs. str p = Some xs \<longrightarrow> cstring m p xs \<and> length xs < string_room \<and> area p (Suc (length xs)) \<subseteq> K)"

lemma args_at_Cons:
  "args_at K m ap (a # args) \<longleftrightarrow> area ap 4 \<subseteq> K \<and> load32 m ap = a \<and> args_at K m (ap + 4) args"
proof -
  have "4 * length (a # args) = 4 + 4 * length args" by simp
  then show ?thesis unfolding args_at_def area_append by (auto simp: All_less_Suc2 ac_simps area_append)
qed

section \<open>A loop over a format\<close>

text \<open>
  What the loops of \<open>vsprintf\<close> and of \<open>s_printk\<close> share: the format, the arguments and the strings lie in
  an area \<open>K\<close> of the memory \<open>m\<close> that the printer leaves alone, \<open>ready xs x\<close> says that \<open>xs\<close> can be
  printed from \<open>x\<close>, and \<open>prints xs x r\<close> that the run \<open>r\<close> does so. The laws say what one round does,
  given what the rest of the loop does.
\<close>

locale printer =
  fixes K :: "u32 set" and m :: mem and sx :: bool and str :: "u32 \<Rightarrow> u8 list option"
    and loop :: "nat \<Rightarrow> u32 \<Rightarrow> u32 \<Rightarrow> 'x \<Rightarrow> 'r"
    and ready :: "u8 list \<Rightarrow> 'x \<Rightarrow> bool" and prints :: "u8 list \<Rightarrow> 'x \<Rightarrow> 'r \<Rightarrow> bool"
  assumes at_end: "ready [] x \<Longrightarrow> fmt \<in> K \<Longrightarrow> m fmt = 0 \<Longrightarrow> prints [] x (loop (Suc n) fmt ap x)"
    and after_percent: "ready [] x \<Longrightarrow> {fmt, fmt + 1} \<subseteq> K \<Longrightarrow> m fmt = 37 \<Longrightarrow> m (fmt + 1) = 0 \<Longrightarrow> prints [] x (loop (Suc n) fmt ap x)"
    and character: "ready (c # r) x \<Longrightarrow> fmt \<in> K \<Longrightarrow> m fmt = c \<Longrightarrow> c \<noteq> 0 \<Longrightarrow> c \<noteq> 37 \<Longrightarrow>
      (\<And>x. ready r x \<Longrightarrow> prints r x (loop n (fmt + 1) ap x)) \<Longrightarrow> prints (c # r) x (loop (Suc n) fmt ap x)"
    and no_argument: "ready ((if d = 37 then [37] else []) @ r) x \<Longrightarrow> {fmt, fmt + 1} \<subseteq> K \<Longrightarrow> m fmt = 37 \<Longrightarrow> m (fmt + 1) = d \<Longrightarrow> d \<noteq> 0 \<Longrightarrow>
      d \<notin> {99, 100, 115, 117, 120} \<Longrightarrow> (\<And>x. ready r x \<Longrightarrow> prints r x (loop n (fmt + 2) ap x)) \<Longrightarrow>
      prints ((if d = 37 then [37] else []) @ r) x (loop (Suc n) fmt ap x)"
    and argument: "ready (y @ r) x \<Longrightarrow> {fmt, fmt + 1} \<subseteq> K \<Longrightarrow> m fmt = 37 \<Longrightarrow> m (fmt + 1) = d \<Longrightarrow> d \<in> {99, 100, 115, 117, 120} \<Longrightarrow>
      area ap 4 \<subseteq> K \<Longrightarrow> arg_text sx str d (load32 m ap) = Some y \<Longrightarrow> strings_at K m str \<Longrightarrow>
      (\<And>x. ready r x \<Longrightarrow> prints r x (loop n (fmt + 2) (ap + 4) x)) \<Longrightarrow> prints (y @ r) x (loop (Suc n) fmt ap x)"
begin

lemma prints_text:
  "render sx str f args = Some r \<Longrightarrow> cstring m fmt f \<Longrightarrow> area fmt (Suc (length f)) \<subseteq> K \<Longrightarrow> length f < n \<Longrightarrow> args_at K m ap args \<Longrightarrow>
     strings_at K m str \<Longrightarrow> ready r x \<Longrightarrow> prints r x (loop n fmt ap x)"
proof (induction f arbitrary: args r fmt n ap x rule: measure_induct_rule [of length])
  case (less f)
  note prems = less.prems
  consider (Nil) "f = []" | (Single) c where "f = [c]" | (Pair) c d g where "f = c # d # g" by (metis list.exhaust)
  then show ?case
  proof cases
    case Nil
    then show ?thesis using prems by (cases n) (auto intro!: at_end simp: area_Suc)
  next
    case Single
    from prems(4) Single obtain k where n: "n = Suc (Suc k)" by (cases n; cases "n - 1") auto
    have "prints [] x (loop (Suc k) (fmt + 1) ap x)" if "ready [] x" for x
      by (rule at_end) (use prems Single that in \<open>simp_all add: area_Suc\<close>)
    then show ?thesis using prems Single n character [of c "[]" x fmt "Suc k" ap] after_percent [of x fmt]
      by (cases "c = 37") (auto simp: area_Suc)
  next
    case Pair
    obtain k where n: "n = Suc k" using prems(4) by (cases n) auto
    have b: "m fmt = c" "c \<noteq> 0" "m (fmt + 1) = d" "d \<noteq> 0" "cstring m (fmt + 1) (d # g)" "cstring m (fmt + 2) g"
      and a: "area (fmt + 1) (Suc (length (d # g))) \<subseteq> K" "area (fmt + 2) (Suc (length g)) \<subseteq> K" "{fmt, fmt + 1} \<subseteq> K"
      and l: "length (d # g) < k" "length g < k" "length (d # g) < length f" "length g < length f"
      using prems(2,3,4) n Pair by (auto simp: area_Suc ac_simps)
    note IH = less.IH [OF l(3) _ b(5) a(1) l(1)] less.IH [OF l(4) _ b(6) a(2) l(2)]
    consider (char) "c \<noteq> 37" | (plain) "c = 37" "d \<notin> {99, 100, 115, 117, 120}" | (arg) "c = 37" "d \<in> {99, 100, 115, 117, 120}" by blast
    then show ?thesis
    proof cases
      case char
      then obtain r' where r': "render sx str (d # g) args = Some r'" "r = c # r'" using prems(1) Pair by auto
      show ?thesis unfolding n r'(2)
        by (rule character [OF _ _ b(1,2) char IH(1) [OF r'(1) prems(5,6)]]) (use a(3) prems(7) r'(2) in simp_all)
    next
      case plain
      then obtain r' where r': "render sx str g args = Some r'" "r = (if d = 37 then [37] else []) @ r'"
        using prems(1) Pair by (auto split: if_splits)
      show ?thesis unfolding n r'(2)
        by (rule no_argument [OF _ a(3) b(1) [unfolded plain(1)] b(3,4) plain(2) IH(2) [OF r'(1) prems(5,6)]]) (use prems(7) r'(2) in simp)
    next
      case arg
      then obtain v as where v: "args = v # as" using prems(1) Pair by (auto split: list.splits)
      have at: "area ap 4 \<subseteq> K" "load32 m ap = v" "args_at K m (ap + 4) as" using prems(5) by (simp_all add: v args_at_Cons)
      obtain y r' where y: "arg_text sx str d v = Some y" "render sx str g as = Some r'" "r = y @ r'"
        using prems(1) Pair arg v by (auto split: option.splits)
      show ?thesis unfolding n y(3)
        by (rule argument [OF _ a(3) b(1) [unfolded arg(1)] b(3) arg(2) at(1) _ prems(6) IH(2) [OF y(2) at(3) prems(6)]])
          (use prems(7) y at(2) in simp_all)
    qed
  qed
qed

end

section \<open>What vsprintf writes\<close>

lemma convert_text:
  assumes "agree K m t" "area ap 4 \<subseteq> K" "strings_at K m str" "d \<in> {99, 100, 115, 117, 120}"
    and "arg_text True str d (load32 m ap) = Some y" "area dest (length y) \<inter> K = {}"
  shows "convert d dest ap t = Done (dest + of_nat (length y), ap + 4) (store_bytes y dest t)"
proof -
  let ?a = "load32 m ap"
  have n: "sprintnum dest ?a 10 sign t = Done (of_nat (length (show_num 10 (sint ?a)))) (store_bytes (show_num 10 (sint ?a)) dest t)"
    "sprintnum dest ?a 16 sign t = Done (of_nat (length (show_num 16 (sint ?a)))) (store_bytes (show_num 16 (sint ?a)) dest t)"
    if "if sign then ?a \<noteq> 0x80000000 else 0 \<le> sint ?a" for sign
    using sprintnum_shows [of 10 sign ?a dest t] sprintnum_shows [of 16 sign ?a dest t] that by simp_all
  have s: "put_string string_room ?a dest t = Done (dest + of_nat (length y)) (store_bytes y dest t)" if "str ?a = Some y"
  proof -
    have "cstring m ?a y \<and> length y < string_room \<and> area ?a (Suc (length y)) \<subseteq> K" using assms(3) that by (simp add: strings_at_def)
    then show ?thesis using put_string_stores [of m ?a y K t dest string_room] assms(1,6) by blast
  qed
  show ?thesis using assms(4,5) agree_load32 [OF assms(1,2)] n [of True] n [of False] s load32_byte [of m ap]
    by (auto simp: convert_def arg_text_def split: if_splits)
qed

text \<open>The loop of \<open>vsprintf\<close> as a printer: its state is the destination and the memory.\<close>

definition memory_ready :: "u32 set \<Rightarrow> mem \<Rightarrow> u8 list \<Rightarrow> u32 \<times> mem \<Rightarrow> bool" where
  "memory_ready K m xs x \<longleftrightarrow> agree K m (snd x) \<and> area (fst x) (length xs) \<inter> K = {}"

definition memory_prints :: "u8 list \<Rightarrow> u32 \<times> mem \<Rightarrow> (mem, u32) outcome \<Rightarrow> bool" where
  "memory_prints xs x r \<longleftrightarrow> (\<exists>d. r = Done d (store_bytes xs (fst x) (snd x)))"

definition memory_loop :: "nat \<Rightarrow> u32 \<Rightarrow> u32 \<Rightarrow> u32 \<times> mem \<Rightarrow> (mem, u32) outcome" where
  "memory_loop n fmt ap x = vsprintf_loop n (fst x) fmt ap (snd x)"

lemma memory_ready_append:
  "memory_ready K m (xs @ ys) x \<Longrightarrow> memory_ready K m ys (fst x + of_nat (length xs), store_bytes xs (fst x) (snd x))"
  "memory_ready K m xs x \<Longrightarrow> area (fst x) (length xs) \<inter> K = {}" "memory_ready K m xs x \<Longrightarrow> a \<in> K \<Longrightarrow> snd x a = m a"
proof -
  assume r: "memory_ready K m (xs @ ys) x"
  then have "agree K m (snd x)" "area (fst x) (length xs) \<inter> K = {}" "area (fst x + of_nat (length xs)) (length ys) \<inter> K = {}"
    by (auto simp: memory_ready_def area_append)
  then show "memory_ready K m ys (fst x + of_nat (length xs), store_bytes xs (fst x) (snd x))"
    by (simp add: memory_ready_def agree_store)
qed (auto simp: memory_ready_def agree_def)

lemma memory_prints_append:
  "memory_prints ys (fst x + of_nat (length xs), store_bytes xs (fst x) (snd x)) r \<Longrightarrow> memory_prints (xs @ ys) x r"
  by (simp add: memory_prints_def store_bytes_append)

interpretation to_memory: printer K m True str memory_loop "memory_ready K m" memory_prints for K m str
proof
  fix x :: "u32 \<times> mem" and fmt ap :: u32 and n :: nat and r y :: "u8 list" and c d :: u8
  note defs = memory_loop_def memory_prints_def
  show "memory_prints [] x (memory_loop (Suc n) fmt ap x)" if "memory_ready K m [] x" "fmt \<in> K" "m fmt = 0"
    using that memory_ready_append(3) [OF that(1,2)] by (simp add: defs)
  show "memory_prints [] x (memory_loop (Suc n) fmt ap x)"
    if "memory_ready K m [] x" "{fmt, fmt + 1} \<subseteq> K" "m fmt = 37" "m (fmt + 1) = 0"
    using that memory_ready_append(3) [OF that(1)] by (simp add: defs)
  show "memory_prints (c # r) x (memory_loop (Suc n) fmt ap x)"
    if "memory_ready K m (c # r) x" "fmt \<in> K" "m fmt = c" "c \<noteq> 0" "c \<noteq> 37"
      "\<And>x. memory_ready K m r x \<Longrightarrow> memory_prints r x (memory_loop n (fmt + 1) ap x)"
    using that(2-5) memory_prints_append [OF that(6) [OF memory_ready_append(1) [of K m "[c]" r x]]] that(1) memory_ready_append(3) [OF that(1,2)]
    by (simp add: memory_loop_def)
  let ?p = "if d = 37 then [37] else []"
  show "memory_prints (?p @ r) x (memory_loop (Suc n) fmt ap x)"
    if "memory_ready K m (?p @ r) x" "{fmt, fmt + 1} \<subseteq> K" "m fmt = 37" "m (fmt + 1) = d" "d \<noteq> 0" "d \<notin> {99, 100, 115, 117, 120}"
      "\<And>x. memory_ready K m r x \<Longrightarrow> memory_prints r x (memory_loop n (fmt + 2) ap x)"
    using that(2-6) memory_prints_append [OF that(7) [OF memory_ready_append(1) [OF that(1)]]] memory_ready_append(3) [OF that(1)]
    by (cases "d = 37") (simp_all add: memory_loop_def convert_def)
  show "memory_prints (y @ r) x (memory_loop (Suc n) fmt ap x)"
    if "memory_ready K m (y @ r) x" "{fmt, fmt + 1} \<subseteq> K" "m fmt = 37" "m (fmt + 1) = d" "d \<in> {99, 100, 115, 117, 120}"
      "area ap 4 \<subseteq> K" "arg_text True str d (load32 m ap) = Some y" "strings_at K m str"
      "\<And>x. memory_ready K m r x \<Longrightarrow> memory_prints r x (memory_loop n (fmt + 2) (ap + 4) x)"
  proof -
    have "agree K m (snd x)" "area (fst x) (length y) \<inter> K = {}" using that(1) by (auto simp: memory_ready_def area_append)
    note run = convert_text [OF this(1) that(6,8,5,7) this(2)]
    show ?thesis
      using that(2-5) run memory_prints_append [OF that(9) [OF memory_ready_append(1) [OF that(1)]]] memory_ready_append(3) [OF that(1)]
      by (auto simp: memory_loop_def)
  qed
qed

section \<open>Properties\<close>

lemma length_digits_of: "n < base ^ k \<Longrightarrow> length (digits_of base n) \<le> k"
proof (induction k arbitrary: n)
  case 0
  then show ?case by (simp add: digits_of.simps)
next
  case (Suc k)
  show ?case
  proof (cases "n = 0 \<or> base < 2")
    case False
    then have "n div base < base ^ k" using Suc.prems by (intro less_mult_imp_div_less) (simp add: mult.commute)
    then show ?thesis using Suc.IH False by (subst digits_of.simps) simp
  qed (simp add: digits_of.simps)
qed

lemma length_show_num: "\<bar>n\<bar> \<le> 2 ^ 31 \<Longrightarrow> 10 \<le> base \<Longrightarrow> 0 < length (show_num base n) \<and> length (show_num base n) \<le> 11"
proof -
  assume n: "\<bar>n\<bar> \<le> 2 ^ 31" and b: "10 \<le> base"
  have "nat \<bar>n\<bar> < 10 ^ 10" using n by simp
  also have "\<dots> \<le> base ^ 10" using b by (rule power_mono) simp
  finally have "length (digits_of base (nat \<bar>n\<bar>)) \<le> 10" by (rule length_digits_of)
  moreover have "n \<noteq> 0 \<Longrightarrow> digits_of base (nat \<bar>n\<bar>) \<noteq> []" using b by (subst digits_of.simps) simp
  ultimately show ?thesis by (cases "n < 0") (auto simp: show_num_def)
qed

lemma stored_area: "length xs \<le> 2 ^ 32 \<Longrightarrow> map (\<lambda>i. store_bytes xs dest m (dest + of_nat i)) [0..<length xs] = xs"
  by (rule nth_equalityI) (simp_all add: store_bytes_at)

lemma stored_elsewhere: "a \<notin> area dest (length xs) \<Longrightarrow> store_bytes xs dest m a = m a"
  by (rule store_bytes_other) (auto simp: area_def)

text \<open>C20: what _sprintnum writes in base 10 or 16 reads back as the number: it stores between one and eleven
  characters, returns how many, and touches no other byte. It leaves the array of digits, and so has no
  defined result, exactly for a number that is still negative after the sign was taken off: the least
  number, and with %u every number from 2 ^ 31 on.\<close>

theorem printed_number_reads_back:
  assumes "base = 10 \<or> base = 16"
  shows "if (if sign then num \<noteq> 0x80000000 else 0 \<le> sint num)
    then \<exists>n t. sprintnum dest num (int base) sign m = Done (of_nat n) t \<and> 0 < n \<and> n \<le> 11 \<and>
      read_num base (map (\<lambda>i. t (dest + of_nat i)) [0..<n]) = sint num \<and> (\<forall>a. a \<notin> area dest n \<longrightarrow> t a = m a)
    else \<exists>t. sprintnum dest num (int base) sign m = Halted (Undef ''digits[num % base]'') t"
proof (cases "if sign then num \<noteq> 0x80000000 else 0 \<le> sint num")
  case True
  have b: "2 \<le> base" "base \<le> 16" "10 \<le> base" using assms by auto
  have "\<bar>sint num\<bar> \<le> 2 ^ 31" using sint_range [of num] by simp
  note l = length_show_num [OF this b(3)]
  then have "length (show_num base (sint num)) \<le> 2 ^ 32" by simp
  from stored_area [OF this, of dest m] show ?thesis unfolding if_P [OF True]
    using l stored_elsewhere [of _ dest "show_num base (sint num)" m]
    by (intro exI [of _ "length (show_num base (sint num))"] exI [of _ "store_bytes (show_num base (sint num)) dest m"])
      (simp_all add: sprintnum_shows [OF b(1,2) True] read_show_num [OF b(1,2)])
next
  case False
  have "sint (0x80000000 :: u32) < 0" by simp
  then have "sint num < 0" using False by (auto split: if_splits)
  moreover have "num \<noteq> 0" using calculation by auto
  moreover have "digit_loop (int base) (sint num) [] = None" using assms calculation(1) by (intro digit_loop_negative) auto
  ultimately show ?thesis using False by (auto simp: sprintnum_def split: if_splits)
qed

theorem printed_number_reads_back_witness:
  "(\<exists>n t. sprintnum 100 (- 123) 10 True (\<lambda>_. 0) = Done (of_nat n) t \<and> read_num 10 (map (\<lambda>i. t (100 + of_nat i)) [0..<n]) = - 123) \<and>
   (\<exists>t. sprintnum 100 (- 1) 16 False (\<lambda>_. 0) = Halted (Undef ''digits[num % base]'') t)"
  using printed_number_reads_back [of 10 True "- 123" 100 "\<lambda>_. 0"] printed_number_reads_back [of 16 False "- 1" 100 "\<lambda>_. 0"]
  by auto

text \<open>C14: vsprintf writes the text of its format: for a format, arguments and strings that lie in an area
  the destination does not meet, and that have a text (no argument is missing and no number is out of
  reach), it returns with exactly this text at the destination; no other byte changes, so no
  terminator is written.\<close>

theorem vsprintf_renders:
  assumes "cstring m fmt f" "length f < string_room" "area fmt (Suc (length f)) \<subseteq> K"
    and "args_at K m ap args" "strings_at K m str" "render True str f args = Some r"
    and "area dest (length r) \<inter> K = {}" "length r \<le> 2 ^ 32"
  shows "\<exists>t. vsprintf dest fmt ap m = Done () t \<and> map (\<lambda>i. t (dest + of_nat i)) [0..<length r] = r \<and>
    (\<forall>a. a \<notin> area dest (length r) \<longrightarrow> t a = m a)"
proof -
  have "agree K m m" by (simp add: agree_def)
  then have "memory_ready K m r (dest, m)" using assms(7) by (simp add: memory_ready_def)
  from to_memory.prints_text [OF assms(6,1,3,2,4,5) this]
  obtain d where "vsprintf_loop string_room dest fmt ap m = Done d (store_bytes r dest m)"
    by (auto simp: memory_loop_def memory_prints_def)
  then show ?thesis using stored_area [OF assms(8)] stored_elsewhere by (auto simp: vsprintf_def)
qed

theorem vsprintf_renders_witness:
  "\<exists>t. vsprintf 0x300 0x100 0x200 ((\<lambda>_. 0)(0x100 := 37, 0x101 := 100, 0x102 := 37, 0x103 := 37, 0x200 := 7)) = Done () t \<and>
     t 0x300 = 55 \<and> t 0x301 = 37"
proof -
  let ?m = "(\<lambda>_. 0)(0x100 := 37, 0x101 := 100, 0x102 := 37, 0x103 := 37, 0x200 := 7) :: mem" and ?K = "{0x100, 0x101, 0x102, 0x103, 0x104, 0x200, 0x201, 0x202, 0x203}"
  have a: "area 0x100 5 = {0x100, 0x101, 0x102, 0x103, 0x104}" "area 0x200 4 = {0x200, 0x201, 0x202, 0x203}" "area 0x300 2 = {0x300, 0x301}"
    by (auto simp: area_def numeral_eq_Suc lessThan_Suc)
  have r: "render True (\<lambda>_. None) [37, 100, 37, 37] [7] = Some [55, 37]"
    by (simp add: arg_text_def show_num_def digits_of.simps digit_chars_def)
  have args: "args_at ?K ?m 0x200 [7]" using a(2) by (simp add: args_at_def load32_def load16_def)
  have "\<exists>t. vsprintf 0x300 0x100 0x200 ?m = Done () t \<and> map (\<lambda>i. t (0x300 + of_nat i)) [0..<length [55, 37 :: u8]] = [55, 37] \<and>
    (\<forall>a. a \<notin> area 0x300 (length [55, 37 :: u8]) \<longrightarrow> t a = ?m a)"
    by (rule vsprintf_renders [OF _ _ _ args _ r]) (use a in \<open>simp_all add: string_room_def strings_at_def area_Suc\<close>)
  then show ?thesis by (auto simp: upt_rec)
qed

end
