(* ===== verification/Printk.thy ===== *)
theory Printk
  imports Tty Format
begin

text \<open>
  The two printing routines of the kernel: \<open>printk\<close> of \<^verbatim>\<open>kernel/printk.c\<close> formats into a
  buffer and writes it to the console, \<open>s_printk\<close> of \<^verbatim>\<open>kernel/serial_debug.c\<close> sends its text
  to the serial port. The memory \<open>m\<close> holds the formats, the arguments and the buffer on the kernel stack.
  Elsewhere in the model a call of \<open>printk\<close> is an entry of a log and a call of \<open>s_printk\<close> is left
  out, as neither is read back.
\<close>

section \<open>printk\<close>

text \<open>\<open>while ( *ptr) { PUTCH( *ptr, tty_table[0].write_q); ptr++; }\<close>\<close>

primrec put_chars :: "nat \<Rightarrow> u32 \<Rightarrow> mem \<Rightarrow> 'a tty_state_scheme \<Rightarrow> ('a tty_state_scheme, unit) outcome" where
  "put_chars 0 p m s = Blocked s"
| "put_chars (Suc n) p m s =
     (if m p = 0 then Done () s
      else put_chars n (p + 1) m (ttyupd 0 (\<lambda>t. t\<lparr>tt_write_q := PUTCH (m p) (tt_write_q t)\<rparr>) s))"

definition console_printk :: "u32 \<Rightarrow> u32 \<Rightarrow> u32 \<Rightarrow> mem \<Rightarrow> 'a tty_state_scheme \<Rightarrow> ('a tty_state_scheme, mem) outcome" where
  "console_printk buf fmt ap m s =
     (case vsprintf buf fmt ap (store_bytes (replicate TTY_BUF_SIZE 0) buf m) of
        Halted h m \<Rightarrow> Halted h s
      | Blocked m \<Rightarrow> Blocked s
      | Done _ m \<Rightarrow> kbind (put_chars string_room buf m s) (\<lambda>_ s. kbind (tty_write 0 s) (\<lambda>_ s. Done m s)))"

section \<open>The serial port\<close>

abbreviation (input) PORT :: u32 where "PORT \<equiv> 0x3f8"

definition is_transmit_empty :: "'a blk_state_scheme \<Rightarrow> u32 \<times> 'a blk_state_scheme" where
  "is_transmit_empty s = (case inb (PORT + 5) s of (v, s) \<Rightarrow> (ucast v AND 0x20, s))"

primrec transmit_loop :: "nat \<Rightarrow> 'a blk_state_scheme \<Rightarrow> ('a blk_state_scheme, unit) outcome" where
  "transmit_loop 0 s = Blocked s"
| "transmit_loop (Suc n) s = (case is_transmit_empty s of (v, s) \<Rightarrow> if v = 0 then transmit_loop n s else Done () s)"

definition s_putchar :: "u8 \<Rightarrow> 'a fs_state_scheme \<Rightarrow> ('a fs_state_scheme, unit) outcome" where
  "s_putchar a s = kbind (transmit_loop (Suc (patience s)) s) (\<lambda>_ s. Done () (outb (ucast a) PORT s))"

primrec s_put_all :: "u8 list \<Rightarrow> 'a fs_state_scheme \<Rightarrow> ('a fs_state_scheme, unit) outcome" where
  "s_put_all [] s = Done () s"
| "s_put_all (c # cs) s = kbind (s_putchar c s) (\<lambda>_ s. s_put_all cs s)"

primrec s_puts_loop :: "nat \<Rightarrow> u32 \<Rightarrow> mem \<Rightarrow> 'a fs_state_scheme \<Rightarrow> ('a fs_state_scheme, unit) outcome" where
  "s_puts_loop 0 p m s = Blocked s"
| "s_puts_loop (Suc n) p m s = (if m p = 0 then Done () s else kbind (s_putchar (m p) s) (\<lambda>_ s. s_puts_loop n (p + 1) m s))"

definition s_puts :: "u32 \<Rightarrow> mem \<Rightarrow> 'a fs_state_scheme \<Rightarrow> ('a fs_state_scheme, unit) outcome" where
  "s_puts a m s = s_puts_loop string_room a m s"

definition serial_debugstr :: "u32 \<Rightarrow> mem \<Rightarrow> 'a fs_state_scheme \<Rightarrow> ('a fs_state_scheme, u32) outcome" where
  "serial_debugstr str m s = kbind (s_puts str m s) (\<lambda>_ s. Done 0 s)"

definition s_printnum :: "u32 \<Rightarrow> int \<Rightarrow> bool \<Rightarrow> 'a fs_state_scheme \<Rightarrow> ('a fs_state_scheme, unit) outcome" where
  "s_printnum num base sign s =
     kbind (if sign \<and> sint num < 0 then s_putchar 45 s else Done () s) (\<lambda>_ s.
       let num = (if sign \<and> sint num < 0 then - num else num)
       in if num = 0 then s_putchar 48 s
          else case digit_loop base (sint num) [] of
              None \<Rightarrow> Halted (Undef ''digits[num % base]'') s
            | Some buf \<Rightarrow> s_put_all (rev buf) s)"

text \<open>The \<open>switch\<close> of \<open>s_printk\<close>, with the \<open>ap\<close> after it.\<close>

definition s_convert :: "u8 \<Rightarrow> u32 \<Rightarrow> mem \<Rightarrow> 'a fs_state_scheme \<Rightarrow> ('a fs_state_scheme, u32) outcome" where
  "s_convert c ap m s =
     (if c = 100 then kbind (s_printnum (load32 m ap) 10 True s) (\<lambda>_ s. Done (ap + 4) s)
      else if c = 117 then kbind (s_printnum (load32 m ap) 10 False s) (\<lambda>_ s. Done (ap + 4) s)
      else if c = 120 then kbind (s_printnum (load32 m ap) 16 False s) (\<lambda>_ s. Done (ap + 4) s)
      else if c = 115 then kbind (s_puts_loop string_room (load32 m ap) m s) (\<lambda>_ s. Done (ap + 4) s)
      else if c = 99 then kbind (s_putchar (m ap) s) (\<lambda>_ s. Done (ap + 4) s)
      else if c = 37 then kbind (s_putchar 37 s) (\<lambda>_ s. Done ap s)
      else Done ap s)"

primrec s_printk_loop :: "nat \<Rightarrow> u32 \<Rightarrow> u32 \<Rightarrow> mem \<Rightarrow> 'a fs_state_scheme \<Rightarrow> ('a fs_state_scheme, unit) outcome" where
  "s_printk_loop 0 fmt ap m s = Blocked s"
| "s_printk_loop (Suc n) fmt ap m s =
     (if m fmt = 0 then Done () s
      else if m fmt \<noteq> 37 then kbind (s_putchar (m fmt) s) (\<lambda>_ s. s_printk_loop n (fmt + 1) ap m s)
      else if m (fmt + 1) = 0 then Done () s
      else kbind (s_convert (m (fmt + 1)) ap m s) (\<lambda>ap s. s_printk_loop n (fmt + 2) ap m s))"

definition s_printk :: "u32 \<Rightarrow> u32 \<Rightarrow> mem \<Rightarrow> 'a fs_state_scheme \<Rightarrow> ('a fs_state_scheme, unit) outcome" where
  "s_printk fmt ap m s = s_printk_loop string_room fmt ap m s"

section \<open>The console shows what is printed\<close>

lemma put_chars_puts:
  "cstring m p xs \<Longrightarrow> length xs < n \<Longrightarrow>
     put_chars n p m s = Done () (ttyupd 0 (\<lambda>t. t\<lparr>tt_write_q := fold PUTCH xs (tt_write_q t)\<rparr>) s)"
proof (induction xs arbitrary: n p s)
  case Nil
  then show ?case by (cases n) (simp_all add: ttyupd_def)
next
  case (Cons x xs)
  then show ?case by (cases n) (simp_all add: ttyupd_ttyupd)
qed

lemma cstring_nth:
  "0 \<notin> set xs \<Longrightarrow> (\<And>i. i < length xs \<Longrightarrow> m (p + of_nat i) = xs ! i) \<Longrightarrow> m (p + of_nat (length xs)) = 0 \<Longrightarrow> cstring m p xs"
proof (induction xs arbitrary: p)
  case (Cons x xs)
  have "m (p + 1 + of_nat i) = xs ! i" if "i < length xs" for i
    using Cons.prems(2) [of "Suc i"] that by (simp add: ac_simps)
  then show ?case using Cons.IH [of "p + 1"] Cons.prems(1,3) Cons.prems(2) [of 0] by (auto simp: ac_simps)
qed simp

text \<open>C15: printk shows its text: when the write queue of the console is empty, the format, the arguments and the strings
  lie clear of the buffer of 1024 bytes, the arguments have a text (no number the conversion reads out of its digits
  for) and this has fewer than 1024 characters and no zero byte among them, printk returns and the screen and the
  cursor change as printing the text on the terminal changes them.\<close>

theorem printk_shows:
  assumes "on_screen s" "tty_table s = tt # tts" "tt_write tt = Some Con_write" "ring_wf (tt_write_q tt)" "EMPTY (tt_write_q tt)"
    and "cstring m fmt f" "length f < string_room" "area fmt (Suc (length f)) \<subseteq> K"
    and "args_at K m ap args" "strings_at K m str" "render True str f args = Some r"
    and "area buf 1024 \<inter> K = {}" "length r < 1024" "0 \<notin> set r"
  shows "\<exists>m' t. console_printk buf fmt ap m s = Done m' t \<and> shown t = fold char_on r (shown s) \<and> on_screen t"
proof -
  let ?z = "store_bytes (replicate 1024 0) buf m"
  have sub: "area buf (length r) \<subseteq> area buf 1024" using assms(13) by (auto simp: area_def)
  have ag: "agree K m ?z" by (rule agree_store) (use assms(12) in \<open>simp_all add: agree_def\<close>)
  have "area buf (length r) \<inter> K = {}" using sub assms(12) by blast
  then have "memory_ready K m r (buf, ?z)" using ag by (simp add: memory_ready_def)
  from to_memory.prints_text [OF assms(11,6,8,7,9,10) this]
  have v: "vsprintf buf fmt ap ?z = Done () (store_bytes r buf ?z)" by (auto simp: vsprintf_def memory_prints_def memory_loop_def)
  let ?m = "store_bytes r buf ?z"
  have l: "length r \<le> 2 ^ 32" using assms(13) by simp
  have "buf + of_nat (length r) \<noteq> buf + of_nat i" if "i < length r" for i
  proof
    assume "buf + of_nat (length r) = buf + of_nat i"
    then have "unat (of_nat (length r) :: u32) = unat (of_nat i :: u32)" by simp
    moreover have "unat (of_nat (length r) :: u32) = length r" "unat (of_nat i :: u32) = i"
      using assms(13) that by (auto intro!: unat_of_nat_u32)
    ultimately show False using that by simp
  qed
  then have "?m (buf + of_nat (length r)) = ?z (buf + of_nat (length r))" by (intro store_bytes_other) auto
  also have "\<dots> = 0" using store_bytes_at [of "replicate 1024 0" "length r" buf m] assms(13) by simp
  finally have "cstring ?m buf r" using store_bytes_at [OF l] by (intro cstring_nth [OF assms(14)]) auto
  then have p: "put_chars string_room buf ?m s = Done () (ttyupd 0 (\<lambda>t. t\<lparr>tt_write_q := fold PUTCH r (tt_write_q t)\<rparr>) s)"
    by (rule put_chars_puts) (use assms(13) in \<open>simp add: string_room_def\<close>)
  let ?q = "fold PUTCH r (tt_write_q tt)" and ?s = "ttyupd 0 (\<lambda>t. t\<lparr>tt_write_q := fold PUTCH r (tt_write_q t)\<rparr>) s"
  have tab: "tty_table ?s ! 0 = tt\<lparr>tt_write_q := ?q\<rparr>" using assms(2) by simp
  have c: "ring_contents ?q = r" using contents_overrun [OF assms(4,5), of r] assms(13) by simp
  have wf: "ring_wf (tt_write_q (tty_table ?s ! 0))" unfolding tab using macro.wf_put_all [OF assms(4)] by simp
  obtain t where t: "con_write 0 ?s = Done () t" "shown t = fold char_on (ring_contents ?q) (shown s)" "on_screen t"
    using con_write_prints [OF _ _ wf] assms(1,2) unfolding tab by auto
  have "tty_write 0 ?s = Done () t" unfolding tty_write_def tab using assms(3) t(1) by simp
  then show ?thesis using v p t(2,3) c by (auto simp: console_printk_def)
qed

theorem printk_shows_witness:
  "\<exists>m' t. console_printk 0x1000 0x100 0x200 ((\<lambda>_. 0)(0x100 := 37, 0x101 := 100, 0x102 := 10, 0x200 := 7)) tty_boot = Done m' t \<and>
     snd (shown t) = (0, 1)"
proof -
  let ?m = "(\<lambda>_. 0)(0x100 := 37, 0x101 := 100, 0x102 := 10, 0x200 := 7) :: mem" and ?K = "area 0x100 4 \<union> area 0x200 4"
  have r: "render True (\<lambda>_. None) [37, 100, 10] [7] = Some [55, 10]"
    by (simp add: arg_text_def show_num_def digits_of.simps digit_chars_def)
  have four: "area a 4 = {a, a + 1, a + 2, a + 3}" for a by (auto simp: area_def image_iff numeral_eq_Suc lessThan_Suc)
  have args: "args_at ?K ?m 0x200 [7]" by (simp add: args_at_def load32_def load16_def four)
  have "0x1000 + of_nat i \<noteq> (x :: u32)" if "i < 1024" "x < 0x1000" for i x
  proof
    assume e: "0x1000 + of_nat i = x"
    have "unat (of_nat i :: u32) = i" using that(1) by (intro unat_of_nat_u32) simp
    then have "unat ((0x1000 :: u32) + of_nat i) = 0x1000 + i" using that(1) by (subst unat_add_lem [THEN iffD1]) simp_all
    with e that(2) show False by (simp add: word_less_nat_alt)
  qed
  then have dis: "area 0x1000 1024 \<inter> ?K = {}" unfolding four by (auto simp: area_def)
  have "\<exists>m' t. console_printk 0x1000 0x100 0x200 ?m tty_boot = Done m' t \<and> shown t = fold char_on [55, 10] (shown tty_boot) \<and> on_screen t"
    by (rule printk_shows [OF _ tty_boot_simps(1) _ _ _ _ _ _ args _ r dis])
      (simp_all add: empty_queue_wf string_room_def strings_at_def area_Suc four)
  then show ?thesis by (auto simp: shown_def char_on_def glyph_on_def)
qed

section \<open>The serial port carries what is printed\<close>

definition port_ready :: "'a blk_state_scheme \<Rightarrow> bool" where
  "port_ready s \<longleftrightarrow> (\<forall>n. (ucast (ucast (in_val s n (PORT + 5)) :: u8) :: u32) AND 0x20 \<noteq> 0)"

definition sent :: "u8 list \<Rightarrow> 'a blk_state_scheme \<Rightarrow> 'a blk_state_scheme \<Rightarrow> bool" where
  "sent cs s t \<longleftrightarrow> (\<exists>n. t = s\<lparr>in_time := n, outs := outs s @ map (\<lambda>c. (PORT, c)) cs\<rparr>)"

lemma sent_nil: "sent [] s s"
  unfolding sent_def by (intro exI [of _ "in_time s"]) simp

lemma sent_append: "sent xs s t \<Longrightarrow> sent ys t u \<Longrightarrow> sent (xs @ ys) s u"
  by (auto simp: sent_def)

lemma sent_ready: "sent xs s t \<Longrightarrow> port_ready s \<Longrightarrow> port_ready t"
  by (auto simp: sent_def port_ready_def)

text \<open>A printing routine that sends \<open>cs\<close> and returns \<open>v\<close>, on a port that is always ready.\<close>

definition sends :: "'b \<Rightarrow> u8 list \<Rightarrow> 'a fs_state_scheme \<Rightarrow> ('a fs_state_scheme, 'b) outcome \<Rightarrow> bool" where
  "sends v cs s r \<longleftrightarrow> (\<exists>t. r = Done v t \<and> sent cs s t \<and> port_ready t)"

lemma sends_done: "port_ready s \<Longrightarrow> sends v [] s (Done v s)"
  using sent_nil by (auto simp: sends_def)

lemma sends_bind:
  "sends v xs s m \<Longrightarrow> (\<And>t. port_ready t \<Longrightarrow> sends w ys t (g v t)) \<Longrightarrow> sends w (xs @ ys) s (kbind m g)"
  unfolding sends_def by (metis kbind.simps(1) sent_append)

lemma byte_wide: "(ucast (ucast (c :: u8) :: u32) :: u8) = c"
  by (rule bit_word_eqI) (simp add: bit_simps)

lemma sends_then: "sends v xs s m \<Longrightarrow> sends w xs s (kbind m (\<lambda>_ s. Done w s))"
  using sends_bind [of v xs s m w "[]" "\<lambda>_ s. Done w s"] sends_done by fastforce

lemma s_putchar_sends: "port_ready s \<Longrightarrow> sends () [c] s (s_putchar c s)"
proof -
  assume r: "port_ready s"
  let ?t = "s\<lparr>in_time := Suc (in_time s), outs := outs s @ [(PORT, c)]\<rparr>"
  have "s_putchar c s = Done () ?t"
    using r by (simp add: s_putchar_def is_transmit_empty_def inb_def outb_def port_ready_def byte_wide)
  moreover have "sent [c] s ?t" unfolding sent_def by (intro exI [of _ "Suc (in_time s)"]) simp
  ultimately show ?thesis using sent_ready r by (auto simp: sends_def)
qed

lemma s_put_all_sends: "port_ready s \<Longrightarrow> sends () cs s (s_put_all cs s)"
proof (induction cs arbitrary: s)
  case Nil
  then show ?case by (simp add: sends_done)
next
  case (Cons c cs)
  then show ?case using sends_bind [OF s_putchar_sends [of s c], of "()" cs "\<lambda>_. s_put_all cs"] by simp
qed

lemma s_puts_sends: "cstring m p xs \<Longrightarrow> length xs < n \<Longrightarrow> port_ready s \<Longrightarrow> sends () xs s (s_puts_loop n p m s)"
proof (induction xs arbitrary: n p s)
  case Nil
  then show ?case by (cases n) (simp_all add: sends_done)
next
  case (Cons x xs)
  then obtain k where n: "n = Suc k" by (cases n) auto
  have "sends () ([x] @ xs) s (kbind (s_putchar x s) (\<lambda>_ s. s_puts_loop k (p + 1) m s))"
    by (rule sends_bind [OF s_putchar_sends]) (use Cons n in simp_all)
  then show ?case using Cons.prems(1) by (simp add: n)
qed

lemma s_printnum_sends:
  assumes "base = 10 \<or> base = 16" "if sign then num \<noteq> 0x80000000 else 0 \<le> sint num" "port_ready s"
  shows "sends () (show_num base (sint num)) s (s_printnum num (int base) sign s)"
proof -
  let ?neg = "sign \<and> sint num < 0" and ?num = "if sign \<and> sint num < 0 then - num else num"
  have b: "2 \<le> base" "base \<le> 16" using assms(1) by auto
  have a: "sint ?num = \<bar>sint num\<bar>" "?neg \<longleftrightarrow> sint num < 0"
    using sint_negated [of num] assms(2) by (auto split: if_splits)
  then have z: "?num = 0 \<longleftrightarrow> sint num = 0" using sint_inj [of ?num 0] by simp
  have "nat (sint ?num) < 2 ^ 32" using sint_range [of ?num] by simp
  from digit_loop_digits [OF b this, of "[]"] have d: "digit_loop (int base) (sint ?num) [] = Some (rev (digits_of base (nat \<bar>sint num\<bar>)))"
    using a(1) by simp
  show ?thesis unfolding s_printnum_def show_num_def
  proof (rule sends_bind)
    show "sends () (if sint num < 0 then [45] else []) s (if ?neg then s_putchar 45 s else Done () s)"
      using s_putchar_sends [OF assms(3)] sends_done [OF assms(3), of "()"] a(2) by auto
  next
    fix t assume "port_ready (t :: 'a fs_state_scheme)"
    then show "sends () (if sint num = 0 then [48] else digits_of base (nat \<bar>sint num\<bar>)) t
      (let num = ?num in if num = 0 then s_putchar 48 t
        else case digit_loop (int base) (sint num) [] of None \<Rightarrow> Halted (Undef ''digits[num % base]'') t
          | Some buf \<Rightarrow> s_put_all (rev buf) t)"
      unfolding Let_def d z using s_putchar_sends [of t 48] s_put_all_sends by auto
  qed
qed

text \<open>The loop of \<open>s_printk\<close> as a printer: its state is the machine.\<close>

definition port_loop :: "mem \<Rightarrow> nat \<Rightarrow> u32 \<Rightarrow> u32 \<Rightarrow> 'a fs_state_scheme \<Rightarrow> ('a fs_state_scheme, unit) outcome" where
  "port_loop m n fmt ap s = s_printk_loop n fmt ap m s"

lemma s_convert_sends:
  assumes "port_ready s" "d \<in> {99, 100, 115, 117, 120}" "arg_text False str d (load32 m ap) = Some x" "strings_at K m str"
  shows "sends (ap + 4) x s (s_convert d ap m s)"
proof -
  let ?a = "load32 m ap"
  have num: "sends (ap + 4) (show_num base (sint ?a)) s (kbind (s_printnum ?a (int base) sign s) (\<lambda>_ s. Done (ap + 4) s))"
    if "base = 10 \<or> base = 16" "if sign then ?a \<noteq> 0x80000000 else 0 \<le> sint ?a" for base sign
    by (rule sends_then [OF s_printnum_sends [OF that assms(1)]])
  have put: "sends (ap + 4) [c] s (kbind (s_putchar c s) (\<lambda>_ s. Done (ap + 4) s))" for c
    by (rule sends_then [OF s_putchar_sends [OF assms(1)]])
  have str: "sends (ap + 4) x s (kbind (s_puts_loop string_room ?a m s) (\<lambda>_ s. Done (ap + 4) s))" if "str ?a = Some x"
  proof -
    have "cstring m ?a x" "length x < string_room" using assms(4) that by (auto simp: strings_at_def)
    then show ?thesis by (rule sends_then [OF s_puts_sends [OF _ _ assms(1)]])
  qed
  show ?thesis
    using assms(2,3) num [of 10 True] num [of 10 False] num [of 16 False] put [of "m ap"] str load32_byte [of m ap]
    by (auto simp: s_convert_def arg_text_def split: if_splits)
qed

interpretation to_port: printer UNIV m False str "port_loop m" "\<lambda>_. port_ready" "sends ()" for m str
proof
  fix x :: "'a fs_state_scheme" and fmt ap :: u32 and n :: nat and r y :: "u8 list" and c d :: u8
  assume x: "port_ready x"
  show "sends () [] x (port_loop m (Suc n) fmt ap x)" if "m fmt = 0"
    using that sends_done [OF x] by (simp add: port_loop_def)
  show "sends () [] x (port_loop m (Suc n) fmt ap x)" if "m fmt = 37" "m (fmt + 1) = 0"
    using that sends_done [OF x] by (simp add: port_loop_def)
  show "sends () (c # r) x (port_loop m (Suc n) fmt ap x)"
    if "m fmt = c" "c \<noteq> 0" "c \<noteq> 37" "\<And>x :: 'a fs_state_scheme. port_ready x \<Longrightarrow> sends () r x (port_loop m n (fmt + 1) ap x)"
    using that(1-3) sends_bind [OF s_putchar_sends [OF x], of "()" r "\<lambda>_ s. s_printk_loop n (fmt + 1) ap m s" c] that(4)
    by (simp add: port_loop_def)
  show "sends () ((if d = 37 then [37] else []) @ r) x (port_loop m (Suc n) fmt ap x)"
    if "m fmt = 37" "m (fmt + 1) = d" "d \<noteq> 0" "d \<notin> {99, 100, 115, 117, 120}"
      "\<And>x :: 'a fs_state_scheme. port_ready x \<Longrightarrow> sends () r x (port_loop m n (fmt + 2) ap x)"
  proof -
    have "sends ap (if d = 37 then [37] else []) x (s_convert d ap m x)"
      using that(4) sends_done [OF x] sends_then [OF s_putchar_sends [OF x]] by (auto simp: s_convert_def)
    from sends_bind [OF this, of "()" r "\<lambda>ap s. s_printk_loop n (fmt + 2) ap m s"] show ?thesis
      using that(1-3,5) by (simp add: port_loop_def)
  qed
  show "sends () (y @ r) x (port_loop m (Suc n) fmt ap x)"
    if "m fmt = 37" "m (fmt + 1) = d" "d \<in> {99, 100, 115, 117, 120}" "arg_text False str d (load32 m ap) = Some y"
      "strings_at UNIV m str" "\<And>x :: 'a fs_state_scheme. port_ready x \<Longrightarrow> sends () r x (port_loop m n (fmt + 2) (ap + 4) x)"
    using sends_bind [OF s_convert_sends [OF x that(3-5)], of "()" r "\<lambda>ap s. s_printk_loop n (fmt + 2) ap m s"] that(1-3,6)
    by (auto simp: port_loop_def)
qed

text \<open>C40: s_printk sends its text over the serial port: on a port that is always ready, for a format that ends,
  arguments and strings that lie in memory, and a text in which %x and %u, both unsigned here, meet no number from 2^31 on
  and %d not the least one, it returns after exactly these bytes were written to the port, in order, and changes nothing else.\<close>

theorem s_printk_sends:
  assumes "port_ready s" "cstring m fmt f" "length f < string_room" "args_at UNIV m ap args" "strings_at UNIV m str"
    and "render False str f args = Some r"
  shows "\<exists>t n. s_printk fmt ap m s = Done () t \<and> t = s\<lparr>in_time := n, outs := outs s @ map (\<lambda>c. (PORT, c)) r\<rparr>"
  using to_port.prints_text [OF assms(6,2) _ assms(3,4,5,1)] unfolding s_printk_def port_loop_def sends_def sent_def by auto

theorem s_printk_sends_witness:
  "\<exists>t. s_printk 0x100 0x200 ((\<lambda>_. 0)(0x100 := 37, 0x101 := 120, 0x102 := 10, 0x200 := 26)) (fs_raw\<lparr>in_val := \<lambda>_ _. 0x60\<rparr>) = Done () t \<and>
     drop (length (outs fs_raw)) (outs t) = [(0x3f8, 49), (0x3f8, 65), (0x3f8, 10)]"
proof -
  let ?m = "(\<lambda>_. 0)(0x100 := 37, 0x101 := 120, 0x102 := 10, 0x200 := 26) :: mem" and ?s = "fs_raw\<lparr>in_val := \<lambda>_ _. 0x60\<rparr>"
  have r: "render False (\<lambda>_. None) [37, 120, 10] [26] = Some [49, 65, 10]"
    by (simp add: arg_text_def show_num_def digits_of.simps digit_chars_def)
  have "\<exists>t n. s_printk 0x100 0x200 ?m ?s = Done () t \<and> t = ?s\<lparr>in_time := n, outs := outs ?s @ map (\<lambda>c. (PORT, c)) [49, 65, 10]\<rparr>"
    by (rule s_printk_sends [OF _ _ _ _ _ r])
      (simp_all add: port_ready_def string_room_def args_at_def strings_at_def load32_def load16_def)
  then show ?thesis by auto
qed

end
