(* ===== verification/Syscalls.thy ===== *)
theory Syscalls
  imports Sched
begin

text \<open>
  The system calls as a table, \<^verbatim>\<open>include/linux/sys.h\<close>, and their numbers and the result of a
  call for the user, \<^verbatim>\<open>include/unistd.h\<close>. The entry path between the two is assembler.
\<close>

text \<open>The routines that the table names.\<close>

datatype routine = Sys_setup | Sys_exit | Sys_fork | Sys_read | Stub_syscall | Sys_open | Sys_close | Sys_waitpid | Sys_sleep | Sys_pause | Sys_kill | Sys_dup | Sys_sigaction | Sys_sgetmask | Sys_ssetmask | Serial_debugstr | Tty_read_call | User_tty_write_call

definition sys_call_table :: "routine list" where
  "sys_call_table =
    [Sys_setup, Sys_exit, Sys_fork, Sys_read, Stub_syscall, Sys_open,
     Sys_close, Sys_waitpid, Stub_syscall, Stub_syscall, Sys_sleep, Stub_syscall,
     Stub_syscall, Stub_syscall, Stub_syscall, Stub_syscall, Stub_syscall, Stub_syscall,
     Stub_syscall, Stub_syscall, Stub_syscall, Stub_syscall, Stub_syscall, Stub_syscall,
     Stub_syscall, Stub_syscall, Stub_syscall, Stub_syscall, Stub_syscall, Sys_pause,
     Stub_syscall, Stub_syscall, Stub_syscall, Stub_syscall, Stub_syscall, Stub_syscall,
     Stub_syscall, Sys_kill, Stub_syscall, Stub_syscall, Stub_syscall, Sys_dup,
     Stub_syscall, Stub_syscall, Stub_syscall, Stub_syscall, Stub_syscall, Stub_syscall,
     Stub_syscall, Stub_syscall, Stub_syscall, Stub_syscall, Stub_syscall, Stub_syscall,
     Stub_syscall, Stub_syscall, Stub_syscall, Stub_syscall, Stub_syscall, Stub_syscall,
     Stub_syscall, Stub_syscall, Stub_syscall, Stub_syscall, Stub_syscall, Stub_syscall,
     Stub_syscall, Sys_sigaction, Sys_sgetmask, Sys_ssetmask, Stub_syscall, Stub_syscall,
     Serial_debugstr, Tty_read_call, User_tty_write_call]"

definition stub_syscall :: "'a sched_state_scheme \<Rightarrow> u32 \<times> 'a sched_state_scheme" where
  "stub_syscall s = (0, s)"

text \<open>The calls that \<^verbatim>\<open>unistd.h\<close> numbers.\<close>

datatype library_call = C_setup | C_exit | C_fork | C_read | C_open | C_close | C_waitpid | C_sleep | C_alarm | C_pause | C_kill | C_dup | C_sigaction | C_sgetmask | C_ssetmask | C_sys_debug | C_user_tty_read | C_user_tty_write

fun NR :: "library_call \<Rightarrow> nat" where
  "NR C_setup = 0"
| "NR C_exit = 1"
| "NR C_fork = 2"
| "NR C_read = 3"
| "NR C_open = 5"
| "NR C_close = 6"
| "NR C_waitpid = 7"
| "NR C_sleep = 10"
| "NR C_alarm = 27"
| "NR C_pause = 29"
| "NR C_kill = 37"
| "NR C_dup = 41"
| "NR C_sigaction = 67"
| "NR C_sgetmask = 68"
| "NR C_ssetmask = 69"
| "NR C_sys_debug = 72"
| "NR C_user_tty_read = 73"
| "NR C_user_tty_write = 74"

text \<open>The end of the macros \<open>_syscall0\<close> to \<open>_syscall3\<close>: what the caller gets and the new \<open>errno\<close>.\<close>

definition library_result :: "u32 \<Rightarrow> u32 \<Rightarrow> u32 \<times> u32" where
  "library_result res errno = (if 0 \<le> sint res then (res, errno) else (-1, - res))"

section \<open>The routine behind a number\<close>

text \<open>The routine that a call of the library is named after; there is none for \<open>alarm\<close> in the table.\<close>

fun named_routine :: "library_call \<Rightarrow> routine" where
  "named_routine C_setup = Sys_setup"
| "named_routine C_exit = Sys_exit"
| "named_routine C_fork = Sys_fork"
| "named_routine C_read = Sys_read"
| "named_routine C_open = Sys_open"
| "named_routine C_close = Sys_close"
| "named_routine C_waitpid = Sys_waitpid"
| "named_routine C_sleep = Sys_sleep"
| "named_routine C_alarm = Stub_syscall"
| "named_routine C_pause = Sys_pause"
| "named_routine C_kill = Sys_kill"
| "named_routine C_dup = Sys_dup"
| "named_routine C_sigaction = Sys_sigaction"
| "named_routine C_sgetmask = Sys_sgetmask"
| "named_routine C_ssetmask = Sys_ssetmask"
| "named_routine C_sys_debug = Serial_debugstr"
| "named_routine C_user_tty_read = Tty_read_call"
| "named_routine C_user_tty_write = User_tty_write_call"

definition library_calls :: "library_call list" where
  "library_calls = [C_setup, C_exit, C_fork, C_read, C_open, C_close, C_waitpid, C_sleep, C_alarm, C_pause, C_kill, C_dup,
     C_sigaction, C_sgetmask, C_ssetmask, C_sys_debug, C_user_tty_read, C_user_tty_write]"

lemma numbered_or_stub: "list_all (\<lambda>n. sys_call_table ! n = Stub_syscall \<or> n \<in> set (map NR library_calls)) [0..<75]"
  by code_simp

text \<open>Every call of the library reaches the routine it is named after, and alarm reaches the stub that does
  nothing and returns 0; the table has an entry for every number, and all entries without a number are the
  stub.\<close>

theorem numbers_match_table:
  "length sys_call_table = 75 \<and> (\<forall>c. NR c < 75 \<and> sys_call_table ! NR c = named_routine c) \<and>
   (\<forall>n < 75. n \<notin> range NR \<longrightarrow> sys_call_table ! n = Stub_syscall)"
proof (intro conjI allI impI)
  show "length sys_call_table = 75" by (simp add: sys_call_table_def)
  show "NR c < 75" for c by (cases c) simp_all
  show "sys_call_table ! NR c = named_routine c" for c by (cases c) (simp_all add: sys_call_table_def)
  show "sys_call_table ! n = Stub_syscall" if "n < 75" "n \<notin> range NR" for n
    using numbered_or_stub that by (auto simp: list_all_iff)
qed

theorem numbers_match_table_witness:
  "sys_call_table ! 5 = Sys_open \<and> sys_call_table ! 27 = Stub_syscall \<and> sys_call_table ! 4 = Stub_syscall"
proof -
  have "4 \<notin> range NR"
  proof
    assume "4 \<in> range NR"
    then obtain c where "NR c = 4" by auto
    then show False by (cases c) simp_all
  qed
  then have "sys_call_table ! 4 = Stub_syscall" using numbers_match_table by simp
  moreover have "\<forall>c. sys_call_table ! NR c = named_routine c" using numbers_match_table by blast
  then have "sys_call_table ! NR C_open = named_routine C_open" "sys_call_table ! NR C_alarm = named_routine C_alarm" by blast+
  ultimately show ?thesis by simp
qed

end
