(* ===== verification/Entry.thy ===== *)
theory Entry
  imports Files Setup Fork Signal Exit Printk Syscalls
begin

text \<open>
  The ways into the kernel: the system call gate, which goes through the table of the calls, the timer, disk
  and keyboard interrupts of \<^verbatim>\<open>kernel/system_call.s\<close> and
  \<^verbatim>\<open>kernel/chr_drv/keyboard.s\<close>, the page fault of \<^verbatim>\<open>mm/page.s\<close>, and the way back
  to the user, which delivers a signal. The registers of the user lie on the kernel stack in a
  \<open>syscall_frame\<close>; the memory \<open>m\<close> of the kernel holds the BIOS tables and the strings of debug calls.
\<close>

section \<open>System calls\<close>

text \<open>The registers that only \<open>fork\<close> pushes.\<close>

record more_regs =
  mr_ebp :: u32
  mr_edi :: u32
  mr_esi :: u32
  mr_gs :: u32

definition fork_args :: "more_regs \<Rightarrow> syscall_frame \<Rightarrow> fork_frame" where
  "fork_args x f = \<lparr>ff_ebp = mr_ebp x, ff_edi = mr_edi x, ff_esi = mr_esi x, ff_gs = mr_gs x, ff_ebx = sf_ebx f,
     ff_ecx = sf_ecx f, ff_edx = sf_edx f, ff_fs = sf_fs f, ff_es = sf_es f, ff_ds = sf_ds f, ff_eip = sf_eip f,
     ff_cs = sf_cs f, ff_eflags = sf_eflags f, ff_esp = sf_esp f, ff_ss = sf_ss f\<rparr>"

definition sys_fork :: "fork_frame \<Rightarrow> 'a proc_state_scheme \<Rightarrow> ('a proc_state_scheme, u32) outcome" where
  "sys_fork r s = kbind (find_empty_process s) (\<lambda>nr s. if sint nr < 0 then Done nr s else copy_process (unat nr) r s)"

abbreviation (input) at_once :: "'b \<times> 's \<Rightarrow> ('s, 'b) outcome" where
  "at_once rs \<equiv> Done (fst rs) (snd rs)"

definition call_routine :: "('a proc_state_scheme \<Rightarrow> 'a proc_state_scheme) \<Rightarrow> mem \<Rightarrow> more_regs \<Rightarrow> syscall_frame \<Rightarrow> routine
    \<Rightarrow> 'a proc_state_scheme \<Rightarrow> ('a proc_state_scheme, u32) outcome" where
  "call_routine env m x f r s =
     (let ebx = sf_ebx f; ecx = sf_ecx f; edx = sf_edx f in
      case r of
        Sys_setup \<Rightarrow> sys_setup env m ebx s
      | Sys_exit \<Rightarrow> sys_exit env ebx s
      | Sys_fork \<Rightarrow> sys_fork (fork_args x f) s
      | Sys_read \<Rightarrow> sys_read env ebx ecx edx s
      | Stub_syscall \<Rightarrow> at_once (stub_syscall s)
      | Sys_open \<Rightarrow> sys_open env ebx ecx edx s
      | Sys_close \<Rightarrow> sys_close env ebx s
      | Sys_waitpid \<Rightarrow> sys_waitpid env ebx ecx edx s
      | Sys_sleep \<Rightarrow> sys_sleep env ebx s
      | Sys_pause \<Rightarrow> sys_pause env s
      | Sys_kill \<Rightarrow> at_once (sys_kill ebx ecx s)
      | Sys_dup \<Rightarrow> at_once (sys_dup ebx s)
      | Sys_sigaction \<Rightarrow> sys_sigaction ebx ecx edx s
      | Sys_sgetmask \<Rightarrow> Done (sys_sgetmask s) s
      | Sys_ssetmask \<Rightarrow> at_once (sys_ssetmask ebx s)
      | Serial_debugstr \<Rightarrow> serial_debugstr ebx m s
      | Tty_read_call \<Rightarrow> tty_read env ebx ecx edx s
      | User_tty_write_call \<Rightarrow> user_tty_write ebx ecx edx s)"

text \<open>
  \<open>ret_from_syscall\<close>: the lowest signal that is raised and not blocked is taken off and delivered, when
  the task is not task 0 and goes back to user mode (selectors \<open>0x0f\<close> and \<open>0x17\<close>).
\<close>

definition pending_signal :: "'a sched_state_scheme \<Rightarrow> nat option" where
  "pending_signal s = List.find (bit (NOT (t_blocked (cur s)) AND t_signal (cur s))) [0..<32]"

definition ret_from_syscall :: "syscall_frame \<Rightarrow> 'a proc_state_scheme \<Rightarrow> ('a proc_state_scheme, syscall_frame) outcome" where
  "ret_from_syscall f s =
     (if current s = task s ! 0 \<or> sf_cs f AND 0xffff \<noteq> 0x0f \<or> sf_ss f AND 0xffff \<noteq> 0x17 then Done f s
      else case pending_signal s of
        None \<Rightarrow> Done f s
      | Some i \<Rightarrow> do_signal (of_nat i + 1) f (tupd (current s) (\<lambda>t. t\<lparr>t_signal := t_signal t AND NOT (push_bit i 1)\<rparr>) s))"

definition reschedule :: "('a sched_state_scheme \<Rightarrow> 'a sched_state_scheme) \<Rightarrow> 'a sched_state_scheme
    \<Rightarrow> ('a sched_state_scheme, unit) outcome" where
  "reschedule env s = (if t_state (cur s) \<noteq> 0 \<or> t_counter (cur s) = 0 then schedule env s else Done () s)"

definition system_call :: "('a proc_state_scheme \<Rightarrow> 'a proc_state_scheme) \<Rightarrow> mem \<Rightarrow> more_regs \<Rightarrow> syscall_frame
    \<Rightarrow> 'a proc_state_scheme \<Rightarrow> ('a proc_state_scheme, syscall_frame) outcome" where
  "system_call env m x f s =
     (if sf_eax f > 74 then Done (f\<lparr>sf_eax := -1\<rparr>) s
      else kbind (call_routine env m x f (sys_call_table ! unat (sf_eax f)) s) (\<lambda>eax s.
           kbind (reschedule env s) (\<lambda>_ s. ret_from_syscall (f\<lparr>sf_eax := eax\<rparr>) s)))"

section \<open>Interrupts and faults\<close>

definition timer_interrupt :: "('a proc_state_scheme \<Rightarrow> 'a proc_state_scheme) \<Rightarrow> syscall_frame
    \<Rightarrow> 'a proc_state_scheme \<Rightarrow> ('a proc_state_scheme, syscall_frame) outcome" where
  "timer_interrupt env f s =
     (let s = s\<lparr>jiffies := jiffies s + 1\<rparr>;
          s = outb 0x20 0x20 s
      in kbind (do_timer env (sf_cs f AND 3) s) (\<lambda>_ s. ret_from_syscall f s))"

text \<open>The disk has asked for service: \<open>do_hd\<close> says what for, and is taken off first. What \<open>write_intr\<close> prints goes to
  the serial port.\<close>

definition write_intr :: "'a blk_state_scheme \<Rightarrow> 'a blk_state_scheme" where
  "write_intr s = s"

definition unexpected_hd_interrupt :: "'a blk_state_scheme \<Rightarrow> 'a blk_state_scheme" where
  "unexpected_hd_interrupt s = printk ''Unexpected HD interrupt'' [] s"

definition hd_interrupt :: "'a blk_state_scheme \<Rightarrow> ('a blk_state_scheme, unit) outcome" where
  "hd_interrupt s =
     (let s = outb 0x20 0xA0 s;
          edx = do_hd s;
          s = outb 0x20 0x20 (s\<lparr>do_hd := None\<rparr>)
      in case edx of
           None \<Rightarrow> Done () (unexpected_hd_interrupt s)
         | Some Read_intr \<Rightarrow> read_intr s
         | Some Write_intr \<Rightarrow> Done () (write_intr s))"

definition keyboard_interrupt :: "'a tty_state_scheme \<Rightarrow> ('a tty_state_scheme, unit) outcome" where
  "keyboard_interrupt s = (case inb 0x60 s of (al, s) \<Rightarrow> do_keyboard_interrupt (ucast al) (outb 0x20 0x20 s))"

definition page_fault :: "u32 \<Rightarrow> u32 \<Rightarrow> 'a mm_state_scheme \<Rightarrow> ('a mm_state_scheme, unit) outcome" where
  "page_fault error_code cr2 s = (if error_code AND 1 = 0 then do_no_page error_code cr2 s else do_wp_page error_code cr2 s)"

section \<open>A signal to oneself\<close>

lemma pending_first:
  assumes "k < 32" "bit (t_signal (cur s)) k" "\<not> bit (t_blocked (cur s)) k"
    and "\<And>j. j < k \<Longrightarrow> bit (t_signal (cur s)) j \<Longrightarrow> bit (t_blocked (cur s)) j"
  shows "pending_signal s = Some k"
  using assms unfolding pending_signal_def find_Some_iff
  by (intro exI [of _ k]) (auto simp: bit_and_iff bit_not_iff nth_upt)

lemma signal_raised_taken:
  "\<not> bit w k \<Longrightarrow> (w OR push_bit k 1) AND NOT (push_bit k 1) = (w :: u32)"
  by (rule bit_word_eqI) (auto simp: bit_simps)

text \<open>C23: a task that sends itself a signal runs its handler: when a user task that is alone with its pid calls
  kill through the gate with that pid and a signal that is neither pending nor blocked, while no lower signal waits to be
  delivered, its time slice is not used up and the words below its stack pointer can be written, the call returns to the handler of the signal with the stack
  pointer below a frame that holds the restorer, the signal, the mask, 0 as the result of the call, ecx, edx, the flags
  and the address to go on from. The signal is no longer pending, the mask of the handler is blocked, and no byte
  of memory outside the frame changes after verify_area has made the frame's pages the task's own.\<close>

theorem signal_to_oneself:
  fixes f :: syscall_frame and s :: "'a proc_state_scheme"
  defines "k \<equiv> unat (sf_ecx f - 1)" and "sa \<equiv> t_sigaction (cur s) ! unat (sf_ecx f - 1)"
  assumes call: "sf_eax f = of_nat (NR C_kill)" "sf_ebx f = t_pid (cur s)" "0 < sint (t_pid (cur s))"
      "1 \<le> sint (sf_ecx f)" "sint (sf_ecx f) \<le> 32"
    and user: "current s \<noteq> 0" "current s \<noteq> task s ! 0" "i \<in> {1..<64}" "task s ! i = current s"
      "sf_cs f AND 0xffff = 0x0f" "sf_ss f AND 0xffff = 0x17"
    and alone: "\<forall>j \<in> {1..<64}. task s ! j \<noteq> 0 \<and> t_pid (tmem s (task s ! j)) = t_pid (cur s) \<longrightarrow> task s ! j = current s"
    and runs: "t_state (cur s) = TASK_RUNNING" "t_counter (cur s) \<noteq> 0"
    and first: "\<not> bit (t_signal (cur s)) k" "\<not> bit (t_blocked (cur s)) k"
      "\<forall>j < k. bit (t_signal (cur s)) j \<longrightarrow> bit (t_blocked (cur s)) j"
    and handler: "k < length (t_sigaction (cur s))" "sa_handler sa \<noteq> 0" "sa_handler sa \<noteq> 1"
    and frame: "fr = handler_frame (sf_ecx f) sa (f\<lparr>sf_eax := 0\<rparr>) (t_blocked (cur s))" "esp = sf_esp f - 4 * of_nat (length fr)"
      "verify_area esp (4 * of_nat (length fr))
         (if sa_flags sa AND SA_ONESHOT \<noteq> 0 then sigupd k (\<lambda>sa. sa\<lparr>sa_handler := 0\<rparr>) s else s) = Done () u"
      "span esp (4 * length fr) u"
  shows "\<exists>t. system_call env m x f s = Done (f\<lparr>sf_eax := 0, sf_eip := sa_handler sa, sf_esp := esp\<rparr>) t \<and>
    (\<forall>i < length fr. get_fs_long (esp + 4 * of_nat i) t = Done (fr ! i) t) \<and>
    t_signal (cur t) = t_signal (cur s) \<and> t_blocked (cur t) = t_blocked (cur s) OR sa_mask sa \<and>
    (\<forall>x. x \<notin> frame_bytes esp (4 * length fr) u \<longrightarrow> byte_at (pmem t) x = byte_at (pmem u) x)"
proof -
  obtain n where n: "sf_ecx f = of_nat (Suc n)" "n < 32"
  proof
    have "sf_ecx f = word_of_int (sint (sf_ecx f))" by simp
    also have "sint (sf_ecx f) = int (Suc (nat (sint (sf_ecx f)) - 1))" using call(4) by simp
    finally show "sf_ecx f = of_nat (Suc (nat (sint (sf_ecx f)) - 1))" by simp
    show "nat (sint (sf_ecx f)) - 1 < 32" using call(5) by simp
  qed
  then have k: "k = n" "k < 32" "sf_ecx f = of_nat k + 1"
    by (simp_all add: k_def unat_of_nat take_bit_eq_mod)
  let ?raise = "\<lambda>t. t\<lparr>t_signal := t_signal t OR push_bit k 1\<rparr>"
  let ?r = "tupd (current s) ?raise s"
  have hit: "hit (t_pid (cur s)) (down 1 64) s p \<longleftrightarrow> p = current s" for p
    using user alone unfolding hit_def by (auto intro: image_eqI [of _ _ i])
  have killed: "killed (t_pid (cur s)) (sf_ecx f) (down 1 64) s = ?r"
    unfolding killed_def tupd_update hit k_def ..
  have kill: "sys_kill (sf_ebx f) (sf_ecx f) s = (0, ?r)"
    using call(2,3) kill_all_good [OF call(4,5), of _ _ _ s] killed by (simp add: sys_kill_def)
  have called: "call_routine env m x f (sys_call_table ! unat (sf_eax f)) s = Done 0 ?r"
    using kill by (simp add: call(1) sys_call_table_def call_routine_def Let_def)
  have cur: "cur ?r = ?raise (cur s)" by (simp add: tupd_def)
  have pend: "pending_signal ?r = Some k"
    by (rule pending_first) (use k(2) first in \<open>auto simp: cur bit_or_iff bit_exp_iff\<close>)
  have taken: "tupd (current s) (\<lambda>t. t\<lparr>t_signal := t_signal t AND NOT (push_bit k 1)\<rparr>) ?r = s"
    using signal_raised_taken [OF first(1)] by (simp add: tupd_tupd) (simp add: tupd_def)
  have "ret_from_syscall (f\<lparr>sf_eax := 0\<rparr>) ?r = do_signal (sf_ecx f) (f\<lparr>sf_eax := 0\<rparr>) s"
    using pend taken user by (simp add: ret_from_syscall_def k(3))
  then have "system_call env m x f s = do_signal (sf_ecx f) (f\<lparr>sf_eax := 0\<rparr>) s"
    using called runs by (simp add: system_call_def call(1) reschedule_def)
  moreover have "k = unat (sf_ecx f - 1)" "sa = t_sigaction (cur s) ! k" "esp = sf_esp (f\<lparr>sf_eax := 0\<rparr>) - 4 * of_nat (length fr)"
    by (simp_all add: k_def sa_def frame(2))
  note do_signal_enters [OF call(4,5) this(1) handler(1) this(2) handler(2,3) frame(1) this(3) frame(3,4)]
  ultimately show ?thesis by metis
qed

text \<open>A user task with pid 5 in slot 1, with a handler for signal 2 and one page for its stack, and its call of kill.\<close>

definition caller :: proc_state where
  "caller = fork_boot\<lparr>pmem := (\<lambda>_. 0)(0 := 0x5007, 0x5008 := 0x200007), task := 0x1000 # 0x20000 # replicate 62 0,
     current := 0x20000,
     tmem := (\<lambda>_. (INIT_TASK 0x1000 0)\<lparr>t_pid := 5, t_sigaction := (t_sigaction (INIT_TASK 0x1000 0))
       [1 := \<lparr>sa_handler = 0x1000, sa_mask = 2, sa_flags = 0, sa_restorer = 0x1100\<rparr>]\<rparr>)\<rparr>"

definition kill_frame :: syscall_frame where
  "kill_frame = call_frame\<lparr>sf_eax := 37, sf_ebx := 5, sf_ecx := 2\<rparr>"

lemma caller_simps:
  "task caller = 0x1000 # 0x20000 # replicate 62 0" "current caller = 0x20000" "t_pid (tmem caller p) = 5"
  "t_state (tmem caller p) = 0" "t_counter (tmem caller p) = 15" "t_signal (tmem caller p) = 0" "t_blocked (tmem caller p) = 0"
  "t_sigaction (tmem caller p) = (replicate 32 \<lparr>sa_handler = 0, sa_mask = 0, sa_flags = 0, sa_restorer = 0\<rparr>)
     [1 := \<lparr>sa_handler = 0x1000, sa_mask = 2, sa_flags = 0, sa_restorer = 0x1100\<rparr>]"
  by (simp_all add: caller_def INIT_TASK_def)

lemma caller_page: "one_page caller"
  by (simp add: caller_def INIT_TASK_def one_page_def get_base_def lsl_def bit_numeral_rec)

theorem signal_to_oneself_witness:
  "\<forall>env m x. \<exists>t. system_call env m x kill_frame caller = Done (kill_frame\<lparr>sf_eax := 0, sf_eip := 0x1000, sf_esp := 0x27e0\<rparr>) t \<and>
     get_fs_long 0x27e4 t = Done 2 t \<and> t_blocked (cur t) = 2"
proof (intro allI)
  fix env m x
  let ?sa = "\<lparr>sa_handler = 0x1000, sa_mask = 2, sa_flags = 0, sa_restorer = 0x1100\<rparr>"
  let ?fr = "[0x1100, 2, 0, 0, 2, 0, 0x202, 0x500] :: u32 list"
  have slots: "task caller ! j \<in> {0, 0x20000}" if "j \<in> {1..<64}" for j
    using that by (cases "j = 1") (auto simp: caller_simps nth_Cons')
  have k: "unat (sf_ecx kill_frame - 1) = 1" by (simp add: kill_frame_def)
  have sa: "t_sigaction (cur caller) ! 1 = ?sa" by (simp add: caller_simps)
  have area: "verify_area 0x27e0 32 caller = Done () caller" by (rule one_page_verify [OF caller_page]) simp_all
  have "\<exists>t. system_call env m x kill_frame caller = Done (kill_frame\<lparr>sf_eax := 0, sf_eip := sa_handler ?sa, sf_esp := 0x27e0\<rparr>) t \<and>
    (\<forall>i < length ?fr. get_fs_long (0x27e0 + 4 * of_nat i) t = Done (?fr ! i) t) \<and>
    t_signal (cur t) = t_signal (cur caller) \<and> t_blocked (cur t) = t_blocked (cur caller) OR sa_mask ?sa \<and>
    (\<forall>a. a \<notin> frame_bytes 0x27e0 (4 * length ?fr) caller \<longrightarrow> byte_at (pmem t) a = byte_at (pmem caller) a)"
  proof (rule signal_to_oneself [of kill_frame caller 1 ?fr "0x27e0" caller env m x, unfolded k sa])
    show "span 0x27e0 (4 * length ?fr) caller" by (rule one_page_span [OF caller_page]) simp_all
    show "\<forall>j \<in> {1..<64}. task caller ! j \<noteq> 0 \<and> t_pid (tmem caller (task caller ! j)) = t_pid (cur caller) \<longrightarrow> task caller ! j = current caller"
      using slots unfolding caller_simps(2) by blast
  qed (use area in \<open>simp_all add: caller_simps kill_frame_def call_frame_def handler_frame_def\<close>)
  then obtain t where t: "system_call env m x kill_frame caller = Done (kill_frame\<lparr>sf_eax := 0, sf_eip := 0x1000, sf_esp := 0x27e0\<rparr>) t"
    "\<forall>i < 8. get_fs_long (0x27e0 + 4 * of_nat i) t = Done (?fr ! i) t" "t_blocked (cur t) = 2"
    by (auto simp: caller_simps)
  then show "\<exists>t. system_call env m x kill_frame caller = Done (kill_frame\<lparr>sf_eax := 0, sf_eip := 0x1000, sf_esp := 0x27e0\<rparr>) t \<and>
     get_fs_long 0x27e4 t = Done 2 t \<and> t_blocked (cur t) = 2" using spec [OF t(2), of 1] by auto
qed

end
