(* ===== verification/Kernel.thy ===== *)
theory Kernel
  imports File_Frame Boot Entry
begin

text \<open>
  The kernel as one state machine: a step is a system call, a page fault or an interrupt, carried out to
  where it ends, and while a task sleeps the others take steps of their own. What every step keeps, every
  run keeps: the order of the buffer cache and the table of inodes without duplicates, from
  \<open>main\<close> on.
\<close>

section \<open>Invariants through every call\<close>

locale kernel_frame = file_frame I for I :: "'a proc_state_scheme \<Rightarrow> bool" +
  assumes I_root: "I s \<Longrightarrow> is_dev (ROOT_DEV s)"
    and I_tty_table: "I s \<Longrightarrow> I (s\<lparr>tty_table := tab\<rparr>)"
    and I_video_x: "I s \<Longrightarrow> I (s\<lparr>video_x := x\<rparr>)"
    and I_video_y: "I s \<Longrightarrow> I (s\<lparr>video_y := y\<rparr>)"
    and I_vmem: "I s \<Longrightarrow> I (s\<lparr>vmem := m\<rparr>)"
    and I_caps: "I s \<Longrightarrow> I (s\<lparr>caps := v\<rparr>)"
    and I_lctrl: "I s \<Longrightarrow> I (s\<lparr>lctrl := v\<rparr>)"
    and I_lalt: "I s \<Longrightarrow> I (s\<lparr>lalt := v\<rparr>)"
    and I_lshift: "I s \<Longrightarrow> I (s\<lparr>lshift := v\<rparr>)"
    and I_task: "I s \<Longrightarrow> I (s\<lparr>task := ps\<rparr>)"
    and I_last_pid: "I s \<Longrightarrow> I (s\<lparr>last_pid := l\<rparr>)"
    and I_jiffies: "I s \<Longrightarrow> I (s\<lparr>jiffies := j\<rparr>)"
    and I_gdt: "I s \<Longrightarrow> I (s\<lparr>gdt := g\<rparr>)"
    and I_fpu: "I s \<Longrightarrow> I (s\<lparr>fpu := w\<rparr>)"
    and I_stale: "I s \<Longrightarrow> I (s\<lparr>stale := z\<rparr>)"
begin

lemmas I_keys = I_caps I_lctrl I_lalt I_lshift

subsection \<open>Terminals\<close>

lemma I_ttyupd: "I s \<Longrightarrow> I (ttyupd n f s)"
  by (simp add: ttyupd_def I_tty_table)

lemma I_video_putchar_at: "I s \<Longrightarrow> I (video_putchar_at ch x y attr s)"
  by (simp add: video_putchar_at_def Let_def I_vmem)

lemma I_roll_screen: "I s \<Longrightarrow> I (roll_screen s)"
  unfolding roll_screen_def Let_def by (rule fold_keeps) (simp_all add: I_video_putchar_at I_vmem)

lemma I_put_glyph: "I s \<Longrightarrow> I (put_glyph ch s)"
  by (simp add: put_glyph_def Let_def I_video_x I_video_y I_video_putchar_at)

lemma I_update_cursor: "I s \<Longrightarrow> I (update_cursor row col s)"
  by (simp add: update_cursor_def Let_def I_outb)

lemma I_video_putchar: "I s \<Longrightarrow> I (video_putchar ch s)"
  by (simp add: video_putchar_def Let_def I_update_cursor I_video_x I_video_y I_roll_screen I_put_glyph)

lemma I_con_write_loop: "I s \<Longrightarrow> I (final (con_write_loop k n s))"
  by (induction k arbitrary: s) (simp_all add: Let_def I_video_putchar I_ttyupd split: prod.split)

lemma I_tty_write: "I s \<Longrightarrow> I (final (tty_write n s))"
  by (simp add: tty_write_def con_write_def I_con_write_loop del: con_write_loop.simps split: option.split tty_fn.split)

lemma I_echo: "I s \<Longrightarrow> I (final (echo n ch s))"
  by (simp add: echo_def I_tty_write I_ttyupd)

lemma I_take_char: "I s \<Longrightarrow> I (final (take_char n ch s))"
  by (simp add: take_char_def Let_def I_echo I_ttyupd I_wake_up)

lemma I_copy_to_buffer_loop: "I s \<Longrightarrow> I (final (copy_to_buffer_loop k n s))"
  by (induction k arbitrary: s)
    (auto intro!: kbind_keeps [where I = I] simp: Let_def I_take_char I_ttyupd split: prod.split)

lemma I_do_keyboard_interrupt: "I s \<Longrightarrow> I (final (do_keyboard_interrupt c s))"
  by (simp add: do_keyboard_interrupt_def copy_to_buffer_def Let_def I_keys I_copy_to_buffer_loop I_ttyupd
      del: copy_to_buffer_loop.simps split: option.split)

lemma I_sleep_if_empty:
  assumes env: "\<And>s. I s \<Longrightarrow> I (env s)" and "I s"
  shows "I (final (sleep_if_empty env n s))"
proof -
  have "I s \<Longrightarrow> I (final (sleep_if_empty_loop k env n s))" for k s
    by (induction k arbitrary: s) (auto intro!: kbind_keeps [where I = I] simp: I_interruptible_sleep_on env)
  then show ?thesis using assms(2) by (simp add: sleep_if_empty_def del: sleep_if_empty_loop.simps)
qed

lemma I_tty_read_loop:
  assumes env: "\<And>s. I s \<Longrightarrow> I (env s)"
  shows "I s \<Longrightarrow> I (final (tty_read_loop nr env n p len s))"
proof (induction nr arbitrary: p len s)
  case (Suc nr)
  then show ?case unfolding tty_read_loop.simps
    by (auto intro!: kbind_keeps [where I = I] simp: I_sleep_if_empty mm.I_put_fs_byte I_ttyupd env split: prod.split)
qed simp

lemma I_tty_read:
  assumes env: "\<And>s. I s \<Longrightarrow> I (env s)" and "I s"
  shows "I (final (tty_read env channel buf nr s))"
  using assms(2) by (simp add: tty_read_def I_tty_read_loop env)

lemma I_user_write_loop: "I s \<Longrightarrow> I (final (user_write_loop k n p s))"
  by (induction k arbitrary: p s) (auto intro!: kbind_keeps [where I = I] simp: mm.I_get_fs_byte I_ttyupd)

lemma I_user_tty_write: "I s \<Longrightarrow> I (final (user_tty_write channel buf nr s))"
  unfolding user_tty_write_def
  by (auto intro!: kbind_keeps [where I = I] simp: I_user_write_loop I_tty_write)

subsection \<open>Opening and mounting\<close>

lemma I_open_chr:
  assumes env: "\<And>s. I s \<Longrightarrow> I (env s)" and "I s"
  shows "I (final (open_chr env fd f inode s))"
  unfolding open_chr_def Let_def using assms(2)
  by (auto intro!: kbind_keeps [where I = I] simp: I_tupd I_ttyupd I_iput I_fupd env)

lemma I_sys_open:
  assumes env: "\<And>s. I s \<Longrightarrow> I (env s)" and "I s"
  shows "I (final (sys_open env filename flag mode s))"
  unfolding sys_open_def Let_def using assms(2)
  by (auto intro!: kbind_keeps [where I = I] simp: I_open_namei I_fupd I_tupd I_open_chr I_stale env split: option.split)

lemma I_mount_root:
  assumes env: "\<And>s. I s \<Longrightarrow> I (env s)" and "I s"
  shows "I (final (mount_root env s))"
  unfolding mount_root_def wait_for_keypress_def Let_def using assms(2)
  by (auto intro!: kbind_keeps [where I = I] simp: I_sleep_if_empty I_printk I_reset_tables I_reset_supers I_read_super I_root
      I_iget I_panic I_iupd I_supd I_tupd I_count_free env simp del: count_free.simps split: option.split)

lemma I_sys_setup:
  assumes env: "\<And>s. I s \<Longrightarrow> I (env s)" and "I s"
  shows "I (final (sys_setup env m bios s))"
proof -
  have g: "I (read_geometry m b d s)" if "I s" for b d s
    using that by (simp add: read_geometry_def I_hd_info)
  have n: "NR_HD (fold whole_disk ds s) = NR_HD s" for ds :: "nat list" and s :: "'a proc_state_scheme"
    by (induction ds arbitrary: s) (simp_all add: whole_disk_def Let_def)
  show ?thesis unfolding sys_setup_def Let_def using assms(2)
    by (auto intro!: kbind_keeps [where I = I] I_all_partitions simp: I_callable I_printk I_mount_root I_find_disks g n env
        simp del: upt_Suc fold.simps)
qed

subsection \<open>Tasks\<close>

lemma I_send_sig: "I s \<Longrightarrow> I (snd (send_sig sig p priv s))"
  by (simp add: send_sig_def I_tupd)

lemma I_sys_kill: "I s \<Longrightarrow> I (snd (sys_kill pid sig s))"
proof -
  assume "I s"
  have "I (snd (kill_one pid sig i rs))" if "I (snd rs)" for i rs
    using I_send_sig [OF that] that by (simp add: kill_one_def Let_def split: prod.split) (metis snd_conv)
  then have "I (snd (fold (kill_one pid sig) is rs))" if "I (snd rs)" for "is" rs
    by (rule fold_keeps [where I = "\<lambda>rs. I (snd rs)", OF that])
  with \<open>I s\<close> show ?thesis by (simp add: sys_kill_def)
qed

lemma I_release:
  assumes env: "\<And>s. I s \<Longrightarrow> I (env s)" and "I s"
  shows "I (final (release env p s))"
proof -
  have "I s \<Longrightarrow> I (final (release_loop env p is s))" for "is" s
    by (induction "is" arbitrary: s) (auto intro!: kbind_keeps [where I = I] simp: I_free_page I_task I_schedule env)
  then show ?thesis unfolding release_def using assms(2)
    by (auto intro!: kbind_keeps [where I = I] simp: I_panic)
qed

lemma I_tell_father:
  assumes env: "\<And>s. I s \<Longrightarrow> I (env s)" and "I s"
  shows "I (final (tell_father env pid s))"
  using assms(2) by (simp add: tell_father_def I_tupd I_release I_printk env split: option.split)

lemma I_do_exit:
  assumes env: "\<And>s. I s \<Longrightarrow> I (env s)" and "I s"
  shows "I (final (do_exit env code s))"
proof -
  have "I (orphan_one i s)" if "I s" for i s
    using that by (simp add: orphan_one_def Let_def I_tupd I_send_sig)
  then have "I (fold orphan_one is s)" if "I s" for "is" s
    by (rule fold_keeps [where I = I, OF that])
  then show ?thesis unfolding do_exit_def Let_def using assms(2)
    by (auto intro!: kbind_keeps [where I = I] simp: mm.I_free_page_tables I_tupd I_tell_father I_schedule env
        simp del: fold.simps upt_Suc)
qed

lemma I_wait_scan:
  assumes env: "\<And>s. I s \<Longrightarrow> I (env s)"
  shows "I s \<Longrightarrow> I (final (wait_scan env pid stat_addr options is flag s))"
proof (induction "is" arbitrary: flag s)
  case (Cons i "is")
  then show ?case unfolding wait_scan.simps Let_def
    by (auto intro!: kbind_keeps [where I = I] simp: mm.I_put_fs_long I_release I_tupd env)
qed simp

lemma I_sys_waitpid:
  assumes env: "\<And>s. I s \<Longrightarrow> I (env s)" and "I s"
  shows "I (final (sys_waitpid env pid stat_addr options s))"
proof -
  have "I s \<Longrightarrow> I (final (wait_loop n env pid stat_addr options s))" for n s
  proof (induction n arbitrary: s)
    case (Suc n)
    then show ?case unfolding wait_loop.simps Let_def
      by (auto intro!: kbind_keeps [where I = I] simp: I_wait_scan I_schedule I_tupd env
          simp del: wait_scan.simps split: sum.split)
  qed simp
  then show ?thesis unfolding sys_waitpid_def using assms(2)
    by (auto intro!: kbind_keeps [where I = I] simp: mm.I_verify_area simp del: wait_loop.simps)
qed

lemma I_sys_fork:
  assumes "I s"
  shows "I (final (sys_fork r s))"
proof -
  have "I s \<Longrightarrow> pid_loop n tmp s = Some t \<Longrightarrow> I t" for n tmp s t
  proof (induction n arbitrary: s)
    case (Suc n)
    have l: "I (s\<lparr>last_pid := l\<rparr>)" for l by (rule I_last_pid [OF Suc.prems(1)])
    show ?case using Suc.prems Suc.IH [OF l] by (auto simp: Let_def l split: if_splits)
  qed simp
  then have e: "I (final (find_empty_process s))" if "I s" for s
    using that by (auto simp: find_empty_process_def simp del: pid_loop.simps split: option.split)
  have share: "I (share_inode i s)" if "I s" for i s
    using that by (simp add: share_inode_def I_iupd split: option.split)
  have files: "I (fold (share_file p) is s)" if "I s" for p "is" s
    by (rule fold_keeps [where I = I, OF that]) (simp add: share_file_def I_fupd split: option.split)
  have mem: "I (final (copy_mem nr p s))" if "I s" for nr p s
    unfolding copy_mem_def Let_def using that
    by (auto intro!: kbind_keeps [where I = I] simp: I_panic I_printk I_tupd mm.I_copy_page_tables mm.I_free_page_tables)
  have fp: "I (save_fpu p s)" if "I s" for p s
    using that by (simp add: save_fpu_def I_fpu I_tupd)
  have "I (final (copy_process nr r s))" if "I s" for nr s
    unfolding copy_process_def Let_def using mm.I_get_free_page [OF that]
    by (auto intro!: kbind_keeps [where I = I] mem files share I_gdt I_tupd fp simp: I_task I_free_page
        simp del: fold.simps upt_Suc split: prod.split)
  then show ?thesis unfolding sys_fork_def using e [OF assms] by (auto intro!: kbind_keeps [where I = I])
qed

lemma I_do_signal: "I s \<Longrightarrow> I (final (do_signal signr r s))"
proof -
  assume "I s"
  have longs: "I s \<Longrightarrow> I (final (put_longs vs a s))" for vs a s
    by (induction vs arbitrary: a s) (auto intro!: kbind_keeps [where I = I] simp: mm.I_put_fs_long)
  show ?thesis unfolding do_signal_def sigupd_def Let_def using \<open>I s\<close>
    by (auto intro!: kbind_keeps [where I = I] simp: mm.I_verify_area longs I_tupd simp del: put_longs.simps)
qed

lemma I_sys_sigaction: "I s \<Longrightarrow> I (final (sys_sigaction signum action old_action s))"
proof -
  assume "I s"
  have new: "I s \<Longrightarrow> I (final (get_new_loop n i from k s))" for n i "from" k s
    by (induction n arbitrary: i "from" s) (auto intro!: kbind_keeps [where I = I] simp: mm.I_get_fs_byte sigupd_def I_tupd)
  show ?thesis unfolding sys_sigaction_def get_new_def save_old_def sigupd_def Let_def using \<open>I s\<close>
    by (auto intro!: kbind_keeps [where I = I] simp: new mm.I_verify_area mm.I_put_bytes I_tupd simp del: get_new_loop.simps)
qed

lemma I_sleepers:
  assumes env: "\<And>s. I s \<Longrightarrow> I (env s)" and "I s"
  shows "I (final (sys_pause env s))" "I (snd (sys_alarm seconds s))" "I (final (sys_sleep env seconds s))" "I (final (do_timer env cpl s))"
  unfolding sys_pause_def sys_sleep_def sys_alarm_def do_timer_def Let_def using assms(2)
  by (auto intro!: kbind_keeps [where I = I] simp: I_schedule I_tupd env)

lemma I_serial_debugstr: "I s \<Longrightarrow> I (final (serial_debugstr a m s))"
proof -
  have t: "I s \<Longrightarrow> I (final (transmit_loop n s))" for n s
    by (induction n arbitrary: s) (simp_all add: is_transmit_empty_def inb_def I_in_time)
  have p: "I (final (s_putchar c s))" if "I s" for c s
    unfolding s_putchar_def using that by (auto intro!: kbind_keeps [where I = I] simp: t I_outb simp del: transmit_loop.simps)
  have "I s \<Longrightarrow> I (final (s_puts_loop n a m s))" for n a s
    by (induction n arbitrary: a s) (auto intro!: kbind_keeps [where I = I] simp: p)
  then show "I s \<Longrightarrow> I (final (serial_debugstr a m s))"
    unfolding serial_debugstr_def s_puts_def by (auto intro!: kbind_keeps [where I = I] simp del: s_puts_loop.simps)
qed

subsection \<open>The ways in\<close>

lemma I_call_routine:
  assumes env: "\<And>s. I s \<Longrightarrow> I (env s)" and "I s"
  shows "I (final (call_routine env m x f r s))"
  using assms(2)
  by (cases r) (simp_all add: call_routine_def Let_def I_sys_setup I_do_exit sys_exit_def I_sys_fork I_sys_read stub_syscall_def I_sys_open
      I_sys_close I_sys_waitpid I_sleepers I_sys_kill sys_dup_def I_dupfd I_sys_sigaction sys_ssetmask_def I_tupd
      I_serial_debugstr I_tty_read I_user_tty_write env)

lemma I_ret_from_syscall: "I s \<Longrightarrow> I (final (ret_from_syscall f s))"
  by (simp add: ret_from_syscall_def I_do_signal I_tupd split: option.split)

lemma I_system_call:
  assumes env: "\<And>s. I s \<Longrightarrow> I (env s)" and "I s"
  shows "I (final (system_call env m x f s))"
  unfolding system_call_def reschedule_def using assms(2)
  by (auto intro!: kbind_keeps [where I = I] simp: I_call_routine I_schedule I_ret_from_syscall env)

lemma I_timer_interrupt:
  assumes env: "\<And>s. I s \<Longrightarrow> I (env s)" and "I s"
  shows "I (final (timer_interrupt env f s))"
  unfolding timer_interrupt_def Let_def using assms(2)
  by (auto intro!: kbind_keeps [where I = I] simp: I_sleepers I_outb I_jiffies I_ret_from_syscall env)

lemma I_interrupts:
  "I s \<Longrightarrow> I (final (hd_interrupt s))" "I s \<Longrightarrow> I (final (keyboard_interrupt s))" "I s \<Longrightarrow> I (final (page_fault e a s))"
  by (simp_all add: hd_interrupt_def write_intr_def unexpected_hd_interrupt_def Let_def I_outb I_do_hd I_printk I_read_intr keyboard_interrupt_def inb_def
      I_in_time I_do_keyboard_interrupt page_fault_def mm.I_do_no_page do_wp_page_def mm.I_un_wp_page
      split: option.split hd_handler.split)

end

section \<open>The machine\<close>

text \<open>
  An event is what brings the processor into the kernel; \<open>handle\<close> is the state in which its handling ends,
  with a return, halted or asleep for good. \<open>env\<close> is what the other tasks do whenever the task of the event
  gives up the processor.
\<close>

datatype event = System_call_gate more_regs syscall_frame | Timer_tick syscall_frame | Disk_ready | Key_pressed | Page_fault_at u32 u32

fun handle :: "('a proc_state_scheme \<Rightarrow> 'a proc_state_scheme) \<Rightarrow> mem \<Rightarrow> event \<Rightarrow> 'a proc_state_scheme \<Rightarrow> 'a proc_state_scheme" where
  "handle env m (System_call_gate x f) s = final (system_call env m x f s)"
| "handle env m (Timer_tick f) s = final (timer_interrupt env f s)"
| "handle env m Disk_ready s = final (hd_interrupt s)"
| "handle env m Key_pressed s = final (keyboard_interrupt s)"
| "handle env m (Page_fault_at e a) s = final (page_fault e a s)"

inductive kernel_step :: "('a proc_state_scheme \<Rightarrow> 'a proc_state_scheme) \<Rightarrow> mem \<Rightarrow> 'a proc_state_scheme \<Rightarrow> 'a proc_state_scheme \<Rightarrow> bool"
  for env m where
  event: "kernel_step env m s (handle env m e s)"

inductive runs :: "('a proc_state_scheme \<Rightarrow> 'a proc_state_scheme) \<Rightarrow> mem \<Rightarrow> 'a proc_state_scheme \<Rightarrow> 'a proc_state_scheme \<Rightarrow> bool"
  for env m where
  stay: "runs env m s s"
| more: "runs env m s t \<Longrightarrow> kernel_step env m t u \<Longrightarrow> runs env m s u"

text \<open>
  What the others do is a run of the same kernel: nothing, or from every state some finite run, in which the
  tasks that sleep leave the processor to others in their turn.
\<close>

inductive others :: "mem \<Rightarrow> ('a proc_state_scheme \<Rightarrow> 'a proc_state_scheme) \<Rightarrow> bool" for m where
  nobody: "others m (\<lambda>s. s)"
| run: "others m env \<Longrightarrow> (\<And>s. runs env m s (env' s)) \<Longrightarrow> others m env'"

inductive_cases kernel_stepE: "kernel_step env m s t"

context kernel_frame begin

lemma I_kernel_step: "(\<And>s. I s \<Longrightarrow> I (env s)) \<Longrightarrow> kernel_step env m s t \<Longrightarrow> I s \<Longrightarrow> I t"
proof (erule kernel_stepE)
  fix e assume "\<And>s. I s \<Longrightarrow> I (env s)" "I s" "t = handle env m e s"
  then show "I t" by (cases e) (simp_all add: I_system_call I_timer_interrupt I_interrupts)
qed

lemma I_runs: "runs env m s t \<Longrightarrow> (\<And>s. I s \<Longrightarrow> I (env s)) \<Longrightarrow> I s \<Longrightarrow> I t"
  by (induction rule: runs.induct) (auto intro: I_kernel_step)

lemma I_others: "others m env \<Longrightarrow> I s \<Longrightarrow> I (env s)"
proof (induction arbitrary: s rule: others.induct)
  case (run env env')
  from I_runs [OF run.hyps(2) run.IH run.prems] show ?case by simp
qed

lemma I_machine: "others m env \<Longrightarrow> runs env m s t \<Longrightarrow> I s \<Longrightarrow> I t"
  using I_runs I_others by blast

end

section \<open>The two invariants\<close>

interpretation order: kernel_frame "cache_inv n" for n
proof unfold_locales
  fix s :: "'a proc_state_scheme"
  assume s: "cache_inv n s"
  then show "is_dev (ROOT_DEV s)" by (simp add: cache_inv_def)
qed (erule cache_inv_same_block; simp)+

definition tables_inv :: "(nat \<Rightarrow> u32) \<Rightarrow> u16 \<Rightarrow> 'a fs_state_scheme \<Rightarrow> bool" where
  "tables_inv d root s \<longleftrightarrow> inodes_unique s \<and> ROOT_DEV s = ucast root \<and> (\<forall>b. b_data (bufs s b) = d b)"

interpretation tables: table_frame "tables_inv d root" for d root
  unfolding tables_inv_def
  by unfold_locales (auto elim: inodes_unique_cong simp: unique.I_table_iupd unique.I_table_supd unique.I_flags supd_def same_block_def)

interpretation tables: inode_frame "tables_inv d root" for d root
proof unfold_locales
  fix env :: "'a fs_state_scheme \<Rightarrow> 'a fs_state_scheme" and s :: "'a fs_state_scheme" and dev block
  assume "\<And>s. tables_inv d root s \<Longrightarrow> tables_inv d root (env s)" "tables_inv d root s"
  then show "tables_inv d root (final (get_hash_table env dev block s))"
    by (simp add: get_hash_table_def tables.I_get_hash_table_loop del: get_hash_table_loop.simps)
qed (simp_all add: tables_inv_def unique.I_mem_map unique.I_last_inode unique.I_clear unique.I_rename)

interpretation tables: kernel_frame "tables_inv d root" for d root
  by unfold_locales (auto simp: tables_inv_def elim: inodes_unique_cong)

section \<open>From the start on\<close>

lemma blocks_apart_same: "(\<And>b. b_data (bs b) = b_data (cs b)) \<Longrightarrow> blocks_apart bs e n = blocks_apart cs e n"
  by (simp add: blocks_apart_def)

lemma empty_table_unique:
  "length (inode_table s) = NR_INODE \<Longrightarrow> (\<And>i. i < NR_INODE \<Longrightarrow> i_dev (inode_table s ! i) = 0) \<Longrightarrow> inodes_unique s"
  by (auto simp: inodes_unique_def)

text \<open>C1: from the start on, whatever the user programs, the disk, the keyboard and the clock do: the kernel
  starts, and in every state that it gets to by any number of system calls, page faults and interrupts, with the
  other tasks running the same kernel while one sleeps, the buffer cache is in order with the buffers that the
  start made, their blocks are the same disjoint ones between the kernel image and 640 KB, no inode is in the
  table twice, and the root device is the one of the boot sector.\<close>

theorem kernel_keeps_order:
  assumes "nr_buffers s = 0" "length (task s) = NR_TASKS" "length (gdt s) = 256" "length (idt s) = 256"
    and "length (request s) = NR_REQUEST" "length (blk_dev s) = NR_BLK_DEV"
    and "length (inode_table s) = NR_INODE" "\<forall>i < NR_INODE. i_dev (inode_table s ! i) = 0"
    and "1024 \<le> unat end_addr" "unat end_addr + 36 \<le> 0x9FC00"
  shows "\<exists>k. start_kernel adr end_addr root s = Done () k \<and>
    (\<forall>m env t. others m env \<and> runs env m k t \<longrightarrow>
       cache_wf t \<and> nr_buffers t = nr_buffers k \<and> blocks_apart (bufs t) end_addr (nr_buffers t) \<and>
       inodes_unique t \<and> ROOT_DEV t = ucast root)"
proof -
  obtain k where k: "start_kernel adr end_addr root s = Done () k" "cache_wf k" "blocks_apart (bufs k) end_addr (nr_buffers k)"
    using start_kernel_runs [OF assms(1-6,9,10)] by blast
  note root = start_kernel_rooted [OF k(1)]
  have c: "cache_inv (nr_buffers k) k" using k(2) root(2) by (simp add: cache_inv_def)
  have i: "tables_inv (\<lambda>b. b_data (bufs k b)) root k"
    using assms(7,8) root empty_table_unique [of k] by (simp add: tables_inv_def)
  show ?thesis
  proof (intro exI [of _ k] conjI allI impI)
    fix m env t assume "others m env \<and> runs env m k t"
    then have r: "others m env" "runs env m k t" by auto
    from order.I_machine [OF r c] tables.I_machine [OF r i] k(3)
    show "cache_wf t" "nr_buffers t = nr_buffers k" "blocks_apart (bufs t) end_addr (nr_buffers t)" "inodes_unique t" "ROOT_DEV t = ucast root"
      using blocks_apart_same [of "bufs t" "bufs k"] by (auto simp: cache_inv_def tables_inv_def)
  qed (rule k(1))
qed

text \<open>One instance: after the start, a key is pressed, the clock ticks and a page is missing.\<close>

lemma boot_raw_inodes: "length (inode_table boot_raw) = 32" "i < 32 \<Longrightarrow> i_dev (inode_table boot_raw ! i) = 0"
  by (simp_all add: boot_raw_def boot_state.defs proc_state.defs fork_boot_def tty_state.defs tty_boot_def fs_state.defs
    fs_raw_def blk_state.defs null_inode_def)

theorem kernel_keeps_order_witness:
  "\<forall>adr m f e a. \<exists>k. start_kernel adr 0x20000 0x301 boot_raw = Done () k \<and>
     (let t = handle (\<lambda>s. s) m (Page_fault_at e a) (handle (\<lambda>s. s) m (Timer_tick f) (handle (\<lambda>s. s) m Key_pressed k))
      in cache_wf t \<and> blocks_apart (bufs t) 0x20000 (nr_buffers t) \<and> inodes_unique t)"
proof (intro allI)
  fix adr m f e a
  obtain k where k: "start_kernel adr 0x20000 0x301 boot_raw = Done () k"
    and order: "\<And>m env t. others m env \<and> runs env m k t \<longrightarrow>
       cache_wf t \<and> nr_buffers t = nr_buffers k \<and> blocks_apart (bufs t) 0x20000 (nr_buffers t) \<and>
       inodes_unique t \<and> ROOT_DEV t = ucast (0x301 :: u16)"
    using kernel_keeps_order [of boot_raw "0x20000" adr "0x301"] by (auto simp: boot_raw_tables boot_raw_inodes)
  let ?t = "handle (\<lambda>s. s) m (Page_fault_at e a) (handle (\<lambda>s. s) m (Timer_tick f) (handle (\<lambda>s. s) m Key_pressed k))"
  have "runs (\<lambda>s. s) m k ?t" by (blast intro: runs.intros kernel_step.intros)
  with order [of m "\<lambda>s. s" ?t] nobody [of m]
  have "cache_wf ?t" "blocks_apart (bufs ?t) 0x20000 (nr_buffers ?t)" "inodes_unique ?t" by blast+
  with k show "\<exists>k. start_kernel adr 0x20000 0x301 boot_raw = Done () k \<and>
     (let t = handle (\<lambda>s. s) m (Page_fault_at e a) (handle (\<lambda>s. s) m (Timer_tick f) (handle (\<lambda>s. s) m Key_pressed k))
      in cache_wf t \<and> blocks_apart (bufs t) 0x20000 (nr_buffers t) \<and> inodes_unique t)"
    unfolding Let_def by blast
qed

end
