(* ===== verification/Token.thy ===== *)
theory Token
  imports Text
begin

text \<open>
  \<open>strtok\<close> of \<^verbatim>\<open>include/string.h\<close>, with the pointer \<open>___strtok\<close> that it keeps between two
  calls as an argument and a result. Its two loops end at a terminator; \<open>None\<close> says that there is none.
\<close>

text \<open>From label 2: past the delimiters; \<open>Some None\<close> at the terminator.\<close>

partial_function (option) skip_delimiters :: "u32 \<Rightarrow> u32 \<Rightarrow> u32 \<Rightarrow> mem \<Rightarrow> u32 option option" where
  "skip_delimiters si ct edx m =
     (if m si = 0 then Some None
      else if among (m si) ct edx m then skip_delimiters (si + 1) ct edx m else Some (Some si))"

text \<open>From label 3: up to the next delimiter.\<close>

partial_function (option) find_delimiter :: "u32 \<Rightarrow> u32 \<Rightarrow> u32 \<Rightarrow> mem \<Rightarrow> u32 option option" where
  "find_delimiter si ct edx m =
     (if m si = 0 then Some None
      else if among (m si) ct edx m then Some (Some si) else find_delimiter (si + 1) ct edx m)"

definition strtok :: "u32 \<Rightarrow> u32 \<Rightarrow> u32 \<Rightarrow> mem \<Rightarrow> (u32 \<times> u32 \<times> mem) option" where
  "strtok s ct tok m =
     (if s = 0 \<and> tok = 0 then Some (0, 0, m)
      else
        let edx = strlen ct m
        in if edx = 0 then Some (0, 0, m)
           else case skip_delimiters (if s = 0 then tok else s) ct edx m of
               None \<Rightarrow> None
             | Some None \<Rightarrow> Some (0, 0, m)
             | Some (Some a) \<Rightarrow>
                 (case find_delimiter a ct edx m of
                    None \<Rightarrow> None
                  | Some None \<Rightarrow> Some (a, 0, m)
                  | Some (Some b) \<Rightarrow> let m = m(b := 0) in if m a = 0 then Some (0, 0, m) else Some (a, b + 1, m)))"

section \<open>Tokens of a string\<close>

lemma skip_delimiters_string:
  "cstring m p xs \<Longrightarrow> skip_delimiters p ct n m =
     Some (if dropWhile (\<lambda>c. among c ct n m) xs = [] then None else Some (p + of_nat (length (takeWhile (\<lambda>c. among c ct n m) xs))))"
proof (induction xs arbitrary: p)
  case Nil
  then show ?case by (subst skip_delimiters.simps) simp
next
  case (Cons x xs)
  then show ?case by (subst skip_delimiters.simps) (simp add: ac_simps)
qed

lemma find_delimiter_string:
  "cstring m p xs \<Longrightarrow> find_delimiter p ct n m =
     Some (if dropWhile (\<lambda>c. \<not> among c ct n m) xs = [] then None else Some (p + of_nat (length (takeWhile (\<lambda>c. \<not> among c ct n m) xs))))"
proof (induction xs arbitrary: p)
  case Nil
  then show ?case by (subst find_delimiter.simps) simp
next
  case (Cons x xs)
  then show ?case by (subst find_delimiter.simps) (simp add: ac_simps)
qed

lemma cstring_append: "cstring m p (xs @ ys) \<Longrightarrow> cstring m (p + of_nat (length xs)) ys"
proof (induction xs arbitrary: p)
  case (Cons x xs)
  then show ?case using Cons.IH [of "p + 1"] by (simp add: ac_simps)
qed simp

lemma cstring_cut:
  "cstring m p (xs @ c # ys) \<Longrightarrow> (\<And>i. i < length xs \<Longrightarrow> p + of_nat i \<noteq> b) \<Longrightarrow> b = p + of_nat (length xs) \<Longrightarrow> cstring (m(b := 0)) p xs"
proof (induction xs arbitrary: p)
  case (Cons x xs)
  have "p + 1 + of_nat i \<noteq> b" if "i < length xs" for i using Cons.prems(2) [of "Suc i"] that by (simp add: ac_simps)
  moreover have "p \<noteq> b" using Cons.prems(2) [of 0] by simp
  ultimately show ?case using Cons.IH [of "p + 1"] Cons.prems(1,3) by (simp add: ac_simps)
qed simp

text \<open>The first token of a string, and what follows the delimiter behind it.\<close>

definition first_token :: "(u8 \<Rightarrow> bool) \<Rightarrow> u8 list \<Rightarrow> u8 list" where
  "first_token P xs = takeWhile (\<lambda>c. \<not> P c) (dropWhile P xs)"

definition after_token :: "(u8 \<Rightarrow> bool) \<Rightarrow> u8 list \<Rightarrow> u8 list" where
  "after_token P xs = dropWhile (\<lambda>c. \<not> P c) (dropWhile P xs)"

lemma among_string: "cstring m ct ds \<Longrightarrow> length ds < ecx_max \<Longrightarrow> among c ct (strlen ct m) m \<longleftrightarrow> c \<in> set ds"
proof -
  have scan: "cstring m ct ds \<Longrightarrow> snd (snd (repne_scasb (length ds) c ct m)) \<longleftrightarrow> c \<in> set ds" for ct ds
    by (induction ds arbitrary: ct) auto
  assume d: "cstring m ct ds" "length ds < ecx_max"
  have "unat (strlen ct m) = length ds" using strlen_cstring [OF d] d(2) by (simp add: unat_of_nat_u32)
  then show ?thesis using scan [OF d(1)] by (simp add: among_def)
qed

lemma takeWhile_dropWhile_Nil: "takeWhile (\<lambda>c. \<not> P c) (dropWhile P xs) = [] \<longleftrightarrow> dropWhile P xs = []"
  by (induction xs) auto

lemma cstring_place:
  assumes "length xs < 2 ^ 32" "i < length xs" "j \<le> length xs" "i \<noteq> j"
  shows "(p :: u32) + of_nat i \<noteq> p + of_nat j"
proof
  assume "p + of_nat i = p + of_nat j"
  then have "unat (of_nat i :: u32) = unat (of_nat j :: u32)" by simp
  with assms show False by (simp add: unat_of_nat_u32)
qed

lemma strtok_from:
  assumes "p = (if s = 0 then tok else s)" "p \<noteq> 0" "cstring m ct ds" "ds \<noteq> []" "length ds < ecx_max" "n = strlen ct m"
  shows "strtok s ct tok m = (case skip_delimiters p ct n m of None \<Rightarrow> None | Some None \<Rightarrow> Some (0, 0, m)
      | Some (Some a) \<Rightarrow> (case find_delimiter a ct n m of None \<Rightarrow> None | Some None \<Rightarrow> Some (a, 0, m)
         | Some (Some b) \<Rightarrow> let m = m(b := 0) in if m a = 0 then Some (0, 0, m) else Some (a, b + 1, m)))"
proof -
  have "n \<noteq> 0" unfolding assms(6) using strlen_cstring [OF assms(3,5)] assms(4,5) unat_of_nat_u32 [of "length ds"]
    by (auto simp del: of_nat_eq_0_iff)
  then show ?thesis unfolding strtok_def assms(6) using assms(1,2) by (auto simp: Let_def)
qed

text \<open>Writing a terminator over a character of a string makes two strings of it.\<close>

lemma cstring_cut_at:
  assumes "cstring m a (ts @ c # zs)" "length (ts @ c # zs) < 2 ^ 32" "b = a + of_nat (length ts)"
  shows "cstring (m(b := 0)) a ts" "cstring (m(b := 0)) (b + 1) zs"
proof -
  have apart: "a + of_nat i \<noteq> b" if "i \<le> length (ts @ c # zs)" "i \<noteq> length ts" for i
    using cstring_place [OF assms(2), of "length ts" i a] that assms(3) by force
  show "cstring (m(b := 0)) a ts"
    by (rule cstring_cut [OF assms(1) _ assms(3)]) (use apart in auto)
  have "cstring m (a + of_nat (length (ts @ [c]))) zs" by (rule cstring_append) (use assms(1) in simp)
  then have z: "cstring m (b + 1) zs" by (simp add: assms(3) ac_simps)
  have "b + 1 + of_nat i \<noteq> b" if "i \<le> length zs" for i
    using apart [of "length ts + 1 + i"] that by (simp add: assms(3) ac_simps)
  then show "cstring (m(b := 0)) (b + 1) zs" using z cstring_cong [of zs "m(b := 0)" "b + 1" m "b + 1"] by simp
qed

text \<open>C19: strtok cuts the first token off a string: for a string at s (or, when s is null, at the place kept
  from the last call) and a non-empty set of delimiters, a string of delimiters only gives a null pointer and
  forgets the place. Otherwise the result points at the first character that is no delimiter and is, after the
  call, a string that holds exactly the characters up to the next delimiter; the place behind that delimiter
  is kept and holds the rest of the string, or null is kept when there is none, and no other byte changes.\<close>

theorem strtok_takes_token:
  assumes "p = (if s = 0 then tok else s)" "p \<noteq> 0" "cstring m p xs" "length xs < ecx_max"
    and "cstring m ct ds" "ds \<noteq> []" "length ds < ecx_max"
    and "ts = first_token (\<lambda>c. c \<in> set ds) xs" "rest = after_token (\<lambda>c. c \<in> set ds) xs"
    and "a = p + of_nat (length (takeWhile (\<lambda>c. c \<in> set ds) xs))"
  shows "if ts = [] then strtok s ct tok m = Some (0, 0, m)
    else \<exists>m'. strtok s ct tok m = Some (a, if rest = [] then 0 else a + of_nat (length ts) + 1, m') \<and> cstring m' a ts \<and>
      (rest \<noteq> [] \<longrightarrow> cstring m' (a + of_nat (length ts) + 1) (List.tl rest)) \<and> (\<forall>x. x \<noteq> a + of_nat (length ts) \<longrightarrow> m' x = m x)"
proof -
  let ?P = "\<lambda>c. c \<in> set ds" and ?n = "strlen ct m"
  let ?ys = "dropWhile ?P xs"
  have am: "among c ct ?n m = ?P c" for c by (rule among_string [OF assms(5,7)])
  note run = strtok_from [OF assms(1,2,5-7) refl]
  have ts: "ts = [] \<longleftrightarrow> ?ys = []" unfolding assms(8) first_token_def by (rule takeWhile_dropWhile_Nil)
  have skip: "skip_delimiters p ct ?n m = Some (if ?ys = [] then None else Some a)"
    using skip_delimiters_string [OF assms(3), of ct ?n] by (simp only: am assms(10))
  show ?thesis
  proof (cases "ts = []")
    case True
    then show ?thesis using run skip ts by simp
  next
    case False
    have split: "xs = takeWhile ?P xs @ ?ys" "?ys = ts @ rest" by (simp_all add: assms(8,9) first_token_def after_token_def)
    have ya: "cstring m a ?ys" unfolding assms(10) by (rule cstring_append) (use assms(3) split(1) in simp)
    let ?b = "a + of_nat (length ts)"
    have find: "find_delimiter a ct ?n m = Some (if rest = [] then None else Some ?b)"
      using find_delimiter_string [OF ya, of ct ?n] by (simp only: am assms(8,9) first_token_def after_token_def)
    have len: "length ?ys < 2 ^ 32" using assms(4) length_dropWhile_le [of ?P xs] by simp
    show ?thesis
    proof (cases rest)
      case Nil
      then have "strtok s ct tok m = Some (a, 0, m)" using False ts by (simp add: run skip find del: dropWhile_eq_Nil_conv)
      moreover have "cstring m a ts" using ya split(2) Nil by simp
      ultimately show ?thesis using False Nil by auto
    next
      case (Cons c zs)
      note cut = cstring_cut_at [OF ya [unfolded split(2) Cons] len [unfolded split(2) Cons] refl]
      have "(m(?b := 0)) a \<noteq> 0" using cut(1) False by (cases ts) auto
      then have "strtok s ct tok m = Some (a, ?b + 1, m(?b := 0))"
        using False ts Cons by (simp add: run skip find Let_def del: dropWhile_eq_Nil_conv)
      then show ?thesis using False Cons cut by (intro iffD2 [OF if_not_P] exI [of _ "m(?b := 0)"]) simp_all
    qed
  qed
qed

theorem strtok_takes_token_witness:
  "\<exists>m'. strtok 100 200 0 ((\<lambda>_. 0)(100 := 32, 101 := 97, 102 := 32, 103 := 98, 200 := 32)) = Some (101, 103, m') \<and> cstring m' 101 [97] \<and> cstring m' 103 [98]"
proof -
  let ?m = "(\<lambda>_. 0)(100 := 32, 101 := 97, 102 := 32, 103 := 98, 200 := 32) :: mem"
  have c: "cstring ?m 100 [32, 97, 32, 98]" "cstring ?m 200 [32]" by simp_all
  have "if [97 :: u8] = [] then strtok 100 200 0 ?m = Some (0, 0, ?m)
    else \<exists>m'. strtok 100 200 0 ?m = Some (101, if [32, 98 :: u8] = [] then 0 else 101 + of_nat (length [97 :: u8]) + 1, m') \<and> cstring m' 101 [97] \<and>
      ([32, 98 :: u8] \<noteq> [] \<longrightarrow> cstring m' (101 + of_nat (length [97 :: u8]) + 1) (List.tl [32, 98])) \<and>
      (\<forall>x. x \<noteq> 101 + of_nat (length [97 :: u8]) \<longrightarrow> m' x = ?m x)"
    by (rule strtok_takes_token [OF _ _ c(1) _ c(2)]) (simp_all add: first_token_def after_token_def)
  then show ?thesis by auto
qed

end
