(* ===== verification/Restore.thy ===== *)
theory Restore
  imports Entry
begin

text \<open>
  The way back from a signal handler, \<^verbatim>\<open>kernel/libc_restore.s\<close>: code of the library that runs as the user.
  The handler ends with \<open>ret\<close>, which pops the restorer off the frame that \<open>do_signal\<close> left; the restorer pops
  the rest and returns to the place where the program was interrupted. The registers of the user are those of
  the \<open>syscall_frame\<close>; the stack is read through the data segment, as \<open>ss\<close> and \<open>fs\<close> select the same one.
\<close>

section \<open>Instructions of the user\<close>

text \<open>
  \<open>popfl\<close> outside the kernel changes the arithmetic flags and TF, DF, OF and NT, and leaves the interrupt flag and the
  privilege level of ports alone.
\<close>

definition user_flags :: u32 where
  "user_flags = 0x4dd5"

definition set_user_flags :: "u32 \<Rightarrow> u32 \<Rightarrow> u32" where
  "set_user_flags old new = (new AND user_flags) OR (old AND NOT user_flags)"

definition pop :: "syscall_frame \<Rightarrow> 'a mm_state_scheme \<Rightarrow> ('a mm_state_scheme, u32 \<times> syscall_frame) outcome" where
  "pop r s = kbind (get_fs_long (sf_esp r) s) (\<lambda>v s. Done (v, r\<lparr>sf_esp := sf_esp r + 4\<rparr>) s)"

definition user_ret :: "syscall_frame \<Rightarrow> 'a mm_state_scheme \<Rightarrow> ('a mm_state_scheme, syscall_frame) outcome" where
  "user_ret r s = kbind (pop r s) (\<lambda>(v, r) s. Done (r\<lparr>sf_eip := v\<rparr>) s)"

definition drop_word :: "syscall_frame \<Rightarrow> syscall_frame" where
  "drop_word r = r\<lparr>sf_esp := sf_esp r + 4\<rparr>"

section \<open>The restorers\<close>

definition sig_restore :: "syscall_frame \<Rightarrow> 'a mm_state_scheme \<Rightarrow> ('a mm_state_scheme, syscall_frame) outcome" where
  "sig_restore r s =
     (let r = drop_word r in
      kbind (pop r s) (\<lambda>(v, r) s. let r = r\<lparr>sf_eax := v\<rparr> in
      kbind (pop r s) (\<lambda>(v, r) s. let r = r\<lparr>sf_ecx := v\<rparr> in
      kbind (pop r s) (\<lambda>(v, r) s. let r = r\<lparr>sf_edx := v\<rparr> in
      kbind (pop r s) (\<lambda>(v, r) s. let r = r\<lparr>sf_eflags := set_user_flags (sf_eflags r) v\<rparr> in
      user_ret r s)))))"

text \<open>The call that would set the mask again is commented out in the code: the mask is dropped from the stack.\<close>

definition masksig_restore :: "syscall_frame \<Rightarrow> 'a mm_state_scheme \<Rightarrow> ('a mm_state_scheme, syscall_frame) outcome" where
  "masksig_restore r s =
     (let r = drop_word r;
          r = drop_word r
      in
      kbind (pop r s) (\<lambda>(v, r) s. let r = r\<lparr>sf_eax := v\<rparr> in
      kbind (pop r s) (\<lambda>(v, r) s. let r = r\<lparr>sf_ecx := v\<rparr> in
      kbind (pop r s) (\<lambda>(v, r) s. let r = r\<lparr>sf_edx := v\<rparr> in
      kbind (pop r s) (\<lambda>(v, r) s. let r = r\<lparr>sf_eflags := set_user_flags (sf_eflags r) v\<rparr> in
      user_ret r s)))))"

section \<open>The frame is taken off\<close>

lemma set_user_flags_same: "old AND NOT user_flags = fl AND NOT user_flags \<Longrightarrow> set_user_flags old fl = fl"
  by (simp add: set_user_flags_def) (rule bit_word_eqI, auto simp: bit_simps)

text \<open>\<open>words_at a ws s\<close>: the words \<open>ws\<close> can be read one after the other from \<open>a\<close> on.\<close>

fun words_at :: "u32 \<Rightarrow> u32 list \<Rightarrow> 'a mm_state_scheme \<Rightarrow> bool" where
  "words_at a [] s = True"
| "words_at a (w # ws) s \<longleftrightarrow> get_fs_long a s = Done w s \<and> words_at (a + 4) ws s"

lemma words_at_iff: "words_at a ws s \<longleftrightarrow> (\<forall>i < length ws. get_fs_long (a + 4 * of_nat i) s = Done (ws ! i) s)"
proof (induction ws arbitrary: a)
  case (Cons w ws)
  have "(\<forall>i < length (w # ws). get_fs_long (a + 4 * of_nat i) s = Done ((w # ws) ! i) s) \<longleftrightarrow>
    get_fs_long a s = Done w s \<and> (\<forall>i < length ws. get_fs_long (a + 4 + 4 * of_nat i) s = Done (ws ! i) s)"
    by (simp add: All_less_Suc2 algebra_simps)
  with Cons.IH [of "a + 4"] show ?case by simp
qed simp

text \<open>The registers at the end of a handler: the ones a function saves are as they were.\<close>

definition handler_ends :: "syscall_frame \<Rightarrow> u32 \<Rightarrow> syscall_frame \<Rightarrow> bool" where
  "handler_ends r esp h \<longleftrightarrow> sf_esp h = esp \<and> sf_ebx h = sf_ebx r \<and> sf_fs h = sf_fs r \<and> sf_es h = sf_es r \<and> sf_ds h = sf_ds r \<and>
     sf_cs h = sf_cs r \<and> sf_ss h = sf_ss r \<and> sf_eflags h AND NOT user_flags = sf_eflags r AND NOT user_flags"

lemma frame_restored:
  assumes "words_at esp (handler_frame signr sa r blocked) w" "handler_ends r esp h"
    and "sf_esp r = esp + 4 * of_nat (length (handler_frame signr sa r blocked))"
  shows "\<exists>h'. user_ret h w = Done h' w \<and> sf_eip h' = sa_restorer sa \<and>
    (if sa_flags sa AND SA_NOMASK \<noteq> 0 then sig_restore h' w else masksig_restore h' w) = Done r w"
proof -
  have fl: "set_user_flags (sf_eflags h) (sf_eflags r) = sf_eflags r"
    using assms(2) by (intro set_user_flags_same) (simp add: handler_ends_def)
  let ?h = "h\<lparr>sf_esp := esp + 4, sf_eip := sa_restorer sa\<rparr>"
  have ret: "user_ret h w = Done ?h w"
    using assms(1,2) by (simp add: user_ret_def pop_def handler_frame_def handler_ends_def)
  have "(if sa_flags sa AND SA_NOMASK \<noteq> 0 then sig_restore ?h w else masksig_restore ?h w) = Done r w"
    using assms fl
    by (auto simp: sig_restore_def masksig_restore_def user_ret_def pop_def drop_word_def handler_frame_def handler_ends_def
        algebra_simps)
  with ret show ?thesis by (intro exI [of _ ?h]) simp
qed

section \<open>Properties\<close>

text \<open>C22: a signal handler returns to where its task was interrupted: after \<open>do_signal\<close> has entered the handler, however
  long it runs and whatever it does, if it leaves its frame alone and saves the registers that a function saves, its
  return goes to the restorer it was installed with, and the restorer of the library for its kind gets back every
  register of the interrupted program, the result of the system call, the flags and the stack pointer among
  them. The mask is not set back.\<close>

theorem handler_returns:
  assumes "1 \<le> sint signr" "sint signr \<le> 32" "k = unat (signr - 1)" "k < length (t_sigaction (cur s))"
    and "sa = t_sigaction (cur s) ! k" "sa_handler sa \<noteq> 0" "sa_handler sa \<noteq> 1"
    and "fr = handler_frame signr sa r (t_blocked (cur s))" "esp = sf_esp r - 4 * of_nat (length fr)"
    and "verify_area esp (4 * of_nat (length fr))
      (if sa_flags sa AND SA_ONESHOT \<noteq> 0 then sigupd k (\<lambda>sa. sa\<lparr>sa_handler := 0\<rparr>) s else s) = Done () u"
    and "span esp (4 * length fr) u"
  shows "\<exists>t. do_signal signr r s = Done (r\<lparr>sf_eip := sa_handler sa, sf_esp := esp\<rparr>) t \<and> words_at esp fr t \<and>
    t_blocked (cur t) = t_blocked (cur s) OR sa_mask sa \<and>
    (\<forall>w h. words_at esp fr w \<and> handler_ends r esp h \<longrightarrow>
      (\<exists>h'. user_ret h w = Done h' w \<and> sf_eip h' = sa_restorer sa \<and>
        (if sa_flags sa AND SA_NOMASK \<noteq> 0 then sig_restore h' w else masksig_restore h' w) = Done r w))"
proof -
  from do_signal_enters [OF assms] obtain t where t: "do_signal signr r s = Done (r\<lparr>sf_eip := sa_handler sa, sf_esp := esp\<rparr>) t"
    "words_at esp fr t" "t_blocked (cur t) = t_blocked (cur s) OR sa_mask sa" unfolding words_at_iff by blast
  have "sf_esp r = esp + 4 * of_nat (length fr)" by (simp add: assms(9))
  with t frame_restored [where signr = signr and sa = sa and r = r and blocked = "t_blocked (cur s)" and esp = esp] show ?thesis
    unfolding assms(8) by blast
qed

text \<open>The handler of \<open>with_handler\<close> returns at once, with 7 in \<open>eax\<close>.\<close>

theorem handler_returns_witness:
  "\<exists>t h. do_signal 2 call_frame with_handler = Done (call_frame\<lparr>sf_eip := 0x1000, sf_esp := 0x27e0\<rparr>) t \<and>
     user_ret (call_frame\<lparr>sf_eip := 0x1010, sf_esp := 0x27e0, sf_eax := 7\<rparr>) t = Done h t \<and> sf_eip h = 0x1100 \<and>
     masksig_restore h t = Done call_frame t"
proof -
  let ?sa = "\<lparr>sa_handler = 0x1000, sa_mask = 2, sa_flags = 0, sa_restorer = 0x1100\<rparr>"
  let ?fr = "[0x1100, 2, 0, 3, 0, 0, 0x202, 0x500] :: u32 list"
  let ?h = "call_frame\<lparr>sf_eip := 0x1010, sf_esp := 0x27e0, sf_eax := 7\<rparr>"
  have v: "verify_area 0x27e0 32 with_handler = Done () with_handler"
    by (rule one_page_verify [OF with_handler_simps(3)]) simp_all
  have "\<exists>t. do_signal 2 call_frame with_handler = Done (call_frame\<lparr>sf_eip := sa_handler ?sa, sf_esp := 0x27e0\<rparr>) t \<and>
    words_at 0x27e0 ?fr t \<and> t_blocked (cur t) = t_blocked (cur with_handler) OR sa_mask ?sa \<and>
    (\<forall>w h. words_at 0x27e0 ?fr w \<and> handler_ends call_frame 0x27e0 h \<longrightarrow>
      (\<exists>h'. user_ret h w = Done h' w \<and> sf_eip h' = sa_restorer ?sa \<and>
        (if sa_flags ?sa AND SA_NOMASK \<noteq> 0 then sig_restore h' w else masksig_restore h' w) = Done call_frame w))"
  proof (rule handler_returns)
    show "span 0x27e0 (4 * length ?fr) with_handler" by (rule one_page_span [OF with_handler_simps(3)]) simp_all
    show "verify_area 0x27e0 (4 * of_nat (length ?fr)) (if sa_flags ?sa AND SA_ONESHOT \<noteq> 0
        then sigupd 1 (\<lambda>sa. sa\<lparr>sa_handler := 0\<rparr>) with_handler else with_handler) = Done () with_handler"
      using v by simp
  qed (simp_all add: with_handler_simps call_frame_def handler_frame_def)
  then obtain t where t: "do_signal 2 call_frame with_handler = Done (call_frame\<lparr>sf_eip := 0x1000, sf_esp := 0x27e0\<rparr>) t"
    "words_at 0x27e0 ?fr t" and resume: "\<And>h. handler_ends call_frame 0x27e0 h \<Longrightarrow>
      \<exists>h'. user_ret h t = Done h' t \<and> sf_eip h' = 0x1100 \<and> masksig_restore h' t = Done call_frame t" by auto
  have "handler_ends call_frame 0x27e0 ?h" by (simp add: handler_ends_def call_frame_def)
  from resume [OF this] t(1) show ?thesis by blast
qed

end
