(* ===== verification/Userland.thy ===== *)
theory Userland
  imports Restore
begin

text \<open>
  The library of user programs, \<^verbatim>\<open>lib/\<close>: the functions that the call macros make, \<open>open\<close>, \<open>wait\<close>, \<open>_exit\<close>,
  \<open>getchar\<close> and \<open>getline\<close>. They reach the kernel through its gate with the registers \<open>f\<close> of the program, and the
  memory of their task through its pages like any access of the user. When a signal is delivered on the return of a call
  the program is not followed further; \<open>errno\<close> is an argument and a result.
\<close>

section \<open>Accesses of the user\<close>

text \<open>A write of the user, unlike one of the kernel, faults on a page that is read only.\<close>

definition store_byte :: "u8 \<Rightarrow> u32 \<Rightarrow> 'a mm_state_scheme \<Rightarrow> ('a mm_state_scheme, unit) outcome" where
  "store_byte v a s =
     kbind (fs_access 6 a s) (\<lambda>_ s.
     kbind (if pmem s (pte_addr (linear a s) s) AND 2 = 0 then do_wp_page 7 (linear a s) s else Done () s) (\<lambda>_ s.
       Done () (s\<lparr>pmem := set_byte (phys (linear a s) s) v (pmem s)\<rparr>)))"

section \<open>Calls\<close>

definition library_function :: "('a proc_state_scheme \<Rightarrow> 'a proc_state_scheme) \<Rightarrow> mem \<Rightarrow> more_regs \<Rightarrow> syscall_frame
    \<Rightarrow> library_call \<Rightarrow> u32 \<Rightarrow> u32 \<Rightarrow> u32 \<Rightarrow> u32 \<Rightarrow> 'a proc_state_scheme \<Rightarrow> ('a proc_state_scheme, u32 \<times> u32) outcome" where
  "library_function env m x f c ebx ecx edx errno s =
     kbind (system_call env m x (f\<lparr>sf_eax := of_nat (NR c), sf_ebx := ebx, sf_ecx := ecx, sf_edx := edx\<rparr>) s) (\<lambda>f' s.
       if sf_eip f' \<noteq> sf_eip f then Blocked s else Done (library_result (sf_eax f') errno) s)"

definition exit_call :: "('a proc_state_scheme \<Rightarrow> 'a proc_state_scheme) \<Rightarrow> mem \<Rightarrow> more_regs \<Rightarrow> syscall_frame \<Rightarrow> u32
    \<Rightarrow> 'a proc_state_scheme \<Rightarrow> ('a proc_state_scheme, syscall_frame) outcome" where
  "exit_call env m x f exit_code s = system_call env m x (f\<lparr>sf_eax := of_nat (NR C_exit), sf_ebx := exit_code\<rparr>) s"

definition open_file :: "('a proc_state_scheme \<Rightarrow> 'a proc_state_scheme) \<Rightarrow> mem \<Rightarrow> more_regs \<Rightarrow> syscall_frame
    \<Rightarrow> u32 \<Rightarrow> u32 \<Rightarrow> u32 \<Rightarrow> u32 \<Rightarrow> 'a proc_state_scheme \<Rightarrow> ('a proc_state_scheme, u32 \<times> u32) outcome" where
  "open_file env m x f filename flag mode = library_function env m x f C_open filename flag mode"

definition close_file :: "('a proc_state_scheme \<Rightarrow> 'a proc_state_scheme) \<Rightarrow> mem \<Rightarrow> more_regs \<Rightarrow> syscall_frame
    \<Rightarrow> u32 \<Rightarrow> u32 \<Rightarrow> 'a proc_state_scheme \<Rightarrow> ('a proc_state_scheme, u32 \<times> u32) outcome" where
  "close_file env m x f fd = library_function env m x f C_close fd (sf_ecx f) (sf_edx f)"

definition dup_file :: "('a proc_state_scheme \<Rightarrow> 'a proc_state_scheme) \<Rightarrow> mem \<Rightarrow> more_regs \<Rightarrow> syscall_frame
    \<Rightarrow> u32 \<Rightarrow> u32 \<Rightarrow> 'a proc_state_scheme \<Rightarrow> ('a proc_state_scheme, u32 \<times> u32) outcome" where
  "dup_file env m x f fd = library_function env m x f C_dup fd (sf_ecx f) (sf_edx f)"

definition read_bytes :: "('a proc_state_scheme \<Rightarrow> 'a proc_state_scheme) \<Rightarrow> mem \<Rightarrow> more_regs \<Rightarrow> syscall_frame
    \<Rightarrow> u32 \<Rightarrow> u32 \<Rightarrow> u32 \<Rightarrow> u32 \<Rightarrow> 'a proc_state_scheme \<Rightarrow> ('a proc_state_scheme, u32 \<times> u32) outcome" where
  "read_bytes env m x f fd buf nr = library_function env m x f C_read fd buf nr"

definition wait_child :: "('a proc_state_scheme \<Rightarrow> 'a proc_state_scheme) \<Rightarrow> mem \<Rightarrow> more_regs \<Rightarrow> syscall_frame
    \<Rightarrow> u32 \<Rightarrow> u32 \<Rightarrow> 'a proc_state_scheme \<Rightarrow> ('a proc_state_scheme, u32 \<times> u32) outcome" where
  "wait_child env m x f wait_stat = library_function env m x f C_waitpid (-1) wait_stat 0"

section \<open>Reading a line\<close>

text \<open>\<open>buf\<close> is the address of the local \<open>_buf\<close>. The result of the call is not looked at.\<close>

definition read_char :: "('a proc_state_scheme \<Rightarrow> 'a proc_state_scheme) \<Rightarrow> mem \<Rightarrow> more_regs \<Rightarrow> syscall_frame
    \<Rightarrow> u32 \<Rightarrow> u32 \<Rightarrow> 'a proc_state_scheme \<Rightarrow> ('a proc_state_scheme, u8 \<times> u32) outcome" where
  "read_char env m x f buf errno s =
     kbind (library_function env m x f C_user_tty_read 0 buf 1 errno s) (\<lambda>(_, errno) s.
     kbind (get_fs_byte buf s) (\<lambda>ch s. Done (ch, errno) s))"

text \<open>
  \<open>getline\<close>: \<open>ch\<close> has no value before the first round, so the value it happens to have is an argument. Nothing in
  the code ends the loop but the terminal; it is followed for \<open>n\<close> rounds.
\<close>

primrec getline_loop :: "nat \<Rightarrow> ('a proc_state_scheme \<Rightarrow> 'a proc_state_scheme) \<Rightarrow> mem \<Rightarrow> more_regs \<Rightarrow> syscall_frame
    \<Rightarrow> u32 \<Rightarrow> u8 \<Rightarrow> u32 \<Rightarrow> u32 \<Rightarrow> u32 \<Rightarrow> 'a proc_state_scheme \<Rightarrow> ('a proc_state_scheme, u32 \<times> u32) outcome" where
  "getline_loop 0 env m x f buf ch p len errno s = Blocked s"
| "getline_loop (Suc n) env m x f buf ch p len errno s =
     (if ch \<noteq> 10 \<and> ch \<noteq> -1
      then kbind (read_char env m x f buf errno s) (\<lambda>(ch, errno) s.
           kbind (store_byte ch p s) (\<lambda>_ s. getline_loop n env m x f buf ch (p + 1) (len + 1) errno s))
      else kbind (store_byte 0 (p - 1) s) (\<lambda>_ s. Done (len - 1, errno) s))"

definition getline :: "nat \<Rightarrow> ('a proc_state_scheme \<Rightarrow> 'a proc_state_scheme) \<Rightarrow> mem \<Rightarrow> more_regs \<Rightarrow> syscall_frame
    \<Rightarrow> u32 \<Rightarrow> u8 \<Rightarrow> u32 \<Rightarrow> u32 \<Rightarrow> 'a proc_state_scheme \<Rightarrow> ('a proc_state_scheme, u32 \<times> u32) outcome" where
  "getline n env m x f buf ch str errno s = getline_loop n env m x f buf ch str 0 errno s"

section \<open>One byte through the gate\<close>

text \<open>A task that goes on after a call: it is running, has time left and no signal.\<close>

definition undisturbed :: "'a sched_state_scheme \<Rightarrow> bool" where
  "undisturbed s \<longleftrightarrow> t_state (cur s) = TASK_RUNNING \<and> t_counter (cur s) \<noteq> 0 \<and> t_signal (cur s) = 0"

definition set_line :: "tty_queue \<Rightarrow> 'a tty_state_scheme \<Rightarrow> 'a tty_state_scheme" where
  "set_line q s = ttyupd 0 (\<lambda>t. t\<lparr>tt_buffer := q\<rparr>) s"

definition line :: "'a tty_state_scheme \<Rightarrow> tty_queue" where
  "line s = tt_buffer (tty_table s ! 0)"

lemma no_signal: "t_signal (cur s) = 0 \<Longrightarrow> pending_signal s = None"
  by (simp add: pending_signal_def find_None_iff)

lemma undisturbed_returns:
  "undisturbed s \<Longrightarrow> kbind (reschedule env s) (\<lambda>_ s. ret_from_syscall f s) = Done f s"
  by (simp add: undisturbed_def reschedule_def ret_from_syscall_def no_signal)

lemma set_line_simps [simp]:
  "pmem (set_line q s) = pmem s" "tmem (set_line q s) = tmem s" "current (set_line q s) = current s" "task (set_line q s) = task s"
  "length (tty_table (set_line q s)) = length (tty_table s)" "0 < length (tty_table s) \<Longrightarrow> line (set_line q s) = q"
  "line (t\<lparr>pmem := p\<rparr>) = line t" "(set_line q t)\<lparr>pmem := p\<rparr> = set_line q (t\<lparr>pmem := p\<rparr>)"
  by (simp_all add: set_line_def line_def ttyupd_def)

lemma set_line_twice [simp]: "set_line r (set_line q s) = set_line r s"
  by (cases "tty_table s") (simp_all add: set_line_def ttyupd_def)

lemma set_line_view: "same_view s (set_line q s)"
  by (simp add: same_view_def)

lemma tty_read_one:
  assumes "0 < length (tty_table s)" "\<not> EMPTY (line s)" "GETCH (line s) = (c, q)" "readable buf s"
  shows "tty_read env 0 buf 1 s = Done 1 (set_line q (s\<lparr>pmem := set_byte (phys (linear buf s) s) c (pmem s)\<rparr>))"
proof -
  have r: "readable buf (set_line q s)" using assms(4) by (simp add: same_view_walk [OF set_line_view])
  have "put_fs_byte c buf (set_line q s) = Done () (set_line q (s\<lparr>pmem := set_byte (phys (linear buf s) s) c (pmem s)\<rparr>))"
    by (simp add: put_fs_byte_readable [OF r] same_view_walk [OF set_line_view])
  then show ?thesis using assms(1-3) by (simp add: tty_read_def line_def set_line_def)
qed

lemma read_char_taken:
  assumes "undisturbed s" "0 < length (tty_table s)" "\<not> EMPTY (line s)" "GETCH (line s) = (c, q)" "span a n s" "0 < n"
    and t: "t = set_line q (s\<lparr>pmem := set_byte (phys (linear a s) s) c (pmem s)\<rparr>)"
  shows "read_char env m x f a errno s = Done (c, errno) t" "wrote a n 0 [c] s t" "undisturbed t"
proof -
  have r: "readable a s" using assms(5,6) by (auto simp: span_def dest: spec [of _ 0])
  note one = wrote_one [OF assms(5,6), of c]
  have v: "same_view (s\<lparr>pmem := set_byte (phys (linear a s) s) c (pmem s)\<rparr>) t"
    by (simp add: t same_view_def)
  show w: "wrote a n 0 [c] s t"
    by (rule wrote_view [OF _ _ v, of _ _ _ _ s]) (use one(2) in \<open>simp_all add: same_view_def\<close>)
  show u: "undisturbed t" using assms(1) by (simp add: t undisturbed_def)
  let ?f = "f\<lparr>sf_eax := 73, sf_ebx := 0, sf_ecx := a, sf_edx := 1\<rparr>"
  have "call_routine env m x ?f (sys_call_table ! 73) s = Done 1 t"
    using tty_read_one [OF assms(2-4) r, of env] by (simp add: sys_call_table_def call_routine_def Let_def t)
  then have "system_call env m x ?f s = Done (?f\<lparr>sf_eax := 1\<rparr>) t"
    by (simp add: system_call_def undisturbed_returns [OF u])
  then have call: "library_function env m x f C_user_tty_read 0 a 1 errno s = Done (1, errno) t"
    by (simp add: library_function_def library_result_def)
  have "span a n t" using w by (simp add: wrote_def)
  then have "readable a t" using assms(6) by (auto simp: span_def dest: spec [of _ 0])
  moreover have "phys (linear a t) t = phys (linear a s) s" using w assms(6) by (auto simp: wrote_def dest: spec [of _ 0])
  then have "byte_at (pmem t) (phys (linear a t) t) = c" using w by (simp add: wrote_def)
  ultimately show "read_char env m x f a errno s = Done (c, errno) t"
    by (simp add: read_char_def call get_fs_byte_readable)
qed

section \<open>The memory of the line\<close>

definition writable :: "u32 \<Rightarrow> 'a mm_state_scheme \<Rightarrow> bool" where
  "writable b s \<longleftrightarrow> pmem s (pte_addr (linear b s) s) AND 2 \<noteq> 0"

text \<open>An area of the user that can be written, and one byte of it changed.\<close>

definition own_area :: "u32 \<Rightarrow> nat \<Rightarrow> 'a mm_state_scheme \<Rightarrow> bool" where
  "own_area a n s \<longleftrightarrow> span a n s \<and> (\<forall>i < n. writable (a + of_nat i) s)"

definition poke :: "u32 \<Rightarrow> u8 \<Rightarrow> 'a mm_state_scheme \<Rightarrow> 'a mm_state_scheme" where
  "poke b v s = s\<lparr>pmem := set_byte (phys (linear b s) s) v (pmem s)\<rparr>"

definition byte_of :: "u32 \<Rightarrow> nat \<Rightarrow> 'a mm_state_scheme \<Rightarrow> u32" where
  "byte_of a i s = phys (linear (a + of_nat i) s) s"

lemma writable_put:
  assumes "off_walk b c s"
  shows "writable c (poke b v s) = writable c s"
proof -
  have "pte_addr (linear c s) s \<noteq> phys (linear b s) s AND NOT 3"
    using assms unfolding off_walk_def Let_def by metis
  then have "pmem (poke b v s) (pte_addr (linear c s) s) = pmem s (pte_addr (linear c s) s)"
    by (simp add: poke_def set_byte_word)
  moreover have "pte_addr (linear c (poke b v s)) (poke b v s) = pte_addr (linear c s) s"
    using walk_put [OF assms, of v] by (simp add: poke_def)
  ultimately show ?thesis by (simp add: writable_def)
qed

lemma poke_area:
  assumes "own_area a n s" "k < n"
  shows "own_area a n (poke (a + of_nat k) v s)" "i < n \<Longrightarrow> byte_of a i (poke (a + of_nat k) v s) = byte_of a i s"
    "byte_at (pmem (poke (a + of_nat k) v s)) y = (if y = byte_of a k s then v else byte_at (pmem s) y)"
proof -
  have sp: "span a n s" using assms(1) by (simp add: own_area_def)
  note put = span_put [OF sp assms(2) refl, where v = v]
  have "writable (a + of_nat i) (poke (a + of_nat k) v s) = writable (a + of_nat i) s" if "i < n" for i
    by (rule writable_put) (use sp assms(2) that in \<open>simp add: span_def\<close>)
  with put(1) assms(1) show "own_area a n (poke (a + of_nat k) v s)" by (simp add: own_area_def poke_def)
  show "i < n \<Longrightarrow> byte_of a i (poke (a + of_nat k) v s) = byte_of a i s" using put(2) [of i] by (simp add: byte_of_def poke_def)
  show "byte_at (pmem (poke (a + of_nat k) v s)) y = (if y = byte_of a k s then v else byte_at (pmem s) y)"
    by (simp add: poke_def byte_of_def byte_at_other)
qed

lemma area_inj: "own_area a n s \<Longrightarrow> i < n \<Longrightarrow> j < n \<Longrightarrow> byte_of a i s = byte_of a j s \<longleftrightarrow> i = j"
  unfolding own_area_def span_def byte_of_def by blast

lemma store_byte_own: "own_area a n s \<Longrightarrow> k < n \<Longrightarrow> store_byte v (a + of_nat k) s = Done () (poke (a + of_nat k) v s)"
  by (simp add: own_area_def span_def store_byte_def readable_def fs_access_present writable_def poke_def)

lemma area_line [simp]:
  "own_area a n (set_line q s) = own_area a n s" "byte_of a i (set_line q s) = byte_of a i s"
  "poke b v (set_line q s) = set_line q (poke b v s)" "undisturbed (set_line q s) = undisturbed s"
  "undisturbed (poke b v t) = undisturbed t" "line (poke b v s) = line s" "tty_table (poke b v s) = tty_table s"
  by (simp_all add: own_area_def writable_def byte_of_def poke_def same_view_walk [OF set_line_view] undisturbed_def line_def)

section \<open>The loop\<close>

lemma one_round:
  assumes "own_area a n s" "undisturbed s" "0 < length (tty_table s)" "ring_wf (line s)" "ring_contents (line s) = c # cs"
    and "0 < k" "k < n" "ch \<noteq> 10" "ch \<noteq> -1"
  shows "\<exists>q. ring_wf q \<and> ring_contents q = cs \<and>
    getline_loop (Suc r) env m x f a ch (a + of_nat k) len errno s =
      getline_loop r env m x f a c (a + of_nat (k + 1)) (len + 1) errno (set_line q (poke (a + of_nat k) c (poke a c s)))"
proof -
  obtain q where q: "GETCH (line s) = (c, q)" "ring_wf q" "ring_contents q = cs"
    using macro.contents_get [OF assms(4,5)] macro.wf_get [OF assms(4)] by (cases "GETCH (line s)") auto
  have "\<not> EMPTY (line s)" using macro.is_mt_iff [OF assms(4)] assms(5) by simp
  from read_char_taken(1) [OF assms(2,3) this q(1) _ _ refl, of a n env m x f errno] assms(1,7)
  have rd: "read_char env m x f a errno s = Done (c, errno) (set_line q (poke a c s))"
    by (simp add: own_area_def poke_def)
  have "own_area a n (set_line q (poke a c s))" using poke_area(1) [OF assms(1), where k = 0 and v = c] assms(7) by simp
  note st = store_byte_own [OF this assms(7), of c]
  show ?thesis using assms(8,9) q(2,3) by (intro exI [of _ q]) (simp add: rd st ac_simps)
qed

text \<open>What a line leaves in the memory: the bytes \<open>xs\<close> from the \<open>k\<close>th on, and nothing else but the local buffer.\<close>

definition line_stored :: "u32 \<Rightarrow> nat \<Rightarrow> nat \<Rightarrow> u8 list \<Rightarrow> 'a mm_state_scheme \<Rightarrow> 'a mm_state_scheme \<Rightarrow> bool" where
  "line_stored a n k xs s t \<longleftrightarrow> own_area a n t \<and> (\<forall>i < n. byte_of a i t = byte_of a i s) \<and>
     (\<forall>i < length xs. byte_at (pmem t) (byte_of a (k + i) s) = xs ! i) \<and>
     (\<forall>y. y \<noteq> byte_of a 0 s \<and> (\<forall>i < length xs. y \<noteq> byte_of a (k + i) s) \<longrightarrow> byte_at (pmem t) y = byte_at (pmem s) y)"

lemma line_stored_Cons:
  assumes "own_area a n s" "0 < k" "k + length xs < n" "line_stored a n (k + 1) xs (poke (a + of_nat k) c (poke a c s)) t"
  shows "line_stored a n k (c # xs) s t"
proof -
  let ?s1 = "poke a c s" and ?s2 = "poke (a + of_nat k) c (poke a c s)"
  have k: "0 < n" "k < n" using assms(2,3) by simp_all
  note p1 = poke_area [OF assms(1) k(1), where v = c, simplified]
  note p2 = poke_area [OF p1(1) k(2), where v = c]
  have b: "byte_of a i ?s2 = byte_of a i s" if "i < n" for i using p1(2) p2(2) that by simp
  have mem: "byte_at (pmem ?s2) y = (if y = byte_of a k s \<or> y = byte_of a 0 s then c else byte_at (pmem s) y)" for y
    unfolding p2(3) p1(3) p1(2) [OF k(2)] by simp
  have t: "byte_at (pmem t) (byte_of a (k + 1 + i) s) = xs ! i" if "i < length xs" for i
  proof -
    have "byte_at (pmem t) (byte_of a (k + 1 + i) ?s2) = xs ! i" using assms(4) that unfolding line_stored_def by blast
    moreover have "k + 1 + i < n" using that assms(3) by simp
    note b [OF this]
    ultimately show ?thesis by (simp only:)
  qed
  have other: "byte_at (pmem t) y = byte_at (pmem ?s2) y"
    if "y \<noteq> byte_of a 0 s" "\<forall>i < length xs. y \<noteq> byte_of a (k + 1 + i) s" for y
  proof -
    have "y \<noteq> byte_of a 0 ?s2" "\<forall>i < length xs. y \<noteq> byte_of a (k + 1 + i) ?s2" using that b k(1) assms(3) by simp_all
    with assms(4) show ?thesis unfolding line_stored_def by blast
  qed
  have "byte_of a k s \<noteq> byte_of a 0 s" "\<forall>i < length xs. byte_of a k s \<noteq> byte_of a (k + 1 + i) s"
    using area_inj [OF assms(1)] assms(2,3) by simp_all
  from other [OF this] have "byte_at (pmem t) (byte_of a k s) = c" by (simp add: mem)
  then have "byte_at (pmem t) (byte_of a (k + i) s) = (c # xs) ! i" if "i < length (c # xs)" for i
    using that t by (cases i) simp_all
  moreover have "byte_at (pmem t) y = byte_at (pmem s) y"
    if y: "y \<noteq> byte_of a 0 s" "\<forall>i < length (c # xs). y \<noteq> byte_of a (k + i) s" for y
  proof -
    have "y \<noteq> byte_of a k s" "\<forall>i < length xs. y \<noteq> byte_of a (k + 1 + i) s"
      using spec [OF y(2), of 0] y(2) by auto
    with other [OF y(1)] y(1) show ?thesis by (simp add: mem)
  qed
  moreover have "own_area a n t" "\<forall>i < n. byte_of a i t = byte_of a i s" using assms(4) b by (simp_all add: line_stored_def)
  ultimately show ?thesis unfolding line_stored_def by blast
qed

lemma getline_loop_reads:
  "own_area a n s \<Longrightarrow> undisturbed s \<Longrightarrow> 0 < length (tty_table s) \<Longrightarrow> ring_wf (line s) \<Longrightarrow>
    ring_contents (line s) = xs @ e # rest \<Longrightarrow> e = 10 \<or> e = -1 \<Longrightarrow> \<forall>c \<in> set xs. c \<noteq> 10 \<and> c \<noteq> -1 \<Longrightarrow>
    0 < k \<Longrightarrow> k + length xs < n \<Longrightarrow> ch \<noteq> 10 \<Longrightarrow> ch \<noteq> -1 \<Longrightarrow>
    \<exists>t. getline_loop (length xs + 2 + r) env m x f a ch (a + of_nat k) len errno s = Done (len + of_nat (length xs), errno) t \<and>
      ring_wf (line t) \<and> ring_contents (line t) = rest \<and> line_stored a n k (xs @ [0]) s t"
proof (induction xs arbitrary: k ch len s)
  case Nil
  have k: "0 < n" "k < n" using Nil.prems by simp_all
  have c: "ring_contents (line s) = e # rest" using Nil.prems(5) by simp
  from one_round [OF Nil.prems(1-4) c Nil.prems(8) k(2) Nil.prems(10,11), where r = "Suc r"] obtain q where q: "ring_wf q" "ring_contents q = rest"
    "getline_loop (Suc (Suc r)) env m x f a ch (a + of_nat k) len errno s =
      getline_loop (Suc r) env m x f a e (a + of_nat (k + 1)) (len + 1) errno (set_line q (poke (a + of_nat k) e (poke a e s)))" by blast
  let ?s2 = "poke (a + of_nat k) e (poke a e s)"
  let ?t = "set_line q (poke (a + of_nat k) 0 ?s2)"
  have o1: "own_area a n (poke a e s)" using poke_area(1) [OF Nil.prems(1) k(1), where v = e] by simp
  have o2: "own_area a n ?s2" by (rule poke_area(1) [OF o1 k(2)])
  have "store_byte 0 (a + of_nat k) (set_line q ?s2) = Done () ?t"
    using store_byte_own [of a n "set_line q ?s2" k 0] o2 k by simp
  then have run: "getline_loop (Suc (Suc r)) env m x f a ch (a + of_nat k) len errno s = Done (len, errno) ?t"
    unfolding q(3) using Nil.prems(6) by (auto simp: add.assoc [symmetric])
  note p0 = poke_area [OF Nil.prems(1) k(1), where v = e, simplified]
  have b: "byte_of a i ?s2 = byte_of a i s" if "i < n" for i
    using poke_area(2) [OF o1 k(2) that] p0(2) [OF that] by simp
  have "byte_at (pmem ?t) y = (if y = byte_of a k s then 0 else if y = byte_of a 0 s then e else byte_at (pmem s) y)" for y
    unfolding set_line_simps poke_area(3) [OF o2 k(2)] poke_area(3) [OF o1 k(2)] p0(3) b [OF k(2)] p0(2) [OF k(2)] by simp
  then have "line_stored a n k [0] s ?t"
    unfolding line_stored_def using poke_area(1,2) [OF o2 k(2), where v = 0] b by simp
  then show ?case using run q(1,2) Nil.prems(3) by (intro exI [of _ ?t]) simp
next
  case (Cons c xs)
  have k: "0 < n" "k < n" "0 < k + 1" "k + 1 + length xs < n" using Cons.prems by simp_all
  have c: "ring_contents (line s) = c # xs @ e # rest" using Cons.prems(5) by simp
  from one_round [OF Cons.prems(1-4) c Cons.prems(8) k(2) Cons.prems(10,11), where r = "length xs + 2 + r"] obtain q where q: "ring_wf q" "ring_contents q = xs @ e # rest"
    "getline_loop (Suc (length xs + 2 + r)) env m x f a ch (a + of_nat k) len errno s =
      getline_loop (length xs + 2 + r) env m x f a c (a + of_nat (k + 1)) (len + 1) errno (set_line q (poke (a + of_nat k) c (poke a c s)))" by blast
  let ?s2 = "poke (a + of_nat k) c (poke a c s)"
  have o1: "own_area a n (poke a c s)" using poke_area(1) [OF Cons.prems(1) k(1), where v = c] by simp
  have o2: "own_area a n ?s2" by (rule poke_area(1) [OF o1 k(2)])
  have "\<exists>t. getline_loop (length xs + 2 + r) env m x f a c (a + of_nat (k + 1)) (len + 1) errno (set_line q ?s2) =
      Done (len + 1 + of_nat (length xs), errno) t \<and>
    ring_wf (line t) \<and> ring_contents (line t) = rest \<and> line_stored a n (k + 1) (xs @ [0]) (set_line q ?s2) t"
    by (rule Cons.IH) (use Cons.prems q o2 k in \<open>simp_all del: getline_loop.simps\<close>)
  then obtain t where t: "getline_loop (length xs + 2 + r) env m x f a c (a + of_nat (k + 1)) (len + 1) errno (set_line q ?s2) =
      Done (len + 1 + of_nat (length xs), errno) t"
    "ring_wf (line t)" "ring_contents (line t) = rest" "line_stored a n (k + 1) (xs @ [0]) ?s2 t"
    by (auto simp: line_stored_def simp del: getline_loop.simps)
  have "line_stored a n k ((c # xs) @ [0]) s t"
    using line_stored_Cons [OF Cons.prems(1,8) _ t(4)] k(4) by simp
  moreover have "getline_loop (length (c # xs) + 2 + r) env m x f a ch (a + of_nat k) len errno s =
      Done (len + of_nat (length (c # xs)), errno) t"
    using q(3) t(1) by (simp del: getline_loop.simps add: ac_simps)
  ultimately show ?case using t(2,3) by blast
qed

section \<open>Properties\<close>

text \<open>C38: \<open>getline\<close> returns the line typed: from a terminal whose line buffer holds a line up to a newline, or the byte
  -1, and anything behind it, a task that is running, has time left, no signal and writable memory of its own for the
  string and the local buffer gets the bytes of the line, a
  terminator in the place of the newline and the length of the line; what lies behind the line stays in the
  buffer, and besides the string and the first byte of the local buffer no byte of memory changes. This needs that
  the variable \<open>ch\<close>, tested before anything is stored in it, does not happen to be a newline or -1.\<close>

theorem getline_reads_line:
  assumes "own_area a n s" "undisturbed s" "0 < length (tty_table s)" "ring_wf (line s)" "ring_contents (line s) = xs @ e # rest"
    and "e = 10 \<or> e = -1" "\<forall>c \<in> set xs. c \<noteq> 10 \<and> c \<noteq> -1" "0 < k" "k + length xs < n" "str = a + of_nat k"
    and "ch \<noteq> 10" "ch \<noteq> -1" "length xs + 2 \<le> turns_left"
  shows "\<exists>t. getline turns_left env m x f a ch str errno s = Done (of_nat (length xs), errno) t \<and>
    user_bytes str (length xs + 1) t = xs @ [0] \<and> ring_contents (line t) = rest \<and>
    (\<forall>y. y \<notin> insert (phys (linear a s) s) (frame_bytes str (length xs + 1) s) \<longrightarrow> byte_at (pmem t) y = byte_at (pmem s) y)"
proof -
  obtain r where r: "turns_left = length xs + 2 + r" using assms(13) le_Suc_ex by blast
  obtain t where t: "getline turns_left env m x f a ch str errno s = Done (of_nat (length xs), errno) t"
    "ring_contents (line t) = rest" "line_stored a n k (xs @ [0]) s t"
    using getline_loop_reads [OF assms(1-9,11,12), of r env m x f 0 errno] unfolding getline_def r assms(10) by auto
  have at: "phys (linear (str + of_nat i) u) u = byte_of a (k + i) u" for i and u :: "'a proc_state_scheme"
    by (simp add: byte_of_def assms(10) add.assoc)
  have "user_bytes str (length xs + 1) t ! i = (xs @ [0]) ! i" if "i < length xs + 1" for i
  proof -
    have "k + i < n" using that assms(9) by simp
    then have "byte_of a (k + i) t = byte_of a (k + i) s" using t(3) by (simp add: line_stored_def)
    moreover have "byte_at (pmem t) (byte_of a (k + i) s) = (xs @ [0]) ! i" using t(3) that unfolding line_stored_def by simp
    ultimately show ?thesis using that by (simp add: user_bytes_nth at)
  qed
  then have "user_bytes str (length xs + 1) t = xs @ [0]" by (intro nth_equalityI) simp_all
  moreover have "byte_at (pmem t) y = byte_at (pmem s) y"
    if "y \<notin> insert (phys (linear a s) s) (frame_bytes str (length xs + 1) s)" for y
  proof -
    have "y \<noteq> byte_of a 0 s" using that by (simp add: byte_of_def)
    moreover have "\<forall>i < length (xs @ [0]). y \<noteq> byte_of a (k + i) s" using that by (auto simp: frame_bytes_def at)
    ultimately show ?thesis using t(3) unfolding line_stored_def by blast
  qed
  ultimately show ?thesis using t(1,2) by blast
qed

text \<open>The task \<open>caller\<close> reads a line of two letters, with another letter behind it.\<close>

definition typed :: proc_state where
  "typed = set_line (fold PUTCH [111, 107, 10, 120] empty_queue) caller"

lemma caller_tty: "tty_table caller = tty_table tty_boot"
  by (simp add: caller_def fork_boot_def tty_state.defs proc_state.defs)

lemma typed_ready: "undisturbed typed" "0 < length (tty_table typed)" "ring_wf (line typed)"
  "ring_contents (line typed) = [111, 107] @ 10 # [120]"
proof -
  have l: "line typed = fold PUTCH [111, 107, 10, 120] empty_queue" by (simp add: typed_def caller_tty)
  show "undisturbed typed" by (simp add: typed_def) (simp add: undisturbed_def caller_simps)
  show "0 < length (tty_table typed)" by (simp add: typed_def caller_tty)
  show "ring_wf (line typed)" unfolding l by (rule macro.wf_put_all [OF empty_queue_wf(1)])
  show "ring_contents (line typed) = [111, 107] @ 10 # [120]"
    unfolding l by (subst macro.contents_put_all) (simp_all add: empty_queue_wf)
qed

lemma one_page_area:
  assumes "one_page s" "0x2000 \<le> unat a" "unat a + n \<le> 0x3000"
  shows "own_area a n s"
proof -
  have "writable (a + of_nat i) s" if "i < n" for i
  proof -
    have "unat (a + of_nat i) = unat a + i"
      using that assms(2,3) by (subst unat_add_lem [THEN iffD1]) (simp_all add: unat_of_nat take_bit_eq_mod)
    with that assms(2,3) have "pte_addr (linear (a + of_nat i) s) s = 0x5008"
      using one_page_walk(1,2) [OF assms(1), of "a + of_nat i"] by simp
    then show ?thesis using assms(1) by (simp add: writable_def one_page_def)
  qed
  with one_page_span [OF assms] show ?thesis by (simp add: own_area_def)
qed

theorem getline_reads_line_witness:
  "\<forall>env m x f. \<exists>t. getline 4 env m x f 0x2100 0 0x2101 0 typed = Done (2, 0) t \<and> user_bytes 0x2101 3 t = [111, 107, 0]"
proof (intro allI)
  fix env m x f
  have "own_area 0x2100 16 typed" unfolding typed_def area_line by (rule one_page_area [OF caller_page]) simp_all
  from getline_reads_line [OF this typed_ready, of 1 "0x2101" 0 4 env m x f 0]
  show "\<exists>t. getline 4 env m x f 0x2100 0 0x2101 0 typed = Done (2, 0) t \<and> user_bytes 0x2101 3 t = [111, 107, 0]"
    by (auto simp: numeral_3_eq_3)
qed

end
