(* ===== verification/Reading.thy ===== *)
theory Reading
  imports Sync
begin

text \<open>
  A block read from the disk, from \<open>bread\<close> down to the ports of the controller and back: the cache
  (\<^verbatim>\<open>fs/buffer.c\<close>) takes a buffer, the block layer (\<^verbatim>\<open>kernel/blk_drv/ll_rw_blk.c\<close>) makes a
  request of it, the driver (\<^verbatim>\<open>kernel/blk_drv/hd.c\<close>) sends the command, the task sleeps
  (\<^verbatim>\<open>kernel/sched.c\<close>) and the two interrupts of the disk bring the data and wake it.
\<close>

section \<open>One sleep\<close>

text \<open>What the rest of the machine sees when a task has gone to sleep: only task structures, the
  current task and the queue have changed; and what the sleeper sees when it runs again.\<close>

lemma sleep_on_once:
  assumes "task_table_wf s" "slices_sane s" "0 < patience s" "current s \<noteq> init_task s"
  obtains m p where "sleep_on env (Some q) s = Done () (requeue q (waitq s q)
    ((env (s\<lparr>tmem := m, current := p, patience := patience s - 1, waitq := (waitq s)(q := current s)\<rparr>))
      \<lparr>current := current s, patience := patience s - 1\<rparr>))"
proof -
  let ?s2 = "tupd (current s) (\<lambda>t. t\<lparr>t_state := TASK_UNINTERRUPTIBLE\<rparr>) (s\<lparr>waitq := (waitq s)(q := current s)\<rparr>)"
  let ?s0 = "?s2\<lparr>patience := patience s - 1\<rparr>" and ?c = "current s"
  have "\<exists>t. schedule env ?s2 = Done () t" by (rule schedule_returns) (use assms in simp_all)
  then obtain t where t: "schedule env ?s2 = Done () t" by blast
  then obtain n s2 where l: "sched_loop (signal_scan ?s0) = Some (n, s2)" and sw: "t = switch_to env n s2"
    using assms(3) by (auto simp: schedule_def Let_def tupd_def split: option.splits)
  have "t_state (tmem (signal_scan ?s0) ?c) = 2"
    unfolding signal_scan_def using assms(1) by (intro for_tasks_state) (auto simp: scan_task_sleeping tupd_def)
  with l assms(1) have st: "t_state (tmem s2 ?c) = 2"
    using sched_loop_uninterruptible [OF l, of ?c] by (simp add: signal_scan_def)
  have "only_tmem ?s0 s2" using signal_scan_only_tmem sched_loop_only_tmem [OF l] by (auto intro: only_tmem_trans)
  then have s2: "s2 = ?s0\<lparr>tmem := tmem s2\<rparr>" unfolding only_tmem_def .
  have eqs: "task s2 = task s" "current s2 = ?c" "patience s2 = patience s - 1" by (subst s2, simp add: tupd_def)+
  from sched_loop_choice [OF l] st eqs(1) assms(1,4) have ne: "task s2 ! n \<noteq> ?c"
    by (auto simp: runnable_def task_table_wf_def)
  have "s2\<lparr>current := task s ! n\<rparr> = s\<lparr>tmem := tmem s2, current := task s ! n, patience := patience s - 1, waitq := (waitq s)(q := ?c)\<rparr>"
    by (subst s2) (simp add: tupd_def)
  then have "t = (env (s\<lparr>tmem := tmem s2, current := task s ! n, patience := patience s - 1, waitq := (waitq s)(q := ?c)\<rparr>))
      \<lparr>current := ?c, patience := patience s - 1\<rparr>"
    using ne by (simp add: sw switch_to_def eqs)
  with t assms(4) that show thesis by (simp add: sleep_on_def Let_def)
qed

section \<open>The buffer taken\<close>

text \<open>Taking a buffer changes the cache only, and leaves every buffer its memory.\<close>

definition cache_only :: "'a fs_state_scheme \<Rightarrow> 'a fs_state_scheme \<Rightarrow> bool" where
  "cache_only s t \<longleftrightarrow> t = s\<lparr>bufs := bufs t, hash_table := hash_table t, free_list := free_list t\<rparr> \<and>
     (\<forall>c. b_data (bufs t c) = b_data (bufs s c))"

lemma cache_only_trans: "cache_only s t \<Longrightarrow> cache_only t u \<Longrightarrow> cache_only s u"
proof -
  assume st: "cache_only s t" and tu: "cache_only t u"
  from st have t: "t = s\<lparr>bufs := bufs t, hash_table := hash_table t, free_list := free_list t\<rparr>" by (simp add: cache_only_def)
  have "u = t\<lparr>bufs := bufs u, hash_table := hash_table u, free_list := free_list u\<rparr>" using tu by (simp add: cache_only_def)
  also have "\<dots> = s\<lparr>bufs := bufs u, hash_table := hash_table u, free_list := free_list u\<rparr>" by (subst t) simp
  finally show ?thesis using st tu by (simp add: cache_only_def)
qed

lemma cache_only_refl [simp]: "cache_only s s"
  by (simp add: cache_only_def)

lemma cache_only_step [simp]:
  "cache_only s t \<Longrightarrow> cache_only s (t\<lparr>free_list := f\<rparr>)"
  "cache_only s t \<Longrightarrow> cache_only s (set_hash k p t)"
  "cache_only s t \<Longrightarrow> (\<And>h. b_data (g h) = b_data h) \<Longrightarrow> cache_only s (bupd b g t)"
  by (erule cache_only_trans, simp add: cache_only_def set_hash_def bupd_def)+

lemma cache_only_hash:
  "cache_only s (remove_from_hash b s)" "cache_only s (put_in_hash b s)"
  unfolding remove_from_hash_def put_in_hash_def Let_def
  by (auto split: option.split)

lemma cache_only_list:
  "remove_from_free_list b s = Done u t \<Longrightarrow> cache_only s t"
  "put_on_free_list b s = Done u t \<Longrightarrow> cache_only s t"
  unfolding remove_from_free_list_def put_on_free_list_def Let_def panic_def
  by (auto split: option.splits if_splits)

lemma take_buffer_cache_only:
  assumes "take_buffer b dev block s = Done r t"
  shows "cache_only s t"
proof -
  let ?s = "bupd b (\<lambda>h. h\<lparr>b_count := 1, b_dirt := 0, b_uptodate := 0\<rparr>) s"
  from assms obtain x y u v where u: "remove_from_free_list b (remove_from_hash b ?s) = Done x u"
    and v: "put_on_free_list b (bupd b (\<lambda>h. h\<lparr>b_dev := ucast dev, b_blocknr := block\<rparr>) u) = Done y v"
    and t: "t = put_in_hash b v"
    by (auto simp: take_buffer_def remove_from_queues_def insert_into_queues_def kbind_Done_iff)
  have "cache_only s ?s" by simp
  also note cache_only_hash(1) [of ?s b]
  finally (cache_only_trans) have "cache_only s u" using cache_only_list(1) [OF u] by (rule cache_only_trans)
  moreover have "cache_only u (bupd b (\<lambda>h. h\<lparr>b_dev := ucast dev, b_blocknr := block\<rparr>) u)" by simp
  ultimately have "cache_only s v" using cache_only_list(2) [OF v] by (blast intro: cache_only_trans)
  then show ?thesis using cache_only_hash(2) [of v b] unfolding t by (rule cache_only_trans)
qed

section \<open>From the request to the data\<close>

lemma free_request_found: "i < n \<Longrightarrow> sint (r_dev (rs ! i)) < 0 \<Longrightarrow> \<exists>r. free_request rs n = Some r"
  by (induction n) (auto simp: less_Suc_eq)

lemma ll_rw_block_starts:
  assumes "MAJOR (ucast (b_dev (bufs u b))) = 3" "3 < length (blk_dev u)" "request_fn (blk_dev u ! 3) = Some Do_hd_request"
    and "CURRENT u = None" "length (request u) = 32" "i < 32" "sint (r_dev (request u ! i)) < 0"
    and "b_lock (bufs u b) = 0" "b_uptodate (bufs u b) = 0"
  obtains r w where "r < 32" "ll_rw_block env READ b u = do_hd_request w" "CURRENT w = Some r"
    "request w = (request u)[r := \<lparr>r_dev = ucast (b_dev (bufs u b)), r_cmd = READ, r_errors = 0,
       r_sector = push_bit 1 (b_blocknr (bufs u b)), r_nr_sectors = 2, r_buffer = b_data (bufs u b), r_bh = Some b, r_next = None\<rparr>]"
    "bufs w = (bufs u)(b := (bufs u b)\<lparr>b_lock := 1, b_dirt := 0\<rparr>)"
    "waitq w = (waitq u)(Req_waiting r := 0)" "length (blk_dev w) = length (blk_dev u)"
    "w = u\<lparr>request := request w, bufs := bufs w, blk_dev := blk_dev w, waitq := waitq w\<rparr>"
proof -
  let ?l = "bupd b (\<lambda>h. h\<lparr>b_lock := 1\<rparr>) u"
  obtain r where r: "free_request (request u) 32 = Some r" using free_request_found [OF assms(6,7)] by blast
  from free_request_Some [OF this] have r32: "r < 32" by simp
  let ?f = "rupd r (\<lambda>q. q\<lparr>r_next := None\<rparr>) (fill_request r READ b ?l)"
  let ?w = "dupd 3 (\<lambda>d. d\<lparr>current_request := Some r\<rparr>) (bupd b (\<lambda>h. h\<lparr>b_dirt := 0\<rparr>) ?f)"
  have lock: "lock_buffer env b u = Done () ?l" using assms(8) by (simp add: lock_buffer_def wait_while.simps)
  have get: "get_request env READ False b ?l = Done (Some r) ?l" using r by (subst get_request.simps) simp
  have fill: "request (fill_request r READ b ?l) ! r = \<lparr>r_dev = ucast (b_dev (bufs u b)), r_cmd = READ, r_errors = 0,
       r_sector = push_bit 1 (b_blocknr (bufs u b)), r_nr_sectors = 2, r_buffer = b_data (bufs u b), r_bh = Some b, r_next = None\<rparr>"
    "blk_dev (fill_request r READ b ?l) = blk_dev u"
    "bufs (fill_request r READ b ?l) = bufs ?l"
    using r32 assms(5) by (simp_all add: fill_request_def Let_def)
  have add: "add_request 3 r (fill_request r READ b ?l) = do_hd_request ?w"
    using assms(2,3,4,5) r32 by (simp add: add_request_def Let_def fill(1,2))
      (simp add: fill_request_def Let_def)
  have "ll_rw_block env READ b u = do_hd_request ?w"
    using assms(1,3,9) by (simp add: ll_rw_block_def Let_def make_request_def start_request_def lock get add)
  then show thesis
  proof (rule that [OF r32])
    show "CURRENT ?w = Some r" using assms(2) by (simp add: fill(2))
  qed (use assms(5) r32 in \<open>simp_all add: fill_request_def Let_def bupd_def rupd_def dupd_def\<close>)
qed

text \<open>What happens while the task sleeps: the disk interrupts twice.\<close>

definition two_disk_interrupts :: "'a blk_state_scheme \<Rightarrow> 'a blk_state_scheme" where
  "two_disk_interrupts s = final (read_intr (final (read_intr s)))"

lemma two_disk_interrupts_inv: "cache_inv n s \<Longrightarrow> cache_inv n (two_disk_interrupts s)"
  by (simp add: two_disk_interrupts_def cache.I_read_intr)

lemma requeue_simps [simp]:
  "bufs (requeue q p s) = bufs s" "bmem (requeue q p s) = bmem s" "outs (requeue q p s) = outs s"
  "blk_dev (requeue q p s) = blk_dev s" "current (requeue q p s) = current s"
  "t_state (tmem s c) = TASK_RUNNING \<Longrightarrow> t_state (tmem (requeue q p s) c) = TASK_RUNNING"
  by (simp_all add: requeue_def Let_def tupd_def)

lemma sleep_until_read:
  assumes "CURRENT v = Some r" "r < length (request v)" "3 < length (blk_dev v)" "r_nr_sectors (request v ! r) = 2"
    and "r_bh (request v ! r) = Some b" "r_buffer (request v ! r) = buf" "r_next (request v ! r) = None"
    and "good_status (in_val v (in_time v) HD_STATUS)" "good_status (in_val v (in_time v + 257) HD_STATUS)"
    and "b_lock (bufs v b) \<noteq> 0" "task_table_wf v" "slices_sane v" "0 < patience v" "current v \<noteq> init_task v" "current v \<noteq> 0"
  obtains t where "wait_on_buffer two_disk_interrupts b v = Done () t"
    "bufs t = (bufs v)(b := (bufs v b)\<lparr>b_uptodate := 1, b_lock := 0\<rparr>)" "outs t = outs v"
    "\<forall>i < 1024. bmem t (buf + of_nat i) = disk_byte v i" "\<forall>a. 1024 \<le> unat (a - buf) \<longrightarrow> bmem t a = bmem v a"
    "CURRENT t = None" "current t = current v" "t_state (cur t) = TASK_RUNNING"
proof -
  obtain m p where sleep: "sleep_on two_disk_interrupts (Some (B_wait b)) v = Done () (requeue (B_wait b) (waitq v (B_wait b))
    ((two_disk_interrupts (v\<lparr>tmem := m, current := p, patience := patience v - 1, waitq := (waitq v)(B_wait b := current v)\<rparr>))
      \<lparr>current := current v, patience := patience v - 1\<rparr>))"
    by (rule sleep_on_once [OF assms(11-14)])
  obtain y where y: "y = v\<lparr>tmem := m, current := p, patience := patience v - 1, waitq := (waitq v)(B_wait b := current v)\<rparr>" by simp
  have c: "CURRENT y = Some r" "r < length (request y)" "3 < length (blk_dev y)"
    "good_status (in_val y (in_time y) HD_STATUS)" "good_status (in_val y (in_time y + 257) HD_STATUS)"
    "r_nr_sectors (request y ! r) = 2" "r_bh (request y ! r) = Some b" "buf = r_buffer (request y ! r)"
    using assms(1-9) by (simp_all add: y)
  from two_sectors_come [OF c] obtain s1 t where st: "read_intr y = Done () s1" "CURRENT t = r_next (request y ! r)"
      "CURRENT t = None \<longrightarrow> read_intr s1 = Done () t" "outs t = outs y"
      "\<forall>i < 1024. bmem t (buf + of_nat i) = disk_byte y i" "\<forall>a. 1024 \<le> unat (a - buf) \<longrightarrow> bmem t a = bmem y a"
      "bufs t = (bufs y)(b := (bufs y b)\<lparr>b_uptodate := 1, b_lock := 0\<rparr>)"
      "\<forall>p. tmem t p = (if p \<noteq> 0 \<and> p \<in> {waitq y (B_wait b), waitq y (Req_waiting r), waitq y Wait_for_request}
        then (tmem y p)\<lparr>t_state := TASK_RUNNING\<rparr> else tmem y p)"
    by (elim exE conjE) (rule that)
  have idle: "CURRENT t = None" using st(2) assms(7) by (simp add: y)
  then have two: "two_disk_interrupts y = t" using st(1,3) by (simp add: two_disk_interrupts_def)
  let ?t = "requeue (B_wait b) (waitq v (B_wait b)) (t\<lparr>current := current v, patience := patience v - 1\<rparr>)"
  have "t_state (tmem t (current v)) = TASK_RUNNING" using spec [OF st(8), of "current v"] assms(15) by (simp add: y)
  then have run: "t_state (cur ?t) = TASK_RUNNING" by simp
  have "wait_while two_disk_interrupts (\<lambda>s. b_lock (bufs s b) \<noteq> 0) (B_wait b) ?t = Done () ?t"
    by (subst wait_while.simps) (simp add: st(7))
  then have "wait_on_buffer two_disk_interrupts b v = Done () ?t"
    unfolding wait_on_buffer_def using assms(10) sleep [folded y, unfolded two] by (subst wait_while.simps) simp
  then show thesis
    by (rule that [OF _ _ _ _ _ _ _ run]) (use st(4-7) idle in \<open>simp_all add: y disk_byte_def\<close>)
qed

section \<open>Properties\<close>

text \<open>C25: bread of a block of a disk partition that no buffer holds reads it from the disk. When some buffer is free, clean
  and unlocked, the disk idle with a free request, and the caller not task 0, then bread takes such a buffer, sends the
  controller, once it is ready, the command to read two sectors from the place that denotes sector twice the
  block number of the partition, and sleeps; after the two interrupts of the disk the caller runs again and bread
  returns that buffer: it carries the device and the block, has one user, is valid, clean and unlocked, and its 1024
  bytes are the ones the disk delivered, in order. No other byte of memory and no other buffer's block changes,
  the queue of the disk is empty again and the cache in order.\<close>

theorem bread_reads_the_disk:
  assumes "cache_inv n s" "is_dev dev" "MAJOR dev = 3" "\<forall>x < n. \<not> (b_dev (bufs s x) = ucast dev \<and> b_blocknr (bufs s x) = block)"
    and "\<exists>x < n. b_count (bufs s x) = 0 \<and> b_dirt (bufs s x) = 0 \<and> b_lock (bufs s x) = 0"
    and "3 < length (blk_dev s)" "request_fn (blk_dev s ! 3) = Some Do_hd_request" "CURRENT s = None"
    and "length (request s) = 32" "\<exists>i < 32. sint (r_dev (request s ! i)) < 0"
    and "m = unat (MINOR dev)" "m < 5 * NR_HD s" "NR_HD s \<le> 2" "part = hd_parts s ! m" "disk = hd_info s ! (m div 5)"
    and "2 * unat block + 2 \<le> unat (nr_sects part)"
    and "unat (start_sect part) + unat (nr_sects part) \<le> unat (head disk) * unat (sect disk) * unat (cyl disk)"
    and "unat (head disk) \<le> 16" "unat (sect disk) \<le> 255" "unat (cyl disk) \<le> 65536"
    and "k < 99999" "\<forall>j < k. busy (in_val s (in_time s + j) HD_STATUS)" "\<not> busy (in_val s (in_time s + k) HD_STATUS)"
    and "z = in_time s + k + 1" "good_status (in_val s z HD_STATUS)" "good_status (in_val s (z + 257) HD_STATUS)"
    and "task_table_wf s" "slices_sane s" "0 < patience s" "current s \<noteq> init_task s" "current s \<noteq> 0"
  shows "\<exists>b t sec hd_nr c. bread two_disk_interrupts dev block s = Done (Some b) t \<and> cache_inv n t \<and> b < n \<and>
    b_count (bufs s b) = 0 \<and> b_dirt (bufs s b) = 0 \<and> b_lock (bufs s b) = 0 \<and>
    b_dev (bufs t b) = ucast dev \<and> b_blocknr (bufs t b) = block \<and> b_count (bufs t b) = 1 \<and>
    b_uptodate (bufs t b) = 1 \<and> b_dirt (bufs t b) = 0 \<and> b_lock (bufs t b) = 0 \<and> b_data (bufs t b) = b_data (bufs s b) \<and>
    (\<forall>i < 1024. bmem t (b_data (bufs s b) + of_nat i) = disk_byte (s\<lparr>in_time := z\<rparr>) i) \<and>
    (\<forall>a. 1024 \<le> unat (a - b_data (bufs s b)) \<longrightarrow> bmem t a = bmem s a) \<and>
    (\<forall>x. x \<noteq> b \<longrightarrow> b_dev (bufs t x) = b_dev (bufs s x) \<and> b_blocknr (bufs t x) = b_blocknr (bufs s x)) \<and>
    outs t = outs s @ [(0x3f6, ucast (ctl disk)), (0x1f1, ucast (signed_drop_bit 2 (wpcom disk))),
      (0x1f2, 2), (0x1f3, of_nat sec), (0x1f4, of_nat c), (0x1f5, of_nat (c div 256)),
      (0x1f6, of_nat (0xA0 + 16 * (m div 5) + hd_nr)), (0x1f7, 0x20)] \<and>
    1 \<le> sec \<and> sec \<le> unat (sect disk) \<and> hd_nr < unat (head disk) \<and> c < unat (cyl disk) \<and>
    unat (start_sect part) + 2 * unat block = (c * unat (head disk) + hd_nr) * unat (sect disk) + (sec - 1) \<and>
    CURRENT t = None \<and> current t = current s \<and> t_state (cur t) = TASK_RUNNING"
proof -
  have wf: "cache_wf s" "nr_buffers s = n" using assms(1) by (simp_all add: cache_inv_def)
  have miss: "\<forall>c \<in> hashed (bufs s) (nr_buffers s). \<not> (b_dev (bufs s c) = ucast dev \<and> b_blocknr (bufs s c) = block)"
    using assms(4) by (simp add: hashed_def wf(2))
  obtain c0 where c0: "c0 < nr_buffers s" "b_count (bufs s c0) = 0" "b_dirt (bufs s c0) = 0" "b_lock (bufs s c0) = 0"
    using assms(5) wf(2) by blast
  from getblk_fresh [OF wf(1) assms(2) miss c0, of "sync_dev two_disk_interrupts" two_disk_interrupts] obtain b u
    where u: "getblk_with (sync_dev two_disk_interrupts) two_disk_interrupts dev block s = Done b u"
      "take_buffer b dev block s = Done b u" "b < nr_buffers s"
      "b_count (bufs s b) = 0" "b_dirt (bufs s b) = 0" "b_lock (bufs s b) = 0" by blast
  from take_buffer_moves [OF wf(1) u(3) miss] u(2,6) have ub: "b_lock (bufs u b) = 0" "b_dev (bufs u b) = ucast dev"
    "b_blocknr (bufs u b) = block" "b_count (bufs u b) = 1" "b_dirt (bufs u b) = 0" "b_uptodate (bufs u b) = 0"
    "\<forall>c. c \<noteq> b \<longrightarrow> b_dev (bufs u c) = b_dev (bufs s c) \<and> b_blocknr (bufs u c) = b_blocknr (bufs s c)" by auto
  from take_buffer_cache_only [OF u(2)] have us: "u = s\<lparr>bufs := bufs u, hash_table := hash_table u, free_list := free_list u\<rparr>"
    and ud: "b_data (bufs u b) = b_data (bufs s b)" by (simp_all add: cache_only_def)
  have is0: "in_time u = in_time s" "in_val u = in_val s" "hd_parts u = hd_parts s" "hd_info u = hd_info s" "NR_HD u = NR_HD s"
    "request u = request s" "blk_dev u = blk_dev s" "outs u = outs s" "bmem u = bmem s" "tmem u = tmem s" "task u = task s"
    "patience u = patience s" "current u = current s" "init_task u = init_task s" by (subst us, simp)+
  obtain i where i: "i < 32" "sint (r_dev (request u ! i)) < 0" using assms(10) is0(6) by auto
  have dv: "ucast (b_dev (bufs u b)) = dev" unfolding ub(2) by (rule assms(2))
  have st0: "MAJOR (ucast (b_dev (bufs u b))) = 3" "3 < length (blk_dev u)" "request_fn (blk_dev u ! 3) = Some Do_hd_request"
    "CURRENT u = None" "length (request u) = 32"
    using assms(3,6-9) by (simp_all add: dv is0)
  obtain r w where w: "r < 32" "ll_rw_block two_disk_interrupts READ b u = do_hd_request w" "CURRENT w = Some r"
    "request w = (request u)[r := \<lparr>r_dev = ucast (b_dev (bufs u b)), r_cmd = READ, r_errors = 0,
       r_sector = push_bit 1 (b_blocknr (bufs u b)), r_nr_sectors = 2, r_buffer = b_data (bufs u b), r_bh = Some b, r_next = None\<rparr>]"
    "bufs w = (bufs u)(b := (bufs u b)\<lparr>b_lock := 1, b_dirt := 0\<rparr>)"
    "waitq w = (waitq u)(Req_waiting r := 0)" "length (blk_dev w) = length (blk_dev u)"
    "w = u\<lparr>request := request w, bufs := bufs w, blk_dev := blk_dev w, waitq := waitq w\<rparr>"
    by (rule ll_rw_block_starts [OF st0 i ub(1,6)])
  have is1: "in_time w = in_time s" "in_val w = in_val s" "hd_parts w = hd_parts s" "hd_info w = hd_info s" "NR_HD w = NR_HD s"
    "outs w = outs s" "bmem w = bmem s" "tmem w = tmem s" "task w = task s" "patience w = patience s" "current w = current s"
    "init_task w = init_task s" by (subst w(8), simp add: is0)+
  obtain q where q: "q = request w ! r" by simp
  have qf: "r < length (request w)" "r_dev q = dev" "r_cmd q = READ" "r_sector q = push_bit 1 block" "r_nr_sectors q = 2"
    "r_buffer q = b_data (bufs s b)" "r_bh q = Some b" "r_next q = None"
    using w(1) st0(5) dv ub(3) ud by (simp_all add: q w(4))
  have sec2: "unat (r_sector q) = 2 * unat block"
  proof -
    have "unat (nr_sects part) < 2 ^ 32" using unsigned_less [of "nr_sects part"] by simp
    then have "2 * unat block < 2 ^ 32" using assms(16) by linarith
    then show ?thesis by (simp add: qf(4) push_bit_eq_mult unat_word_ariths)
  qed
  have lk: "\<forall>b. r_bh q = Some b \<longrightarrow> b_lock (bufs w b) \<noteq> 0" by (simp add: qf(7) w(5))
  have "\<exists>sec hd_nr c. do_hd_request w = Done () (w\<lparr>do_hd := Some Read_intr, in_time := in_time w + k + 1,
      outs := outs w @ [(0x3f6, ucast (ctl disk)), (0x1f1, ucast (signed_drop_bit 2 (wpcom disk))),
        (0x1f2, ucast (r_nr_sectors q)), (0x1f3, of_nat sec), (0x1f4, of_nat c), (0x1f5, of_nat (c div 256)),
        (0x1f6, of_nat (0xA0 + 16 * (m div 5) + hd_nr)), (0x1f7, 0x20)]\<rparr>) \<and>
    1 \<le> sec \<and> sec \<le> unat (sect disk) \<and> hd_nr < unat (head disk) \<and> c < unat (cyl disk) \<and>
    unat (start_sect part) + unat (r_sector q) = (c * unat (head disk) + hd_nr) * unat (sect disk) + (sec - 1)"
    by (rule do_hd_request_sends [OF w(3) qf(1) q _ qf(3) lk _ _ _ _ _ _ assms(17-20,21)])
      (use assms(3,11-16,22,23) sec2 in \<open>simp_all add: qf(2) is1\<close>)
  then obtain sec hd_nr c v where v: "do_hd_request w = Done () v" "v = w\<lparr>do_hd := Some Read_intr, in_time := in_time w + k + 1,
      outs := outs w @ [(0x3f6, ucast (ctl disk)), (0x1f1, ucast (signed_drop_bit 2 (wpcom disk))),
        (0x1f2, ucast (r_nr_sectors q)), (0x1f3, of_nat sec), (0x1f4, of_nat c), (0x1f5, of_nat (c div 256)),
        (0x1f6, of_nat (0xA0 + 16 * (m div 5) + hd_nr)), (0x1f7, 0x20)]\<rparr>"
    and place: "1 \<le> sec" "sec \<le> unat (sect disk)" "hd_nr < unat (head disk)" "c < unat (cyl disk)"
      "unat (start_sect part) + 2 * unat block = (c * unat (head disk) + hd_nr) * unat (sect disk) + (sec - 1)"
    unfolding sec2 by (elim exE conjE) (rule that [OF _ refl])
  have "task_table_wf v" "slices_sane v"
    using assms(27,28) by (simp_all add: v(2) task_table_wf_def slices_sane_def is1)
  from sleep_until_read [OF _ _ _ _ _ _ _ _ _ _ this, of r b "b_data (bufs s b)"] obtain t where
    t: "wait_on_buffer two_disk_interrupts b v = Done () t" "bufs t = (bufs v)(b := (bufs v b)\<lparr>b_uptodate := 1, b_lock := 0\<rparr>)" "outs t = outs v"
    "\<forall>i < 1024. bmem t (b_data (bufs s b) + of_nat i) = disk_byte v i" "\<forall>a. 1024 \<le> unat (a - b_data (bufs s b)) \<longrightarrow> bmem t a = bmem v a"
    "CURRENT t = None" "current t = current v" "t_state (cur t) = TASK_RUNNING"
    using w(3,5,7) st0(2) qf(1,5-8) assms(24-26,29-31) by (auto simp: v(2) is1 q)
  have bt: "bufs t = (bufs u)(b := (bufs u b)\<lparr>b_dirt := 0, b_uptodate := 1, b_lock := 0\<rparr>)"
    by (simp add: t(2) v(2) w(5))
  have bread: "bread two_disk_interrupts dev block s = Done (Some b) t"
    using ub(6) by (simp add: bread_def bread_with_def u(1) w(2) v(1) t(1) bt)
  have "cache_inv n (final (bread two_disk_interrupts dev block s))"
    by (rule cache.I_bread [OF two_disk_interrupts_inv assms(2,1)])
  then have "cache_inv n t" unfolding bread by simp
  moreover have "disk_byte v = disk_byte (s\<lparr>in_time := z\<rparr>)" by (simp add: fun_eq_iff disk_byte_def v(2) is1 assms(24))
  ultimately show ?thesis
    using bread u(3-6) ub(2-4,7) ud place t(3-8) wf(2)
    by (intro exI [of _ b] exI [of _ t] exI [of _ sec] exI [of _ hd_nr] exI [of _ c]) (simp add: bt v(2) is1 qf(5))
qed

text \<open>The booted machine with a second task, which runs.\<close>

definition reader :: fs_state where
  "reader = fs_boot\<lparr>patience := 1, task := 0x1000 # 0x2000 # replicate 62 0, current := 0x2000\<rparr>"

lemma reader_disk:
  "blk_dev fs_boot = (replicate NR_BLK_DEV \<lparr>request_fn = None, current_request = None\<rparr>)
     [3 := \<lparr>request_fn = Some Do_hd_request, current_request = None\<rparr>]"
  "length (request fs_boot) = 32" "r_dev (request fs_boot ! 5) = -1" "NR_HD fs_boot = 1" "hd_info fs_boot ! 0 = disk_info"
  "hd_parts fs_boot ! 1 = \<lparr>start_sect = 1, nr_sects = 40000\<rparr>" "in_val fs_boot = (\<lambda>_ _. 0x50)" "in_time fs_boot = 0"
  "outs fs_boot = []" "tmem fs_boot = (\<lambda>_. INIT_TASK 0x1000 0)" "init_task fs_boot = 0x1000"
  by (simp_all add: fs_boot_def buffer_init_def buffer_init_loop_step buffer_init_loop_stop Let_def fs_raw_def
      blk_state.extend_def fs_state.fields_def blk_boot_def mm_state.extend_def blk_state.fields_def
      mm_boot_def sched_state.extend_def mm_state.fields_def sched_boot_def bupd_def del: buffer_init_loop.simps)

lemma reader_facts:
  "cache_inv 3 reader" "\<forall>x < 3. \<not> (b_dev (bufs reader x) = ucast (0x301 :: u32) \<and> b_blocknr (bufs reader x) = 7)"
  "\<exists>x < 3. b_count (bufs reader x) = 0 \<and> b_dirt (bufs reader x) = 0 \<and> b_lock (bufs reader x) = 0"
  "task_table_wf reader" "slices_sane reader" "\<exists>i < 32. sint (r_dev (request reader ! i)) < 0"
proof -
  show "cache_inv 3 reader" by (rule cache_inv_same_block [OF fs_warm_inv(1)]) (simp_all add: reader_def)
  show "\<forall>x < 3. \<not> (b_dev (bufs reader x) = ucast (0x301 :: u32) \<and> b_blocknr (bufs reader x) = 7)"
    using fs_boot_wf(2) by (simp add: reader_def)
  show "\<exists>x < 3. b_count (bufs reader x) = 0 \<and> b_dirt (bufs reader x) = 0 \<and> b_lock (bufs reader x) = 0"
    using fs_boot_wf(2) [of 0] by (intro exI [of _ 0]) (simp add: reader_def)
  show "task_table_wf reader" by (simp add: task_table_wf_def reader_def reader_disk nth_Cons split: nat.split)
  show "slices_sane reader" by (simp add: slices_sane_def reader_def reader_disk INIT_TASK_def Let_def)
  show "\<exists>i < 32. sint (r_dev (request reader ! i)) < 0"
    by (intro exI [of _ 5]) (simp add: reader_def reader_disk)
qed

theorem bread_reads_the_disk_witness:
  "\<exists>b t sec. bread two_disk_interrupts 0x301 7 reader = Done (Some b) t \<and> b_blocknr (bufs t b) = 7 \<and> b_uptodate (bufs t b) = 1 \<and>
     bmem t (b_data (bufs t b) + 2) = 0x50 \<and> outs t ! 2 = (0x1f2, 2) \<and> outs t ! 3 = (0x1f3, of_nat sec) \<and> sec \<le> 17"
proof -
  have d: "MAJOR 0x301 = 3" "1 = unat (MINOR 0x301)" by (simp_all add: MINOR_def MAJOR_def drop_bit_eq_div)
  have r: "in_time reader = 0" "in_val reader = (\<lambda>_ _. 0x50)" "hd_parts reader ! 1 = \<lparr>start_sect = 1, nr_sects = 40000\<rparr>"
    "hd_info reader ! 0 = disk_info" "NR_HD reader = 1" "outs reader = []" "length (request reader) = 32" "init_task reader = 0x1000"
    "blk_dev reader = (replicate NR_BLK_DEV \<lparr>request_fn = None, current_request = None\<rparr>)
     [3 := \<lparr>request_fn = Some Do_hd_request, current_request = None\<rparr>]" "patience reader = 1" "current reader = 0x2000"
    by (simp_all add: reader_def reader_disk del: One_nat_def)
  have g: "good_status (in_val reader 1 HD_STATUS)" "good_status (in_val reader (1 + 257) HD_STATUS)" by (simp_all add: r good_status_def)
  have h: "is_dev 0x301" "3 < length (blk_dev reader)" "request_fn (blk_dev reader ! 3) = Some Do_hd_request" "CURRENT reader = None"
    "1 < 5 * NR_HD reader" "NR_HD reader \<le> 2" "disk_info = hd_info reader ! (1 div 5)"
    "2 * unat (7 :: u32) + 2 \<le> unat (nr_sects (hd_parts reader ! 1))"
    "unat (start_sect (hd_parts reader ! 1)) + unat (nr_sects (hd_parts reader ! 1)) \<le> unat (head disk_info) * unat (sect disk_info) * unat (cyl disk_info)"
    "unat (head disk_info) \<le> 16" "unat (sect disk_info) \<le> 255" "unat (cyl disk_info) \<le> 65536"
    "\<forall>j < 0. busy (in_val reader (in_time reader + j) HD_STATUS)" "\<not> busy (in_val reader (in_time reader + 0) HD_STATUS)"
    "1 = in_time reader + 0 + 1" "0 < patience reader" "current reader \<noteq> init_task reader" "current reader \<noteq> 0"
    by (simp_all add: r disk_info_def del: One_nat_def)
  from bread_reads_the_disk [OF reader_facts(1) h(1) d(1) reader_facts(2,3) h(2-4) r(7) reader_facts(6) d(2) h(5,6) refl h(7-12) _ h(13-15) g
      reader_facts(4,5) h(16-18)] obtain b t sec where "bread two_disk_interrupts 0x301 7 reader = Done (Some b) t" "b_blocknr (bufs t b) = 7" "b_uptodate (bufs t b) = 1"
    and data: "b_data (bufs t b) = b_data (bufs reader b)" "\<forall>i < 1024. bmem t (b_data (bufs reader b) + of_nat i) = disk_byte (reader\<lparr>in_time := 1\<rparr>) i"
    and "outs t ! 2 = (0x1f2, 2)" "outs t ! 3 = (0x1f3, of_nat sec)" "sec \<le> 17"
    by (auto simp: r disk_info_def)
  moreover have "bmem t (b_data (bufs t b) + 2) = 0x50"
    using spec [OF data(2), of 2] by (simp add: data(1) disk_byte_def r)
  ultimately show ?thesis by blast
qed

end
