(* ===== verification/Spec2Isabelle.thy ===== *)
theory Spec2Isabelle
  imports Kernel Token Userland Reading
begin

text \<open>
  A model of the hios kernel, a small Unix of the Linux 0.1x family for the 80386, written in C with
  assembler at its edges. The development models the C code of the kernel from \<open>main\<close> up to the move to user
  mode, every system call, every interrupt, the string functions of \<^verbatim>\<open>include/string.h\<close>
  and the library of the user side but for \<open>printf\<close>, and proves what
  its parts promise to each other. File names are those under \<^verbatim>\<open>src/\<close>.

  \<^bold>\<open>The parts and how they work together.\<close> Tasks are scheduled by \<open>schedule\<close> and wait in queues
  (\<open>sleep_on\<close>, \<open>wake_up\<close>). Memory management hands out frames and shares pages between a task and
  its child until one writes. The block layer queues requests for the disk driver, whose interrupt handler
  completes them and wakes the waiting tasks. The buffer cache holds blocks of the disk, the inode table the
  inodes, read and written through the cache; above them lie path names, open files and the descriptors of a
  task. The terminal connects the keyboard interrupt, three character queues and the screen. System calls
  come in through one gate and a table; on the way back to the user a pending signal is delivered.

  \<^bold>\<open>State.\<close> One record, extended from part to part, holds the variables of the kernel:
  \<open>sched_state\<close> (tasks, clock, wait queues, log), \<open>mm_state\<close> (frame counts, physical memory),
  \<open>blk_state\<close> (requests, disks, ports, buffer heads, data of buffers), \<open>fs_state\<close> (cache, inodes, super
  blocks, open files), \<open>tty_state\<close> (terminals, screen), \<open>proc_state\<close> (descriptor table, coprocessor) and
  \<open>boot_state\<close> (interrupt table). An operation of a part is a function on the record of its part or any
  extension of it. The result is an \<open>outcome\<close> of \<open>Prelude\<close>: \<open>Done v s\<close>, \<open>Halted h s\<close> (a panic, or an access
  that C leaves undefined), or \<open>Blocked s\<close> (not followed further); \<open>kbind\<close> runs one routine after another.
  Pointers are addresses where the code computes with them and table indexes where it does not. Machine
  integers are words (\<open>u8\<close>, \<open>u16\<close>, \<open>u32\<close>), so sums wrap and comparisons are signed where the C types are.
  The stores \<open>pmem\<close> (frames), \<open>bmem\<close> (buffer data), \<open>vmem\<close> (screen), \<open>tmem\<close> (task structures) and the memory
  \<open>m\<close> of the kernel's own strings are kept apart.

  \<^bold>\<open>Sleeping.\<close> A routine that may give up the processor takes an argument \<open>env\<close>, what the other tasks do
  to the state meanwhile. Component theorems assume of \<open>env\<close> only that it keeps the invariant in question;
  \<open>Kernel\<close> discharges that, since there \<open>env\<close> is a run of the same kernel.

  \<^bold>\<open>Theories.\<close>
  \<^item> \<open>Prelude\<close>: outcomes, sequencing, words, lists and loops.
  \<^item> \<open>Sched\<close>: \<^verbatim>\<open>kernel/sched.c\<close>, \<^verbatim>\<open>kernel/sys.c\<close>, \<^verbatim>\<open>kernel/panic.c\<close> and the records of
    \<^verbatim>\<open>include/linux/sched.h\<close> and \<^verbatim>\<open>include/signal.h\<close>. Which task is chosen, that the choice ends, when signals
    wake a task, when an alarm fires.
  \<^item> \<open>Memory\<close>: \<^verbatim>\<open>mm/memory.c\<close> and the table walk of \<^verbatim>\<open>mm/mm_test.c\<close>. Frames are handed out once each; \<open>put_page\<close>
    maps; copy on write gives a writer its own copy; \<open>copy_page_tables\<close> shares and counts.
  \<^item> \<open>Blk\<close>: \<^verbatim>\<open>kernel/blk_drv/blk.h\<close>, \<^verbatim>\<open>ll_rw_blk.c\<close> and \<^verbatim>\<open>hd.c\<close>. The queue of a device is the elevator
    order; the command sent to the controller denotes the sector of the request, in range; a read completes.
  \<^item> \<open>Fs\<close>, \<open>Buffer\<close>, \<open>Buffer_Queues\<close>, \<open>Cache\<close>: \<^verbatim>\<open>include/linux/fs.h\<close> and \<^verbatim>\<open>fs/buffer.c\<close>. The pointer
    structures are a ring and chains of lists (\<open>cache_wf\<close>); \<open>getblk\<close>, \<open>bread\<close>, \<open>brelse\<close> keep that, sleeping included.
  \<^item> \<open>Sync\<close>, \<open>Inode_IO\<close>, \<open>Inodes\<close>, \<open>Zones\<close>: \<^verbatim>\<open>fs/inode.c\<close>, \<^verbatim>\<open>fs/bitmap.c\<close>, \<^verbatim>\<open>fs/truncate.c\<close> and the locks of
    \<^verbatim>\<open>fs/super.c\<close>. What \<open>getblk\<close> and \<open>bread\<close> return, the round trip of an inode, \<open>bmap\<close> as a walk of a tree,
    \<open>free_block\<close> as one bit.
  \<^item> \<open>Reading\<close>: a block read from the disk across all of these, from \<open>bread\<close> to the ports, a sleep, the two
    interrupts of the disk and back.
  \<^item> \<open>Super\<close>, \<open>Setup\<close>: the rest of \<^verbatim>\<open>fs/super.c\<close> and \<open>sys_setup\<close> of \<^verbatim>\<open>hd.c\<close>. Reading a super block with its
    bitmaps, mounting the root, reading partition tables.
  \<^item> \<open>Filedata\<close>, \<open>Namei\<close>, \<open>Files\<close>: \<^verbatim>\<open>fs/namei.c\<close>, \<^verbatim>\<open>fs/open.c\<close>, \<^verbatim>\<open>fs/fcntl.c\<close>, \<^verbatim>\<open>fs/read_write.c\<close>,
    \<^verbatim>\<open>fs/file_dev.c\<close>. Directory search finds the first entry, paths split at slashes, \<open>read\<close> returns the rest of
    the file, descriptors are counted.
  \<^item> \<open>User\<close>, \<open>Span\<close>: \<^verbatim>\<open>include/asm/segment.h\<close>, \<^verbatim>\<open>include/asm/system.h\<close> and \<open>verify_area\<close>. Accesses to the
    memory of a task through its segment and page tables, and runs of them.
  \<^item> \<open>Ring\<close>, \<open>Console\<close>, \<open>Tty\<close>: \<^verbatim>\<open>include/linux/tty.h\<close>, \<^verbatim>\<open>kernel/chr_drv/\<close>. Queues are first in, first out;
    the screen shows what is written; the keyboard edits a line.
  \<^item> \<open>Text\<close>, \<open>Token\<close>: \<^verbatim>\<open>include/string.h\<close>, following its string instructions.
  \<^item> \<open>Format\<close>, \<open>Printk\<close>: \<^verbatim>\<open>kernel/vsprintf.c\<close>, \<^verbatim>\<open>kernel/printk.c\<close>, \<^verbatim>\<open>kernel/serial_debug.c\<close>, against the
    reference \<open>render\<close>.
  \<^item> \<open>Signal\<close>, \<open>Exit\<close>, \<open>Fork\<close>: \<^verbatim>\<open>kernel/signal.c\<close>, \<^verbatim>\<open>kernel/exit.c\<close>, \<^verbatim>\<open>kernel/fork.c\<close>. Entering a handler,
    \<open>sigaction\<close>, \<open>kill\<close>, \<open>waitpid\<close>, the end of a task, the copy of a task and of its counts.
  \<^item> \<open>Traps\<close>, \<open>Boot\<close>: \<^verbatim>\<open>kernel/traps.c\<close>, \<open>sched_init\<close> and \<^verbatim>\<open>init/main.c\<close>. The kernel starts, with all tables
    as they should be.
  \<^item> \<open>Syscalls\<close>, \<open>Entry\<close>: \<^verbatim>\<open>include/linux/sys.h\<close>, \<^verbatim>\<open>include/unistd.h\<close>, \<^verbatim>\<open>kernel/system_call.s\<close>,
    \<^verbatim>\<open>kernel/chr_drv/keyboard.s\<close>, \<^verbatim>\<open>mm/page.s\<close>. Which routine a call reaches, and a signal delivered on its return.
  \<^item> \<open>Restore\<close>, \<open>Userland\<close>: \<^verbatim>\<open>kernel/libc_restore.s\<close> and \<^verbatim>\<open>lib/\<close>, the code that runs as the user: the way back from
    a handler to the interrupted program, the functions over the system calls, and \<open>getline\<close>, which gets the
    line typed through the gate of the kernel.
  \<^item> \<open>Kernel\<close>: all of it as a machine of events; what holds from the start on, whatever happens.

  \<^bold>\<open>Interfaces.\<close> The theories named \<open>..._Frame\<close> and \<open>Sync\<close> hold locales of the form "an invariant that these few
  updates keep is kept by all these routines": \<open>sched_frame\<close>, \<open>mm_frame\<close>, \<open>block_frame\<close>, \<open>cache_frame\<close>,
  \<open>inode_frame\<close>, \<open>table_frame\<close>, \<open>file_frame\<close>, \<open>kernel_frame\<close>, each extending the former ones where the
  code of the one calls the other. They are interpreted on the wait queue table, on the order of the cache (\<open>cache_inv n\<close>:
  \<open>cache_wf\<close> with \<open>n\<close> buffers, and a root device number that fits the 16 bits of a buffer's device, as the boot sector's
  word does), on the table of inodes without duplicates, and on \<open>tables_inv\<close>. Three more state contracts:
  \<open>frame_allocator\<close> (of \<open>get_free_page\<close> and \<open>free_page\<close>), \<open>bounded_fifo\<close> (of the macros and of the functions on
  queues) and \<open>printer\<close> (of the loops of \<open>vsprintf\<close> and \<open>s_printk\<close>, which write to memory and to a port).

  \<^bold>\<open>Bounds.\<close> Loops that the code ends by itself recurse structurally or on a measure. A loop that may go round for ever
  (\<open>goto repeat\<close>, polling, waiting) takes as many rounds as the run has \<open>patience\<close> and is \<open>Blocked\<close> then, at
  a state for which the invariants are proved as well; results are stated for any \<open>patience\<close> or with the lemma that
  the loop ends. \<open>stack_room\<close> bounds the recursion of \<open>getblk\<close> and \<open>sync_dev\<close>, which the kernel stack
  bounds in the machine; running over it is an undefined outcome. Loops over strings have \<open>2 ^ 32\<close> rounds
  (\<open>path_room\<close>, \<open>string_room\<close>), more than there are addresses. A directory search has one round more than
  entries, a read one round per byte wanted, the search of a pid 65 rounds, one more than there are
  tasks, the screen as many as the queue has places, \<open>buffer_init\<close> one more than the \<open>2 ^ 22\<close> blocks of the address
  space. The theorems that such a routine returns a result show that its rounds are enough.

  \<^bold>\<open>What C leaves open.\<close> A division by 0, a null pointer or an index that a theorem cannot follow ends in
  \<open>Halted (Undef _)\<close>. Where the compiled code goes on, the model does too: the local \<open>inode\<close> of \<open>sys_open\<close>, which
  \<open>open_namei\<close> leaves unset for an existing file, has the value the stack happens to hold, the next of the
  stream \<open>stale\<close> of the state (an entry of the inode table or \<open>None\<close>, no such entry, which alone ends in
  \<open>Undef\<close>); the byte before the line buffer of a terminal is the last byte of the member in front of it.

  \<^bold>\<open>Printing.\<close> In the components a call of \<open>printk\<close> adds its format and words to the log \<open>klog\<close>, without the newline
  at its end; strings printed by \<open>%s\<close> are put into the format. A call of \<open>s_printk\<close> leaves no trace.
  What both do to the screen and the port is the subject of \<open>Printk\<close>.

  \<^bold>\<open>Not modelled.\<close> Interrupts in the middle of a routine of the kernel, and with them \<open>cli\<close> and \<open>sti\<close>: an event
  is handled from its entry to its end, and others come in between where it sleeps. The flag NT and the task and
  descriptor table registers; the translation buffer of the processor. The assembler of
  \<^verbatim>\<open>boot/\<close> and the entry points of traps in \<^verbatim>\<open>kernel/asm.s\<close>: the addresses of handlers are the
  parameter \<open>adr\<close>, the end of the image is \<open>end_addr\<close>. What a device answers at a port is a function in the state, what
  \<open>fnsave\<close> leaves is one as well. Of the user side: \<open>printf\<close> of \<^verbatim>\<open>lib/\<close>, the programs in
  \<^verbatim>\<open>init/main.c\<close> after the move to user mode and \<^verbatim>\<open>kernel/signal_demo.c\<close>, the test program of
  \<^verbatim>\<open>mm/mm_test.c\<close>: calls in a row and nothing else.
\<close>

end
